(* ===== verification/CPrelude.thy ===== *)
theory CPrelude
  imports Main "HOL-Library.Word" "HOL-Library.Monad_Syntax" "HOL-Library.Multiset"
begin

unbundle bit_operations_syntax

text \<open>
  Shared vocabulary of the development.  Machine integers are words of their C width.
  A pointer is a natural number with \<open>NULL = 0\<close>; the objects of one C type that live on the
  malloc heap are a partial map from pointers to records.  A computation that may read
  through a dangling or null pointer, index an array out of bounds, divide by zero or loop
  forever is a value of type \<open>'a option\<close> with \<open>None\<close> for that failure, so that a theorem
  \<open>f s = Some t\<close> says the code runs to completion without undefined behaviour.
  \<open>Chains\<close> adds a small theory of null-terminated chains of nodes, which carries the proofs about
  the linked structures of the components.
\<close>

type_synonym u8 = "8 word"
type_synonym u16 = "16 word"
type_synonym u32 = "32 word"
type_synonym u64 = "64 word"
type_synonym ptr = nat
type_synonym bytes = "u8 list"

abbreviation (input) NULL :: ptr where
  "NULL \<equiv> 0"

named_theorems ub_simps \<open>unfolding of the partiality primitives\<close>
named_theorems chain_simps \<open>rewriting of chains in a heap\<close>

section \<open>Partiality\<close>

definition ensure :: "bool \<Rightarrow> unit option" where
  "ensure b = (if b then Some () else None)"

definition get_at :: "'a list \<Rightarrow> nat \<Rightarrow> 'a option" where
  "get_at xs i = (if i < length xs then Some (xs ! i) else None)"

definition put_at :: "'a list \<Rightarrow> nat \<Rightarrow> 'a \<Rightarrow> 'a list option" where
  "put_at xs i v = (if i < length xs then Some (xs[i := v]) else None)"

lemma ensure_simps [simp, ub_simps]:
  "ensure True = Some ()" "ensure False = None"
  by (simp_all add: ensure_def)

lemma ensure_eq_Some [simp]: "ensure b = Some u \<longleftrightarrow> b"
  by (simp add: ensure_def)

lemma bind_ensure [simp]: "Option.bind (ensure b) f = (if b then f () else None)"
  by (simp add: ensure_def)

lemma get_at_in [simp, ub_simps]: "i < length xs \<Longrightarrow> get_at xs i = Some (xs ! i)"
  by (simp add: get_at_def)

lemma get_at_eq_Some: "get_at xs i = Some v \<longleftrightarrow> i < length xs \<and> v = xs ! i"
  by (auto simp: get_at_def)

lemma put_at_in [simp, ub_simps]: "i < length xs \<Longrightarrow> put_at xs i v = Some (xs[i := v])"
  by (simp add: put_at_def)

lemma put_at_eq_Some: "put_at xs i v = Some ys \<longleftrightarrow> i < length xs \<and> ys = xs[i := v]"
  by (auto simp: put_at_def)

section \<open>Lists and words\<close>

lemma length_ge_4: "4 \<le> length xs \<Longrightarrow> \<exists>a b c d r. xs = a # b # c # d # r"
  by (auto simp: Suc_le_length_iff numeral_eq_Suc)

lemma length_eq_4: "length xs = 4 \<Longrightarrow> \<exists>a b c d. xs = [a, b, c, d]"
  using length_ge_4 [of xs] by auto

lemma find_Some_unique:
  assumes "\<And>p q. p \<in> set xs \<Longrightarrow> q \<in> set xs \<Longrightarrow> P p \<Longrightarrow> P q \<Longrightarrow> p = q"
  shows "List.find P xs = Some p \<longleftrightarrow> p \<in> set xs \<and> P p"
  using assms by (induction xs) auto

lemma mset_concat_update:
  assumes "i < length bs" and "mset ys = add_mset x (mset (bs ! i))"
  shows "mset (concat (bs[i := ys])) = add_mset x (mset (concat bs))"
proof -
  have "bs = take i bs @ bs ! i # drop (Suc i) bs"
    using assms(1) by (simp add: id_take_nth_drop)
  then have "mset (concat bs) = mset (concat (take i bs)) + mset (bs ! i) + mset (concat (drop (Suc i) bs))"
    by (metis concat.simps(2) concat_append mset_append union_assoc)
  then show ?thesis
    using assms by (simp add: upd_conv_take_nth_drop)
qed

lemma mset_concat_replace:
  assumes "i < length bs"
  shows "mset (concat (bs[i := ys])) + mset (bs ! i) = mset (concat bs) + mset ys"
proof -
  have "bs = take i bs @ bs ! i # drop (Suc i) bs"
    using assms by (simp add: id_take_nth_drop)
  then have "mset (concat bs) = mset (concat (take i bs)) + mset (bs ! i) + mset (concat (drop (Suc i) bs))"
    by (metis concat.simps(2) concat_append mset_append union_assoc)
  then show ?thesis
    using assms by (simp add: upd_conv_take_nth_drop)
qed

lemma concat_insert:
  assumes "i < length bs" and "mset ys = add_mset x (mset (bs ! i))"
  shows "set (concat (bs[i := ys])) = insert x (set (concat bs))"
    and "length (concat (bs[i := ys])) = Suc (length (concat bs))"
    and "distinct (concat (bs[i := ys])) \<longleftrightarrow> x \<notin> set (concat bs) \<and> distinct (concat bs)"
proof -
  note m = mset_concat_update [OF assms]
  show "set (concat (bs[i := ys])) = insert x (set (concat bs))"
    using arg_cong [OF m, of set_mset] by simp
  show "length (concat (bs[i := ys])) = Suc (length (concat bs))"
    using arg_cong [OF m, of size] by simp
  have "distinct (concat (bs[i := ys])) \<longleftrightarrow> distinct (x # concat bs)"
    by (rule mset_eq_imp_distinct_iff) (simp add: m)
  then show "distinct (concat (bs[i := ys])) \<longleftrightarrow> x \<notin> set (concat bs) \<and> distinct (concat bs)"
    by simp
qed

lemma concat_delete:
  assumes "i < length bs" and "mset (bs ! i) = add_mset x (mset ys)" and "distinct (concat bs)"
  shows "set (concat (bs[i := ys])) = set (concat bs) - {x}"
    and "Suc (length (concat (bs[i := ys]))) = length (concat bs)"
    and "distinct (concat (bs[i := ys]))" and "x \<in> set (concat bs)"
proof -
  have "mset (concat ((bs[i := ys])[i := bs ! i])) = add_mset x (mset (concat (bs[i := ys])))"
    using assms by (intro mset_concat_update) auto
  then have m: "mset (concat bs) = add_mset x (mset (concat (bs[i := ys])))"
    using assms(1) by simp
  have d: "distinct (x # concat (bs[i := ys]))"
    using mset_eq_imp_distinct_iff [of "concat bs" "x # concat (bs[i := ys])"] m assms(3) by simp
  show "set (concat (bs[i := ys])) = set (concat bs) - {x}" and "x \<in> set (concat bs)"
    using arg_cong [OF m, of set_mset] d by auto
  show "Suc (length (concat (bs[i := ys]))) = length (concat bs)"
    using arg_cong [OF m, of size] by simp
  show "distinct (concat (bs[i := ys]))" using d by simp
qed

lemma in_concat_nth: "p \<in> set (concat bs) \<longleftrightarrow> (\<exists>j<length bs. p \<in> set (bs ! j))"
  by simp (metis in_set_conv_nth)

lemma distinct_concat_disjoint:
  assumes "distinct (concat bs)" and "i < length bs" and "j < length bs" and "i \<noteq> j"
  shows "set (bs ! i) \<inter> set (bs ! j) = {}"
proof -
  have *: "set (bs ! i) \<inter> set (bs ! j) = {}" if "i < j" "j < length bs" for i j
  proof -
    have "concat bs = concat (take j bs) @ bs ! j @ concat (drop (Suc j) bs)"
      using that(2) by (metis concat.simps(2) concat_append id_take_nth_drop)
    then have "set (concat (take j bs)) \<inter> set (bs ! j) = {}" using assms(1) by auto
    moreover have "bs ! i \<in> set (take j bs)"
      using that nth_mem [of i "take j bs"] by simp
    ultimately show ?thesis by auto
  qed
  show ?thesis using * [of i j] * [of j i] assms(2-4) by (metis inf_commute linorder_neqE_nat)
qed

lemma length_le_concat: "i < length bs \<Longrightarrow> length (bs ! i) \<le> length (concat bs)"
  using elem_le_sum_list [of i "map length bs"] by (simp add: length_concat)

lemma unat_pow2: "j < LENGTH('a) \<Longrightarrow> unat (2 ^ j :: 'a::len word) = 2 ^ j"
proof -
  assume "j < LENGTH('a)"
  then have "unat (of_nat (2 ^ j) :: 'a word) = 2 ^ j"
    by (simp only: unat_of_nat) (simp add: take_bit_nat_eq_self)
  then show ?thesis by simp
qed

lemma unat_bound: "unat (x :: 'a::len word) < 2 ^ LENGTH('a)"
  by (rule unsigned_less)

lemma sint_small:
  assumes "unat x < 2 ^ (LENGTH('a) - 1)"
  shows "sint (x :: 'a::len word) = int (unat x)"
proof -
  have "int (unat x) < 2 ^ (LENGTH('a) - 1)"
    using assms by (metis of_nat_less_iff of_nat_numeral of_nat_power)
  then have "uint x < 2 ^ (LENGTH('a) - 1)" by simp
  moreover have "- (2 ^ (LENGTH('a) - 1)) \<le> uint x" by (rule order_trans [OF _ uint_ge_0]) simp
  ultimately have "signed_take_bit (LENGTH('a) - 1) (uint x) = uint x"
    by (intro signed_take_bit_int_eq_self)
  then show ?thesis by (simp add: sint_uint)
qed

lemma ucast_of_nat_64_32: "ucast (of_nat n :: u64) = (of_nat n :: u32)"
  by (rule bit_word_eqI) (auto simp: bit_simps)

lemma unat_and_le2: "unat (x AND y) \<le> unat (y :: 'a::len word)"
  by (metis word_and_le1 word_le_nat_alt)

lemma unat_less_of_less: "x < y \<Longrightarrow> unat x < unat (y :: 'a::len word)"
  by (simp add: word_less_nat_alt)

end
