(* ===== verification/Chains.thy ===== *)
theory Chains
  imports CPrelude
begin

text \<open>
  Null-terminated singly and doubly linked chains of heap nodes.  A heap is seen through its
  link functions: \<open>n p = Some q\<close> when the node at \<open>p\<close> is allocated and its \<open>next\<close> field is
  \<open>q\<close>.  \<open>chain n p xs\<close> holds when following \<open>n\<close> from \<open>p\<close> visits exactly \<open>xs\<close> and then
  reaches \<open>NULL\<close>; \<open>seg n p xs q\<close> is the same for a segment that ends at \<open>q\<close>.  \<open>dchain\<close>
  adds the back links.  The lemmas say what insertion at the head, unlinking and updates
  outside the chain do, once for all the linked structures of the program.
\<close>

primrec seg :: "(ptr \<Rightarrow> ptr option) \<Rightarrow> ptr \<Rightarrow> ptr list \<Rightarrow> ptr \<Rightarrow> bool" where
  "seg n p [] q \<longleftrightarrow> p = q"
| "seg n p (x # xs) q \<longleftrightarrow> p = x \<and> x \<noteq> NULL \<and>
     (case n x of None \<Rightarrow> False | Some r \<Rightarrow> seg n r xs q)"

definition chain :: "(ptr \<Rightarrow> ptr option) \<Rightarrow> ptr \<Rightarrow> ptr list \<Rightarrow> bool" where
  "chain n p xs \<longleftrightarrow> seg n p xs NULL"

lemma chain_Nil [simp]: "chain n p [] \<longleftrightarrow> p = NULL"
  by (simp add: chain_def)

lemma chain_Cons [simp]: "chain n p (x # xs) \<longleftrightarrow> p = x \<and> x \<noteq> NULL \<and> (\<exists>q. n x = Some q \<and> chain n q xs)"
  by (auto simp: chain_def split: option.splits)

lemma chain_NULL [simp]: "chain n NULL xs \<longleftrightarrow> xs = []"
  by (cases xs) auto

lemma chain_non_null:
  "p \<noteq> NULL \<Longrightarrow> chain n p xs \<longleftrightarrow> (\<exists>q ys. xs = p # ys \<and> n p = Some q \<and> chain n q ys)"
  by (cases xs) auto

lemma seg_Cons: "seg n p (x # xs) q \<longleftrightarrow> p = x \<and> x \<noteq> NULL \<and> (\<exists>r. n x = Some r \<and> seg n r xs q)"
  by (auto split: option.splits)

lemma seg_append [simp]: "seg n p (xs @ ys) q \<longleftrightarrow> (\<exists>r. seg n p xs r \<and> seg n r ys q)"
  by (induction xs arbitrary: p) (auto split: option.splits)

lemma chain_append: "chain n p (xs @ ys) \<longleftrightarrow> (\<exists>r. seg n p xs r \<and> chain n r ys)"
  by (simp add: chain_def)

lemma seg_cong: "(\<And>x. x \<in> set xs \<Longrightarrow> n x = m x) \<Longrightarrow> seg n p xs q = seg m p xs q"
  by (induction xs arbitrary: p) (auto split: option.splits)

lemma chain_cong: "(\<And>x. x \<in> set xs \<Longrightarrow> n x = m x) \<Longrightarrow> chain n p xs = chain m p xs"
  unfolding chain_def by (rule seg_cong)

lemma seg_upd [simp]: "u \<notin> set xs \<Longrightarrow> seg (n(u := v)) p xs q = seg n p xs q"
  by (rule seg_cong) auto

lemma chain_upd [simp]: "u \<notin> set xs \<Longrightarrow> chain (n(u := v)) p xs = chain n p xs"
  by (simp add: chain_def)

lemma chain_unique: "chain n p xs \<Longrightarrow> chain n p ys \<Longrightarrow> xs = ys"
proof (induction xs arbitrary: p ys)
  case Nil
  then show ?case by simp
next
  case (Cons x xs)
  then obtain q where "p = x" "x \<noteq> NULL" "n x = Some q" "chain n q xs" by auto
  with Cons.prems(2) obtain zs where "ys = x # zs" "chain n q zs"
    by (auto simp: chain_non_null)
  with Cons.IH \<open>chain n q xs\<close> show ?case by blast
qed

lemma chain_hd_not_in_tl: "chain n q xs \<Longrightarrow> n x = Some q \<Longrightarrow> x \<notin> set xs"
proof
  assume c: "chain n q xs" and nx: "n x = Some q" and "x \<in> set xs"
  then obtain ys zs where xs: "xs = ys @ x # zs" by (meson split_list)
  with c have "chain n x (x # zs)" by (auto simp: chain_append)
  then have "chain n q zs" using nx by auto
  with c have "xs = zs" by (rule chain_unique)
  with xs show False by simp
qed

lemma chain_distinct: "chain n p xs \<Longrightarrow> distinct xs"
proof (induction xs arbitrary: p)
  case (Cons x xs)
  then obtain q where "n x = Some q" "chain n q xs" by auto
  with Cons.IH chain_hd_not_in_tl show ?case by force
qed simp

lemma chain_nodes: "chain n p xs \<Longrightarrow> x \<in> set xs \<Longrightarrow> x \<noteq> NULL \<and> n x \<noteq> None"
  by (induction xs arbitrary: p) auto

lemma chain_push:
  "chain n p xs \<Longrightarrow> x \<notin> set xs \<Longrightarrow> x \<noteq> NULL \<Longrightarrow> chain (n(x \<mapsto> p)) x (x # xs)"
  by simp

lemma seg_redirect:
  assumes "seg n p (xs @ [a]) b" and "distinct (xs @ [a])"
  shows "seg (n(a \<mapsto> c)) p (xs @ [a]) c"
  using assms by auto

lemma chain_unlink:
  assumes "chain n p (xs @ a # b # ys)" and "n b = Some c"
  shows "chain (n(a \<mapsto> c)) p (xs @ a # ys)"
proof -
  have d: "distinct (xs @ a # b # ys)" using assms(1) by (rule chain_distinct)
  from assms have "seg n p (xs @ [a]) b" and c: "chain n c ys"
    by (auto simp: chain_append)
  then have "seg (n(a \<mapsto> c)) p (xs @ [a]) c"
    using d by (intro seg_redirect) auto
  moreover have "chain (n(a \<mapsto> c)) c ys" using c d by simp
  ultimately have "chain (n(a \<mapsto> c)) p ((xs @ [a]) @ ys)"
    unfolding chain_append by blast
  then show ?thesis by simp
qed

text \<open>The nodes met by following \<open>n\<close> from \<open>p\<close>, at most \<open>fuel\<close> of them.\<close>

primrec walk :: "(ptr \<Rightarrow> ptr option) \<Rightarrow> nat \<Rightarrow> ptr \<Rightarrow> ptr list" where
  "walk n 0 p = []"
| "walk n (Suc fuel) p = (if p = NULL then [] else
     case n p of None \<Rightarrow> [] | Some q \<Rightarrow> p # walk n fuel q)"

lemma walk_chain: "chain n p xs \<Longrightarrow> length xs \<le> fuel \<Longrightarrow> walk n fuel p = xs"
proof (induction fuel arbitrary: p xs)
  case (Suc fuel)
  then show ?case by (cases xs) auto
qed simp

section \<open>Doubly linked chains\<close>

text \<open>\<open>dseg n b v p xs q\<close>: the nodes \<open>xs\<close> lead from \<open>p\<close> to \<open>q\<close>, and the back link of the first is \<open>v\<close>.\<close>

primrec dseg :: "(ptr \<Rightarrow> ptr option) \<Rightarrow> (ptr \<Rightarrow> ptr option) \<Rightarrow> ptr \<Rightarrow> ptr \<Rightarrow> ptr list \<Rightarrow> ptr \<Rightarrow> bool" where
  "dseg n b v p [] q \<longleftrightarrow> p = q"
| "dseg n b v p (x # xs) q \<longleftrightarrow> p = x \<and> x \<noteq> NULL \<and> b x = Some v \<and>
     (case n x of None \<Rightarrow> False | Some r \<Rightarrow> dseg n b x r xs q)"

definition dchain :: "(ptr \<Rightarrow> ptr option) \<Rightarrow> (ptr \<Rightarrow> ptr option) \<Rightarrow> ptr \<Rightarrow> ptr \<Rightarrow> ptr list \<Rightarrow> bool" where
  "dchain n b v p xs \<longleftrightarrow> dseg n b v p xs NULL"

lemma dseg_append: "dseg n b v p (xs @ ys) q \<longleftrightarrow> (\<exists>r. dseg n b v p xs r \<and> dseg n b (last (v # xs)) r ys q)"
  by (induction xs arbitrary: v p) (auto split: option.splits)

lemma dchain_Nil [simp]: "dchain n b v p [] \<longleftrightarrow> p = NULL"
  by (simp add: dchain_def)

lemma dchain_Cons [simp]: "dchain n b v p (x # xs) \<longleftrightarrow> p = x \<and> x \<noteq> NULL \<and> b x = Some v \<and>
     (\<exists>q. n x = Some q \<and> dchain n b x q xs)"
  by (auto simp: dchain_def split: option.splits)

lemma dchain_append: "dchain n b v p (xs @ ys) \<longleftrightarrow> (\<exists>r. dseg n b v p xs r \<and> dchain n b (last (v # xs)) r ys)"
  by (simp add: dchain_def dseg_append)

lemma dseg_seg: "dseg n b v p xs q \<Longrightarrow> seg n p xs q"
  by (induction xs arbitrary: v p) (auto split: option.splits)

lemma dchain_chain: "dchain n b v p xs \<Longrightarrow> chain n p xs"
  by (simp add: dchain_def chain_def dseg_seg)

lemma dchain_NULL [simp]: "dchain n b v NULL xs \<longleftrightarrow> xs = []"
  by (cases xs) auto

lemma dseg_cong:
  assumes "\<And>x. x \<in> set xs \<Longrightarrow> n x = n' x" and "\<And>x. x \<in> set xs \<Longrightarrow> b x = b' x"
  shows "dseg n b v p xs q = dseg n' b' v p xs q"
  using assms by (induction xs arbitrary: v p) (auto split: option.splits)

lemma dchain_cong:
  assumes "\<And>x. x \<in> set xs \<Longrightarrow> n x = n' x" and "\<And>x. x \<in> set xs \<Longrightarrow> b x = b' x"
  shows "dchain n b v p xs = dchain n' b' v p xs"
  unfolding dchain_def using assms by (rule dseg_cong)

lemma dchain_distinct: "dchain n b v p xs \<Longrightarrow> distinct xs"
  using dchain_chain chain_distinct by blast

lemma dchain_nodes: "dchain n b v p xs \<Longrightarrow> x \<in> set xs \<Longrightarrow> x \<noteq> NULL \<and> n x \<noteq> None \<and> b x \<noteq> None"
  by (induction xs arbitrary: v p) auto

text \<open>The last node of a segment has the end of the segment as its successor.\<close>

lemma dseg_snoc: "dseg n b v p (xs @ [a]) q \<longleftrightarrow> dseg n b v p xs a \<and> a \<noteq> NULL \<and> b a = Some (last (v # xs)) \<and> n a = Some q"
  by (auto simp: dseg_append split: option.splits)

lemma dchain_head_prev: "dchain n b v p (x # xs) \<Longrightarrow> (\<And>y. y \<in> set (x # xs) \<Longrightarrow> n' y = n y) \<Longrightarrow>
    b' x = Some w \<Longrightarrow> (\<And>y. y \<in> set xs \<Longrightarrow> b' y = b y) \<Longrightarrow> dchain n' b' w p (x # xs)"
  using dchain_cong [of xs n n' b b'] by auto

lemma dchain_relink:
  assumes "dchain n b v p xs" and "distinct xs" and "\<And>y. y \<in> set xs \<Longrightarrow> n' y = n y"
    and "p \<noteq> NULL \<Longrightarrow> b' p = Some w" and "\<And>y. y \<in> set xs \<Longrightarrow> y \<noteq> p \<Longrightarrow> b' y = b y"
  shows "dchain n' b' w p xs"
proof (cases xs)
  case Nil
  with assms(1) show ?thesis by simp
next
  case (Cons x ys)
  with assms(1) have px: "p = x" "x \<noteq> NULL" by auto
  show ?thesis
    unfolding Cons
  proof (rule dchain_head_prev)
    show "dchain n b v p (x # ys)" using assms(1) Cons by (simp only:)
    show "n' y = n y" if "y \<in> set (x # ys)" for y using assms(3) that Cons by blast
    show "b' x = Some w" using assms(4) px by blast
    show "b' y = b y" if "y \<in> set ys" for y using assms(2,5) that Cons px by auto
  qed
qed

lemma dchain_insert_after:
  assumes c: "dchain n b v p (xs @ a # ys)" and na: "n a = Some c" and u: "u \<notin> set (xs @ a # ys)" "u \<noteq> NULL"
    and n': "n' a = Some u" "n' u = Some c" "\<And>x. x \<in> set xs \<union> set ys \<Longrightarrow> n' x = n x"
    and b': "b' u = Some a" "c \<noteq> NULL \<Longrightarrow> b' c = Some u"
      "\<And>x. x \<in> set (xs @ a # ys) \<Longrightarrow> x \<noteq> c \<Longrightarrow> b' x = b x"
  shows "dchain n' b' v p (xs @ a # u # ys)"
proof -
  have d: "distinct (xs @ a # ys)" using c by (rule dchain_distinct)
  from c na have s: "dseg n b v p xs a" "a \<noteq> NULL" "b a = Some (last (v # xs))" "dchain n b a c ys"
    by (auto simp: dchain_append)
  have cin: "c = NULL \<or> c \<in> set ys" using s(4) by (cases ys) auto
  have nc: "c \<notin> set (xs @ [a])" using cin d dchain_nodes [OF c] by auto
  have "dseg n' b' v p xs a"
    using s(1) by (subst dseg_cong [of xs n' n b' b]) (use nc n'(3) b'(3) in auto)
  moreover have "b' a = b a" using nc b'(3) by auto
  moreover have "dchain n' b' u c ys"
    by (rule dchain_relink [OF s(4)]) (use d n'(3) b' in auto)
  ultimately show ?thesis
    using s n' b' u(2) unfolding dchain_append by auto
qed

lemma dchain_insert_head:
  assumes c: "dchain n b v p xs" and u: "u \<notin> set xs" "u \<noteq> NULL"
    and n': "n' u = Some p" "\<And>x. x \<in> set xs \<Longrightarrow> n' x = n x"
    and b': "b' u = Some v" "p \<noteq> NULL \<Longrightarrow> b' p = Some u" "\<And>x. x \<in> set xs \<Longrightarrow> x \<noteq> p \<Longrightarrow> b' x = b x"
  shows "dchain n' b' v u (u # xs)"
  using dchain_relink [OF c dchain_distinct [OF c], of n' b' u] assms by auto

lemma dchain_unlink:
  assumes c: "dchain n b v p (xs @ u # ys)" and nu: "n u = Some c"
    and p': "p' = (if xs = [] then c else p)"
    and n': "xs \<noteq> [] \<Longrightarrow> n' (last xs) = Some c" "\<And>x. x \<in> set xs \<union> set ys \<Longrightarrow> xs = [] \<or> x \<noteq> last xs \<Longrightarrow> n' x = n x"
    and b': "c \<noteq> NULL \<Longrightarrow> b' c = Some (last (v # xs))" "\<And>x. x \<in> set xs \<union> set ys \<Longrightarrow> x \<noteq> c \<Longrightarrow> b' x = b x"
  shows "dchain n' b' v p' (xs @ ys)"
proof -
  have d: "distinct (xs @ u # ys)" using c by (rule dchain_distinct)
  from c nu have s: "dseg n b v p xs u" "b u = Some (last (v # xs))" "dchain n b u c ys"
    by (auto simp: dchain_append)
  have cin: "c = NULL \<or> c \<in> set ys" using s(3) by (cases ys) auto
  have nc: "c \<notin> set xs" using cin d dchain_nodes [OF c] by auto
  have r: "dchain n' b' (last (v # xs)) c ys"
    by (rule dchain_relink [OF s(3)]) (use d n'(2) b' in \<open>auto dest: last_in_set\<close>)
  show ?thesis
  proof (cases xs rule: rev_cases)
    case Nil
    with r p' show ?thesis by simp
  next
    case (snoc zs a)
    with s(1) have z: "dseg n b v p zs a" "a \<noteq> NULL" "b a = Some (last (v # zs))" by (simp_all add: dseg_snoc)
    have "dseg n' b' v p zs a"
      using z(1) by (subst dseg_cong [of zs n' n b' b]) (use nc n'(2) b'(2) snoc d in auto)
    moreover have "b' a = b a" using nc b'(2) snoc by auto
    moreover have "n' a = Some c" using n'(1) snoc by simp
    ultimately have "dseg n' b' v p xs c" using z snoc by (simp add: dseg_snoc)
    with r have "dchain n' b' v p (xs @ ys)" unfolding dchain_append by blast
    then show ?thesis using p' snoc by simp
  qed
qed

lemma dchain_replace:
  assumes c: "dchain n b v p (xs @ u # ys)" and nu: "n u = Some c" and w: "w \<notin> set (xs @ ys)" "w \<noteq> NULL"
    and p': "p' = (if xs = [] then w else p)"
    and n': "n' w = Some c" "xs \<noteq> [] \<Longrightarrow> n' (last xs) = Some w"
      "\<And>x. x \<in> set xs \<union> set ys \<Longrightarrow> xs = [] \<or> x \<noteq> last xs \<Longrightarrow> n' x = n x"
    and b': "b' w = Some (last (v # xs))" "c \<noteq> NULL \<Longrightarrow> b' c = Some w" "\<And>x. x \<in> set xs \<union> set ys \<Longrightarrow> x \<noteq> c \<Longrightarrow> b' x = b x"
  shows "dchain n' b' v p' (xs @ w # ys)"
proof -
  have d: "distinct (xs @ u # ys)" using c by (rule dchain_distinct)
  from c nu have s: "dseg n b v p xs u" "dchain n b u c ys" by (auto simp: dchain_append)
  have cin: "c = NULL \<or> c \<in> set ys" using s(2) by (cases ys) auto
  have nc: "c \<notin> set xs" using cin d dchain_nodes [OF c] by auto
  have "dchain n' b' w c ys"
    by (rule dchain_relink [OF s(2)]) (use d n'(3) b' in \<open>auto dest: last_in_set\<close>)
  then have r: "dchain n' b' (last (v # xs)) w (w # ys)" using w n'(1) b'(1) by simp
  show ?thesis
  proof (cases xs rule: rev_cases)
    case Nil
    with r p' show ?thesis by simp
  next
    case (snoc zs a)
    with s(1) have z: "dseg n b v p zs a" "a \<noteq> NULL" "b a = Some (last (v # zs))" by (simp_all add: dseg_snoc)
    have "dseg n' b' v p zs a"
      using z(1) by (subst dseg_cong [of zs n' n b' b]) (use nc n'(3) b'(3) snoc d in auto)
    moreover have "b' a = b a" using nc b'(3) snoc by auto
    moreover have "n' a = Some w" using n'(2) snoc by simp
    ultimately have "dseg n' b' v p xs w" using z snoc by (simp add: dseg_snoc)
    with r have "dchain n' b' v p (xs @ w # ys)" unfolding dchain_append by blast
    then show ?thesis using p' snoc by simp
  qed
qed

lemma last_outside: "distinct (xs @ u # ys) \<Longrightarrow> xs \<noteq> [] \<Longrightarrow> last xs \<in> set xs \<and> last xs \<noteq> u \<and> last xs \<notin> set ys"
  by (cases xs rule: rev_cases) auto

end
