(* ===== verification/HashFuns.thy ===== *)
theory HashFuns
  imports CPrelude
begin

text \<open>
  The hash functions of \<open>demo_hash/demo_hash.h\<close>, of \<open>demo_dict/dict.c\<close> and \<open>mp_hash\<close> of
  \<open>demo_mempool/mphash.c\<close>, on 32-bit words with the wrap-around of \<open>unsigned int\<close>.
  A buffer is a list of bytes and a read past its end is \<open>None\<close>.  A 4-byte read through
  \<open>uint32_t*\<close> is little-endian, as on the platforms the demos are built for.
\<close>

section \<open>Definitions\<close>

definition IntHash :: "u32 \<Rightarrow> u32" where
  "IntHash key0 =
     (let key = key0 + NOT (push_bit 15 key0);
          key = key XOR drop_bit 10 key;
          key = key + push_bit 3 key;
          key = key XOR drop_bit 6 key;
          key = key + NOT (push_bit 11 key);
          key = key XOR drop_bit 16 key
      in key)"

definition dictIntHashFunction :: "u32 \<Rightarrow> u32" where
  "dictIntHashFunction key0 =
     (let key = key0 + NOT (push_bit 15 key0);
          key = key XOR drop_bit 10 key;
          key = key + push_bit 3 key;
          key = key XOR drop_bit 6 key;
          key = key + NOT (push_bit 11 key);
          key = key XOR drop_bit 16 key
      in key)"

definition le32 :: "u8 \<Rightarrow> u8 \<Rightarrow> u8 \<Rightarrow> u8 \<Rightarrow> u32" where
  "le32 a b c d = ucast a OR push_bit 8 (ucast b) OR push_bit 16 (ucast c) OR push_bit 24 (ucast d)"

definition murmur_m :: u32 where
  "murmur_m = 0x5bd1e995"

text \<open>The body of the loop over 4-byte groups.\<close>

definition murmur_block :: "u32 \<Rightarrow> u32 \<Rightarrow> u32" where
  "murmur_block h0 k0 =
     (let k = k0 * murmur_m;
          k = k XOR drop_bit 24 k;
          k = k * murmur_m;
          h = h0 * murmur_m
      in h XOR k)"

fun murmur_loop :: "u32 \<Rightarrow> bytes \<Rightarrow> nat \<Rightarrow> (u32 \<times> bytes \<times> nat) option" where
  "murmur_loop h data len =
     (if len < 4 then Some (h, data, len)
      else case data of
        a # b # c # d # rest \<Rightarrow> murmur_loop (murmur_block h (le32 a b c d)) rest (len - 4)
      | _ \<Rightarrow> None)"

declare murmur_loop.simps [simp del]

text \<open>The \<open>switch\<close> on the remaining length, with its fall-through from 3 to 2 to 1.\<close>

definition murmur_tail :: "u32 \<Rightarrow> bytes \<Rightarrow> nat \<Rightarrow> u32 option" where
  "murmur_tail h data len =
     (if len = 3 then do {
        d2 \<leftarrow> get_at data 2; d1 \<leftarrow> get_at data 1; d0 \<leftarrow> get_at data 0;
        let h = h XOR push_bit 16 (ucast d2);
        let h = h XOR push_bit 8 (ucast d1);
        Some ((h XOR ucast d0) * murmur_m) }
      else if len = 2 then do {
        d1 \<leftarrow> get_at data 1; d0 \<leftarrow> get_at data 0;
        let h = h XOR push_bit 8 (ucast d1);
        Some ((h XOR ucast d0) * murmur_m) }
      else if len = 1 then do {
        d0 \<leftarrow> get_at data 0;
        Some ((h XOR ucast d0) * murmur_m) }
      else Some h)"

definition murmur_final :: "u32 \<Rightarrow> u32" where
  "murmur_final h0 =
     (let h = h0 XOR drop_bit 13 h0;
          h = h * murmur_m
      in h XOR drop_bit 15 h)"

text \<open>\<open>seed\<close> is the global \<open>hash_seed\<close>; \<open>len\<close> is a \<open>size_t\<close>, truncated by the assignment to
  \<open>uint32_t h\<close>.\<close>

definition MurmurHash2 :: "u32 \<Rightarrow> bytes \<Rightarrow> u64 \<Rightarrow> u32 option" where
  "MurmurHash2 seed data len = do {
     (h, rest, l) \<leftarrow> murmur_loop (seed XOR ucast len) data (unat len);
     h \<leftarrow> murmur_tail h rest l;
     Some (murmur_final h) }"

text \<open>The copy in \<open>dict.c\<close> takes \<open>int len\<close>: for a negative length neither the loop nor the
  \<open>switch\<close> does anything.\<close>

definition dictGenHashFunction :: "u32 \<Rightarrow> bytes \<Rightarrow> int \<Rightarrow> u32 option" where
  "dictGenHashFunction seed data len = do {
     (h, rest, l) \<leftarrow> (if len < 0 then Some (seed XOR word_of_int len, data, 0)
                      else murmur_loop (seed XOR word_of_int len) data (nat len));
     h \<leftarrow> murmur_tail h rest l;
     Some (murmur_final h) }"

definition tolower :: "u8 \<Rightarrow> u8" where
  "tolower c = (if 65 \<le> c \<and> c \<le> 90 then c + 32 else c)"

text \<open>\<open>hash = ((hash << 5) + hash) + c\<close>; a plain \<open>char\<close> is signed and is sign-extended.\<close>

fun DJBHash_loop :: "u32 \<Rightarrow> bytes \<Rightarrow> u32 option" where
  "DJBHash_loop hash [] = None"
| "DJBHash_loop hash (c # cs) =
     (if c = 0 then Some hash
      else DJBHash_loop ((push_bit 5 hash + hash) + scast c) cs)"

definition DJBHash :: "u32 \<Rightarrow> bytes \<Rightarrow> u32 option" where
  "DJBHash seed str = do {
     hash \<leftarrow> DJBHash_loop seed str;
     Some (hash AND NOT (push_bit 31 1)) }"

fun DJBCaseHash_loop :: "u32 \<Rightarrow> bytes \<Rightarrow> nat \<Rightarrow> u32 option" where
  "DJBCaseHash_loop hash buf 0 = Some hash"
| "DJBCaseHash_loop hash [] (Suc len) = None"
| "DJBCaseHash_loop hash (c # cs) (Suc len) =
     DJBCaseHash_loop ((push_bit 5 hash + hash) + ucast (tolower c)) cs len"

definition DJBCaseHash :: "u32 \<Rightarrow> bytes \<Rightarrow> u64 \<Rightarrow> u32 option" where
  "DJBCaseHash seed buf len = DJBCaseHash_loop seed buf (unat len)"

text \<open>The copy in \<open>dict.c\<close> has \<open>int len\<close> and the guard \<open>len--\<close>; the model is given for
  \<open>len \<ge> 0\<close> and is \<open>None\<close> for a negative length, where the loop would run off the buffer.\<close>

definition dictGenCaseHashFunction :: "u32 \<Rightarrow> bytes \<Rightarrow> int \<Rightarrow> u32 option" where
  "dictGenCaseHashFunction seed buf len =
     (if len < 0 then None else DJBCaseHash_loop seed buf (nat len))"

text \<open>\<open>while (len--) hash = (hash * 16777619) ^ key[len]\<close> reads the buffer from its end.\<close>

fun FNVHash_loop :: "u32 \<Rightarrow> bytes \<Rightarrow> nat \<Rightarrow> u32 option" where
  "FNVHash_loop hash key 0 = Some hash"
| "FNVHash_loop hash key (Suc len) = do {
     c \<leftarrow> get_at key len;
     FNVHash_loop ((hash * 16777619) XOR ucast c) key len }"

definition M_MASK :: u32 where
  "M_MASK = 0x8765fed1"

definition FNVHash :: "nat \<Rightarrow> bytes \<Rightarrow> u64 \<Rightarrow> u32 option" where
  "FNVHash M_SHIFT key len = do {
     hash \<leftarrow> FNVHash_loop 2166136261 key (unat len);
     Some (if M_SHIFT = 0 then hash else (hash XOR drop_bit M_SHIFT hash) AND M_MASK) }"

definition FNV_MAGIC_INIT :: u32 where
  "FNV_MAGIC_INIT = 0x811c9dc5"

definition FNV_MAGIC_PRIME :: u32 where
  "FNV_MAGIC_PRIME = 0x01000193"

fun mp_hash_loop :: "u32 \<Rightarrow> bytes \<Rightarrow> u32" where
  "mp_hash_loop hash [] = hash"
| "mp_hash_loop hash (c # cs) = mp_hash_loop ((hash * FNV_MAGIC_PRIME) XOR ucast c) cs"

definition mp_hash :: "bytes \<Rightarrow> u32" where
  "mp_hash data = mp_hash_loop FNV_MAGIC_INIT data"


section \<open>Mixing steps are injective\<close>

named_theorems mix_inj \<open>injectivity of the reversible mixing steps\<close>

lemma inj_mult_odd [mix_inj]:
  fixes c :: "'a::len word"
  assumes "odd (uint c)"
  shows "inj (\<lambda>x. x * c)"
proof (rule injI)
  fix x y :: "'a word"
  assume "x * c = y * c"
  then have "(uint x * uint c) mod 2 ^ LENGTH('a) = (uint y * uint c) mod 2 ^ LENGTH('a)"
    by (metis uint_word_ariths(3))
  then have "2 ^ LENGTH('a) dvd (uint x - uint y) * uint c"
    by (simp add: mod_eq_dvd_iff left_diff_distrib)
  moreover have "coprime (2 ^ LENGTH('a)) (uint c)"
    using assms by simp
  ultimately have "2 ^ LENGTH('a) dvd uint x - uint y"
    by (simp add: coprime_dvd_mult_left_iff)
  then have "uint x mod 2 ^ LENGTH('a) = uint y mod 2 ^ LENGTH('a)"
    by (rule mod_eq_dvd_iff [THEN iffD2])
  then show "x = y" by (simp add: word_uint_eq_iff)
qed

lemma drop_bit_fixpoint:
  fixes z :: "'a::len word"
  assumes "0 < s" and "drop_bit s z = z"
  shows "z = 0"
proof -
  have step: "drop_bit (k * s) z = z" for k
    by (induction k) (simp_all add: assms(2) add.commute flip: drop_bit_drop_bit)
  have "drop_bit (LENGTH('a) * s) z = 0"
    using assms(1)
    by (intro bit_word_eqI) (auto simp: bit_simps dest: bit_imp_le_length)
  with step show ?thesis by metis
qed

lemma inj_xorshift [mix_inj]:
  assumes "0 < s"
  shows "inj (\<lambda>x :: 'a::len word. x XOR drop_bit s x)"
proof (rule injI)
  fix x y :: "'a word"
  assume "x XOR drop_bit s x = y XOR drop_bit s y"
  then have "drop_bit s (x XOR y) = x XOR y"
    by (metis (no_types, lifting) drop_bit_xor xor.assoc xor.commute xor_self_eq xor.left_neutral)
  with assms have "x XOR y = 0" by (rule drop_bit_fixpoint)
  then show "x = y" by (metis xor.assoc xor_self_eq xor.left_neutral xor.right_neutral)
qed

lemma inj_add_const [mix_inj]: "inj (\<lambda>x :: 'a::len word. x + c)"
  by (simp add: inj_def)

lemma inj_xor_const [mix_inj]: "inj (\<lambda>x :: 'a::len word. c XOR x)"
  by (rule injI) (metis xor.assoc xor_self_eq xor.left_neutral)

lemma add_not_shift: "x + NOT (push_bit n x) = x * (1 - 2 ^ n) + (- 1 :: 'a::len word)"
  by (simp add: not_eq_complement push_bit_eq_mult algebra_simps)

lemma add_shift: "x + push_bit n x = x * (1 + 2 ^ n :: 'a::len word)"
  by (simp add: push_bit_eq_mult algebra_simps)

lemma inj_add_not_shift [mix_inj]:
  assumes "odd (uint (1 - 2 ^ n :: 'a::len word))"
  shows "inj (\<lambda>x :: 'a word. x + NOT (push_bit n x))"
  unfolding add_not_shift
  using inj_compose [OF inj_add_const [of "- 1"] inj_mult_odd [OF assms]] by (simp only: comp_def)

lemma inj_add_shift [mix_inj]:
  assumes "odd (uint (1 + 2 ^ n :: 'a::len word))"
  shows "inj (\<lambda>x :: 'a word. x + push_bit n x)"
  unfolding add_shift using assms by (rule inj_mult_odd)

lemma IntHash_comp:
  "IntHash = (\<lambda>k. k XOR drop_bit 16 k) \<circ> (\<lambda>k. k + NOT (push_bit 11 k)) \<circ> (\<lambda>k. k XOR drop_bit 6 k) \<circ>
     (\<lambda>k. k + push_bit 3 k) \<circ> (\<lambda>k. k XOR drop_bit 10 k) \<circ> (\<lambda>k. k + NOT (push_bit 15 k))"
  by (rule ext) (simp add: IntHash_def Let_def)

lemma inj_murmur_final: "inj murmur_final"
proof -
  have eq: "murmur_final = (\<lambda>h. h XOR drop_bit 15 h) \<circ> (\<lambda>h. h * murmur_m) \<circ> (\<lambda>h. h XOR drop_bit 13 h)"
    by (rule ext) (simp add: murmur_final_def Let_def)
  show ?thesis
    unfolding eq by (intro inj_compose mix_inj; simp add: murmur_m_def)
qed

lemma inj_murmur_block: "inj (murmur_block h)"
proof -
  have eq: "murmur_block h = (\<lambda>k. h * murmur_m XOR k) \<circ> (\<lambda>k. k * murmur_m) \<circ>
      (\<lambda>k. k XOR drop_bit 24 k) \<circ> (\<lambda>k. k * murmur_m)"
    by (rule ext) (simp add: murmur_block_def Let_def)
  show ?thesis
    unfolding eq by (intro inj_compose mix_inj; simp add: murmur_m_def)
qed

lemma bit_le32:
  "bit (le32 a b c d) n \<longleftrightarrow> (if n < 8 then bit a n else if n < 16 then bit b (n - 8)
     else if n < 24 then bit c (n - 16) else bit d (n - 24))"
  using bit_imp_le_length [of a n] bit_imp_le_length [of b "n - 8"]
    bit_imp_le_length [of c "n - 16"] bit_imp_le_length [of d "n - 24"]
  by (auto simp: le32_def bit_simps)

lemma odd_mult_inj:
  "odd (uint (c :: 'a::len word)) \<Longrightarrow> x * c = y * c \<Longrightarrow> x = y"
  using inj_mult_odd [of c] by (auto dest: injD)

lemma le32_inj:
  assumes "le32 a b c d = le32 a' b' c' d'"
  shows "a = a' \<and> b = b' \<and> c = c' \<and> d = d'"
proof -
  have eq: "bit (le32 a b c d) n = bit (le32 a' b' c' d') n" for n
    using assms by simp
  have "bit a n = bit a' n" "bit b n = bit b' n" "bit c n = bit c' n" "bit d n = bit d' n"
    if "n < 8" for n
    using that eq [of n] eq [of "n + 8"] eq [of "n + 16"] eq [of "n + 24"]
    by (simp_all add: bit_le32)
  then show ?thesis by (auto intro!: bit_word_eqI)
qed


section \<open>The loops as folds\<close>

lemma murmur_loop_append:
  "length data = len \<Longrightarrow> \<exists>h' rest. murmur_loop h data len = Some (h', rest, len mod 4) \<and> length rest = len mod 4"
proof (induction h data len rule: murmur_loop.induct)
  case (1 h data len)
  show ?case
  proof (cases "len < 4")
    case True
    then show ?thesis using "1.prems" by (simp add: murmur_loop.simps [of h data len])
  next
    case False
    with "1.prems" obtain a b c d rest where data: "data = a # b # c # d # rest"
      using length_ge_4 [of data] by auto
    have "\<exists>h' r. murmur_loop (murmur_block h (le32 a b c d)) rest (len - 4) = Some (h', r, (len - 4) mod 4)
        \<and> length r = (len - 4) mod 4"
      using "1.IH" [OF False data refl refl refl] "1.prems" data by simp
    moreover have "(len - 4) mod 4 = len mod 4"
      using False by (simp add: le_mod_geq)
    ultimately show ?thesis
      using False data by (simp add: murmur_loop.simps [of h "a # b # c # d # rest" len])
  qed
qed

lemma murmur_tail_total: "len < 4 \<Longrightarrow> length data = len \<Longrightarrow> \<exists>h'. murmur_tail h data len = Some h'"
  by (auto simp: murmur_tail_def get_at_def)

lemma DJBCaseHash_loop_poly:
  "DJBCaseHash_loop hash buf (length buf) =
     Some (hash * 33 ^ length buf + (\<Sum>i<length buf. ucast (tolower (buf ! i)) * 33 ^ (length buf - Suc i)))"
proof (induction buf arbitrary: hash)
  case Nil
  then show ?case by simp
next
  case (Cons c cs)
  let ?t = "\<lambda>i. ucast (tolower ((c # cs) ! i)) * 33 ^ (length (c # cs) - Suc i) :: u32"
  have "push_bit 5 hash + hash = hash * 33" for hash :: u32
    by (simp add: push_bit_eq_mult algebra_simps)
  moreover have "(\<Sum>i<length (c # cs). ?t i) = ?t 0 + (\<Sum>i<length cs. ?t (Suc i))"
    by (simp only: list.size One_nat_def add_Suc_right add_0_right sum.lessThan_Suc_shift)
  ultimately show ?case
    by (simp add: Cons.IH algebra_simps)
qed

lemma FNVHash_loop_take:
  "len \<le> length key \<Longrightarrow> FNVHash_loop hash key len = Some (mp_hash_loop hash (rev (take len key)))"
proof (induction len arbitrary: hash)
  case 0
  then show ?case by simp
next
  case (Suc len)
  then have "rev (take (Suc len) key) = key ! len # rev (take len key)"
    by (simp add: take_Suc_conv_app_nth)
  with Suc show ?case
    by (simp add: FNV_MAGIC_PRIME_def)
qed

section \<open>Properties\<close>

text \<open>Thomas Wang's mix is reversible: \<open>IntHash\<close> is a bijection of the 32-bit integers, so two
  different integer keys never have the same hash, and every hash value is taken.\<close>

theorem IntHash_bij: "bij IntHash"
proof -
  have "inj IntHash"
    unfolding IntHash_comp by (intro inj_compose mix_inj; simp)
  then show ?thesis
    by (simp add: bij_def finite_UNIV_inj_surj)
qed

text \<open>The integer hash of \<open>dict.c\<close> and the one of \<open>demo_hash.h\<close> are the same function, and for a
  buffer of at most \<open>INT_MAX\<close> bytes and the same seed so are the two copies of MurmurHash2 (one
  takes the length as \<open>int\<close>, the other as \<open>size_t\<close>) and of the case-insensitive hash; all of
  them return.\<close>

theorem dict_hashes_agree:
  assumes "length data < 2 ^ 31"
  shows "dictIntHashFunction k = IntHash k \<and>
    dictGenHashFunction seed data (int (length data)) = MurmurHash2 seed data (of_nat (length data)) \<and>
    MurmurHash2 seed data (of_nat (length data)) \<noteq> None \<and>
    dictGenCaseHashFunction seed data (int (length data)) = DJBCaseHash seed data (of_nat (length data)) \<and>
    DJBCaseHash seed data (of_nat (length data)) \<noteq> None"
proof -
  have len: "unat (of_nat (length data) :: u64) = length data"
    using assms by (simp add: unat_of_nat take_bit_nat_eq_self)
  have cast: "ucast (of_nat (length data) :: u64) = (word_of_int (int (length data)) :: u32)"
    by (simp add: ucast_of_nat_64_32)
  obtain h r where loop: "murmur_loop (seed XOR word_of_int (int (length data))) data (length data) =
      Some (h, r, length data mod 4)" "length r = length data mod 4"
    using murmur_loop_append [OF refl] by blast
  moreover obtain h' where "murmur_tail h r (length data mod 4) = Some h'"
    using murmur_tail_total [of "length data mod 4" r h] loop(2) by auto
  ultimately show ?thesis
    using len cast
    by (simp add: dictIntHashFunction_def IntHash_def dictGenHashFunction_def MurmurHash2_def
        dictGenCaseHashFunction_def DJBCaseHash_def DJBCaseHash_loop_poly)
qed

theorem dict_hashes_agree_witness:
  "length [104, 101, 108, 108, 111 :: u8] < 2 ^ 31 \<and>
   dictGenHashFunction 5381 [104, 101, 108, 108, 111] (int (length [104, 101, 108, 108, 111 :: u8])) =
   MurmurHash2 5381 [104, 101, 108, 108, 111] (of_nat (length [104, 101, 108, 108, 111 :: u8]))"
proof -
  have h: "length [104, 101, 108, 108, 111 :: u8] < 2 ^ 31" by simp
  show ?thesis using h dict_hashes_agree [OF h, of 0 5381] by blast
qed

text \<open>On keys of exactly four bytes MurmurHash2 has no collisions.\<close>

theorem MurmurHash2_inj_4bytes:
  assumes "length x = 4" and "length y = 4" and "MurmurHash2 seed x 4 = MurmurHash2 seed y 4"
  shows "x = y"
proof -
  obtain a b c d a' b' c' d' where xy: "x = [a, b, c, d]" "y = [a', b', c', d']"
    using length_eq_4 assms(1,2) by meson
  have "MurmurHash2 seed [p, q, r, s] 4 =
      Some (murmur_final (murmur_block (seed XOR 4) (le32 p q r s)))" for p q r s
    by (simp add: MurmurHash2_def murmur_loop.simps murmur_tail_def)
  with assms(3) xy have "le32 a b c d = le32 a' b' c' d'"
    by (simp add: inj_murmur_final [THEN inj_eq] inj_murmur_block [THEN inj_eq])
  then show ?thesis using xy le32_inj by blast
qed

theorem MurmurHash2_inj_4bytes_witness:
  "MurmurHash2 5381 [1, 2, 3, 4] 4 \<noteq> MurmurHash2 5381 [1, 2, 3, 5] 4"
  using MurmurHash2_inj_4bytes [of "[1, 2, 3, 4]" "[1, 2, 3, 5]" 5381] by auto

text \<open>The case-insensitive DJB hash is the base-33 polynomial in the lower-cased bytes modulo
  \<open>2 ^ 32\<close>, hence it does not depend on the case of the letters.\<close>

theorem DJBCaseHash_polynomial:
  assumes "length buf < 2 ^ 64"
  shows "DJBCaseHash seed buf (of_nat (length buf)) =
    Some (seed * 33 ^ length buf +
      (\<Sum>i<length buf. ucast (tolower (buf ! i)) * 33 ^ (length buf - Suc i)))"
  using assms by (simp add: DJBCaseHash_def DJBCaseHash_loop_poly unat_of_nat take_bit_nat_eq_self)

theorem DJBCaseHash_polynomial_witness:
  "DJBCaseHash 5381 [72, 105] (of_nat (length [72, 105 :: u8])) = DJBCaseHash 5381 [104, 73] (of_nat (length [104, 73 :: u8]))"
  using DJBCaseHash_polynomial [of "[72, 105]" 5381] DJBCaseHash_polynomial [of "[104, 73]" 5381]
  by (simp add: tolower_def)

text \<open>\<open>FNVHash\<close> of \<open>demo_hash.h\<close> (with the default \<open>M_SHIFT = 0\<close>) runs over the buffer backwards: it
  is \<open>mp_hash\<close> of the memory pool on the reversed buffer.\<close>

theorem FNVHash_is_reversed_mp_hash:
  assumes "length key < 2 ^ 64"
  shows "FNVHash 0 key (of_nat (length key)) = Some (mp_hash (rev key))"
  using assms
  by (simp add: FNVHash_def mp_hash_def FNV_MAGIC_INIT_def FNVHash_loop_take unat_of_nat take_bit_nat_eq_self)

theorem FNVHash_is_reversed_mp_hash_witness:
  "FNVHash 0 [1, 2, 3] (of_nat (length [1, 2, 3 :: u8])) = Some (mp_hash (rev [1, 2, 3]))"
  by (rule FNVHash_is_reversed_mp_hash) simp

end
