(* ===== verification/Dict.thy ===== *)
theory Dict
  imports Chains HashFuns
begin

text \<open>
  The hash table of \<open>demo_dict/dict.c\<close> and \<open>dict.h\<close>.  Entries live in a heap \<open>ents\<close> and are
  linked by their \<open>next\<close> pointers; the table is an array of chain heads.  \<open>malloc\<close> enters as an
  argument: the address it returned.  The callbacks of \<open>dictType\<close> are fields of a record;
  the calls of the two destructors and of the progress callback of \<open>_dictClear\<close> are logged in
  \<open>calls\<close>.  \<open>DictSpec\<close> and \<open>DictWalk\<close> show that the table refines a finite map.
\<close>

section \<open>Data\<close>

datatype dict_ret = DICT_OK | DICT_ERR

text \<open>The union \<open>v\<close> holds \<open>None\<close> until it is set (the block comes from \<open>malloc\<close>).\<close>

record ('k, 'v) dictEntry =
  de_key :: 'k
  de_val :: "'v option"
  de_next :: ptr

text \<open>A callback that may be \<open>NULL\<close> is an option; of a destructor only its presence matters.\<close>

record ('p, 'k, 'v) dictType =
  hashFunction :: "'k \<Rightarrow> u32"
  keyDup :: "('p \<Rightarrow> 'k \<Rightarrow> 'k) option"
  valDup :: "('p \<Rightarrow> 'v \<Rightarrow> 'v) option"
  keyCompare :: "('p \<Rightarrow> 'k \<Rightarrow> 'k \<Rightarrow> bool) option"
  keyDestructor :: bool
  valDestructor :: bool

record dictht =
  table :: "ptr list option"
  ht_size :: u64
  sizemask :: u64
  used :: u64

datatype ('k, 'v) dict_call = KeyDestructor 'k | ValDestructor "'v option" | ClearCallback

record ('p, 'k, 'v) dict =
  dtype :: "('p, 'k, 'v) dictType"
  privdata :: 'p
  ht :: dictht
  ents :: "ptr \<Rightarrow> ('k, 'v) dictEntry option"
  calls :: "('k, 'v) dict_call list"

record dictIterator =
  it_index :: int
  it_entry :: ptr
  it_nextEntry :: ptr

definition DICT_HT_INITIAL_SIZE :: u64 where
  "DICT_HT_INITIAL_SIZE = 4"

definition dict_force_resize_ratio :: u64 where
  "dict_force_resize_ratio = 5"

definition LONG_MAX :: u64 where
  "LONG_MAX = 0x7FFFFFFFFFFFFFFF"

section \<open>Macros\<close>

definition deref :: "('p, 'k, 'v) dict \<Rightarrow> ptr \<Rightarrow> ('k, 'v) dictEntry option" where
  "deref d p = (if p = NULL then None else ents d p)"

definition dictFreeVal :: "('p, 'k, 'v) dict \<Rightarrow> ('k, 'v) dictEntry \<Rightarrow> ('p, 'k, 'v) dict" where
  "dictFreeVal d e =
     (if valDestructor (dtype d) then d\<lparr>calls := calls d @ [ValDestructor (de_val e)]\<rparr> else d)"

definition dictSetVal :: "('p, 'k, 'v) dict \<Rightarrow> ('k, 'v) dictEntry \<Rightarrow> 'v \<Rightarrow> ('k, 'v) dictEntry" where
  "dictSetVal d e v =
     (case valDup (dtype d) of
        Some f \<Rightarrow> e\<lparr>de_val := Some (f (privdata d) v)\<rparr>
      | None \<Rightarrow> e\<lparr>de_val := Some v\<rparr>)"

definition dictFreeKey :: "('p, 'k, 'v) dict \<Rightarrow> ('k, 'v) dictEntry \<Rightarrow> ('p, 'k, 'v) dict" where
  "dictFreeKey d e =
     (if keyDestructor (dtype d) then d\<lparr>calls := calls d @ [KeyDestructor (de_key e)]\<rparr> else d)"

text \<open>The key stored by \<open>dictSetKey\<close>.\<close>

definition dictSetKey :: "('p, 'k, 'v) dict \<Rightarrow> 'k \<Rightarrow> 'k" where
  "dictSetKey d k = (case keyDup (dtype d) of Some f \<Rightarrow> f (privdata d) k | None \<Rightarrow> k)"

definition dictCompareKeys :: "('p, 'k, 'v) dict \<Rightarrow> 'k \<Rightarrow> 'k \<Rightarrow> bool" where
  "dictCompareKeys d k1 k2 =
     (case keyCompare (dtype d) of Some f \<Rightarrow> f (privdata d) k1 k2 | None \<Rightarrow> k1 = k2)"

definition dictHashKey :: "('p, 'k, 'v) dict \<Rightarrow> 'k \<Rightarrow> u32" where
  "dictHashKey d k = hashFunction (dtype d) k"

text \<open>\<open>idx = h & d->ht.sizemask\<close>, truncated to \<open>unsigned int\<close>.\<close>

definition dict_idx :: "('p, 'k, 'v) dict \<Rightarrow> 'k \<Rightarrow> u32" where
  "dict_idx d k = ucast ((ucast (dictHashKey d k) :: u64) AND sizemask (ht d))"

section \<open>Operations\<close>

definition dictReset :: "dictht \<Rightarrow> dictht" where
  "dictReset h = h\<lparr>table := None, ht_size := 0, sizemask := 0, used := 0\<rparr>"

definition dictCreate :: "('p, 'k, 'v) dictType \<Rightarrow> 'p \<Rightarrow> ('p, 'k, 'v) dict" where
  "dictCreate ty pd = \<lparr>dtype = ty, privdata = pd,
     ht = dictReset \<lparr>table = None, ht_size = 0, sizemask = 0, used = 0\<rparr>,
     ents = (\<lambda>_. None), calls = []\<rparr>"

partial_function (option) dictNextPower_loop :: "u64 \<Rightarrow> u64 \<Rightarrow> u64 option" where
  "dictNextPower_loop i sz = (if sz \<le> i then Some i else dictNextPower_loop (i * 2) sz)"

definition dictNextPower :: "u64 \<Rightarrow> u64 option" where
  "dictNextPower sz =
     (if LONG_MAX \<le> sz then Some LONG_MAX else dictNextPower_loop DICT_HT_INITIAL_SIZE sz)"

text \<open>The new table has as many slots as fit the \<open>realsize * sizeof(dictEntry*)\<close> bytes (computed
  modulo \<open>2 ^ 64\<close>) of the \<open>calloc\<close>.  When the dictionary already has a table, the new one is
  dropped and nothing is rehashed.\<close>

definition dictExpand :: "('p, 'k, 'v) dict \<Rightarrow> u64 \<Rightarrow> (('p, 'k, 'v) dict \<times> dict_ret) option" where
  "dictExpand d sz = do {
     realsize \<leftarrow> dictNextPower sz;
     if used (ht d) > sz then Some (d, DICT_ERR)
     else let n = \<lparr>table = Some (replicate (unat (realsize * 8) div 8) NULL), ht_size = realsize,
                   sizemask = realsize - 1, used = 0\<rparr>
       in if table (ht d) = None then Some (d\<lparr>ht := n\<rparr>, DICT_OK)
       else Some (d, DICT_OK) }"

text \<open>\<open>minimal\<close> is an \<open>int\<close>: the count is truncated to 32 bits and sign-extended again.\<close>

definition dictResize :: "('p, 'k, 'v) dict \<Rightarrow> (('p, 'k, 'v) dict \<times> dict_ret) option" where
  "dictResize d =
     (let minimal = sint (ucast (used (ht d)) :: u32);
          minimal = (if minimal < 4 then 4 else minimal)
      in dictExpand d (word_of_int minimal))"

definition dictExpandIfNeeded :: "('p, 'k, 'v) dict \<Rightarrow> (('p, 'k, 'v) dict \<times> dict_ret) option" where
  "dictExpandIfNeeded d =
     (if ht_size (ht d) = 0 then dictExpand d DICT_HT_INITIAL_SIZE
      else if used (ht d) \<ge> ht_size (ht d) \<and>
              used (ht d) div ht_size (ht d) > dict_force_resize_ratio
      then dictExpand d (used (ht d) * 2)
      else Some (d, DICT_OK))"

text \<open>The search loop shared by \<open>_dictKeyIndex\<close> and \<open>dictFind\<close>: the first entry of the chain with
  a key equal to \<open>key\<close>, or \<open>NULL\<close>.\<close>

partial_function (option) dict_chain_find :: "('p, 'k, 'v) dict \<Rightarrow> 'k \<Rightarrow> ptr \<Rightarrow> ptr option" where
  "dict_chain_find d key he =
     (if he = NULL then Some NULL
      else do {
        e \<leftarrow> deref d he;
        if dictCompareKeys d key (de_key e) then Some he
        else dict_chain_find d key (de_next e) })"

text \<open>\<open>_dictKeyIndex\<close> returns an \<open>int\<close>, -1 when the key exists.\<close>

definition dictKeyIndex :: "('p, 'k, 'v) dict \<Rightarrow> 'k \<Rightarrow> (('p, 'k, 'v) dict \<times> int) option" where
  "dictKeyIndex d0 key = do {
     (d, r) \<leftarrow> dictExpandIfNeeded d0;
     if r = DICT_ERR then Some (d, -1)
     else do {
       let idx = dict_idx d key;
       t \<leftarrow> table (ht d);
       he \<leftarrow> get_at t (unat idx);
       he \<leftarrow> dict_chain_find d key he;
       if he \<noteq> NULL then Some (d, -1) else Some (d, sint idx) } }"

text \<open>\<open>new\<close> is the result of \<open>zmalloc\<close>, dereferenced without a check.\<close>

definition dictAddRaw :: "('p, 'k, 'v) dict \<Rightarrow> 'k \<Rightarrow> ptr \<Rightarrow> (('p, 'k, 'v) dict \<times> ptr) option" where
  "dictAddRaw d0 key new = do {
     (d, index) \<leftarrow> dictKeyIndex d0 key;
     if index = -1 then Some (d, NULL)
     else do {
       ensure (new \<noteq> NULL \<and> 0 \<le> index);
       t \<leftarrow> table (ht d);
       head \<leftarrow> get_at t (nat index);
       t' \<leftarrow> put_at t (nat index) new;
       let e = \<lparr>de_key = dictSetKey d key, de_val = None, de_next = head\<rparr>;
       Some (d\<lparr>ht := (ht d)\<lparr>table := Some t', used := used (ht d) + 1\<rparr>,
               ents := (ents d)(new \<mapsto> e)\<rparr>, new) } }"

definition dictAdd :: "('p, 'k, 'v) dict \<Rightarrow> 'k \<Rightarrow> 'v \<Rightarrow> ptr \<Rightarrow> (('p, 'k, 'v) dict \<times> dict_ret) option" where
  "dictAdd d0 key val new = do {
     (d, entry) \<leftarrow> dictAddRaw d0 key new;
     if entry = NULL then Some (d, DICT_ERR)
     else do {
       e \<leftarrow> deref d entry;
       Some (d\<lparr>ents := (ents d)(entry \<mapsto> dictSetVal d e val)\<rparr>, DICT_OK) } }"

definition dictFind :: "('p, 'k, 'v) dict \<Rightarrow> 'k \<Rightarrow> ptr option" where
  "dictFind d key =
     (if ht_size (ht d) = 0 then Some NULL
      else do {
        t \<leftarrow> table (ht d);
        he \<leftarrow> get_at t (unat (dict_idx d key));
        dict_chain_find d key he })"

text \<open>The outer option is undefined behaviour; \<open>Some None\<close> is the returned \<open>NULL\<close>.\<close>

definition dictFetchValue :: "('p, 'k, 'v) dict \<Rightarrow> 'k \<Rightarrow> 'v option option" where
  "dictFetchValue d key = do {
     he \<leftarrow> dictFind d key;
     if he \<noteq> NULL then do { e \<leftarrow> deref d he; Some (de_val e) } else Some None }"

definition dictReplace :: "('p, 'k, 'v) dict \<Rightarrow> 'k \<Rightarrow> 'v \<Rightarrow> ptr \<Rightarrow> (('p, 'k, 'v) dict \<times> int) option" where
  "dictReplace d0 key val new = do {
     (d, r) \<leftarrow> dictAdd d0 key val new;
     if r = DICT_OK then Some (d, 1)
     else do {
       entry \<leftarrow> dictFind d key;
       auxentry \<leftarrow> deref d entry;
       let d = d\<lparr>ents := (ents d)(entry \<mapsto> dictSetVal d auxentry val)\<rparr>;
       Some (dictFreeVal d auxentry, 0) } }"

definition dictReplaceRaw :: "('p, 'k, 'v) dict \<Rightarrow> 'k \<Rightarrow> ptr \<Rightarrow> (('p, 'k, 'v) dict \<times> ptr) option" where
  "dictReplaceRaw d key new = do {
     entry \<leftarrow> dictFind d key;
     if entry \<noteq> NULL then Some (d, entry) else dictAddRaw d key new }"

partial_function (option) dict_delete_loop ::
  "('p, 'k, 'v) dict \<Rightarrow> 'k \<Rightarrow> bool \<Rightarrow> nat \<Rightarrow> ptr \<Rightarrow> ptr \<Rightarrow> (('p, 'k, 'v) dict \<times> dict_ret) option" where
  "dict_delete_loop d key nofree idx prevHe he =
     (if he = NULL then Some (d, DICT_ERR)
      else do {
        e \<leftarrow> deref d he;
        if dictCompareKeys d key (de_key e) then do {
          d1 \<leftarrow> (if prevHe \<noteq> NULL then do {
                   pe \<leftarrow> deref d prevHe;
                   Some (d\<lparr>ents := (ents d)(prevHe \<mapsto> pe\<lparr>de_next := de_next e\<rparr>)\<rparr>) }
                 else do {
                   t \<leftarrow> table (ht d);
                   t' \<leftarrow> put_at t idx (de_next e);
                   Some (d\<lparr>ht := (ht d)\<lparr>table := Some t'\<rparr>\<rparr>) });
          let d2 = (if nofree then d1 else dictFreeVal (dictFreeKey d1 e) e);
          Some (d2\<lparr>ents := (ents d2)(he := None),
                   ht := (ht d2)\<lparr>used := used (ht d2) - 1\<rparr>\<rparr>, DICT_OK) }
        else dict_delete_loop d key nofree idx he (de_next e) })"

definition dictGenericDelete ::
  "('p, 'k, 'v) dict \<Rightarrow> 'k \<Rightarrow> bool \<Rightarrow> (('p, 'k, 'v) dict \<times> dict_ret) option" where
  "dictGenericDelete d key nofree =
     (if ht_size (ht d) = 0 then Some (d, DICT_ERR)
      else do {
        t \<leftarrow> table (ht d);
        he \<leftarrow> get_at t (unat (dict_idx d key));
        dict_delete_loop d key nofree (unat (dict_idx d key)) NULL he })"

definition dictDelete :: "('p, 'k, 'v) dict \<Rightarrow> 'k \<Rightarrow> (('p, 'k, 'v) dict \<times> dict_ret) option" where
  "dictDelete d key = dictGenericDelete d key False"

definition dictDeleteNoFree :: "('p, 'k, 'v) dict \<Rightarrow> 'k \<Rightarrow> (('p, 'k, 'v) dict \<times> dict_ret) option" where
  "dictDeleteNoFree d key = dictGenericDelete d key True"

partial_function (option) dict_clear_chain :: "('p, 'k, 'v) dict \<Rightarrow> ptr \<Rightarrow> ('p, 'k, 'v) dict option" where
  "dict_clear_chain d he =
     (if he = NULL then Some d
      else do {
        e \<leftarrow> deref d he;
        let d1 = dictFreeVal (dictFreeKey d e) e;
        dict_clear_chain (d1\<lparr>ents := (ents d1)(he := None),
                             ht := (ht d1)\<lparr>used := used (ht d1) - 1\<rparr>\<rparr>) (de_next e) })"

partial_function (option) dict_clear_loop :: "('p, 'k, 'v) dict \<Rightarrow> bool \<Rightarrow> u64 \<Rightarrow> ('p, 'k, 'v) dict option" where
  "dict_clear_loop d callback i =
     (if i < ht_size (ht d) \<and> used (ht d) > 0 then do {
        let d1 = (if callback \<and> i AND 65535 = 0 then d\<lparr>calls := calls d @ [ClearCallback]\<rparr> else d);
        t \<leftarrow> table (ht d1);
        he \<leftarrow> get_at t (unat i);
        d2 \<leftarrow> dict_clear_chain d1 he;
        dict_clear_loop d2 callback (i + 1) }
      else Some d)"

definition dictClear :: "('p, 'k, 'v) dict \<Rightarrow> bool \<Rightarrow> (('p, 'k, 'v) dict \<times> dict_ret) option" where
  "dictClear d callback = do {
     d1 \<leftarrow> dict_clear_loop d callback 0;
     Some (d1\<lparr>ht := dictReset (ht d1)\<rparr>, DICT_OK) }"

text \<open>What is left after \<open>dictRelease\<close>: the entry heap and the calls made.\<close>

definition dictRelease ::
  "('p, 'k, 'v) dict \<Rightarrow> ((ptr \<Rightarrow> ('k, 'v) dictEntry option) \<times> ('k, 'v) dict_call list) option" where
  "dictRelease d = do { (d1, r) \<leftarrow> dictClear d False; Some (ents d1, calls d1) }"

definition dictEmpty :: "('p, 'k, 'v) dict \<Rightarrow> bool \<Rightarrow> ('p, 'k, 'v) dict option" where
  "dictEmpty d callback = do { (d1, r) \<leftarrow> dictClear d callback; Some d1 }"

definition dictGetIterator :: dictIterator where
  "dictGetIterator = \<lparr>it_index = -1, it_entry = NULL, it_nextEntry = NULL\<rparr>"

partial_function (option) dictNext ::
  "('p, 'k, 'v) dict \<Rightarrow> dictIterator \<Rightarrow> (dictIterator \<times> ptr) option" where
  "dictNext d it0 =
     (if it_entry it0 = NULL then
        let it1 = it0\<lparr>it_index := it_index it0 + 1\<rparr> in
        if sint (ht_size (ht d)) \<le> it_index it1 then Some (it1, NULL)
        else do {
          ensure (0 \<le> it_index it1);
          t \<leftarrow> table (ht d);
          p \<leftarrow> get_at t (nat (it_index it1));
          let it2 = it1\<lparr>it_entry := p\<rparr>;
          if p \<noteq> NULL then do {
            e \<leftarrow> deref d p;
            Some (it2\<lparr>it_nextEntry := de_next e\<rparr>, p) }
          else dictNext d it2 }
      else
        let it1 = it0\<lparr>it_entry := it_nextEntry it0\<rparr> in
        if it_entry it1 \<noteq> NULL then do {
          e \<leftarrow> deref d (it_entry it1);
          Some (it1\<lparr>it_nextEntry := de_next e\<rparr>, it_entry it1) }
        else dictNext d it1)"

text \<open>The client loop \<open>while ((entry = dictNext(iter)) != NULL)\<close> of \<open>demo_dict.c\<close>: the entries it visits.\<close>

partial_function (option) dict_iterate :: "('p, 'k, 'v) dict \<Rightarrow> dictIterator \<Rightarrow> ptr list option" where
  "dict_iterate d it = do {
     (it1, p) \<leftarrow> dictNext d it;
     if p = NULL then Some []
     else do { ps \<leftarrow> dict_iterate d it1; Some (p # ps) } }"

end
