(* ===== verification/DictSpec.thy ===== *)
theory DictSpec
  imports Dict
begin

text \<open>
  Correctness of \<open>dict.c\<close>.  \<open>dict_inv\<close> is the well-formedness invariant of a dictionary: the shape
  of the table, the chains, the entry count, the bucket of every key and the uniqueness of
  keys.  \<open>dict_map\<close> abstracts a dictionary to the map it stores.  The locale \<open>dict_callbacks\<close> is what
  the code relies on of the callbacks of a \<open>dictType\<close>: the comparison is an equivalence that the
  hash function and \<open>keyDup\<close> respect.
\<close>

section \<open>Invariant and abstraction\<close>

abbreviation nxt :: "('p, 'k, 'v) dict \<Rightarrow> ptr \<Rightarrow> ptr option" where
  "nxt d \<equiv> (\<lambda>p. map_option de_next (ents d p))"

definition ekey :: "('p, 'k, 'v) dict \<Rightarrow> ptr \<Rightarrow> 'k" where
  "ekey d p = de_key (the (ents d p))"

definition keys_eq :: "('p, 'k, 'v) dictType \<Rightarrow> 'p \<Rightarrow> 'k \<Rightarrow> 'k \<Rightarrow> bool" where
  "keys_eq ty pd k1 k2 = (case keyCompare ty of Some f \<Rightarrow> f pd k1 k2 | None \<Rightarrow> k1 = k2)"

definition key_dup :: "('p, 'k, 'v) dictType \<Rightarrow> 'p \<Rightarrow> 'k \<Rightarrow> 'k" where
  "key_dup ty pd k = (case keyDup ty of Some f \<Rightarrow> f pd k | None \<Rightarrow> k)"

definition val_dup :: "('p, 'k, 'v) dictType \<Rightarrow> 'p \<Rightarrow> 'v \<Rightarrow> 'v" where
  "val_dup ty pd v = (case valDup ty of Some f \<Rightarrow> f pd v | None \<Rightarrow> v)"

definition buckets :: "('p, 'k, 'v) dict \<Rightarrow> ptr list list" where
  "buckets d = (case table (ht d) of None \<Rightarrow> [] | Some t \<Rightarrow> map (walk (nxt d) (unat (used (ht d)))) t)"

definition ht_shape :: "dictht \<Rightarrow> ptr list \<Rightarrow> bool" where
  "ht_shape h t \<longleftrightarrow> length t = unat (ht_size h) \<and> (\<exists>k\<le>31. ht_size h = 2 ^ k) \<and> sizemask h = ht_size h - 1"

text \<open>\<open>dict_rep d t bs\<close>: the table \<open>t\<close> of \<open>d\<close> holds the chains \<open>bs\<close>.\<close>

definition dict_rep :: "('p, 'k, 'v) dict \<Rightarrow> ptr list \<Rightarrow> ptr list list \<Rightarrow> bool" where
  "dict_rep d t bs \<longleftrightarrow> ht_shape (ht d) t \<and>
     length bs = length t \<and> (\<forall>i<length t. chain (nxt d) (t ! i) (bs ! i)) \<and>
     distinct (concat bs) \<and> dom (ents d) = set (concat bs) \<and> unat (used (ht d)) = length (concat bs) \<and>
     (\<forall>i<length bs. \<forall>p\<in>set (bs ! i). unat (dict_idx d (ekey d p)) = i) \<and>
     (\<forall>p\<in>dom (ents d). \<forall>q\<in>dom (ents d). p \<noteq> q \<longrightarrow>
        \<not> keys_eq (dtype d) (privdata d) (ekey d p) (ekey d q))"

definition dict_inv :: "('p, 'k, 'v) dict \<Rightarrow> bool" where
  "dict_inv d = (case table (ht d) of
      None \<Rightarrow> ht_size (ht d) = 0 \<and> sizemask (ht d) = 0 \<and> used (ht d) = 0 \<and> ents d = (\<lambda>_. None)
    | Some t \<Rightarrow> dict_rep d t (buckets d))"

definition dict_map :: "('p, 'k, 'v) dict \<Rightarrow> 'k \<Rightarrow> 'v option option" where
  "dict_map d k = map_option (\<lambda>p. de_val (the (ents d p)))
     (List.find (\<lambda>p. keys_eq (dtype d) (privdata d) k (ekey d p)) (concat (buckets d)))"

locale dict_callbacks =
  fixes ty :: "('p, 'k, 'v) dictType" and pd :: 'p
  assumes cmp_refl: "keys_eq ty pd k k"
    and cmp_sym: "keys_eq ty pd k l \<Longrightarrow> keys_eq ty pd l k"
    and cmp_trans: "keys_eq ty pd k l \<Longrightarrow> keys_eq ty pd l m \<Longrightarrow> keys_eq ty pd k m"
    and cmp_hash: "keys_eq ty pd k l \<Longrightarrow> hashFunction ty k = hashFunction ty l"
    and cmp_dup: "keys_eq ty pd (key_dup ty pd k) k"

section \<open>The table size\<close>

lemma dictNextPower_loop_pow2:
  assumes "sz \<le> 2 ^ 63" and "j \<le> 63" and "j = 2 \<or> (2 :: u64) ^ (j - 1) < sz"
  shows "\<exists>k\<ge>j. k \<le> 63 \<and> dictNextPower_loop (2 ^ j) sz = Some (2 ^ k) \<and> sz \<le> 2 ^ k \<and>
    (k = 2 \<or> 2 ^ (k - 1) < sz)"
  using assms
proof (induction "63 - j" arbitrary: j)
  case 0
  then show ?case by (auto simp: dictNextPower_loop.simps)
next
  case (Suc n)
  show ?case
  proof (cases "sz \<le> 2 ^ j")
    case True
    with Suc.prems show ?thesis by (auto simp: dictNextPower_loop.simps intro!: exI [of _ j])
  next
    case False
    have "\<exists>k\<ge>Suc j. k \<le> 63 \<and> dictNextPower_loop (2 ^ Suc j) sz = Some (2 ^ k) \<and> sz \<le> 2 ^ k \<and>
        (k = 2 \<or> 2 ^ (k - 1) < sz)"
      using Suc.hyps(2) Suc.prems False by (intro Suc.hyps(1)) auto
    moreover have "dictNextPower_loop (2 ^ j) sz = dictNextPower_loop (2 ^ Suc j) sz"
      using False by (subst dictNextPower_loop.simps) (simp add: mult.commute)
    ultimately show ?thesis by (metis Suc_leD)
  qed
qed

lemma dictNextPower_pow2:
  assumes "sz < LONG_MAX"
  shows "\<exists>k\<ge>2. k \<le> 63 \<and> dictNextPower sz = Some (2 ^ k) \<and> sz \<le> 2 ^ k \<and> (k = 2 \<or> 2 ^ (k - 1) < sz)"
proof -
  have "sz \<le> 2 ^ 63"
    using assms by (simp add: LONG_MAX_def word_less_nat_alt word_le_nat_alt)
  from dictNextPower_loop_pow2 [OF this, of 2] assms show ?thesis
    by (auto simp: dictNextPower_def DICT_HT_INITIAL_SIZE_def)
qed

lemma dictNextPower_total: "dictNextPower sz \<noteq> None"
  using dictNextPower_pow2 [of sz] by (cases "sz < LONG_MAX") (auto simp: dictNextPower_def)

section \<open>Facts about the representation\<close>

lemma dict_repI:
  assumes "ht_shape (ht d) t" and "length bs = length t"
    and "\<And>i. i < length t \<Longrightarrow> chain (nxt d) (t ! i) (bs ! i)"
    and "distinct (concat bs)" and "dom (ents d) = set (concat bs)"
    and "unat (used (ht d)) = length (concat bs)"
    and "\<And>i p. i < length t \<Longrightarrow> p \<in> set (bs ! i) \<Longrightarrow> unat (dict_idx d (ekey d p)) = i"
    and "\<And>p q. p \<in> dom (ents d) \<Longrightarrow> q \<in> dom (ents d) \<Longrightarrow> p \<noteq> q \<Longrightarrow>
        \<not> keys_eq (dtype d) (privdata d) (ekey d p) (ekey d q)"
  shows "dict_rep d t bs"
  using assms unfolding dict_rep_def by (intro conjI) auto

lemma dict_repD:
  assumes "dict_rep d t bs"
  shows "ht_shape (ht d) t" and "length bs = length t"
    and "i < length t \<Longrightarrow> chain (nxt d) (t ! i) (bs ! i)"
    and "distinct (concat bs)" and "dom (ents d) = set (concat bs)"
    and "unat (used (ht d)) = length (concat bs)"
    and "i < length t \<Longrightarrow> p \<in> set (bs ! i) \<Longrightarrow> unat (dict_idx d (ekey d p)) = i"
    and "p \<in> dom (ents d) \<Longrightarrow> q \<in> dom (ents d) \<Longrightarrow> p \<noteq> q \<Longrightarrow>
        \<not> keys_eq (dtype d) (privdata d) (ekey d p) (ekey d q)"
  using assms unfolding dict_rep_def by simp_all

lemma dictCompareKeys_eq: "dictCompareKeys d = keys_eq (dtype d) (privdata d)"
  by (intro ext) (simp add: dictCompareKeys_def keys_eq_def)

lemma dictSetKey_eq: "dictSetKey d = key_dup (dtype d) (privdata d)"
  by (intro ext) (simp add: dictSetKey_def key_dup_def)

lemma dictSetVal_eq: "dictSetVal d e v = e\<lparr>de_val := Some (val_dup (dtype d) (privdata d) v)\<rparr>"
  by (simp add: dictSetVal_def val_dup_def split: option.splits)

lemma dict_rep_buckets: "table (ht d) = Some t \<Longrightarrow> dict_rep d t bs \<Longrightarrow> buckets d = bs"
proof -
  assume t: "table (ht d) = Some t" and r: "dict_rep d t bs"
  have "walk (nxt d) (unat (used (ht d))) (t ! i) = bs ! i" if "i < length t" for i
  proof -
    have "length (bs ! i) \<le> length (concat bs)"
      using r that by (simp add: dict_rep_def length_le_concat)
    with r that show ?thesis by (auto simp: dict_rep_def intro!: walk_chain)
  qed
  then show ?thesis
    using r t by (auto simp: buckets_def dict_rep_def intro!: nth_equalityI)
qed

lemma dict_invI: "table (ht d) = Some t \<Longrightarrow> dict_rep d t bs \<Longrightarrow> dict_inv d"
  by (simp add: dict_inv_def dict_rep_buckets)

lemma dict_invE:
  assumes "dict_inv d" and "ht_size (ht d) \<noteq> 0 \<or> table (ht d) \<noteq> None"
  obtains t where "table (ht d) = Some t" and "dict_rep d t (buckets d)" and "ht_size (ht d) \<noteq> 0"
  using assms by (auto simp: dict_inv_def dict_rep_def ht_shape_def split: option.splits)

text \<open>The bucket index is in range, and nonnegative as an \<open>int\<close>.\<close>

lemma dict_idx_bound:
  assumes "ht_shape (ht d) t"
  shows "unat (dict_idx d k) < length t" and "sint (dict_idx d k) = int (unat (dict_idx d k))"
proof -
  from assms obtain j where j: "j \<le> 31" "ht_size (ht d) = 2 ^ j" "sizemask (ht d) = 2 ^ j - 1"
      "length t = 2 ^ j"
    by (auto simp: ht_shape_def unat_pow2)
  have eq: "dict_idx d k = take_bit j (dictHashKey d k)"
    unfolding dict_idx_def j(3) mask_eq_exp_minus_1 [symmetric] take_bit_eq_mask [symmetric]
    by (rule bit_word_eqI) (auto simp: bit_simps)
  then have b: "unat (dict_idx d k) < 2 ^ j"
    using j(1) by (simp add: unsigned_take_bit_eq)
  then show "unat (dict_idx d k) < length t" by (simp add: j(4))
  have "(2::nat) ^ j \<le> 2 ^ 31" using j(1) by (intro power_increasing) auto
  with b have "unat (dict_idx d k) < 2 ^ 31" by linarith
  then show "sint (dict_idx d k) = int (unat (dict_idx d k))"
    using sint_small [of "dict_idx d k"] by simp
qed

lemma dict_chain_find_chain:
  assumes "chain (nxt d) p xs"
  shows "dict_chain_find d k p =
    Some (case List.find (\<lambda>q. keys_eq (dtype d) (privdata d) k (ekey d q)) xs of None \<Rightarrow> NULL | Some q \<Rightarrow> q)"
  using assms
proof (induction xs arbitrary: p)
  case Nil
  then show ?case by (simp add: dict_chain_find.simps)
next
  case (Cons x xs)
  then obtain e where e: "ents d x = Some e" "chain (nxt d) (de_next e) xs" "p = x" "x \<noteq> NULL"
    by auto
  then show ?case
    using Cons.IH [OF e(2)]
    by (subst dict_chain_find.simps) (simp add: deref_def ekey_def dictCompareKeys_eq)
qed


section \<open>Lookup\<close>

context dict_callbacks
begin

lemma match_unique:
  assumes "dict_rep d t bs" and "dtype d = ty" and "privdata d = pd"
    and "p \<in> dom (ents d)" and "q \<in> dom (ents d)"
    and "keys_eq ty pd k (ekey d p)" and "keys_eq ty pd k (ekey d q)"
  shows "p = q"
  using assms cmp_sym cmp_trans unfolding dict_rep_def by metis

lemma match_bucket:
  assumes "dict_rep d t bs" and "dtype d = ty" and "privdata d = pd"
    and "p \<in> dom (ents d)" and "keys_eq ty pd k (ekey d p)"
  shows "p \<in> set (bs ! unat (dict_idx d k))"
proof -
  have "dict_idx d k = dict_idx d (ekey d p)"
    using cmp_hash [OF assms(5)] assms(2) by (simp add: dict_idx_def dictHashKey_def)
  moreover have "p \<in> set (concat bs)" using assms(1,4) by (simp add: dict_rep_def)
  then obtain i where "i < length bs" "p \<in> set (bs ! i)"
    by (metis (no_types, lifting) UN_E in_set_conv_nth set_concat)
  ultimately show ?thesis
    using assms(1) by (auto simp: dict_rep_def)
qed

lemma dict_map_iff:
  assumes "dict_inv d" and "dtype d = ty" and "privdata d = pd"
  shows "dict_map d k = Some v \<longleftrightarrow>
    (\<exists>p e. ents d p = Some e \<and> keys_eq ty pd k (de_key e) \<and> v = de_val e)"
proof (cases "table (ht d)")
  case None
  then show ?thesis using assms by (simp add: dict_inv_def dict_map_def buckets_def)
next
  case (Some t)
  then have rep: "dict_rep d t (buckets d)" using assms(1) by (simp add: dict_inv_def)
  then have dom: "dom (ents d) = set (concat (buckets d))" by (simp add: dict_rep_def)
  have "List.find (\<lambda>p. keys_eq ty pd k (ekey d p)) (concat (buckets d)) = Some p \<longleftrightarrow>
      p \<in> dom (ents d) \<and> keys_eq ty pd k (ekey d p)" for p
    unfolding dom
    by (rule find_Some_unique) (metis assms(2,3) dom match_unique [OF rep])
  then show ?thesis
    using assms(2,3) by (auto simp: dict_map_def ekey_def dom_def; blast)
qed

lemma dict_map_None_iff:
  assumes "dict_inv d" and "dtype d = ty" and "privdata d = pd"
  shows "dict_map d k = None \<longleftrightarrow> (\<forall>p e. ents d p = Some e \<longrightarrow> \<not> keys_eq ty pd k (de_key e))"
  using dict_map_iff [OF assms, of k] by (metis option.exhaust option.distinct(1))

text \<open>A dictionary stores at most the map given by its entries.\<close>

lemma dict_map_eqI:
  assumes "dict_inv d" and "dtype d = ty" and "privdata d = pd"
    and "\<And>v. (\<exists>p e. ents d p = Some e \<and> keys_eq ty pd k (de_key e) \<and> v = de_val e) \<longleftrightarrow> r = Some v"
  shows "dict_map d k = r"
  using dict_map_iff [OF assms(1-3), of k] assms(4) by (metis option.exhaust)

lemma chain_find_spec:
  assumes "dict_rep d t bs" and "dtype d = ty" and "privdata d = pd" and "table (ht d) = Some t"
  obtains q where "dict_chain_find d k (t ! unat (dict_idx d k)) = Some q"
    and "q = NULL \<Longrightarrow> \<forall>p e. ents d p = Some e \<longrightarrow> \<not> keys_eq ty pd k (de_key e)"
    and "q \<noteq> NULL \<Longrightarrow> \<exists>e. ents d q = Some e \<and> keys_eq ty pd k (de_key e) \<and>
           q \<in> set (bs ! unat (dict_idx d k))"
proof -
  let ?i = "unat (dict_idx d k)" and ?P = "\<lambda>q. keys_eq ty pd k (ekey d q)"
  have i: "?i < length t"
    using assms(1) dict_idx_bound(1) by (auto simp: dict_rep_def)
  have c: "chain (nxt d) (t ! ?i) (bs ! ?i)" using assms(1) i by (simp add: dict_rep_def)
  have found: "dict_chain_find d k (t ! ?i) =
      Some (case List.find ?P (bs ! ?i) of None \<Rightarrow> NULL | Some q \<Rightarrow> q)"
    using dict_chain_find_chain [OF c, of k] assms(2,3) by simp
  show thesis
  proof (cases "List.find ?P (bs ! ?i)")
    case None
    then have "\<not> keys_eq ty pd k (de_key e)" if "ents d p = Some e" for p e
      using match_bucket [OF assms(1-3), of p k] that by (force simp: find_None_iff ekey_def dom_def)
    with that [of NULL] found None show thesis by auto
  next
    case (Some q)
    then have q: "q \<in> set (bs ! ?i)" "?P q" by (auto simp: find_Some_iff)
    then have "q \<noteq> NULL" "ents d q \<noteq> None" using chain_nodes [OF c] by auto
    with that [of q] found Some q show thesis by (auto simp: ekey_def)
  qed
qed

lemma dictFind_spec:
  assumes "dict_inv d" and "dtype d = ty" and "privdata d = pd"
  obtains q where "dictFind d k = Some q"
    and "q = NULL \<longleftrightarrow> dict_map d k = None"
    and "q \<noteq> NULL \<Longrightarrow> \<exists>e. ents d q = Some e \<and> keys_eq ty pd k (de_key e) \<and> dict_map d k = Some (de_val e)"
proof (cases "ht_size (ht d) = 0")
  case True
  then have "dict_map d k = None"
    using assms by (auto simp: dict_inv_def dict_rep_def ht_shape_def dict_map_def buckets_def
        unat_pow2 split: option.splits)
  with that [of NULL] True show thesis by (simp add: dictFind_def)
next
  case False
  with assms obtain t where t: "table (ht d) = Some t" "dict_rep d t (buckets d)"
    by (blast elim: dict_invE)
  have i: "unat (dict_idx d k) < length t"
    using t(2) dict_idx_bound(1) by (auto simp: dict_rep_def)
  obtain q where q: "dict_chain_find d k (t ! unat (dict_idx d k)) = Some q"
      "q = NULL \<Longrightarrow> \<forall>p e. ents d p = Some e \<longrightarrow> \<not> keys_eq ty pd k (de_key e)"
      "q \<noteq> NULL \<Longrightarrow> \<exists>e. ents d q = Some e \<and> keys_eq ty pd k (de_key e)"
    by (rule chain_find_spec [OF t(2) assms(2,3) t(1), of k]) blast
  have "dictFind d k = Some q"
    using False t(1) i q(1) by (simp add: dictFind_def)
  then show thesis
    by (rule that) (use q dict_map_None_iff [OF assms] dict_map_iff [OF assms] in \<open>blast+\<close>)
qed

lemma dictFetchValue_map:
  assumes "dict_inv d" and "dtype d = ty" and "privdata d = pd"
  shows "dictFetchValue d k = Some (Option.bind (dict_map d k) id)"
proof -
  obtain q where "dictFind d k = Some q" "q = NULL \<longleftrightarrow> dict_map d k = None"
      "q \<noteq> NULL \<Longrightarrow> \<exists>e. ents d q = Some e \<and> keys_eq ty pd k (de_key e) \<and> dict_map d k = Some (de_val e)"
    using dictFind_spec [OF assms, of k] by blast
  then show ?thesis by (cases "q = NULL") (auto simp: dictFetchValue_def deref_def)
qed

end


section \<open>Insertion\<close>

lemma dict_rep_push:
  fixes d :: "('p, 'k, 'v) dict"
  assumes rep: "dict_rep d t bs" and new: "new \<noteq> NULL" "ents d new = None"
    and idx: "unat (dict_idx d (de_key e)) = i" and nx: "de_next e = t ! i"
    and nomatch: "\<And>p. p \<in> dom (ents d) \<Longrightarrow> \<not> keys_eq (dtype d) (privdata d) (de_key e) (ekey d p) \<and>
        \<not> keys_eq (dtype d) (privdata d) (ekey d p) (de_key e)"
    and room: "unat (used (ht d)) < 2 ^ 64 - 1"
  shows "dict_rep (d\<lparr>ht := (ht d)\<lparr>table := Some (t[i := new]), used := used (ht d) + 1\<rparr>,
      ents := (ents d)(new \<mapsto> e)\<rparr>) (t[i := new]) (bs[i := new # bs ! i])"
    (is "dict_rep ?d ?t ?bs")
proof -
  have i: "i < length t" using rep idx dict_idx_bound(1) by (auto simp: dict_rep_def)
  have lb: "length bs = length t" using rep by (simp add: dict_rep_def)
  have dom: "dom (ents d) = set (concat bs)" using rep by (simp add: dict_rep_def)
  then have fresh: "new \<notin> set (concat bs)" using new(2) by auto
  have m: "mset (new # bs ! i) = add_mset new (mset (bs ! i))" by simp
  note ins = concat_insert [of i bs, OF _ m, unfolded lb, OF i]
  have notin: "new \<notin> set (bs ! j)" if "j < length t" for j
    using fresh that lb by (metis (no_types, lifting) UN_I nth_mem set_concat)
  have nxt: "nxt ?d = (nxt d)(new \<mapsto> t ! i)" by (auto simp: nx)
  have ek: "ekey ?d p = (if p = new then de_key e else ekey d p)" for p
    by (simp add: ekey_def)
  have di: "dict_idx ?d k = dict_idx d k" for k
    by (simp add: dict_idx_def dictHashKey_def)
  show ?thesis
  proof (rule dict_repI)
    show "chain (nxt ?d) (?t ! j) (?bs ! j)" if j: "j < length ?t" for j
      unfolding nxt using dict_repD(3) [OF rep] j new(1) notin i lb
      by (cases "j = i") auto
    show "unat (used (ht ?d)) = length (concat ?bs)"
      using dict_repD(6) [OF rep] room ins(2) by (simp add: unat_word_ariths)
    show "unat (dict_idx ?d (ekey ?d p)) = j" if "j < length ?t" "p \<in> set (?bs ! j)" for j p
      using that idx notin dict_repD(7) [OF rep] i lb
      unfolding di ek by (cases "j = i") (auto split: if_splits)
    show "\<not> keys_eq (dtype ?d) (privdata ?d) (ekey ?d p) (ekey ?d q)"
      if "p \<in> dom (ents ?d)" "q \<in> dom (ents ?d)" "p \<noteq> q" for p q
      using that nomatch dict_repD(8) [OF rep, of p q] new(2) by (auto simp: ek dom_def)
  qed (use dict_repD [OF rep] ins fresh dom in \<open>auto simp: ht_shape_def\<close>)
qed

lemma dict_rep_set_val:
  assumes "dict_rep d t bs" and "ents d p = Some e"
  shows "dict_rep (d\<lparr>ents := (ents d)(p \<mapsto> e\<lparr>de_val := v\<rparr>)\<rparr>) t bs"
proof -
  have "nxt (d\<lparr>ents := (ents d)(p \<mapsto> e\<lparr>de_val := v\<rparr>)\<rparr>) = nxt d"
    using assms(2) by auto
  moreover have "ekey (d\<lparr>ents := (ents d)(p \<mapsto> e\<lparr>de_val := v\<rparr>)\<rparr>) q = ekey d q" for q
    using assms(2) by (simp add: ekey_def)
  moreover have "dom ((ents d)(p \<mapsto> e\<lparr>de_val := v\<rparr>)) = dom (ents d)"
    using assms(2) by auto
  moreover have "dict_idx (d\<lparr>ents := f\<rparr>) k = dict_idx d k" for f k
    by (simp add: dict_idx_def dictHashKey_def)
  ultimately show ?thesis
    using assms(1) unfolding dict_rep_def by simp
qed

lemma dict_rep_calls: "dict_rep (d\<lparr>calls := c\<rparr>) t bs = dict_rep d t bs"
proof -
  have "dict_idx (d\<lparr>calls := c\<rparr>) k = dict_idx d k" for k by (simp add: dict_idx_def dictHashKey_def)
  moreover have "ekey (d\<lparr>calls := c\<rparr>) p = ekey d p" for p by (simp add: ekey_def)
  ultimately show ?thesis by (simp add: dict_rep_def)
qed

lemma dict_rep_new_table:
  assumes "ents d = (\<lambda>_. None)" and "k \<le> 31"
  shows "dict_rep (d\<lparr>ht := \<lparr>table = Some (replicate (2 ^ k) NULL), ht_size = 2 ^ k,
      sizemask = 2 ^ k - 1, used = 0\<rparr>\<rparr>) (replicate (2 ^ k) NULL) (replicate (2 ^ k) [])"
  using assms by (auto simp: dict_rep_def ht_shape_def unat_pow2)

text \<open>Creating the table: the only case in which \<open>dictExpand\<close> changes the dictionary.\<close>

lemma dictExpand_first:
  assumes "dict_inv d" and "table (ht d) = None" and "sz \<le> 2 ^ 31"
  obtains k d' where "k \<le> 31" and "dictExpand d sz = Some (d', DICT_OK)" and "dict_inv d'"
    and "table (ht d') = Some (replicate (2 ^ k) NULL)" and "sz \<le> 2 ^ k"
    and "d' = d\<lparr>ht := ht d'\<rparr>" and "used (ht d') = 0"
proof -
  have "sz < LONG_MAX"
    using assms(3) by (simp add: LONG_MAX_def word_less_nat_alt word_le_nat_alt)
  from dictNextPower_pow2 [OF this] obtain k where k: "2 \<le> k" "k \<le> 63"
      "dictNextPower sz = Some (2 ^ k)" "sz \<le> 2 ^ k" "k = 2 \<or> 2 ^ (k - 1) < sz" by blast
  have "k \<le> 31"
  proof (rule ccontr)
    assume "\<not> k \<le> 31"
    with k have "(2::u64) ^ (k - 1) < 2 ^ 31" using assms(3) by auto
    then have "(2::nat) ^ (k - 1) < 2 ^ 31"
      using k(2) by (simp add: word_less_nat_alt unat_pow2)
    then have "k - 1 < 31" by (rule power_less_imp_less_exp [rotated]) simp
    with \<open>\<not> k \<le> 31\<close> show False by simp
  qed
  have e8: "(2::u64) ^ k * 8 = 2 ^ (k + 3)" by (simp add: power_add)
  have "unat ((2::u64) ^ (k + 3)) = 2 ^ (k + 3)"
    using \<open>k \<le> 31\<close> by (intro unat_pow2) simp
  then have slots: "unat ((2::u64) ^ k * 8) div 8 = 2 ^ k"
    unfolding e8 by (simp add: power_add)
  let ?d = "d\<lparr>ht := \<lparr>table = Some (replicate (2 ^ k) NULL), ht_size = 2 ^ k,
      sizemask = 2 ^ k - 1, used = 0\<rparr>\<rparr>"
  have e: "ents d = (\<lambda>_. None)" "used (ht d) = 0"
    using assms(1,2) by (simp_all add: dict_inv_def)
  have "dictExpand d sz = Some (?d, DICT_OK)"
    using k(3) e assms(2) slots by (simp add: dictExpand_def)
  moreover have "dict_inv ?d"
    by (rule dict_invI [OF _ dict_rep_new_table [OF e(1) \<open>k \<le> 31\<close>]]) simp
  ultimately show thesis
    using that [of k ?d] \<open>k \<le> 31\<close> k(4) by simp
qed

lemma dictExpand_existing:
  assumes "table (ht d) \<noteq> None"
  shows "dictExpand d sz = Some (d, if used (ht d) > sz then DICT_ERR else DICT_OK)"
  using assms dictNextPower_total [of sz] by (auto simp: dictExpand_def)

lemma dictExpandIfNeeded_spec:
  assumes "dict_inv d" and "unat (used (ht d)) < 2 ^ 63"
  obtains d' t where "dictExpandIfNeeded d = Some (d', DICT_OK)" and "dict_inv d'"
    and "table (ht d') = Some t" and "d' = d\<lparr>ht := ht d'\<rparr>" and "used (ht d') = used (ht d)"
    and "table (ht d) \<noteq> None \<Longrightarrow> d' = d"
proof (cases "table (ht d)")
  case None
  then have "ht_size (ht d) = 0" "used (ht d) = 0" using assms(1) by (simp_all add: dict_inv_def)
  moreover obtain k d' where "dictExpand d 4 = Some (d', DICT_OK)" "dict_inv d'"
      "table (ht d') = Some (replicate (2 ^ k) NULL)" "d' = d\<lparr>ht := ht d'\<rparr>" "used (ht d') = 0"
    by (rule dictExpand_first [OF assms(1) None, of 4]) (auto simp: word_le_nat_alt)
  ultimately show thesis
    using that [of d'] None by (simp add: dictExpandIfNeeded_def DICT_HT_INITIAL_SIZE_def)
next
  case (Some t)
  have "unat (used (ht d) * 2) = unat (used (ht d)) * 2"
    using assms(2) by (simp add: unat_word_ariths)
  then have "\<not> used (ht d) * 2 < used (ht d)" by (simp add: word_less_nat_alt)
  then have "dictExpandIfNeeded d = Some (d, DICT_OK)"
    using Some assms(1) dictExpand_existing [of d]
    by (auto simp: dictExpandIfNeeded_def dict_inv_def dict_rep_def ht_shape_def unat_pow2)
  with that [of d t] Some assms(1) show thesis by simp
qed


context dict_callbacks
begin

lemma dictAddRaw_spec:
  assumes inv: "dict_inv d" and T: "dtype d = ty" "privdata d = pd"
    and new: "new \<noteq> NULL" "ents d new = None" and room: "unat (used (ht d)) < 2 ^ 63"
  shows "if dict_map d key = None
    then \<exists>d' head. dictAddRaw d key new = Some (d', new) \<and> dict_inv d' \<and>
      ents d' = (ents d)(new \<mapsto> \<lparr>de_key = key_dup ty pd key, de_val = None, de_next = head\<rparr>) \<and>
      dtype d' = ty \<and> privdata d' = pd \<and> calls d' = calls d \<and> used (ht d') = used (ht d) + 1
    else dictAddRaw d key new = Some (d, NULL)"
proof -
  obtain d1 t where d1: "dictExpandIfNeeded d = Some (d1, DICT_OK)" "dict_inv d1"
      "table (ht d1) = Some t" "d1 = d\<lparr>ht := ht d1\<rparr>" "used (ht d1) = used (ht d)"
      "table (ht d) \<noteq> None \<Longrightarrow> d1 = d"
    by (rule dictExpandIfNeeded_spec [OF inv room]) blast
  have T1: "dtype d1 = ty" "privdata d1 = pd" "ents d1 = ents d" "calls d1 = calls d"
    by (subst d1(4), simp add: T)+
  have rep: "dict_rep d1 t (buckets d1)" using d1(2,3) by (simp add: dict_inv_def)
  let ?i = "unat (dict_idx d1 key)"
  have i: "?i < length t" using dict_repD(1) [OF rep] by (rule dict_idx_bound)
  have si: "sint (dict_idx d1 key) = int ?i" using dict_repD(1) [OF rep] by (rule dict_idx_bound)
  obtain q where q: "dict_chain_find d1 key (t ! ?i) = Some q"
      "q = NULL \<Longrightarrow> \<forall>p e. ents d1 p = Some e \<longrightarrow> \<not> keys_eq ty pd key (de_key e)"
      "q \<noteq> NULL \<Longrightarrow> \<exists>e. ents d1 q = Some e \<and> keys_eq ty pd key (de_key e)"
    by (rule chain_find_spec [OF rep T1(1,2) d1(3), of key]) blast
  have ki: "dictKeyIndex d key = Some (d1, if q \<noteq> NULL then -1 else int ?i)"
    using d1(1,3) i q(1) si by (simp add: dictKeyIndex_def)
  have none: "dict_map d key = None \<longleftrightarrow> q = NULL"
    using q dict_map_None_iff [OF inv T] T1(3) by metis
  show ?thesis
  proof (cases "q = NULL")
    case False
    then have "ents d \<noteq> (\<lambda>_. None)" using q(3) T1(3) by fastforce
    then have "d1 = d" using d1(6) inv by (auto simp: dict_inv_def split: option.splits)
    with False none ki show ?thesis by (simp add: dictAddRaw_def)
  next
    case True
    let ?e = "\<lparr>de_key = key_dup ty pd key, de_val = None, de_next = t ! ?i\<rparr>"
    let ?d = "d1\<lparr>ht := (ht d1)\<lparr>table := Some (t[?i := new]), used := used (ht d1) + 1\<rparr>,
        ents := (ents d1)(new \<mapsto> ?e)\<rparr>"
    have "uint (dict_idx d1 key) \<noteq> - 1" using uint_ge_0 [of "dict_idx d1 key"] by linarith
    then have add: "dictAddRaw d key new = Some (?d, new)"
      using True ki new(1) d1(3) i T1 by (simp add: dictAddRaw_def dictSetKey_eq)
    have "dict_rep ?d (t[?i := new]) ((buckets d1)[?i := new # buckets d1 ! ?i])"
    proof (rule dict_rep_push [OF rep])
      show "unat (dict_idx d1 (de_key ?e)) = ?i"
        using cmp_hash [OF cmp_dup, of key] T1(1) by (simp add: dict_idx_def dictHashKey_def)
      show "\<not> keys_eq (dtype d1) (privdata d1) (de_key ?e) (ekey d1 p) \<and>
          \<not> keys_eq (dtype d1) (privdata d1) (ekey d1 p) (de_key ?e)" if "p \<in> dom (ents d1)" for p
      proof -
        from that obtain e where "ents d1 p = Some e" by auto
        with q(2) True have "\<not> keys_eq ty pd key (ekey d1 p)" by (simp add: ekey_def)
        then show ?thesis using T1 cmp_dup [of key] cmp_sym cmp_trans by (metis dictEntry.select_convs(1))
      qed
    qed (use new T1 room d1(5) in auto)
    then have "dict_inv ?d" by (rule dict_invI [rotated]) simp
    with add none True T1 d1(5) show ?thesis by auto
  qed
qed

text \<open>\<open>dictAdd\<close> inserts a key that is not there, and changes nothing when it is.\<close>

lemma dictAdd_spec:
  assumes inv: "dict_inv d" and T: "dtype d = ty" "privdata d = pd"
    and new: "new \<noteq> NULL" "ents d new = None" and room: "unat (used (ht d)) < 2 ^ 63"
  shows "if dict_map d key = None
    then \<exists>d'. dictAdd d key val new = Some (d', DICT_OK) \<and> dict_inv d' \<and>
      (\<forall>k. dict_map d' k = (if keys_eq ty pd k key then Some (Some (val_dup ty pd val)) else dict_map d k)) \<and>
      dtype d' = ty \<and> privdata d' = pd \<and> calls d' = calls d \<and> used (ht d') = used (ht d) + 1 \<and>
      dom (ents d') = insert new (dom (ents d))
    else dictAdd d key val new = Some (d, DICT_ERR)"
proof (cases "dict_map d key = None")
  case False
  with dictAddRaw_spec [OF assms, of key] show ?thesis by (simp add: dictAdd_def)
next
  case True
  with dictAddRaw_spec [OF assms, of key] obtain d1 head where d1:
      "dictAddRaw d key new = Some (d1, new)" "dict_inv d1"
      "ents d1 = (ents d)(new \<mapsto> \<lparr>de_key = key_dup ty pd key, de_val = None, de_next = head\<rparr>)"
      "dtype d1 = ty" "privdata d1 = pd" "calls d1 = calls d" "used (ht d1) = used (ht d) + 1"
    by auto
  let ?e = "\<lparr>de_key = key_dup ty pd key, de_val = None, de_next = head\<rparr>"
  let ?v = "Some (val_dup ty pd val)"
  let ?d = "d1\<lparr>ents := (ents d1)(new \<mapsto> ?e\<lparr>de_val := ?v\<rparr>)\<rparr>"
  have add: "dictAdd d key val new = Some (?d, DICT_OK)"
    using d1 new(1) by (simp add: dictAdd_def deref_def dictSetVal_eq)
  have "table (ht d1) \<noteq> None" using d1(2,3) by (auto simp: dict_inv_def fun_eq_iff split: option.splits if_splits)
  then obtain t where t: "table (ht d1) = Some t" "dict_rep d1 t (buckets d1)"
    using d1(2) by (blast elim: dict_invE)
  have "dict_rep ?d t (buckets d1)"
    by (rule dict_rep_set_val [OF t(2)]) (simp add: d1(3))
  then have inv': "dict_inv ?d" using t(1) by (auto intro: dict_invI)
  have "dict_map ?d k = (if keys_eq ty pd k key then Some ?v else dict_map d k)" for k
  proof (rule dict_map_eqI [OF inv'])
    fix v
    have e: "keys_eq ty pd k (key_dup ty pd key) \<longleftrightarrow> keys_eq ty pd k key"
      using cmp_dup [of key] cmp_sym cmp_trans by blast
    have nomatch: "\<not> keys_eq ty pd k (de_key f)" if "keys_eq ty pd k key" "ents d p = Some f" for p f
      using True dict_map_None_iff [OF inv T, of key] that cmp_sym cmp_trans by blast
    have ents: "ents ?d p = (if p = new then Some (?e\<lparr>de_val := ?v\<rparr>) else ents d p)" for p
      using d1(3) by simp
    show "(\<exists>p e. ents ?d p = Some e \<and> keys_eq ty pd k (de_key e) \<and> v = de_val e) \<longleftrightarrow>
        (if keys_eq ty pd k key then Some ?v else dict_map d k) = Some v"
    proof (cases "keys_eq ty pd k key")
      case True
      then show ?thesis using nomatch e unfolding ents by (auto split: if_splits)
    next
      case False
      then show ?thesis
        using dict_map_iff [OF inv T, of k v] e new(2) unfolding ents
        by (auto split: if_splits; metis option.distinct(1))
    qed
  qed (simp_all add: d1)
  with add inv' True d1 show ?thesis by auto
qed

end


section \<open>Deletion\<close>

text \<open>Unlinking \<open>x\<close> from chain \<open>i\<close>, whatever pointer update did it.\<close>

lemma dict_rep_unlink:
  fixes d d' :: "('p, 'k, 'v) dict"
  assumes rep: "dict_rep d t bs" and i: "i < length t" and bi: "bs ! i = ys @ x # zs"
    and ctx: "dtype d' = dtype d" "privdata d' = privdata d"
    and h': "ht d' = (ht d)\<lparr>table := Some t', used := used (ht d) - 1\<rparr>"
    and t': "length t' = length t" "\<And>j. j < length t \<Longrightarrow> j \<noteq> i \<Longrightarrow> t' ! j = t ! j"
    and x: "ents d' x = None"
    and keep: "\<And>p. p \<noteq> x \<Longrightarrow> map_option de_key (ents d' p) = map_option de_key (ents d p)"
    and other: "\<And>p. p \<notin> set (bs ! i) \<Longrightarrow> ents d' p = ents d p"
    and ch: "chain (nxt d') (t' ! i) (ys @ zs)"
  shows "dict_rep d' t' (bs[i := ys @ zs])"
proof -
  have lb: "length bs = length t" using rep by (rule dict_repD)
  have "mset (bs ! i) = add_mset x (mset (ys @ zs))" by (simp add: bi)
  note del = concat_delete [OF i [folded lb] this dict_repD(4) [OF rep]]
  have dom: "dom (ents d') = dom (ents d) - {x}"
    using keep x by (auto simp: dom_def) (metis option.map_disc_iff option.distinct(1) not_None_eq)+
  have ek: "ekey d' p = ekey d p" if "p \<in> dom (ents d')" for p
    using keep [of p] that x by (cases "ents d p"; cases "p = x") (auto simp: ekey_def)
  have mem: "p \<in> dom (ents d')" if "j < length t" "p \<in> set ((bs[i := ys @ zs]) ! j)" for j p
  proof -
    have "p \<in> set (concat (bs[i := ys @ zs]))"
      using that lb by (metis (no_types, lifting) UN_I length_list_update nth_mem set_concat)
    then show ?thesis unfolding del(1) dom dict_repD(5) [OF rep] .
  qed
  have disj: "set (bs ! j) \<inter> set (bs ! i) = {}" if "j < length t" "j \<noteq> i" for j
    using dict_repD(4) [OF rep] that i lb by (metis distinct_concat_iff nth_mem nth_eq_iff_index_eq
        Int_emptyI disjoint_iff dict_repD(7) [OF rep])
  have di: "dict_idx d' k = dict_idx d k" for k
    by (simp add: dict_idx_def dictHashKey_def ctx h')
  show ?thesis
  proof (rule dict_repI)
    show "chain (nxt d') (t' ! j) ((bs[i := ys @ zs]) ! j)" if "j < length t'" for j
    proof (cases "j = i")
      case True
      then show ?thesis using ch i lb by simp
    next
      case False
      then have "chain (nxt d') (t ! j) (bs ! j) = chain (nxt d) (t ! j) (bs ! j)"
        using disj [of j] other that t'(1) by (intro chain_cong) (auto simp: disjoint_iff)
      then show ?thesis using False that t' dict_repD(3) [OF rep] by simp
    qed
    have n: "unat (used (ht d)) = Suc (length (concat (bs[i := ys @ zs])))"
      unfolding dict_repD(6) [OF rep] by (rule del(2) [symmetric])
    then have "used (ht d) \<noteq> 0" by (metis nat.distinct(1) unat_eq_zero)
    then have "unat (used (ht d) - 1) = length (concat (bs[i := ys @ zs]))"
      using unat_minus_one [of "used (ht d)"] n by simp
    then show "unat (used (ht d')) = length (concat (bs[i := ys @ zs]))" by (simp add: h')
    show "unat (dict_idx d' (ekey d' p)) = j" if "j < length t'" "p \<in> set ((bs[i := ys @ zs]) ! j)" for j p
      using that mem [of j p] ek [of p] dict_repD(7) [OF rep, of j p] t'(1) bi i lb
      by (cases "j = i") (auto simp: di)
    show "\<not> keys_eq (dtype d') (privdata d') (ekey d' p) (ekey d' q)"
      if "p \<in> dom (ents d')" "q \<in> dom (ents d')" "p \<noteq> q" for p q
      using that dict_repD(8) [OF rep, of p q] dom by (simp add: ek ctx)
  qed (use dict_repD [OF rep] del dom t' h' in \<open>auto simp: ht_shape_def\<close>)
qed


text \<open>The loop of \<open>dictGenericDelete\<close>, started behind the nodes \<open>ys\<close> of chain \<open>i\<close>: it stops at the
  first matching node \<open>x\<close> and unlinks it.\<close>

lemma dict_delete_loop_miss:
  assumes "chain (nxt d) he xs" and "\<And>p. p \<in> set xs \<Longrightarrow> \<not> dictCompareKeys d key (ekey d p)"
  shows "dict_delete_loop d key nofree i prev he = Some (d, DICT_ERR)"
  using assms
proof (induction xs arbitrary: prev he)
  case Nil
  then show ?case by (simp add: dict_delete_loop.simps)
next
  case (Cons x xs)
  then obtain e where e: "ents d x = Some e" "chain (nxt d) (de_next e) xs" "he = x" "x \<noteq> NULL"
    by auto
  moreover have "\<not> dictCompareKeys d key (de_key e)" using Cons.prems(2) [of x] e(1) by (simp add: ekey_def)
  ultimately show ?case
    using Cons.IH [OF e(2), of x] Cons.prems(2) by (subst dict_delete_loop.simps) (simp add: deref_def)
qed

definition free_calls :: "('p, 'k, 'v) dict \<Rightarrow> bool \<Rightarrow> ('k, 'v) dictEntry \<Rightarrow> ('k, 'v) dict_call list" where
  "free_calls d nofree e = (if nofree then [] else
     (if keyDestructor (dtype d) then [KeyDestructor (de_key e)] else []) @
     (if valDestructor (dtype d) then [ValDestructor (de_val e)] else []))"

lemma dict_free_both: "dictFreeVal (dictFreeKey d e) e = d\<lparr>calls := calls d @ free_calls d False e\<rparr>"
  by (simp add: dictFreeVal_def dictFreeKey_def free_calls_def)

lemma dict_delete_loop_hit:
  assumes rep: "dict_rep d t bs" and t: "table (ht d) = Some t" and i: "i < length t"
    and bi: "bs ! i = ys @ us @ x # zs" and he: "chain (nxt d) he (us @ x # zs)"
    and prev: "prev = (if ys = [] then NULL else last ys)" and e: "ents d x = Some e"
    and hit: "dictCompareKeys d key (de_key e)"
    and miss: "\<And>p. p \<in> set us \<Longrightarrow> \<not> dictCompareKeys d key (ekey d p)"
  shows "\<exists>d' t'. dict_delete_loop d key nofree i prev he = Some (d', DICT_OK) \<and> table (ht d') = Some t' \<and>
    dict_rep d' t' (bs[i := ys @ us @ zs]) \<and> ents d' x = None \<and>
    (\<forall>p. p \<noteq> x \<longrightarrow> map_option (\<lambda>e. (de_key e, de_val e)) (ents d' p) =
        map_option (\<lambda>e. (de_key e, de_val e)) (ents d p)) \<and>
    dtype d' = dtype d \<and> privdata d' = privdata d \<and> calls d' = calls d @ free_calls d nofree e \<and>
    used (ht d') = used (ht d) - 1"
  using bi he prev miss
proof (induction us arbitrary: ys prev he)
  case Nil
  from Nil.prems(2) e have hex: "he = x" "x \<noteq> NULL" "chain (nxt d) (de_next e) zs" by auto
  have full: "chain (nxt d) (t ! i) (ys @ x # zs)" using dict_repD(3) [OF rep i] Nil.prems(1) by simp
  then have dist: "distinct (ys @ x # zs)" by (rule chain_distinct)
  show ?case
  proof (cases ys rule: rev_cases)
    case Nil': Nil
    let ?d = "d\<lparr>ents := (ents d)(x := None), calls := calls d @ free_calls d nofree e,
        ht := (ht d)\<lparr>table := Some (t[i := de_next e]), used := used (ht d) - 1\<rparr>\<rparr>"
    have run: "dict_delete_loop d key nofree i prev he = Some (?d, DICT_OK)"
      using hex e hit t i Nil.prems(3) Nil'
      by (subst dict_delete_loop.simps) (simp add: deref_def dict_free_both, simp add: free_calls_def)
    have "dict_rep ?d (t[i := de_next e]) (bs[i := ys @ zs])"
      using hex(3) dist Nil.prems(1) Nil' i
      by (intro dict_rep_unlink [OF rep i]) (auto simp: comp_def intro: chain_cong [THEN iffD1, rotated])
    then show ?thesis using run Nil' by auto
  next
    case (snoc ws a)
    from full snoc have "a \<in> set (ys @ x # zs)" by simp
    then obtain ea where ea: "ents d a = Some ea" "a \<noteq> NULL"
      using chain_nodes [OF full] by auto
    let ?d = "d\<lparr>ents := ((ents d)(a \<mapsto> ea\<lparr>de_next := de_next e\<rparr>))(x := None),
        calls := calls d @ free_calls d nofree e,
        ht := (ht d)\<lparr>table := Some t, used := used (ht d) - 1\<rparr>\<rparr>"
    have ax: "a \<noteq> x" using dist snoc by auto
    have "ht d = (ht d)\<lparr>table := Some t\<rparr>" using t by simp
    then have run: "dict_delete_loop d key nofree i prev he = Some (?d, DICT_OK)"
      using hex e hit Nil.prems(3) snoc ea ax
      by (subst dict_delete_loop.simps) (simp add: deref_def dict_free_both, simp add: free_calls_def)
    have "chain ((nxt d)(a \<mapsto> de_next e)) (t ! i) (ws @ a # zs)"
      by (rule chain_unlink) (use full snoc e in auto)
    moreover have "nxt ?d p = ((nxt d)(a \<mapsto> de_next e)) p" if "p \<noteq> x" for p
      using that ea by simp
    ultimately have "chain (nxt ?d) (t ! i) (ys @ zs)"
      using dist snoc by (subst chain_cong [where m = "(nxt d)(a \<mapsto> de_next e)"]) auto
    then have "dict_rep ?d t (bs[i := ys @ zs])"
      using Nil.prems(1) ea snoc by (intro dict_rep_unlink [OF rep i]) auto
    then show ?thesis using run ea ax by auto
  qed
next
  case (Cons u us)
  from Cons.prems(2) obtain eu where eu: "he = u" "u \<noteq> NULL" "ents d u = Some eu"
      "chain (nxt d) (de_next eu) (us @ x # zs)" by auto
  have "dict_delete_loop d key nofree i prev he = dict_delete_loop d key nofree i u (de_next eu)"
    using eu Cons.prems(4) [of u] by (subst dict_delete_loop.simps) (simp add: deref_def ekey_def)
  moreover have "bs ! i = (ys @ [u]) @ us @ x # zs" using Cons.prems(1) by simp
  ultimately show ?case
    using Cons.IH [OF _ eu(4), of "ys @ [u]" u] Cons.prems(4) by simp
qed


context dict_callbacks
begin

lemma dict_map_same_entries:
  assumes "dict_inv d" and "dtype d = ty" and "privdata d = pd"
    and "dict_inv d'" and "dtype d' = ty" and "privdata d' = pd"
    and "ents d' x = None" and "ents d x = Some e"
    and same: "\<And>p. p \<noteq> x \<Longrightarrow> map_option (\<lambda>e. (de_key e, de_val e)) (ents d' p) =
        map_option (\<lambda>e. (de_key e, de_val e)) (ents d p)"
  shows "dict_map d' k = (if keys_eq ty pd k (de_key e) then None else dict_map d k)"
proof (rule dict_map_eqI [OF assms(4-6)])
  fix v
  have rep: "dict_rep d (the (table (ht d))) (buckets d)"
    using assms(1,8) by (auto simp: dict_inv_def split: option.splits)
  have tr: "(\<exists>f. ents d' p = Some f \<and> keys_eq ty pd k (de_key f) \<and> v = de_val f) \<longleftrightarrow>
      p \<noteq> x \<and> (\<exists>f. ents d p = Some f \<and> keys_eq ty pd k (de_key f) \<and> v = de_val f)" for p
    using same [of p] assms(7) by (cases "ents d' p"; cases "ents d p"; cases "p = x") auto
  have only: "p = x" if "keys_eq ty pd k (de_key e)" "ents d p = Some f" "keys_eq ty pd k (de_key f)" for p f
    by (rule match_unique [OF rep assms(2,3)]) (use that assms(8) in \<open>auto simp: ekey_def\<close>)
  show "(\<exists>p f. ents d' p = Some f \<and> keys_eq ty pd k (de_key f) \<and> v = de_val f) \<longleftrightarrow>
      (if keys_eq ty pd k (de_key e) then None else dict_map d k) = Some v"
  proof (cases "keys_eq ty pd k (de_key e)")
    case True
    then show ?thesis unfolding tr using only by auto
  next
    case False
    then have "p \<noteq> x" if "ents d p = Some f" "keys_eq ty pd k (de_key f)" for p f
      using that assms(8) by auto
    with False show ?thesis
      unfolding tr using dict_map_iff [OF assms(1-3), of k v] by auto
  qed
qed

lemma dictGenericDelete_spec:
  assumes inv: "dict_inv d" and T: "dtype d = ty" "privdata d = pd"
  shows "case dict_map d key of
      None \<Rightarrow> dictGenericDelete d key nofree = Some (d, DICT_ERR)
    | Some v \<Rightarrow> \<exists>d' e. dictGenericDelete d key nofree = Some (d', DICT_OK) \<and> dict_inv d' \<and>
        (\<forall>k. dict_map d' k = (if keys_eq ty pd k key then None else dict_map d k)) \<and>
        dtype d' = ty \<and> privdata d' = pd \<and> used (ht d') = used (ht d) - 1 \<and>
        keys_eq ty pd key (de_key e) \<and> de_val e = v \<and> calls d' = calls d @ free_calls d nofree e"
proof (cases "ht_size (ht d) = 0")
  case True
  then have "ents d = (\<lambda>_. None)"
    using inv by (auto simp: dict_inv_def dict_rep_def ht_shape_def unat_pow2 split: option.splits)
  then have "dict_map d key = None" by (simp add: dict_map_None_iff [OF inv T])
  with True show ?thesis by (simp add: dictGenericDelete_def)
next
  case False
  with inv obtain t where t: "table (ht d) = Some t" and rep: "dict_rep d t (buckets d)"
    by (blast elim: dict_invE)
  let ?i = "unat (dict_idx d key)" and ?P = "\<lambda>p. keys_eq ty pd key (ekey d p)"
  have i: "?i < length t" using dict_repD(1) [OF rep] by (rule dict_idx_bound)
  have c: "chain (nxt d) (t ! ?i) (buckets d ! ?i)" using dict_repD(3) [OF rep i] .
  have run: "dictGenericDelete d key nofree = dict_delete_loop d key nofree ?i NULL (t ! ?i)"
    using False t i by (simp add: dictGenericDelete_def)
  have cmp: "dictCompareKeys d = keys_eq ty pd" by (simp add: dictCompareKeys_eq T)
  show ?thesis
  proof (cases "\<exists>x\<in>set (buckets d ! ?i). ?P x")
    case no: False
    then have "dict_map d key = None"
      using match_bucket [OF rep T] by (force simp: dict_map_None_iff [OF inv T] ekey_def dom_def)
    moreover have "dict_delete_loop d key nofree ?i NULL (t ! ?i) = Some (d, DICT_ERR)"
      by (rule dict_delete_loop_miss [OF c]) (use no cmp in auto)
    ultimately show ?thesis by (simp add: run)
  next
    case yes: True
    then obtain us x zs where sp: "buckets d ! ?i = us @ x # zs" "?P x" "\<forall>p\<in>set us. \<not> ?P p"
      using split_list_first_prop [OF yes] by blast
    then obtain e where e: "ents d x = Some e"
      using chain_nodes [OF c, of x] by auto
    with sp have m: "keys_eq ty pd key (de_key e)" by (simp add: ekey_def)
    have "\<exists>d' t'. dict_delete_loop d key nofree ?i NULL (t ! ?i) = Some (d', DICT_OK) \<and> table (ht d') = Some t' \<and>
        dict_rep d' t' ((buckets d)[?i := [] @ us @ zs]) \<and> ents d' x = None \<and>
        (\<forall>p. p \<noteq> x \<longrightarrow> map_option (\<lambda>e. (de_key e, de_val e)) (ents d' p) =
            map_option (\<lambda>e. (de_key e, de_val e)) (ents d p)) \<and>
        dtype d' = dtype d \<and> privdata d' = privdata d \<and> calls d' = calls d @ free_calls d nofree e \<and>
        used (ht d') = used (ht d) - 1"
      by (rule dict_delete_loop_hit [OF rep t i]) (use sp e m c cmp in auto)
    then obtain d' t' where d': "dict_delete_loop d key nofree ?i NULL (t ! ?i) = Some (d', DICT_OK)"
        "table (ht d') = Some t'" "dict_rep d' t' ((buckets d)[?i := [] @ us @ zs])" "ents d' x = None"
        "\<And>p. p \<noteq> x \<Longrightarrow> map_option (\<lambda>e. (de_key e, de_val e)) (ents d' p) =
            map_option (\<lambda>e. (de_key e, de_val e)) (ents d p)"
        "dtype d' = ty" "privdata d' = pd" "calls d' = calls d @ free_calls d nofree e"
        "used (ht d') = used (ht d) - 1"
      using T by auto
    have inv': "dict_inv d'" using d'(2,3) by (rule dict_invI)
    have "dict_map d' k = (if keys_eq ty pd k (de_key e) then None else dict_map d k)" for k
      by (rule dict_map_same_entries [OF inv T inv' d'(6,7,4) e d'(5)])
    moreover have "keys_eq ty pd k (de_key e) \<longleftrightarrow> keys_eq ty pd k key" for k
      using m cmp_sym cmp_trans by blast
    moreover have "dict_map d key = Some (de_val e)"
      using dict_map_iff [OF inv T] e m by blast
    ultimately show ?thesis
      using run d' inv' m by auto
  qed
qed

lemma dictReplace_spec:
  assumes inv: "dict_inv d" and T: "dtype d = ty" "privdata d = pd"
    and new: "new \<noteq> NULL" "ents d new = None" and room: "unat (used (ht d)) < 2 ^ 63"
  shows "\<exists>d'. dictReplace d key val new = Some (d', if dict_map d key = None then 1 else 0) \<and> dict_inv d' \<and>
      (\<forall>k. dict_map d' k = (if keys_eq ty pd k key then Some (Some (val_dup ty pd val)) else dict_map d k)) \<and>
      dtype d' = ty \<and> privdata d' = pd \<and>
      calls d' = calls d @ (case dict_map d key of Some v \<Rightarrow>
        (if valDestructor ty then [ValDestructor v] else []) | None \<Rightarrow> [])"
proof (cases "dict_map d key")
  case None
  with dictAdd_spec [OF assms, of key val] show ?thesis by (auto simp: dictReplace_def)
next
  case (Some v)
  with dictAdd_spec [OF assms, of key val] have add: "dictAdd d key val new = Some (d, DICT_ERR)" by simp
  obtain q e where q: "dictFind d key = Some q" "ents d q = Some e" "keys_eq ty pd key (de_key e)"
      "v = de_val e" "q \<noteq> NULL"
    using dictFind_spec [OF inv T, of key] Some by (metis option.inject option.distinct(1))
  let ?d = "d\<lparr>ents := (ents d)(q \<mapsto> e\<lparr>de_val := Some (val_dup ty pd val)\<rparr>)\<rparr>"
  let ?d' = "dictFreeVal ?d e"
  have run: "dictReplace d key val new = Some (?d', 0)"
    using add q T by (simp add: dictReplace_def deref_def dictSetVal_eq)
  from inv q(2) obtain t where t: "table (ht d) = Some t" "dict_rep d t (buckets d)"
    by (auto simp: dict_inv_def split: option.splits)
  have fv: "?d' = ?d\<lparr>calls := calls ?d'\<rparr>" by (simp add: dictFreeVal_def)
  have "dict_rep ?d t (buckets d)" by (rule dict_rep_set_val [OF t(2) q(2)])
  then have "dict_rep ?d' t (buckets d)"
    by (subst fv) (simp only: dict_rep_calls)
  then have inv': "dict_inv ?d'" using t(1) by (intro dict_invI) (auto simp: dictFreeVal_def)
  have only: "p = q" if "keys_eq ty pd k key" "ents d p = Some f" "keys_eq ty pd k (de_key f)" for k p f
  proof (rule match_unique [OF t(2) T, where k = k])
    show "keys_eq ty pd k (ekey d q)" using cmp_trans [OF that(1) q(3)] q(2) by (simp add: ekey_def)
  qed (use that q(2) in \<open>auto simp: ekey_def\<close>)
  have "dict_map ?d' k = (if keys_eq ty pd k key then Some (Some (val_dup ty pd val)) else dict_map d k)" for k
  proof (rule dict_map_eqI [OF inv'])
    fix v
    have kq: "keys_eq ty pd k (de_key e) \<longleftrightarrow> keys_eq ty pd k key" using q(3) cmp_sym cmp_trans by blast
    have ents: "ents ?d' p = (if p = q then Some (e\<lparr>de_val := Some (val_dup ty pd val)\<rparr>) else ents d p)" for p
      by (simp add: dictFreeVal_def)
    show "(\<exists>p f. ents ?d' p = Some f \<and> keys_eq ty pd k (de_key f) \<and> v = de_val f) \<longleftrightarrow>
        (if keys_eq ty pd k key then Some (Some (val_dup ty pd val)) else dict_map d k) = Some v"
    proof (cases "keys_eq ty pd k key")
      case True
      then show ?thesis using only [OF True] kq unfolding ents by (auto split: if_splits)
    next
      case False
      have "p \<noteq> q" if "ents d p = Some f" "keys_eq ty pd k (de_key f)" for p f
        using that False kq q(2) by auto
      then show ?thesis
        using False kq dict_map_iff [OF inv T, of k v] unfolding ents by (auto split: if_splits; metis)
    qed
  qed (simp_all add: dictFreeVal_def T)
  with run inv' Some q(4) T show ?thesis
    by (auto simp: dictFreeVal_def)
qed

end

end
