(* ===== verification/DictWalk.thy ===== *)
theory DictWalk
  imports DictSpec
begin

text \<open>
  The operations of \<open>dict.c\<close> that visit the whole table: \<open>dictNext\<close> as the client loop of
  \<open>demo_dict.c\<close> uses it, and \<open>_dictClear\<close> with its callers \<open>dictEmpty\<close> and \<open>dictRelease\<close>.
\<close>

section \<open>Iteration\<close>

lemma sint_ht_size:
  assumes "ht_shape h t"
  shows "sint (ht_size h) = int (length t)"
proof -
  from assms obtain k where k: "k \<le> 31" "ht_size h = 2 ^ k" "unat (ht_size h) = length t"
    by (auto simp: ht_shape_def)
  have "(2::nat) ^ k < 2 ^ 63" using k(1) by (intro power_strict_increasing) auto
  then have "unat (ht_size h) < 2 ^ 63" using k(1,2) by (simp add: unat_pow2)
  then show ?thesis using sint_small [of "ht_size h"] k(3) by simp
qed

lemma dictNext_bucket_end:
  "it_entry it \<noteq> NULL \<Longrightarrow> it_nextEntry it = NULL \<Longrightarrow>
   dictNext d it = dictNext d (it\<lparr>it_entry := NULL\<rparr>)"
  by (subst dictNext.simps) simp

lemma dictNext_in_bucket:
  assumes "it_entry it \<noteq> NULL" and "it_nextEntry it = x" and "x \<noteq> NULL" and "ents d x = Some e"
  shows "dictNext d it = Some (it\<lparr>it_entry := x, it_nextEntry := de_next e\<rparr>, x)"
  using assms by (subst dictNext.simps) (simp add: deref_def)

lemma dictNext_empty_bucket:
  assumes "table (ht d) = Some t" and "i < length t" and "t ! i = NULL"
    and "int i < sint (ht_size (ht d))"
  shows "dictNext d \<lparr>it_index = int i - 1, it_entry = NULL, it_nextEntry = NULL\<rparr> =
    dictNext d \<lparr>it_index = int i, it_entry = NULL, it_nextEntry = NULL\<rparr>"
  by (subst dictNext.simps) (use assms in simp)

lemma dict_iterate_step:
  "dictNext d it = Some (it', x) \<Longrightarrow> x \<noteq> NULL \<Longrightarrow>
   dict_iterate d it = map_option ((#) x) (dict_iterate d it')"
  by (subst dict_iterate.simps) (auto simp: bind_eq_Some_conv split: bind_splits)

lemma dict_iterate_cong: "dictNext d it = dictNext d it' \<Longrightarrow> dict_iterate d it = dict_iterate d it'"
  by (subst (1 2) dict_iterate.simps) simp

text \<open>From inside a chain the loop visits the rest of the chain and then continues behind it.\<close>

lemma dict_iterate_chain:
  assumes "chain (nxt d) (it_nextEntry it) xs" and "it_entry it \<noteq> NULL"
  shows "dict_iterate d it = map_option ((@) xs)
    (dict_iterate d (it\<lparr>it_entry := NULL, it_nextEntry := NULL\<rparr>))"
  using assms
proof (induction xs arbitrary: it)
  case Nil
  then have eq: "it\<lparr>it_entry := NULL, it_nextEntry := NULL\<rparr> = it\<lparr>it_entry := NULL\<rparr>" by (cases it) simp
  show ?case
    unfolding eq using Nil by (simp add: dict_iterate_cong [OF dictNext_bucket_end] option.map_ident)
next
  case (Cons x xs)
  then obtain e where e: "ents d x = Some e" "chain (nxt d) (de_next e) xs" "it_nextEntry it = x" "x \<noteq> NULL"
    by auto
  note step = dict_iterate_step [OF dictNext_in_bucket [OF Cons.prems(2) e(3,4,1)] e(4)]
  show ?case
    using Cons.IH [of "it\<lparr>it_entry := x, it_nextEntry := de_next e\<rparr>"] e
    by (simp add: step option.map_comp comp_def)
qed

lemma dict_iterate_from:
  assumes rep: "dict_rep d t bs" and t: "table (ht d) = Some t"
    and "i \<le> length t" and "it = \<lparr>it_index = int i - 1, it_entry = NULL, it_nextEntry = NULL\<rparr>"
  shows "dict_iterate d it = Some (concat (drop i bs))"
  using assms(3,4)
proof (induction "length t - i" arbitrary: i it)
  case 0
  then have "dictNext d it = Some (it\<lparr>it_index := int i\<rparr>, NULL)"
    using sint_ht_size [OF dict_repD(1) [OF rep]] by (subst dictNext.simps) simp
  with 0 dict_repD(2) [OF rep] show ?case by (subst dict_iterate.simps) simp
next
  case (Suc n)
  then have i: "i < length t" by simp
  have c: "chain (nxt d) (t ! i) (bs ! i)" by (rule dict_repD(3) [OF rep i])
  have bs: "drop i bs = bs ! i # drop (Suc i) bs"
    using i dict_repD(2) [OF rep] by (simp add: Cons_nth_drop_Suc)
  let ?it = "\<lparr>it_index = int (Suc i) - 1, it_entry = NULL, it_nextEntry = NULL\<rparr>"
  have IH: "dict_iterate d ?it = Some (concat (drop (Suc i) bs))"
    using Suc by (intro Suc.hyps(1)) auto
  have sz: "\<not> sint (ht_size (ht d)) \<le> int i"
    using sint_ht_size [OF dict_repD(1) [OF rep]] i by simp
  show ?case
  proof (cases "bs ! i")
    case Nil
    then have "dictNext d it = dictNext d ?it"
      using dictNext_empty_bucket [OF t i] c sz unfolding Suc.prems(2) by simp
    from dict_iterate_cong [OF this] IH Nil bs show ?thesis by simp
  next
    case (Cons x xs)
    with c obtain e where e: "t ! i = x" "x \<noteq> NULL" "ents d x = Some e" "chain (nxt d) (de_next e) xs"
      by auto
    have "dictNext d it = Some (\<lparr>it_index = int i, it_entry = x, it_nextEntry = de_next e\<rparr>, x)"
      using e sz i t Suc.prems(2) by (subst dictNext.simps) (simp add: deref_def)
    from dict_iterate_step [OF this e(2)] dict_iterate_chain [of d "\<lparr>it_index = int i, it_entry = x, it_nextEntry = de_next e\<rparr>" xs]
      e IH Cons bs show ?thesis by simp
  qed
qed

lemma dict_iterate_all:
  assumes "dict_inv d"
  shows "dict_iterate d dictGetIterator = Some (concat (buckets d))"
proof (cases "table (ht d)")
  case None
  with assms have "dictNext d dictGetIterator = Some (dictGetIterator\<lparr>it_index := 0\<rparr>, NULL)"
    by (subst dictNext.simps) (simp add: dict_inv_def dictGetIterator_def)
  with None show ?thesis by (subst dict_iterate.simps) (simp add: buckets_def)
next
  case (Some t)
  with assms have "dict_rep d t (buckets d)" by (simp add: dict_inv_def)
  from dict_iterate_from [OF this Some, of 0] show ?thesis by (simp add: dictGetIterator_def)
qed

section \<open>Clearing\<close>

definition free_all :: "('p, 'k, 'v) dict \<Rightarrow> ptr list \<Rightarrow> ('k, 'v) dict_call list" where
  "free_all d ps = concat (map (\<lambda>p. free_calls d False (the (ents d p))) ps)"

lemma free_all_cong:
  "dtype d' = dtype d \<Longrightarrow> (\<And>p. p \<in> set ps \<Longrightarrow> ents d' p = ents d p) \<Longrightarrow> free_all d' ps = free_all d ps"
  by (induction ps) (auto simp: free_all_def free_calls_def)

lemma free_all_Cons [simp]: "free_all d (p # ps) = free_calls d False (the (ents d p)) @ free_all d ps"
  by (simp add: free_all_def)

lemma free_all_append [simp]: "free_all d (ps @ qs) = free_all d ps @ free_all d qs"
  by (simp add: free_all_def)

lemma free_all_Nil [simp]: "free_all d [] = []"
  by (simp add: free_all_def)

lemma dict_clear_chain_run:
  assumes "chain (nxt d) he xs"
  shows "dict_clear_chain d he = Some (d\<lparr>calls := calls d @ free_all d xs, ents := (\<lambda>p. if p \<in> set xs then None else ents d p),
     ht := (ht d)\<lparr>used := used (ht d) - of_nat (length xs)\<rparr>\<rparr>)"
  using assms
proof (induction xs arbitrary: d he)
  case Nil
  then show ?case by (simp add: dict_clear_chain.simps)
next
  case (Cons x xs)
  then obtain e where e: "ents d x = Some e" "chain (nxt d) (de_next e) xs" "he = x" "x \<noteq> NULL"
    by auto
  have nx: "x \<notin> set xs" using chain_distinct [OF Cons.prems] by simp
  let ?d = "d\<lparr>calls := calls d @ free_calls d False e, ents := (ents d)(x := None),
      ht := (ht d)\<lparr>used := used (ht d) - 1\<rparr>\<rparr>"
  have "nxt ?d = (nxt d)(x := None)" by auto
  then have "chain (nxt ?d) (de_next e) xs" using e(2) nx by simp
  note IH = Cons.IH [OF this]
  have fa: "free_all ?d xs = free_all d xs" by (rule free_all_cong) (use nx in auto)
  have re: "(\<lambda>p. if p \<in> set xs then None else ((ents d)(x := None)) p) =
      (\<lambda>p. if p \<in> set (x # xs) then None else ents d p)" by auto
  have "dict_clear_chain d he = dict_clear_chain ?d (de_next e)"
    using e by (subst dict_clear_chain.simps) (simp add: deref_def dict_free_both)
  moreover have "ents ?d = (ents d)(x := None)" by simp
  note IH [unfolded this re fa]
  ultimately show ?case
    using e(1) by (simp add: diff_diff_eq)
qed

definition no_progress :: "('k, 'v) dict_call list \<Rightarrow> ('k, 'v) dict_call list" where
  "no_progress cs = filter (\<lambda>c. c \<noteq> ClearCallback) cs"

lemma no_progress_free_all: "no_progress (free_all d ps) = free_all d ps"
  by (induction ps) (auto simp: no_progress_def free_calls_def)

lemma no_progress_append [simp]: "no_progress (xs @ ys) = no_progress xs @ no_progress ys"
  by (simp add: no_progress_def)

lemma dict_clear_loop_run:
  assumes "ht_shape (ht d) t" and "table (ht d) = Some t" and "length bs = length t"
    and "unat i \<le> length t"
    and "\<And>j. unat i \<le> j \<Longrightarrow> j < length t \<Longrightarrow> chain (nxt d) (t ! j) (bs ! j)"
    and "distinct (concat bs)" and "dom (ents d) = set (concat (drop (unat i) bs))"
    and "unat (used (ht d)) = length (concat (drop (unat i) bs))"
  shows "\<exists>d'. dict_clear_loop d callback i = Some d' \<and> ents d' = (\<lambda>_. None) \<and>
    dtype d' = dtype d \<and> privdata d' = privdata d \<and>
    no_progress (calls d') = no_progress (calls d) @ free_all d (concat (drop (unat i) bs)) \<and>
    (\<not> callback \<longrightarrow> calls d' = calls d @ free_all d (concat (drop (unat i) bs)))"
  using assms
proof (induction "length t - unat i" arbitrary: i d)
  case 0
  then show ?case
    by (subst dict_clear_loop.simps) (auto simp: ht_shape_def word_less_nat_alt)
next
  case (Suc n)
  note sh = Suc.prems(1)
  have i: "unat i < length t" using Suc.hyps(2) by simp
  have sz: "i < ht_size (ht d)" using i sh by (simp add: ht_shape_def word_less_nat_alt)
  have si: "unat (i + 1) = Suc (unat i)"
    using sz i unat_bound [of "ht_size (ht d)"] sh by (simp add: ht_shape_def unat_word_ariths)
  have dr: "drop (unat i) bs = bs ! unat i # drop (Suc (unat i)) bs"
    using i Suc.prems(3) by (simp add: Cons_nth_drop_Suc)
  show ?case
  proof (cases "used (ht d) = 0")
    case True
    then have e: "concat (drop (unat i) bs) = []"
      using Suc.prems(8) by (simp del: concat_eq_Nil_conv Nil_eq_concat_conv)
    then have "ents d = (\<lambda>_. None)" using Suc.prems(7) unfolding e by simp
    moreover have "dict_clear_loop d callback i = Some d"
      using True by (subst dict_clear_loop.simps) simp
    ultimately show ?thesis unfolding e by simp
  next
    case False
    define cb :: "('b, 'c) dict_call list" where "cb = (if callback \<and> i AND 65535 = 0 then [ClearCallback] else [])"
    let ?d1 = "d\<lparr>calls := calls d @ cb\<rparr>"
    have d1: "(if callback \<and> i AND 65535 = 0 then d\<lparr>calls := calls d @ [ClearCallback]\<rparr> else d) = ?d1"
      by (simp add: cb_def)
    have cb: "no_progress cb = []" "\<not> callback \<Longrightarrow> cb = []" by (simp_all add: cb_def no_progress_def)
    let ?xs = "bs ! unat i"
    have c: "chain (nxt ?d1) (t ! unat i) ?xs" using Suc.prems(5) [of "unat i"] i by auto
    let ?d2 = "?d1\<lparr>calls := calls ?d1 @ free_all d ?xs, ents := (\<lambda>p. if p \<in> set ?xs then None else ents d p),
       ht := (ht d)\<lparr>used := used (ht d) - of_nat (length ?xs)\<rparr>\<rparr>"
    have fa: "free_all ?d1 ?xs = free_all d ?xs" by (rule free_all_cong) auto
    have run: "dict_clear_loop d callback i = dict_clear_loop ?d2 callback (i + 1)"
      using False sz i Suc.prems(2) dict_clear_chain_run [OF c] fa
      by (subst dict_clear_loop.simps) (simp add: word_neq_0_conv Let_def d1 cong: if_cong)
    have dj: "set ?xs \<inter> set (concat (drop (Suc (unat i)) bs)) = {}" "distinct (concat (drop (unat i) bs))"
    proof -
      have "concat bs = concat (take (unat i) bs) @ concat (drop (unat i) bs)"
        by (metis append_take_drop_id concat_append)
      then show "distinct (concat (drop (unat i) bs))" using Suc.prems(6) by simp
      then show "set ?xs \<inter> set (concat (drop (Suc (unat i)) bs)) = {}" unfolding dr by simp
    qed
    have "\<exists>d'. dict_clear_loop ?d2 callback (i + 1) = Some d' \<and> ents d' = (\<lambda>_. None) \<and>
      dtype d' = dtype ?d2 \<and> privdata d' = privdata ?d2 \<and>
      no_progress (calls d') = no_progress (calls ?d2) @ free_all ?d2 (concat (drop (unat (i + 1)) bs)) \<and>
      (\<not> callback \<longrightarrow> calls d' = calls ?d2 @ free_all ?d2 (concat (drop (unat (i + 1)) bs)))"
    proof (rule Suc.hyps(1))
      show "ht_shape (ht ?d2) t" using sh by (simp add: ht_shape_def)
      show "chain (nxt ?d2) (t ! j) (bs ! j)" if "unat (i + 1) \<le> j" "j < length t" for j
      proof -
        have "bs ! j = drop (Suc (unat i)) bs ! (j - Suc (unat i))" using that Suc.prems(3) si by simp
        also have "\<dots> \<in> set (drop (Suc (unat i)) bs)" using that Suc.prems(3) si by (intro nth_mem) simp
        finally have "bs ! j \<in> set (drop (Suc (unat i)) bs)" .
        then have "set (bs ! j) \<inter> set ?xs = {}" using dj(1) by auto
        then have "chain (nxt ?d2) (t ! j) (bs ! j) = chain (nxt d) (t ! j) (bs ! j)"
          by (intro chain_cong) auto
        then show ?thesis using Suc.prems(5) [of j] that si by simp
      qed
      have "dom (ents ?d2) = dom (ents d) - set ?xs" by (auto split: if_splits)
      also have "\<dots> = set (concat (drop (Suc (unat i)) bs))"
        unfolding Suc.prems(7) dr using dj(1) by auto
      finally show "dom (ents ?d2) = set (concat (drop (unat (i + 1)) bs))" unfolding si .
      have "unat (used (ht d)) = length ?xs + length (concat (drop (Suc (unat i)) bs))"
        using Suc.prems(8) unfolding dr by simp
      then have "used (ht d) = of_nat (length ?xs) + of_nat (length (concat (drop (Suc (unat i)) bs)))"
        by (metis of_nat_add of_nat_unat ucast_id)
      then have "used (ht d) - of_nat (length ?xs) = of_nat (length (concat (drop (Suc (unat i)) bs)))"
        by simp
      moreover have "length (concat (drop (Suc (unat i)) bs)) < 2 ^ 64"
        using Suc.prems(8) unat_bound [of "used (ht d)"] unfolding dr by simp
      ultimately show "unat (used (ht ?d2)) = length (concat (drop (unat (i + 1)) bs))"
        using si by (simp add: unat_of_nat take_bit_nat_eq_self)
    qed (use Suc.hyps(2) Suc.prems si i in auto)
    moreover have "free_all ?d2 (concat (drop (unat (i + 1)) bs)) = free_all d (concat (drop (unat (i + 1)) bs))"
      using dj(1) si by (intro free_all_cong) auto
    ultimately show ?thesis
      using si cb by (auto simp: run dr no_progress_free_all)
  qed
qed

text \<open>\<open>_dictClear\<close> frees every entry and resets the table.\<close>

lemma dictClear_spec:
  assumes "dict_inv d"
  shows "\<exists>d'. dictClear d callback = Some (d', DICT_OK) \<and> dict_inv d' \<and> ents d' = (\<lambda>_. None) \<and>
    dtype d' = dtype d \<and> privdata d' = privdata d \<and> table (ht d') = None \<and>
    no_progress (calls d') = no_progress (calls d) @ free_all d (concat (buckets d)) \<and>
    (\<not> callback \<longrightarrow> calls d' = calls d @ free_all d (concat (buckets d)))"
proof (cases "table (ht d)")
  case None
  with assms have "dict_clear_loop d callback 0 = Some d"
    by (subst dict_clear_loop.simps) (simp add: dict_inv_def)
  with None assms show ?thesis
    by (simp add: dictClear_def dict_inv_def dictReset_def buckets_def)
next
  case (Some t)
  with assms have rep: "dict_rep d t (buckets d)" by (simp add: dict_inv_def)
  have "\<exists>d'. dict_clear_loop d callback 0 = Some d' \<and> ents d' = (\<lambda>_. None) \<and>
    dtype d' = dtype d \<and> privdata d' = privdata d \<and>
    no_progress (calls d') = no_progress (calls d) @ free_all d (concat (drop (unat (0::u64)) (buckets d))) \<and>
    (\<not> callback \<longrightarrow> calls d' = calls d @ free_all d (concat (drop (unat (0::u64)) (buckets d))))"
    by (rule dict_clear_loop_run [where t = t]) (use dict_repD [OF rep] Some in simp_all)
  then show ?thesis by (auto simp: dictClear_def dict_inv_def dictReset_def)
qed

end
