(* ===== verification/DictDemo.thy ===== *)
theory DictDemo
  imports DictWalk
begin

text \<open>
  The client \<open>demo_dict/demo_dict.c\<close>: its \<open>dictType\<close>, keyed by C strings, meets the contract
  \<open>dict_callbacks\<close>, and the properties of \<open>dict.c\<close> stated over an arbitrary type that
  meets it.
\<close>

section \<open>The callbacks of the demo\<close>

text \<open>A key is the contents of a \<open>char\<close> buffer; the string it holds ends before its first zero byte.\<close>

definition cstr :: "bytes \<Rightarrow> bytes" where
  "cstr s = takeWhile (\<lambda>c. c \<noteq> 0) s"

definition dict_hash_function_seed :: u32 where
  "dict_hash_function_seed = 5381"

text \<open>\<open>strlen\<close> returns a \<open>size_t\<close> that is passed as \<open>int\<close>.\<close>

definition demo_hashFunction :: "bytes \<Rightarrow> u32" where
  "demo_hashFunction key =
     the (dictGenHashFunction dict_hash_function_seed (cstr key @ [0]) (sint (of_nat (length (cstr key)) :: u32)))"

definition demo_keyCompare :: "'p \<Rightarrow> bytes \<Rightarrow> bytes \<Rightarrow> bool" where
  "demo_keyCompare pd key1 key2 \<longleftrightarrow> cstr key1 = cstr key2"

definition myDictType :: "(bytes, bytes, bytes) dictType" where
  "myDictType = \<lparr>hashFunction = demo_hashFunction, keyDup = None, valDup = None,
     keyCompare = Some demo_keyCompare, keyDestructor = False, valDestructor = False\<rparr>"

text \<open>The hash never reads outside the string: the length passed is never more than the string's.\<close>

lemma murmur_loop_within:
  "len \<le> length data \<Longrightarrow> \<exists>h' rest. murmur_loop h data len = Some (h', rest, len mod 4) \<and> len mod 4 \<le> length rest"
proof (induction h data len rule: murmur_loop.induct)
  case (1 h data len)
  show ?case
  proof (cases "len < 4")
    case True
    then show ?thesis using "1.prems" by (simp add: murmur_loop.simps [of h data len])
  next
    case False
    with "1.prems" obtain a b c d rest where data: "data = a # b # c # d # rest"
      using length_ge_4 [of data] by auto
    have "\<exists>h' r. murmur_loop (murmur_block h (le32 a b c d)) rest (len - 4) = Some (h', r, (len - 4) mod 4)
        \<and> (len - 4) mod 4 \<le> length r"
      using "1.IH" [OF False data refl refl refl] "1.prems" data by simp
    moreover have "(len - 4) mod 4 = len mod 4"
      using False by (simp add: le_mod_geq)
    ultimately show ?thesis
      using False data by (simp add: murmur_loop.simps [of h "a # b # c # d # rest" len])
  qed
qed

lemma murmur_tail_within: "len \<le> length data \<Longrightarrow> \<exists>h'. murmur_tail h data len = Some h'"
  by (auto simp: murmur_tail_def get_at_def)

lemma dictGenHashFunction_within:
  assumes "len \<le> int (length data)"
  shows "\<exists>h. dictGenHashFunction seed data len = Some h"
proof (cases "len < 0")
  case True
  then show ?thesis by (simp add: dictGenHashFunction_def murmur_tail_def)
next
  case False
  then have "nat len \<le> length data" using assms by simp
  then obtain h r where "murmur_loop (seed XOR word_of_int len) data (nat len) = Some (h, r, nat len mod 4)"
      "nat len mod 4 \<le> length r" using murmur_loop_within by blast
  with False murmur_tail_within [of "nat len mod 4" r h] show ?thesis
    by (auto simp: dictGenHashFunction_def)
qed

lemma sint_of_nat_le: "sint (of_nat n :: u32) \<le> int n"
  by (simp add: signed_of_nat signed_take_bit_int_less_eq_self_iff)

lemma demo_hash_safe:
  "dictGenHashFunction seed (cstr key @ [0]) (sint (of_nat (length (cstr key)) :: u32)) \<noteq> None"
proof -
  have "sint (of_nat (length (cstr key)) :: u32) \<le> int (length (cstr key @ [0]))"
    using sint_of_nat_le [of "length (cstr key)"] by simp
  from dictGenHashFunction_within [OF this] show ?thesis by auto
qed

interpretation demo: dict_callbacks myDictType "pd :: bytes" for pd
  by unfold_locales
    (auto simp: keys_eq_def key_dup_def myDictType_def demo_keyCompare_def demo_hashFunction_def)

section \<open>Properties of the table\<close>

lemma dict_inv_create: "dict_inv (dictCreate ty pd)"
  by (simp add: dict_inv_def dictCreate_def dictReset_def)

lemma dict_map_create: "dict_map (dictCreate ty pd) k = None"
  by (simp add: dict_map_def buckets_def dictCreate_def dictReset_def)

lemma dict_create_fields [simp]:
  "dtype (dictCreate ty pd) = ty" "privdata (dictCreate ty pd) = pd" "ents (dictCreate ty pd) = (\<lambda>_. None)"
  "used (ht (dictCreate ty pd)) = 0" "calls (dictCreate ty pd) = []"
  by (simp_all add: dictCreate_def dictReset_def)

lemma demo_keys_eq [simp]: "keys_eq myDictType pd k l \<longleftrightarrow> cstr k = cstr l"
  by (simp add: keys_eq_def myDictType_def demo_keyCompare_def)

lemma demo_val_dup [simp]: "val_dup myDictType pd v = v"
  by (simp add: val_dup_def myDictType_def)

lemma demo_singleton:
  assumes "p \<noteq> NULL"
  obtains d where "dictAdd (dictCreate myDictType pd) k v p = Some (d, DICT_OK)" and "dict_inv d"
    and "\<And>l. dict_map d l = (if cstr l = cstr k then Some (Some v) else None)"
    and "dtype d = myDictType" and "privdata d = pd" and "dom (ents d) = {p}" and "used (ht d) = 1"
    and "calls d = []"
proof -
  let ?c = "dictCreate myDictType pd"
  have "\<exists>d. dictAdd ?c k v p = Some (d, DICT_OK) \<and> dict_inv d \<and>
      (\<forall>l. dict_map d l = (if keys_eq myDictType pd l k then Some (Some (val_dup myDictType pd v)) else dict_map ?c l)) \<and>
      dtype d = myDictType \<and> privdata d = pd \<and> calls d = calls ?c \<and> used (ht d) = used (ht ?c) + 1 \<and>
      dom (ents d) = insert p (dom (ents ?c))"
    using demo.dictAdd_spec [OF dict_inv_create [of myDictType pd], where key = k and val = v and new = p and pd = pd] assms
    unfolding dict_map_create by (simp only: dict_create_fields) simp
  then show thesis using that by (auto simp: dict_map_create)
qed





text \<open>C17: \<open>dictDelete\<close> and \<open>dictDeleteNoFree\<close> remove exactly the bindings of the keys equal to the given
  one: a missing key gives \<open>DICT_ERR\<close> and changes nothing; a present one is unlinked from its
  chain, the count drops by one, and the two destructors run on the stored key and value (and
  not at all for the \<open>NoFree\<close> variant).\<close>

theorem dictDelete_refines:
  fixes d :: "('p, 'k, 'v) dict"
  assumes "dict_callbacks (dtype d) (privdata d)" and "dict_inv d"
  shows "(case dict_map d key of
      None \<Rightarrow> dictDelete d key = Some (d, DICT_ERR) \<and> dictDeleteNoFree d key = Some (d, DICT_ERR)
    | Some v \<Rightarrow> \<exists>d1 d2 (e :: ('k, 'v) dictEntry). dictDelete d key = Some (d1, DICT_OK) \<and> dictDeleteNoFree d key = Some (d2, DICT_OK) \<and>
        dict_inv d1 \<and> dict_inv d2 \<and>
        (\<forall>k. dict_map d1 k = (if keys_eq (dtype d) (privdata d) k key then None else dict_map d k)) \<and>
        (\<forall>k. dict_map d2 k = (if keys_eq (dtype d) (privdata d) k key then None else dict_map d k)) \<and>
        used (ht d1) = used (ht d) - 1 \<and> used (ht d2) = used (ht d) - 1 \<and>
        keys_eq (dtype d) (privdata d) key (de_key e) \<and> de_val e = v \<and>
        calls d1 = calls d @ (if keyDestructor (dtype d) then [KeyDestructor (de_key e)] else []) @
          (if valDestructor (dtype d) then [ValDestructor v] else []) \<and>
        calls d2 = calls d)"
proof (cases "dict_map d key")
  case None
  then show ?thesis
    using dict_callbacks.dictGenericDelete_spec [OF assms refl refl, of key]
    by (simp add: dictDelete_def dictDeleteNoFree_def)
next
  case (Some v)
  note del = dict_callbacks.dictGenericDelete_spec [OF assms refl refl, of key, unfolded Some option.case]
  from del [of False] obtain d1 e where d1: "dictDelete d key = Some (d1, DICT_OK)" "dict_inv d1"
      "\<forall>k. dict_map d1 k = (if keys_eq (dtype d) (privdata d) k key then None else dict_map d k)"
      "used (ht d1) = used (ht d) - 1" "keys_eq (dtype d) (privdata d) key (de_key e)" "de_val e = v"
      "calls d1 = calls d @ free_calls d False e"
    unfolding dictDelete_def by blast
  from del [of True] obtain d2 where d2: "dictDeleteNoFree d key = Some (d2, DICT_OK)" "dict_inv d2"
      "\<forall>k. dict_map d2 k = (if keys_eq (dtype d) (privdata d) k key then None else dict_map d k)"
      "used (ht d2) = used (ht d) - 1" "calls d2 = calls d"
    unfolding dictDeleteNoFree_def free_calls_def by auto
  have c1: "calls d1 = calls d @ (if keyDestructor (dtype d) then [KeyDestructor (de_key e)] else []) @
      (if valDestructor (dtype d) then [ValDestructor v] else [])"
    using d1(6,7) by (simp add: free_calls_def)
  show ?thesis
    unfolding Some option.case
    by (rule exI [of _ d1], rule exI [of _ d2], rule exI [of _ e]) (intro conjI; fact d1 d2 c1)
qed

theorem dictDelete_refines_witness:
  "\<exists>d d'. dictAdd (dictCreate myDictType []) [104] [49] 8 = Some (d, DICT_OK) \<and>
     dictDelete d [105] = Some (d, DICT_ERR) \<and>
     dictDelete d [104] = Some (d', DICT_OK) \<and> dict_map d' [104] = None"
proof -
  obtain d where d: "dictAdd (dictCreate myDictType []) [104] [49] 8 = Some (d, DICT_OK)" "dict_inv d"
      "\<And>l. dict_map d l = (if cstr l = cstr [104] then Some (Some [49]) else None)"
      "dtype d = myDictType" "privdata d = []"
    by (rule demo_singleton [of 8 "[]" "[104]" "[49]"]) auto
  have cb: "dict_callbacks (dtype d) (privdata d)" using demo.dict_callbacks_axioms [of "[]"] d by simp
  have "cstr [105] \<noteq> cstr [104]" by (simp add: cstr_def)
  with d dictDelete_refines [OF cb d(2), of "[105]"] dictDelete_refines [OF cb d(2), of "[104]"]
  show ?thesis by auto
qed

text \<open>C18: lookups agree with the map: \<open>dictFind\<close> returns \<open>NULL\<close> exactly for the absent keys and
  otherwise the allocated entry with an equal key, and \<open>dictFetchValue\<close> returns the value bound
  in the map.\<close>

theorem dictFind_refines:
  assumes "dict_callbacks (dtype d) (privdata d)" and "dict_inv d"
  shows "\<exists>q. dictFind d key = Some q \<and> (q = NULL \<longleftrightarrow> dict_map d key = None) \<and>
     (q = NULL \<or> (\<exists>e. ents d q = Some e \<and> keys_eq (dtype d) (privdata d) key (de_key e) \<and>
        dict_map d key = Some (de_val e))) \<and>
     dictFetchValue d key = Some (Option.bind (dict_map d key) id)"
  using dict_callbacks.dictFind_spec [OF assms refl refl, of key]
    dict_callbacks.dictFetchValue_map [OF assms refl refl, of key]
  by metis

theorem dictFind_refines_witness:
  "\<exists>d. dictAdd (dictCreate myDictType []) [104] [49] 8 = Some (d, DICT_OK) \<and>
     dictFetchValue d [104] = Some (Some [49]) \<and> dictFetchValue d [105] = Some None"
proof -
  obtain d where d: "dictAdd (dictCreate myDictType []) [104] [49] 8 = Some (d, DICT_OK)" "dict_inv d"
      "\<And>l. dict_map d l = (if cstr l = cstr [104] then Some (Some [49]) else None)"
      "dtype d = myDictType" "privdata d = []"
    by (rule demo_singleton [of 8 "[]" "[104]" "[49]"]) auto
  have cb: "dict_callbacks (dtype d) (privdata d)" using demo.dict_callbacks_axioms [of "[]"] d by simp
  have "cstr [105] \<noteq> cstr [104]" by (simp add: cstr_def)
  with d dictFind_refines [OF cb d(2), of "[105]"] dictFind_refines [OF cb d(2), of "[104]"]
  show ?thesis by auto
qed

text \<open>C19: the iterator loop of \<open>demo_dict.c\<close> ends, and visits every allocated entry exactly once.\<close>

theorem dict_iterate_visits_all:
  assumes "dict_inv d"
  shows "\<exists>ps. dict_iterate d dictGetIterator = Some ps \<and> distinct ps \<and> set ps = dom (ents d) \<and>
    length ps = unat (used (ht d))"
proof (cases "table (ht d)")
  case None
  with dict_iterate_all [OF assms] assms show ?thesis by (simp add: dict_inv_def buckets_def)
next
  case (Some t)
  with assms have rep: "dict_rep d t (buckets d)" by (simp add: dict_inv_def)
  show ?thesis
    by (intro exI conjI) (use dict_iterate_all [OF assms] dict_repD(4-6) [OF rep] in \<open>auto\<close>)
qed

theorem dict_iterate_visits_all_witness:
  "\<exists>d. dictAdd (dictCreate myDictType []) [104] [49] 8 = Some (d, DICT_OK) \<and>
     dict_iterate d dictGetIterator = Some [8]"
proof -
  obtain d where d: "dictAdd (dictCreate myDictType []) [104] [49] 8 = Some (d, DICT_OK)" "dict_inv d"
      "dom (ents d) = {8}" "used (ht d) = 1"
    by (rule demo_singleton [of 8 "[]" "[104]" "[49]"]) auto
  from dict_iterate_visits_all [OF d(2)] d(3,4) obtain ps where
    ps: "dict_iterate d dictGetIterator = Some ps" "set ps = {8}" "length ps = 1" by auto
  then have "ps = [8]" by (cases ps) simp_all
  with ps d(1) show ?thesis by auto
qed



text \<open>Once a table exists no call of \<open>dictExpand\<close>, \<open>dictResize\<close> or \<open>_dictExpandIfNeeded\<close> changes the
  dictionary: the table keeps its first size however many entries are added, although the
  header announces automatic resizing by powers of two.\<close>

theorem dict_never_resizes:
  assumes "table (ht d) \<noteq> None"
  shows "dictExpand d sz = Some (d, if used (ht d) > sz then DICT_ERR else DICT_OK) \<and>
    (\<exists>r. dictResize d = Some (d, r)) \<and>
    (ht_size (ht d) \<noteq> 0 \<longrightarrow> (\<exists>r. dictExpandIfNeeded d = Some (d, r)))"
  using assms by (auto simp: dictExpand_existing dictResize_def dictExpandIfNeeded_def Let_def)

theorem dict_never_resizes_witness:
  "dictExpand (dictCreate myDictType []\<lparr>ht := \<lparr>table = Some [0, 0, 0, 0], ht_size = 4, sizemask = 3, used = 100\<rparr>\<rparr>) 200 =
     Some (dictCreate myDictType []\<lparr>ht := \<lparr>table = Some [0, 0, 0, 0], ht_size = 4, sizemask = 3, used = 100\<rparr>\<rparr>, DICT_OK)"
  using dict_never_resizes [of "dictCreate myDictType []\<lparr>ht := \<lparr>table = Some [0, 0, 0, 0], ht_size = 4, sizemask = 3, used = 100\<rparr>\<rparr>" 200]
  by simp

text \<open>The size loop of \<open>_dictNextPower\<close> ends for every request; below \<open>LONG_MAX\<close> it returns the least
  power of two that is at least 4 and at least the request.\<close>

theorem dictNextPower_least:
  "\<exists>r. dictNextPower sz = Some r \<and> (if LONG_MAX \<le> sz then r = LONG_MAX
     else \<exists>k. 2 \<le> k \<and> k \<le> 63 \<and> r = 2 ^ k \<and> sz \<le> r \<and> (k = 2 \<or> 2 ^ (k - 1) < sz))"
proof (cases "sz < LONG_MAX")
  case True
  with dictNextPower_pow2 [of sz] show ?thesis by (metis linorder_not_le)
next
  case False
  then have "LONG_MAX \<le> sz" by (simp only: linorder_not_less)
  then show ?thesis by (simp add: dictNextPower_def)
qed

end
