(* ===== verification/DictMain.thy ===== *)
theory DictMain
  imports DictDemo
begin

text \<open>
  The whole run of \<open>demo_dict/demo_dict.c\<close>: creation, seven insertions, a lookup, a deletion, another
  lookup, the iteration, the release, with what it prints.  The addresses \<open>malloc\<close> returns for the
  seven entries are the argument; the size of the table, which is printed beside the count, is left out.
\<close>

section \<open>Definitions\<close>







section \<open>The table against the list of what was added\<close>

















section \<open>The run\<close>





end
