(* ===== verification/Mphash.thy ===== *)
theory Mphash
  imports Chains HashFuns
begin

text \<open>
  The fixed-capacity hash table of \<open>demo_mempool/mphash.c\<close>.  The entries are carved out of the
  array \<open>bucket_nodes\<close>: the node with index \<open>i\<close> has the address \<open>i + 1\<close>.  Every bucket is a doubly
  linked list sorted by the bit-reversed hash; the unused nodes form a doubly linked free list.
  The callbacks are fields of the table; the calls of the \<open>free\<close> callback are logged in \<open>freed\<close>.
\<close>

section \<open>Bit reversal\<close>

definition reversed_byte :: "u8 list" where
  "reversed_byte =
    [0, 128, 64, 192, 32, 160, 96, 224, 16, 144, 80, 208, 48, 176, 112, 240,
     8, 136, 72, 200, 40, 168, 104, 232, 24, 152, 88, 216, 56, 184, 120, 248,
     4, 132, 68, 196, 36, 164, 100, 228, 20, 148, 84, 212, 52, 180, 116, 244,
     12, 140, 76, 204, 44, 172, 108, 236, 28, 156, 92, 220, 60, 188, 124, 252,
     2, 130, 66, 194, 34, 162, 98, 226, 18, 146, 82, 210, 50, 178, 114, 242,
     10, 138, 74, 202, 42, 170, 106, 234, 26, 154, 90, 218, 58, 186, 122, 250,
     6, 134, 70, 198, 38, 166, 102, 230, 22, 150, 86, 214, 54, 182, 118, 246,
     14, 142, 78, 206, 46, 174, 110, 238, 30, 158, 94, 222, 62, 190, 126, 254,
     1, 129, 65, 193, 33, 161, 97, 225, 17, 145, 81, 209, 49, 177, 113, 241,
     9, 137, 73, 201, 41, 169, 105, 233, 25, 153, 89, 217, 57, 185, 121, 249,
     5, 133, 69, 197, 37, 165, 101, 229, 21, 149, 85, 213, 53, 181, 117, 245,
     13, 141, 77, 205, 45, 173, 109, 237, 29, 157, 93, 221, 61, 189, 125, 253,
     3, 131, 67, 195, 35, 163, 99, 227, 19, 147, 83, 211, 51, 179, 115, 243,
     11, 139, 75, 203, 43, 171, 107, 235, 27, 155, 91, 219, 59, 187, 123, 251,
     7, 135, 71, 199, 39, 167, 103, 231, 23, 151, 87, 215, 55, 183, 119, 247,
     15, 143, 79, 207, 47, 175, 111, 239, 31, 159, 95, 223, 63, 191, 127, 255]"

definition reverse :: "u32 \<Rightarrow> u32" where
  "reverse key =
     push_bit 24 (ucast (reversed_byte ! unat (key AND 0xff))) OR
     push_bit 16 (ucast (reversed_byte ! unat (drop_bit 8 key AND 0xff))) OR
     push_bit 8 (ucast (reversed_byte ! unat (drop_bit 16 key AND 0xff))) OR
     ucast (reversed_byte ! unat (drop_bit 24 key AND 0xff))"

definition is_power_of_2 :: "u32 \<Rightarrow> bool" where
  "is_power_of_2 n \<longleftrightarrow> n \<noteq> 0 \<and> (n AND (n - 1)) = 0"

section \<open>Data\<close>

record mp_hash_entry =
  n_prev :: ptr
  n_next :: ptr
  n_data :: ptr
  n_key :: u32
  n_reversed :: u32

record mp_hash_table =
  num_buckets :: u32
  num_elements :: u32
  mp_mask :: u32
  table_buckets :: "ptr list"
  bucket_nodes :: "ptr \<Rightarrow> mp_hash_entry option"
  free_buckets :: ptr
  mp_hashf :: "ptr \<Rightarrow> u32"
  mp_cmp :: "(ptr \<Rightarrow> ptr \<Rightarrow> int) option"
  mp_free :: bool
  freed :: "ptr list"

section \<open>Operations\<close>

partial_function (option) mp_size_loop :: "u32 \<Rightarrow> u32 \<Rightarrow> u32 option" where
  "mp_size_loop sz buckets_size =
     (if sz < buckets_size then mp_size_loop (push_bit 1 sz) buckets_size else Some sz)"

definition node :: "mp_hash_table \<Rightarrow> ptr \<Rightarrow> mp_hash_entry option" where
  "node ht p = (if p = NULL then None else bucket_nodes ht p)"

definition set_node :: "mp_hash_table \<Rightarrow> ptr \<Rightarrow> (mp_hash_entry \<Rightarrow> mp_hash_entry) \<Rightarrow> mp_hash_table option" where
  "set_node ht p f = do { e \<leftarrow> node ht p; Some (ht\<lparr>bucket_nodes := (bucket_nodes ht)(p \<mapsto> f e)\<rparr>) }"

text \<open>The first \<open>i\<close> iterations of the loop that links the nodes.\<close>

primrec mp_link_loop :: "nat \<Rightarrow> (ptr \<Rightarrow> mp_hash_entry option) \<Rightarrow> ptr \<Rightarrow> mp_hash_entry option" where
  "mp_link_loop 0 h = h"
| "mp_link_loop (Suc i) h =
     (let h = mp_link_loop i h;
          h = h(i + 1 := map_option (\<lambda>e. e\<lparr>n_next := i + 2\<rparr>) (h (i + 1)))
      in h(i + 2 := map_option (\<lambda>e. e\<lparr>n_prev := i + 1\<rparr>) (h (i + 2))))"

text \<open>The outer option is undefined behaviour or divergence, the inner one the returned \<open>NULL\<close>.  The
  three booleans say which \<open>calloc\<close> succeeds.\<close>

definition mp_hash_table_create ::
  "(ptr \<Rightarrow> u32) \<Rightarrow> (ptr \<Rightarrow> ptr \<Rightarrow> int) option \<Rightarrow> bool \<Rightarrow> u32 \<Rightarrow> bool \<Rightarrow> bool \<Rightarrow> bool \<Rightarrow> mp_hash_table option option" where
  "mp_hash_table_create hashfunc cmpfunc freefunc buckets_size ok1 ok2 ok3 =
     (if buckets_size = 0 then Some None
      else do {
        buckets_size \<leftarrow> (if \<not> is_power_of_2 buckets_size then mp_size_loop 1 buckets_size
                         else Some buckets_size);
        if \<not> ok1 then Some None
        else if \<not> ok2 then Some None
        else if \<not> ok3 then Some None
        else let n = unat buckets_size;
                 zero = \<lparr>n_prev = NULL, n_next = NULL, n_data = NULL, n_key = 0, n_reversed = 0\<rparr>;
                 nodes = (\<lambda>p. if 1 \<le> p \<and> p \<le> n then Some zero else None)
          in Some (Some \<lparr>num_buckets = buckets_size, num_elements = 0, mp_mask = buckets_size - 1,
               table_buckets = replicate n NULL, bucket_nodes = mp_link_loop (n - 1) nodes,
               free_buckets = 1, mp_hashf = hashfunc, mp_cmp = cmpfunc, mp_free = freefunc,
               freed = []\<rparr>) })"

definition mp_get_free_entry :: "mp_hash_table \<Rightarrow> (mp_hash_table \<times> ptr) option" where
  "mp_get_free_entry ht =
     (if free_buckets ht = NULL then Some (ht, NULL)
      else do {
        let entry = free_buckets ht;
        e \<leftarrow> node ht entry;
        let ht = ht\<lparr>free_buckets := n_next e\<rparr>;
        ht \<leftarrow> (if free_buckets ht \<noteq> NULL then set_node ht (free_buckets ht) (\<lambda>f. f\<lparr>n_prev := NULL\<rparr>)
               else Some ht);
        ht \<leftarrow> set_node ht entry (\<lambda>e. e\<lparr>n_data := NULL, n_prev := NULL, n_next := NULL, n_key := 0\<rparr>);
        Some (ht, entry) })"

definition mp_put_free_entry :: "mp_hash_table \<Rightarrow> ptr \<Rightarrow> mp_hash_table option" where
  "mp_put_free_entry ht entry = do {
     ht \<leftarrow> set_node ht entry (\<lambda>e. e\<lparr>n_key := 0, n_reversed := 0, n_data := NULL, n_prev := NULL,
                                    n_next := free_buckets ht\<rparr>);
     ht \<leftarrow> (if free_buckets ht \<noteq> NULL then set_node ht (free_buckets ht) (\<lambda>f. f\<lparr>n_prev := entry\<rparr>)
            else Some ht);
     Some (ht\<lparr>free_buckets := entry\<rparr>) }"

text \<open>\<open>ht->cmp && ht->cmp(a, b)\<close>.\<close>

definition cmp_differs :: "mp_hash_table \<Rightarrow> ptr \<Rightarrow> ptr \<Rightarrow> bool" where
  "cmp_differs ht a b = (case mp_cmp ht of None \<Rightarrow> False | Some f \<Rightarrow> f a b \<noteq> 0)"

text \<open>The scan of \<open>mp_list_insert\<close>: \<open>None\<close> when an equal element is met (the code returns -1),
  otherwise the node behind which the entry goes.\<close>

partial_function (option) mp_insert_scan ::
  "mp_hash_table \<Rightarrow> mp_hash_entry \<Rightarrow> ptr \<Rightarrow> ptr \<Rightarrow> ptr option option" where
  "mp_insert_scan ht entry cur last_p =
     (if cur = NULL then Some (Some last_p)
      else do {
        c \<leftarrow> node ht cur;
        if n_reversed c > n_reversed entry then Some (Some last_p)
        else if n_reversed c = n_reversed entry then
          if cmp_differs ht (n_data entry) (n_data c) then mp_insert_scan ht entry (n_next c) cur
          else Some None
        else mp_insert_scan ht entry (n_next c) cur })"

text \<open>\<open>head\<close> is the slot \<open>pos\<close> of \<open>table_buckets\<close>.\<close>

definition mp_list_insert :: "mp_hash_table \<Rightarrow> nat \<Rightarrow> ptr \<Rightarrow> (mp_hash_table \<times> int) option" where
  "mp_list_insert ht pos entry = do {
     head \<leftarrow> get_at (table_buckets ht) pos;
     if head = NULL then Some (ht\<lparr>table_buckets := (table_buckets ht)[pos := entry]\<rparr>, 0)
     else do {
       e \<leftarrow> node ht entry;
       r \<leftarrow> mp_insert_scan ht e head NULL;
       case r of
         None \<Rightarrow> Some (ht, -1)
       | Some last_p \<Rightarrow>
           if last_p \<noteq> NULL then do {
             ht \<leftarrow> set_node ht entry (\<lambda>e. e\<lparr>n_prev := last_p\<rparr>);
             l \<leftarrow> node ht last_p;
             ht \<leftarrow> (if n_next l \<noteq> NULL then do {
                      ht \<leftarrow> set_node ht (n_next l) (\<lambda>f. f\<lparr>n_prev := entry\<rparr>);
                      set_node ht entry (\<lambda>e. e\<lparr>n_next := n_next l\<rparr>) }
                    else Some ht);
             ht \<leftarrow> set_node ht last_p (\<lambda>l. l\<lparr>n_next := entry\<rparr>);
             Some (ht, 0) }
           else do {
             ht \<leftarrow> set_node ht entry (\<lambda>e. e\<lparr>n_next := head\<rparr>);
             ht \<leftarrow> set_node ht head (\<lambda>f. f\<lparr>n_prev := entry\<rparr>);
             Some (ht\<lparr>table_buckets := (table_buckets ht)[pos := entry]\<rparr>, 0) } } }"

partial_function (option) mp_list_find :: "mp_hash_table \<Rightarrow> ptr \<Rightarrow> ptr \<Rightarrow> u32 \<Rightarrow> ptr option" where
  "mp_list_find ht cur data reversed =
     (if cur = NULL then Some NULL
      else do {
        c \<leftarrow> node ht cur;
        if n_reversed c > reversed then Some NULL
        else if n_reversed c = reversed then
          if cmp_differs ht data (n_data c) then mp_list_find ht (n_next c) data reversed
          else Some cur
        else mp_list_find ht (n_next c) data reversed })"

definition mp_list_delete :: "mp_hash_table \<Rightarrow> nat \<Rightarrow> ptr \<Rightarrow> u32 \<Rightarrow> (mp_hash_table \<times> ptr) option" where
  "mp_list_delete ht pos data reversed = do {
     head \<leftarrow> get_at (table_buckets ht) pos;
     cur \<leftarrow> mp_list_find ht head data reversed;
     if cur \<noteq> NULL then do {
       c \<leftarrow> node ht cur;
       ht \<leftarrow> (if n_prev c \<noteq> NULL then set_node ht (n_prev c) (\<lambda>f. f\<lparr>n_next := n_next c\<rparr>)
              else let ht = ht\<lparr>table_buckets := (table_buckets ht)[pos := n_next c]\<rparr> in
                if n_next c \<noteq> NULL then set_node ht (n_next c) (\<lambda>f. f\<lparr>n_prev := NULL\<rparr>) else Some ht);
       ht \<leftarrow> (if n_next c \<noteq> NULL then set_node ht (n_next c) (\<lambda>f. f\<lparr>n_prev := n_prev c\<rparr>) else Some ht);
       ht \<leftarrow> set_node ht cur (\<lambda>e. e\<lparr>n_prev := NULL, n_next := NULL\<rparr>);
       Some (ht, cur) }
     else Some (ht, NULL) }"

text \<open>The table pointer is never \<open>NULL\<close> here; \<open>key % ht->mask\<close> is undefined for a mask of 0.\<close>

definition mp_hash_table_insert :: "mp_hash_table \<Rightarrow> ptr \<Rightarrow> (mp_hash_table \<times> int) option" where
  "mp_hash_table_insert ht data =
     (if data = NULL then Some (ht, -1)
      else if num_elements ht \<ge> num_buckets ht then Some (ht, -1)
      else do {
        let key = mp_hashf ht data;
        ensure (mp_mask ht \<noteq> 0);
        let pos = key mod mp_mask ht;
        let reversed = reverse key;
        (ht, entry) \<leftarrow> mp_get_free_entry ht;
        if entry = NULL then Some (ht, -1)
        else do {
          ht \<leftarrow> set_node ht entry (\<lambda>e. e\<lparr>n_data := data, n_key := key, n_reversed := reversed\<rparr>);
          (ht, r) \<leftarrow> mp_list_insert ht (unat pos) entry;
          if r \<noteq> 0 then do { ht \<leftarrow> mp_put_free_entry ht entry; Some (ht, -1) }
          else Some (ht\<lparr>num_elements := num_elements ht + 1\<rparr>, 0) } })"

definition mp_hash_table_delete :: "mp_hash_table \<Rightarrow> ptr \<Rightarrow> (mp_hash_table \<times> int) option" where
  "mp_hash_table_delete ht data =
     (if data = NULL then Some (ht, -1)
      else do {
        let key = mp_hashf ht data;
        ensure (mp_mask ht \<noteq> 0);
        let pos = key mod mp_mask ht;
        let reversed = reverse key;
        (ht, entry) \<leftarrow> mp_list_delete ht (unat pos) data reversed;
        if entry = NULL then Some (ht, -1)
        else do {
          e \<leftarrow> node ht entry;
          let ht = (if mp_free ht then ht\<lparr>freed := freed ht @ [n_data e]\<rparr> else ht);
          ht \<leftarrow> mp_put_free_entry ht entry;
          Some (ht\<lparr>num_elements := num_elements ht - 1\<rparr>, 0) } })"

definition mp_hash_table_find :: "mp_hash_table \<Rightarrow> ptr \<Rightarrow> ptr option" where
  "mp_hash_table_find ht data =
     (if data = NULL then Some NULL
      else do {
        let key = mp_hashf ht data;
        ensure (mp_mask ht \<noteq> 0);
        let pos = key mod mp_mask ht;
        let reversed = reverse key;
        head \<leftarrow> get_at (table_buckets ht) (unat pos);
        entry \<leftarrow> mp_list_find ht head data reversed;
        if entry = NULL then Some NULL
        else do { e \<leftarrow> node ht entry; Some (n_data e) } })"

text \<open>The inner loop of \<open>mp_hash_table_walk\<close>: the state of the walk function's context, and the
  first non-zero result.  \<open>walkfunc\<close> is the caller's.\<close>

partial_function (option) mp_walk_chain ::
  "mp_hash_table \<Rightarrow> ('c \<Rightarrow> ptr \<Rightarrow> 'c \<times> int) \<Rightarrow> 'c \<Rightarrow> ptr \<Rightarrow> ('c \<times> int) option" where
  "mp_walk_chain ht walkfunc ctx entry =
     (if entry = NULL then Some (ctx, 0)
      else do {
        e \<leftarrow> node ht entry;
        let (ctx, iret) = walkfunc ctx (n_data e);
        if iret \<noteq> 0 then Some (ctx, iret)
        else mp_walk_chain ht walkfunc ctx (n_next e) })"

text \<open>The \<open>int i\<close> of the loop must not overflow.\<close>

partial_function (option) mp_walk_loop ::
  "mp_hash_table \<Rightarrow> ('c \<Rightarrow> ptr \<Rightarrow> 'c \<times> int) \<Rightarrow> 'c \<Rightarrow> nat \<Rightarrow> ('c \<times> int) option" where
  "mp_walk_loop ht walkfunc ctx i =
     (if i < unat (num_buckets ht) then do {
        entry \<leftarrow> get_at (table_buckets ht) i;
        (ctx, iret) \<leftarrow> mp_walk_chain ht walkfunc ctx entry;
        if iret \<noteq> 0 then Some (ctx, iret)
        else do { ensure (i < 2 ^ 31 - 1); mp_walk_loop ht walkfunc ctx (i + 1) } }
      else Some (ctx, 0))"

definition mp_hash_table_walk :: "mp_hash_table \<Rightarrow> ('c \<Rightarrow> ptr \<Rightarrow> 'c \<times> int) \<Rightarrow> 'c \<Rightarrow> ('c \<times> int) option" where
  "mp_hash_table_walk ht walkfunc ctx = mp_walk_loop ht walkfunc ctx 0"

text \<open>\<open>mp_hash_table_free\<close>: the data passed to the \<open>free\<close> callback, in order; the table itself is gone.\<close>

partial_function (option) mp_free_chain :: "mp_hash_table \<Rightarrow> ptr \<Rightarrow> ptr list \<Rightarrow> ptr list option" where
  "mp_free_chain ht entry log =
     (if entry = NULL then Some log
      else do { e \<leftarrow> node ht entry; mp_free_chain ht (n_next e) (log @ [n_data e]) })"

partial_function (option) mp_free_loop :: "mp_hash_table \<Rightarrow> nat \<Rightarrow> ptr list \<Rightarrow> ptr list option" where
  "mp_free_loop ht i log =
     (if i < unat (num_buckets ht) then do {
        entry \<leftarrow> get_at (table_buckets ht) i;
        log \<leftarrow> mp_free_chain ht entry log;
        ensure (i < 2 ^ 31 - 1);
        mp_free_loop ht (i + 1) log }
      else Some log)"

definition mp_hash_table_free :: "mp_hash_table \<Rightarrow> ptr list option" where
  "mp_hash_table_free ht = (if mp_free ht then mp_free_loop ht 0 (freed ht) else Some (freed ht))"

end
