(* ===== verification/MphashSpec.thy ===== *)
theory MphashSpec
  imports Mphash
begin

text \<open>
  Correctness of \<open>mphash.c\<close>: \<open>mp_links\<close> says how the nodes are divided into buckets, free list and
  detached nodes, \<open>mp_vals\<close> that the buckets are sorted, hold the right hashes and no two equal
  elements.  Every list operation is a lemma on these two predicates; the table operations
  refine a set of elements.
\<close>

section \<open>Bit reversal\<close>

lemma length_reversed_byte: "length reversed_byte = 256"
  by (simp add: reversed_byte_def)

lemma reversed_byte_table:
  "list_all (\<lambda>i. list_all (\<lambda>j. bit (reversed_byte ! i) j = bit (of_nat i :: u8) (7 - j)) [0..<8]) [0..<256]"
  unfolding reversed_byte_def by code_simp

lemma bit_reversed_byte:
  assumes "n < 8"
  shows "bit (reversed_byte ! unat (b :: u8)) n = bit b (7 - n)"
proof -
  have "unat b < 256" using unat_bound [of b] by simp
  then have "bit (reversed_byte ! unat b) n = bit (of_nat (unat b) :: u8) (7 - n)"
    using reversed_byte_table assms by (simp add: list_all_iff)
  then show ?thesis by simp
qed

lemma low_byte: "unat (x AND 0xff :: u32) = unat (ucast x :: u8)"
proof -
  have "x AND 0xff = take_bit 8 x" by (simp add: take_bit_eq_mask mask_eq_exp_minus_1)
  then show ?thesis by (simp add: unsigned_ucast_eq unsigned_take_bit_eq)
qed

lemma bit_reverse:
  assumes "n < 32"
  shows "bit (reverse key) n = bit key (31 - n)"
proof -
  have b: "bit (reversed_byte ! unat (drop_bit k key AND 0xff)) m \<longleftrightarrow> m < 8 \<and> bit key (k + (7 - m))" for k m
  proof (cases "m < 8")
    case True
    then show ?thesis unfolding low_byte by (auto simp: bit_reversed_byte bit_simps)
  next
    case False
    then show ?thesis using bit_imp_le_length [of "reversed_byte ! unat (drop_bit k key AND 0xff)" m] by auto
  qed
  have b0: "bit (reversed_byte ! unat (key AND 0xff)) m \<longleftrightarrow> m < 8 \<and> bit key (7 - m)" for m
    using b [of 0 m] by simp
  show ?thesis
    using assms unfolding reverse_def
    by (simp add: bit_simps b b0; cases "n < 8"; cases "n < 16"; cases "n < 24"; auto)
qed

lemma inj_reverse: "reverse k = reverse l \<longleftrightarrow> k = l"
proof
  assume eq: "reverse k = reverse l"
  show "k = l"
  proof (rule bit_word_eqI)
    fix n
    assume "n < LENGTH(32)"
    then have "bit (reverse k) (31 - n) = bit k n" "bit (reverse l) (31 - n) = bit l n"
      by (simp_all add: bit_reverse)
    with eq show "bit k n = bit l n" by simp
  qed
qed simp

section \<open>Invariant\<close>

abbreviation nx :: "mp_hash_table \<Rightarrow> ptr \<Rightarrow> ptr option" where
  "nx ht \<equiv> (\<lambda>p. map_option n_next (bucket_nodes ht p))"

abbreviation pv :: "mp_hash_table \<Rightarrow> ptr \<Rightarrow> ptr option" where
  "pv ht \<equiv> (\<lambda>p. map_option n_prev (bucket_nodes ht p))"

definition rv :: "mp_hash_table \<Rightarrow> ptr \<Rightarrow> u32" where
  "rv ht p = n_reversed (the (bucket_nodes ht p))"

definition dt :: "mp_hash_table \<Rightarrow> ptr \<Rightarrow> ptr" where
  "dt ht p = n_data (the (bucket_nodes ht p))"

text \<open>Two elements are equal for the table when their hashes agree and the comparison, if any,
  returns 0.\<close>

definition same :: "(ptr \<Rightarrow> u32) \<Rightarrow> (ptr \<Rightarrow> ptr \<Rightarrow> int) option \<Rightarrow> ptr \<Rightarrow> ptr \<Rightarrow> bool" where
  "same h c a b \<longleftrightarrow> h a = h b \<and> (case c of None \<Rightarrow> True | Some f \<Rightarrow> f a b = 0)"

definition mp_shape :: "mp_hash_table \<Rightarrow> bool" where
  "mp_shape ht \<longleftrightarrow> (\<exists>k. 1 \<le> k \<and> k \<le> 31 \<and> num_buckets ht = 2 ^ k) \<and> mp_mask ht = num_buckets ht - 1 \<and>
     length (table_buckets ht) = unat (num_buckets ht)"

definition mp_links :: "mp_hash_table \<Rightarrow> ptr list list \<Rightarrow> ptr list \<Rightarrow> ptr list \<Rightarrow> bool" where
  "mp_links ht bs fs us \<longleftrightarrow> mp_shape ht \<and> length bs = length (table_buckets ht) \<and>
     (\<forall>i<length bs. dchain (nx ht) (pv ht) NULL (table_buckets ht ! i) (bs ! i)) \<and>
     dchain (nx ht) (pv ht) NULL (free_buckets ht) fs \<and>
     distinct (us @ fs @ concat bs) \<and> dom (bucket_nodes ht) = set (us @ fs @ concat bs) \<and>
     length (us @ fs @ concat bs) = unat (num_buckets ht) \<and> NULL \<notin> set us"

definition mp_vals :: "mp_hash_table \<Rightarrow> ptr list list \<Rightarrow> bool" where
  "mp_vals ht bs \<longleftrightarrow>
     (\<forall>i<length bs. sorted (map (rv ht) (bs ! i)) \<and> (\<forall>p\<in>set (bs ! i). dt ht p \<noteq> NULL \<and>
        rv ht p = reverse (mp_hashf ht (dt ht p)) \<and> unat (mp_hashf ht (dt ht p) mod mp_mask ht) = i)) \<and>
     (\<forall>p\<in>set (concat bs). \<forall>q\<in>set (concat bs). p \<noteq> q \<longrightarrow> \<not> same (mp_hashf ht) (mp_cmp ht) (dt ht p) (dt ht q))"

definition mp_rep :: "mp_hash_table \<Rightarrow> ptr list list \<Rightarrow> ptr list \<Rightarrow> bool" where
  "mp_rep ht bs fs \<longleftrightarrow> mp_links ht bs fs [] \<and> mp_vals ht bs \<and> unat (num_elements ht) = length (concat bs)"

definition mp_buckets :: "mp_hash_table \<Rightarrow> ptr list list" where
  "mp_buckets ht = map (walk (nx ht) (unat (num_buckets ht))) (table_buckets ht)"

definition mp_inv :: "mp_hash_table \<Rightarrow> bool" where
  "mp_inv ht \<longleftrightarrow> mp_rep ht (mp_buckets ht) (walk (nx ht) (unat (num_buckets ht)) (free_buckets ht))"

text \<open>The elements in the order \<open>mp_hash_table_walk\<close> meets them, and the set they form.\<close>

definition mp_elems :: "mp_hash_table \<Rightarrow> ptr list" where
  "mp_elems ht = map (dt ht) (concat (mp_buckets ht))"

locale mp_callbacks =
  fixes h :: "ptr \<Rightarrow> u32" and c :: "(ptr \<Rightarrow> ptr \<Rightarrow> int) option"
  assumes same_refl: "same h c a a"
    and same_sym: "same h c a b \<Longrightarrow> same h c b a"
    and same_trans: "same h c a b \<Longrightarrow> same h c b d \<Longrightarrow> same h c a d"

lemma mp_linksD:
  assumes "mp_links ht bs fs us"
  shows "mp_shape ht" and "length bs = length (table_buckets ht)"
    and "i < length (table_buckets ht) \<Longrightarrow> dchain (nx ht) (pv ht) NULL (table_buckets ht ! i) (bs ! i)"
    and "dchain (nx ht) (pv ht) NULL (free_buckets ht) fs"
    and "distinct (us @ fs @ concat bs)" and "dom (bucket_nodes ht) = set (us @ fs @ concat bs)"
    and "length (us @ fs @ concat bs) = unat (num_buckets ht)" and "NULL \<notin> set us"
  using assms unfolding mp_links_def by simp_all

lemma mp_linksI:
  assumes "mp_shape ht" and "length bs = length (table_buckets ht)"
    and "\<And>i. i < length (table_buckets ht) \<Longrightarrow> dchain (nx ht) (pv ht) NULL (table_buckets ht ! i) (bs ! i)"
    and "dchain (nx ht) (pv ht) NULL (free_buckets ht) fs"
    and "distinct (us @ fs @ concat bs)" and "dom (bucket_nodes ht) = set (us @ fs @ concat bs)"
    and "length (us @ fs @ concat bs) = unat (num_buckets ht)" and "NULL \<notin> set us"
  shows "mp_links ht bs fs us"
  using assms unfolding mp_links_def by simp

lemma mp_rep_buckets:
  assumes "mp_links ht bs fs us"
  shows "mp_buckets ht = bs" and "walk (nx ht) (unat (num_buckets ht)) (free_buckets ht) = fs"
proof -
  note D = mp_linksD [OF assms]
  have "walk (nx ht) (unat (num_buckets ht)) (table_buckets ht ! i) = bs ! i" if "i < length bs" for i
  proof (rule walk_chain)
    show "chain (nx ht) (table_buckets ht ! i) (bs ! i)" using D(2,3) that by (auto intro: dchain_chain)
    show "length (bs ! i) \<le> unat (num_buckets ht)"
      using D(7) length_le_concat [OF that] by simp
  qed
  then show "mp_buckets ht = bs" using D(2) by (auto simp: mp_buckets_def intro!: nth_equalityI)
  show "walk (nx ht) (unat (num_buckets ht)) (free_buckets ht) = fs"
    using D(4,7) by (intro walk_chain) (auto intro: dchain_chain)
qed

lemma mp_inv_rep: "mp_inv ht \<longleftrightarrow> (\<exists>bs fs. mp_rep ht bs fs)"
  unfolding mp_inv_def using mp_rep_buckets unfolding mp_rep_def by blast

lemma mp_inv_elems:
  assumes "mp_rep ht bs fs"
  shows "mp_elems ht = map (dt ht) (concat bs)"
  using assms mp_rep_buckets unfolding mp_rep_def mp_elems_def by metis

lemma mp_shape_pos:
  assumes "mp_shape ht"
  shows "mp_mask ht \<noteq> 0" and "unat (key mod mp_mask ht) < length (table_buckets ht)"
proof -
  obtain k where k: "1 \<le> k" "k \<le> 31" "num_buckets ht = 2 ^ k" "mp_mask ht = 2 ^ k - 1"
      "length (table_buckets ht) = unat (num_buckets ht)"
    using assms by (auto simp: mp_shape_def)
  have u: "unat (num_buckets ht) = 2 ^ k" using k(2,3) by (simp add: unat_pow2)
  have "(2::nat) ^ 1 \<le> 2 ^ k" using k(1) by (intro power_increasing) auto
  then have "1 < unat (num_buckets ht)" using u by simp
  moreover have "num_buckets ht \<noteq> 0" using calculation by auto
  ultimately have m: "unat (mp_mask ht) = unat (num_buckets ht) - 1" "0 < unat (mp_mask ht)"
    using k(3,4) unat_minus_one [of "num_buckets ht"] by simp_all
  then show "mp_mask ht \<noteq> 0" by auto
  have "unat (key mod mp_mask ht) < unat (mp_mask ht)" using m(2) by (simp add: unat_mod)
  then show "unat (key mod mp_mask ht) < length (table_buckets ht)" using m(1) k(5) by linarith
qed

section \<open>Searching a sorted bucket\<close>

lemma mp_list_find_run:
  assumes "chain (nx ht) cur xs" and "sorted (map (rv ht) xs)"
  shows "mp_list_find ht cur data r =
    Some (case List.find (\<lambda>p. rv ht p = r \<and> \<not> cmp_differs ht data (dt ht p)) xs of None \<Rightarrow> NULL | Some p \<Rightarrow> p)"
  using assms
proof (induction xs arbitrary: cur)
  case Nil
  then show ?case by (simp add: mp_list_find.simps)
next
  case (Cons x xs)
  then obtain e where e: "bucket_nodes ht x = Some e" "chain (nx ht) (n_next e) xs" "cur = x" "x \<noteq> NULL"
    by auto
  have big: "List.find (\<lambda>p. rv ht p = r \<and> \<not> cmp_differs ht data (dt ht p)) xs = None" if "r < rv ht x"
    using Cons.prems(2) that by (auto simp: find_None_iff)
  show ?case
    using e Cons.IH [OF e(2)] Cons.prems(2) big
    by (subst mp_list_find.simps) (auto simp: node_def rv_def dt_def)
qed

lemma mp_insert_scan_run:
  assumes "chain (nx ht) cur xs" and "sorted (map (rv ht) xs)"
  shows "mp_insert_scan ht e cur l = Some (if \<exists>p\<in>set xs. rv ht p = n_reversed e \<and> \<not> cmp_differs ht (n_data e) (dt ht p)
    then None else Some (last (l # takeWhile (\<lambda>p. rv ht p \<le> n_reversed e) xs)))"
  using assms
proof (induction xs arbitrary: cur l)
  case Nil
  then show ?case by (simp add: mp_insert_scan.simps)
next
  case (Cons x xs)
  then obtain c where c: "bucket_nodes ht x = Some c" "chain (nx ht) (n_next c) xs" "cur = x" "x \<noteq> NULL"
    by auto
  have big: "\<not> (\<exists>p\<in>set xs. rv ht p = n_reversed e)" if "n_reversed e < rv ht x"
    using Cons.prems(2) that by auto
  have rx: "rv ht x = n_reversed c" "dt ht x = n_data c" using c(1) by (simp_all add: rv_def dt_def)
  have IH: "mp_insert_scan ht e (n_next c) x =
      Some (if \<exists>p\<in>set xs. rv ht p = n_reversed e \<and> \<not> cmp_differs ht (n_data e) (dt ht p)
        then None else Some (last (x # takeWhile (\<lambda>p. rv ht p \<le> n_reversed e) xs)))"
    using Cons.IH [OF c(2)] Cons.prems(2) by simp
  show ?case
  proof (cases "n_reversed c > n_reversed e")
    case True
    then show ?thesis using c big rx by (subst mp_insert_scan.simps) (auto simp: node_def)
  next
    case False
    then show ?thesis
      using c rx IH by (subst mp_insert_scan.simps) (auto simp: node_def)
  qed
qed

section \<open>The free list and detached nodes\<close>

text \<open>What an operation leaves alone: the callbacks, the sizes, the log, and the elements and hashes of
  the nodes in \<open>A\<close>.\<close>

definition mp_frame :: "ptr set \<Rightarrow> mp_hash_table \<Rightarrow> mp_hash_table \<Rightarrow> bool" where
  "mp_frame A ht ht' \<longleftrightarrow> mp_hashf ht' = mp_hashf ht \<and> mp_cmp ht' = mp_cmp ht \<and> mp_free ht' = mp_free ht \<and>
     freed ht' = freed ht \<and> mp_mask ht' = mp_mask ht \<and> num_buckets ht' = num_buckets ht \<and>
     num_elements ht' = num_elements ht \<and> (\<forall>p\<in>A. rv ht' p = rv ht p \<and> dt ht' p = dt ht p)"

lemma mp_frame_trans: "mp_frame A ht ht' \<Longrightarrow> mp_frame A ht' ht'' \<Longrightarrow> mp_frame A ht ht''"
  by (simp add: mp_frame_def)

lemma mp_vals_frame:
  assumes "mp_vals ht bs" and "mp_frame A ht ht'" and "set (concat bs) \<subseteq> A"
  shows "mp_vals ht' bs"
proof -
  have eq: "rv ht' p = rv ht p" "dt ht' p = dt ht p" if "i < length bs" "p \<in> set (bs ! i)" for i p
    using assms(2,3) that nth_mem [of i bs] by (fastforce simp: mp_frame_def)+
  then have m: "map (rv ht') (bs ! i) = map (rv ht) (bs ! i)" if "i < length bs" for i
    using that by simp
  have eq': "rv ht' p = rv ht p" "dt ht' p = dt ht p" if "p \<in> set (concat bs)" for p
    using assms(2,3) that by (auto simp: mp_frame_def)
  show ?thesis
    using assms(1,2) unfolding mp_vals_def by (simp add: eq eq' m mp_frame_def del: set_concat)
qed

text \<open>A heap update of links only, written as a function on the nodes.\<close>

lemma set_node_run:
  "bucket_nodes ht p = Some e \<Longrightarrow> p \<noteq> NULL \<Longrightarrow>
   set_node ht p f = Some (ht\<lparr>bucket_nodes := (bucket_nodes ht)(p \<mapsto> f e)\<rparr>)"
  by (simp add: set_node_def node_def)

lemma mp_links_node:
  assumes "mp_links ht bs fs us" and "p \<in> set (us @ fs @ concat bs)"
  shows "p \<noteq> NULL \<and> (\<exists>e. bucket_nodes ht p = Some e)"
proof -
  note D = mp_linksD [OF assms(1)]
  have "p \<noteq> NULL" if "p \<in> set (concat bs)"
  proof -
    from that obtain i where "i < length bs" "p \<in> set (bs ! i)"
      by (metis (no_types, lifting) UN_E in_set_conv_nth set_concat)
    then show ?thesis using D(2) dchain_nodes [OF D(3) [of i]] by auto
  qed
  then have "p \<noteq> NULL" using assms(2) D(8) dchain_nodes [OF D(4)] by (cases "p = NULL") auto
  moreover have "p \<in> dom (bucket_nodes ht)" using assms(2) D(6) by blast
  ultimately show ?thesis by auto
qed

lemma mp_bucket_disjoint:
  assumes "mp_links ht bs fs us" and "i < length bs" and "j < length bs" and "i \<noteq> j"
  shows "set (bs ! i) \<inter> set (bs ! j) = {}"
  using mp_linksD(5) [OF assms(1)] assms(2-4) by (intro distinct_concat_disjoint) auto

lemma mp_get_free_entry_run:
  assumes L: "mp_links ht bs (u # fs) []"
  shows "\<exists>ht' e. mp_get_free_entry ht = Some (ht', u) \<and> mp_links ht' bs fs [u] \<and>
    mp_frame (set (concat bs)) ht ht' \<and> bucket_nodes ht' u = Some e \<and> n_prev e = NULL \<and> n_next e = NULL"
proof -
  note D = mp_linksD [OF L]
  from D(4) obtain e where e: "bucket_nodes ht u = Some e" "free_buckets ht = u" "u \<noteq> NULL"
      "dchain (nx ht) (pv ht) u (n_next e) fs" by auto
  let ?e = "e\<lparr>n_data := NULL, n_prev := NULL, n_next := NULL, n_key := 0\<rparr>"
  have d: "u \<notin> set fs" "u \<notin> set (concat bs)" "distinct (fs @ concat bs)" using D(5) by auto
  define h where "h = (\<lambda>p. if p = u then Some ?e else if p = n_next e \<and> p \<noteq> NULL
      then map_option (\<lambda>f. f\<lparr>n_prev := NULL\<rparr>) (bucket_nodes ht p) else bucket_nodes ht p)"
  let ?ht = "ht\<lparr>free_buckets := n_next e, bucket_nodes := h\<rparr>"
  have fs: "n_next e = NULL \<and> fs = [] \<or> (\<exists>f r. bucket_nodes ht (n_next e) = Some f \<and> n_next e \<in> set fs \<and> n_next e \<noteq> NULL)"
    using e(4) by (cases fs) auto
  have run: "mp_get_free_entry ht = Some (?ht, u)"
  proof (cases "n_next e = NULL")
    case True
    then have "h = (bucket_nodes ht)(u \<mapsto> ?e)" by (auto simp: h_def)
    with True e show ?thesis by (simp add: mp_get_free_entry_def node_def set_node_def Let_def)
  next
    case False
    with fs obtain f where f: "bucket_nodes ht (n_next e) = Some f" "n_next e \<noteq> u" using d(1) by auto
    then have "h = (bucket_nodes ht)(n_next e \<mapsto> f\<lparr>n_prev := NULL\<rparr>, u \<mapsto> ?e)"
      using False by (auto simp: h_def)
    with False f e show ?thesis by (simp add: mp_get_free_entry_def node_def set_node_def Let_def)
  qed
  have free: "dchain (nx ?ht) (pv ?ht) NULL (n_next e) fs"
    by (rule dchain_relink [OF e(4)]) (use d(1,3) fs in \<open>auto simp: h_def option.map_comp comp_def\<close>)
  have same: "h p = bucket_nodes ht p" if "p \<in> set (concat bs)" for p
    using that d fs by (auto simp: h_def)
  have bk: "dchain (nx ?ht) (pv ?ht) NULL (table_buckets ht ! i) (bs ! i)" if "i < length (table_buckets ht)" for i
  proof -
    have "p \<in> set (concat bs)" if "p \<in> set (bs ! i)" for p using that \<open>i < _\<close> D(2) by auto
    then show ?thesis using D(3) [OF that] same
      by (subst dchain_cong [of _ _ "nx ht" _ "pv ht"]) auto
  qed
  have "dom h = dom (bucket_nodes ht)" using e(1) by (auto simp: h_def split: if_splits)
  then have "mp_links ?ht bs fs [u]"
    using D e(3) free bk by (intro mp_linksI) (auto simp: mp_shape_def)
  moreover have "mp_frame (set (concat bs)) ht ?ht"
    using same by (auto simp: mp_frame_def rv_def dt_def)
  moreover have "bucket_nodes ?ht u = Some ?e" by (simp add: h_def)
  ultimately show ?thesis
    using run by (intro exI [of _ ?ht] exI [of _ ?e]) simp
qed

lemma mp_put_free_entry_run:
  assumes L: "mp_links ht bs fs [u]"
  shows "\<exists>ht'. mp_put_free_entry ht u = Some ht' \<and> mp_links ht' bs (u # fs) [] \<and>
    mp_frame (set (concat bs)) ht ht'"
proof -
  note D = mp_linksD [OF L]
  from mp_links_node [OF L, of u] obtain e where e: "bucket_nodes ht u = Some e" "u \<noteq> NULL" by auto
  let ?e = "e\<lparr>n_key := 0, n_reversed := 0, n_data := NULL, n_prev := NULL, n_next := free_buckets ht\<rparr>"
  have d: "u \<notin> set fs" "u \<notin> set (concat bs)" "distinct (fs @ concat bs)" using D(5) by auto
  define h where "h = (\<lambda>p. if p = u then Some ?e else if p = free_buckets ht \<and> p \<noteq> NULL
      then map_option (\<lambda>f. f\<lparr>n_prev := u\<rparr>) (bucket_nodes ht p) else bucket_nodes ht p)"
  let ?ht = "ht\<lparr>bucket_nodes := h, free_buckets := u\<rparr>"
  have fs: "free_buckets ht = NULL \<and> fs = [] \<or>
      (\<exists>f. bucket_nodes ht (free_buckets ht) = Some f \<and> free_buckets ht \<in> set fs \<and> free_buckets ht \<noteq> NULL)"
    using D(4) by (cases fs) auto
  have run: "mp_put_free_entry ht u = Some ?ht"
    using fs e d(1) by (auto simp: mp_put_free_entry_def set_node_def node_def h_def fun_eq_iff)
  have free: "dchain (nx ?ht) (pv ?ht) NULL u (u # fs)"
    by (rule dchain_insert_head [OF D(4)]) (use d(1,3) e fs in \<open>auto simp: h_def option.map_comp comp_def\<close>)
  have same: "h p = bucket_nodes ht p" if "p \<in> set (concat bs)" for p
    using that d fs by (auto simp: h_def)
  have bk: "dchain (nx ?ht) (pv ?ht) NULL (table_buckets ht ! i) (bs ! i)" if "i < length (table_buckets ht)" for i
  proof -
    have "p \<in> set (concat bs)" if "p \<in> set (bs ! i)" for p using that \<open>i < _\<close> D(2) by auto
    then show ?thesis using D(3) [OF that] same
      by (subst dchain_cong [of _ _ "nx ht" _ "pv ht"]) auto
  qed
  have "dom h = dom (bucket_nodes ht)" using e(1) by (auto simp: h_def split: if_splits)
  then have "mp_links ?ht bs (u # fs) []"
    using D free bk by (intro mp_linksI) (auto simp: mp_shape_def)
  moreover have "mp_frame (set (concat bs)) ht ?ht"
    using same by (auto simp: mp_frame_def rv_def dt_def)
  ultimately show ?thesis using run by blast
qed

lemma mp_set_detached:
  assumes L: "mp_links ht bs fs [u]" and e: "bucket_nodes ht u = Some e"
  shows "mp_links (ht\<lparr>bucket_nodes := (bucket_nodes ht)(u \<mapsto> e')\<rparr>) bs fs [u] \<and>
    mp_frame (set (concat bs)) ht (ht\<lparr>bucket_nodes := (bucket_nodes ht)(u \<mapsto> e')\<rparr>)"
    (is "mp_links ?ht bs fs [u] \<and> _")
proof -
  note D = mp_linksD [OF L]
  have d: "u \<notin> set fs" "u \<notin> set (concat bs)" using D(5) by auto
  have "dchain (nx ?ht) (pv ?ht) NULL (table_buckets ht ! i) (bs ! i)" if "i < length (table_buckets ht)" for i
  proof -
    have "p \<noteq> u" if "p \<in> set (bs ! i)" for p using that \<open>i < _\<close> D(2) d(2) by auto
    then show ?thesis using D(3) [OF that]
      by (subst dchain_cong [of _ _ "nx ht" _ "pv ht"]) auto
  qed
  moreover have "dchain (nx ?ht) (pv ?ht) NULL (free_buckets ht) fs"
    using D(4) d(1) by (subst dchain_cong [of _ _ "nx ht" _ "pv ht"]) auto
  moreover have "dom ((bucket_nodes ht)(u \<mapsto> e')) = dom (bucket_nodes ht)" using e by auto
  ultimately have "mp_links ?ht bs fs [u]" using D by (intro mp_linksI) (auto simp: mp_shape_def)
  moreover have "mp_frame (set (concat bs)) ht ?ht"
    using d(2) by (auto simp: mp_frame_def rv_def dt_def)
  ultimately show ?thesis by simp
qed

section \<open>Changing one bucket\<close>

lemma mp_links_bucket:
  assumes L: "mp_links ht bs fs us" and i: "i < length bs"
    and ch: "dchain (map_option n_next \<circ> h) (map_option n_prev \<circ> h) NULL q new"
    and m: "mset us' + mset new = mset us + mset (bs ! i)"
    and other: "\<And>p. p \<notin> set us \<union> set (bs ! i) \<Longrightarrow> h p = bucket_nodes ht p"
    and dom: "dom h = dom (bucket_nodes ht)"
  shows "mp_links (ht\<lparr>bucket_nodes := h, table_buckets := (table_buckets ht)[i := q]\<rparr>) (bs[i := new]) fs us'"
    (is "mp_links ?ht ?bs fs us'")
proof -
  note D = mp_linksD [OF L]
  have "mset (us' @ fs @ concat ?bs) + mset (bs ! i) = mset (us @ fs @ concat bs) + mset (bs ! i)"
    using mset_concat_replace [OF i, of new] m by (simp add: ac_simps)
  then have all: "mset (us' @ fs @ concat ?bs) = mset (us @ fs @ concat bs)" by (simp only: add_right_cancel)
  have fr: "h p = bucket_nodes ht p" if "p \<in> set fs" for p
    using that D(5) nth_mem [OF i] by (intro other) auto
  have ot: "h p = bucket_nodes ht p" if "j < length bs" "j \<noteq> i" "p \<in> set (bs ! j)" for j p
    using that mp_bucket_disjoint [OF L that(1) i that(2)] D(5) by (intro other) auto
  show ?thesis
  proof (rule mp_linksI)
    show "dchain (nx ?ht) (pv ?ht) NULL (table_buckets ?ht ! j) (?bs ! j)" if "j < length (table_buckets ?ht)" for j
    proof (cases "j = i")
      case True
      with ch i D(2) show ?thesis by (simp add: comp_def)
    next
      case False
      with D(2,3) that ot [of j] show ?thesis
        by (subst dchain_cong [of _ _ "nx ht" _ "pv ht"]) auto
    qed
    show "dchain (nx ?ht) (pv ?ht) NULL (free_buckets ?ht) fs"
      using D(4) fr by (subst dchain_cong [of _ _ "nx ht" _ "pv ht"]) auto
    show "distinct (us' @ fs @ concat ?bs)"
      using mset_eq_imp_distinct_iff [OF all] D(5) by blast
    have st: "set (us' @ fs @ concat ?bs) = set (us @ fs @ concat bs)"
      using arg_cong [OF all, of set_mset] by (simp only: set_mset_mset)
    show "dom (bucket_nodes ?ht) = set (us' @ fs @ concat ?bs)" unfolding st using dom D(6) by simp
    show "length (us' @ fs @ concat ?bs) = unat (num_buckets ?ht)"
      using mset_eq_length [OF all] D(7) by simp
    have "NULL \<notin> set (us @ fs @ concat bs)" using mp_links_node [OF L] by blast
    then show "NULL \<notin> set us'" using st by auto
  qed (use D(1,2) in \<open>auto simp: mp_shape_def\<close>)
qed

lemma mp_insert_after:
  assumes L: "mp_links ht bs fs [u]" and i: "i < length bs" and e: "bucket_nodes ht u = Some e"
    and z: "n_next e = NULL" and bi: "bs ! i = xs @ a # ys" and l: "bucket_nodes ht a = Some l"
    and h: "h = (\<lambda>p. if p = u then Some (e\<lparr>n_prev := a, n_next := n_next l\<rparr>)
      else if p = a then Some (l\<lparr>n_next := u\<rparr>)
      else if p = n_next l \<and> p \<noteq> NULL then map_option (\<lambda>f. f\<lparr>n_prev := u\<rparr>) (bucket_nodes ht p)
      else bucket_nodes ht p)"
  shows "mp_links (ht\<lparr>bucket_nodes := h\<rparr>) (bs[i := xs @ a # u # ys]) fs []"
proof -
  note D = mp_linksD [OF L]
  have c: "dchain (nx ht) (pv ht) NULL (table_buckets ht ! i) (xs @ a # ys)" using D(2,3) i bi by metis
  have s: "dchain (nx ht) (pv ht) a (n_next l) ys" using c l by (auto simp: dchain_append)
  have cin: "n_next l = NULL \<and> ys = [] \<or> n_next l \<in> set ys" using s by (cases ys) auto
  have d: "distinct (xs @ a # ys)" using c by (rule dchain_distinct)
  have u: "u \<notin> set (xs @ a # ys)" "u \<noteq> NULL" using D(5,8) i bi by (auto simp flip: bi)
  have nz: "NULL \<notin> set (xs @ a # ys)" using dchain_nodes [OF c] by auto
  have some: "\<exists>f. bucket_nodes ht p = Some f" if "p \<in> set (xs @ a # ys)" for p
    using dchain_nodes [OF c that] by auto
  have "dchain (map_option n_next \<circ> h) (map_option n_prev \<circ> h) NULL (table_buckets ht ! i) (xs @ a # u # ys)"
  proof (rule dchain_insert_after [OF c _ u])
    show "(map_option n_prev \<circ> h) (n_next l) = Some u" if "n_next l \<noteq> NULL"
      using that cin some [of "n_next l"] u d by (auto simp: h)
    show "(map_option n_next \<circ> h) x = map_option n_next (bucket_nodes ht x)" if "x \<in> set xs \<union> set ys" for x
      using that d u by (auto simp: h option.map_comp comp_def)
    show "(map_option n_prev \<circ> h) x = map_option n_prev (bucket_nodes ht x)"
      if "x \<in> set (xs @ a # ys)" "x \<noteq> n_next l" for x
      using that d u l by (auto simp: h)
  qed (use u l e in \<open>auto simp: h\<close>)
  moreover have "dom h = dom (bucket_nodes ht)" using e l by (auto simp: h split: if_splits)
  moreover have "h p = bucket_nodes ht p" if "p \<notin> set [u] \<union> set (bs ! i)" for p
    using that cin bi by (auto simp: h)
  ultimately show ?thesis
    using mp_links_bucket [OF L i, of h "table_buckets ht ! i" "xs @ a # u # ys" "[]"] bi by simp
qed

lemma mp_insert_head:
  assumes L: "mp_links ht bs fs [u]" and i: "i < length bs" and e: "bucket_nodes ht u = Some e"
    and z: "n_prev e = NULL" "n_next e = NULL"
    and h: "h = (\<lambda>p. if p = u then Some (e\<lparr>n_next := table_buckets ht ! i\<rparr>)
      else if p = table_buckets ht ! i \<and> p \<noteq> NULL then map_option (\<lambda>f. f\<lparr>n_prev := u\<rparr>) (bucket_nodes ht p)
      else bucket_nodes ht p)"
  shows "mp_links (ht\<lparr>bucket_nodes := h, table_buckets := (table_buckets ht)[i := u]\<rparr>) (bs[i := u # bs ! i]) fs []"
proof -
  note D = mp_linksD [OF L]
  have c: "dchain (nx ht) (pv ht) NULL (table_buckets ht ! i) (bs ! i)" using D(2,3) i by simp
  have cin: "table_buckets ht ! i = NULL \<and> bs ! i = [] \<or> table_buckets ht ! i \<in> set (bs ! i)"
    using c by (cases "bs ! i") auto
  have u: "u \<notin> set (bs ! i)" "u \<noteq> NULL" using D(5,8) i by auto
  have some: "\<exists>f. bucket_nodes ht p = Some f" if "p \<in> set (bs ! i)" for p
    using dchain_nodes [OF c that] by auto
  have "dchain (map_option n_next \<circ> h) (map_option n_prev \<circ> h) NULL u (u # bs ! i)"
  proof (rule dchain_insert_head [OF c u])
    show "(map_option n_prev \<circ> h) (table_buckets ht ! i) = Some u" if "table_buckets ht ! i \<noteq> NULL"
      using that cin some [of "table_buckets ht ! i"] u by (auto simp: h)
    show "(map_option n_next \<circ> h) x = map_option n_next (bucket_nodes ht x)" if "x \<in> set (bs ! i)" for x
      using that u by (auto simp: h option.map_comp comp_def)
    show "(map_option n_prev \<circ> h) x = map_option n_prev (bucket_nodes ht x)"
      if "x \<in> set (bs ! i)" "x \<noteq> table_buckets ht ! i" for x
      using that u by (auto simp: h)
  qed (use e z in \<open>auto simp: h\<close>)
  moreover have "dom h = dom (bucket_nodes ht)" using e by (auto simp: h split: if_splits)
  moreover have "h p = bucket_nodes ht p" if "p \<notin> set [u] \<union> set (bs ! i)" for p
    using that cin by (auto simp: h)
  ultimately show ?thesis
    by (intro mp_links_bucket [OF L i]) auto
qed

lemma mp_frame_links:
  assumes "\<And>p. p \<in> A \<Longrightarrow> map_option (\<lambda>e. (n_reversed e, n_data e)) (h p) =
      map_option (\<lambda>e. (n_reversed e, n_data e)) (bucket_nodes ht p)" and "A \<subseteq> dom (bucket_nodes ht)"
  shows "mp_frame A ht (ht\<lparr>bucket_nodes := h, table_buckets := t\<rparr>)"
proof -
  have "n_reversed (the (h p)) = n_reversed (the (bucket_nodes ht p)) \<and>
      n_data (the (h p)) = n_data (the (bucket_nodes ht p))" if "p \<in> A" for p
    using assms(1) [OF that] assms(2) that by (cases "h p"; cases "bucket_nodes ht p") auto
  then show ?thesis by (simp add: mp_frame_def rv_def dt_def)
qed

lemma mp_list_insert_run:
  assumes L: "mp_links ht bs fs [u]" and V: "mp_vals ht bs" and i: "i < length bs"
    and e: "bucket_nodes ht u = Some e" and z: "n_prev e = NULL" "n_next e = NULL"
  shows "if \<exists>p\<in>set (bs ! i). rv ht p = n_reversed e \<and> \<not> cmp_differs ht (n_data e) (dt ht p)
    then mp_list_insert ht i u = Some (ht, -1)
    else \<exists>ht' xs ys. mp_list_insert ht i u = Some (ht', 0) \<and> bs ! i = xs @ ys \<and>
      xs = takeWhile (\<lambda>p. rv ht p \<le> n_reversed e) (bs ! i) \<and> mp_links ht' (bs[i := xs @ u # ys]) fs [] \<and>
      mp_frame (insert u (set (concat bs))) ht ht'"
proof -
  note D = mp_linksD [OF L]
  have c: "dchain (nx ht) (pv ht) NULL (table_buckets ht ! i) (bs ! i)" using D(2,3) i by simp
  have srt: "sorted (map (rv ht) (bs ! i))" using V i by (simp add: mp_vals_def)
  have u: "u \<notin> set (bs ! i)" "u \<noteq> NULL" using D(5,8) i by auto
  have A: "insert u (set (concat bs)) \<subseteq> dom (bucket_nodes ht)" using D(6) by auto
  have t: "i < length (table_buckets ht)" using i D(2) by simp
  note scan = mp_insert_scan_run [OF dchain_chain [OF c] srt, of e NULL]
  show ?thesis
  proof (cases "\<exists>p\<in>set (bs ! i). rv ht p = n_reversed e \<and> \<not> cmp_differs ht (n_data e) (dt ht p)")
    case True
    then have "table_buckets ht ! i \<noteq> NULL" using c by (cases "bs ! i") auto
    with True scan e u t show ?thesis by (simp add: mp_list_insert_def node_def)
  next
    case False
    define xs where "xs = takeWhile (\<lambda>p. rv ht p \<le> n_reversed e) (bs ! i)"
    define ys where "ys = dropWhile (\<lambda>p. rv ht p \<le> n_reversed e) (bs ! i)"
    have bi: "bs ! i = xs @ ys" by (simp add: xs_def ys_def)
    have scan': "mp_insert_scan ht e (table_buckets ht ! i) NULL = Some (Some (last (NULL # xs)))"
      using scan False by (simp add: xs_def)
    have "\<exists>ht'. mp_list_insert ht i u = Some (ht', 0) \<and> mp_links ht' (bs[i := xs @ u # ys]) fs [] \<and>
      mp_frame (insert u (set (concat bs))) ht ht'"
    proof (cases xs rule: rev_cases)
      case Nil
      define h where "h = (\<lambda>p. if p = u then Some (e\<lparr>n_next := table_buckets ht ! i\<rparr>)
        else if p = table_buckets ht ! i \<and> p \<noteq> NULL then map_option (\<lambda>f. f\<lparr>n_prev := u\<rparr>) (bucket_nodes ht p)
        else bucket_nodes ht p)"
      let ?ht = "ht\<lparr>bucket_nodes := h, table_buckets := (table_buckets ht)[i := u]\<rparr>"
      have links: "mp_links ?ht (bs[i := u # bs ! i]) fs []"
        by (rule mp_insert_head [OF L i e z h_def])
      have fr: "mp_frame (insert u (set (concat bs))) ht ?ht"
        by (rule mp_frame_links [OF _ A]) (use e in \<open>auto simp: h_def option.map_comp comp_def\<close>)
      have "mp_list_insert ht i u = Some (?ht, 0)"
      proof (cases "table_buckets ht ! i = NULL")
        case True
        have "e\<lparr>n_next := NULL\<rparr> = e" using z by (cases e) simp
        then have "h = bucket_nodes ht" using True e by (auto simp: h_def)
        then show ?thesis using True t by (simp add: mp_list_insert_def)
      next
        case False
        then have "table_buckets ht ! i \<in> set (bs ! i)" using c by (cases "bs ! i") auto
        then obtain f where f: "bucket_nodes ht (table_buckets ht ! i) = Some f" "table_buckets ht ! i \<noteq> u"
          using dchain_nodes [OF c] u by force
        have "h = (bucket_nodes ht)(u \<mapsto> e\<lparr>n_next := table_buckets ht ! i\<rparr>, table_buckets ht ! i \<mapsto> f\<lparr>n_prev := u\<rparr>)"
          using f False by (auto simp: h_def)
        then show ?thesis
          using False t e u f scan' Nil by (simp add: mp_list_insert_def node_def set_node_def)
      qed
      then show ?thesis using links fr Nil bi by auto
    next
      case (snoc zs a)
      have ain: "a \<in> set (bs ! i)" using bi snoc by simp
      then obtain l where l: "bucket_nodes ht a = Some l" "a \<noteq> NULL" using dchain_nodes [OF c] by force
      have au: "a \<noteq> u" using ain u by auto
      define h where "h = (\<lambda>p. if p = u then Some (e\<lparr>n_prev := a, n_next := n_next l\<rparr>)
        else if p = a then Some (l\<lparr>n_next := u\<rparr>)
        else if p = n_next l \<and> p \<noteq> NULL then map_option (\<lambda>f. f\<lparr>n_prev := u\<rparr>) (bucket_nodes ht p)
        else bucket_nodes ht p)"
      have bi': "bs ! i = zs @ a # ys" using bi snoc by simp
      have links: "mp_links (ht\<lparr>bucket_nodes := h\<rparr>) (bs[i := zs @ a # u # ys]) fs []"
        by (rule mp_insert_after [OF L i e z(2) bi' l(1) h_def])
      have fr: "mp_frame (insert u (set (concat bs))) ht (ht\<lparr>bucket_nodes := h\<rparr>)"
        using mp_frame_links [OF _ A, of h "table_buckets ht"] e l by (auto simp: h_def option.map_comp comp_def)
      have hd: "table_buckets ht ! i \<noteq> NULL" using c ain by (cases "bs ! i") auto
      have s: "dchain (nx ht) (pv ht) a (n_next l) ys" using c l unfolding bi' by (auto simp: dchain_append)
      have d: "a \<notin> set ys" using dchain_distinct [OF c] bi' by simp
      have "mp_list_insert ht i u = Some (ht\<lparr>bucket_nodes := h\<rparr>, 0)"
      proof (cases "n_next l = NULL")
        case True
        have "e\<lparr>n_prev := a, n_next := NULL\<rparr> = e\<lparr>n_prev := a\<rparr>" using z by (cases e) simp
        then have "h = (bucket_nodes ht)(u \<mapsto> e\<lparr>n_prev := a\<rparr>, a \<mapsto> l\<lparr>n_next := u\<rparr>)"
          using True au by (auto simp: h_def)
        then show ?thesis
          using True t e u l au hd scan' snoc by (simp add: mp_list_insert_def node_def set_node_def)
      next
        case False
        with s have "n_next l \<in> set ys" by (cases ys) auto
        then obtain f where f: "bucket_nodes ht (n_next l) = Some f" "n_next l \<noteq> u" "n_next l \<noteq> a"
          using dchain_nodes [OF s] u d bi' by force
        have "h = (bucket_nodes ht)(u \<mapsto> e\<lparr>n_prev := a\<rparr>, n_next l \<mapsto> f\<lparr>n_prev := u\<rparr>,
            u \<mapsto> e\<lparr>n_prev := a, n_next := n_next l\<rparr>, a \<mapsto> l\<lparr>n_next := u\<rparr>)"
          using False f au by (auto simp: h_def)
        then show ?thesis
          using False t e u l au hd f scan' snoc by (simp add: mp_list_insert_def node_def set_node_def)
      qed
      then show ?thesis using links fr snoc by auto
    qed
    then show ?thesis
      unfolding if_not_P [OF False] using bi xs_def by (elim exE conjE) (intro exI conjI; assumption)
  qed
qed

lemma mp_list_delete_run:
  assumes L: "mp_links ht bs fs []" and V: "mp_vals ht bs" and i: "i < length bs"
  shows "case List.find (\<lambda>p. rv ht p = r \<and> \<not> cmp_differs ht data (dt ht p)) (bs ! i) of
      None \<Rightarrow> mp_list_delete ht i data r = Some (ht, NULL)
    | Some u \<Rightarrow> \<exists>ht' xs ys. mp_list_delete ht i data r = Some (ht', u) \<and> bs ! i = xs @ u # ys \<and>
        mp_links ht' (bs[i := xs @ ys]) fs [u] \<and> mp_frame (set (concat bs)) ht ht'"
proof (cases "List.find (\<lambda>p. rv ht p = r \<and> \<not> cmp_differs ht data (dt ht p)) (bs ! i)")
  note D = mp_linksD [OF L]
  have ch: "dchain (nx ht) (pv ht) NULL (table_buckets ht ! i) (bs ! i)" using D(2,3) i by simp
  have srt: "sorted (map (rv ht) (bs ! i))" using V i by (simp add: mp_vals_def)
  have t: "i < length (table_buckets ht)" using i D(2) by simp
  note find = mp_list_find_run [OF dchain_chain [OF ch] srt, of data r]
  {
    case None
    with find t show ?thesis by (simp add: mp_list_delete_def)
  next
    case (Some u)
    have A: "set (concat bs) \<subseteq> dom (bucket_nodes ht)" using D(6) by auto
    from Some have uin: "u \<in> set (bs ! i)" by (auto simp: find_Some_iff)
    then obtain xs ys where bi: "bs ! i = xs @ u # ys" by (meson split_list)
    from uin obtain c where c: "bucket_nodes ht u = Some c" "u \<noteq> NULL" using dchain_nodes [OF ch] by force
    have pu: "n_prev c = last (NULL # xs)" and s: "dchain (nx ht) (pv ht) u (n_next c) ys"
      using ch c unfolding bi by (auto simp: dchain_append)
    have d: "distinct (xs @ u # ys)" using dchain_distinct [OF ch] bi by simp
    have nz: "p \<noteq> NULL \<and> (\<exists>f. bucket_nodes ht p = Some f)" if "p \<in> set (bs ! i)" for p
      using dchain_nodes [OF ch that] by auto
    have cin: "n_next c = NULL \<and> ys = [] \<or> n_next c \<in> set ys" using s by (cases ys) auto
    define h where "h = (\<lambda>p. if p = u then Some (c\<lparr>n_prev := NULL, n_next := NULL\<rparr>)
        else if xs \<noteq> [] \<and> p = last xs then map_option (\<lambda>f. f\<lparr>n_next := n_next c\<rparr>) (bucket_nodes ht p)
        else if p = n_next c \<and> p \<noteq> NULL then map_option (\<lambda>f. f\<lparr>n_prev := n_prev c\<rparr>) (bucket_nodes ht p)
        else bucket_nodes ht p)"
    define q where "q = (if xs = [] then n_next c else table_buckets ht ! i)"
    let ?ht = "ht\<lparr>bucket_nodes := h, table_buckets := (table_buckets ht)[i := q]\<rparr>"
    have lx: "last xs \<in> set xs" if "xs \<noteq> []" using that by simp
    have ly: "last xs \<notin> set ys" if "xs \<noteq> []" using lx [OF that] d by auto
    have new: "dchain (map_option n_next \<circ> h) (map_option n_prev \<circ> h) NULL q (xs @ ys)"
    proof (rule dchain_unlink [OF ch [unfolded bi]])
      show "(map_option n_next \<circ> h) (last xs) = Some (n_next c)" if "xs \<noteq> []"
        using that d lx nz [of "last xs"] bi by (auto simp: h_def)
      show "(map_option n_next \<circ> h) x = map_option n_next (bucket_nodes ht x)"
        if "x \<in> set xs \<union> set ys" "xs = [] \<or> x \<noteq> last xs" for x
        using that d by (auto simp: h_def option.map_comp comp_def)
      show "(map_option n_prev \<circ> h) (n_next c) = Some (last (NULL # xs))" if "n_next c \<noteq> NULL"
        using that cin d lx ly nz [of "n_next c"] pu bi by (auto simp: h_def)
      show "(map_option n_prev \<circ> h) x = map_option n_prev (bucket_nodes ht x)"
        if "x \<in> set xs \<union> set ys" "x \<noteq> n_next c" for x
        using that d by (auto simp: h_def option.map_comp comp_def)
    qed (use c in \<open>simp_all add: q_def\<close>)
    have "mp_links ?ht (bs[i := xs @ ys]) fs [u]"
    proof (rule mp_links_bucket [OF L i new])
      show "dom h = dom (bucket_nodes ht)" using c by (auto simp: h_def split: if_splits)
      show "h p = bucket_nodes ht p" if "p \<notin> set [] \<union> set (bs ! i)" for p
        using that cin bi lx by (auto simp: h_def)
    qed (simp add: bi)
    moreover have "mp_frame (set (concat bs)) ht ?ht"
      by (rule mp_frame_links [OF _ A]) (use c in \<open>auto simp: h_def option.map_comp comp_def\<close>)
    moreover have "mp_list_delete ht i data r = Some (?ht, u)"
    proof -
      have nxt: "n_next c = NULL \<or> (n_next c \<noteq> NULL \<and> n_next c \<noteq> u \<and> (xs = [] \<or> n_next c \<noteq> last xs) \<and>
          (\<exists>f. bucket_nodes ht (n_next c) = Some f))"
        using cin d nz [of "n_next c"] bi ly by auto
      have fnd: "mp_list_find ht (table_buckets ht ! i) data r = Some u" using find Some by simp
      show ?thesis
      proof (cases "xs = []")
        case True
        with nxt show ?thesis
          using fnd c t pu
          by (auto simp: mp_list_delete_def node_def set_node_def h_def q_def fun_eq_iff Let_def)
      next
        case False
        have "u \<notin> set xs" using d by simp
        then have lu: "last xs \<noteq> u" using lx [OF False] by metis
        from False obtain f where f: "bucket_nodes ht (last xs) = Some f" "last xs \<noteq> NULL"
          using nz [of "last xs"] bi by auto
        have "(table_buckets ht)[i := q] = table_buckets ht" using False by (simp add: q_def)
        with False nxt f lu show ?thesis
          using fnd c t pu
          by (auto simp: mp_list_delete_def node_def set_node_def h_def fun_eq_iff Let_def)
      qed
    qed
    ultimately show ?thesis
      unfolding Some option.case using bi by blast
  }
qed

section \<open>The values of a changed table\<close>

lemma mp_vals_delete:
  assumes "mp_vals ht bs" and "i < length bs" and "bs ! i = xs @ u # ys"
  shows "mp_vals ht (bs[i := xs @ ys])"
proof -
  have "mset (concat bs) = add_mset u (mset (concat (bs[i := xs @ ys])))"
    using mset_concat_replace [OF assms(2), of "xs @ ys"] by (simp add: assms(3))
  then have "set (concat (bs[i := xs @ ys])) \<subseteq> set (concat bs)"
    using arg_cong [of _ _ set_mset] by (metis set_mset_add_mset_insert set_mset_mset subset_insertI)
  moreover have "sorted (map (rv ht) (bs[i := xs @ ys] ! j)) \<and> (\<forall>p\<in>set (bs[i := xs @ ys] ! j). dt ht p \<noteq> NULL \<and>
        rv ht p = reverse (mp_hashf ht (dt ht p)) \<and> unat (mp_hashf ht (dt ht p) mod mp_mask ht) = j)"
    if "j < length bs" for j
    using assms that unfolding mp_vals_def by (cases "j = i") (auto simp: sorted_append)
  ultimately show ?thesis using assms(1) unfolding mp_vals_def by (auto simp del: set_concat) blast
qed

lemma mp_vals_insert:
  assumes V: "mp_vals ht bs" and i: "i < length bs" and bi: "bs ! i = xs @ ys"
    and xs: "xs = takeWhile (\<lambda>p. rv ht p \<le> rv ht u) (bs ! i)"
    and u: "dt ht u \<noteq> NULL" "rv ht u = reverse (mp_hashf ht (dt ht u))" "unat (mp_hashf ht (dt ht u) mod mp_mask ht) = i"
    and nd: "\<And>p. p \<in> set (concat bs) \<Longrightarrow> \<not> same (mp_hashf ht) (mp_cmp ht) (dt ht u) (dt ht p) \<and>
        \<not> same (mp_hashf ht) (mp_cmp ht) (dt ht p) (dt ht u)"
  shows "mp_vals ht (bs[i := xs @ u # ys])"
proof -
  have srt: "sorted (map (rv ht) (xs @ ys))" using V i bi by (metis mp_vals_def)
  have ys: "ys = dropWhile (\<lambda>p. rv ht p \<le> rv ht u) (bs ! i)"
    using bi xs by (metis append_same_eq takeWhile_dropWhile_id same_append_eq)
  have lo: "rv ht p \<le> rv ht u" if "p \<in> set xs" for p using that xs by (auto dest: set_takeWhileD)
  have hi: "rv ht u \<le> rv ht p" if "p \<in> set ys" for p
  proof (cases ys)
    case (Cons y zs)
    then have "\<not> rv ht y \<le> rv ht u" using ys by (metis dropWhile_eq_Cons_conv)
    moreover have "rv ht y \<le> rv ht p" using srt that Cons by (auto simp: sorted_append)
    ultimately show ?thesis by simp
  qed (use that in simp)
  have sorted: "sorted (map (rv ht) (xs @ u # ys))"
    using srt lo hi by (auto simp: sorted_append intro: order_trans)
  have st: "set (concat (bs[i := xs @ u # ys])) = insert u (set (concat bs))"
    by (rule concat_insert(1)) (use i bi in auto)
  have "sorted (map (rv ht) (bs[i := xs @ u # ys] ! j)) \<and> (\<forall>p\<in>set (bs[i := xs @ u # ys] ! j). dt ht p \<noteq> NULL \<and>
        rv ht p = reverse (mp_hashf ht (dt ht p)) \<and> unat (mp_hashf ht (dt ht p) mod mp_mask ht) = j)"
    if j: "j < length bs" for j
  proof (cases "j = i")
    case True
    have "dt ht p \<noteq> NULL \<and> rv ht p = reverse (mp_hashf ht (dt ht p)) \<and>
        unat (mp_hashf ht (dt ht p) mod mp_mask ht) = i" if "p \<in> set (bs ! i)" for p
      using V i that unfolding mp_vals_def by blast
    then show ?thesis using True sorted u i bi by auto
  next
    case False
    then show ?thesis using V j unfolding mp_vals_def by simp
  qed
  moreover have "\<not> same (mp_hashf ht) (mp_cmp ht) (dt ht p) (dt ht q)"
    if "p \<in> insert u (set (concat bs))" "q \<in> insert u (set (concat bs))" "p \<noteq> q" for p q
    using that nd V unfolding mp_vals_def by blast
  ultimately show ?thesis unfolding mp_vals_def st by simp
qed

end
