(* ===== verification/MphashTable.thy ===== *)
theory MphashTable
  imports MphashSpec
begin

text \<open>
  The operations of \<open>mphash.c\<close> on the whole table: creation, insertion, deletion, lookup, walking
  and freeing, as operations on the set of stored elements.
\<close>

section \<open>Insertion, deletion and lookup\<close>

lemma equal_in_bucket:
  assumes V: "mp_vals ht bs" and i: "i = unat (mp_hashf ht data mod mp_mask ht)" "i < length bs"
  shows "(\<exists>p\<in>set (bs ! i). rv ht p = reverse (mp_hashf ht data) \<and> \<not> cmp_differs ht data (dt ht p)) \<longleftrightarrow>
    (\<exists>p\<in>set (concat bs). same (mp_hashf ht) (mp_cmp ht) data (dt ht p))"
proof -
  have eq: "rv ht p = reverse (mp_hashf ht data) \<and> \<not> cmp_differs ht data (dt ht p) \<longleftrightarrow>
      same (mp_hashf ht) (mp_cmp ht) data (dt ht p)" if "j < length bs" "p \<in> set (bs ! j)" for j p
    using V that unfolding mp_vals_def
    by (auto simp: inj_reverse same_def cmp_differs_def split: option.splits)
  have "j = i" if "j < length bs" "p \<in> set (bs ! j)" "same (mp_hashf ht) (mp_cmp ht) data (dt ht p)" for j p
    using V that i(1) unfolding mp_vals_def by (auto simp: same_def)
  then have "(\<exists>p\<in>set (concat bs). same (mp_hashf ht) (mp_cmp ht) data (dt ht p)) \<longleftrightarrow>
      (\<exists>p\<in>set (bs ! i). same (mp_hashf ht) (mp_cmp ht) data (dt ht p))"
    using i(2) unfolding Bex_def in_concat_nth by fast
  then show ?thesis using eq [OF i(2)] by auto
qed

lemma dt_cong_elems: "mp_frame (set xs) ht ht' \<Longrightarrow> map (dt ht') xs = map (dt ht) xs"
  by (simp add: mp_frame_def)

text \<open>The part of \<open>mp_hash_table_insert\<close> before the list insertion: a free node \<open>u\<close> is detached and filled.\<close>

lemma insert_start:
  assumes R: "mp_rep ht bs fs" and data: "data \<noteq> NULL" and room: "num_elements ht < num_buckets ht"
  defines "i \<equiv> unat (mp_hashf ht data mod mp_mask ht)"
  obtains u fs' e ht2 where "mp_links ht2 bs fs' [u]" and "mp_vals ht2 bs" and "mp_frame (set (concat bs)) ht ht2"
    and "bucket_nodes ht2 u = Some e" and "n_prev e = NULL" and "n_next e = NULL" and "n_data e = data"
    and "n_reversed e = reverse (mp_hashf ht data)" and "i < length bs"
    and "map (dt ht2) (concat bs) = mp_elems ht"
    and "mp_hash_table_insert ht data = do {
          (ht, r) \<leftarrow> mp_list_insert ht2 i u;
          if r \<noteq> 0 then do { ht \<leftarrow> mp_put_free_entry ht u; Some (ht, -1) }
          else Some (ht\<lparr>num_elements := num_elements ht + 1\<rparr>, 0) }"
proof -
  from R have L: "mp_links ht bs fs []" and V: "mp_vals ht bs"
    and N: "unat (num_elements ht) = length (concat bs)" by (simp_all add: mp_rep_def)
  note D = mp_linksD [OF L]
  let ?h = "mp_hashf ht data"
  have i: "i < length bs" using mp_shape_pos(2) [OF D(1)] D(2) by (simp add: i_def)
  have "length (concat bs) < length (fs @ concat bs)"
    using room N D(7) by (simp add: word_less_nat_alt)
  then obtain u fs' where fs: "fs = u # fs'" by (cases fs) auto
  from mp_get_free_entry_run [OF L [unfolded fs]] obtain ht1 e1 where g:
      "mp_get_free_entry ht = Some (ht1, u)" "mp_links ht1 bs fs' [u]" "mp_frame (set (concat bs)) ht ht1"
      "bucket_nodes ht1 u = Some e1" "n_prev e1 = NULL" "n_next e1 = NULL" by blast
  define e where "e = e1\<lparr>n_data := data, n_key := ?h, n_reversed := reverse ?h\<rparr>"
  define ht2 where "ht2 = ht1\<lparr>bucket_nodes := (bucket_nodes ht1)(u \<mapsto> e)\<rparr>"
  have u0: "u \<noteq> NULL" using mp_linksD(8) [OF g(2)] by auto
  have s: "set_node ht1 u (\<lambda>e. e\<lparr>n_data := data, n_key := ?h, n_reversed := reverse ?h\<rparr>) = Some ht2"
    using set_node_run [OF g(4) u0] by (simp add: e_def ht2_def)
  have L2: "mp_links ht2 bs fs' [u]" and F12: "mp_frame (set (concat bs)) ht1 ht2"
    using mp_set_detached [OF g(2,4)] by (simp_all add: ht2_def)
  note F2 = mp_frame_trans [OF g(3) F12]
  have room': "\<not> num_buckets ht \<le> num_elements ht" using room by (simp only: linorder_not_le)
  show thesis
  proof (rule that [OF L2 _ F2])
    show "mp_vals ht2 bs" by (rule mp_vals_frame [OF V F2]) simp
    show "bucket_nodes ht2 u = Some e" by (simp add: ht2_def)
    show "map (dt ht2) (concat bs) = mp_elems ht"
      using dt_cong_elems [OF F2] mp_inv_elems [OF R] by simp
  qed (use i data room' mp_shape_pos(1) [OF D(1)] g u0 s in
      \<open>simp_all add: e_def mp_hash_table_insert_def i_def\<close>)
qed

context mp_callbacks
begin

lemma insert_ok:
  assumes R: "mp_rep ht bs fs" and T: "mp_hashf ht = h" "mp_cmp ht = c" and data: "data \<noteq> NULL"
    and room: "num_elements ht < num_buckets ht"
    and fresh: "\<not> (\<exists>x\<in>set (mp_elems ht). same h c data x)"
  shows "\<exists>ht'. mp_hash_table_insert ht data = Some (ht', 0) \<and> mp_inv ht' \<and>
    mset (mp_elems ht') = add_mset data (mset (mp_elems ht)) \<and> mp_hashf ht' = h \<and> mp_cmp ht' = c \<and>
    num_elements ht' = num_elements ht + 1 \<and> mp_free ht' = mp_free ht \<and> freed ht' = freed ht \<and>
    num_buckets ht' = num_buckets ht"
proof -
  let ?i = "unat (h data mod mp_mask ht)"
  obtain u fs' e ht2 where L2: "mp_links ht2 bs fs' [u]" and V2: "mp_vals ht2 bs"
    and F2: "mp_frame (set (concat bs)) ht ht2" and e2: "bucket_nodes ht2 u = Some e" "n_prev e = NULL"
      "n_next e = NULL" "n_data e = data" "n_reversed e = reverse (h data)" and i: "?i < length bs"
    and el: "map (dt ht2) (concat bs) = mp_elems ht"
    and start: "mp_hash_table_insert ht data = do {
          (ht, r) \<leftarrow> mp_list_insert ht2 ?i u;
          if r \<noteq> 0 then do { ht \<leftarrow> mp_put_free_entry ht u; Some (ht, -1) }
          else Some (ht\<lparr>num_elements := num_elements ht + 1\<rparr>, 0) }"
    by (rule insert_start [OF R data room, unfolded T]) (rule that; assumption)
  have T2: "mp_hashf ht2 = h" "mp_cmp ht2 = c" "mp_mask ht2 = mp_mask ht" using F2 T by (simp_all add: mp_frame_def)
  have nomatch: "\<not> (\<exists>p\<in>set (concat bs). same h c data (dt ht2 p))"
    using fresh unfolding el [symmetric] by auto
  have nodup: "\<not> (\<exists>p\<in>set (bs ! ?i). rv ht2 p = n_reversed e \<and> \<not> cmp_differs ht2 (n_data e) (dt ht2 p))"
    using equal_in_bucket [OF V2, of ?i data] i nomatch T2 e2 by auto
  from mp_list_insert_run [OF L2 V2 i e2(1-3), unfolded if_not_P [OF nodup]] obtain ht3 xs ys where li:
      "mp_list_insert ht2 ?i u = Some (ht3, 0)" "bs ! ?i = xs @ ys"
      "xs = takeWhile (\<lambda>p. rv ht2 p \<le> n_reversed e) (bs ! ?i)"
      "mp_links ht3 (bs[?i := xs @ u # ys]) fs' []" "mp_frame (insert u (set (concat bs))) ht2 ht3" by blast
  have du: "dt ht2 u = data" "rv ht2 u = reverse (h data)" using e2 by (simp_all add: dt_def rv_def)
  have "mp_vals ht2 (bs[?i := xs @ u # ys])"
  proof (rule mp_vals_insert [OF V2 i li(2)])
    show "\<not> same (mp_hashf ht2) (mp_cmp ht2) (dt ht2 u) (dt ht2 p) \<and>
        \<not> same (mp_hashf ht2) (mp_cmp ht2) (dt ht2 p) (dt ht2 u)" if "p \<in> set (concat bs)" for p
      using nomatch that T2 du same_sym by auto
  qed (use li(3) du e2 T2 data in auto)
  moreover have st: "set (concat (bs[?i := xs @ u # ys])) = insert u (set (concat bs))"
      and ln: "length (concat (bs[?i := xs @ u # ys])) = Suc (length (concat bs))"
    by (rule concat_insert; use i li(2) in simp)+
  ultimately have V3: "mp_vals ht3 (bs[?i := xs @ u # ys])"
    using mp_vals_frame [OF _ li(5)] by (simp del: set_concat)
  let ?ht = "ht3\<lparr>num_elements := num_elements ht3 + 1\<rparr>"
  have T3: "mp_hashf ht3 = h" "mp_cmp ht3 = c" "num_elements ht3 = num_elements ht" "mp_free ht3 = mp_free ht"
      "freed ht3 = freed ht" "num_buckets ht3 = num_buckets ht"
    using li(5) F2 T by (simp_all add: mp_frame_def)
  have run: "mp_hash_table_insert ht data = Some (?ht, 0)"
    using start li(1) by simp
  have "unat (num_elements ht + 1) = Suc (length (concat bs))"
    using room R [unfolded mp_rep_def] unat_bound [of "num_buckets ht"] by (simp add: word_less_nat_alt unat_word_ariths)
  then have rep: "mp_rep ?ht (bs[?i := xs @ u # ys]) fs'"
    using li(4) V3 ln T3 unfolding mp_rep_def mp_links_def mp_vals_def mp_shape_def rv_def dt_def by simp
  have "mset (concat (bs[?i := xs @ u # ys])) = add_mset u (mset (concat bs))"
    by (rule mset_concat_update) (use i li(2) in auto)
  then have "mset (map (dt ht3) (concat (bs[?i := xs @ u # ys]))) = add_mset (dt ht3 u) (mset (map (dt ht3) (concat bs)))"
    by (simp only: mset_map) simp
  moreover have "mp_frame (set (concat bs)) ht2 ht3" using li(5) by (simp add: mp_frame_def)
  from dt_cong_elems [OF this] el have "map (dt ht3) (concat bs) = mp_elems ht" by simp
  moreover have "dt ht3 u = data" using li(5) du by (simp add: mp_frame_def)
  moreover have "dt ?ht = dt ht3" by (rule ext) (simp add: dt_def)
  ultimately have "mset (mp_elems ?ht) = add_mset data (mset (mp_elems ht))"
    using mp_inv_elems [OF rep] by simp
  moreover have "mp_inv ?ht" using rep mp_inv_rep by blast
  ultimately show ?thesis using run T3 by auto
qed

lemma insert_refused:
  assumes R: "mp_rep ht bs fs" and T: "mp_hashf ht = h" "mp_cmp ht = c"
    and no: "data = NULL \<or> num_elements ht \<ge> num_buckets ht \<or> (\<exists>x\<in>set (mp_elems ht). same h c data x)"
  shows "\<exists>ht'. mp_hash_table_insert ht data = Some (ht', -1) \<and> mp_inv ht' \<and> mp_elems ht' = mp_elems ht \<and>
    mp_hashf ht' = h \<and> mp_cmp ht' = c \<and> num_elements ht' = num_elements ht \<and> freed ht' = freed ht \<and>
    mp_free ht' = mp_free ht"
proof (cases "data = NULL \<or> num_elements ht \<ge> num_buckets ht")
  case True
  then show ?thesis using T R mp_inv_rep by (auto simp: mp_hash_table_insert_def)
next
  case False
  then have data: "data \<noteq> NULL" and room: "num_elements ht < num_buckets ht"
    and dup: "\<exists>x\<in>set (mp_elems ht). same h c data x" using no by auto
  let ?i = "unat (h data mod mp_mask ht)"
  obtain u fs' e ht2 where L2: "mp_links ht2 bs fs' [u]" and V2: "mp_vals ht2 bs"
    and F2: "mp_frame (set (concat bs)) ht ht2" and e2: "bucket_nodes ht2 u = Some e" "n_prev e = NULL"
      "n_next e = NULL" "n_data e = data" "n_reversed e = reverse (h data)" and i: "?i < length bs"
    and el: "map (dt ht2) (concat bs) = mp_elems ht"
    and start: "mp_hash_table_insert ht data = do {
          (ht, r) \<leftarrow> mp_list_insert ht2 ?i u;
          if r \<noteq> 0 then do { ht \<leftarrow> mp_put_free_entry ht u; Some (ht, -1) }
          else Some (ht\<lparr>num_elements := num_elements ht + 1\<rparr>, 0) }"
    by (rule insert_start [OF R data room, unfolded T]) (rule that; assumption)
  have T2: "mp_hashf ht2 = h" "mp_cmp ht2 = c" "mp_mask ht2 = mp_mask ht" using F2 T by (simp_all add: mp_frame_def)
  have match: "\<exists>p\<in>set (concat bs). same h c data (dt ht2 p)"
    using dup unfolding el [symmetric] by auto
  have isdup: "\<exists>p\<in>set (bs ! ?i). rv ht2 p = n_reversed e \<and> \<not> cmp_differs ht2 (n_data e) (dt ht2 p)"
    using equal_in_bucket [OF V2, of ?i data] i match T2 e2 by auto
  have li: "mp_list_insert ht2 ?i u = Some (ht2, -1)"
    using mp_list_insert_run [OF L2 V2 i e2(1-3), unfolded if_P [OF isdup]] .
  from mp_put_free_entry_run [OF L2] obtain ht3 where p:
      "mp_put_free_entry ht2 u = Some ht3" "mp_links ht3 bs (u # fs') []" "mp_frame (set (concat bs)) ht2 ht3" by blast
  note F3 = mp_frame_trans [OF F2 p(3)]
  have T3: "mp_hashf ht3 = h" "mp_cmp ht3 = c" "num_elements ht3 = num_elements ht" "freed ht3 = freed ht" "mp_free ht3 = mp_free ht"
    using F3 T by (simp_all add: mp_frame_def)
  have run: "mp_hash_table_insert ht data = Some (ht3, -1)"
    using start li p(1) by simp
  have rep: "mp_rep ht3 bs (u # fs')"
    using p(2) mp_vals_frame [OF _ F3] R T3 by (simp add: mp_rep_def)
  moreover have "mp_elems ht3 = mp_elems ht"
    using mp_inv_elems [OF rep] mp_inv_elems [OF R] dt_cong_elems [OF F3] by simp
  ultimately show ?thesis using run T3 mp_inv_rep by blast
qed

text \<open>The element of the table equal to \<open>data\<close>, if any.\<close>

lemma find_match:
  assumes R: "mp_rep ht bs fs" and T: "mp_hashf ht = h" "mp_cmp ht = c"
    and i: "i = unat (h data mod mp_mask ht)"
  defines "f \<equiv> List.find (\<lambda>p. rv ht p = reverse (h data) \<and> \<not> cmp_differs ht data (dt ht p)) (bs ! i)"
  shows "case f of None \<Rightarrow> \<not> (\<exists>x\<in>set (mp_elems ht). same h c data x)
    | Some p \<Rightarrow> p \<in> set (bs ! i) \<and> same h c data (dt ht p) \<and> dt ht p \<noteq> NULL"
proof -
  have L: "mp_links ht bs fs []" and V: "mp_vals ht bs" using R by (simp_all add: mp_rep_def)
  have il: "i < length bs" using mp_shape_pos(2) [OF mp_linksD(1) [OF L]] mp_linksD(2) [OF L] i by simp
  note eq = equal_in_bucket [OF V, of i data, unfolded T, OF i il]
  show ?thesis
  proof (cases f)
    case None
    then have "\<not> (\<exists>p\<in>set (bs ! i). rv ht p = reverse (h data) \<and> \<not> cmp_differs ht data (dt ht p))"
      by (auto simp: f_def find_None_iff)
    with None eq mp_inv_elems [OF R] show ?thesis by auto
  next
    case (Some p)
    then have p: "p \<in> set (bs ! i)" "rv ht p = reverse (h data)" "\<not> cmp_differs ht data (dt ht p)"
      by (auto simp: f_def find_Some_iff)
    have q: "dt ht p \<noteq> NULL" "rv ht p = reverse (h (dt ht p))" using V il p(1) T unfolding mp_vals_def by auto
    then have "same h c data (dt ht p)"
      using p T by (auto simp: same_def cmp_differs_def inj_reverse split: option.splits)
    with Some p q show ?thesis by simp
  qed
qed

lemma find_spec:
  assumes R: "mp_rep ht bs fs" and T: "mp_hashf ht = h" "mp_cmp ht = c" and data: "data \<noteq> NULL"
  shows "\<exists>x. mp_hash_table_find ht data = Some x \<and>
    (if \<exists>y\<in>set (mp_elems ht). same h c data y then x \<in> set (mp_elems ht) \<and> same h c data x \<and> x \<noteq> NULL
     else x = NULL)"
proof -
  have L: "mp_links ht bs fs []" and V: "mp_vals ht bs" using R by (simp_all add: mp_rep_def)
  note D = mp_linksD [OF L]
  let ?i = "unat (h data mod mp_mask ht)"
  have i: "?i < length bs" using mp_shape_pos(2) [OF D(1)] D(2) by simp
  have ch: "dchain (nx ht) (pv ht) NULL (table_buckets ht ! ?i) (bs ! ?i)" using D(2,3) i by simp
  have srt: "sorted (map (rv ht) (bs ! ?i))" using V i by (simp add: mp_vals_def)
  note find = mp_list_find_run [OF dchain_chain [OF ch] srt, of data "reverse (h data)"]
  have run: "mp_hash_table_find ht data = do {
      entry \<leftarrow> mp_list_find ht (table_buckets ht ! ?i) data (reverse (h data));
      if entry = NULL then Some NULL else do { e \<leftarrow> node ht entry; Some (n_data e) } }"
    using data T mp_shape_pos(1) [OF D(1)] i D(2) by (simp add: mp_hash_table_find_def Let_def)
  note m = find_match [OF R T refl, of data]
  show ?thesis
  proof (cases "List.find (\<lambda>p. rv ht p = reverse (h data) \<and> \<not> cmp_differs ht data (dt ht p)) (bs ! ?i)")
    case None
    with m have "\<not> (\<exists>y\<in>set (mp_elems ht). same h c data y)" by simp
    with None find run show ?thesis by simp
  next
    case (Some p)
    with m have p: "p \<in> set (bs ! ?i)" "same h c data (dt ht p)" "dt ht p \<noteq> NULL" by simp_all
    then have "p \<in> set (concat bs)" unfolding in_concat_nth using i by blast
    then have "dt ht p \<in> set (mp_elems ht)" unfolding mp_inv_elems [OF R] by (simp only: set_map) blast
    moreover obtain e where "bucket_nodes ht p = Some e" "p \<noteq> NULL" using dchain_nodes [OF ch p(1)] by auto
    then have "mp_hash_table_find ht data = Some (dt ht p)"
      using run find Some by (simp add: node_def dt_def)
    ultimately show ?thesis using p(2,3) by auto
  qed
qed

lemma delete_spec:
  assumes R: "mp_rep ht bs fs" and T: "mp_hashf ht = h" "mp_cmp ht = c" and data: "data \<noteq> NULL"
  shows "if \<exists>y\<in>set (mp_elems ht). same h c data y
    then \<exists>ht' x. mp_hash_table_delete ht data = Some (ht', 0) \<and> mp_inv ht' \<and> same h c data x \<and>
      mset (mp_elems ht) = add_mset x (mset (mp_elems ht')) \<and> mp_hashf ht' = h \<and> mp_cmp ht' = c \<and>
      num_elements ht' = num_elements ht - 1 \<and> freed ht' = freed ht @ (if mp_free ht then [x] else []) \<and>
      num_buckets ht' = num_buckets ht
    else mp_hash_table_delete ht data = Some (ht, -1)"
proof -
  from R have L: "mp_links ht bs fs []" and V: "mp_vals ht bs"
    and N: "unat (num_elements ht) = length (concat bs)" by (simp_all add: mp_rep_def)
  note D = mp_linksD [OF L]
  let ?i = "unat (h data mod mp_mask ht)"
  have i: "?i < length bs" using mp_shape_pos(2) [OF D(1)] D(2) by simp
  have run: "mp_hash_table_delete ht data = do {
      (ht, entry) \<leftarrow> mp_list_delete ht ?i data (reverse (h data));
      if entry = NULL then Some (ht, -1)
      else do {
          e \<leftarrow> node ht entry;
          let ht = (if mp_free ht then ht\<lparr>freed := freed ht @ [n_data e]\<rparr> else ht);
          ht \<leftarrow> mp_put_free_entry ht entry;
          Some (ht\<lparr>num_elements := num_elements ht - 1\<rparr>, 0) } }"
    using data T mp_shape_pos(1) [OF D(1)] by (simp add: mp_hash_table_delete_def Let_def)
  note m = find_match [OF R T refl, of data]
  note del = mp_list_delete_run [OF L V i, where r = "reverse (h data)" and data = data]
  show ?thesis
  proof (cases "List.find (\<lambda>p. rv ht p = reverse (h data) \<and> \<not> cmp_differs ht data (dt ht p)) (bs ! ?i)")
    case None
    with m have "\<not> (\<exists>y\<in>set (mp_elems ht). same h c data y)" by simp
    with None del run show ?thesis by simp
  next
    case (Some u)
    with m have u: "u \<in> set (bs ! ?i)" "same h c data (dt ht u)" by simp_all
    have uin: "u \<in> set (concat bs)" unfolding in_concat_nth using i u(1) by blast
    have ex: "\<exists>y\<in>set (mp_elems ht). same h c data y"
      unfolding mp_inv_elems [OF R] set_map using u(2) uin by blast
    from del [unfolded Some option.case] obtain ht1 xs ys where d:
        "mp_list_delete ht ?i data (reverse (h data)) = Some (ht1, u)" "bs ! ?i = xs @ u # ys"
        "mp_links ht1 (bs[?i := xs @ ys]) fs [u]" "mp_frame (set (concat bs)) ht ht1" by blast
    let ?bs = "bs[?i := xs @ ys]"
    obtain e where e: "bucket_nodes ht1 u = Some e" "u \<noteq> NULL" using mp_links_node [OF d(3), of u] by auto
    have "dt ht1 u = dt ht u" using d(4) uin by (simp add: mp_frame_def del: set_concat)
    then have ed: "n_data e = dt ht u" using e(1) by (simp add: dt_def)
    define ht2 where "ht2 = (if mp_free ht1 then ht1\<lparr>freed := freed ht1 @ [n_data e]\<rparr> else ht1)"
    have h2: "bucket_nodes ht2 = bucket_nodes ht1" "table_buckets ht2 = table_buckets ht1"
        "free_buckets ht2 = free_buckets ht1" "num_buckets ht2 = num_buckets ht1" "mp_mask ht2 = mp_mask ht1"
        "mp_hashf ht2 = mp_hashf ht1" "mp_cmp ht2 = mp_cmp ht1" "num_elements ht2 = num_elements ht1"
      by (simp_all add: ht2_def)
    then have L2: "mp_links ht2 ?bs fs [u]" using d(3) by (simp add: mp_links_def mp_shape_def)
    from mp_put_free_entry_run [OF L2] obtain ht3 where p: "mp_put_free_entry ht2 u = Some ht3"
        "mp_links ht3 ?bs (u # fs) []" "mp_frame (set (concat ?bs)) ht2 ht3" by blast
    let ?ht = "ht3\<lparr>num_elements := num_elements ht3 - 1\<rparr>"
    have del_run: "mp_hash_table_delete ht data = Some (?ht, 0)"
      using run d(1) e p(1) by (simp add: node_def ht2_def Let_def)
    have mu: "mset (concat bs) = add_mset u (mset (concat ?bs))"
      using mset_concat_replace [OF i, of "xs @ ys"] d(2) by simp
    then have sub: "set (concat ?bs) \<subseteq> set (concat bs)"
      by (metis set_mset_add_mset_insert set_mset_mset subset_insertI)
    have F: "mp_frame (set (concat ?bs)) ht (ht3\<lparr>freed := freed ht\<rparr>)"
      using d(4) p(3) sub h2 by (auto simp: mp_frame_def rv_def dt_def ht2_def)
    have V1: "mp_vals ht ?bs" by (rule mp_vals_delete [OF V i d(2)])
    have "mp_vals (ht3\<lparr>freed := freed ht\<rparr>) ?bs" by (rule mp_vals_frame [OF V1 F]) simp
    moreover have "rv (ht3\<lparr>freed := freed ht\<rparr>) = rv ht3" "dt (ht3\<lparr>freed := freed ht\<rparr>) = dt ht3"
      by (auto simp: rv_def dt_def)
    ultimately have V3: "mp_vals ht3 ?bs" by (simp add: mp_vals_def)
    have T3: "mp_hashf ht3 = h" "mp_cmp ht3 = c" "num_elements ht3 = num_elements ht" "num_buckets ht3 = num_buckets ht"
      using F T by (simp_all add: mp_frame_def)
    have fr: "freed ht3 = freed ht @ (if mp_free ht then [dt ht u] else [])"
      using p(3) d(4) ed by (auto simp: mp_frame_def ht2_def)
    have len: "Suc (length (concat ?bs)) = length (concat bs)" using arg_cong [OF mu, of size] by simp
    then have "num_elements ht \<noteq> 0" using N by (metis nat.distinct(1) unat_0)
    then have "unat (num_elements ht - 1) = length (concat ?bs)"
      using unat_minus_one [of "num_elements ht"] N len [symmetric] by linarith
    then have rep: "mp_rep ?ht ?bs (u # fs)"
      using p(2) V3 T3 unfolding mp_rep_def mp_links_def mp_vals_def mp_shape_def rv_def dt_def by simp
    have "map (dt ?ht) (concat ?bs) = map (dt ht) (concat ?bs)"
      using F by (simp add: mp_frame_def dt_def)
    then have "mset (mp_elems ?ht) = image_mset (dt ht) (mset (concat ?bs))"
      unfolding mp_inv_elems [OF rep] by (simp only: mset_map)
    then have "mset (mp_elems ht) = add_mset (dt ht u) (mset (mp_elems ?ht))"
      unfolding mp_inv_elems [OF R] mset_map mu by simp
    moreover have "mp_inv ?ht" using rep mp_inv_rep by blast
    ultimately show ?thesis
      unfolding if_P [OF ex] using del_run u(2) T3 fr
      by (intro exI [of _ ?ht] exI [of _ "dt ht u"]) simp
  qed
qed

end

section \<open>Creation\<close>

lemma mp_link_loop_nodes:
  assumes "i \<le> n - 1"
  shows "mp_link_loop i (\<lambda>p. if 1 \<le> p \<and> p \<le> n then Some z else None) = (\<lambda>p. if 1 \<le> p \<and> p \<le> n
    then Some (z\<lparr>n_next := (if p \<le> i then p + 1 else n_next z), n_prev := (if 2 \<le> p \<and> p \<le> i + 1 then p - 1 else n_prev z)\<rparr>)
    else None)"
  using assms
proof (induction i)
  case 0
  then show ?case by (cases z) (auto simp: fun_eq_iff)
next
  case (Suc i)
  then have "mp_link_loop i (\<lambda>p. if 1 \<le> p \<and> p \<le> n then Some z else None) = (\<lambda>p. if 1 \<le> p \<and> p \<le> n
    then Some (z\<lparr>n_next := (if p \<le> i then p + 1 else n_next z), n_prev := (if 2 \<le> p \<and> p \<le> i + 1 then p - 1 else n_prev z)\<rparr>)
    else None)" by simp
  then show ?case
    using Suc.prems by (cases z) (auto simp: fun_eq_iff Let_def)
qed

lemma linked_nodes_dchain:
  assumes "\<And>p. 1 \<le> p \<Longrightarrow> p \<le> m \<Longrightarrow> n p = Some (if p < m then p + 1 else NULL)"
    and "\<And>p. 1 \<le> p \<Longrightarrow> p \<le> m \<Longrightarrow> b p = Some (p - 1)" and "1 \<le> k" and "k \<le> m"
  shows "dchain n b (k - 1) k [k..<Suc m]"
  using assms(3,4)
proof (induction "m - k" arbitrary: k)
  case 0
  then have "k = m" by simp
  with 0 assms(1,2) [of m] show ?case by simp
next
  case (Suc d)
  then have "dchain n b k (Suc k) [Suc k..<Suc m]" using Suc.hyps(1) [of "Suc k"] by simp
  moreover have "[k..<Suc m] = k # [Suc k..<Suc m]" using Suc by (simp add: upt_conv_Cons)
  moreover have "k < m" using Suc.hyps(2) by simp
  ultimately show ?case using assms(1,2) [of k] Suc.prems by simp
qed

lemma mp_size_loop_pow2:
  assumes "n \<le> 2 ^ 31" and "j \<le> 31" and "j = 0 \<or> (2 :: u32) ^ (j - 1) < n"
  shows "\<exists>k\<ge>j. k \<le> 31 \<and> mp_size_loop (2 ^ j) n = Some (2 ^ k) \<and> n \<le> 2 ^ k \<and> (k = 0 \<or> 2 ^ (k - 1) < n)"
  using assms
proof (induction "31 - j" arbitrary: j)
  case 0
  then have "j = 31" by simp
  moreover have "\<not> 2 ^ 31 < n" using 0 by (simp only: linorder_not_less)
  then have "mp_size_loop (2 ^ 31) n = Some (2 ^ 31)" by (subst mp_size_loop.simps) simp
  ultimately show ?case using 0 by blast
next
  case (Suc d)
  show ?case
  proof (cases "n \<le> 2 ^ j")
    case True
    then have "\<not> 2 ^ j < n" by (simp only: linorder_not_less)
    then have "mp_size_loop (2 ^ j) n = Some (2 ^ j)" by (subst mp_size_loop.simps) simp
    with True Suc.prems show ?thesis by blast
  next
    case False
    have "\<exists>k\<ge>Suc j. k \<le> 31 \<and> mp_size_loop (2 ^ Suc j) n = Some (2 ^ k) \<and> n \<le> 2 ^ k \<and> (k = 0 \<or> 2 ^ (k - 1) < n)"
      using Suc.hyps(2) Suc.prems False by (intro Suc.hyps(1)) auto
    moreover have "2 ^ j < n" using False by (simp only: linorder_not_le)
    then have "mp_size_loop (2 ^ j) n = mp_size_loop (2 ^ Suc j) n"
      by (subst mp_size_loop.simps) (simp add: push_bit_eq_mult mult.commute)
    ultimately show ?thesis by (metis Suc_leD)
  qed
qed

text \<open>A power of two is recognised, and the loop rounds up to the next one.\<close>

lemma is_power_of_2_pow:
  assumes "is_power_of_2 n"
  shows "\<exists>k\<le>31. n = 2 ^ k"
proof -
  have n: "n \<noteq> 0" "n AND (n - 1) = 0" using assms by (simp_all add: is_power_of_2_def)
  have "1 \<le> unat n" using n(1) by (simp add: Suc_le_eq unat_gt_0)
  then obtain k where k: "2 ^ k \<le> unat n" "unat n < 2 ^ (k + 1)" using ex_power_ivl1 [of 2 "unat n"] by auto
  have k31: "k < 32"
  proof (rule ccontr)
    assume "\<not> k < 32"
    then have "(2::nat) ^ 32 \<le> 2 ^ k" by (intro power_increasing) auto
    then show False using k(1) unat_bound [of n] by simp
  qed
  have bitk: "bit x k" if "2 ^ k \<le> unat x" "unat x < 2 ^ (k + 1)" for x :: u32
  proof -
    have "unat x div 2 ^ k = 1" using that by (intro div_nat_eqI) auto
    then have "bit (unat x) k" by (simp add: bit_iff_odd)
    then show ?thesis by (simp add: bit_unsigned_iff)
  qed
  have "unat n = 2 ^ k"
  proof (rule ccontr)
    assume "unat n \<noteq> 2 ^ k"
    moreover have "unat (n - 1) = unat n - 1" using n(1) by (rule unat_minus_one)
    ultimately have "bit (n - 1) k" using k by (intro bitk) auto
    then have "bit (n AND (n - 1)) k" using bitk [OF k] by (simp add: bit_and_iff)
    then show False using n(2) by simp
  qed
  then have "n = 2 ^ k" using k31 by (simp add: word_unat_eq_iff unat_pow2)
  then show ?thesis using k31 by (intro exI [of _ k]) simp
qed

lemma create_rep:
  fixes h :: "ptr \<Rightarrow> u32" and c :: "(ptr \<Rightarrow> ptr \<Rightarrow> int) option" and f :: bool
  assumes k: "1 \<le> k" "k \<le> 31"
  defines "n \<equiv> 2 ^ k"
  defines "zero \<equiv> \<lparr>n_prev = NULL, n_next = NULL, n_data = NULL, n_key = 0, n_reversed = 0\<rparr>"
  defines "ht \<equiv> \<lparr>num_buckets = 2 ^ k, num_elements = 0, mp_mask = 2 ^ k - 1, table_buckets = replicate n NULL,
     bucket_nodes = mp_link_loop (n - 1) (\<lambda>p. if 1 \<le> p \<and> p \<le> n then Some zero else None),
     free_buckets = 1, mp_hashf = h, mp_cmp = c, mp_free = f, freed = []\<rparr>"
  shows "mp_rep ht (replicate n []) [1..<Suc n]"
proof -
  have u: "unat (num_buckets ht) = n" using k(2) by (simp add: ht_def n_def unat_pow2)
  have "(1::nat) \<le> 2 ^ k" by simp
  then have n: "1 \<le> n" by (simp add: n_def)
  have nodes: "bucket_nodes ht = (\<lambda>p. if 1 \<le> p \<and> p \<le> n
      then Some (zero\<lparr>n_next := (if p \<le> n - 1 then p + 1 else NULL), n_prev := (if 2 \<le> p \<and> p \<le> n then p - 1 else NULL)\<rparr>)
      else None)"
    using mp_link_loop_nodes [of "n - 1" n zero] n by (simp add: ht_def zero_def cong: if_cong)
  have "dchain (nx ht) (pv ht) (1 - 1) 1 [1..<Suc n]"
    by (rule linked_nodes_dchain) (use n in \<open>auto simp: nodes zero_def\<close>)
  moreover have "dom (bucket_nodes ht) = set [1..<Suc n]" by (auto simp: nodes split: if_splits)
  ultimately have "mp_links ht (replicate n []) [1..<Suc n] []"
    using u k by (intro mp_linksI) (auto simp: ht_def mp_shape_def n_def)
  moreover have "mp_vals ht (replicate n [])" by (simp add: mp_vals_def)
  ultimately show ?thesis by (simp add: mp_rep_def ht_def)
qed

lemma create_run:
  assumes "2 \<le> n" and "n \<le> 2 ^ 31"
  shows "\<exists>ht k. mp_hash_table_create hf cf ff n True True True = Some (Some ht) \<and> mp_inv ht \<and> mp_elems ht = [] \<and>
    mp_hashf ht = hf \<and> mp_cmp ht = cf \<and> mp_free ht = ff \<and> freed ht = [] \<and>
    num_buckets ht = 2 ^ k \<and> n \<le> num_buckets ht \<and> 2 ^ (k - 1) < n \<and> 1 \<le> k \<and> k \<le> 31"
proof -
  have n0: "n \<noteq> 0" using assms(1) by auto
  have "\<exists>k. k \<le> 31 \<and> (if \<not> is_power_of_2 n then mp_size_loop 1 n else Some n) = Some (2 ^ k) \<and> n \<le> 2 ^ k \<and>
      (k = 0 \<or> 2 ^ (k - 1) < n)"
  proof (cases "is_power_of_2 n")
    case True
    then obtain k where k: "k \<le> 31" "n = 2 ^ k" using is_power_of_2_pow by blast
    have "unat (2 ^ (k - 1) :: u32) = 2 ^ (k - 1)" "unat (2 ^ k :: u32) = 2 ^ k"
      using k(1) by (intro unat_pow2; simp)+
    then have "k = 0 \<or> 2 ^ (k - 1) < n"
      unfolding k(2) word_less_nat_alt by (cases k) simp_all
    with True k show ?thesis by auto
  next
    case False
    then show ?thesis using mp_size_loop_pow2 [of n 0] assms(2) by auto
  qed
  then obtain k where k: "k \<le> 31" "(if \<not> is_power_of_2 n then mp_size_loop 1 n else Some n) = Some (2 ^ k)"
      "n \<le> 2 ^ k" "k = 0 \<or> 2 ^ (k - 1) < n" by blast
  have k1: "1 \<le> k"
  proof (rule ccontr)
    assume "\<not> 1 \<le> k"
    then have "k = 0" by simp
    then have "n \<le> 1" using k(3) by simp
    then have "(2::u32) \<le> 1" using assms(1) by (rule order_trans [rotated])
    then show False by (simp add: word_le_nat_alt)
  qed
  let ?ht = "\<lparr>num_buckets = 2 ^ k, num_elements = 0, mp_mask = 2 ^ k - 1, table_buckets = replicate (2 ^ k) NULL,
     bucket_nodes = mp_link_loop (2 ^ k - 1) (\<lambda>p. if 1 \<le> p \<and> p \<le> 2 ^ k
       then Some \<lparr>n_prev = NULL, n_next = NULL, n_data = NULL, n_key = 0, n_reversed = 0\<rparr> else None),
     free_buckets = 1, mp_hashf = hf, mp_cmp = cf, mp_free = ff, freed = []\<rparr>"
  have rep: "mp_rep ?ht (replicate (2 ^ k) []) [1..<Suc (2 ^ k)]"
    by (rule create_rep [OF k1 k(1)])
  have "mp_hash_table_create hf cf ff n True True True = Some (Some ?ht)"
    using n0 k(1,2) by (simp add: mp_hash_table_create_def unat_pow2 Let_def)
  moreover have "mp_elems ?ht = []" using mp_inv_elems [OF rep] by simp
  ultimately show ?thesis
    using rep mp_inv_rep k k1 by (intro exI [of _ ?ht] exI [of _ k]) auto
qed

section \<open>Walking and freeing\<close>

text \<open>The reference: run the callback over a list until it returns something other than 0.\<close>

fun walk_list :: "('c \<Rightarrow> ptr \<Rightarrow> 'c \<times> int) \<Rightarrow> 'c \<Rightarrow> ptr list \<Rightarrow> 'c \<times> int" where
  "walk_list f ctx [] = (ctx, 0)"
| "walk_list f ctx (x # xs) = (let (ctx', r) = f ctx x in if r \<noteq> 0 then (ctx', r) else walk_list f ctx' xs)"

lemma walk_list_append:
  "walk_list f ctx (xs @ ys) = (let (ctx', r) = walk_list f ctx xs in if r \<noteq> 0 then (ctx', r) else walk_list f ctx' ys)"
  by (induction xs arbitrary: ctx) (auto simp: Let_def split: prod.splits)

lemma mp_walk_chain_run:
  "chain (nx ht) p xs \<Longrightarrow> mp_walk_chain ht f ctx p = Some (walk_list f ctx (map (dt ht) xs))"
proof (induction xs arbitrary: p ctx)
  case Nil
  then show ?case by (simp add: mp_walk_chain.simps)
next
  case (Cons x xs)
  then obtain e where e: "bucket_nodes ht x = Some e" "chain (nx ht) (n_next e) xs" "p = x" "x \<noteq> NULL" by auto
  have "dt ht x = n_data e" using e(1) by (simp add: dt_def)
  with Cons.IH e show ?case
    by (subst mp_walk_chain.simps) (auto simp: node_def Let_def split: prod.splits)
qed

lemma mp_walk_loop_run:
  assumes L: "mp_links ht bs fs us" and "unat (num_buckets ht) < 2 ^ 31" and "i \<le> length bs"
  shows "mp_walk_loop ht f ctx i = Some (walk_list f ctx (map (dt ht) (concat (drop i bs))))"
  using assms(3)
proof (induction "length bs - i" arbitrary: i ctx)
  note D = mp_linksD [OF L]
  have len: "length bs = unat (num_buckets ht)" using D(1,2) by (simp add: mp_shape_def)
  {
    case 0
    then show ?case using len by (subst mp_walk_loop.simps) simp
  next
    case (Suc n)
    then have i: "i < length bs" by simp
    have c: "chain (nx ht) (table_buckets ht ! i) (bs ! i)" using D(2,3) i by (auto intro: dchain_chain)
    have dr: "drop i bs = bs ! i # drop (Suc i) bs" using i by (simp add: Cons_nth_drop_Suc)
    have IH: "mp_walk_loop ht f ctx (Suc i) = Some (walk_list f ctx (map (dt ht) (concat (drop (Suc i) bs))))" for ctx
      using Suc.hyps(2) by (intro Suc.hyps(1)) auto
    show ?case
      using i len D(2) assms(2) mp_walk_chain_run [OF c, of f ctx] IH
      by (subst mp_walk_loop.simps) (auto simp: dr walk_list_append Let_def split: prod.splits)
  }
qed

lemma mp_free_chain_run:
  "chain (nx ht) p xs \<Longrightarrow> mp_free_chain ht p log = Some (log @ map (dt ht) xs)"
proof (induction xs arbitrary: p log)
  case Nil
  then show ?case by (simp add: mp_free_chain.simps)
next
  case (Cons x xs)
  then obtain e where "bucket_nodes ht x = Some e" "chain (nx ht) (n_next e) xs" "p = x" "x \<noteq> NULL" by auto
  with Cons.IH show ?case by (subst mp_free_chain.simps) (simp add: node_def dt_def)
qed

lemma mp_free_loop_run:
  assumes L: "mp_links ht bs fs us" and "unat (num_buckets ht) < 2 ^ 31" and "i \<le> length bs"
  shows "mp_free_loop ht i log = Some (log @ map (dt ht) (concat (drop i bs)))"
  using assms(3)
proof (induction "length bs - i" arbitrary: i log)
  note D = mp_linksD [OF L]
  have len: "length bs = unat (num_buckets ht)" using D(1,2) by (simp add: mp_shape_def)
  {
    case 0
    then show ?case using len by (subst mp_free_loop.simps) simp
  next
    case (Suc n)
    then have i: "i < length bs" by simp
    have c: "chain (nx ht) (table_buckets ht ! i) (bs ! i)" using D(2,3) i by (auto intro: dchain_chain)
    have dr: "drop i bs = bs ! i # drop (Suc i) bs" using i by (simp add: Cons_nth_drop_Suc)
    have IH: "mp_free_loop ht (Suc i) log = Some (log @ map (dt ht) (concat (drop (Suc i) bs)))" for log
      using Suc.hyps(2) by (intro Suc.hyps(1)) auto
    show ?case
      using i len D(2) assms(2) mp_free_chain_run [OF c, of log] IH
      by (subst mp_free_loop.simps) (simp add: dr)
  }
qed

end
