(* ===== verification/MphashProps.thy ===== *)
theory MphashProps
  imports MphashTable
begin

text \<open>
  The callbacks with which \<open>mempool.c\<close> uses the table meet the contract \<open>mp_callbacks\<close>; the
  properties of the table over any callbacks that meet it.
\<close>

section \<open>The callbacks of the memory pool\<close>

definition bytes64 :: "u64 \<Rightarrow> bytes" where
  "bytes64 x = map (\<lambda>i. ucast (drop_bit (8 * i) x)) [0..<8]"

definition hash_memaddr :: "ptr \<Rightarrow> u32" where
  "hash_memaddr addr = mp_hash (bytes64 (of_nat addr))"

definition hash_memcmp :: "ptr \<Rightarrow> ptr \<Rightarrow> int" where
  "hash_memcmp p1 p2 =
     (let result = sint (of_nat p1 - of_nat p2 :: u64)
      in if result > 0 then 1 else if result < 0 then -1 else 0)"

lemma hash_memcmp_zero: "hash_memcmp p q = 0 \<longleftrightarrow> (of_nat p :: u64) = of_nat q"
  by (auto simp: hash_memcmp_def Let_def) (metis linorder_neqE_linordered_idom sint_0 signed_eq_0_iff right_minus_eq)

interpretation pool: mp_callbacks hash_memaddr "Some hash_memcmp"
  by unfold_locales (auto simp: same_def hash_memcmp_zero hash_memaddr_def)

lemma pool_same: "same hash_memaddr (Some hash_memcmp) p q \<longleftrightarrow> (of_nat p :: u64) = of_nat q"
  by (auto simp: same_def hash_memcmp_zero hash_memaddr_def)

section \<open>Properties\<close>

text \<open>The table of \<open>reversed_byte\<close> is right and \<open>reverse\<close> mirrors the 32 bits of its argument.\<close>

theorem reverse_mirrors:
  assumes "n < 32"
  shows "bit (reverse key) n \<longleftrightarrow> bit key (31 - n)"
  using assms by (rule bit_reverse)

theorem reverse_mirrors_witness: "bit (reverse 1) 31"
  using reverse_mirrors [of 31 1] by simp

text \<open>\<open>mp_hash_table_create\<close> with at least two and at most \<open>2 ^ 31\<close> buckets terminates; when every
  \<open>calloc\<close> succeeds it returns an empty well-formed table whose capacity is the least power of
  two that is not below the request.\<close>

theorem mp_hash_table_create_inv:
  assumes "2 \<le> n" and "n \<le> 2 ^ 31"
  shows "\<exists>ht k. mp_hash_table_create hf cf ff n True True True = Some (Some ht) \<and> mp_inv ht \<and> mp_elems ht = [] \<and>
    mp_hashf ht = hf \<and> mp_cmp ht = cf \<and> mp_free ht = ff \<and> freed ht = [] \<and>
    num_buckets ht = 2 ^ k \<and> n \<le> num_buckets ht \<and> 2 ^ (k - 1) < n \<and> 1 \<le> k \<and> k \<le> 31"
  by (rule create_run [OF assms])

theorem mp_hash_table_create_inv_witness:
  "\<exists>ht. mp_hash_table_create hash_memaddr (Some hash_memcmp) True 5 True True True = Some (Some ht) \<and> mp_inv ht"
  using mp_hash_table_create_inv [of 5 hash_memaddr "Some hash_memcmp" True] by auto

text \<open>C13: \<open>mp_hash_table_insert\<close> refines insertion into a bounded set.  A new element enters exactly once
  while there is room; \<open>NULL\<close>, a full table and an element equal to a stored one are refused with
  -1 and leave the elements as they are.  The invariant (sorted doubly linked buckets, a free list
  with all other nodes, the element count) is kept on every branch.\<close>

theorem mp_hash_table_insert_refines:
  assumes "mp_callbacks (mp_hashf ht) (mp_cmp ht)" and "mp_inv ht"
  shows "if data \<noteq> NULL \<and> num_elements ht < num_buckets ht \<and>
      \<not> (\<exists>x\<in>set (mp_elems ht). same (mp_hashf ht) (mp_cmp ht) data x)
    then \<exists>ht'. mp_hash_table_insert ht data = Some (ht', 0) \<and> mp_inv ht' \<and>
      mset (mp_elems ht') = add_mset data (mset (mp_elems ht)) \<and> num_elements ht' = num_elements ht + 1
    else \<exists>ht'. mp_hash_table_insert ht data = Some (ht', -1) \<and> mp_inv ht' \<and> mp_elems ht' = mp_elems ht \<and>
      num_elements ht' = num_elements ht"
proof -
  obtain bs fs where R: "mp_rep ht bs fs" using assms(2) mp_inv_rep by blast
  note ok = mp_callbacks.insert_ok [OF assms(1) R refl refl, of data]
  note no = mp_callbacks.insert_refused [OF assms(1) R refl refl, of data]
  show ?thesis
  proof (split if_split, intro conjI impI)
    assume *: "data \<noteq> NULL \<and> num_elements ht < num_buckets ht \<and>
        \<not> (\<exists>x\<in>set (mp_elems ht). same (mp_hashf ht) (mp_cmp ht) data x)"
    show "\<exists>ht'. mp_hash_table_insert ht data = Some (ht', 0) \<and> mp_inv ht' \<and>
        mset (mp_elems ht') = add_mset data (mset (mp_elems ht)) \<and> num_elements ht' = num_elements ht + 1"
      using ok * by blast
  next
    assume "\<not> (data \<noteq> NULL \<and> num_elements ht < num_buckets ht \<and>
        \<not> (\<exists>x\<in>set (mp_elems ht). same (mp_hashf ht) (mp_cmp ht) data x))"
    then have "data = NULL \<or> num_buckets ht \<le> num_elements ht \<or>
        (\<exists>x\<in>set (mp_elems ht). same (mp_hashf ht) (mp_cmp ht) data x)"
      by (auto simp: linorder_not_less)
    from no [OF this] show "\<exists>ht'. mp_hash_table_insert ht data = Some (ht', -1) \<and> mp_inv ht' \<and>
        mp_elems ht' = mp_elems ht \<and> num_elements ht' = num_elements ht" by blast
  qed
qed

text \<open>A table with one element, for the witnesses.\<close>

lemma pool_table_of:
  assumes "x \<noteq> NULL"
  obtains ht ht' where
    "mp_hash_table_create hash_memaddr (Some hash_memcmp) f 4 True True True = Some (Some ht)"
    and "mp_hash_table_insert ht x = Some (ht', 0)" and "mp_inv ht'" and "mp_elems ht' = [x]"
    and "mp_hashf ht' = hash_memaddr" and "mp_cmp ht' = Some hash_memcmp" and "num_buckets ht' = 4"
    and "mp_free ht' = f" and "freed ht' = []" and "num_elements ht' = 1"
proof -
  have p4: "is_power_of_2 4" by (simp add: is_power_of_2_def)
  have "mp_rep \<lparr>num_buckets = 2 ^ 2, num_elements = 0, mp_mask = 2 ^ 2 - 1, table_buckets = replicate (2 ^ 2) NULL,
     bucket_nodes = mp_link_loop (2 ^ 2 - 1) (\<lambda>p. if 1 \<le> p \<and> p \<le> 2 ^ 2
       then Some \<lparr>n_prev = NULL, n_next = NULL, n_data = NULL, n_key = 0, n_reversed = 0\<rparr> else None),
     free_buckets = 1, mp_hashf = hash_memaddr, mp_cmp = Some hash_memcmp, mp_free = f, freed = []\<rparr>
     (replicate (2 ^ 2) []) [1..<Suc (2 ^ 2)]" (is "mp_rep ?ht ?bs ?fs")
    by (rule create_rep) simp_all
  moreover have "mp_hash_table_create hash_memaddr (Some hash_memcmp) f 4 True True True = Some (Some ?ht)"
    using p4 by (simp add: mp_hash_table_create_def Let_def)
  moreover have "mp_elems ?ht = []" using mp_inv_elems [OF calculation(1)] by simp
  ultimately show thesis
    using pool.insert_ok [of ?ht ?bs ?fs x] that [of ?ht] assms by auto
qed

lemmas pool_table = pool_table_of [of 64, simplified]

theorem mp_hash_table_insert_refines_witness:
  "\<exists>ht ht'. mp_hash_table_create hash_memaddr (Some hash_memcmp) True 4 True True True = Some (Some ht) \<and>
     mp_hash_table_insert ht 64 = Some (ht', 0) \<and>
     (\<exists>ht''. mp_hash_table_insert ht' 64 = Some (ht'', -1)) \<and>
     (\<exists>ht''. mp_hash_table_insert ht' 128 = Some (ht'', 0) \<and> mset (mp_elems ht'') = {#64, 128#})"
proof -
  obtain ht ht' where t: "mp_hash_table_create hash_memaddr (Some hash_memcmp) True 4 True True True = Some (Some ht)"
    "mp_hash_table_insert ht 64 = Some (ht', 0)" "mp_inv ht'" "mp_elems ht' = [64]"
    "mp_hashf ht' = hash_memaddr" "mp_cmp ht' = Some hash_memcmp" "num_buckets ht' = 4" "num_elements ht' = 1"
    by (rule pool_table [of True])
  have cb: "mp_callbacks (mp_hashf ht') (mp_cmp ht')" using pool.mp_callbacks_axioms t by simp
  show ?thesis
    using t mp_hash_table_insert_refines [OF cb t(3), of 64] mp_hash_table_insert_refines [OF cb t(3), of 128]
    by (auto simp: pool_same)
qed

text \<open>C16: \<open>mp_hash_table_find\<close> returns a stored element equal to the given one if there is one, and
  \<open>NULL\<close> otherwise, although it stops at the first greater reversed hash.\<close>

theorem mp_hash_table_find_refines:
  assumes "mp_callbacks (mp_hashf ht) (mp_cmp ht)" and "mp_inv ht" and "data \<noteq> NULL"
  shows "\<exists>x. mp_hash_table_find ht data = Some x \<and>
    (if \<exists>y\<in>set (mp_elems ht). same (mp_hashf ht) (mp_cmp ht) data y
     then x \<in> set (mp_elems ht) \<and> same (mp_hashf ht) (mp_cmp ht) data x \<and> x \<noteq> NULL
     else x = NULL)"
proof -
  obtain bs fs where "mp_rep ht bs fs" using assms(2) mp_inv_rep by blast
  then show ?thesis by (rule mp_callbacks.find_spec [OF assms(1) _ refl refl assms(3)])
qed

theorem mp_hash_table_find_refines_witness:
  "\<exists>ht ht'. mp_hash_table_create hash_memaddr (Some hash_memcmp) True 4 True True True = Some (Some ht) \<and>
     mp_hash_table_insert ht 64 = Some (ht', 0) \<and>
     mp_hash_table_find ht' 64 = Some 64 \<and> mp_hash_table_find ht' 128 = Some NULL"
proof -
  obtain ht ht' where t: "mp_hash_table_create hash_memaddr (Some hash_memcmp) True 4 True True True = Some (Some ht)"
    "mp_hash_table_insert ht 64 = Some (ht', 0)" "mp_inv ht'" "mp_elems ht' = [64]"
    "mp_hashf ht' = hash_memaddr" "mp_cmp ht' = Some hash_memcmp"
    by (rule pool_table [of True])
  have cb: "mp_callbacks (mp_hashf ht') (mp_cmp ht')" using pool.mp_callbacks_axioms t by simp
  show ?thesis
    using t mp_hash_table_find_refines [OF cb t(3), of 64] mp_hash_table_find_refines [OF cb t(3), of 128]
    by (auto simp: pool_same)
qed

text \<open>C15: \<open>mp_hash_table_delete\<close> removes exactly one element equal to the given one, hands it to the
  \<open>free\<close> callback if there is one, and returns its node to the free list; when there is no equal
  element it returns -1 and changes nothing.\<close>

theorem mp_hash_table_delete_refines:
  assumes "mp_callbacks (mp_hashf ht) (mp_cmp ht)" and "mp_inv ht" and "data \<noteq> NULL"
  shows "if \<exists>y\<in>set (mp_elems ht). same (mp_hashf ht) (mp_cmp ht) data y
    then \<exists>ht' x. mp_hash_table_delete ht data = Some (ht', 0) \<and> mp_inv ht' \<and>
      same (mp_hashf ht) (mp_cmp ht) data x \<and> mset (mp_elems ht) = add_mset x (mset (mp_elems ht')) \<and>
      num_elements ht' = num_elements ht - 1 \<and> freed ht' = freed ht @ (if mp_free ht then [x] else [])
    else mp_hash_table_delete ht data = Some (ht, -1)"
proof -
  obtain bs fs where "mp_rep ht bs fs" using assms(2) mp_inv_rep by blast
  note del = mp_callbacks.delete_spec [OF assms(1) this refl refl assms(3)]
  show ?thesis
  proof (cases "\<exists>y\<in>set (mp_elems ht). same (mp_hashf ht) (mp_cmp ht) data y")
    case True
    from del [unfolded if_P [OF True]] show ?thesis unfolding if_P [OF True] by blast
  next
    case False
    from del [unfolded if_not_P [OF False]] show ?thesis unfolding if_not_P [OF False] .
  qed
qed

theorem mp_hash_table_delete_refines_witness:
  "\<exists>ht ht'. mp_hash_table_create hash_memaddr (Some hash_memcmp) True 4 True True True = Some (Some ht) \<and>
     mp_hash_table_insert ht 64 = Some (ht', 0) \<and> mp_hash_table_delete ht' 128 = Some (ht', -1) \<and>
     (\<exists>ht''. mp_hash_table_delete ht' 64 = Some (ht'', 0) \<and> mp_elems ht'' = [] \<and> freed ht'' = [64])"
proof -
  obtain ht ht' where t: "mp_hash_table_create hash_memaddr (Some hash_memcmp) True 4 True True True = Some (Some ht)"
    "mp_hash_table_insert ht 64 = Some (ht', 0)" "mp_inv ht'" "mp_elems ht' = [64]"
    "mp_hashf ht' = hash_memaddr" "mp_cmp ht' = Some hash_memcmp" "mp_free ht'" "freed ht' = []"
    using pool_table [of True] by metis
  have cb: "mp_callbacks (mp_hashf ht') (mp_cmp ht')" using pool.mp_callbacks_axioms t by simp
  show ?thesis
    using t mp_hash_table_delete_refines [OF cb t(3), of 64] mp_hash_table_delete_refines [OF cb t(3), of 128]
    by (auto simp: pool_same)
qed

text \<open>On a well-formed table of fewer than \<open>2 ^ 31\<close> buckets \<open>mp_hash_table_walk\<close> calls the walk function
  on every element exactly once, in the same order as \<open>mp_hash_table_free\<close> frees them, and stops
  at the first non-zero result.\<close>

theorem mp_hash_table_walk_all:
  assumes "mp_inv ht" and "unat (num_buckets ht) < 2 ^ 31"
  shows "mp_hash_table_walk ht f ctx = Some (walk_list f ctx (mp_elems ht)) \<and>
    mp_hash_table_free ht = Some (freed ht @ (if mp_free ht then mp_elems ht else []))"
proof -
  obtain bs fs where R: "mp_rep ht bs fs" using assms(1) mp_inv_rep by blast
  then have L: "mp_links ht bs fs []" by (simp add: mp_rep_def)
  show ?thesis
    using mp_walk_loop_run [OF L assms(2), of 0 f ctx] mp_free_loop_run [OF L assms(2), of 0 "freed ht"]
    by (simp add: mp_hash_table_walk_def mp_hash_table_free_def mp_inv_elems [OF R])
qed

theorem mp_hash_table_walk_all_witness:
  "\<exists>ht ht'. mp_hash_table_create hash_memaddr (Some hash_memcmp) True 4 True True True = Some (Some ht) \<and>
     mp_hash_table_insert ht 64 = Some (ht', 0) \<and>
     mp_hash_table_walk ht' (\<lambda>n x. (n + x, 0)) 0 = Some (64, 0) \<and> mp_hash_table_free ht' = Some [64]"
proof -
  obtain ht ht' where t: "mp_hash_table_create hash_memaddr (Some hash_memcmp) True 4 True True True = Some (Some ht)"
    "mp_hash_table_insert ht 64 = Some (ht', 0)" "mp_inv ht'" "mp_elems ht' = [64]" "num_buckets ht' = 4"
    "mp_free ht'" "freed ht' = []"
    using pool_table [of True] by metis
  show ?thesis
    using t mp_hash_table_walk_all [OF t(3), of "\<lambda>n x. (n + x, 0)" 0] by auto
qed

text \<open>A table created for one bucket gets the mask 0, and the first insertion, lookup or deletion of an
  element divides by it.\<close>

theorem mp_hash_table_one_bucket:
  "\<exists>ht. mp_hash_table_create hf cf ff 1 True True True = Some (Some ht) \<and>
     mp_hash_table_insert ht 64 = None \<and> mp_hash_table_find ht 64 = None \<and> mp_hash_table_delete ht 64 = None"
  by (simp add: mp_hash_table_create_def is_power_of_2_def mp_hash_table_insert_def mp_hash_table_find_def
      mp_hash_table_delete_def Let_def)

end
