(* ===== verification/Base64.thy ===== *)
theory Base64
  imports CPrelude
begin

text \<open>
  The encoder and the two decoders of \<open>demo_base64/base64.c\<close>.  Buffers are byte lists and \<open>p - dst\<close>
  is an index; a read or write outside a buffer, an index outside one of the two tables and a
  signed overflow are \<open>None\<close>.  \<open>base64_decode\<close> is modelled as it is built, without
  \<open>_BASE64_CHECKDATA\<close>.  A result is the pair of the destination buffer and the new \<open>*dlen\<close>, with
  the returned \<open>int\<close>.
\<close>

section \<open>Definitions\<close>

definition base64_enc_map :: bytes where
  "base64_enc_map =
    [65, 66, 67, 68, 69, 70, 71, 72, 73, 74, 75, 76, 77, 78, 79, 80,
     81, 82, 83, 84, 85, 86, 87, 88, 89, 90, 97, 98, 99, 100, 101, 102,
     103, 104, 105, 106, 107, 108, 109, 110, 111, 112, 113, 114, 115, 116, 117, 118,
     119, 120, 121, 122, 48, 49, 50, 51, 52, 53, 54, 55, 56, 57, 43, 47]"

definition base64_dec_map :: bytes where
  "base64_dec_map =
    [127, 127, 127, 127, 127, 127, 127, 127, 127, 127, 127, 127, 127, 127, 127, 127,
     127, 127, 127, 127, 127, 127, 127, 127, 127, 127, 127, 127, 127, 127, 127, 127,
     127, 127, 127, 127, 127, 127, 127, 127, 127, 127, 127, 62, 127, 127, 127, 63,
     52, 53, 54, 55, 56, 57, 58, 59, 60, 61, 127, 127, 127, 64, 127, 127,
     127, 0, 1, 2, 3, 4, 5, 6, 7, 8, 9, 10, 11, 12, 13, 14,
     15, 16, 17, 18, 19, 20, 21, 22, 23, 24, 25, 127, 127, 127, 127, 127,
     127, 26, 27, 28, 29, 30, 31, 32, 33, 34, 35, 36, 37, 38, 39, 40,
     41, 42, 43, 44, 45, 46, 47, 48, 49, 50, 51, 127, 127, 127, 127, 127]"

definition XYSSL_ERR_BASE64_BUFFER_TOO_SMALL :: int where
  "XYSSL_ERR_BASE64_BUFFER_TOO_SMALL = - 0x10"

text \<open>\<open>base64_enc_map[x]\<close> and \<open>base64_dec_map[c]\<close>.\<close>

definition enc_at :: "u32 \<Rightarrow> u8 option" where
  "enc_at x = get_at base64_enc_map (unat x)"

definition dec_at :: "u8 \<Rightarrow> u8 option" where
  "dec_at c = get_at base64_dec_map (unat c)"

function base64_encode_loop :: "bytes \<Rightarrow> nat \<Rightarrow> bytes \<Rightarrow> nat \<Rightarrow> nat \<Rightarrow> (bytes \<times> nat) option" where
  "base64_encode_loop dst p src i n =
     (if i < n then do {
        c1 \<leftarrow> get_at src i; c2 \<leftarrow> get_at src (i + 1); c3 \<leftarrow> get_at src (i + 2);
        let C1 = (ucast c1 :: u32); let C2 = (ucast c2 :: u32); let C3 = (ucast c3 :: u32);
        e1 \<leftarrow> enc_at (drop_bit 2 C1 AND 0x3F);
        dst \<leftarrow> put_at dst p e1;
        e2 \<leftarrow> enc_at ((push_bit 4 (C1 AND 3) + drop_bit 4 C2) AND 0x3F);
        dst \<leftarrow> put_at dst (p + 1) e2;
        e3 \<leftarrow> enc_at ((push_bit 2 (C2 AND 15) + drop_bit 6 C3) AND 0x3F);
        dst \<leftarrow> put_at dst (p + 2) e3;
        e4 \<leftarrow> enc_at (C3 AND 0x3F);
        dst \<leftarrow> put_at dst (p + 3) e4;
        base64_encode_loop dst (p + 4) src (i + 3) n }
      else Some (dst, p))"
  by pat_completeness auto
termination by (relation "measure (\<lambda>(dst, p, src, i, n). n - i)") auto

declare base64_encode_loop.simps [simp del]

text \<open>The part behind the loop: one or two remaining bytes at index \<open>i\<close>, padded with \<open>=\<close> (61).\<close>

definition base64_encode_tail :: "bytes \<Rightarrow> nat \<Rightarrow> bytes \<Rightarrow> nat \<Rightarrow> nat \<Rightarrow> (bytes \<times> nat) option" where
  "base64_encode_tail dst p src i slen =
     (if i < slen then do {
        c1 \<leftarrow> get_at src i;
        c2 \<leftarrow> (if i + 1 < slen then get_at src (i + 1) else Some 0);
        let C1 = (ucast c1 :: u32); let C2 = (ucast c2 :: u32);
        e1 \<leftarrow> enc_at (drop_bit 2 C1 AND 0x3F);
        dst \<leftarrow> put_at dst p e1;
        e2 \<leftarrow> enc_at ((push_bit 4 (C1 AND 3) + drop_bit 4 C2) AND 0x3F);
        dst \<leftarrow> put_at dst (p + 1) e2;
        dst \<leftarrow> (if i + 1 < slen then do {
                  e3 \<leftarrow> enc_at (push_bit 2 (C2 AND 15) AND 0x3F);
                  put_at dst (p + 2) e3 }
                else put_at dst (p + 2) 61);
        dst \<leftarrow> put_at dst (p + 3) 61;
        Some (dst, p + 4) }
      else Some (dst, p))"

text \<open>The length needed without the terminator, as the \<open>switch\<close> computes it.\<close>

definition base64_encoded_len :: "int \<Rightarrow> int" where
  "base64_encoded_len slen =
     (let n = slen * 8 div 6; r = slen * 8 - n * 6
      in if r = 2 then n + 3 else if r = 4 then n + 2 else n)"

definition base64_encode :: "bytes \<Rightarrow> int \<Rightarrow> bytes \<Rightarrow> int \<Rightarrow> ((bytes \<times> int) \<times> int) option" where
  "base64_encode dst dlen src slen =
     (if slen = 0 then Some ((dst, dlen), 0)
      else do {
        ensure (0 \<le> slen \<and> slen * 8 < 2 ^ 31);
        let n = base64_encoded_len slen;
        if dlen < n + 1 then Some ((dst, n + 1), XYSSL_ERR_BASE64_BUFFER_TOO_SMALL)
        else do {
          let n = slen div 3 * 3;
          (dst, p) \<leftarrow> base64_encode_loop dst 0 src 0 (nat n);
          (dst, p) \<leftarrow> base64_encode_tail dst p src (nat n) (nat slen);
          dst \<leftarrow> put_at dst p 0;
          Some ((dst, int p), 0) } })"

text \<open>Skipping blanks from the end: \<open>k\<close> is \<open>i + 1\<close>.\<close>

fun base64_skip_spaces :: "bytes \<Rightarrow> nat \<Rightarrow> nat option" where
  "base64_skip_spaces src 0 = Some 0"
| "base64_skip_spaces src (Suc i) = do {
     c \<leftarrow> get_at src i;
     if c = 32 \<or> c = 13 \<or> c = 10 then base64_skip_spaces src i else Some (Suc i) }"

text \<open>\<open>*p++ = v\<close> when the condition holds.\<close>

definition emit :: "bool \<Rightarrow> bytes \<Rightarrow> nat \<Rightarrow> u8 \<Rightarrow> (bytes \<times> nat) option" where
  "emit b dst p v = (if b then do { dst \<leftarrow> put_at dst p v; Some (dst, p + 1) } else Some (dst, p))"

text \<open>The decoding loop; \<open>i\<close> is also the offset of \<open>src\<close>.  \<open>j\<close> is unsigned and \<open>cnt\<close> (\<open>count\<close>) an \<open>int\<close>.\<close>

function base64_decode_loop ::
  "bytes \<Rightarrow> nat \<Rightarrow> int \<Rightarrow> bytes \<Rightarrow> nat \<Rightarrow> nat \<Rightarrow> u32 \<Rightarrow> u32 \<Rightarrow> ((bytes \<times> int) \<times> int) option" where
  "base64_decode_loop dst p dlen src i slen j cnt =
     (if i < slen then do {
        c \<leftarrow> get_at src i;
        if c = 13 \<or> c = 10 then base64_decode_loop dst p dlen src (i + 1) slen j cnt
        else do {
          t0 \<leftarrow> dec_at c;
          c1 \<leftarrow> get_at src (i + 1); t1 \<leftarrow> dec_at c1;
          c2 \<leftarrow> get_at src (i + 2); t2 \<leftarrow> dec_at c2;
          c3 \<leftarrow> get_at src (i + 3); t3 \<leftarrow> dec_at c3;
          let j = j - (of_bool (t0 = 64) + of_bool (t1 = 64) + of_bool (t2 = 64) + of_bool (t3 = 64));
          let cnt = cnt + j;
          if dlen < sint cnt then Some ((dst, dlen), XYSSL_ERR_BASE64_BUFFER_TOO_SMALL)
          else do {
            (dst, p) \<leftarrow> emit (j > 0) dst p (push_bit 2 (t0 AND 0x3F) OR (drop_bit 4 t1 AND 0x3F));
            (dst, p) \<leftarrow> emit (j > 1) dst p (push_bit 4 (t1 AND 0xF) OR (drop_bit 2 t2 AND 0xF));
            (dst, p) \<leftarrow> emit (j > 2) dst p (push_bit 6 (t2 AND 0x3) OR (t3 AND 0x3F));
            base64_decode_loop dst p dlen src (i + 4) slen j cnt } } }
      else Some ((dst, int p), 0))"
  by pat_completeness auto
termination by (relation "measure (\<lambda>(dst, p, dlen, src, i, slen, j, cnt). slen - i)") auto

declare base64_decode_loop.simps [simp del]

text \<open>None of the three pointers is \<open>NULL\<close>.\<close>

definition base64_decode :: "bytes \<Rightarrow> int \<Rightarrow> bytes \<Rightarrow> int \<Rightarrow> ((bytes \<times> int) \<times> int) option" where
  "base64_decode dst dlen src slen =
     (if dlen \<le> 0 \<or> slen \<le> 3 then Some ((dst, dlen), -1)
      else do {
        slen \<leftarrow> base64_skip_spaces src (nat slen);
        if slen = 1 then Some ((dst, 0), 0)
        else base64_decode_loop dst 0 dlen src 0 slen 3 0 })"

text \<open>The older decoder: a first pass counts the significant bytes (its checks have empty bodies but
  still evaluate \<open>base64_dec_map[src[i]]\<close>, where the second test short-circuits and the third does
  not).\<close>

fun base64_old_count :: "bytes \<Rightarrow> nat \<Rightarrow> nat \<Rightarrow> nat \<Rightarrow> nat option" where
  "base64_old_count src 0 i n = Some n"
| "base64_old_count src (Suc left) i n = do {
     c \<leftarrow> get_at src i;
     crlf \<leftarrow> (if 2 \<le> Suc left \<and> c = 13 then do { d \<leftarrow> get_at src (i + 1); Some (d = 10) } else Some False);
     if crlf then base64_old_count src left (i + 1) n
     else if c = 10 then base64_old_count src left (i + 1) n
     else do {
       t \<leftarrow> dec_at c;
       base64_old_count src left (i + 1) (n + 1) } }"

fun base64_old_loop :: "bytes \<Rightarrow> nat \<Rightarrow> bytes \<Rightarrow> nat \<Rightarrow> nat \<Rightarrow> int \<Rightarrow> nat \<Rightarrow> u64 \<Rightarrow> (bytes \<times> nat) option" where
  "base64_old_loop dst p src k 0 j n x = Some (dst, p)"
| "base64_old_loop dst p src k (Suc i) j n x = do {
     c \<leftarrow> get_at src k;
     if c = 13 \<or> c = 10 then base64_old_loop dst p src (k + 1) i j n x
     else do {
       t \<leftarrow> dec_at c;
       let j = (if t = 64 then j - 1 else j);
       let x = push_bit 6 x OR (ucast t AND 0x3F);
       if n + 1 = 4 then do {
         (dst, p) \<leftarrow> emit (j > 0) dst p (ucast (drop_bit 16 x));
         (dst, p) \<leftarrow> emit (j > 1) dst p (ucast (drop_bit 8 x));
         (dst, p) \<leftarrow> emit (j > 2) dst p (ucast x);
         base64_old_loop dst p src (k + 1) i j 0 x }
       else base64_old_loop dst p src (k + 1) i j (n + 1) x } }"

definition base64_decode_old :: "bytes \<Rightarrow> int \<Rightarrow> bytes \<Rightarrow> nat \<Rightarrow> ((bytes \<times> int) \<times> int) option" where
  "base64_decode_old dst dlen src slen = do {
     n \<leftarrow> base64_old_count src slen 0 0;
     if n = 0 then Some ((dst, dlen), 0)
     else do {
       ensure (n * 6 + 7 < 2 ^ 31);
       let m = int ((n * 6 + 7) div 8);
       if dlen < m then Some ((dst, m), XYSSL_ERR_BASE64_BUFFER_TOO_SMALL)
       else do {
         (dst, p) \<leftarrow> base64_old_loop dst 0 src 0 slen 3 0 0;
         Some ((dst, int p), 0) } } }"

end
