(* ===== verification/Base64Spec.thy ===== *)
theory Base64Spec
  imports Base64
begin

text \<open>
  Correctness of \<open>base64.c\<close>.  The reference \<open>b64\<close> cuts each group of three bytes into four 6-bit
  indices; the encoder computes it within its buffer, and both decoders invert it.
\<close>

section \<open>Reference encoding\<close>

definition idx1 :: "u8 \<Rightarrow> u8" where "idx1 a = drop_bit 2 a"

definition idx2 :: "u8 \<Rightarrow> u8 \<Rightarrow> u8" where "idx2 a b = push_bit 4 (a AND 3) OR drop_bit 4 b"

definition idx3 :: "u8 \<Rightarrow> u8 \<Rightarrow> u8" where "idx3 b c = push_bit 2 (b AND 15) OR drop_bit 6 c"

definition idx4 :: "u8 \<Rightarrow> u8" where "idx4 c = c AND 63"

definition char6 :: "u8 \<Rightarrow> u8" where "char6 i = base64_enc_map ! unat i"

fun b64 :: "bytes \<Rightarrow> bytes" where
  "b64 (a # b # c # xs) = char6 (idx1 a) # char6 (idx2 a b) # char6 (idx3 b c) # char6 (idx4 c) # b64 xs"
| "b64 [a, b] = [char6 (idx1 a), char6 (idx2 a b), char6 (idx3 b 0), 61]"
| "b64 [a] = [char6 (idx1 a), char6 (idx2 a 0), 61, 61]"
| "b64 [] = []"

lemma length_b64: "length (b64 xs) = 4 * ((length xs + 2) div 3)"
proof (induction xs rule: b64.induct)
  case (1 a b c xs)
  have "length (a # b # c # xs) + 2 = length xs + 2 + 3" by simp
  then have "(length (a # b # c # xs) + 2) div 3 = Suc ((length xs + 2) div 3)"
    by (simp only: div_add_self2)
  with 1 show ?case by simp
qed auto

lemma b64_append: "3 dvd length xs \<Longrightarrow> b64 (xs @ ys) = b64 xs @ b64 ys"
proof (induction xs rule: b64.induct)
  case (1 a b c xs)
  then have "3 dvd length xs" by (simp add: dvd_def) presburger
  with 1 show ?case by simp
qed (auto dest: dvd_imp_le)

section \<open>The two tables\<close>

lemma u8_eqI:
  assumes "bit x 0 = bit y 0" "bit x 1 = bit y 1" "bit x 2 = bit y 2" "bit x 3 = bit y 3"
    "bit x 4 = bit y 4" "bit x 5 = bit y 5" "bit x 6 = bit y 6" "bit x 7 = bit y 7"
  shows "x = (y :: u8)"
proof (rule bit_word_eqI)
  fix n
  assume "n < LENGTH(8)"
  then have "n = 0 \<or> n = 1 \<or> n = 2 \<or> n = 3 \<or> n = 4 \<or> n = 5 \<or> n = 6 \<or> n = 7" by (simp, arith)
  with assms show "bit x n = bit y n" by blast
qed

lemma mask8: "(x AND 63 :: u8) = take_bit 6 x" "(x AND 3 :: u8) = take_bit 2 x" "(x AND 15 :: u8) = take_bit 4 x"
  by (simp_all add: take_bit_eq_mask mask_eq_exp_minus_1)

lemma mask32: "(x AND 63 :: u32) = take_bit 6 x" "(x AND 3 :: u32) = take_bit 2 x" "(x AND 15 :: u32) = take_bit 4 x"
  by (simp_all add: take_bit_eq_mask mask_eq_exp_minus_1)

lemma bit8_less: "bit (x :: u8) n \<Longrightarrow> n < 8"
  using bit_imp_le_length [of x n] by simp

lemmas idx_defs = idx1_def idx2_def idx3_def idx4_def

lemma idx_bound:
  "unat (idx1 a) < 64" "unat (idx2 a b) < 64" "unat (idx3 b c) < 64" "unat (idx4 c) < 64"
proof -
  have *: "unat x < 64" if "take_bit 6 x = x" for x :: u8
  proof -
    have "unat x = take_bit 6 (unat x)" using that by (metis unsigned_take_bit_eq)
    then show ?thesis using take_bit_nat_less_exp [of 6 "unat x"] by simp
  qed
  show "unat (idx1 a) < 64" "unat (idx2 a b) < 64" "unat (idx3 b c) < 64" "unat (idx4 c) < 64"
    unfolding idx_defs mask8
    by (rule *, rule bit_word_eqI, auto simp: bit_simps dest: bit8_less)+
qed

lemma enc_table: "list_all (\<lambda>i. dec_at (base64_enc_map ! i) = Some (of_nat i) \<and>
    base64_enc_map ! i \<notin> {10, 13, 32, 61}) [0..<64]"
  unfolding dec_at_def base64_enc_map_def base64_dec_map_def get_at_def by code_simp

lemma dec_char6: "unat i < 64 \<Longrightarrow> dec_at (char6 i) = Some i"
  using enc_table by (simp add: list_all_iff char6_def)

lemma char6_not_special:
  assumes "unat i < 64"
  shows "char6 i \<noteq> 10" "char6 i \<noteq> 13" "char6 i \<noteq> 32" "char6 i \<noteq> 61"
  using enc_table assms by (auto simp: list_all_iff char6_def)

lemma dec_pad: "dec_at 61 = Some 64"
  by (simp add: dec_at_def base64_dec_map_def get_at_def)

lemma idx_not_64: "unat (i :: u8) < 64 \<Longrightarrow> i \<noteq> 64"
  by auto

lemma enc_at_ucast: "unat i < 64 \<Longrightarrow> enc_at (ucast i) = Some (char6 i)"
  by (simp add: enc_at_def char6_def get_at_def base64_enc_map_def unsigned_ucast_eq take_bit_nat_eq_self)

lemma enc_index:
  fixes a b c :: u8
  shows "drop_bit 2 (ucast a :: u32) AND 0x3F = ucast (idx1 a)"
    and "(push_bit 4 (ucast a AND 3) + drop_bit 4 (ucast b) :: u32) AND 0x3F = ucast (idx2 a b)"
    and "(push_bit 2 (ucast b AND 15) + drop_bit 6 (ucast c) :: u32) AND 0x3F = ucast (idx3 b c)"
    and "(ucast c AND 0x3F :: u32) = ucast (idx4 c)"
proof -
  have p2: "push_bit 4 (take_bit 2 (ucast a)) + drop_bit 4 (ucast b) =
      (push_bit 4 (take_bit 2 (ucast a)) OR drop_bit 4 (ucast b) :: u32)"
    by (rule disjunctive_add) (auto simp: bit_simps dest: bit8_less)
  have p3: "push_bit 2 (take_bit 4 (ucast b)) + drop_bit 6 (ucast c) =
      (push_bit 2 (take_bit 4 (ucast b)) OR drop_bit 6 (ucast c) :: u32)"
    by (rule disjunctive_add) (auto simp: bit_simps dest: bit8_less)
  show "drop_bit 2 (ucast a :: u32) AND 0x3F = ucast (idx1 a)"
    "(push_bit 4 (ucast a AND 3) + drop_bit 4 (ucast b) :: u32) AND 0x3F = ucast (idx2 a b)"
    "(push_bit 2 (ucast b AND 15) + drop_bit 6 (ucast c) :: u32) AND 0x3F = ucast (idx3 b c)"
    "(ucast c AND 0x3F :: u32) = ucast (idx4 c)"
    unfolding mask32 p2 p3 idx_defs mask8
    by (rule bit_word_eqI, auto simp: bit_simps dest: bit8_less)+
qed

lemma enc_index3_0:
  fixes b :: u8
  shows "(push_bit 2 (ucast b AND 15) :: u32) AND 0x3F = ucast (idx3 b 0)"
  using enc_index(3) [of b 0] by simp

lemmas enc_simps = enc_index enc_index3_0 enc_at_ucast [OF idx_bound(1)] enc_at_ucast [OF idx_bound(2)]
  enc_at_ucast [OF idx_bound(3)] enc_at_ucast [OF idx_bound(4)]

lemma dec_bytes:
  "push_bit 2 (idx1 a AND 0x3F) OR (drop_bit 4 (idx2 a b) AND 0x3F) = a"
  "push_bit 4 (idx2 a b AND 0xF) OR (drop_bit 2 (idx3 b c) AND 0xF) = b"
  "push_bit 6 (idx3 b c AND 0x3) OR (idx4 c AND 0x3F) = c"
  unfolding idx_defs mask8 by (rule u8_eqI; simp add: bit_simps)+

section \<open>The encoder\<close>

lemma list_updates:
  "(pre @ x # xs)[length pre := v] = pre @ v # xs"
  "(pre @ x # y # xs)[Suc (length pre) := v] = pre @ x # v # xs"
  "(pre @ x # y # z # xs)[Suc (Suc (length pre)) := v] = pre @ x # y # v # xs"
  "(pre @ x # y # z # w # xs)[Suc (Suc (Suc (length pre))) := v] = pre @ x # y # z # v # xs"
  by (simp_all add: list_update_append)

lemma put_at_app:
  "put_at (pre @ x # xs) (length pre) v = Some (pre @ v # xs)"
  "put_at (pre @ x # y # xs) (length pre + 1) v = Some (pre @ x # v # xs)"
  "put_at (pre @ x # y # z # xs) (length pre + 2) v = Some (pre @ x # y # v # xs)"
  "put_at (pre @ x # y # z # w # xs) (length pre + 3) v = Some (pre @ x # y # z # v # xs)"
  by (simp_all add: put_at_def list_updates numeral_3_eq_3)

lemma get_at_app:
  "get_at (pre @ x # xs) (length pre) = Some x"
  "get_at (pre @ x # y # xs) (length pre + 1) = Some y"
  "get_at (pre @ x # y # z # xs) (length pre + 2) = Some z"
  "get_at (pre @ x # y # z # w # xs) (length pre + 3) = Some w"
  by (simp_all add: get_at_def nth_append numeral_3_eq_3)

lemma length_Suc3: "length xs = 3 * Suc m \<Longrightarrow> \<exists>a b c ys. xs = a # b # c # ys \<and> length ys = 3 * m"
  by (auto simp: length_Suc_conv numeral_eq_Suc)

lemma base64_encode_loop_run:
  assumes "length xs = 3 * m" and "length out = 4 * m"
  shows "base64_encode_loop (pre @ out @ buf) (length pre) (spre @ xs @ ys) (length spre) (length spre + 3 * m) =
    Some (pre @ b64 xs @ buf, length pre + 4 * m)"
  using assms
proof (induction m arbitrary: xs out pre spre)
  case 0
  then show ?case by (simp add: base64_encode_loop.simps)
next
  case (Suc m)
  obtain a b c xs' where xs: "xs = a # b # c # xs'" "length xs' = 3 * m" using length_Suc3 [OF Suc.prems(1)] by auto
  obtain o1 o2 o3 o4 out' where out: "out = o1 # o2 # o3 # o4 # out'" "length out' = 4 * m"
    using length_ge_4 [of out] Suc.prems(2) by auto
  have l: "length (pre @ [w, x, y, z]) = length pre + 4" "length (spre @ [a, b, c]) = length spre + 3"
      "length spre + 3 + 3 * m = length spre + 3 * Suc m" "length pre + 4 + 4 * m = length pre + 4 * Suc m" for w x y z :: u8
    by simp_all
  note IH = Suc.IH [OF xs(2) out(2), where pre = "pre @ [w, x, y, z]" and spre = "spre @ [a, b, c]" for w x y z,
      unfolded l append_assoc append_Cons append_Nil]
  have lt: "length spre < length spre + 3 * Suc m" by simp
  have "base64_encode_loop (pre @ out @ buf) (length pre) (spre @ xs @ ys) (length spre) (length spre + 3 * Suc m) =
      base64_encode_loop (pre @ char6 (idx1 a) # char6 (idx2 a b) # char6 (idx3 b c) # char6 (idx4 c) # out' @ buf)
        (length pre + 4) (spre @ a # b # c # xs' @ ys) (length spre + 3) (length spre + 3 * Suc m)"
    unfolding xs(1) out(1) append_Cons
    by (subst base64_encode_loop.simps)
      (simp only: lt if_True get_at_app put_at_app enc_simps Option.bind.simps Let_def)
  also note IH
  finally show ?case unfolding xs(1) b64.simps append_Cons .
qed

lemma base64_encode_tail_run:
  assumes "length xs < 3" and "length out = (if xs = [] then 0 else 4)"
  shows "base64_encode_tail (pre @ out @ buf) (length pre) (spre @ xs) (length spre) (length spre + length xs) =
    Some (pre @ b64 xs @ buf, length pre + length out)"
proof -
  have "xs = [] \<or> (\<exists>a. xs = [a]) \<or> (\<exists>a b. xs = [a, b])"
    using assms(1) by (cases xs; cases "tl xs"; cases "tl (tl xs)") auto
  moreover obtain o1 o2 o3 o4 where "xs \<noteq> [] \<Longrightarrow> out = [o1, o2, o3, o4]"
    using assms(2) length_eq_4 [of out] by (metis list.size(3))
  moreover have "enc_at ((push_bit 4 (ucast a AND 3) + drop_bit 4 (ucast (0::u8)) :: u32) AND 0x3F) =
      Some (char6 (idx2 a 0))" for a by (simp only: enc_simps)
  moreover have "\<not> length spre + 1 < length spre + 1" "length spre + 1 < length spre + 2"
      "length spre < length spre + 1" "length spre < length spre + 2" by simp_all
  ultimately show ?thesis
  proof (elim disjE exE)
    assume "xs = []"
    with assms show ?thesis by (simp add: base64_encode_tail_def)
  next
    fix a
    assume xs: "xs = [a]" and out: "xs \<noteq> [] \<Longrightarrow> out = [o1, o2, o3, o4]"
    have l: "length spre + length xs = length spre + 1" using xs by simp
    have c: "(length spre < length spre + 1) = True" "(length spre + 1 < length spre + 1) = False" by simp_all
    have o: "out = [o1, o2, o3, o4]" using out xs by simp
    show ?thesis
      unfolding base64_encode_tail_def l c if_True if_False
      by (simp only: xs o append_Cons append_Nil get_at_app put_at_app enc_simps Option.bind.simps Let_def b64.simps)
         simp
  next
    fix a b
    assume xs: "xs = [a, b]" and out: "xs \<noteq> [] \<Longrightarrow> out = [o1, o2, o3, o4]"
    have l: "length spre + length xs = length spre + 2" using xs by simp
    have c: "(length spre < length spre + 2) = True" "(length spre + 1 < length spre + 2) = True" by simp_all
    have o: "out = [o1, o2, o3, o4]" using out xs by simp
    show ?thesis
      unfolding base64_encode_tail_def l c if_True if_False
      by (simp only: xs o append_Cons append_Nil get_at_app put_at_app enc_simps Option.bind.simps Let_def b64.simps)
         simp
  qed
qed

lemma encoded_len: "base64_encoded_len (int n) = int (4 * ((n + 2) div 3))"
proof -
  have "\<exists>q. n = 3 * q \<or> n = 3 * q + 1 \<or> n = 3 * q + 2" by presburger
  then obtain q where "n = 3 * q \<or> n = 3 * q + 1 \<or> n = 3 * q + 2" by blast
  then show ?thesis by (auto simp: base64_encoded_len_def Let_def; presburger)
qed

text \<open>The whole encoder on a buffer that is large enough.\<close>

lemma base64_encode_run:
  assumes "src \<noteq> []" and "length src < 2 ^ 28" and "int (length (b64 src)) < dlen" and "dlen \<le> int (length dst)"
  shows "base64_encode dst dlen src (int (length src)) =
    Some ((b64 src @ 0 # drop (Suc (length (b64 src))) dst, int (length (b64 src))), 0)"
proof -
  define m where "m = length src div 3"
  define xs ys where "xs = take (3 * m) src" and "ys = drop (3 * m) src"
  have src: "src = xs @ ys" by (simp add: xs_def ys_def)
  have lx: "length xs = 3 * m" and ly: "length ys < 3" by (simp_all add: xs_def ys_def m_def)
  have b: "b64 src = b64 xs @ b64 ys" unfolding src using lx by (intro b64_append) simp
  have lbx: "length (b64 xs) = 4 * m" using lx by (simp add: length_b64)
  have lby: "length (b64 ys) = (if ys = [] then 0 else 4)"
    using ly by (cases ys; cases "tl ys"; cases "tl (tl ys)") auto
  have len: "length (b64 src) < length dst" using assms(3,4) by linarith
  define o1 o2 where "o1 = take (4 * m) dst" and "o2 = take (length (b64 ys)) (drop (4 * m) dst)"
  define buf where "buf = drop (length (b64 src)) dst"
  have "take (length (b64 src)) dst = o1 @ o2" unfolding o1_def o2_def b by (simp add: lbx take_add)
  then have dst: "dst = [] @ o1 @ o2 @ buf"
    unfolding buf_def by (metis append_Nil append_assoc append_take_drop_id)
  have lo: "length o1 = 4 * m" "length o2 = (if ys = [] then 0 else 4)"
    using len by (simp_all add: o1_def o2_def b lbx lby)
  obtain z buf' where buf: "buf = z # buf'" using len by (cases buf) (auto simp: buf_def)
  have "drop (Suc (length (b64 src))) dst = tl buf" by (simp add: buf_def drop_Suc tl_drop)
  then have buf': "drop (Suc (length (b64 src))) dst = buf'" by (simp add: buf)
  have n: "nat (int (length src) div 3 * 3) = 3 * m" by (simp add: m_def nat_mult_distrib flip: zdiv_int)
  have run1: "base64_encode_loop dst 0 src 0 (3 * m) = Some (b64 xs @ o2 @ buf, 4 * m)"
    using base64_encode_loop_run [OF lx lo(1), of "[]" "o2 @ buf" "[]" ys] dst src by simp
  have run2: "base64_encode_tail (b64 xs @ o2 @ buf) (4 * m) src (3 * m) (length src) =
      Some (b64 xs @ b64 ys @ buf, length (b64 src))"
    using base64_encode_tail_run [OF ly lo(2), of "b64 xs" buf xs] lx lbx lby lo src b by simp
  have run3: "put_at (b64 xs @ b64 ys @ buf) (length (b64 src)) 0 = Some (b64 src @ 0 # buf')"
    using put_at_app(1) [of "b64 src" z buf' 0] by (simp add: b buf)
  have el: "base64_encoded_len (int (length src)) = int (length (b64 src))"
    by (simp add: encoded_len length_b64)
  have bounds: "int (length src) * 8 < 2 ^ 31" using assms(2) by simp
  show ?thesis
    unfolding base64_encode_def el Let_def n
    using assms(1,3) bounds run1 run2 run3 buf' by simp
qed

section \<open>The decoder\<close>

lemma base64_skip_spaces_stop:
  "i < length src \<Longrightarrow> src ! i \<notin> {10, 13, 32} \<Longrightarrow> base64_skip_spaces src (Suc i) = Some (Suc i)"
  by simp

lemma b64_Nil_iff: "b64 xs = [] \<longleftrightarrow> xs = []"
  by (induction xs rule: b64.induct) auto

lemma b64_last: "xs \<noteq> [] \<Longrightarrow> last (b64 xs) \<notin> {10, 13, 32}"
proof (induction xs rule: b64.induct)
  case (1 a b c xs)
  then show ?case
    using char6_not_special [OF idx_bound(4)] by (cases "xs = []") (auto simp: b64_Nil_iff)
qed auto

lemma sint_cnt:
  assumes "int (unat c) + int k \<le> dlen" and "dlen < 2 ^ 31"
  shows "unat (c + of_nat k :: u32) = unat c + k" and "sint (c + of_nat k :: u32) = int (unat c + k)"
proof -
  have "int (unat c + k) < int (2 ^ 31)" using assms by simp
  then have b: "unat c + k < 2 ^ 31" by (simp only: of_nat_less_iff)
  then have "unat (of_nat k :: u32) = k" by (simp add: unat_of_nat take_bit_nat_eq_self)
  with b show u: "unat (c + of_nat k :: u32) = unat c + k" by (simp add: unat_word_ariths)
  show "sint (c + of_nat k :: u32) = int (unat c + k)"
    using sint_small [of "c + of_nat k :: u32"] b u by simp
qed

lemma emit_at:
  "emit True (pre @ x # xs) (length pre) v = Some (pre @ v # xs, length pre + 1)"
  "emit False dst p v = Some (dst, p)"
  by (simp_all add: emit_def put_at_app)

lemma emit_at':
  "emit True (pre @ a # x # xs) (length pre + 1) v = Some (pre @ a # v # xs, length pre + 1 + 1)"
  "emit True (pre @ a # b # x # xs) (length pre + 1 + 1) v = Some (pre @ a # b # v # xs, length pre + 1 + 1 + 1)"
  using emit_at(1) [of "pre @ [a]" x xs v] emit_at(1) [of "pre @ [a, b]" x xs v] by simp_all

text \<open>One group of four characters that does not start with a line break.\<close>

lemma base64_decode_group:
  assumes "i = length spre" and "i < slen" and "c0 \<noteq> 10" and "c0 \<noteq> 13"
    and "dec_at c0 = Some t0" and "dec_at c1 = Some t1" and "dec_at c2 = Some t2" and "dec_at c3 = Some t3"
    and "j' = j - (of_bool (t0 = 64) + of_bool (t1 = 64) + of_bool (t2 = 64) + of_bool (t3 = 64))"
    and "sint (cnt + j') \<le> dlen"
  shows "base64_decode_loop dst p dlen (spre @ c0 # c1 # c2 # c3 # rest) i slen j cnt = do {
      (dst, p) \<leftarrow> emit (j' > 0) dst p (push_bit 2 (t0 AND 0x3F) OR (drop_bit 4 t1 AND 0x3F));
      (dst, p) \<leftarrow> emit (j' > 1) dst p (push_bit 4 (t1 AND 0xF) OR (drop_bit 2 t2 AND 0xF));
      (dst, p) \<leftarrow> emit (j' > 2) dst p (push_bit 6 (t2 AND 0x3) OR (t3 AND 0x3F));
      base64_decode_loop dst p dlen (spre @ c0 # c1 # c2 # c3 # rest) (i + 4) slen j' (cnt + j') }"
proof -
  have nb: "(c0 = 13 \<or> c0 = 10) = False" "(length spre < slen) = True" "(dlen < sint (cnt + j')) = False"
    using assms by auto
  show ?thesis
    unfolding assms(1)
    by (subst base64_decode_loop.simps)
      (simp only: get_at_app assms(5-8) nb if_True if_False Option.bind.simps Let_def assms(9) [symmetric])
qed

lemma base64_decode_full:
  assumes "length xs = 3 * m" and "length out = 3 * m" and "dlen < 2 ^ 31"
    and "int (unat cnt + 3 * m) \<le> dlen" and "length spre + 4 * m \<le> slen"
  shows "base64_decode_loop (pre @ out @ buf) (length pre) dlen (spre @ b64 xs @ ys) (length spre) slen 3 cnt =
    base64_decode_loop (pre @ xs @ buf) (length pre + 3 * m) dlen (spre @ b64 xs @ ys) (length spre + 4 * m) slen 3
      (cnt + of_nat (3 * m))"
  using assms
proof (induction m arbitrary: xs out pre spre cnt)
  case 0
  then show ?case by simp
next
  case (Suc m)
  obtain a b c xs' where xs: "xs = a # b # c # xs'" "length xs' = 3 * m" using length_Suc3 [OF Suc.prems(1)] by auto
  obtain o1 o2 o3 out' where out: "out = o1 # o2 # o3 # out'" "length out' = 3 * m"
    using length_Suc3 [OF Suc.prems(2)] by auto
  have s: "unat (cnt + of_nat 3) = unat cnt + 3" "sint (cnt + of_nat 3) = int (unat cnt + 3)"
    using Suc.prems(3,4) by (intro sint_cnt [of _ _ dlen]; simp)+
  have s3: "sint (cnt + 3) \<le> dlen" using s(2) Suc.prems(4) by simp
  have l: "length (pre @ [x, y, z]) = length pre + 3" "length (spre @ [u, v, w, t]) = length spre + 4"
      "length pre + 3 + 3 * m = length pre + 3 * Suc m" "length spre + 4 + 4 * m = length spre + 4 * Suc m"
      "length pre + 1 + 1 + 1 = length pre + 3"
      for x y z u v w t :: u8 by simp_all
  have cn: "cnt + 3 + of_nat (3 * m) = cnt + of_nat (3 * Suc m)" by simp
  let ?s = "spre @ [char6 (idx1 a), char6 (idx2 a b), char6 (idx3 b c), char6 (idx4 c)]"
  have IH: "base64_decode_loop ((pre @ [a, b, c]) @ out' @ buf) (length (pre @ [a, b, c])) dlen
      (?s @ b64 xs' @ ys) (length ?s) slen 3 (cnt + 3) =
    base64_decode_loop ((pre @ [a, b, c]) @ xs' @ buf) (length (pre @ [a, b, c]) + 3 * m) dlen
      (?s @ b64 xs' @ ys) (length ?s + 4 * m) slen 3 (cnt + 3 + of_nat (3 * m))"
    by (rule Suc.IH [OF xs(2) out(2) Suc.prems(3)]) (use Suc.prems(4,5) s in simp_all)
  have ne: "idx1 a \<noteq> 64" "idx2 a b \<noteq> 64" "idx3 b c \<noteq> 64" "idx4 c \<noteq> 64"
    by (intro idx_not_64 idx_bound)+
  have j: "(3::u32) - (of_bool (idx1 a = 64) + of_bool (idx2 a b = 64) + of_bool (idx3 b c = 64) + of_bool (idx4 c = 64)) = 3"
    using ne by simp
  have cmp: "((0::u32) < 3) = True" "((1::u32) < 3) = True" "((2::u32) < 3) = True" by simp_all
  have lt: "length spre < slen" using Suc.prems(5) by simp
  have step: "base64_decode_loop (pre @ out @ buf) (length pre) dlen (spre @ b64 xs @ ys) (length spre) slen 3 cnt =
    base64_decode_loop (pre @ a # b # c # out' @ buf) (length pre + 3) dlen (spre @ b64 xs @ ys) (length spre + 4) slen 3 (cnt + 3)"
    unfolding xs(1) out(1) b64.simps append_Cons
    by (subst base64_decode_group [OF refl lt char6_not_special(1,2) [OF idx_bound(1)] dec_char6 [OF idx_bound(1)]
          dec_char6 [OF idx_bound(2)] dec_char6 [OF idx_bound(3)] dec_char6 [OF idx_bound(4)] j [symmetric] s3])
      (simp only: dec_bytes cmp emit_at emit_at' Option.bind.simps prod.case l)
  show ?case
    using step [unfolded xs(1) b64.simps append_Cons] IH [unfolded l cn append_assoc append_Cons append_Nil]
    unfolding xs(1) b64.simps append_Cons by (rule trans)
qed

lemma base64_decode_end: "base64_decode_loop dst p dlen src slen slen j cnt = Some ((dst, int p), 0)"
  by (subst base64_decode_loop.simps) simp

lemma base64_decode_tail:
  assumes "length xs < 3" and "length out = length xs" and "dlen < 2 ^ 31" and "int (unat cnt + length xs) \<le> dlen"
    and "slen = length spre + length (b64 xs)"
  shows "base64_decode_loop (pre @ out @ buf) (length pre) dlen (spre @ b64 xs) (length spre) slen 3 cnt =
    Some ((pre @ xs @ buf, int (length pre + length xs)), 0)"
proof -
  have "xs = [] \<or> (\<exists>a. xs = [a]) \<or> (\<exists>a b. xs = [a, b])"
    using assms(1) by (cases xs; cases "tl xs"; cases "tl (tl xs)") auto
  then show ?thesis
  proof (elim disjE exE)
    assume "xs = []"
    with assms show ?thesis by (simp add: base64_decode_end)
  next
    fix a
    assume xs: "xs = [a]"
    then obtain o1 where out: "out = [o1]" using assms(2) by (cases out) auto
    have s: "sint (cnt + 1) \<le> dlen" using sint_cnt(2) [of cnt 1 dlen] assms(3,4) xs by simp
    have ne: "idx1 a \<noteq> 64" "idx2 a 0 \<noteq> 64" by (intro idx_not_64 idx_bound)+
    have j: "(3::u32) - (of_bool (idx1 a = 64) + of_bool (idx2 a 0 = 64) + of_bool ((64::u8) = 64) + of_bool ((64::u8) = 64)) = 1"
      using ne by simp
    have cmp: "((0::u32) < 1) = True" "((1::u32) < 1) = False" "((2::u32) < 1) = False" by (simp_all add: word_less_nat_alt)
    have sl: "slen = length spre + 4" "length spre < length spre + 4" using assms(5) xs by simp_all
    show ?thesis
      unfolding xs out sl(1) b64.simps append_Cons append_Nil
      by (subst base64_decode_group [OF refl sl(2) char6_not_special(1,2) [OF idx_bound(1)] dec_char6 [OF idx_bound(1)]
            dec_char6 [OF idx_bound(2)] dec_pad dec_pad j [symmetric] s])
        (simp only: dec_bytes cmp emit_at Option.bind.simps prod.case base64_decode_end list.size add_0_left, simp)
  next
    fix a b
    assume xs: "xs = [a, b]"
    then obtain o1 o2 where out: "out = [o1, o2]" using assms(2) by (cases out; cases "tl out") auto
    have s: "sint (cnt + 2) \<le> dlen" using sint_cnt(2) [of cnt 2 dlen] assms(3,4) xs by simp
    have ne: "idx1 a \<noteq> 64" "idx2 a b \<noteq> 64" "idx3 b 0 \<noteq> 64" by (intro idx_not_64 idx_bound)+
    have j: "(3::u32) - (of_bool (idx1 a = 64) + of_bool (idx2 a b = 64) + of_bool (idx3 b 0 = 64) + of_bool ((64::u8) = 64)) = 2"
      using ne by simp
    have cmp: "((0::u32) < 2) = True" "((1::u32) < 2) = True" "((2::u32) < 2) = False" by (simp_all add: word_less_nat_alt)
    have sl: "slen = length spre + 4" "length spre < length spre + 4" using assms(5) xs by simp_all
    show ?thesis
      unfolding xs out sl(1) b64.simps append_Cons append_Nil
      by (subst base64_decode_group [OF refl sl(2) char6_not_special(1,2) [OF idx_bound(1)] dec_char6 [OF idx_bound(1)]
            dec_char6 [OF idx_bound(2)] dec_char6 [OF idx_bound(3)] dec_pad j [symmetric] s])
        (simp only: dec_bytes cmp emit_at emit_at' Option.bind.simps prod.case base64_decode_end list.size add_0_left, simp)
  qed
qed

lemma base64_decode_run:
  assumes "xs \<noteq> []" and "int (length xs) \<le> dlen" and "dlen \<le> int (length dst)" and "dlen < 2 ^ 31"
  shows "base64_decode dst dlen (b64 xs) (int (length (b64 xs))) =
    Some ((xs @ drop (length xs) dst, int (length xs)), 0)"
proof -
  define m where "m = length xs div 3"
  define us ys where "us = take (3 * m) xs" and "ys = drop (3 * m) xs"
  have xs: "xs = us @ ys" by (simp add: us_def ys_def)
  have lu: "length us = 3 * m" and ly: "length ys < 3" by (simp_all add: us_def ys_def m_def)
  have b: "b64 xs = b64 us @ b64 ys" unfolding xs using lu by (intro b64_append) simp
  have lbu: "length (b64 us) = 4 * m" using lu by (simp add: length_b64)
  have big: "4 \<le> length (b64 xs)" using assms(1) by (simp add: length_b64) (cases xs, auto)
  have len: "length xs \<le> length dst" using assms(2,3) by linarith
  define o1 o2 where "o1 = take (3 * m) dst" and "o2 = take (length ys) (drop (3 * m) dst)"
  have "take (length xs) dst = o1 @ o2" unfolding o1_def o2_def by (simp add: xs lu take_add)
  then have dst: "dst = [] @ o1 @ o2 @ drop (length xs) dst"
    by (metis append_Nil append_assoc append_take_drop_id)
  have lo: "length o1 = 3 * m" "length o2 = length ys" using len by (simp_all add: o1_def o2_def xs lu)
  have "base64_skip_spaces (b64 xs) (length (b64 xs)) = Some (length (b64 xs))"
    using base64_skip_spaces_stop [of "length (b64 xs) - 1" "b64 xs"] big b64_last [OF assms(1)]
    by (simp add: last_conv_nth b64_Nil_iff assms(1) Suc_diff_1)
  then have "base64_decode dst dlen (b64 xs) (int (length (b64 xs))) =
      base64_decode_loop dst 0 dlen (b64 xs) 0 (length (b64 xs)) 3 0"
    using big assms(1,2) by (cases xs) (auto simp: base64_decode_def)
  also have "\<dots> = base64_decode_loop (us @ o2 @ drop (length xs) dst) (3 * m) dlen (b64 xs) (4 * m) (length (b64 xs)) 3 (of_nat (3 * m))"
    using base64_decode_full [OF lu lo(1) assms(4), of 0 "[]" "length (b64 xs)" "[]" "o2 @ drop (length xs) dst" "b64 ys"]
      assms(2) dst b lbu xs lu by simp
  also have "\<dots> = Some ((us @ ys @ drop (length xs) dst, int (length us + length ys)), 0)"
  proof -
    have "3 * m < 2 ^ 32" using assms(2,4) xs lu by simp
    then have u: "unat (of_nat (3 * m) :: u32) = 3 * m" by (simp only: unat_of_nat) (simp add: take_bit_nat_eq_self)
    have "base64_decode_loop (us @ o2 @ drop (length xs) dst) (length us) dlen (b64 us @ b64 ys) (length (b64 us))
        (length (b64 xs)) 3 (of_nat (3 * m)) = Some ((us @ ys @ drop (length xs) dst, int (length us + length ys)), 0)"
      by (rule base64_decode_tail [OF ly lo(2) assms(4)]) (use u assms(2) xs lu b in \<open>simp_all only: length_append\<close>)
    then show ?thesis unfolding lu lbu b .
  qed
  finally show ?thesis using xs by simp
qed

end
