(* ===== verification/Base64Old.thy ===== *)
theory Base64Old
  imports Base64Spec
begin

text \<open>
  The older decoder \<open>base64_decode_old\<close>, which shifts the indices through a 64-bit accumulator, and
  the properties of \<open>base64.c\<close>.
\<close>

section \<open>The older decoder\<close>

definition acc :: "u64 \<Rightarrow> u8 \<Rightarrow> u64" where
  "acc x t = push_bit 6 x OR (ucast t AND 0x3F)"

lemma acc_bytes:
  "ucast (drop_bit 16 (acc (acc (acc (acc x (idx1 a)) (idx2 a b)) t2) t3)) = a"
  "ucast (drop_bit 8 (acc (acc (acc (acc x t0) (idx2 a b)) (idx3 b c)) t3)) = b"
  "ucast (acc (acc (acc (acc x t0) t1) (idx3 b c)) (idx4 c)) = c"
proof -
  have high: "8 \<le> n \<Longrightarrow> \<not> bit (y :: u8) n" for y n using bit8_less [of y n] by auto
  have m: "(y AND 63 :: u64) = take_bit 6 y" for y by (simp add: take_bit_eq_mask mask_eq_exp_minus_1)
  show "ucast (drop_bit 16 (acc (acc (acc (acc x (idx1 a)) (idx2 a b)) t2) t3)) = a"
    "ucast (drop_bit 8 (acc (acc (acc (acc x t0) (idx2 a b)) (idx3 b c)) t3)) = b"
    "ucast (acc (acc (acc (acc x t0) t1) (idx3 b c)) (idx4 c)) = c"
    unfolding acc_def idx_defs mask8 m by (rule u8_eqI; simp add: bit_simps high)+
qed

definition pads :: "u8 \<Rightarrow> int" where
  "pads t = (if t = 64 then 1 else 0)"

lemma base64_old_step:
  assumes "c \<noteq> 10" and "c \<noteq> 13" and "dec_at c = Some t" and "n < 3"
  shows "base64_old_loop dst p (spre @ c # rest) (length spre) (Suc i) j n x =
    base64_old_loop dst p (spre @ c # rest) (length spre + 1) i (j - pads t) (n + 1) (acc x t)"
proof -
  have f: "(c = 13 \<or> c = 10) = False" "(n + 1 = 4) = False" using assms by auto
  show ?thesis
    unfolding base64_old_loop.simps
    by (simp only: get_at_app assms(3) f if_False Option.bind.simps Let_def acc_def [symmetric])
      (simp add: pads_def)
qed

lemma base64_old_last:
  assumes "c \<noteq> 10" and "c \<noteq> 13" and "dec_at c = Some t"
  shows "base64_old_loop dst p (spre @ c # rest) (length spre) (Suc i) j 3 x = do {
     (dst, p) \<leftarrow> emit (j - pads t > 0) dst p (ucast (drop_bit 16 (acc x t)));
     (dst, p) \<leftarrow> emit (j - pads t > 1) dst p (ucast (drop_bit 8 (acc x t)));
     (dst, p) \<leftarrow> emit (j - pads t > 2) dst p (ucast (acc x t));
     base64_old_loop dst p (spre @ c # rest) (length spre + 1) i (j - pads t) 0 (acc x t) }"
proof -
  have f: "(c = 13 \<or> c = 10) = False" "(3 + 1 = (4::nat)) = True" using assms by auto
  have j: "(if t = 64 then j - 1 else j) = j - pads t" by (simp add: pads_def)
  show ?thesis
    unfolding base64_old_loop.simps
    by (simp only: get_at_app assms(3) f if_False if_True Option.bind.simps Let_def acc_def [symmetric] j)
qed

lemma base64_old_group:
  assumes "c0 \<notin> {10, 13}" and "c1 \<notin> {10, 13}" and "c2 \<notin> {10, 13}" and "c3 \<notin> {10, 13}"
    and "dec_at c0 = Some t0" and "dec_at c1 = Some t1" and "dec_at c2 = Some t2" and "dec_at c3 = Some t3"
    and j: "j' = j - pads t0 - pads t1 - pads t2 - pads t3" and x: "x' = acc (acc (acc (acc x t0) t1) t2) t3"
  shows "base64_old_loop dst p (spre @ c0 # c1 # c2 # c3 # rest) (length spre) (i + 4) j 0 x = do {
     (dst, p) \<leftarrow> emit (j' > 0) dst p (ucast (drop_bit 16 x'));
     (dst, p) \<leftarrow> emit (j' > 1) dst p (ucast (drop_bit 8 x'));
     (dst, p) \<leftarrow> emit (j' > 2) dst p (ucast x');
     base64_old_loop dst p (spre @ c0 # c1 # c2 # c3 # rest) (length spre + 4) i j' 0 x' }"
proof -
  have c: "c0 \<noteq> 10" "c0 \<noteq> 13" "c1 \<noteq> 10" "c1 \<noteq> 13" "c2 \<noteq> 10" "c2 \<noteq> 13" "c3 \<noteq> 10" "c3 \<noteq> 13" using assms(1-4) by auto
  have s: "i + 4 = Suc (Suc (Suc (Suc i)))" by simp
  note 1 = base64_old_step [OF c(1,2) assms(5), where n = 0 and spre = spre and rest = "c1 # c2 # c3 # rest" and p = p and dst = dst and x = x and j = j]
  note 2 = base64_old_step [OF c(3,4) assms(6), where n = 1 and spre = "spre @ [c0]" and rest = "c2 # c3 # rest" and p = p and dst = dst]
  note 3 = base64_old_step [OF c(5,6) assms(7), where n = 2 and spre = "spre @ [c0, c1]" and rest = "c3 # rest" and p = p and dst = dst]
  note 4 = base64_old_last [OF c(7,8) assms(8), where spre = "spre @ [c0, c1, c2]" and rest = rest and p = p and dst = dst]
  show ?thesis
    unfolding s j x using 1 2 3 4 by (simp add: numeral_eq_Suc)
qed

lemma pads_idx: "unat i < 64 \<Longrightarrow> pads i = 0"
  using idx_not_64 [of i] by (simp add: pads_def)

lemma char6_no_break: "unat i < 64 \<Longrightarrow> char6 i \<notin> {10, 13}"
  using char6_not_special by auto

lemmas idx_ok = idx_bound [THEN dec_char6] idx_bound [THEN char6_no_break] idx_bound [THEN pads_idx]

lemma base64_old_full:
  assumes "length xs = 3 * m" and "length out = 3 * m"
  shows "\<exists>x'. base64_old_loop (pre @ out @ buf) (length pre) (spre @ b64 xs @ ys) (length spre) (i + 4 * m) 3 0 x =
    base64_old_loop (pre @ xs @ buf) (length pre + 3 * m) (spre @ b64 xs @ ys) (length spre + 4 * m) i 3 0 x'"
  using assms
proof (induction m arbitrary: xs out pre spre x)
  case 0
  then show ?case by auto
next
  case (Suc m)
  obtain a b c xs' where xs: "xs = a # b # c # xs'" "length xs' = 3 * m" using length_Suc3 [OF Suc.prems(1)] by auto
  obtain o1 o2 o3 out' where out: "out = o1 # o2 # o3 # out'" "length out' = 3 * m"
    using length_Suc3 [OF Suc.prems(2)] by auto
  have l: "length (pre @ [x, y, z]) = length pre + 3" "length (spre @ [u, v, w, t]) = length spre + 4"
      "length pre + 3 + 3 * m = length pre + 3 * Suc m" "length spre + 4 + 4 * m = length spre + 4 * Suc m"
      "length pre + 1 + 1 + 1 = length pre + 3" "i + 4 * Suc m = i + 4 * m + 4"
      for x y z u v w t :: u8 by simp_all
  let ?x = "acc (acc (acc (acc x (idx1 a)) (idx2 a b)) (idx3 b c)) (idx4 c)"
  let ?s = "spre @ [char6 (idx1 a), char6 (idx2 a b), char6 (idx3 b c), char6 (idx4 c)]"
  obtain x' where IH: "base64_old_loop ((pre @ [a, b, c]) @ out' @ buf) (length (pre @ [a, b, c]))
      (?s @ b64 xs' @ ys) (length ?s) (i + 4 * m) 3 0 ?x =
    base64_old_loop ((pre @ [a, b, c]) @ xs' @ buf) (length (pre @ [a, b, c]) + 3 * m)
      (?s @ b64 xs' @ ys) (length ?s + 4 * m) i 3 0 x'"
    using Suc.IH [OF xs(2) out(2)] by blast
  have j: "(3::int) = 3 - pads (idx1 a) - pads (idx2 a b) - pads (idx3 b c) - pads (idx4 c)"
    by (simp add: idx_ok)
  have cmp: "((0::int) < 3) = True" "((1::int) < 3) = True" "((2::int) < 3) = True" by simp_all
  have step: "base64_old_loop (pre @ out @ buf) (length pre) (spre @ b64 xs @ ys) (length spre) (i + 4 * Suc m) 3 0 x =
    base64_old_loop (pre @ a # b # c # out' @ buf) (length pre + 3) (spre @ b64 xs @ ys) (length spre + 4) (i + 4 * m) 3 0 ?x"
    unfolding xs(1) out(1) b64.simps append_Cons l(6)
    by (subst base64_old_group [OF idx_ok(5,6,7,8) idx_ok(1,2,3,4) j refl])
      (simp only: acc_bytes cmp emit_at emit_at' Option.bind.simps prod.case l)
  have "base64_old_loop (pre @ out @ buf) (length pre) (spre @ b64 xs @ ys) (length spre) (i + 4 * Suc m) 3 0 x =
    base64_old_loop (pre @ xs @ buf) (length pre + 3 * Suc m) (spre @ b64 xs @ ys) (length spre + 4 * Suc m) i 3 0 x'"
    using step [unfolded xs(1) b64.simps append_Cons] IH [unfolded l append_assoc append_Cons append_Nil]
    unfolding xs(1) b64.simps append_Cons l(6) by (rule trans)
  then show ?case by blast
qed

lemma base64_old_tail:
  assumes "length xs < 3" and "length out = length xs"
  shows "base64_old_loop (pre @ out @ buf) (length pre) (spre @ b64 xs) (length spre) (length (b64 xs)) 3 0 x =
    Some (pre @ xs @ buf, length pre + length xs)"
proof -
  have p64: "pads 64 = 1" "(61::u8) \<notin> {10, 13}" by (simp_all add: pads_def)
  have "xs = [] \<or> (\<exists>a. xs = [a]) \<or> (\<exists>a b. xs = [a, b])"
    using assms(1) by (cases xs; cases "tl xs"; cases "tl (tl xs)") auto
  then show ?thesis
  proof (elim disjE exE)
    assume "xs = []"
    with assms show ?thesis by simp
  next
    fix a
    assume xs: "xs = [a]"
    then obtain o1 where out: "out = [o1]" using assms(2) by (cases out) auto
    have j: "(1::int) = 3 - pads (idx1 a) - pads (idx2 a 0) - pads 64 - pads 64" by (simp add: idx_ok p64)
    have cmp: "((0::int) < 1) = True" "((1::int) < 1) = False" "((2::int) < 1) = False" by simp_all
    have l: "length (b64 xs) = 0 + 4" using xs by simp
    show ?thesis
      unfolding l unfolding xs out b64.simps append_Cons append_Nil
      by (subst base64_old_group [OF idx_ok(5,6) p64(2,2) idx_ok(1,2) dec_pad dec_pad j refl])
        (simp only: acc_bytes cmp emit_at Option.bind.simps prod.case base64_old_loop.simps, simp)
  next
    fix a b
    assume xs: "xs = [a, b]"
    then obtain o1 o2 where out: "out = [o1, o2]" using assms(2) by (cases out; cases "tl out") auto
    have j: "(2::int) = 3 - pads (idx1 a) - pads (idx2 a b) - pads (idx3 b 0) - pads 64" by (simp add: idx_ok p64)
    have cmp: "((0::int) < 2) = True" "((1::int) < 2) = True" "((2::int) < 2) = False" by simp_all
    have l: "length (b64 xs) = 0 + 4" using xs by simp
    show ?thesis
      unfolding l unfolding xs out b64.simps append_Cons append_Nil
      by (subst base64_old_group [OF idx_ok(5,6,7) p64(2) idx_ok(1,2,3) dec_pad j refl])
        (simp only: acc_bytes cmp emit_at emit_at' Option.bind.simps prod.case base64_old_loop.simps, simp)
  qed
qed

lemma b64_significant: "c \<in> set (b64 xs) \<Longrightarrow> c \<notin> {10, 13} \<and> dec_at c \<noteq> None"
  by (induction xs rule: b64.induct) (auto simp: dec_pad idx_ok(1-4) idx_bound [THEN char6_not_special(1)]
      idx_bound [THEN char6_not_special(2)])

lemma base64_old_count_run:
  assumes "\<And>c. c \<in> set ys \<Longrightarrow> c \<notin> {10, 13} \<and> dec_at c \<noteq> None"
  shows "base64_old_count (xs @ ys) (length ys) (length xs) n = Some (n + length ys)"
  using assms
proof (induction ys arbitrary: xs n)
  case Nil
  then show ?case by simp
next
  case (Cons c ys)
  from Cons.prems [of c] obtain t where t: "dec_at c = Some t" "c \<noteq> 10" "c \<noteq> 13" by auto
  have "base64_old_count ((xs @ [c]) @ ys) (length ys) (length (xs @ [c])) (n + 1) = Some (n + 1 + length ys)"
    by (rule Cons.IH) (use Cons.prems in auto)
  with t show ?case by (simp add: get_at_app)
qed

lemma base64_decode_old_run:
  assumes "xs \<noteq> []" and "length xs < 2 ^ 28" and "int (3 * ((length xs + 2) div 3)) \<le> dlen"
    and "dlen \<le> int (length dst)"
  shows "base64_decode_old dst dlen (b64 xs) (length (b64 xs)) =
    Some ((xs @ drop (length xs) dst, int (length xs)), 0)"
proof -
  define m where "m = length xs div 3"
  define us ys where "us = take (3 * m) xs" and "ys = drop (3 * m) xs"
  have xs: "xs = us @ ys" by (simp add: us_def ys_def)
  have lu: "length us = 3 * m" and ly: "length ys < 3" by (simp_all add: us_def ys_def m_def)
  have b: "b64 xs = b64 us @ b64 ys" unfolding xs using lu by (intro b64_append) simp
  have lbu: "length (b64 us) = 4 * m" using lu by (simp add: length_b64)
  define k where "k = (length xs + 2) div 3"
  have k: "length (b64 xs) = 4 * k" "length xs \<le> 3 * k" "0 < k" "k \<le> 89478485"
    using assms(1,2) by (auto simp: k_def length_b64 Suc_le_eq div_greater_zero_iff)
  have len: "length xs \<le> length dst" using assms(3,4) k(2) unfolding k_def [symmetric] by linarith
  define o1 o2 where "o1 = take (3 * m) dst" and "o2 = take (length ys) (drop (3 * m) dst)"
  have "take (length xs) dst = o1 @ o2" unfolding o1_def o2_def by (simp add: xs lu take_add)
  then have dst: "dst = [] @ o1 @ o2 @ drop (length xs) dst"
    by (metis append_Nil append_assoc append_take_drop_id)
  have lo: "length o1 = 3 * m" "length o2 = length ys" using len by (simp_all add: o1_def o2_def xs lu)
  have cnt: "base64_old_count (b64 xs) (length (b64 xs)) 0 0 = Some (4 * k)"
    using base64_old_count_run [of "b64 xs" "[]" 0] b64_significant k(1) by simp
  obtain x' where full: "base64_old_loop (o1 @ o2 @ drop (length xs) dst) 0 (b64 us @ b64 ys) 0
      (length (b64 ys) + 4 * m) 3 0 0 =
      base64_old_loop (us @ o2 @ drop (length xs) dst) (3 * m) (b64 us @ b64 ys) (4 * m) (length (b64 ys)) 3 0 x'"
    using base64_old_full [OF lu lo(1), of "[]" "o2 @ drop (length xs) dst" "[]" "b64 ys" "length (b64 ys)" 0] by auto
  have "base64_old_loop dst 0 (b64 xs) 0 (length (b64 xs)) 3 0 0 =
      base64_old_loop (us @ o2 @ drop (length xs) dst) (length us) (b64 us @ b64 ys) (length (b64 us)) (length (b64 ys)) 3 0 x'"
    using full dst b lbu lu by (simp add: add.commute)
  also have "\<dots> = Some (us @ ys @ drop (length xs) dst, length us + length ys)"
    by (rule base64_old_tail [OF ly lo(2)])
  finally have loop: "base64_old_loop dst 0 (b64 xs) 0 (length (b64 xs)) 3 0 0 = Some (xs @ drop (length xs) dst, length xs)"
    using xs by simp
  have "(4 * k * 6 + 7) div 8 = 3 * k" by simp
  then show ?thesis
    using cnt loop k assms(3) unfolding k_def [symmetric] by (simp add: base64_decode_old_def)
qed

section \<open>Properties\<close>

text \<open>C31: the encoder is memory safe and correct: with a destination of \<open>*dlen\<close> bytes that is large enough
  it writes the base64 encoding of the source followed by a zero byte, touches nothing behind it,
  and sets \<open>*dlen\<close> to the length of the encoding; with a smaller \<open>*dlen\<close> it writes nothing, asks for
  exactly the length it needs and fails.\<close>

theorem base64_encode_correct:
  assumes "src \<noteq> []" and "length src < 2 ^ 28" and "dlen \<le> int (length dst)"
  shows "base64_encode dst dlen src (int (length src)) =
    (if int (length (b64 src)) < dlen
     then Some ((b64 src @ 0 # drop (Suc (length (b64 src))) dst, int (length (b64 src))), 0)
     else Some ((dst, int (length (b64 src)) + 1), XYSSL_ERR_BASE64_BUFFER_TOO_SMALL))"
proof (cases "int (length (b64 src)) < dlen")
  case True
  then show ?thesis using base64_encode_run [OF assms(1,2) True assms(3)] by simp
next
  case False
  have "base64_encoded_len (int (length src)) = int (length (b64 src))"
    by (simp add: encoded_len length_b64)
  with False assms(1,2) show ?thesis by (simp add: base64_encode_def Let_def)
qed

theorem base64_encode_correct_witness:
  "base64_encode [9, 9, 9, 9, 9, 9] 6 [77] 1 = Some (([84, 81, 61, 61, 0, 9], 4), 0)"
proof -
  have "b64 [77] = [84, 81, 61, 61]"
    by (simp add: idx1_def idx2_def char6_def base64_enc_map_def)
  then show ?thesis using base64_encode_correct [of "[77]" 6 "[9, 9, 9, 9, 9, 9]"] by simp
qed

text \<open>C14: round trip.  Decoding what the encoder produced gives back the source bytes, and \<open>*dlen\<close> their
  number, without reading or writing outside the buffers.\<close>

theorem base64_roundtrip:
  assumes "src \<noteq> []" and "length src < 2 ^ 28" and "int (length (b64 src)) < elen" and "elen \<le> int (length enc)"
    and "int (length src) \<le> dlen" and "dlen \<le> int (length dst)" and "dlen < 2 ^ 31"
  shows "\<exists>enc' n. base64_encode enc elen src (int (length src)) = Some ((enc', n), 0) \<and>
    base64_decode dst dlen (take (nat n) enc') n = Some ((src @ drop (length src) dst, int (length src)), 0)"
  using base64_encode_run [OF assms(1-4)] base64_decode_run [OF assms(1,5-7)] by simp

theorem base64_roundtrip_witness:
  "\<exists>enc' n. base64_encode (replicate 9 0) 9 [1, 2, 3, 4] 4 = Some ((enc', n), 0) \<and>
     base64_decode [7, 7, 7, 7, 7] 5 (take (nat n) enc') n = Some (([1, 2, 3, 4, 7], 4), 0)"
  using base64_roundtrip [of "[1, 2, 3, 4]" 9 "replicate 9 0" 5 "[7, 7, 7, 7, 7]"] by simp

text \<open>C32: on encoded data the two decoders agree, when the destination has room for whole groups.\<close>

theorem base64_decoders_agree:
  assumes "src \<noteq> []" and "length src < 2 ^ 28" and "int (3 * ((length src + 2) div 3)) \<le> dlen"
    and "dlen \<le> int (length dst)" and "dlen < 2 ^ 31"
  shows "base64_decode_old dst dlen (b64 src) (length (b64 src)) =
    base64_decode dst dlen (b64 src) (int (length (b64 src)))"
proof -
  have "int (length src) \<le> dlen" using assms(3) by linarith
  then show ?thesis
    using base64_decode_old_run [OF assms(1-4)] base64_decode_run [OF assms(1) _ assms(4,5)] by simp
qed

theorem base64_decoders_agree_witness:
  "base64_decode_old [0, 0, 0, 0, 0, 0] 6 (b64 [1, 2, 3, 4]) (length (b64 [1, 2, 3, 4])) =
   base64_decode [0, 0, 0, 0, 0, 0] 6 (b64 [1, 2, 3, 4]) (int (length (b64 [1, 2, 3, 4])))"
  by (rule base64_decoders_agree) simp_all


end
