(* ===== verification/EventQueue.thy ===== *)
theory EventQueue
  imports Chains
begin

text \<open>
  The event queue of \<open>demo_event/event_queue.h\<close>: a circular list of entries with a sentinel.  Entries
  live in a heap; events are the pointers the caller passes.  The queue refines a list: pushing
  appends, popping takes the head.  The locale \<open>fifo\<close> is the contract its client \<open>event.c\<close> uses.
\<close>

section \<open>Definitions\<close>

record eq_entry =
  ee_e :: ptr
  ee_prev :: ptr
  ee_next :: ptr

record dequeue =
  dq_head :: ptr
  dq_tail :: ptr
  dq_size :: int
  entries :: "ptr \<Rightarrow> eq_entry option"

text \<open>Assignment to a field of the entry at \<open>p\<close>.\<close>

definition upd_entry :: "dequeue \<Rightarrow> ptr \<Rightarrow> (eq_entry \<Rightarrow> eq_entry) \<Rightarrow> dequeue option" where
  "upd_entry dq p f = do {
     ensure (p \<noteq> NULL);
     e \<leftarrow> entries dq p;
     Some (dq\<lparr>entries := (entries dq)(p \<mapsto> f e)\<rparr>) }"

text \<open>\<open>new\<close> is the result of \<open>malloc\<close>, which is not checked.\<close>

definition dequeue_create_entry :: "dequeue \<Rightarrow> ptr \<Rightarrow> ptr \<Rightarrow> dequeue option" where
  "dequeue_create_entry dq e new = do {
     ensure (new \<noteq> NULL);
     Some (dq\<lparr>entries := (entries dq)(new \<mapsto> \<lparr>ee_e = e, ee_prev = NULL, ee_next = NULL\<rparr>)\<rparr>) }"

definition dequeue_create :: "ptr \<Rightarrow> dequeue option" where
  "dequeue_create new = do {
     dq \<leftarrow> dequeue_create_entry \<lparr>dq_head = NULL, dq_tail = NULL, dq_size = 0, entries = (\<lambda>_. None)\<rparr> NULL new;
     let dq = dq\<lparr>dq_head := new\<rparr>;
     dq \<leftarrow> upd_entry dq (dq_head dq) (\<lambda>h. h\<lparr>ee_prev := dq_head dq\<rparr>);
     dq \<leftarrow> upd_entry dq (dq_head dq) (\<lambda>h. h\<lparr>ee_next := NULL\<rparr>);
     Some (dq\<lparr>dq_tail := dq_head dq, dq_size := 0\<rparr>) }"

definition dequeue_empty :: "dequeue \<Rightarrow> bool" where
  "dequeue_empty dq \<longleftrightarrow> dq_size dq = 0"

definition dequeue_size :: "dequeue \<Rightarrow> int" where
  "dequeue_size dq = dq_size dq"

definition dequeue_push :: "dequeue \<Rightarrow> ptr \<Rightarrow> ptr \<Rightarrow> dequeue option" where
  "dequeue_push dq e new = do {
     dq \<leftarrow> dequeue_create_entry dq e new;
     dq \<leftarrow> upd_entry dq new (\<lambda>x. x\<lparr>ee_prev := dq_tail dq\<rparr>);
     dq \<leftarrow> upd_entry dq (dq_tail dq) (\<lambda>x. x\<lparr>ee_next := new\<rparr>);
     let dq = dq\<lparr>dq_tail := new\<rparr>;
     dq \<leftarrow> upd_entry dq (dq_head dq) (\<lambda>x. x\<lparr>ee_prev := dq_tail dq\<rparr>);
     dq \<leftarrow> upd_entry dq (dq_tail dq) (\<lambda>x. x\<lparr>ee_next := dq_head dq\<rparr>);
     ensure (dq_size dq < 2 ^ 31 - 1);
     Some (dq\<lparr>dq_size := dq_size dq + 1\<rparr>) }"

text \<open>The entry at \<open>p\<close>, for reading one of its fields.\<close>

definition entry_at :: "dequeue \<Rightarrow> ptr \<Rightarrow> eq_entry option" where
  "entry_at dq p = (if p = NULL then None else entries dq p)"

definition dequeue_pop :: "dequeue \<Rightarrow> (dequeue \<times> ptr) option" where
  "dequeue_pop dq =
     (if dq_size dq = 0 then Some (dq, NULL)
      else do {
        h \<leftarrow> entry_at dq (dq_head dq);
        let entry = ee_next h;
        if entry = dq_tail dq then do {
          let dq = dq\<lparr>dq_tail := dq_head dq, dq_size := dq_size dq - 1\<rparr>;
          x \<leftarrow> entry_at dq entry;
          Some (dq, ee_e x) }
        else do {
          x \<leftarrow> entry_at dq entry;
          dq \<leftarrow> upd_entry dq (dq_head dq) (\<lambda>h. h\<lparr>ee_next := ee_next x\<rparr>);
          x \<leftarrow> entry_at dq entry;
          dq \<leftarrow> upd_entry dq (ee_next x) (\<lambda>y. y\<lparr>ee_prev := ee_prev x\<rparr>);
          let dq = dq\<lparr>dq_size := dq_size dq - 1\<rparr>;
          x \<leftarrow> entry_at dq entry;
          Some (dq, ee_e x) } })"

text \<open>The loop of \<open>dequeue_free\<close>; the result is the heap that is left.\<close>

partial_function (option) dequeue_free_loop :: "ptr \<Rightarrow> dequeue \<Rightarrow> ptr \<Rightarrow> (ptr \<Rightarrow> eq_entry option) option" where
  "dequeue_free_loop head dq p1 = do {
     x \<leftarrow> entry_at dq p1;
     if ee_next x \<noteq> head then
       dequeue_free_loop head (dq\<lparr>entries := (entries dq)(p1 := None)\<rparr>) (ee_next x)
     else Some (entries dq) }"

definition dequeue_free :: "dequeue \<Rightarrow> (ptr \<Rightarrow> eq_entry option) option" where
  "dequeue_free dq = dequeue_free_loop (dq_head dq) dq (dq_head dq)"

section \<open>Refinement to lists\<close>

text \<open>\<open>eq_rep dq xs\<close>: the queued entries, oldest first.\<close>

definition eq_rep :: "dequeue \<Rightarrow> ptr list \<Rightarrow> bool" where
  "eq_rep dq xs \<longleftrightarrow> dq_head dq \<noteq> NULL \<and> (\<exists>h. entries dq (dq_head dq) = Some h) \<and>
     dq_size dq = int (length xs) \<and> distinct xs \<and> dq_head dq \<notin> set xs \<and>
     dq_tail dq = last (dq_head dq # xs) \<and>
     (xs \<noteq> [] \<longrightarrow> seg (\<lambda>p. map_option ee_next (entries dq p)) (ee_next (the (entries dq (dq_head dq)))) xs (dq_head dq))"

definition eq_nodes :: "dequeue \<Rightarrow> ptr list" where
  "eq_nodes dq = (if dq_size dq = 0 then [] else
     walk (\<lambda>p. map_option ee_next (entries dq p)) (nat (dq_size dq)) (ee_next (the (entries dq (dq_head dq)))))"

definition eq_inv :: "dequeue \<Rightarrow> bool" where
  "eq_inv dq \<longleftrightarrow> eq_rep dq (eq_nodes dq)"

definition eq_abs :: "dequeue \<Rightarrow> ptr list" where
  "eq_abs dq = map (\<lambda>p. ee_e (the (entries dq p))) (eq_nodes dq)"

definition eq_fresh :: "ptr \<Rightarrow> dequeue \<Rightarrow> bool" where
  "eq_fresh new dq \<longleftrightarrow> new \<noteq> NULL \<and> entries dq new = None \<and> dq_size dq < 2 ^ 31 - 1"

locale fifo =
  fixes qinv :: "'q \<Rightarrow> bool" and qabs :: "'q \<Rightarrow> ptr list" and qempty :: "'q \<Rightarrow> bool"
    and qfresh :: "ptr \<Rightarrow> 'q \<Rightarrow> bool"
    and qpush :: "'q \<Rightarrow> ptr \<Rightarrow> ptr \<Rightarrow> 'q option" and qpop :: "'q \<Rightarrow> ('q \<times> ptr) option"
  assumes empty_law: "qinv q \<Longrightarrow> qempty q \<longleftrightarrow> qabs q = []"
    and push_law: "qinv q \<Longrightarrow> qfresh new q \<Longrightarrow> \<exists>q'. qpush q e new = Some q' \<and> qinv q' \<and> qabs q' = qabs q @ [e]"
    and pop_law: "qinv q \<Longrightarrow> qabs q = x # xs \<Longrightarrow> \<exists>q'. qpop q = Some (q', x) \<and> qinv q' \<and> qabs q' = xs"

lemma seg_walk: "seg n p xs q \<Longrightarrow> walk n (length xs) p = xs"
  by (induction xs arbitrary: p) (auto split: option.splits)

lemma eq_rep_nodes: "eq_rep dq xs \<Longrightarrow> eq_nodes dq = xs"
  by (auto simp: eq_rep_def eq_nodes_def intro: seg_walk)

lemma eq_inv_iff: "eq_inv dq \<longleftrightarrow> (\<exists>xs. eq_rep dq xs)"
  using eq_rep_nodes by (auto simp: eq_inv_def)

lemma eq_rep_abs: "eq_rep dq xs \<Longrightarrow> eq_abs dq = map (\<lambda>p. ee_e (the (entries dq p))) xs"
  by (simp add: eq_abs_def eq_rep_nodes)

lemma seg_allocated: "seg n p xs q \<Longrightarrow> x \<in> set xs \<Longrightarrow> x \<noteq> NULL \<and> n x \<noteq> None"
  by (induction xs arbitrary: p) (auto split: option.splits)

lemma eq_rep_node:
  assumes "eq_rep dq xs" and "p \<in> set (dq_head dq # xs)"
  shows "p \<noteq> NULL \<and> (\<exists>e. entries dq p = Some e)"
proof (cases "p = dq_head dq")
  case True
  with assms(1) show ?thesis by (auto simp: eq_rep_def)
next
  case False
  with assms have "seg (\<lambda>p. map_option ee_next (entries dq p)) (ee_next (the (entries dq (dq_head dq)))) xs (dq_head dq)"
    "p \<in> set xs" by (auto simp: eq_rep_def)
  from seg_allocated [OF this] show ?thesis by auto
qed

lemma dequeue_push_rep:
  assumes rep: "eq_rep dq xs" and fr: "eq_fresh new dq"
  shows "\<exists>dq'. dequeue_push dq e new = Some dq' \<and> eq_rep dq' (xs @ [new]) \<and>
    (\<forall>p\<in>set xs. ee_e (the (entries dq' p)) = ee_e (the (entries dq p))) \<and> ee_e (the (entries dq' new)) = e \<and>
    dq_head dq' = dq_head dq"
proof -
  let ?h = "dq_head dq" and ?t = "dq_tail dq" and ?n = "\<lambda>p. map_option ee_next (entries dq p)"
  have tl: "?t = last (?h # xs)" using rep by (simp add: eq_rep_def)
  then have tin: "?t \<in> set (?h # xs)" by (metis last_in_set list.distinct(1))
  obtain h where h: "entries dq ?h = Some h" "?h \<noteq> NULL" using eq_rep_node [OF rep, of ?h] by auto
  obtain t where t: "entries dq ?t = Some t" "?t \<noteq> NULL" using eq_rep_node [OF rep tin] by auto
  have n: "new \<noteq> NULL" "entries dq new = None" "dq_size dq < 2 ^ 31 - 1" using fr by (simp_all add: eq_fresh_def)
  have nn: "new \<notin> set (?h # xs)" using eq_rep_node [OF rep] n(2) by force
  define g where "g = (\<lambda>p. if p = new then Some \<lparr>ee_e = e, ee_prev = ?t, ee_next = ?h\<rparr>
      else if p = ?h then Some (h\<lparr>ee_prev := new, ee_next := (if ?t = ?h then new else ee_next h)\<rparr>)
      else if p = ?t then Some (t\<lparr>ee_next := new\<rparr>) else entries dq p)"
  let ?dq = "dq\<lparr>dq_tail := new, dq_size := dq_size dq + 1, entries := g\<rparr>"
  have ne: "?h \<noteq> new" "?t \<noteq> new" using nn tin by auto
  have run: "dequeue_push dq e new = Some ?dq"
  proof (cases "?t = ?h")
    case True
    with n h ne show ?thesis
      by (simp add: dequeue_push_def dequeue_create_entry_def upd_entry_def g_def fun_upd_def fun_eq_iff cong: if_cong)
  next
    case False
    have "g = (entries dq)(new \<mapsto> \<lparr>ee_e = e, ee_prev = ?t, ee_next = ?h\<rparr>, ?t \<mapsto> t\<lparr>ee_next := new\<rparr>, ?h \<mapsto> h\<lparr>ee_prev := new\<rparr>)"
      using False ne by (cases h) (auto simp: g_def fun_eq_iff)
    with False n h t ne show ?thesis
      by (simp add: dequeue_push_def dequeue_create_entry_def upd_entry_def fun_upd_twist)
  qed
  have gn: "(\<lambda>p. map_option ee_next (g p)) = (if ?t = ?h then ?n(?h \<mapsto> new, new \<mapsto> ?h) else ?n(?t \<mapsto> new, new \<mapsto> ?h))"
    using h t ne by (auto simp: g_def fun_eq_iff)
  have "seg (\<lambda>p. map_option ee_next (g p)) (ee_next (the (g ?h))) (xs @ [new]) ?h"
  proof (cases xs rule: rev_cases)
    case Nil
    with tl ne n show ?thesis by (simp add: g_def)
  next
    case (snoc ys a)
    with rep tl have a: "?t = a" "a \<noteq> ?h" "seg ?n (ee_next h) (ys @ [a]) ?h" "distinct (ys @ [a])"
      using h(1) by (auto simp: eq_rep_def)
    have "seg (?n(a \<mapsto> new)) (ee_next h) (ys @ [a]) new" by (rule seg_redirect [OF a(3,4)])
    moreover have "new \<notin> set (ys @ [a])" using nn snoc by auto
    ultimately have "seg (?n(a \<mapsto> new, new \<mapsto> ?h)) (ee_next h) (ys @ [a]) new" by (simp only: seg_upd not_False_eq_True)
    moreover have "ee_next (the (g ?h)) = ee_next h" using a ne by (simp add: g_def)
    ultimately show ?thesis
      unfolding gn using a snoc n by (auto simp: seg_append)
  qed
  moreover have "distinct (xs @ [new])" "?h \<notin> set (xs @ [new])" using rep nn by (auto simp: eq_rep_def)
  ultimately have "eq_rep ?dq (xs @ [new])"
    using rep h ne by (auto simp: eq_rep_def g_def)
  moreover have "\<forall>p\<in>set xs. ee_e (the (g p)) = ee_e (the (entries dq p))"
    using nn t h by (auto simp: g_def)
  moreover have "ee_e (the (g new)) = e" by (simp add: g_def)
  ultimately show ?thesis using run by (intro exI [of _ ?dq]) simp
qed

lemma dequeue_pop_rep:
  assumes rep: "eq_rep dq (x # ys)"
  shows "\<exists>dq'. dequeue_pop dq = Some (dq', ee_e (the (entries dq x))) \<and> eq_rep dq' ys \<and>
    (\<forall>p\<in>set ys. ee_e (the (entries dq' p)) = ee_e (the (entries dq p))) \<and> dq_head dq' = dq_head dq"
proof -
  let ?h = "dq_head dq" and ?t = "dq_tail dq" and ?n = "\<lambda>p. map_option ee_next (entries dq p)"
  obtain h where h: "entries dq ?h = Some h" "?h \<noteq> NULL" using eq_rep_node [OF rep, of ?h] by auto
  obtain ex where x: "entries dq x = Some ex" "x \<noteq> NULL" using eq_rep_node [OF rep, of x] by auto
  have R: "dq_size dq = int (length (x # ys))" "distinct (x # ys)" "?h \<notin> set (x # ys)" "?t = last (x # ys)"
      "seg ?n (ee_next h) (x # ys) ?h" using rep h(1) by (simp_all add: eq_rep_def)
  from R(5) x have hx: "ee_next h = x" "seg ?n (ee_next ex) ys ?h" by auto
  show ?thesis
  proof (cases ys)
    case Nil
    let ?dq = "dq\<lparr>dq_tail := ?h, dq_size := dq_size dq - 1\<rparr>"
    have "dequeue_pop dq = Some (?dq, ee_e ex)"
      using h x hx R Nil by (simp add: dequeue_pop_def entry_at_def)
    moreover have "eq_rep ?dq ys" using h R Nil by (simp add: eq_rep_def)
    ultimately show ?thesis using x Nil by auto
  next
    case (Cons y zs)
    have nx: "ee_next ex = y" using hx(2) Cons by (simp split: option.splits)
    obtain ey where y: "entries dq y = Some ey" "y \<noteq> NULL" using eq_rep_node [OF rep, of y] Cons by auto
    have ne: "x \<noteq> ?h" "y \<noteq> ?h" "x \<noteq> y" using R(2,3) Cons by auto
    have xt: "x \<noteq> ?t" using R(2,4) Cons by (metis distinct.simps(2) last_ConsR last_in_set list.distinct(1))
    let ?g = "(entries dq)(?h \<mapsto> h\<lparr>ee_next := y\<rparr>, y \<mapsto> ey\<lparr>ee_prev := ee_prev ex\<rparr>)"
    let ?dq = "dq\<lparr>entries := ?g, dq_size := dq_size dq - 1\<rparr>"
    have run: "dequeue_pop dq = Some (?dq, ee_e ex)"
      using h x y hx R(1) nx ne xt by (simp add: dequeue_pop_def entry_at_def upd_entry_def)
    have "(\<lambda>p. map_option ee_next (?g p)) = ?n(?h \<mapsto> y)" using y ne by (auto simp: fun_eq_iff)
    moreover have "seg (?n(?h \<mapsto> y)) y ys ?h" using hx(2) nx R(3) by (subst seg_upd) auto
    ultimately have "eq_rep ?dq ys" using R ne h y Cons by (auto simp: eq_rep_def)
    moreover have "\<forall>p\<in>set ys. ee_e (the (?g p)) = ee_e (the (entries dq p))" using h y by auto
    ultimately show ?thesis using run x by (intro exI [of _ ?dq]) simp
  qed
qed

interpretation dq: fifo eq_inv eq_abs dequeue_empty eq_fresh dequeue_push dequeue_pop
proof
  show "dequeue_empty q \<longleftrightarrow> eq_abs q = []" if inv: "eq_inv q" for q
  proof -
    obtain xs where r: "eq_rep q xs" using inv unfolding eq_inv_iff by blast
    then have "dq_size q = int (length xs)" by (simp add: eq_rep_def)
    with eq_rep_abs [OF r] show ?thesis by (auto simp: dequeue_empty_def)
  qed
  show "\<exists>q'. dequeue_push q e new = Some q' \<and> eq_inv q' \<and> eq_abs q' = eq_abs q @ [e]"
    if inv: "eq_inv q" and fr: "eq_fresh new q" for q new e
  proof -
    obtain xs where r: "eq_rep q xs" using inv unfolding eq_inv_iff by blast
    then obtain q' where "dequeue_push q e new = Some q'" "eq_rep q' (xs @ [new])"
        "\<forall>p\<in>set xs. ee_e (the (entries q' p)) = ee_e (the (entries q p))" "ee_e (the (entries q' new)) = e"
      using dequeue_push_rep [OF r fr, of e] by blast
    then show ?thesis using eq_rep_abs [OF r] eq_rep_abs [of q'] eq_inv_iff by auto
  qed
  show "\<exists>q'. dequeue_pop q = Some (q', x) \<and> eq_inv q' \<and> eq_abs q' = xs"
    if inv: "eq_inv q" and ab: "eq_abs q = x # xs" for q x xs
  proof -
    obtain ps where r: "eq_rep q ps" using inv unfolding eq_inv_iff by blast
    then obtain p ys where ps: "ps = p # ys" "x = ee_e (the (entries q p))"
        "xs = map (\<lambda>p. ee_e (the (entries q p))) ys"
      using ab eq_rep_abs [OF r] by (cases ps) auto
    from dequeue_pop_rep [OF r [unfolded ps(1)]] obtain q' where q': "dequeue_pop q = Some (q', x)"
        "eq_rep q' ys" "\<forall>p\<in>set ys. ee_e (the (entries q' p)) = ee_e (the (entries q p))" using ps(2) by blast
    then have "eq_abs q' = xs" using eq_rep_abs [OF q'(2)] ps(3) by simp
    then show ?thesis using q' eq_inv_iff by blast
  qed
qed

lemma dequeue_create_rep:
  assumes "new \<noteq> NULL"
  shows "\<exists>dq. dequeue_create new = Some dq \<and> eq_rep dq [] \<and> dq_head dq = new \<and>
    entries dq = [new \<mapsto> \<lparr>ee_e = NULL, ee_prev = new, ee_next = NULL\<rparr>]"
  using assms by (simp add: dequeue_create_def dequeue_create_entry_def upd_entry_def eq_rep_def)

text \<open>Following the circle from \<open>p\<close> the loop frees every node but the last.\<close>

lemma dequeue_free_loop_run:
  assumes "seg (\<lambda>p. map_option ee_next (entries dq p)) p (xs @ [a]) head" and "distinct (xs @ [a])" and "head \<notin> set (tl (xs @ [a]))"
  shows "dequeue_free_loop head dq p = Some (\<lambda>q. if q \<in> set xs then None else entries dq q)"
  using assms
proof (induction xs arbitrary: p dq)
  case Nil
  then obtain e where "entries dq a = Some e" "ee_next e = head" "p = a" "a \<noteq> NULL"
    by (auto split: option.splits)
  then show ?case by (subst dequeue_free_loop.simps) (simp add: entry_at_def)
next
  case (Cons x xs)
  then obtain e where e: "entries dq x = Some e" "p = x" "x \<noteq> NULL"
      "seg (\<lambda>p. map_option ee_next (entries dq p)) (ee_next e) (xs @ [a]) head"
    by (auto simp: option.map_comp split: option.splits)
  let ?dq = "dq\<lparr>entries := (entries dq)(x := None)\<rparr>"
  have "ee_next e \<in> set (xs @ [a])" using e(4) by (cases xs) auto
  then have hd: "ee_next e \<noteq> head" using Cons.prems(3) by auto
  have "seg (\<lambda>p. map_option ee_next (entries ?dq p)) (ee_next e) (xs @ [a]) head"
    using e(4) Cons.prems(2) by (subst seg_cong [where m = "\<lambda>p. map_option ee_next (entries dq p)"]) auto
  then have "dequeue_free_loop head ?dq (ee_next e) = Some (\<lambda>q. if q \<in> set xs then None else entries ?dq q)"
    by (rule Cons.IH) (use Cons.prems in \<open>(cases xs; auto)+\<close>)
  moreover have "(\<lambda>q. if q \<in> set xs then None else entries ?dq q) = (\<lambda>q. if q \<in> set (x # xs) then None else entries dq q)"
    by auto
  ultimately show ?case using e hd by (subst dequeue_free_loop.simps) (simp add: entry_at_def)
qed

end
