(* ===== verification/EventLoop.thy ===== *)
theory EventLoop
  imports EventQueue
begin

text \<open>
  The worker threads of \<open>demo_event/event.c\<close> as a step relation.  Thread numbers below \<open>core\<close> run
  \<open>exec_event\<close>, the others add events as \<open>test_add_event\<close> does; a step is one statement of the code
  between two calls of the pthread library.  \<open>pthread_mutex_lock\<close> is a step that is possible only
  while the lock is free, \<open>pthread_cond_wait\<close> releases the lock, and may return without a
  broadcast, as POSIX allows.  Three logs record the events added, popped and acted on.
\<close>

section \<open>The threads\<close>

datatype ev_pc =
    CLock | CTest | CWait | CWake | CPop | CUnlock ptr | CAct ptr
  | PNew | PLock ptr | PPush ptr | PBroadcast | PUnlock

record ev_state =
  ev_queue :: dequeue
  ev_lock :: "nat option"
  ev_at :: "nat \<Rightarrow> ev_pc"
  ev_added :: "ptr list"
  ev_popped :: "ptr list"
  ev_acted :: "ptr list"

definition ev_goto :: "nat \<Rightarrow> ev_pc \<Rightarrow> ev_state \<Rightarrow> ev_state" where
  "ev_goto t p s = s\<lparr>ev_at := (ev_at s)(t := p)\<rparr>"

text \<open>\<open>event_init\<close> with \<open>core\<close> consumer threads.\<close>

definition event_init :: "nat \<Rightarrow> ptr \<Rightarrow> ev_state option" where
  "event_init core new = do {
     q \<leftarrow> dequeue_create new;
     Some \<lparr>ev_queue = q, ev_lock = None, ev_at = (\<lambda>t. if t < core then CLock else PNew),
           ev_added = [], ev_popped = [], ev_acted = []\<rparr> }"

text \<open>A step of \<open>exec_event\<close> by thread \<open>t\<close>.\<close>

inductive exec_event :: "nat \<Rightarrow> ev_state \<Rightarrow> ev_state \<Rightarrow> bool" where
  c_lock: "ev_at s t = CLock \<Longrightarrow> ev_lock s = None \<Longrightarrow>
    exec_event t s (ev_goto t CTest (s\<lparr>ev_lock := Some t\<rparr>))"
| c_wait: "ev_at s t = CTest \<Longrightarrow> dequeue_empty (ev_queue s) \<Longrightarrow>
    exec_event t s (ev_goto t CWait (s\<lparr>ev_lock := None\<rparr>))"
| c_spurious: "ev_at s t = CWait \<Longrightarrow> exec_event t s (ev_goto t CWake s)"
| c_relock: "ev_at s t = CWake \<Longrightarrow> ev_lock s = None \<Longrightarrow>
    exec_event t s (ev_goto t CTest (s\<lparr>ev_lock := Some t\<rparr>))"
| c_ready: "ev_at s t = CTest \<Longrightarrow> \<not> dequeue_empty (ev_queue s) \<Longrightarrow> exec_event t s (ev_goto t CPop s)"
| c_pop: "ev_at s t = CPop \<Longrightarrow> dequeue_pop (ev_queue s) = Some (q, e) \<Longrightarrow>
    exec_event t s (ev_goto t (CUnlock e) (s\<lparr>ev_queue := q, ev_popped := ev_popped s @ [e]\<rparr>))"
| c_unlock: "ev_at s t = CUnlock e \<Longrightarrow> exec_event t s (ev_goto t (CAct e) (s\<lparr>ev_lock := None\<rparr>))"
| c_act: "ev_at s t = CAct e \<Longrightarrow> exec_event t s (ev_goto t CLock (s\<lparr>ev_acted := ev_acted s @ [e]\<rparr>))"

text \<open>A step of a producer: a new event is allocated and passed to \<open>add_event\<close>.\<close>

inductive add_event :: "nat \<Rightarrow> ev_state \<Rightarrow> ev_state \<Rightarrow> bool" where
  p_new: "ev_at s t = PNew \<Longrightarrow> e \<noteq> NULL \<Longrightarrow> add_event t s (ev_goto t (PLock e) s)"
| p_lock: "ev_at s t = PLock e \<Longrightarrow> ev_lock s = None \<Longrightarrow>
    add_event t s (ev_goto t (PPush e) (s\<lparr>ev_lock := Some t\<rparr>))"
| p_push: "ev_at s t = PPush e \<Longrightarrow> eq_fresh new (ev_queue s) \<Longrightarrow> dequeue_push (ev_queue s) e new = Some q \<Longrightarrow>
    add_event t s (ev_goto t PBroadcast (s\<lparr>ev_queue := q, ev_added := ev_added s @ [e]\<rparr>))"
| p_broadcast: "ev_at s t = PBroadcast \<Longrightarrow>
    add_event t s (ev_goto t PUnlock (s\<lparr>ev_at := (\<lambda>u. if ev_at s u = CWait then CWake else ev_at s u)\<rparr>))"
| p_unlock: "ev_at s t = PUnlock \<Longrightarrow> add_event t s (ev_goto t PNew (s\<lparr>ev_lock := None\<rparr>))"

inductive ev_reach :: "nat \<Rightarrow> nat \<Rightarrow> ev_state \<Rightarrow> bool" for core n where
  init: "event_init core new = Some s \<Longrightarrow> ev_reach core n s"
| consume: "ev_reach core n s \<Longrightarrow> t < n \<Longrightarrow> exec_event t s s' \<Longrightarrow> ev_reach core n s'"
| produce: "ev_reach core n s \<Longrightarrow> t < n \<Longrightarrow> add_event t s s' \<Longrightarrow> ev_reach core n s'"

section \<open>Invariant\<close>

fun ev_holds :: "ev_pc \<Rightarrow> bool" where
  "ev_holds CTest = True" | "ev_holds CPop = True" | "ev_holds (CUnlock e) = True"
| "ev_holds (PPush e) = True" | "ev_holds PBroadcast = True" | "ev_holds PUnlock = True"
| "ev_holds _ = False"

text \<open>The event a consumer has popped and not yet acted on.\<close>

fun ev_inflight :: "ev_pc \<Rightarrow> ptr multiset" where
  "ev_inflight (CUnlock e) = {#e#}" | "ev_inflight (CAct e) = {#e#}" | "ev_inflight _ = {#}"

fun ev_pending :: "ev_pc \<Rightarrow> ptr option" where
  "ev_pending (PLock e) = Some e" | "ev_pending (PPush e) = Some e" | "ev_pending _ = None"

definition ev_mutex :: "ev_state \<Rightarrow> bool" where
  "ev_mutex s \<longleftrightarrow> (\<forall>t. ev_holds (ev_at s t) \<longleftrightarrow> ev_lock s = Some t)"

definition ev_order :: "ev_state \<Rightarrow> bool" where
  "ev_order s \<longleftrightarrow> eq_inv (ev_queue s) \<and> ev_popped s @ eq_abs (ev_queue s) = ev_added s \<and>
     (\<forall>e\<in>set (ev_added s). e \<noteq> NULL) \<and> (\<forall>t e. ev_pending (ev_at s t) = Some e \<longrightarrow> e \<noteq> NULL)"

definition ev_wake :: "ev_state \<Rightarrow> bool" where
  "ev_wake s \<longleftrightarrow> (eq_abs (ev_queue s) \<noteq> [] \<longrightarrow> (\<exists>t. ev_at s t = PBroadcast) \<or> (\<forall>t. ev_at s t \<noteq> CWait)) \<and>
     (\<forall>t. ev_at s t = CPop \<longrightarrow> eq_abs (ev_queue s) \<noteq> [])"

definition ev_account :: "nat \<Rightarrow> ev_state \<Rightarrow> bool" where
  "ev_account n s \<longleftrightarrow> mset (ev_popped s) = mset (ev_acted s) + (\<Sum>t<n. ev_inflight (ev_at s t))"

definition ev_inv :: "nat \<Rightarrow> ev_state \<Rightarrow> bool" where
  "ev_inv n s \<longleftrightarrow> ev_mutex s \<and> ev_order s \<and> ev_wake s \<and> ev_account n s"

lemmas ev_inv_defs = ev_mutex_def ev_order_def ev_wake_def ev_account_def

lemma ev_init_inv:
  assumes "event_init core new = Some s"
  shows "ev_inv n s"
proof -
  from assms obtain q where q: "dequeue_create new = Some q"
      and s: "s = \<lparr>ev_queue = q, ev_lock = None, ev_at = (\<lambda>t. if t < core then CLock else PNew),
           ev_added = [], ev_popped = [], ev_acted = []\<rparr>"
    by (auto simp: event_init_def bind_eq_Some_conv)
  from q have "new \<noteq> NULL" by (auto simp: dequeue_create_def dequeue_create_entry_def bind_eq_Some_conv split: if_splits)
  with q have "eq_rep q []" using dequeue_create_rep [of new] by auto
  then have "eq_inv q" "eq_abs q = []" using eq_rep_abs eq_inv_iff by auto
  moreover have "(\<Sum>t<n. ev_inflight (if t < core then CLock else PNew)) = {#}" by (rule sum.neutral) auto
  ultimately show ?thesis by (auto simp: ev_inv_def ev_inv_defs s)
qed

lemma sum_goto:
  assumes "(t :: nat) < n"
  shows "(\<Sum>u<n. ev_inflight ((f(t := p)) u)) + ev_inflight (f t) = (\<Sum>u<n. ev_inflight (f u)) + ev_inflight p"
proof -
  have "(\<Sum>u<n. ev_inflight ((f(t := p)) u)) = ev_inflight p + (\<Sum>u\<in>{..<n} - {t}. ev_inflight ((f(t := p)) u))"
    using assms by (subst sum.remove [of _ t]) auto
  also have "(\<Sum>u\<in>{..<n} - {t}. ev_inflight ((f(t := p)) u)) = (\<Sum>u\<in>{..<n} - {t}. ev_inflight (f u))"
    by (rule sum.cong) auto
  finally show ?thesis using assms by (subst (2) sum.remove [of _ t]) (auto simp: ac_simps)
qed

lemma account_goto:
  assumes "t < n" and "ev_inflight p = ev_inflight (ev_at s t)"
  shows "(\<Sum>u<n. ev_inflight (((ev_at s)(t := p)) u)) = (\<Sum>u<n. ev_inflight (ev_at s u))"
  using sum_goto [OF assms(1), of "ev_at s" p] assms(2) by simp

lemma mutex_goto:
  assumes "ev_mutex s" and "ev_lock s' = (if ev_holds p then Some t else None)" and "ev_at s' = (ev_at s)(t := p)"
    and "ev_lock s = None \<or> ev_lock s = Some t"
  shows "ev_mutex s'"
  using assms unfolding ev_mutex_def by (auto split: if_splits)

lemma mutex_same:
  assumes "ev_mutex s" and "ev_lock s' = ev_lock s" and "ev_at s' = (ev_at s)(t := p)"
    and "ev_holds p = ev_holds (ev_at s t)"
  shows "ev_mutex s'"
  using assms unfolding ev_mutex_def by auto

lemma pendingD: "ev_order s \<Longrightarrow> ev_pending (ev_at s t) = Some e \<Longrightarrow> e \<noteq> NULL"
  unfolding ev_order_def by blast

lemma mutexD: "ev_mutex s \<Longrightarrow> ev_holds (ev_at s t) \<Longrightarrow> ev_lock s = Some t"
  by (simp add: ev_mutex_def)

text \<open>A step that only moves thread \<open>t\<close> and changes the lock keeps the queue part of the invariant.\<close>

lemma quiet_step:
  assumes inv: "ev_inv n s" and t: "t < n" and s': "s' = ev_goto t p (s\<lparr>ev_lock := l\<rparr>)"
    and mutex: "l = (if ev_holds p then Some t else None) \<and> (ev_lock s = None \<or> ev_lock s = Some t) \<or>
      l = ev_lock s \<and> ev_holds p = ev_holds (ev_at s t)"
    and fl: "ev_inflight p = ev_inflight (ev_at s t)"
    and pend: "\<And>e. ev_pending p = Some e \<Longrightarrow> e \<noteq> NULL"
    and p: "p = CPop \<or> p = CWait \<longrightarrow> (p = CWait) = (eq_abs (ev_queue s) = [])"
    and bc: "ev_at s t \<noteq> PBroadcast"
  shows "ev_inv n s'"
proof -
  have "ev_mutex s" using inv by (simp add: ev_inv_def)
  with mutex have "ev_mutex s'"
    using mutex_goto [of s s' p t] mutex_same [of s s' t p] by (auto simp: s' ev_goto_def)
  moreover have "ev_order s'" using inv pend unfolding s' by (auto simp: ev_inv_def ev_order_def ev_goto_def)
  moreover have "ev_wake s'"
  proof -
    have w: "ev_wake s" using inv by (simp add: ev_inv_def)
    have "(\<exists>u. ev_at s' u = PBroadcast) \<or> (\<forall>u. ev_at s' u \<noteq> CWait)" if q: "eq_abs (ev_queue s) \<noteq> []"
    proof (cases "\<exists>u. ev_at s u = PBroadcast")
      case True
      then obtain u where "ev_at s u = PBroadcast" by blast
      moreover from this bc have "u \<noteq> t" by auto
      ultimately have "ev_at s' u = PBroadcast" by (simp add: s' ev_goto_def)
      then show ?thesis by blast
    next
      case False
      with w q have "ev_at s u \<noteq> CWait" for u by (auto simp: ev_wake_def)
      with p q show ?thesis by (auto simp: s' ev_goto_def)
    qed
    moreover have "eq_abs (ev_queue s) \<noteq> []" if "ev_at s' u = CPop" for u
      using that w p by (cases "u = t") (auto simp: s' ev_goto_def ev_wake_def)
    ultimately show ?thesis by (auto simp: ev_wake_def s' ev_goto_def)
  qed
  moreover have "ev_account n s'"
    using inv account_goto [OF t fl] by (simp add: ev_inv_def ev_account_def s' ev_goto_def)
  ultimately show ?thesis by (simp add: ev_inv_def)
qed

lemma exec_event_inv:
  assumes inv: "ev_inv n s" and t: "t < n" and step: "exec_event t s s'"
  shows "ev_inv n s'"
proof -
  have I: "ev_mutex s" "ev_order s" "ev_wake s" "ev_account n s" using inv by (simp_all add: ev_inv_def)
  have qi: "eq_inv (ev_queue s)" using I(2) by (simp add: ev_order_def)
  note emp = dq.empty_law [OF qi]
  from step show ?thesis
  proof cases
    case c_lock
    then show ?thesis by (intro quiet_step [OF inv t c_lock(1)]) auto
  next
    case c_wait
    then show ?thesis using emp mutexD [OF I(1), of t] by (intro quiet_step [OF inv t c_wait(1)]) auto
  next
    case c_spurious
    then show ?thesis by (intro quiet_step [OF inv t, of _ CWake "ev_lock s"]) auto
  next
    case c_relock
    then show ?thesis by (intro quiet_step [OF inv t c_relock(1)]) auto
  next
    case c_ready
    then show ?thesis using emp by (intro quiet_step [OF inv t, of _ CPop "ev_lock s"]) auto
  next
    case (c_pop q e)
    have lk: "ev_lock s = Some t" using mutexD [OF I(1), of t] c_pop by simp
    have "eq_abs (ev_queue s) \<noteq> []" using I(3) c_pop(2) unfolding ev_wake_def by blast
    then obtain x xs where ab: "eq_abs (ev_queue s) = x # xs" by (meson neq_Nil_conv)
    with dq.pop_law [OF qi ab] c_pop(3) have q: "x = e" "eq_inv q" "eq_abs q = xs" by auto
    have only: "u = t" if "ev_holds (ev_at s u)" for u using mutexD [OF I(1) that] lk by simp
    have "ev_mutex s'" by (rule mutex_same [OF I(1), of _ t "CUnlock e"]) (simp_all add: c_pop(1,2) ev_goto_def)
    moreover have "ev_order s'" using I(2) q ab c_pop(1) by (auto simp: ev_order_def ev_goto_def)
    moreover have "ev_wake s'"
    proof -
      have nb: "ev_at s u \<noteq> PBroadcast" and np: "u = t \<or> ev_at s u \<noteq> CPop" for u
        using only [of u] c_pop(2) by auto
      then have "ev_at s u \<noteq> CWait" for u using I(3) ab by (auto simp: ev_wake_def)
      then show ?thesis using c_pop(1) np by (auto simp: ev_wake_def ev_goto_def)
    qed
    moreover have "ev_account n s'"
      using I(4) sum_goto [OF t, of "ev_at s" "CUnlock e"] c_pop(1,2) by (simp add: ev_account_def ev_goto_def)
    ultimately show ?thesis by (simp add: ev_inv_def)
  next
    case (c_unlock e)
    then show ?thesis using mutexD [OF I(1), of t] by (intro quiet_step [OF inv t c_unlock(1)]) auto
  next
    case (c_act e)
    have "ev_mutex s'" by (rule mutex_same [OF I(1), of _ t CLock]) (simp_all add: c_act(1,2) ev_goto_def)
    moreover have "ev_order s'" using I(2) c_act(1) by (auto simp: ev_order_def ev_goto_def)
    moreover have "ev_wake s'"
    proof -
      have at: "ev_at s' u = (if u = t then CLock else ev_at s u)" for u by (simp add: c_act(1) ev_goto_def)
      have "\<exists>u. ev_at s' u = PBroadcast" if "ev_at s u = PBroadcast" for u
        using that c_act(2) at [of u] by (intro exI [of _ u]) auto
      then show ?thesis using I(3) at by (simp add: ev_wake_def c_act(1) ev_goto_def) (metis ev_pc.distinct)
    qed
    moreover have "ev_account n s'"
      using I(4) sum_goto [OF t, of "ev_at s" CLock] c_act by (simp add: ev_account_def ev_goto_def)
    ultimately show ?thesis by (simp add: ev_inv_def)
  qed
qed

lemma add_event_inv:
  assumes inv: "ev_inv n s" and t: "t < n" and step: "add_event t s s'"
  shows "ev_inv n s'"
proof -
  have I: "ev_mutex s" "ev_order s" "ev_wake s" "ev_account n s" using inv by (simp_all add: ev_inv_def)
  have qi: "eq_inv (ev_queue s)" using I(2) by (simp add: ev_order_def)
  from step show ?thesis
  proof cases
    case (p_new e)
    then show ?thesis by (intro quiet_step [OF inv t, of _ "PLock e" "ev_lock s"]) auto
  next
    case (p_lock e)
    then have "e \<noteq> NULL" using pendingD [OF I(2), of t] by simp
    with p_lock show ?thesis by (intro quiet_step [OF inv t p_lock(1)]) auto
  next
    case (p_push e new q)
    have e: "e \<noteq> NULL" using pendingD [OF I(2), of t] p_push(2) by simp
    have q: "eq_inv q" "eq_abs q = eq_abs (ev_queue s) @ [e]" using dq.push_law [OF qi p_push(3), of e] p_push(4) by auto
    have lk: "ev_lock s = Some t" using mutexD [OF I(1), of t] p_push by simp
    have only: "u = t" if "ev_holds (ev_at s u)" for u using mutexD [OF I(1) that] lk by simp
    have "ev_mutex s'" by (rule mutex_same [OF I(1), of _ t PBroadcast]) (simp_all add: p_push(1,2) ev_goto_def)
    moreover have "ev_order s'"
      using I(2) q e p_push(1) by (auto simp: ev_order_def ev_goto_def simp flip: append_assoc)
    moreover have "ev_wake s'" using q p_push(1) by (auto simp: ev_wake_def ev_goto_def)
    moreover have "ev_account n s'"
      using I(4) account_goto [OF t, of PBroadcast s] p_push(1,2) by (simp add: ev_account_def ev_goto_def)
    ultimately show ?thesis by (simp add: ev_inv_def)
  next
    case p_broadcast
    have fl: "ev_inflight (((\<lambda>u. if ev_at s u = CWait then CWake else ev_at s u)(t := PUnlock)) u) = ev_inflight (ev_at s u)" for u
      using p_broadcast(2) by auto
    have pn: "ev_pending (((\<lambda>u. if ev_at s u = CWait then CWake else ev_at s u)(t := PUnlock)) u) = ev_pending (ev_at s u)" for u
      using p_broadcast(2) by auto
    have hs: "ev_holds (((\<lambda>u. if ev_at s u = CWait then CWake else ev_at s u)(t := PUnlock)) u) = ev_holds (ev_at s u)" for u
      using p_broadcast(2) by auto
    have "ev_mutex s'" using I(1) p_broadcast(1) hs unfolding ev_mutex_def ev_goto_def by simp
    moreover have "ev_order s'" using I(2) p_broadcast(1) pn unfolding ev_order_def ev_goto_def by simp
    moreover have "ev_wake s'"
    proof -
      have "ev_at s' u \<noteq> CWait" "ev_at s' u = CPop \<Longrightarrow> ev_at s u = CPop" for u
        by (auto simp: p_broadcast(1) ev_goto_def split: if_splits)
      moreover have "ev_queue s' = ev_queue s" by (simp add: p_broadcast(1) ev_goto_def)
      ultimately show ?thesis using I(3) unfolding ev_wake_def by metis
    qed
    moreover have "ev_account n s'" using I(4) p_broadcast(1) fl unfolding ev_account_def ev_goto_def by simp
    ultimately show ?thesis by (simp add: ev_inv_def)
  next
    case p_unlock
    then show ?thesis using mutexD [OF I(1), of t] by (intro quiet_step [OF inv t p_unlock(1)]) auto
  qed
qed

lemma ev_reach_inv: "ev_reach core n s \<Longrightarrow> ev_inv n s"
  by (induction rule: ev_reach.induct) (auto intro: ev_init_inv exec_event_inv add_event_inv)

section \<open>Properties\<close>

text \<open>C37: the event queue refines a list: on a well-formed queue and a fresh entry \<open>dequeue_push\<close> appends the
  event, \<open>dequeue_pop\<close> removes and returns the oldest one and returns \<open>NULL\<close> when there is none,
  and \<open>dequeue_empty\<close> and \<open>dequeue_size\<close> agree with the list.\<close>

theorem dequeue_refines_list:
  assumes "eq_inv dq"
  shows "(eq_fresh new dq \<longrightarrow>
      (\<exists>dq'. dequeue_push dq e new = Some dq' \<and> eq_inv dq' \<and> eq_abs dq' = eq_abs dq @ [e])) \<and>
    (case eq_abs dq of [] \<Rightarrow> dequeue_pop dq = Some (dq, NULL)
      | x # xs \<Rightarrow> \<exists>dq'. dequeue_pop dq = Some (dq', x) \<and> eq_inv dq' \<and> eq_abs dq' = xs) \<and>
    (dequeue_empty dq \<longleftrightarrow> eq_abs dq = []) \<and> dequeue_size dq = int (length (eq_abs dq))"
proof -
  obtain xs where r: "eq_rep dq xs" using assms unfolding eq_inv_iff by blast
  have "case eq_abs dq of [] \<Rightarrow> dequeue_pop dq = Some (dq, NULL)
      | x # xs \<Rightarrow> \<exists>dq'. dequeue_pop dq = Some (dq', x) \<and> eq_inv dq' \<and> eq_abs dq' = xs"
  proof (cases "eq_abs dq")
    case Nil
    then have "dq_size dq = 0" using dq.empty_law [OF assms] by (simp add: dequeue_empty_def)
    with Nil show ?thesis by (simp add: dequeue_pop_def)
  next
    case (Cons x xs)
    then show ?thesis using dq.pop_law [OF assms Cons] by simp
  qed
  moreover have "dequeue_size dq = int (length (eq_abs dq))"
    using r eq_rep_abs [OF r] by (simp add: dequeue_size_def eq_rep_def)
  ultimately show ?thesis using dq.empty_law [OF assms] dq.push_law [OF assms, of new e] by blast
qed

theorem dequeue_refines_list_witness:
  "\<exists>dq dq1. dequeue_create 8 = Some dq \<and> eq_inv dq \<and> dequeue_push dq 77 9 = Some dq1 \<and> eq_abs dq1 = [77] \<and>
     (\<exists>dq2. dequeue_pop dq1 = Some (dq2, 77) \<and> eq_abs dq2 = [])"
proof -
  obtain dq where c: "dequeue_create 8 = Some dq" "eq_rep dq []" "entries dq = [8 \<mapsto> \<lparr>ee_e = NULL, ee_prev = 8, ee_next = NULL\<rparr>]"
    using dequeue_create_rep [of 8] by auto
  have i: "eq_inv dq" using c(2) eq_inv_iff by blast
  have a: "eq_abs dq = []" using eq_rep_abs [OF c(2)] by simp
  have f: "eq_fresh 9 dq" using c by (simp add: eq_fresh_def eq_rep_def)
  from dequeue_refines_list [OF i, of 9 77] f obtain dq1 where d1: "dequeue_push dq 77 9 = Some dq1" "eq_inv dq1" "eq_abs dq1 = [77]"
    using a by auto
  from dequeue_refines_list [OF d1(2)] d1(3) show ?thesis using c(1) i d1 by auto
qed

text \<open>C12: in every reachable state of the threads of \<open>event.c\<close>, whatever the interleaving: the lock protects the
  queue, a worker that pops finds an event and never dereferences \<open>NULL\<close>, events leave the queue in the
  order in which they were added, and every event popped is acted on or still held by exactly one
  worker: none is lost and none handled twice.\<close>

theorem event_loop_safe:
  assumes "ev_reach core n s"
  shows "(\<forall>t u. ev_holds (ev_at s t) \<and> ev_holds (ev_at s u) \<longrightarrow> t = u) \<and>
    ev_popped s @ eq_abs (ev_queue s) = ev_added s \<and> (\<forall>e\<in>set (ev_added s). e \<noteq> NULL) \<and>
    mset (ev_popped s) = mset (ev_acted s) + (\<Sum>t<n. ev_inflight (ev_at s t)) \<and>
    (\<forall>t. ev_at s t = CPop \<longrightarrow> (\<exists>q e. dequeue_pop (ev_queue s) = Some (q, e) \<and> e \<in> set (ev_added s)))"
proof -
  have "ev_inv n s" using assms by (rule ev_reach_inv)
  then have I: "ev_mutex s" "ev_order s" "ev_wake s" "ev_account n s" by (simp_all add: ev_inv_def)
  have qi: "eq_inv (ev_queue s)" using I(2) by (simp add: ev_order_def)
  have "t = u" if "ev_holds (ev_at s t)" "ev_holds (ev_at s u)" for t u
    using mutexD [OF I(1) that(1)] mutexD [OF I(1) that(2)] by simp
  moreover have "\<exists>q e. dequeue_pop (ev_queue s) = Some (q, e) \<and> e \<in> set (ev_added s)" if "ev_at s t = CPop" for t
  proof -
    have "eq_abs (ev_queue s) \<noteq> []" using I(3) that unfolding ev_wake_def by blast
    then obtain x xs where ab: "eq_abs (ev_queue s) = x # xs" by (meson neq_Nil_conv)
    have "ev_added s = ev_popped s @ x # xs" using I(2) ab by (simp add: ev_order_def)
    then have "x \<in> set (ev_added s)" by simp
    then show ?thesis using dq.pop_law [OF qi ab] by blast
  qed
  ultimately show ?thesis using I(2,4) unfolding ev_order_def ev_account_def by blast
qed

text \<open>C25: no wake-up is lost: whenever events are queued, either the broadcast for them is still to come from
  the thread that holds the lock, or no worker is asleep in \<open>pthread_cond_wait\<close>.\<close>

theorem event_no_lost_wakeup:
  assumes "ev_reach core n s" and "\<not> dequeue_empty (ev_queue s)" and "ev_at s t = CWait"
  shows "\<exists>u. ev_at s u = PBroadcast \<and> ev_lock s = Some u"
proof -
  have inv: "ev_inv n s" using assms(1) by (rule ev_reach_inv)
  then have qi: "eq_inv (ev_queue s)" by (simp add: ev_inv_def ev_order_def)
  have "eq_abs (ev_queue s) \<noteq> []" using dq.empty_law [OF qi] assms(2) by simp
  then obtain u where u: "ev_at s u = PBroadcast"
    using inv assms(3) unfolding ev_inv_def ev_wake_def by blast
  moreover have "ev_lock s = Some u" using inv u mutexD [of s u] by (simp add: ev_inv_def)
  ultimately show ?thesis by blast
qed

text \<open>A run to the point where one worker sleeps and a producer has pushed.\<close>

lemma sleeping_run:
  "\<exists>s. ev_reach 1 2 s \<and> ev_at s 0 = CWait \<and> ev_at s 1 = PBroadcast \<and> \<not> dequeue_empty (ev_queue s)"
proof -
  obtain dq where c: "dequeue_create 8 = Some dq" "eq_rep dq []" "entries dq = [8 \<mapsto> \<lparr>ee_e = NULL, ee_prev = 8, ee_next = NULL\<rparr>]"
    using dequeue_create_rep [of 8] by auto
  have i: "eq_inv dq" using c(2) eq_inv_iff by blast
  have f: "eq_fresh 9 dq" using c by (simp add: eq_fresh_def eq_rep_def)
  obtain dq1 where d1: "dequeue_push dq 77 9 = Some dq1" "eq_inv dq1" "eq_abs dq1 = eq_abs dq @ [77]"
    using dq.push_law [OF i f, of 77] by blast
  have em: "dequeue_empty dq" using c(2) by (simp add: dequeue_empty_def eq_rep_def)
  define s0 where "s0 = \<lparr>ev_queue = dq, ev_lock = None, ev_at = (\<lambda>t. if t < (1::nat) then CLock else PNew),
      ev_added = [], ev_popped = [], ev_acted = []\<rparr>"
  have r0: "ev_reach 1 2 s0" by (rule ev_reach.init [of _ 8]) (simp add: event_init_def c(1) s0_def)
  have r1: "ev_reach 1 2 (ev_goto 0 CTest (s0\<lparr>ev_lock := Some 0\<rparr>))" (is "ev_reach 1 2 ?s1")
    by (rule ev_reach.consume [OF r0, of 0], simp, rule exec_event.c_lock) (simp_all add: s0_def)
  have r2: "ev_reach 1 2 (ev_goto 0 CWait (?s1\<lparr>ev_lock := None\<rparr>))" (is "ev_reach 1 2 ?s2")
    by (rule ev_reach.consume [OF r1, of 0], simp, rule exec_event.c_wait) (simp_all add: s0_def ev_goto_def em)
  have r3: "ev_reach 1 2 (ev_goto 1 (PLock 77) ?s2)" (is "ev_reach 1 2 ?s3")
    by (rule ev_reach.produce [OF r2, of 1], simp, rule add_event.p_new) (simp_all add: s0_def ev_goto_def)
  have r4: "ev_reach 1 2 (ev_goto 1 (PPush 77) (?s3\<lparr>ev_lock := Some 1\<rparr>))" (is "ev_reach 1 2 ?s4")
    by (rule ev_reach.produce [OF r3, of 1], simp, rule add_event.p_lock) (simp_all add: s0_def ev_goto_def)
  have r5: "ev_reach 1 2 (ev_goto 1 PBroadcast (?s4\<lparr>ev_queue := dq1, ev_added := ev_added ?s4 @ [77]\<rparr>))" (is "ev_reach 1 2 ?s5")
    by (rule ev_reach.produce [OF r4, of 1], simp, rule add_event.p_push [of _ _ _ 9]) (simp_all add: s0_def ev_goto_def f d1)
  have "\<not> dequeue_empty dq1" using dq.empty_law [OF d1(2)] d1(3) by simp
  then show ?thesis using r5 by (intro exI [of _ ?s5] conjI) (simp_all add: ev_goto_def)
qed

theorem event_loop_safe_witness:
  "\<exists>s. ev_reach 1 2 s \<and> ev_popped s @ eq_abs (ev_queue s) = ev_added s"
proof -
  obtain s where "ev_reach 1 2 s" using sleeping_run by blast
  then show ?thesis using event_loop_safe by blast
qed

theorem event_no_lost_wakeup_witness:
  "\<exists>s. ev_reach 1 2 s \<and> ev_at s 0 = CWait \<and> (\<exists>u. ev_at s u = PBroadcast \<and> ev_lock s = Some u)"
proof -
  obtain s where s: "ev_reach 1 2 s" "ev_at s 0 = CWait" "\<not> dequeue_empty (ev_queue s)" using sleeping_run by blast
  then show ?thesis using event_no_lost_wakeup [OF s(1,3,2)] by blast
qed

text \<open>\<open>dequeue_free\<close> does not clean up: on a queue with entries it frees the sentinel and all entries but the
  last, which leaks, and on a queue to which nothing was ever added it runs into a null pointer.\<close>

theorem dequeue_free_leaks:
  assumes "eq_rep dq (xs @ [a])"
  shows "dequeue_free dq = Some (\<lambda>p. if p \<in> set (dq_head dq # xs) then None else entries dq p) \<and>
    entries dq a \<noteq> None \<and> a \<notin> set (dq_head dq # xs) \<and>
    (\<exists>q. dequeue_create 8 = Some q \<and> dequeue_free q = None)"
proof -
  let ?n = "\<lambda>p. map_option ee_next (entries dq p)"
  obtain h where h: "entries dq (dq_head dq) = Some h" "dq_head dq \<noteq> NULL"
    using eq_rep_node [OF assms, of "dq_head dq"] by auto
  have R: "distinct (xs @ [a])" "dq_head dq \<notin> set (xs @ [a])" "seg ?n (ee_next h) (xs @ [a]) (dq_head dq)"
    using assms h by (simp_all add: eq_rep_def)
  have "seg ?n (dq_head dq) ((dq_head dq # xs) @ [a]) (dq_head dq)" using h R(3) by (simp del: seg_append)
  from dequeue_free_loop_run [OF this] R have "dequeue_free dq =
      Some (\<lambda>p. if p \<in> set (dq_head dq # xs) then None else entries dq p)" by (simp add: dequeue_free_def)
  moreover have "entries dq a \<noteq> None" using eq_rep_node [OF assms, of a] by auto
  moreover have "\<exists>q. dequeue_create 8 = Some q \<and> dequeue_free q = None"
  proof -
    obtain q where q: "dequeue_create 8 = Some q" "dq_head q = 8" "entries q = [8 \<mapsto> \<lparr>ee_e = NULL, ee_prev = 8, ee_next = NULL\<rparr>]"
      using dequeue_create_rep [of 8] by auto
    have "dequeue_free q = dequeue_free_loop 8 (q\<lparr>entries := (entries q)(8 := None)\<rparr>) NULL"
      using q by (simp add: dequeue_free_def dequeue_free_loop.simps [of 8 q 8] entry_at_def)
    also have "\<dots> = None" by (subst dequeue_free_loop.simps) (simp add: entry_at_def)
    finally show ?thesis using q(1) by blast
  qed
  ultimately show ?thesis using R by auto
qed

theorem dequeue_free_leaks_witness:
  "\<exists>dq dq1 h. dequeue_create 8 = Some dq \<and> dequeue_push dq 77 9 = Some dq1 \<and> dequeue_free dq1 = Some h \<and> h 9 \<noteq> None"
proof -
  obtain dq where c: "dequeue_create 8 = Some dq" "eq_rep dq []" "entries dq = [8 \<mapsto> \<lparr>ee_e = NULL, ee_prev = 8, ee_next = NULL\<rparr>]"
    using dequeue_create_rep [of 8] by auto
  have f: "eq_fresh 9 dq" using c by (simp add: eq_fresh_def eq_rep_def)
  obtain dq1 where d: "dequeue_push dq 77 9 = Some dq1" "eq_rep dq1 ([] @ [9])" using dequeue_push_rep [OF c(2) f, of 77] by auto
  from dequeue_free_leaks [OF d(2)] show ?thesis using c(1) d(1) by auto
qed

end
