(* ===== verification/Md5.thy ===== *)
theory Md5
  imports HashFuns
begin

text \<open>
  MD5 as written in \<open>demo_openssl/demo_md5/md5.c\<close> and \<open>md5.h\<close>.  The four chaining words are a
  quadruple; the context keeps the bit count in two words and a 64-byte buffer.  Accesses outside a
  buffer are \<open>None\<close>.
\<close>

section \<open>Macros and context\<close>

type_synonym md5_state = "u32 \<times> u32 \<times> u32 \<times> u32"

record MD5_CTX =
  ctx_count :: "u32 \<times> u32"
  ctx_state :: md5_state
  ctx_buffer :: bytes

definition md5_F :: "u32 \<Rightarrow> u32 \<Rightarrow> u32 \<Rightarrow> u32" where
  "md5_F x y z = (x AND y) OR (NOT x AND z)"

definition md5_G :: "u32 \<Rightarrow> u32 \<Rightarrow> u32 \<Rightarrow> u32" where
  "md5_G x y z = (x AND z) OR (y AND NOT z)"

definition md5_H :: "u32 \<Rightarrow> u32 \<Rightarrow> u32 \<Rightarrow> u32" where
  "md5_H x y z = x XOR y XOR z"

definition md5_I :: "u32 \<Rightarrow> u32 \<Rightarrow> u32 \<Rightarrow> u32" where
  "md5_I x y z = y XOR (x OR NOT z)"

definition ROTATE_LEFT :: "u32 \<Rightarrow> nat \<Rightarrow> u32" where
  "ROTATE_LEFT x n = push_bit n x OR drop_bit (32 - n) x"

definition FF :: "u32 \<Rightarrow> u32 \<Rightarrow> u32 \<Rightarrow> u32 \<Rightarrow> u32 \<Rightarrow> nat \<Rightarrow> u32 \<Rightarrow> u32" where
  "FF a b c d x s ac = (let a = a + (md5_F b c d + x + ac); a = ROTATE_LEFT a s in a + b)"

definition GG :: "u32 \<Rightarrow> u32 \<Rightarrow> u32 \<Rightarrow> u32 \<Rightarrow> u32 \<Rightarrow> nat \<Rightarrow> u32 \<Rightarrow> u32" where
  "GG a b c d x s ac = (let a = a + (md5_G b c d + x + ac); a = ROTATE_LEFT a s in a + b)"

definition HH :: "u32 \<Rightarrow> u32 \<Rightarrow> u32 \<Rightarrow> u32 \<Rightarrow> u32 \<Rightarrow> nat \<Rightarrow> u32 \<Rightarrow> u32" where
  "HH a b c d x s ac = (let a = a + (md5_H b c d + x + ac); a = ROTATE_LEFT a s in a + b)"

definition II :: "u32 \<Rightarrow> u32 \<Rightarrow> u32 \<Rightarrow> u32 \<Rightarrow> u32 \<Rightarrow> nat \<Rightarrow> u32 \<Rightarrow> u32" where
  "II a b c d x s ac = (let a = a + (md5_I b c d + x + ac); a = ROTATE_LEFT a s in a + b)"

definition PADDING :: bytes where
  "PADDING = 0x80 # replicate 63 0"

section \<open>Functions\<close>

definition MD5Init :: "bytes \<Rightarrow> MD5_CTX" where
  "MD5Init buffer = \<lparr>ctx_count = (0, 0),
     ctx_state = (0x67452301, 0xEFCDAB89, 0x98BADCFE, 0x10325476), ctx_buffer = buffer\<rparr>"

text \<open>The words written to the output, from the words read, until \<open>len\<close> bytes are produced.\<close>

fun MD5Encode :: "u32 list \<Rightarrow> nat \<Rightarrow> bytes option" where
  "MD5Encode input len =
     (if len = 0 then Some []
      else case input of
        [] \<Rightarrow> None
      | x # rest \<Rightarrow> do {
          out \<leftarrow> MD5Encode rest (len - 4);
          Some (ucast (x AND 0xFF) # ucast (drop_bit 8 x AND 0xFF) # ucast (drop_bit 16 x AND 0xFF) #
                ucast (drop_bit 24 x AND 0xFF) # out) })"

fun MD5Decode :: "bytes \<Rightarrow> nat \<Rightarrow> u32 list option" where
  "MD5Decode input len =
     (if len = 0 then Some []
      else case input of
        b0 # b1 # b2 # b3 # rest \<Rightarrow> do {
          out \<leftarrow> MD5Decode rest (len - 4);
          Some (le32 b0 b1 b2 b3 # out) }
      | _ \<Rightarrow> None)"

declare MD5Encode.simps [simp del] MD5Decode.simps [simp del]

definition MD5Transform :: "md5_state \<Rightarrow> bytes \<Rightarrow> md5_state option" where
  "MD5Transform state block = do {
     x \<leftarrow> MD5Decode block 64;
     let (s0, s1, s2, s3) = state;
     Some (let a = s0; b = s1; c = s2; d = s3;
          a = FF a b c d (x ! 0) 7 0xd76aa478;
          d = FF d a b c (x ! 1) 12 0xe8c7b756;
          c = FF c d a b (x ! 2) 17 0x242070db;
          b = FF b c d a (x ! 3) 22 0xc1bdceee;
          a = FF a b c d (x ! 4) 7 0xf57c0faf;
          d = FF d a b c (x ! 5) 12 0x4787c62a;
          c = FF c d a b (x ! 6) 17 0xa8304613;
          b = FF b c d a (x ! 7) 22 0xfd469501;
          a = FF a b c d (x ! 8) 7 0x698098d8;
          d = FF d a b c (x ! 9) 12 0x8b44f7af;
          c = FF c d a b (x ! 10) 17 0xffff5bb1;
          b = FF b c d a (x ! 11) 22 0x895cd7be;
          a = FF a b c d (x ! 12) 7 0x6b901122;
          d = FF d a b c (x ! 13) 12 0xfd987193;
          c = FF c d a b (x ! 14) 17 0xa679438e;
          b = FF b c d a (x ! 15) 22 0x49b40821;
          a = GG a b c d (x ! 1) 5 0xf61e2562;
          d = GG d a b c (x ! 6) 9 0xc040b340;
          c = GG c d a b (x ! 11) 14 0x265e5a51;
          b = GG b c d a (x ! 0) 20 0xe9b6c7aa;
          a = GG a b c d (x ! 5) 5 0xd62f105d;
          d = GG d a b c (x ! 10) 9 0x2441453;
          c = GG c d a b (x ! 15) 14 0xd8a1e681;
          b = GG b c d a (x ! 4) 20 0xe7d3fbc8;
          a = GG a b c d (x ! 9) 5 0x21e1cde6;
          d = GG d a b c (x ! 14) 9 0xc33707d6;
          c = GG c d a b (x ! 3) 14 0xf4d50d87;
          b = GG b c d a (x ! 8) 20 0x455a14ed;
          a = GG a b c d (x ! 13) 5 0xa9e3e905;
          d = GG d a b c (x ! 2) 9 0xfcefa3f8;
          c = GG c d a b (x ! 7) 14 0x676f02d9;
          b = GG b c d a (x ! 12) 20 0x8d2a4c8a;
          a = HH a b c d (x ! 5) 4 0xfffa3942;
          d = HH d a b c (x ! 8) 11 0x8771f681;
          c = HH c d a b (x ! 11) 16 0x6d9d6122;
          b = HH b c d a (x ! 14) 23 0xfde5380c;
          a = HH a b c d (x ! 1) 4 0xa4beea44;
          d = HH d a b c (x ! 4) 11 0x4bdecfa9;
          c = HH c d a b (x ! 7) 16 0xf6bb4b60;
          b = HH b c d a (x ! 10) 23 0xbebfbc70;
          a = HH a b c d (x ! 13) 4 0x289b7ec6;
          d = HH d a b c (x ! 0) 11 0xeaa127fa;
          c = HH c d a b (x ! 3) 16 0xd4ef3085;
          b = HH b c d a (x ! 6) 23 0x4881d05;
          a = HH a b c d (x ! 9) 4 0xd9d4d039;
          d = HH d a b c (x ! 12) 11 0xe6db99e5;
          c = HH c d a b (x ! 15) 16 0x1fa27cf8;
          b = HH b c d a (x ! 2) 23 0xc4ac5665;
          a = II a b c d (x ! 0) 6 0xf4292244;
          d = II d a b c (x ! 7) 10 0x432aff97;
          c = II c d a b (x ! 14) 15 0xab9423a7;
          b = II b c d a (x ! 5) 21 0xfc93a039;
          a = II a b c d (x ! 12) 6 0x655b59c3;
          d = II d a b c (x ! 3) 10 0x8f0ccc92;
          c = II c d a b (x ! 10) 15 0xffeff47d;
          b = II b c d a (x ! 1) 21 0x85845dd1;
          a = II a b c d (x ! 8) 6 0x6fa87e4f;
          d = II d a b c (x ! 15) 10 0xfe2ce6e0;
          c = II c d a b (x ! 6) 15 0xa3014314;
          b = II b c d a (x ! 13) 21 0x4e0811a1;
          a = II a b c d (x ! 4) 6 0xf7537e82;
          d = II d a b c (x ! 11) 10 0xbd3af235;
          c = II c d a b (x ! 2) 15 0x2ad7d2bb;
          b = II b c d a (x ! 9) 21 0xeb86d391
       in (s0 + a, s1 + b, s2 + c, s3 + d)) }"

text \<open>\<open>memcpy(&dst[off], src, n)\<close>.\<close>

definition memcpy_at :: "bytes \<Rightarrow> nat \<Rightarrow> bytes \<Rightarrow> nat \<Rightarrow> bytes option" where
  "memcpy_at dst off src n =
     (if off + n \<le> length dst \<and> n \<le> length src
      then Some (take off dst @ take n src @ drop (off + n) dst) else None)"

text \<open>The loop over whole blocks of the input: the state and the final \<open>i\<close>.\<close>

partial_function (option) MD5Update_loop :: "md5_state \<Rightarrow> bytes \<Rightarrow> u32 \<Rightarrow> u32 \<Rightarrow> (md5_state \<times> u32) option" where
  "MD5Update_loop state input i inputlen =
     (if i + 64 \<le> inputlen then do {
        ensure (unat i + 64 \<le> length input);
        state \<leftarrow> MD5Transform state (take 64 (drop (unat i) input));
        MD5Update_loop state input (i + 64) inputlen }
      else Some (state, i))"

definition MD5Update :: "MD5_CTX \<Rightarrow> bytes \<Rightarrow> u32 \<Rightarrow> MD5_CTX option" where
  "MD5Update context input inputlen = do {
     let (count0, count1) = ctx_count context;
     let index = drop_bit 3 count0 AND 0x3F;
     let partlen = 64 - index;
     let count0 = count0 + push_bit 3 inputlen;
     let count1 = (if count0 < push_bit 3 inputlen then count1 + 1 else count1);
     let count1 = count1 + drop_bit 29 inputlen;
     let context = context\<lparr>ctx_count := (count0, count1)\<rparr>;
     (context, i, index) \<leftarrow>
       (if inputlen \<ge> partlen then do {
          buffer \<leftarrow> memcpy_at (ctx_buffer context) (unat index) input (unat partlen);
          state \<leftarrow> MD5Transform (ctx_state context) buffer;
          (state, i) \<leftarrow> MD5Update_loop state input partlen inputlen;
          Some (context\<lparr>ctx_state := state, ctx_buffer := buffer\<rparr>, i, 0) }
        else Some (context, 0, index));
     buffer \<leftarrow> memcpy_at (ctx_buffer context) (unat index) (drop (unat i) input) (unat (inputlen - i));
     Some (context\<lparr>ctx_buffer := buffer\<rparr>) }"

definition MD5Final :: "MD5_CTX \<Rightarrow> (MD5_CTX \<times> bytes) option" where
  "MD5Final context = do {
     let (count0, count1) = ctx_count context;
     let index = drop_bit 3 count0 AND 0x3F;
     let padlen = (if index < 56 then 56 - index else 120 - index);
     bits \<leftarrow> MD5Encode [count0, count1] 8;
     context \<leftarrow> MD5Update context PADDING padlen;
     context \<leftarrow> MD5Update context bits 8;
     let (s0, s1, s2, s3) = ctx_state context;
     digest \<leftarrow> MD5Encode [s0, s1, s2, s3] 16;
     Some (context, digest) }"

definition hex_chars :: string where
  "hex_chars = ''0123456789abcdef''"

text \<open>\<open>%02x\<close> and \<open>%02X\<close> of one byte.\<close>

definition hex_upper :: string where
  "hex_upper = ''0123456789ABCDEF''"

definition hex2 :: "string \<Rightarrow> u8 \<Rightarrow> string" where
  "hex2 digits b = [digits ! (unat b div 16), digits ! (unat b mod 16)]"

definition int2hex :: "u8 \<Rightarrow> char" where
  "int2hex c = hex_chars ! unat (c AND 0x0F)"

text \<open>The string written by \<open>_cvthex\<close>; \<open>md5[i] >> 4\<close> shifts a signed \<open>char\<close>.\<close>

definition cvthex :: "bytes \<Rightarrow> string option" where
  "cvthex md5 = do {
     ensure (16 \<le> length md5);
     Some (concat (map (\<lambda>b. [int2hex (signed_drop_bit 4 b AND 0xf), int2hex (b AND 0xf)]) (take 16 md5))) }"

text \<open>The string written to \<open>md5_buff\<close>; \<open>lower\<close> is \<open>flag & MD5_LOWER\<close>, \<open>buffer\<close> the uninitialised
  buffer of the local context.\<close>

definition get_md5 :: "bytes \<Rightarrow> bytes \<Rightarrow> u32 \<Rightarrow> bool \<Rightarrow> string option" where
  "get_md5 buffer data data_len lower = do {
     md5 \<leftarrow> MD5Update (MD5Init buffer) data data_len;
     (md5, decrypt) \<leftarrow> MD5Final md5;
     Some (concat (map (hex2 (if lower then hex_chars else hex_upper)) (take 16 decrypt))) }"

end
