(* ===== verification/Md5Spec.thy ===== *)
theory Md5Spec
  imports Md5
begin

text \<open>
  Correctness of the MD5 code against RFC 1321: the unrolled compression function is the
  table-driven loop of the RFC, the incremental interface computes the iteration of the compression
  function over the padded message whatever the way the message is cut into updates, and the
  little-endian conversions are inverse to each other.
\<close>

section \<open>Reference definitions\<close>

text \<open>Auxiliary function, word index and rotation of step \<open>i\<close> (RFC 1321, section 3.4).\<close>

definition rfc_fun :: "nat \<Rightarrow> u32 \<Rightarrow> u32 \<Rightarrow> u32 \<Rightarrow> u32" where
  "rfc_fun i = (if i < 16 then md5_F else if i < 32 then md5_G else if i < 48 then md5_H else md5_I)"

definition rfc_index :: "nat \<Rightarrow> nat" where
  "rfc_index i = (if i < 16 then i else if i < 32 then (5 * i + 1) mod 16
                  else if i < 48 then (3 * i + 5) mod 16 else (7 * i) mod 16)"

definition rfc_shift :: "nat \<Rightarrow> nat" where
  "rfc_shift i = [[7, 12, 17, 22], [5, 9, 14, 20], [4, 11, 16, 23], [6, 10, 15, 21]] ! (i div 16) ! (i mod 4)"

definition rfc_T :: "u32 list" where
  "rfc_T = [
     0xd76aa478, 0xe8c7b756, 0x242070db, 0xc1bdceee, 0xf57c0faf, 0x4787c62a, 0xa8304613, 0xfd469501,
     0x698098d8, 0x8b44f7af, 0xffff5bb1, 0x895cd7be, 0x6b901122, 0xfd987193, 0xa679438e, 0x49b40821,
     0xf61e2562, 0xc040b340, 0x265e5a51, 0xe9b6c7aa, 0xd62f105d, 0x02441453, 0xd8a1e681, 0xe7d3fbc8,
     0x21e1cde6, 0xc33707d6, 0xf4d50d87, 0x455a14ed, 0xa9e3e905, 0xfcefa3f8, 0x676f02d9, 0x8d2a4c8a,
     0xfffa3942, 0x8771f681, 0x6d9d6122, 0xfde5380c, 0xa4beea44, 0x4bdecfa9, 0xf6bb4b60, 0xbebfbc70,
     0x289b7ec6, 0xeaa127fa, 0xd4ef3085, 0x04881d05, 0xd9d4d039, 0xe6db99e5, 0x1fa27cf8, 0xc4ac5665,
     0xf4292244, 0x432aff97, 0xab9423a7, 0xfc93a039, 0x655b59c3, 0x8f0ccc92, 0xffeff47d, 0x85845dd1,
     0x6fa87e4f, 0xfe2ce6e0, 0xa3014314, 0x4e0811a1, 0xf7537e82, 0xbd3af235, 0x2ad7d2bb, 0xeb86d391]"

definition rfc_step :: "u32 list \<Rightarrow> nat \<Rightarrow> md5_state \<Rightarrow> md5_state" where
  "rfc_step x i = (\<lambda>(a, b, c, d).
     (d, b + word_rotl (rfc_shift i) (a + (rfc_fun i b c d + x ! rfc_index i + rfc_T ! i)), b, c))"

definition rfc_compress :: "md5_state \<Rightarrow> u32 list \<Rightarrow> md5_state" where
  "rfc_compress st x = (case st of (a0, b0, c0, d0) \<Rightarrow>
     case fold (rfc_step x) [0..<64] st of (a, b, c, d) \<Rightarrow> (a0 + a, b0 + b, c0 + c, d0 + d))"

fun le_words :: "bytes \<Rightarrow> u32 list" where
  "le_words (a # b # c # d # r) = le32 a b c d # le_words r"
| "le_words _ = []"

function absorb :: "md5_state \<Rightarrow> bytes \<Rightarrow> md5_state \<times> bytes" where
  "absorb st m = (if length m < 64 then (st, m)
     else absorb (rfc_compress st (le_words (take 64 m))) (drop 64 m))"
  by auto
termination
  by (relation "measure (\<lambda>(st, m). length m)") auto

declare absorb.simps [simp del]

definition rfc_init :: md5_state where
  "rfc_init = (0x67452301, 0xEFCDAB89, 0x98BADCFE, 0x10325476)"

definition le_bytes :: "nat \<Rightarrow> nat \<Rightarrow> bytes" where
  "le_bytes k n = map (\<lambda>j. of_nat (n div 256 ^ j)) [0..<k]"

definition rfc_pad :: "bytes \<Rightarrow> bytes" where
  "rfc_pad m = m @ 0x80 # replicate ((119 - length m mod 64) mod 64) 0 @ le_bytes 8 (8 * length m)"

definition rfc_md5 :: "bytes \<Rightarrow> bytes" where
  "rfc_md5 m = (let (a, b, c, d) = fst (absorb rfc_init (rfc_pad m))
     in concat (map (\<lambda>x. le_bytes 4 (unat x)) [a, b, c, d]))"

section \<open>The compression function\<close>

lemma ROTATE_LEFT_rotl:
  assumes "n < 32"
  shows "ROTATE_LEFT x n = word_rotl n x"
proof (rule bit_word_eqI)
  fix k assume "k < LENGTH(32)"
  then have k: "k < 32" by simp
  show "bit (ROTATE_LEFT x n) k = bit (word_rotl n x) k"
  proof (cases "n \<le> k")
    case True
    then have "(k + (32 - n)) mod 32 = k - n" using assms k by (simp add: mod_if)
    then show ?thesis using True assms k
      by (auto simp: ROTATE_LEFT_def bit_simps dest: bit_imp_le_length)
  next
    case False
    then have "(k + (32 - n)) mod 32 = k + (32 - n)" using assms k by simp
    then show ?thesis using False assms k
      by (simp add: ROTATE_LEFT_def bit_or_iff bit_push_bit_iff bit_drop_bit_eq bit_word_rotl_iff
          add.commute [of "32 - n"])
  qed
qed

definition md5_op :: "(u32 \<Rightarrow> u32 \<Rightarrow> u32 \<Rightarrow> u32) \<Rightarrow> u32 \<Rightarrow> u32 \<Rightarrow> u32 \<Rightarrow> u32 \<Rightarrow> u32 \<Rightarrow> nat \<Rightarrow> u32 \<Rightarrow> u32" where
  "md5_op f a b c d x s ac = ROTATE_LEFT (a + (f b c d + x + ac)) s + b"

lemma md5_ops: "FF = md5_op md5_F" "GG = md5_op md5_G" "HH = md5_op md5_H" "II = md5_op md5_I"
  by (simp_all add: fun_eq_iff FF_def GG_def HH_def II_def md5_op_def Let_def)

lemma rfc_shift_less: "i < 64 \<Longrightarrow> rfc_shift i < 32"
proof -
  assume "i < 64"
  then have "i div 16 < 4" "i mod 4 < 4" by auto
  then have "i div 16 \<in> {0, 1, 2, 3}" "i mod 4 \<in> {0, 1, 2, 3}" by auto
  then show ?thesis by (auto simp: rfc_shift_def numeral_2_eq_2 numeral_3_eq_3)
qed

lemma rfc_step_op:
  "i < 64 \<Longrightarrow> rfc_step x i (a, b, c, d) = (d, md5_op (rfc_fun i) a b c d (x ! rfc_index i) (rfc_shift i) (rfc_T ! i), b, c)"
  by (simp add: rfc_step_def md5_op_def ROTATE_LEFT_rotl rfc_shift_less add.commute)

text \<open>Four steps of the unrolled code are four steps of the loop.\<close>

lemma rfc_quad:
  assumes "rfc_T ! i = t0" "rfc_T ! (i + 1) = t1" "rfc_T ! (i + 2) = t2" "rfc_T ! (i + 3) = t3"
    and "rfc_index i = k0" "rfc_index (i + 1) = k1" "rfc_index (i + 2) = k2" "rfc_index (i + 3) = k3"
    and "rfc_shift i = s0" "rfc_shift (i + 1) = s1" "rfc_shift (i + 2) = s2" "rfc_shift (i + 3) = s3"
    and "rfc_fun i = f" "rfc_fun (i + 1) = f" "rfc_fun (i + 2) = f" "rfc_fun (i + 3) = f"
    and "i + 3 < 64"
    and K: "\<And>a b c d. K a b c d = (case fold (rfc_step x) [i + 4..<64] (a, b, c, d) of (a, b, c, d) \<Rightarrow> L a b c d)"
  shows "(let a = md5_op f a b c d (x ! k0) s0 t0; d = md5_op f d a b c (x ! k1) s1 t1;
              c = md5_op f c d a b (x ! k2) s2 t2; b = md5_op f b c d a (x ! k3) s3 t3 in K a b c d)
       = (case fold (rfc_step x) [i..<64] (a, b, c, d) of (a, b, c, d) \<Rightarrow> L a b c d)"
proof -
  have "[i..<64] = i # (i + 1) # (i + 2) # (i + 3) # [i + 4..<64]"
    using \<open>i + 3 < 64\<close> by (simp add: upt_conv_Cons) (simp add: numeral_eq_Suc)
  then show ?thesis using assms by (simp add: rfc_step_op Let_def)
qed

lemma MD5Decode_le_words: "length m = 4 * n \<Longrightarrow> MD5Decode m (4 * n) = Some (le_words m)"
proof (induction n arbitrary: m)
  case 0
  then show ?case by (simp add: MD5Decode.simps)
next
  case (Suc n)
  then obtain a b c d r where m: "m = a # b # c # d # r" using length_ge_4 [of m] by auto
  then have "MD5Decode r (4 * n) = Some (le_words r)" using Suc by simp
  then show ?case using m by (simp add: MD5Decode.simps [of "_ # _"])
qed

lemma MD5Transform_rfc:
  assumes "length block = 64"
  shows "MD5Transform st block = Some (rfc_compress st (le_words block))"
proof -
  obtain a b c d where st: "st = (a, b, c, d)" by (cases st) auto
  have dec: "MD5Decode block 64 = Some (le_words block)"
    using MD5Decode_le_words [of block 16] assms by simp
  show ?thesis
    unfolding MD5Transform_def dec st rfc_compress_def md5_ops bind.bind_lunit prod.case Let_def [of "(a, b, c, d)"]
    Let_def [of a] Let_def [of b] Let_def [of c] Let_def [of d] option.inject
    by ((rule rfc_quad, (simp_all add: rfc_T_def rfc_index_def rfc_shift_def rfc_fun_def)[17])+) simp
qed

section \<open>Absorbing a message\<close>

lemma absorb_short [simp]: "length m < 64 \<Longrightarrow> absorb st m = (st, m)"
  by (simp add: absorb.simps)

lemma absorb_block:
  "length b = 64 \<Longrightarrow> absorb st (b @ m) = absorb (rfc_compress st (le_words b)) m"
  by (simp add: absorb.simps [of st "b @ m"])

lemma absorb_append:
  "absorb st m = (st', r) \<Longrightarrow> absorb st (m @ m') = absorb st' (r @ m')"
proof (induction st m arbitrary: st' r rule: absorb.induct)
  case (1 st m)
  show ?case
  proof (cases "length m < 64")
    case True
    then show ?thesis using "1.prems" by simp
  next
    case False
    have "absorb st (take 64 m @ drop 64 m @ m') = absorb (rfc_compress st (le_words (take 64 m))) (drop 64 m @ m')"
      using absorb_block [of "take 64 m" st "drop 64 m @ m'"] False by simp
    then have "absorb st (m @ m') = absorb (rfc_compress st (le_words (take 64 m))) (drop 64 m @ m')"
      by (metis append_assoc append_take_drop_id)
    also have "\<dots> = absorb st' (r @ m')"
      using "1.IH" [of st' r] "1.prems" False by (simp add: absorb.simps [of st m])
    finally show ?thesis .
  qed
qed

lemma absorb_rest_length: "length (snd (absorb st m)) = length m mod 64"
proof (induction st m rule: absorb.induct)
  case (1 st m)
  then show ?case by (cases "length m < 64") (simp_all add: absorb.simps [of st m] le_mod_geq)
qed

text \<open>The invariant of a context that has consumed \<open>m\<close>.\<close>

definition md5_repr :: "MD5_CTX \<Rightarrow> bytes \<Rightarrow> bool" where
  "md5_repr ctx m \<longleftrightarrow>
     unat (fst (ctx_count ctx)) + 2 ^ 32 * unat (snd (ctx_count ctx)) = (8 * length m) mod 2 ^ 64 \<and>
     length (ctx_buffer ctx) = 64 \<and>
     absorb rfc_init m = (ctx_state ctx, take (length m mod 64) (ctx_buffer ctx))"

lemma md5_count_add:
  fixes c0 c1 n :: u32
  assumes "unat c0 + 2 ^ 32 * unat c1 = (8 * l) mod 2 ^ 64"
  defines "c0' \<equiv> c0 + push_bit 3 n"
  defines "c1' \<equiv> (if c0' < push_bit 3 n then c1 + 1 else c1) + drop_bit 29 n"
  shows "unat c0' + 2 ^ 32 * unat c1' = (8 * (l + unat n)) mod 2 ^ 64"
proof -
  define a where "a = unat c0"
  define b where "b = unat c1"
  define k where "k = unat n"
  have bounds: "a < 2 ^ 32" "b < 2 ^ 32" "k < 2 ^ 32"
    using unat_bound [of c0] unat_bound [of c1] unat_bound [of n] by (simp_all add: a_def b_def k_def)
  have p: "unat (push_bit 3 n) = (8 * k) mod 2 ^ 32"
    by (simp add: k_def push_bit_eq_mult unat_word_ariths mult.commute)
  have d: "unat (drop_bit 29 n) = k div 2 ^ 29"
    unfolding unat_drop_bit_eq k_def by (rule drop_bit_eq_div)
  have s: "8 * k = (8 * k) mod 2 ^ 32 + 2 ^ 32 * (k div 2 ^ 29)"
    using mult_div_mod_eq [of "2 ^ 32" "8 * k"] div_mult2_eq [of "8 * k" 8 "2 ^ 29"] by simp
  have c0: "unat c0' = (a + (8 * k) mod 2 ^ 32) mod 2 ^ 32"
    by (simp add: c0'_def unat_word_ariths p a_def)
  have carry: "c0' < push_bit 3 n \<longleftrightarrow> 2 ^ 32 \<le> a + (8 * k) mod 2 ^ 32"
  proof -
    have "(u + v) mod 2 ^ 32 < v \<longleftrightarrow> 2 ^ 32 \<le> u + v" if "u < 2 ^ 32" "v < 2 ^ 32" for u v :: nat
      using that by (cases "u + v < 2 ^ 32") (simp_all add: le_mod_geq)
    from this [OF bounds(1), of "(8 * k) mod 2 ^ 32"] show ?thesis
      unfolding word_less_nat_alt c0 p by simp
  qed
  have c1: "unat c1' = (b + (if 2 ^ 32 \<le> a + (8 * k) mod 2 ^ 32 then 1 else 0) + k div 2 ^ 29) mod 2 ^ 32"
    unfolding c1'_def carry by (auto simp: unat_word_ariths d b_def mod_simps)
  have "(8 * (l + unat n)) mod 2 ^ 64 = ((8 * l) mod 2 ^ 64 + 8 * k) mod 2 ^ 64"
    by (simp add: k_def mod_simps)
  also have "\<dots> = (a + 2 ^ 32 * b + ((8 * k) mod 2 ^ 32 + 2 ^ 32 * (k div 2 ^ 29))) mod 2 ^ 64"
    using assms(1) s by (simp add: a_def b_def)
  also have "\<dots> = (a + (8 * k) mod 2 ^ 32) mod 2 ^ 32 +
      2 ^ 32 * ((b + (a + (8 * k) mod 2 ^ 32) div 2 ^ 32 + k div 2 ^ 29) mod 2 ^ 32)"
  proof -
    have "(u + 2 ^ 32 * v) mod 2 ^ 64 = u mod 2 ^ 32 + 2 ^ 32 * ((v + u div 2 ^ 32) mod 2 ^ 32)" for u v :: nat
      using mod_mult2_eq [of "u + 2 ^ 32 * v" "2 ^ 32" "2 ^ 32"] by (simp add: add.commute)
    from this [of "a + (8 * k) mod 2 ^ 32" "b + k div 2 ^ 29"] show ?thesis
      by (simp add: algebra_simps)
  qed
  also have "(a + (8 * k) mod 2 ^ 32) div 2 ^ 32 = (if 2 ^ 32 \<le> a + (8 * k) mod 2 ^ 32 then 1 else 0)"
    using bounds(1) by (auto simp: div_nat_eqI)
  finally show ?thesis unfolding c0 c1 by simp
qed

lemma md5_index:
  fixes c0 c1 :: u32
  assumes "unat c0 + 2 ^ 32 * unat c1 = (8 * l) mod 2 ^ 64"
  shows "unat (drop_bit 3 c0 AND 0x3F) = l mod 64"
proof -
  have "unat c0 = (unat c0 + 2 ^ 32 * unat c1) mod 2 ^ 32" using unat_bound [of c0] by simp
  also have "\<dots> = (8 * l) mod 2 ^ 32" unfolding assms by (simp add: mod_mod_cancel)
  finally have "unat c0 div 8 mod 64 = l mod 64"
    using mult_mod_right [of 8 l "2 ^ 29", symmetric] by (simp add: mod_mod_cancel)
  moreover have "drop_bit 3 c0 AND 0x3F = take_bit 6 (drop_bit 3 c0)"
    by (simp add: take_bit_eq_mask mask_eq_exp_minus_1)
  moreover have "unat (take_bit 6 (drop_bit 3 c0)) = unat c0 div 8 mod 64"
    unfolding unat_drop_bit_eq unsigned_take_bit_eq drop_bit_eq_div [where 'a = nat] take_bit_eq_mod [where 'a = nat] by simp
  ultimately show ?thesis by simp
qed

lemma MD5Update_loop_ok:
  fixes inputlen :: u32
  assumes "unat i \<le> unat inputlen" and "unat inputlen \<le> length input" and "unat inputlen < 2 ^ 32 - 64"
    and "absorb st (drop (unat i) (take (unat inputlen) input)) = (st', r)"
  shows "\<exists>i'. MD5Update_loop st input i inputlen = Some (st', i') \<and> unat i' \<le> unat inputlen \<and>
     r = drop (unat i') (take (unat inputlen) input)"
  using assms
proof (induction "unat inputlen - unat i" arbitrary: i st rule: less_induct)
  case less
  have i64: "unat (i + 64) = unat i + 64"
    using less.prems(1,3) by (simp add: unat_word_ariths)
  show ?case
  proof (cases "i + 64 \<le> inputlen")
    case True
    then have le: "unat i + 64 \<le> unat inputlen" using i64 by (simp add: word_le_nat_alt)
    define b where "b = take 64 (drop (unat i) input)"
    have b: "length b = 64" using le less.prems(2) by (simp add: b_def)
    have "drop (unat i) (take (unat inputlen) input) = b @ drop (unat (i + 64)) (take (unat inputlen) input)"
      using append_take_drop_id [of 64 "drop (unat i) (take (unat inputlen) input)", symmetric] le
      by (simp add: b_def i64 take_drop add.commute min_def)
    then have "absorb (rfc_compress st (le_words b)) (drop (unat (i + 64)) (take (unat inputlen) input)) = (st', r)"
      using less.prems(4) absorb_block [OF b] by simp
    then show ?thesis
      using less.hyps [of "i + 64"] less.prems(2,3) le i64 True b
      by (simp add: MD5Update_loop.simps [of st input i] b_def [symmetric] MD5Transform_rfc)
  next
    case False
    then have "unat inputlen < unat i + 64" using i64 by (simp add: word_le_nat_alt)
    then have "st' = st" "r = drop (unat i) (take (unat inputlen) input)"
      using less.prems(1,2,4) by simp_all
    then show ?thesis using less.prems(1) False
      by (intro exI [of _ i]) (simp add: MD5Update_loop.simps [of st input i])
  qed
qed

lemma MD5Update_repr:
  assumes R: "md5_repr ctx m" and n: "unat inputlen \<le> length input" "unat inputlen < 2 ^ 32 - 64"
  shows "\<exists>ctx'. MD5Update ctx input inputlen = Some ctx' \<and> md5_repr ctx' (m @ take (unat inputlen) input)"
proof -
  obtain c0 c1 where c: "ctx_count ctx = (c0, c1)" by (cases "ctx_count ctx")
  define k where "k = length m mod 64"
  define index where "index = drop_bit 3 c0 AND 0x3F"
  define partlen where "partlen = 64 - index"
  define c0' where "c0' = c0 + push_bit 3 inputlen"
  define c1' where "c1' = (if c0' < push_bit 3 inputlen then c1 + 1 else c1) + drop_bit 29 inputlen"
  define inp where "inp = take (unat inputlen) input"
  have R': "unat c0 + 2 ^ 32 * unat c1 = (8 * length m) mod 2 ^ 64" "length (ctx_buffer ctx) = 64"
    "absorb rfc_init m = (ctx_state ctx, take k (ctx_buffer ctx))"
    using R by (simp_all add: md5_repr_def c k_def)
  have idx: "unat index = k" using md5_index [OF R'(1)] by (simp add: index_def k_def)
  have k64: "k < 64" by (simp add: k_def)
  have part: "unat partlen = 64 - k"
    using k64 idx unat_sub [of index 64] by (simp add: partlen_def word_le_nat_alt)
  have cnt: "unat c0' + 2 ^ 32 * unat c1' = (8 * length (m @ inp)) mod 2 ^ 64"
    using md5_count_add [OF R'(1), of inputlen] n(1) by (simp add: c0'_def c1'_def inp_def)
  have ab: "absorb rfc_init (m @ inp) = absorb (ctx_state ctx) (take k (ctx_buffer ctx) @ inp)"
    by (rule absorb_append [OF R'(3)])
  show ?thesis
  proof (cases "partlen \<le> inputlen")
    case True
    then have ge: "64 - k \<le> unat inputlen" using part by (simp add: word_le_nat_alt)
    define b where "b = take k (ctx_buffer ctx) @ take (64 - k) input"
    have b: "memcpy_at (ctx_buffer ctx) (unat index) input (unat partlen) = Some b" "length b = 64"
      using ge n(1) k64 R'(2) by (simp_all add: memcpy_at_def idx part b_def)
    have "take k (ctx_buffer ctx) @ inp = b @ drop (64 - k) inp"
      using append_take_drop_id [of "64 - k" inp] ge by (simp add: b_def inp_def min_def)
    then have ab': "absorb rfc_init (m @ inp) = absorb (rfc_compress (ctx_state ctx) (le_words b)) (drop (64 - k) inp)"
      using ab absorb_block [OF b(2)] by simp
    obtain st' r where sr: "absorb rfc_init (m @ inp) = (st', r)" by (cases "absorb rfc_init (m @ inp)")
    obtain i where i: "MD5Update_loop (rfc_compress (ctx_state ctx) (le_words b)) input partlen inputlen = Some (st', i)"
      "unat i \<le> unat inputlen" "r = drop (unat i) inp"
      using MD5Update_loop_ok [of partlen inputlen input "rfc_compress (ctx_state ctx) (le_words b)" st' r] ge n sr ab'
      by (auto simp: part inp_def)
    have len: "length r = length (m @ inp) mod 64" using absorb_rest_length [of rfc_init "m @ inp"] sr by simp
    have ni: "unat (inputlen - i) = length r"
      using i(2,3) n(1) by (simp add: unat_sub word_le_nat_alt inp_def)
    have mc: "memcpy_at b 0 (drop (unat i) input) (unat (inputlen - i)) = Some (r @ drop (length r) b)"
      using len b(2) i(3) n(1) unfolding ni by (simp add: memcpy_at_def inp_def drop_take)
    have "MD5Update ctx input inputlen = Some (ctx\<lparr>ctx_count := (c0', c1'), ctx_state := st', ctx_buffer := r @ drop (length r) b\<rparr>)"
      using True b i(1) mc by (simp add: MD5Update_def c Let_def index_def partlen_def c0'_def c1'_def MD5Transform_rfc)
    moreover have "length (r @ drop (length r) b) = 64" using len b(2) by simp
    ultimately show ?thesis using cnt sr len by (simp add: md5_repr_def inp_def)
  next
    case False
    then have lt: "unat inputlen < 64 - k" using part by (simp add: word_le_nat_alt)
    define b where "b = take k (ctx_buffer ctx) @ inp @ drop (k + unat inputlen) (ctx_buffer ctx)"
    have b: "memcpy_at (ctx_buffer ctx) (unat index) input (unat inputlen) = Some b" "length b = 64"
      using lt n(1) R'(2) by (simp_all add: memcpy_at_def idx b_def inp_def)
    have "length (m @ inp) mod 64 = k + unat inputlen"
      using lt n(1) by (simp add: k_def inp_def mod_add_left_eq [symmetric, of "length m"])
    moreover have "absorb rfc_init (m @ inp) = (ctx_state ctx, take k (ctx_buffer ctx) @ inp)"
      using ab lt n(1) R'(2) by (simp add: inp_def)
    moreover have "MD5Update ctx input inputlen = Some (ctx\<lparr>ctx_count := (c0', c1'), ctx_buffer := b\<rparr>)"
      using False b by (simp add: MD5Update_def c Let_def index_def partlen_def c0'_def c1'_def)
    ultimately show ?thesis using cnt b(2) lt n(1) R'(2) by (simp add: md5_repr_def b_def inp_def)
  qed
qed

lemma MD5Init_repr: "length buffer = 64 \<Longrightarrow> md5_repr (MD5Init buffer) []"
  by (simp add: md5_repr_def MD5Init_def rfc_init_def)

section \<open>Encoding\<close>

lemma mask8_u32: "(0xFF :: u32) = mask 8"
  by (simp add: mask_eq_exp_minus_1)

lemma le_bytes_4:
  "le_bytes 4 (unat x) = [ucast (x AND 0xFF), ucast (drop_bit 8 x AND 0xFF), ucast (drop_bit 16 x AND 0xFF),
     ucast (drop_bit 24 x AND 0xFF)]" for x :: u32
proof -
  have byte: "ucast (y AND 0xFF) = (of_nat (unat y) :: u8)" for y :: u32
    unfolding mask8_u32 by (intro bit_word_eqI) (auto simp: bit_and_iff bit_mask_iff bit_simps)
  have div: "unat (drop_bit n x) = unat x div 2 ^ n" for n
    unfolding unat_drop_bit_eq by (rule drop_bit_eq_div)
  show ?thesis unfolding byte div by (simp add: le_bytes_def upt_rec)
qed

lemma MD5Encode_le_bytes:
  "MD5Encode xs (4 * length xs) = Some (concat (map (\<lambda>x. le_bytes 4 (unat x)) xs))"
proof (induction xs)
  case Nil
  show ?case by (simp add: MD5Encode.simps)
next
  case (Cons x xs)
  show ?case
    using Cons by (simp add: MD5Encode.simps [of "x # xs"] le_bytes_4)
qed

lemma byte_div_mod:
  assumes "j < k"
  shows "(of_nat (n mod 256 ^ k div 256 ^ j) :: u8) = of_nat (n div 256 ^ j)"
proof -
  have e: "(256 :: nat) ^ i = 2 ^ (8 * i)" for i by (simp add: power_mult)
  have "take_bit 8 (drop_bit (8 * j) (take_bit (8 * k) n)) = take_bit 8 (drop_bit (8 * j) n)"
    using assms by (intro bit_eqI) (auto simp: bit_simps)
  then show ?thesis
    unfolding word_of_nat_eq_iff e drop_bit_eq_div [symmetric] take_bit_eq_mod [symmetric] by simp
qed

lemma le_bytes_mod: "le_bytes k (n mod 256 ^ k) = le_bytes k n"
  by (simp add: le_bytes_def byte_div_mod)

lemma le_bytes_8: "le_bytes 8 n = le_bytes 4 (n mod 2 ^ 32) @ le_bytes 4 (n div 2 ^ 32)"
proof -
  have "le_bytes 4 (n mod 2 ^ 32) = le_bytes 4 n" using le_bytes_mod [of 4 n] by simp
  then show ?thesis
    by (simp add: le_bytes_def upt_rec div_mult2_eq [symmetric])
qed

lemma length_le_bytes [simp]: "length (le_bytes k n) = k"
  by (simp add: le_bytes_def)

lemma MD5Final_ok:
  assumes R: "md5_repr ctx m"
  shows "\<exists>ctx'. MD5Final ctx = Some (ctx', rfc_md5 m)"
proof -
  obtain c0 c1 where c: "ctx_count ctx = (c0, c1)" by (cases "ctx_count ctx")
  define k where "k = length m mod 64"
  define index where "index = drop_bit 3 c0 AND 0x3F"
  define padlen where "padlen = (if index < 56 then 56 - index else 120 - index)"
  have cnt: "unat c0 + 2 ^ 32 * unat c1 = (8 * length m) mod 2 ^ 64" using R by (simp add: md5_repr_def c)
  have idx: "unat index = k" using md5_index [OF cnt] by (simp add: index_def k_def)
  have k64: "k < 64" by (simp add: k_def)
  have pad: "unat padlen = Suc ((119 - k) mod 64)"
    using k64 idx unat_sub [of index 56] unat_sub [of index 120]
    by (auto simp: padlen_def word_le_nat_alt word_less_nat_alt mod_if)
  have pad64: "(119 - k) mod 64 \<le> 63"
    using mod_less_divisor [of 64 "119 - k"] by linarith
  have bits: "MD5Encode [c0, c1] 8 = Some (le_bytes 8 (8 * length m))"
  proof -
    have "le_bytes 8 (8 * length m) = le_bytes 8 (unat c0 + 2 ^ 32 * unat c1)"
      using le_bytes_mod [of 8 "8 * length m"] cnt by simp
    also have "\<dots> = le_bytes 4 (unat c0) @ le_bytes 4 (unat c1)"
      using unat_bound [of c0] by (simp add: le_bytes_8)
    finally show ?thesis using MD5Encode_le_bytes [of "[c0, c1]"] by simp
  qed
  have P: "length PADDING = 64" "take (unat padlen) PADDING = 0x80 # replicate ((119 - k) mod 64) 0"
    using pad by (simp_all add: PADDING_def min_def)
  obtain c2 where c2: "MD5Update ctx PADDING padlen = Some c2" "md5_repr c2 (m @ take (unat padlen) PADDING)"
    using MD5Update_repr [OF R, of padlen PADDING] P(1) pad pad64 by auto
  obtain c3 where c3: "MD5Update c2 (le_bytes 8 (8 * length m)) 8 = Some c3" "md5_repr c3 (rfc_pad m)"
    using MD5Update_repr [OF c2(2), of 8 "le_bytes 8 (8 * length m)"] P(2)
    by (auto simp: rfc_pad_def k_def)
  obtain s0 s1 s2 s3 where s: "ctx_state c3 = (s0, s1, s2, s3)" by (cases "ctx_state c3") auto
  have "rfc_md5 m = concat (map (\<lambda>x. le_bytes 4 (unat x)) [s0, s1, s2, s3])"
    using c3(2) s by (simp add: rfc_md5_def md5_repr_def)
  then have "MD5Encode [s0, s1, s2, s3] 16 = Some (rfc_md5 m)"
    using MD5Encode_le_bytes [of "[s0, s1, s2, s3]"] by simp
  then show ?thesis
    using c2(1) c3(1) bits by (simp add: MD5Final_def c index_def [symmetric] padlen_def [symmetric] s)
qed

lemma le32_le_bytes: "le_bytes 4 (unat (le32 a b c d)) = [a, b, c, d]"
proof -
  have "ucast (le32 a b c d AND mask 8) = a" "ucast (drop_bit 8 (le32 a b c d) AND mask 8) = b"
    "ucast (drop_bit 16 (le32 a b c d) AND mask 8) = c" "ucast (drop_bit 24 (le32 a b c d) AND mask 8) = d"
    by (rule bit_word_eqI, auto simp: bit_simps bit_le32)+
  then show ?thesis by (simp only: le_bytes_4 mask8_u32)
qed

lemma MD5Encode_le_words:
  "length b = 4 * n \<Longrightarrow> length (le_words b) = n \<and> concat (map (\<lambda>x. le_bytes 4 (unat x)) (le_words b)) = b"
proof (induction n arbitrary: b)
  case (Suc n)
  then obtain p q r s t where b: "b = p # q # r # s # t" using length_ge_4 [of b] by auto
  then show ?case using Suc le32_le_bytes [of p q r s] by simp
qed simp

lemma le_words_le_bytes: "le_words (concat (map (\<lambda>x. le_bytes 4 (unat x)) xs)) = xs"
proof (induction xs)
  case (Cons x xs)
  have "le32 (ucast (x AND 0xFF)) (ucast (drop_bit 8 x AND 0xFF)) (ucast (drop_bit 16 x AND 0xFF))
      (ucast (drop_bit 24 x AND 0xFF)) = x"
    unfolding mask8_u32 by (rule bit_word_eqI) (auto simp: bit_simps bit_le32)
  then show ?case using Cons by (simp only: list.map concat.simps le_bytes_4 append.simps le_words.simps)
qed simp

text \<open>The low and the high half of a byte, as \<open>_cvthex\<close> selects them.\<close>

lemma int2hex_halves:
  "[int2hex (signed_drop_bit 4 b AND 0xf), int2hex (b AND 0xf)] = hex2 hex_chars b"
proof -
  have "(0xF :: u8) = mask 4" by (simp add: mask_eq_exp_minus_1)
  moreover have "(signed_drop_bit 4 b AND mask 4) AND mask 4 = drop_bit 4 b"
    by (rule bit_word_eqI) (auto simp: bit_simps dest: bit_imp_le_length)
  moreover have "(b AND mask 4) AND mask 4 = take_bit 4 b" by (simp add: take_bit_eq_mask)
  moreover have "unat (drop_bit 4 b) = unat b div 16" "unat (take_bit 4 b) = unat b mod 16"
    unfolding unat_drop_bit_eq unsigned_take_bit_eq drop_bit_eq_div [where 'a = nat] take_bit_eq_mod [where 'a = nat]
    by simp_all
  ultimately show ?thesis unfolding int2hex_def hex2_def by (simp only:)
qed

section \<open>Properties\<close>







text \<open>\<open>get_md5\<close> writes the 32 hexadecimal digits of the RFC 1321 digest of its argument, in lower or
  upper case as the flag says; the lower-case string is the one \<open>_cvthex\<close> makes of the digest, although
  that function shifts signed characters.\<close>

theorem get_md5_hex:
  assumes "length buffer = 64" and "unat data_len \<le> length data" and "unat data_len < 2 ^ 31"
  shows "get_md5 buffer data data_len lower =
           Some (concat (map (hex2 (if lower then hex_chars else hex_upper)) (rfc_md5 (take (unat data_len) data))))
         \<and> get_md5 buffer data data_len True = cvthex (rfc_md5 (take (unat data_len) data))"
proof -
  define d where "d = rfc_md5 (take (unat data_len) data)"
  have "length d = 16" by (simp add: d_def rfc_md5_def split: prod.splits)
  moreover obtain ctx where "MD5Update (MD5Init buffer) data data_len = Some ctx" "md5_repr ctx (take (unat data_len) data)"
    using MD5Update_repr [OF MD5Init_repr [OF assms(1)] assms(2)] assms(3) by auto
  moreover obtain ctx' where "MD5Final ctx = Some (ctx', d)"
    using MD5Final_ok [of ctx] calculation(3) by (auto simp: d_def)
  ultimately show ?thesis
    unfolding d_def [symmetric] by (simp add: get_md5_def cvthex_def int2hex_halves)
qed

theorem get_md5_hex_witness:
  "get_md5 (replicate 64 0) [97, 100, 109, 105, 110] 5 True = cvthex (rfc_md5 [97, 100, 109, 105, 110])"
proof -
  have "take (unat (5 :: u32)) [97, 100, 109, 105, 110] = ([97, 100, 109, 105, 110] :: bytes)" by simp
  then show ?thesis using get_md5_hex [of "replicate 64 0" 5 "[97, 100, 109, 105, 110]" True] by auto
qed

text \<open>\<open>MD5Decode\<close> and \<open>MD5Encode\<close> are inverse to each other: a buffer of whole words decodes, and
  encoding the words gives the buffer back; words encode, and decoding the bytes gives the words
  back.\<close>

theorem MD5_encode_decode:
  assumes "length b = 4 * n"
  shows "(do { xs \<leftarrow> MD5Decode b (4 * n); MD5Encode xs (4 * n) }) = Some b
       \<and> (do { ys \<leftarrow> MD5Encode xs (4 * length xs); MD5Decode ys (4 * length xs) }) = Some xs"
proof
  show "(do { xs \<leftarrow> MD5Decode b (4 * n); MD5Encode xs (4 * n) }) = Some b"
    using MD5Decode_le_words [OF assms] MD5Encode_le_words [OF assms] MD5Encode_le_bytes [of "le_words b"] by simp
  have "length (concat (map (\<lambda>x. le_bytes 4 (unat x)) xs)) = 4 * length xs" by (induction xs) simp_all
  then show "(do { ys \<leftarrow> MD5Encode xs (4 * length xs); MD5Decode ys (4 * length xs) }) = Some xs"
    using MD5Decode_le_words [of "concat (map (\<lambda>x. le_bytes 4 (unat x)) xs)" "length xs"]
    by (simp add: MD5Encode_le_bytes le_words_le_bytes)
qed

theorem MD5_encode_decode_witness:
  "(do { xs \<leftarrow> MD5Decode [1, 2, 3, 4, 5, 6, 7, 8] 8; MD5Encode xs 8 }) = Some [1, 2, 3, 4, 5, 6, 7, 8]"
  using MD5_encode_decode [of "[1, 2, 3, 4, 5, 6, 7, 8]" 2] by simp

end
