(* ===== verification/Mempool.thy ===== *)
theory Mempool
  imports MphashProps
begin

text \<open>
  The blocks of one pool of \<open>demo_mempool/mempool.c\<close>: headers, free lists, splitting, searching and
  coalescing.  A pool at address \<open>p\<close> is a \<open>mempool_t\<close> of 192 bytes (LP64, no pool name) followed by
  its blocks; a block at address \<open>r\<close> starts with a packed header of 15 bytes.  The pools, the block
  headers and the large blocks are typed partial maps over one address space; the user bytes are a
  separate map.  A header that is no longer part of a pool stays in the map with its last contents,
  as the memory does until it is written again.
\<close>

type_synonym u24 = "24 word"
type_synonym u56 = "56 word"

section \<open>Data\<close>

definition MEMPOOL_FREELIST_SIZE :: nat where "MEMPOOL_FREELIST_SIZE = 5"
definition MEMPOOL_NULL :: u16 where "MEMPOOL_NULL = 0xffff"
definition MEMPOOL_LARGEFLAG :: u32 where "MEMPOOL_LARGEFLAG = 0xffffffff"
definition MEMPOOL_FAILED_SKIP :: u8 where "MEMPOOL_FAILED_SKIP = 8"
definition MEMPOOL_MAXSIZE :: u32 where "MEMPOOL_MAXSIZE = 65536"
definition MEMPOOL_MAX_TOTAL :: u64 where "MEMPOOL_MAX_TOTAL = 34359738368"
definition MEMPOOL_FREEPOOL_MAX :: u32 where "MEMPOOL_FREEPOOL_MAX = 256"
definition MEMPOOL_MAX_SEARCHPOOL :: int where "MEMPOOL_MAX_SEARCHPOOL = -1"
definition MEMPOOL_MAX_SEARCHINPOOL :: int where "MEMPOOL_MAX_SEARCHINPOOL = 8"
definition MEMPOOL_REALLOC_MAXCHKS :: int where "MEMPOOL_REALLOC_MAXCHKS = 8"
definition MEMPOOL_INPOOL_SIZE :: u64 where "MEMPOOL_INPOOL_SIZE = 268435456"

record realdata =
  rd_offset :: u16
  rd_size :: u16
  rd_prev :: u16
  rd_next :: u16
  rd_realprev :: u16
  rd_realnext :: u16
  rd_used :: u16
  rd_status :: u8

record mempool_large =
  large_flag :: u32
  large_size :: u32
  large_used :: u32

record mempool =
  freelist :: "ptr list"
  busylist :: ptr
  p_prev :: ptr
  p_next :: ptr
  cfg_ht :: "mp_hash_table option"
  cfg_largeht :: "mp_hash_table option"
  max_memsize :: u56
  max_freepool :: u8
  single_max :: u32
  max_searchpool :: int
  pool_size :: u32
  failed_memsize :: u32
  judge_alloc :: ptr
  judge_args :: ptr
  freepool :: ptr
  pooltail :: ptr
  total_alloced :: u64
  total_leftsize :: u64
  pfree_count :: u32
  leftsize :: u24
  failed :: u8

record mpmem =
  pools :: "ptr \<Rightarrow> mempool option"
  rds :: "ptr \<Rightarrow> realdata option"
  larges :: "ptr \<Rightarrow> mempool_large option"
  ubytes :: "ptr \<Rightarrow> u8"

definition sizeof_mempool :: nat where "sizeof_mempool = 192"
definition sizeof_realdata :: nat where "sizeof_realdata = 15"
definition sizeof_large :: nat where "sizeof_large = 12"

definition pool_at :: "mpmem \<Rightarrow> ptr \<Rightarrow> mempool option" where
  "pool_at s p = (if p = NULL then None else pools s p)"

definition upd_pool :: "mpmem \<Rightarrow> ptr \<Rightarrow> (mempool \<Rightarrow> mempool) \<Rightarrow> mpmem option" where
  "upd_pool s p f = do { x \<leftarrow> pool_at s p; Some (s\<lparr>pools := (pools s)(p \<mapsto> f x)\<rparr>) }"

definition rd_at :: "mpmem \<Rightarrow> ptr \<Rightarrow> realdata option" where
  "rd_at s r = (if r = NULL then None else rds s r)"

definition upd_rd :: "mpmem \<Rightarrow> ptr \<Rightarrow> (realdata \<Rightarrow> realdata) \<Rightarrow> mpmem option" where
  "upd_rd s r f = do { d \<leftarrow> rd_at s r; Some (s\<lparr>rds := (rds s)(r \<mapsto> f d)\<rparr>) }"

definition set_freelist :: "mpmem \<Rightarrow> ptr \<Rightarrow> int \<Rightarrow> ptr \<Rightarrow> mpmem option" where
  "set_freelist s pool i r = do {
     p \<leftarrow> pool_at s pool;
     fl \<leftarrow> put_at (freelist p) (nat i) r;
     upd_pool s pool (\<lambda>p. p\<lparr>freelist := fl\<rparr>) }"

text \<open>What uninitialised memory holds where a header is about to be written: the header that was
  there, or \<open>junk\<close>.\<close>

definition raw_rd :: "realdata \<Rightarrow> mpmem \<Rightarrow> ptr \<Rightarrow> realdata" where
  "raw_rd junk s r = (case rds s r of Some d \<Rightarrow> d | None \<Rightarrow> junk)"

definition mempool_get_realdata_direct :: "ptr \<Rightarrow> u16 \<Rightarrow> ptr" where
  "mempool_get_realdata_direct pool offset = pool + sizeof_mempool + unat offset"

definition mempool_get_realdata :: "ptr \<Rightarrow> u16 \<Rightarrow> ptr" where
  "mempool_get_realdata pool offset =
     (if offset \<noteq> MEMPOOL_NULL then mempool_get_realdata_direct pool offset else NULL)"

section \<open>Pool initialisation\<close>

text \<open>The header of the single block must lie in the memory of the pool.\<close>

definition init_mempool :: "realdata \<Rightarrow> mpmem \<Rightarrow> ptr \<Rightarrow> mpmem option" where
  "init_mempool junk s pool = do {
     p \<leftarrow> pool_at s pool;
     ensure (sizeof_mempool + sizeof_realdata \<le> unat (pool_size p));
     let r = pool + sizeof_mempool;
     let sz = (ucast (pool_size p - of_nat sizeof_mempool) :: u16);
     let d = (raw_rd junk s r)\<lparr>rd_offset := 0, rd_size := sz, rd_prev := MEMPOOL_NULL, rd_next := MEMPOOL_NULL,
               rd_realprev := MEMPOOL_NULL, rd_realnext := MEMPOOL_NULL, rd_status := 0\<rparr>;
     upd_pool (s\<lparr>rds := (rds s)(r \<mapsto> d)\<rparr>) pool
       (\<lambda>p. p\<lparr>freelist := replicate (MEMPOOL_FREELIST_SIZE - 1) NULL @ [r], busylist := NULL,
               leftsize := ucast sz, failed := 0\<rparr>) }"

section \<open>Free lists\<close>

partial_function (option) get_freelist_loop :: "mempool \<Rightarrow> u32 \<Rightarrow> (ptr \<times> int) option" where
  "get_freelist_loop pool tmp_size =
     (if tmp_size > 4096 then do { fl \<leftarrow> get_at (freelist pool) 4; Some (fl, 4) }
      else if tmp_size > 1024 then do {
        fl \<leftarrow> get_at (freelist pool) 3;
        if fl = NULL then get_freelist_loop pool 4097 else Some (fl, 3) }
      else if tmp_size > 512 then do {
        fl \<leftarrow> get_at (freelist pool) 2;
        if fl = NULL then get_freelist_loop pool 1025 else Some (fl, 2) }
      else if tmp_size > 128 then do {
        fl \<leftarrow> get_at (freelist pool) 1;
        if fl = NULL then get_freelist_loop pool 513 else Some (fl, 1) }
      else do {
        fl \<leftarrow> get_at (freelist pool) 0;
        if fl = NULL then get_freelist_loop pool 129 else Some (fl, 0) })"

definition mempool_get_freelist :: "mempool \<Rightarrow> u32 \<Rightarrow> (ptr \<times> int) option" where
  "mempool_get_freelist pool sz = do {
     (fl, tmp_index) \<leftarrow> get_freelist_loop pool sz;
     Some (fl, if fl \<noteq> NULL then tmp_index else -1) }"

definition get_freeidx :: "u32 \<Rightarrow> int" where
  "get_freeidx sz =
     (if sz > 4096 then 4 else if sz > 1024 then 3 else if sz > 512 then 2
      else if sz > 128 then 1 else 0)"

definition remove_freenode :: "mpmem \<Rightarrow> ptr \<Rightarrow> ptr \<Rightarrow> int \<Rightarrow> mpmem option" where
  "remove_freenode s pool freenode freeidx = do {
     d \<leftarrow> rd_at s freenode;
     let freeidx = (if freeidx = -1 then get_freeidx (ucast (rd_size d)) else freeidx);
     let nxt = mempool_get_realdata pool (rd_next d);
     p \<leftarrow> pool_at s pool;
     h \<leftarrow> get_at (freelist p) (nat freeidx);
     if freenode \<noteq> h then do {
       s \<leftarrow> upd_rd s (mempool_get_realdata_direct pool (rd_prev d)) (\<lambda>t. t\<lparr>rd_next := rd_next d\<rparr>);
       if nxt \<noteq> NULL then upd_rd s nxt (\<lambda>t. t\<lparr>rd_prev := rd_prev d\<rparr>) else Some s }
     else do {
       s \<leftarrow> set_freelist s pool freeidx nxt;
       if nxt \<noteq> NULL then upd_rd s nxt (\<lambda>t. t\<lparr>rd_prev := MEMPOOL_NULL\<rparr>) else Some s } }"

definition add_freenode :: "mpmem \<Rightarrow> ptr \<Rightarrow> ptr \<Rightarrow> int \<Rightarrow> mpmem option" where
  "add_freenode s pool freenode freeidx = do {
     d \<leftarrow> rd_at s freenode;
     let freeidx = (if freeidx = -1 then get_freeidx (ucast (rd_size d)) else freeidx);
     p \<leftarrow> pool_at s pool;
     h \<leftarrow> get_at (freelist p) (nat freeidx);
     s \<leftarrow> (if h \<noteq> NULL then do {
             hd' \<leftarrow> rd_at s h;
             s \<leftarrow> upd_rd s freenode (\<lambda>t. t\<lparr>rd_next := rd_offset hd'\<rparr>);
             upd_rd s h (\<lambda>t. t\<lparr>rd_prev := rd_offset d\<rparr>) }
           else upd_rd s freenode (\<lambda>t. t\<lparr>rd_next := MEMPOOL_NULL\<rparr>));
     s \<leftarrow> set_freelist s pool freeidx freenode;
     upd_rd s freenode (\<lambda>t. t\<lparr>rd_prev := MEMPOOL_NULL\<rparr>) }"

section \<open>Splitting a block\<close>

text \<open>The branch that takes the whole block \<open>rd\<close>: it leaves its free list.\<close>

definition split_whole :: "mpmem \<Rightarrow> ptr \<Rightarrow> ptr \<Rightarrow> ptr \<Rightarrow> int \<Rightarrow> mpmem option" where
  "split_whole s pool rd fl freeidx = do {
     d \<leftarrow> rd_at s rd;
     let prev = mempool_get_realdata pool (rd_prev d);
     let nxt = mempool_get_realdata pool (rd_next d);
     if rd \<noteq> fl then do {
       s \<leftarrow> (if prev \<noteq> NULL then upd_rd s prev (\<lambda>t. t\<lparr>rd_next := rd_next d\<rparr>) else Some s);
       if nxt \<noteq> NULL then upd_rd s nxt (\<lambda>t. t\<lparr>rd_prev := rd_prev d\<rparr>) else Some s }
     else do {
       s \<leftarrow> set_freelist s pool freeidx nxt;
       if nxt \<noteq> NULL then upd_rd s nxt (\<lambda>t. t\<lparr>rd_prev := MEMPOOL_NULL\<rparr>) else Some s } }"

text \<open>The branch that cuts \<open>size\<close> bytes off \<open>rd\<close>: the rest becomes a block of its own in the place of
  \<open>rd\<close> in the free list, and moves to another list when its size asks for it.\<close>

definition split_cut :: "realdata \<Rightarrow> mpmem \<Rightarrow> ptr \<Rightarrow> ptr \<Rightarrow> u32 \<Rightarrow> ptr \<Rightarrow> int \<Rightarrow> (mpmem \<times> ptr) option" where
  "split_cut junk s pool rd sz fl freeidx = do {
     d \<leftarrow> rd_at s rd;
     let prev = mempool_get_realdata pool (rd_prev d);
     let nxt = mempool_get_realdata pool (rd_next d);
     let r = rd + unat sz;
     p \<leftarrow> pool_at s pool;
     ensure (r + sizeof_realdata \<le> pool + unat (pool_size p));
     let n = (raw_rd junk s r)\<lparr>rd_offset := ucast (ucast (rd_offset d) + sz),
               rd_size := ucast (ucast (rd_size d) - sz), rd_prev := rd_prev d, rd_next := rd_next d,
               rd_realprev := rd_offset d, rd_realnext := rd_realnext d, rd_status := 0\<rparr>;
     let s = s\<lparr>rds := (rds s)(r \<mapsto> n)\<rparr>;
     s \<leftarrow> (if rd_realnext d \<noteq> MEMPOOL_NULL
           then upd_rd s (mempool_get_realdata_direct pool (rd_realnext d)) (\<lambda>t. t\<lparr>rd_realprev := rd_offset n\<rparr>)
           else Some s);
     s \<leftarrow> upd_rd s rd (\<lambda>t. t\<lparr>rd_size := ucast sz, rd_realnext := rd_offset n\<rparr>);
     s \<leftarrow> (if nxt \<noteq> NULL then upd_rd s nxt (\<lambda>t. t\<lparr>rd_prev := rd_offset n\<rparr>) else Some s);
     s \<leftarrow> (if rd \<noteq> fl then upd_rd s prev (\<lambda>t. t\<lparr>rd_next := rd_offset n\<rparr>)
           else set_freelist s pool freeidx r);
     let freeidx2 = get_freeidx (ucast (rd_size n));
     s \<leftarrow> (if freeidx2 \<noteq> freeidx then do {
             s \<leftarrow> remove_freenode s pool r freeidx;
             add_freenode s pool r freeidx2 }
           else Some s);
     Some (s, r) }"

text \<open>The state, the allocated block and the new value of \<open>*realdata\<close>.\<close>

definition split_realdata :: "realdata \<Rightarrow> mpmem \<Rightarrow> ptr \<Rightarrow> ptr \<Rightarrow> u32 \<Rightarrow> (mpmem \<times> ptr \<times> ptr) option" where
  "split_realdata junk s pool rd sz = do {
     d \<leftarrow> rd_at s rd;
     p \<leftarrow> pool_at s pool;
     (fl, freeidx) \<leftarrow> mempool_get_freelist p (ucast (rd_size d));
     (s, rest) \<leftarrow> (if ucast (rd_size d) - sz < 30 then do {
                     s \<leftarrow> split_whole s pool rd fl freeidx;
                     Some (s, NULL) }
                   else split_cut junk s pool rd sz fl freeidx);
     s \<leftarrow> upd_rd s rd (\<lambda>t. t\<lparr>rd_prev := MEMPOOL_NULL, rd_next := MEMPOOL_NULL, rd_status := 1\<rparr>);
     Some (s, rd, rest) }"

section \<open>Searching a pool\<close>

partial_function (option) avail_scan :: "mpmem \<Rightarrow> ptr \<Rightarrow> u32 \<Rightarrow> ptr \<Rightarrow> ptr \<Rightarrow> int \<Rightarrow> ptr option" where
  "avail_scan s pool sz tmp avadata search_times =
     (if tmp = NULL then Some avadata
      else do {
        t \<leftarrow> rd_at s tmp;
        a \<leftarrow> rd_at s avadata;
        let avadata = (if ucast (rd_size t) \<ge> sz \<and> rd_size a > rd_size t then tmp else avadata);
        if search_times \<ge> MEMPOOL_MAX_SEARCHINPOOL then Some avadata
        else avail_scan s pool sz (mempool_get_realdata pool (rd_next t)) avadata (search_times + 1) })"

partial_function (option) next_freelist :: "mempool \<Rightarrow> int \<Rightarrow> (ptr \<times> int) option" where
  "next_freelist p freeidx = do {
     tmp \<leftarrow> get_at (freelist p) (nat (freeidx + 1));
     if tmp \<noteq> NULL then Some (tmp, freeidx + 1)
     else if freeidx + 1 < 4 then next_freelist p (freeidx + 1)
     else Some (NULL, freeidx + 1) }"

partial_function (option) get_availdata_from :: "mpmem \<Rightarrow> ptr \<Rightarrow> u32 \<Rightarrow> ptr \<Rightarrow> int \<Rightarrow> ptr option" where
  "get_availdata_from s pool sz tmp freeidx = do {
     avadata \<leftarrow> avail_scan s pool sz tmp tmp 0;
     result \<leftarrow> (if avadata \<noteq> NULL then do {
                  a \<leftarrow> rd_at s avadata;
                  Some (if ucast (rd_size a) \<ge> sz then avadata else NULL) }
                else Some NULL);
     if result = NULL \<and> freeidx < 4 \<and> freeidx \<ge> 0 then do {
       p \<leftarrow> pool_at s pool;
       (tmp, freeidx) \<leftarrow> next_freelist p freeidx;
       if tmp \<noteq> NULL then get_availdata_from s pool sz tmp freeidx else Some NULL }
     else Some result }"

definition get_availdata :: "mpmem \<Rightarrow> ptr \<Rightarrow> u32 \<Rightarrow> ptr option" where
  "get_availdata s pool sz = do {
     p \<leftarrow> pool_at s pool;
     (tmp, freeidx) \<leftarrow> mempool_get_freelist p sz;
     get_availdata_from s pool sz tmp freeidx }"

section \<open>Allocating in one pool\<close>

text \<open>A pool in use: the block found is cut and linked in front of the busy list.\<close>

definition alloc_busy :: "realdata \<Rightarrow> mpmem \<Rightarrow> ptr \<Rightarrow> ptr \<Rightarrow> u32 \<Rightarrow> (mpmem \<times> ptr) option" where
  "alloc_busy junk s tmp avadata sz = do {
     s \<leftarrow> upd_pool s tmp (\<lambda>p. p\<lparr>failed := 0\<rparr>);
     (s, rd, rest) \<leftarrow> split_realdata junk s tmp avadata sz;
     p \<leftarrow> pool_at s tmp;
     b \<leftarrow> rd_at s (busylist p);
     d \<leftarrow> rd_at s rd;
     s \<leftarrow> upd_rd s rd (\<lambda>t. t\<lparr>rd_next := rd_offset b\<rparr>);
     s \<leftarrow> upd_rd s (busylist p) (\<lambda>t. t\<lparr>rd_prev := rd_offset d\<rparr>);
     Some (s, rd) }"

text \<open>The first allocation of a pool: its single block is cut.\<close>

definition alloc_first :: "realdata \<Rightarrow> mpmem \<Rightarrow> ptr \<Rightarrow> u32 \<Rightarrow> (mpmem \<times> ptr) option" where
  "alloc_first junk s tmp sz = do {
     p \<leftarrow> pool_at s tmp;
     avadata \<leftarrow> get_at (freelist p) (MEMPOOL_FREELIST_SIZE - 1);
     (s, rd, avadata) \<leftarrow> split_realdata junk s tmp avadata sz;
     if avadata \<noteq> NULL then do {
       a \<leftarrow> rd_at s avadata;
       let freeidx = get_freeidx (ucast (rd_size a));
       s \<leftarrow> (if freeidx = 4 then set_freelist s tmp 4 avadata
             else do { s \<leftarrow> set_freelist s tmp 4 NULL; set_freelist s tmp freeidx avadata });
       Some (s, rd) }
     else do { s \<leftarrow> set_freelist s tmp 4 NULL; Some (s, rd) } }"

text \<open>The new head of the busy list and what is left of the pool.\<close>

definition alloc_finish :: "mpmem \<Rightarrow> ptr \<Rightarrow> ptr \<Rightarrow> mpmem option" where
  "alloc_finish s tmp rd = do {
     d \<leftarrow> rd_at s rd;
     upd_pool s tmp (\<lambda>p. p\<lparr>busylist := rd, leftsize := leftsize p - ucast (rd_size d)\<rparr>) }"

section \<open>Freeing in one pool\<close>

definition free_realdata :: "mpmem \<Rightarrow> ptr \<Rightarrow> ptr \<Rightarrow> mpmem option" where
  "free_realdata s pool rd = do {
     d \<leftarrow> rd_at s rd;
     let realprev = mempool_get_realdata pool (rd_realprev d);
     let realnext = mempool_get_realdata pool (rd_realnext d);
     let freesize = rd_size d;
     prev_free \<leftarrow> (if realprev \<noteq> NULL then do { t \<leftarrow> rd_at s realprev; Some (rd_status t = 0) } else Some False);
     (s, freeheader) \<leftarrow>
       (if prev_free then do {
          s \<leftarrow> remove_freenode s pool realprev (-1);
          s \<leftarrow> upd_rd s realprev (\<lambda>t. t\<lparr>rd_size := rd_size t + rd_size d, rd_realnext := rd_realnext d\<rparr>);
          Some (s, realprev) }
        else Some (s, rd));
     next_free \<leftarrow> (if realnext \<noteq> NULL then do { t \<leftarrow> rd_at s realnext; Some (rd_status t = 0) } else Some False);
     s \<leftarrow> (if next_free then do {
             s \<leftarrow> remove_freenode s pool realnext (-1);
             n \<leftarrow> rd_at s realnext;
             upd_rd s freeheader (\<lambda>t. t\<lparr>rd_size := rd_size t + rd_size n, rd_realnext := rd_realnext n\<rparr>) }
           else Some s);
     f \<leftarrow> rd_at s freeheader;
     s \<leftarrow> (if rd_realnext f \<noteq> MEMPOOL_NULL
           then upd_rd s (mempool_get_realdata_direct pool (rd_realnext f)) (\<lambda>t. t\<lparr>rd_realprev := rd_offset f\<rparr>)
           else Some s);
     s \<leftarrow> add_freenode s pool freeheader (-1);
     s \<leftarrow> upd_rd s freeheader (\<lambda>t. t\<lparr>rd_status := 0\<rparr>);
     upd_pool s pool (\<lambda>p. p\<lparr>leftsize := leftsize p + ucast freesize, failed := 0\<rparr>) }"

text \<open>The block leaves the busy list.\<close>

definition unlink_busy :: "mpmem \<Rightarrow> ptr \<Rightarrow> ptr \<Rightarrow> mpmem option" where
  "unlink_busy s pool rd = do {
     d \<leftarrow> rd_at s rd;
     s \<leftarrow> (if rd_prev d \<noteq> MEMPOOL_NULL
           then upd_rd s (mempool_get_realdata_direct pool (rd_prev d)) (\<lambda>t. t\<lparr>rd_next := rd_next d\<rparr>)
           else do {
             let b = mempool_get_realdata pool (rd_next d);
             s \<leftarrow> upd_pool s pool (\<lambda>p. p\<lparr>busylist := b\<rparr>);
             if b \<noteq> NULL then upd_rd s b (\<lambda>t. t\<lparr>rd_prev := MEMPOOL_NULL\<rparr>) else Some s });
     s \<leftarrow> (if rd_next d \<noteq> MEMPOOL_NULL
           then upd_rd s (mempool_get_realdata_direct pool (rd_next d)) (\<lambda>t. t\<lparr>rd_prev := rd_prev d\<rparr>)
           else Some s);
     upd_rd s rd (\<lambda>t. t\<lparr>rd_prev := MEMPOOL_NULL, rd_next := MEMPOOL_NULL\<rparr>) }"

end
