(* ===== verification/MempoolOps.thy ===== *)
theory MempoolOps
  imports Mempool
begin

text \<open>
  The public operations of \<open>demo_mempool/mempool.c\<close>: configuration, allocation over the list of
  pools, freeing, reallocation, and the bounded copies into allocated memory.  The world outside is a
  record \<open>mp_env\<close>: where \<open>malloc\<close> puts a block (or \<open>NULL\<close>), whether the hash tables can be allocated,
  what uninitialised memory holds, and the meaning of the \<open>judge_alloc\<close> callbacks, which are
  assumed not to change the pools.
\<close>

record mp_env =
  env_malloc :: "mpmem \<Rightarrow> u32 \<Rightarrow> ptr"
  env_calloc :: bool
  env_pool :: mempool
  env_rd :: realdata
  env_judge :: "ptr \<Rightarrow> mpmem \<Rightarrow> ptr \<Rightarrow> u32 \<Rightarrow> ptr \<Rightarrow> int"

section \<open>Configuration\<close>

definition mempool_getpagesize :: u32 where
  "mempool_getpagesize = 4096"

definition MEMPOOL_MEMALIGN :: "u32 \<Rightarrow> u32 \<Rightarrow> u32" where
  "MEMPOOL_MEMALIGN sz align = (sz + (align - 1)) AND NOT (align - 1)"

text \<open>\<open>free\<close> of large blocks, as the callback of the large-block table.\<close>

definition free_larges :: "mpmem \<Rightarrow> ptr list \<Rightarrow> mpmem" where
  "free_larges s xs = s\<lparr>larges := (\<lambda>a. if a \<in> set xs then None else larges s a)\<rparr>"

definition mempool_get_maxmem :: "mpmem \<Rightarrow> ptr \<Rightarrow> u64 option" where
  "mempool_get_maxmem s pool =
     (if pool = NULL then Some 0 else do { p \<leftarrow> pool_at s pool; Some (ucast (max_memsize p)) })"

text \<open>The replacement of the two hash tables in \<open>mempool_set_maxmem\<close>.\<close>

definition reset_tables :: "mp_env \<Rightarrow> mpmem \<Rightarrow> ptr \<Rightarrow> mpmem option" where
  "reset_tables env s pool = do {
     p \<leftarrow> pool_at s pool;
     _ \<leftarrow> (case cfg_ht p of None \<Rightarrow> Some [] | Some ht \<Rightarrow> mp_hash_table_free ht);
     log \<leftarrow> (case cfg_largeht p of None \<Rightarrow> Some [] | Some ht \<Rightarrow> mp_hash_table_free ht);
     let s = free_larges s log;
     ensure (pool_size p \<noteq> 0);
     let hash_size = (ucast ((ucast (max_memsize p) :: u64) div ucast (pool_size p) + 1) :: u32);
     ht \<leftarrow> mp_hash_table_create hash_memaddr (Some hash_memcmp) False hash_size
             (env_calloc env) (env_calloc env) (env_calloc env);
     ht \<leftarrow> (case ht of None \<Rightarrow> Some None
           | Some ht \<Rightarrow> do { (ht, _) \<leftarrow> mp_hash_table_insert ht pool; Some (Some ht) });
     lt \<leftarrow> mp_hash_table_create hash_memaddr (Some hash_memcmp) True hash_size
             (env_calloc env) (env_calloc env) (env_calloc env);
     upd_pool s pool (\<lambda>p. p\<lparr>cfg_ht := ht, cfg_largeht := lt\<rparr>) }"

definition mempool_set_maxmem :: "mp_env \<Rightarrow> mpmem \<Rightarrow> ptr \<Rightarrow> u64 \<Rightarrow> mpmem option" where
  "mempool_set_maxmem env s pool maxmem =
     (if pool = NULL then Some s
      else do {
        p \<leftarrow> pool_at s pool;
        let old_maxmem = (ucast (max_memsize p) :: u64);
        let m = (ucast maxmem :: u56);
        let m = (if (ucast m :: u64) > MEMPOOL_MAX_TOTAL then ucast MEMPOOL_MAX_TOTAL else m);
        let m = (if (ucast m :: u64) < ucast (pool_size p) then ucast (pool_size p) else m);
        let sm = (if (ucast (single_max p) :: u64) > ucast m then ucast m else single_max p);
        s \<leftarrow> upd_pool s pool (\<lambda>p. p\<lparr>max_memsize := m, single_max := sm\<rparr>);
        if maxmem > 0 \<and> maxmem \<noteq> old_maxmem then reset_tables env s pool else Some s })"

definition mempool_set_single_max :: "mpmem \<Rightarrow> ptr \<Rightarrow> u32 \<Rightarrow> mpmem option" where
  "mempool_set_single_max s pool smax =
     (if pool = NULL then Some s
      else upd_pool s pool (\<lambda>p. p\<lparr>single_max :=
             (if (ucast smax :: u64) > ucast (max_memsize p) then ucast (max_memsize p) else smax)\<rparr>))"

definition mempool_set_max_searchpool :: "mpmem \<Rightarrow> ptr \<Rightarrow> int \<Rightarrow> mpmem option" where
  "mempool_set_max_searchpool s pool n =
     (if pool = NULL then Some s
      else upd_pool s pool (\<lambda>p. p\<lparr>max_searchpool := (if n > 0 then n else MEMPOOL_MAX_SEARCHPOOL)\<rparr>))"

definition mempool_set_judge_alloc :: "mpmem \<Rightarrow> ptr \<Rightarrow> ptr \<Rightarrow> ptr \<Rightarrow> mpmem option" where
  "mempool_set_judge_alloc s pool judge arg =
     (if pool = NULL then Some s
      else upd_pool s pool (\<lambda>p. p\<lparr>judge_alloc := judge, judge_args := arg\<rparr>))"

text \<open>The size a pool gets.\<close>

definition init_size :: "u32 \<Rightarrow> u32" where
  "init_size sz =
     (let sz = (if sz > 0 then MEMPOOL_MEMALIGN sz 8 else sz)
      in if sz = 0 \<or> sz > MEMPOOL_MAXSIZE then mempool_getpagesize else sz)"

text \<open>A \<open>mempool_t\<close> must fit in the allocated block.  The name is only used with \<open>__USE_POOLNAME\<close>.\<close>

definition mempool_init_extra ::
  "mp_env \<Rightarrow> mpmem \<Rightarrow> u32 \<Rightarrow> u64 \<Rightarrow> u32 \<Rightarrow> u32 \<Rightarrow> int \<Rightarrow> ptr \<Rightarrow> ptr \<Rightarrow> (mpmem \<times> ptr) option" where
  "mempool_init_extra env s sz maxmem smax maxfree maxsearch judge arg = do {
     let sz = init_size sz;
     let pool = env_malloc env s sz;
     if pool = NULL then Some (s, NULL)
     else do {
       ensure (sizeof_mempool \<le> unat sz);
       let p = (env_pool env)\<lparr>pool_size := sz, failed_memsize := drop_bit 2 sz, cfg_ht := None, cfg_largeht := None\<rparr>;
       let s = s\<lparr>pools := (pools s)(pool \<mapsto> p)\<rparr>;
       s \<leftarrow> mempool_set_maxmem env s pool maxmem;
       s \<leftarrow> mempool_set_single_max s pool smax;
       s \<leftarrow> upd_pool s pool (\<lambda>p. p\<lparr>max_freepool := ucast (if maxfree < MEMPOOL_FREEPOOL_MAX then maxfree else MEMPOOL_FREEPOOL_MAX),
              max_searchpool := maxsearch, judge_alloc := judge, judge_args := arg,
              pfree_count := 0, freepool := NULL\<rparr>);
       s \<leftarrow> init_mempool (env_rd env) s pool;
       s \<leftarrow> upd_pool s pool (\<lambda>p. p\<lparr>total_alloced := 0, total_leftsize := ucast (leftsize p),
              p_prev := NULL, p_next := NULL, pooltail := NULL\<rparr>);
       Some (s, pool) } }"

definition mempool_alloced :: "mpmem \<Rightarrow> ptr \<Rightarrow> u64 option" where
  "mempool_alloced s pool =
     (if pool = NULL then Some 0
      else do { p \<leftarrow> pool_at s pool; Some (total_alloced p + ucast (pool_size p)) })"

definition mempool_poolsize :: "mpmem \<Rightarrow> ptr \<Rightarrow> u32 option" where
  "mempool_poolsize s pool = (if pool = NULL then Some 0 else do { p \<leftarrow> pool_at s pool; Some (pool_size p) })"

section \<open>Destruction\<close>

definition free_pool :: "mpmem \<Rightarrow> ptr \<Rightarrow> mpmem option" where
  "free_pool s pool = do { _ \<leftarrow> pool_at s pool; Some (s\<lparr>pools := (pools s)(pool := None)\<rparr>) }"

text \<open>The loop over \<open>freepool\<close>; a failing \<open>assert\<close> is \<open>None\<close>.\<close>

partial_function (option) destroy_freepools :: "mpmem \<Rightarrow> ptr \<Rightarrow> mpmem option" where
  "destroy_freepools s tmp =
     (if tmp = NULL then Some s
      else do {
        t \<leftarrow> pool_at s tmp;
        ensure (busylist t = NULL);
        s \<leftarrow> free_pool s tmp;
        destroy_freepools s (p_next t) })"

partial_function (option) destroy_pools :: "mpmem \<Rightarrow> ptr \<Rightarrow> mpmem option" where
  "destroy_pools s p =
     (if p = NULL then Some s
      else do { t \<leftarrow> pool_at s p; s \<leftarrow> free_pool s p; destroy_pools s (p_next t) })"

definition mempool_destroy :: "mpmem \<Rightarrow> ptr \<Rightarrow> mpmem option" where
  "mempool_destroy s pool =
     (if pool = NULL then Some s
      else do {
        p \<leftarrow> pool_at s pool;
        log \<leftarrow> (case cfg_largeht p of None \<Rightarrow> Some [] | Some ht \<Rightarrow> mp_hash_table_free ht);
        let s = free_larges s log;
        s \<leftarrow> upd_pool s pool (\<lambda>p. p\<lparr>cfg_largeht := None\<rparr>);
        s \<leftarrow> destroy_freepools s (freepool p);
        _ \<leftarrow> (case cfg_ht p of None \<Rightarrow> Some [] | Some ht \<Rightarrow> mp_hash_table_free ht);
        s \<leftarrow> upd_pool s pool (\<lambda>p. p\<lparr>cfg_ht := None\<rparr>);
        destroy_pools s pool })"

section \<open>Allocation\<close>

text \<open>A missing table (\<open>NULL\<close>) makes the table operations return -1 or \<open>NULL\<close>.\<close>

definition ht_insert :: "mp_hash_table option \<Rightarrow> ptr \<Rightarrow> (mp_hash_table option \<times> int) option" where
  "ht_insert ht data = (case ht of None \<Rightarrow> Some (None, -1)
     | Some t \<Rightarrow> do { (t, r) \<leftarrow> mp_hash_table_insert t data; Some (Some t, r) })"

definition ht_find :: "mp_hash_table option \<Rightarrow> ptr \<Rightarrow> ptr option" where
  "ht_find ht data = (case ht of None \<Rightarrow> Some NULL | Some t \<Rightarrow> mp_hash_table_find t data)"

text \<open>The table without the element, and what the \<open>free\<close> callback got.\<close>

definition ht_delete :: "mp_hash_table option \<Rightarrow> ptr \<Rightarrow> (mp_hash_table option \<times> ptr list) option" where
  "ht_delete ht data = (case ht of None \<Rightarrow> Some (None, [])
     | Some t \<Rightarrow> do { (t, _) \<leftarrow> mp_hash_table_delete t data; Some (Some (t\<lparr>freed := []\<rparr>), freed t) })"

definition alloc_large :: "mp_env \<Rightarrow> mpmem \<Rightarrow> ptr \<Rightarrow> u32 \<Rightarrow> (mpmem \<times> ptr) option" where
  "alloc_large env s pool sz = do {
     let sz = MEMPOOL_MEMALIGN (sz + of_nat sizeof_large) 8;
     let large = env_malloc env s sz;
     if large = NULL then Some (s, NULL)
     else do {
       ensure (sizeof_large \<le> unat sz);
       let s = s\<lparr>larges := (larges s)(large \<mapsto> \<lparr>large_flag = MEMPOOL_LARGEFLAG, large_size = sz, large_used = 0\<rparr>)\<rparr>;
       p \<leftarrow> pool_at s pool;
       (lt, r) \<leftarrow> ht_insert (cfg_largeht p) large;
       s \<leftarrow> upd_pool s pool (\<lambda>p. p\<lparr>cfg_largeht := lt\<rparr>);
       if r = 0 then do {
         s \<leftarrow> upd_pool s pool (\<lambda>p. p\<lparr>total_alloced := total_alloced p + ucast sz\<rparr>);
         Some (s, large + sizeof_large) }
       else Some (free_larges s [large], NULL) } }"

definition mempool_move2tail :: "mpmem \<Rightarrow> ptr \<Rightarrow> ptr \<Rightarrow> (mpmem \<times> int) option" where
  "mempool_move2tail s basepool pool = do {
     b \<leftarrow> pool_at s basepool;
     if pool = basepool \<or> pool = pooltail b then Some (s, -1)
     else do {
       p \<leftarrow> pool_at s pool;
       s \<leftarrow> upd_pool s (p_prev p) (\<lambda>t. t\<lparr>p_next := p_next p\<rparr>);
       p \<leftarrow> pool_at s pool;
       s \<leftarrow> upd_pool s (p_next p) (\<lambda>t. t\<lparr>p_prev := p_prev p\<rparr>);
       s \<leftarrow> upd_pool s pool (\<lambda>t. t\<lparr>p_prev := NULL, p_next := NULL\<rparr>);
       s \<leftarrow> upd_pool s (pooltail b) (\<lambda>t. t\<lparr>p_next := pool\<rparr>);
       s \<leftarrow> upd_pool s pool (\<lambda>t. t\<lparr>p_prev := pooltail b\<rparr>);
       s \<leftarrow> upd_pool s basepool (\<lambda>t. t\<lparr>pooltail := pool\<rparr>);
       Some (s, 0) } }"

text \<open>The \<open>while\<close> loop over the pools: the state, the final \<open>tmp\<close> and the block found, if any.  The
  number of failures is only counted when \<open>max_searchpool\<close> is positive.\<close>

partial_function (option) alloc_search ::
  "realdata \<Rightarrow> mpmem \<Rightarrow> ptr \<Rightarrow> u32 \<Rightarrow> ptr \<Rightarrow> int \<Rightarrow> (mpmem \<times> ptr \<times> ptr) option" where
  "alloc_search junk s basepool sz tmp search_failed =
     (if tmp = NULL then Some (s, NULL, NULL)
      else do {
        t \<leftarrow> pool_at s tmp;
        b \<leftarrow> pool_at s basepool;
        (fl, _) \<leftarrow> (if (ucast (leftsize t) :: u32) < sz then Some (NULL, -1) else mempool_get_freelist t sz);
        if fl = NULL then do {
          s \<leftarrow> (if failed t < MEMPOOL_FAILED_SKIP then
                  if (ucast (leftsize t) :: u32) < failed_memsize b
                  then upd_pool s tmp (\<lambda>t. t\<lparr>failed := failed t + 1\<rparr>) else Some s
                else do { (s, _) \<leftarrow> mempool_move2tail s basepool tmp; Some s });
          if max_searchpool b > 0 \<and> search_failed + 1 \<ge> max_searchpool b then Some (s, tmp, NULL)
          else alloc_search junk s basepool sz (p_next t)
                 (if max_searchpool b > 0 then search_failed + 1 else search_failed) }
        else if busylist t \<noteq> NULL then do {
          avadata \<leftarrow> get_availdata s tmp sz;
          if avadata = NULL then do {
            s \<leftarrow> (if failed t < MEMPOOL_FAILED_SKIP \<and> (ucast (leftsize t) :: u32) < failed_memsize b
                  then upd_pool s tmp (\<lambda>t. t\<lparr>failed := failed t + 1\<rparr>) else Some s);
            if max_searchpool b > 0 \<and> search_failed + 1 \<ge> max_searchpool b then Some (s, tmp, NULL)
            else alloc_search junk s basepool sz (p_next t)
                   (if max_searchpool b > 0 then search_failed + 1 else search_failed) }
          else do {
            (s, rd) \<leftarrow> alloc_busy junk s tmp avadata sz;
            s \<leftarrow> alloc_finish s tmp rd;
            Some (s, tmp, rd) } }
        else do {
          (s, rd) \<leftarrow> alloc_first junk s tmp sz;
          s \<leftarrow> alloc_finish s tmp rd;
          Some (s, tmp, rd) } })"

text \<open>\<open>percent >= k\<close>, with \<open>percent\<close> the \<open>double\<close> computed from the two totals; the comparison in the
  integers gives the same result for totals below \<open>2 ^ 36\<close>, which \<open>MEMPOOL_MAX_TOTAL\<close> ensures.\<close>

definition percent_ge :: "mempool \<Rightarrow> nat \<Rightarrow> bool" where
  "percent_ge b k \<longleftrightarrow> unat (total_leftsize b) * 100 \<ge> k * unat (total_alloced b + ucast (pool_size b))"

partial_function (option) alloc_again ::
  "realdata \<Rightarrow> mpmem \<Rightarrow> ptr \<Rightarrow> u32 \<Rightarrow> ptr \<Rightarrow> int \<Rightarrow> (mpmem \<times> ptr) option" where
  "alloc_again junk s basepool sz tmp checked_times = do {
     (s, tmp, rd) \<leftarrow> alloc_search junk s basepool sz tmp 0;
     b \<leftarrow> pool_at s basepool;
     if rd = NULL \<and> checked_times < MEMPOOL_REALLOC_MAXCHKS \<and> tmp \<noteq> NULL \<and>
        (percent_ge b 20 \<or> total_leftsize b \<ge> MEMPOOL_INPOOL_SIZE) then do {
       t \<leftarrow> pool_at s tmp;
       alloc_again junk s basepool sz (p_next t) 0 }
     else if rd = NULL \<and> checked_times < MEMPOOL_REALLOC_MAXCHKS \<and> tmp \<noteq> NULL \<and> percent_ge b 10 then do {
       t \<leftarrow> pool_at s tmp;
       alloc_again junk s basepool sz (p_next t) (checked_times + 1) }
     else if rd \<noteq> NULL then do {
       d \<leftarrow> rd_at s rd;
       s \<leftarrow> upd_pool s basepool (\<lambda>b. b\<lparr>total_leftsize := total_leftsize b - ucast (rd_size d)\<rparr>);
       Some (s, rd) }
     else Some (s, NULL) }"

definition alloc_realdata :: "realdata \<Rightarrow> mpmem \<Rightarrow> ptr \<Rightarrow> ptr \<Rightarrow> u32 \<Rightarrow> (mpmem \<times> ptr) option" where
  "alloc_realdata junk s basepool pool sz = alloc_again junk s basepool sz pool 0"

text \<open>The code reads \<open>newpool->property\<close> even when \<open>newpool\<close> is \<open>NULL\<close>.\<close>

definition get_mempool :: "mp_env \<Rightarrow> mpmem \<Rightarrow> ptr \<Rightarrow> (mpmem \<times> ptr) option" where
  "get_mempool env s pool = do {
     p \<leftarrow> pool_at s pool;
     (s, newpool) \<leftarrow>
       (if freepool p \<noteq> NULL then do {
          let newpool = freepool p;
          n \<leftarrow> pool_at s newpool;
          s \<leftarrow> upd_pool s pool (\<lambda>p. p\<lparr>freepool := p_next n\<rparr>);
          s \<leftarrow> (if p_next n \<noteq> NULL then upd_pool s (p_next n) (\<lambda>t. t\<lparr>p_prev := NULL\<rparr>) else Some s);
          s \<leftarrow> upd_pool s pool (\<lambda>p. p\<lparr>pfree_count := pfree_count p - 1\<rparr>);
          Some (s, newpool) }
        else mempool_init_extra env s (pool_size p) 0 0 0 (max_searchpool p) NULL NULL);
     (s, r) \<leftarrow>
       (if newpool \<noteq> NULL then do {
          p \<leftarrow> pool_at s pool;
          (ht, r) \<leftarrow> ht_insert (cfg_ht p) newpool;
          s \<leftarrow> upd_pool s pool (\<lambda>p. p\<lparr>cfg_ht := ht\<rparr>);
          Some (s, r) }
        else Some (s, 0));
     if r \<noteq> 0 then do { s \<leftarrow> free_pool s newpool; Some (s, NULL) }
     else do {
       n \<leftarrow> pool_at s newpool;
       s \<leftarrow> upd_pool s pool (\<lambda>p. p\<lparr>total_alloced := total_alloced p + ucast (pool_size p),
              total_leftsize := total_leftsize p + ucast (leftsize n)\<rparr>);
       Some (s, newpool) } }"

text \<open>The loop \<open>ALLOC_AGAIN\<close>.\<close>

partial_function (option) palloc_loop :: "mp_env \<Rightarrow> mpmem \<Rightarrow> ptr \<Rightarrow> u32 \<Rightarrow> ptr \<Rightarrow> (mpmem \<times> ptr) option" where
  "palloc_loop env s pool realsize tmp = do {
     (s, rd) \<leftarrow> alloc_realdata (env_rd env) s pool tmp realsize;
     if rd = NULL then do {
       p \<leftarrow> pool_at s pool;
       if total_alloced p + ucast (push_bit 1 (pool_size p)) \<ge> ucast (max_memsize p) then Some (s, NULL)
       else do {
         (s, newpool) \<leftarrow> get_mempool env s pool;
         if newpool = NULL then Some (s, NULL)
         else do {
           p \<leftarrow> pool_at s pool;
           s \<leftarrow> upd_pool s newpool (\<lambda>n. n\<lparr>p_next := p_next p\<rparr>);
           s \<leftarrow> (if p_next p \<noteq> NULL then upd_pool s (p_next p) (\<lambda>t. t\<lparr>p_prev := newpool\<rparr>) else Some s);
           s \<leftarrow> upd_pool s newpool (\<lambda>n. n\<lparr>p_prev := pool\<rparr>);
           s \<leftarrow> upd_pool s pool (\<lambda>p. p\<lparr>p_next := newpool,
                  pooltail := (if pooltail p = NULL then newpool else pooltail p)\<rparr>);
           palloc_loop env s pool realsize newpool } } }
     else do {
       s \<leftarrow> upd_rd s rd (\<lambda>d. d\<lparr>rd_used := 0\<rparr>);
       Some (s, rd + sizeof_realdata) } }"

definition palloc :: "mp_env \<Rightarrow> mpmem \<Rightarrow> ptr \<Rightarrow> u32 \<Rightarrow> (mpmem \<times> ptr) option" where
  "palloc env s pool sz =
     (if pool = NULL then Some (s, NULL)
      else do {
        p \<leftarrow> pool_at s pool;
        if total_alloced p + ucast (pool_size p) \<ge> ucast (max_memsize p) \<or> sz > single_max p \<or> sz = 0
        then Some (s, NULL)
        else if judge_alloc p \<noteq> NULL \<and> env_judge env (judge_alloc p) s pool sz (judge_args p) \<noteq> 1
        then Some (s, NULL)
        else if (ucast sz :: u64) > ucast (pool_size p) - of_nat sizeof_mempool - of_nat sizeof_realdata
        then alloc_large env s pool sz
        else let realsize = sz + of_nat sizeof_realdata;
                 tmp = (if (ucast (leftsize p) :: u32) > realsize then pool else p_next p)
          in palloc_loop env s pool realsize tmp })"

text \<open>\<open>memset(data, 0, n)\<close> and \<open>memcpy(dest, src, n)\<close> on user memory.\<close>

definition mem_zero :: "mpmem \<Rightarrow> ptr \<Rightarrow> nat \<Rightarrow> mpmem" where
  "mem_zero s data n = s\<lparr>ubytes := (\<lambda>a. if data \<le> a \<and> a < data + n then 0 else ubytes s a)\<rparr>"

definition mem_copy :: "mpmem \<Rightarrow> ptr \<Rightarrow> ptr \<Rightarrow> nat \<Rightarrow> mpmem" where
  "mem_copy s dest src n =
     s\<lparr>ubytes := (\<lambda>a. if dest \<le> a \<and> a < dest + n then ubytes s (src + (a - dest)) else ubytes s a)\<rparr>"

definition pcalloc :: "mp_env \<Rightarrow> mpmem \<Rightarrow> ptr \<Rightarrow> u32 \<Rightarrow> (mpmem \<times> ptr) option" where
  "pcalloc env s pool sz = do {
     (s, data) \<leftarrow> palloc env s pool sz;
     Some (if data \<noteq> NULL then mem_zero s data (unat sz) else s, data) }"

section \<open>Finding the header of an address\<close>

text \<open>Subtracting a header size from an address below 15 leaves the address space: \<open>None\<close>.\<close>

text \<open>The pool of the header at \<open>rd\<close>, or \<open>NULL\<close>.\<close>

definition check_realdata_in_pool :: "mpmem \<Rightarrow> ptr \<Rightarrow> ptr \<Rightarrow> ptr option" where
  "check_realdata_in_pool s pool rd = do {
     d \<leftarrow> rd_at s rd;
     p \<leftarrow> pool_at s pool;
     ht_find (cfg_ht p) (rd - unat (rd_offset d) - sizeof_mempool) }"

text \<open>The bytes of a block header from the fourth on, read as a \<open>mempool_large_t\<close>: this is what the
  twelve bytes before the user data of a pool block are (little-endian, packed).\<close>

definition large_view :: "realdata \<Rightarrow> mempool_large" where
  "large_view d = (let lo = (\<lambda>x :: u16. ucast x :: u8); hi = (\<lambda>x :: u16. ucast (drop_bit 8 x) :: u8) in
     \<lparr>large_flag = le32 (hi (rd_size d)) (lo (rd_prev d)) (hi (rd_prev d)) (lo (rd_next d)),
      large_size = le32 (hi (rd_next d)) (lo (rd_realprev d)) (hi (rd_realprev d)) (lo (rd_realnext d)),
      large_used = le32 (hi (rd_realnext d)) (lo (rd_used d)) (hi (rd_used d)) (rd_status d)\<rparr>)"

definition read_large :: "mpmem \<Rightarrow> ptr \<Rightarrow> mempool_large option" where
  "read_large s a = (case larges s a of
      Some l \<Rightarrow> Some l
    | None \<Rightarrow> map_option large_view (rds s (a + sizeof_large - sizeof_realdata)))"

text \<open>Writing \<open>used\<close> through the same view.\<close>

definition view_set_used :: "u32 \<Rightarrow> realdata \<Rightarrow> realdata" where
  "view_set_used u d = d\<lparr>
     rd_realnext := (rd_realnext d AND 0xff) OR push_bit 8 (ucast u AND 0xff),
     rd_used := ucast (drop_bit 8 u), rd_status := ucast (drop_bit 24 u)\<rparr>"

definition write_large_used :: "mpmem \<Rightarrow> ptr \<Rightarrow> u32 \<Rightarrow> mpmem option" where
  "write_large_used s a u = (case larges s a of
      Some l \<Rightarrow> Some (s\<lparr>larges := (larges s)(a \<mapsto> l\<lparr>large_used := u\<rparr>)\<rparr>)
    | None \<Rightarrow> upd_rd s (a + sizeof_large - sizeof_realdata) (view_set_used u))"

text \<open>Writing \<open>used\<close> of a block header at \<open>rd\<close>; when a large block lies there, the two bytes are the middle
  ones of its \<open>used\<close> field.\<close>

definition write_rd_used :: "mpmem \<Rightarrow> ptr \<Rightarrow> u16 \<Rightarrow> mpmem option" where
  "write_rd_used s rd u = (case larges s (rd + sizeof_realdata - sizeof_large) of
      Some l \<Rightarrow> Some (s\<lparr>larges := (larges s)(rd + sizeof_realdata - sizeof_large \<mapsto>
                 l\<lparr>large_used := (large_used l AND 0xff0000ff) OR push_bit 8 (ucast u)\<rparr>)\<rparr>)
    | None \<Rightarrow> upd_rd s rd (\<lambda>t. t\<lparr>rd_used := u\<rparr>))"

definition check_large_in_pool :: "mpmem \<Rightarrow> ptr \<Rightarrow> ptr \<Rightarrow> ptr option" where
  "check_large_in_pool s pool large =
     (if pool = NULL then do {
        l \<leftarrow> read_large s large;
        Some (if large_flag l = MEMPOOL_LARGEFLAG \<and> large_size l \<ge> large_used l then large else NULL) }
      else do {
        p \<leftarrow> pool_at s pool;
        ptmp \<leftarrow> ht_find (cfg_largeht p) large;
        Some (if ptmp = large then large else NULL) })"

section \<open>Freeing\<close>

definition free_large :: "mpmem \<Rightarrow> ptr \<Rightarrow> ptr \<Rightarrow> (mpmem \<times> int) option" where
  "free_large s pool large = do {
     ltmp \<leftarrow> check_large_in_pool s pool large;
     if ltmp = NULL then Some (s, -1)
     else do {
       l \<leftarrow> read_large s large;
       s \<leftarrow> upd_pool s pool (\<lambda>p. p\<lparr>total_alloced := total_alloced p - ucast (large_size l)\<rparr>);
       p \<leftarrow> pool_at s pool;
       (lt, log) \<leftarrow> ht_delete (cfg_largeht p) large;
       s \<leftarrow> upd_pool (free_larges s log) pool (\<lambda>p. p\<lparr>cfg_largeht := lt\<rparr>);
       Some (s, 0) } }"

definition mempool_internal_destroy :: "realdata \<Rightarrow> mpmem \<Rightarrow> ptr \<Rightarrow> ptr \<Rightarrow> mpmem option" where
  "mempool_internal_destroy junk s basepool pool = do {
     b \<leftarrow> pool_at s basepool;
     p \<leftarrow> pool_at s pool;
     s \<leftarrow> (if pool = pooltail b
           then upd_pool s basepool (\<lambda>b. b\<lparr>pooltail := (if p_prev p = basepool then NULL else p_prev p)\<rparr>)
           else Some s);
     s \<leftarrow> (if p_prev p \<noteq> NULL then upd_pool s (p_prev p) (\<lambda>t. t\<lparr>p_next := p_next p\<rparr>) else Some s);
     s \<leftarrow> (if p_next p \<noteq> NULL then upd_pool s (p_next p) (\<lambda>t. t\<lparr>p_prev := p_prev p\<rparr>) else Some s);
     b \<leftarrow> pool_at s basepool;
     (ht, _) \<leftarrow> ht_delete (cfg_ht b) pool;
     s \<leftarrow> upd_pool s basepool (\<lambda>b. b\<lparr>cfg_ht := ht\<rparr>);
     s \<leftarrow> upd_pool s basepool (\<lambda>b. b\<lparr>total_leftsize := total_leftsize b - ucast (leftsize p)\<rparr>);
     b \<leftarrow> pool_at s basepool;
     s \<leftarrow> (if pfree_count b < ucast (max_freepool b) then do {
             s \<leftarrow> init_mempool junk s pool;
             s \<leftarrow> upd_pool s pool (\<lambda>p. p\<lparr>p_next := freepool b\<rparr>);
             s \<leftarrow> (if freepool b \<noteq> NULL then upd_pool s (freepool b) (\<lambda>t. t\<lparr>p_prev := pool\<rparr>) else Some s);
             s \<leftarrow> upd_pool s basepool (\<lambda>b. b\<lparr>freepool := pool\<rparr>);
             s \<leftarrow> upd_pool s pool (\<lambda>p. p\<lparr>p_prev := NULL\<rparr>);
             upd_pool s basepool (\<lambda>b. b\<lparr>pfree_count := pfree_count b + 1\<rparr>) }
           else free_pool s pool);
     upd_pool s basepool (\<lambda>b. b\<lparr>total_alloced := total_alloced b - ucast (pool_size b)\<rparr>) }"

text \<open>The loop of \<open>__mempool_move2header\<close>: the final \<open>moveflag\<close>.\<close>

partial_function (option) move2header_loop :: "mpmem \<Rightarrow> mempool \<Rightarrow> ptr \<Rightarrow> int \<Rightarrow> int option" where
  "move2header_loop s p pnext moveflag = do {
     n \<leftarrow> pool_at s pnext;
     if failed n > 4 \<and> leftsize p > leftsize n \<and> (ucast (leftsize p) :: u32) \<ge> drop_bit 1 (pool_size p) then
       if moveflag + 1 > 4 \<or> p_next n = NULL then Some (moveflag + 1)
       else move2header_loop s p (p_next n) (moveflag + 1)
     else Some moveflag }"

definition mempool_move2header :: "mpmem \<Rightarrow> ptr \<Rightarrow> ptr \<Rightarrow> mpmem option" where
  "mempool_move2header s basepool pool = do {
     b \<leftarrow> pool_at s basepool;
     if pool \<noteq> basepool \<and> pool \<noteq> p_next b then do {
       p \<leftarrow> pool_at s pool;
       moveflag \<leftarrow> move2header_loop s p (p_next b) 0;
       if moveflag > 4 then do {
         s \<leftarrow> (if pool = pooltail b then upd_pool s basepool (\<lambda>b. b\<lparr>pooltail := p_prev p\<rparr>) else Some s);
         s \<leftarrow> upd_pool s (p_prev p) (\<lambda>t. t\<lparr>p_next := p_next p\<rparr>);
         s \<leftarrow> (if p_next p \<noteq> NULL then upd_pool s (p_next p) (\<lambda>t. t\<lparr>p_prev := p_prev p\<rparr>) else Some s);
         b \<leftarrow> pool_at s basepool;
         s \<leftarrow> upd_pool s pool (\<lambda>p. p\<lparr>p_next := p_next b\<rparr>);
         s \<leftarrow> upd_pool s (p_next b) (\<lambda>t. t\<lparr>p_prev := pool\<rparr>);
         s \<leftarrow> upd_pool s basepool (\<lambda>b. b\<lparr>p_next := pool\<rparr>);
         upd_pool s pool (\<lambda>p. p\<lparr>p_prev := basepool\<rparr>) }
       else Some s }
     else Some s }"

definition pfree_realdata :: "realdata \<Rightarrow> mpmem \<Rightarrow> ptr \<Rightarrow> ptr \<Rightarrow> ptr \<Rightarrow> mpmem option" where
  "pfree_realdata junk s basepool pool rd = do {
     s \<leftarrow> unlink_busy s pool rd;
     d \<leftarrow> rd_at s rd;
     s \<leftarrow> upd_pool s basepool (\<lambda>b. b\<lparr>total_leftsize := total_leftsize b + ucast (rd_size d)\<rparr>);
     p \<leftarrow> pool_at s pool;
     if busylist p = NULL then
       if pool \<noteq> basepool then do {
         s \<leftarrow> upd_pool s basepool (\<lambda>b. b\<lparr>total_leftsize := total_leftsize b - ucast (rd_size d)\<rparr>);
         mempool_internal_destroy junk s basepool pool }
       else init_mempool junk s pool
     else if leftsize p = 0 then do {
       s \<leftarrow> set_freelist s pool (get_freeidx (ucast (rd_size d))) rd;
       s \<leftarrow> upd_rd s rd (\<lambda>t. t\<lparr>rd_status := 0\<rparr>);
       s \<leftarrow> upd_pool s pool (\<lambda>p. p\<lparr>leftsize := leftsize p + ucast (rd_size d), failed := 0\<rparr>);
       mempool_move2header s basepool pool }
     else free_realdata s pool rd }"

text \<open>The part of \<open>pfree\<close> for pool blocks.\<close>

definition pfree_small :: "mp_env \<Rightarrow> mpmem \<Rightarrow> ptr \<Rightarrow> ptr \<Rightarrow> (mpmem \<times> int) option" where
  "pfree_small env s pool data = do {
     let rd = data - sizeof_realdata;
     if rd = NULL then Some (s, -1)
     else do {
       realpool \<leftarrow> check_realdata_in_pool s pool rd;
       if realpool = NULL then Some (s, -1)
       else do {
         d \<leftarrow> rd_at s rd;
         if rd_status d = 0 then Some (s, 0)
         else do { s \<leftarrow> pfree_realdata (env_rd env) s pool realpool rd; Some (s, 0) } } } }"

definition pfree :: "mp_env \<Rightarrow> mpmem \<Rightarrow> ptr \<Rightarrow> ptr \<Rightarrow> (mpmem \<times> int) option" where
  "pfree env s pool data =
     (if pool = NULL \<or> data = NULL then Some (s, -1)
      else do {
        ensure (sizeof_realdata \<le> data);
        let large = data - sizeof_large;
        l \<leftarrow> (if large \<noteq> NULL then check_large_in_pool s pool large else Some NULL);
        if l \<noteq> NULL then do {
          (s, r) \<leftarrow> free_large s pool large;
          if r = 0 then Some (s, 0) else pfree_small env s pool data }
        else pfree_small env s pool data })"

section \<open>Bounded copies\<close>

definition pmemcpy0 :: "mpmem \<Rightarrow> ptr \<Rightarrow> u32 \<Rightarrow> u32 \<Rightarrow> ptr \<Rightarrow> u32 \<Rightarrow> (mpmem \<times> int) option" where
  "pmemcpy0 s dest dsize used src n =
     (let left = dsize - used in
      if n > left then Some (s, -1)
      else if (dest \<ge> src \<and> dest \<le> src + unat n) \<or> (src \<ge> dest \<and> src \<le> dest + unat dsize) then Some (s, -2)
      else Some (mem_copy s (dest + unat used) src (unat n), sint n))"

definition pmemcpy_extra :: "mpmem \<Rightarrow> ptr \<Rightarrow> ptr \<Rightarrow> ptr \<Rightarrow> u32 \<Rightarrow> (mpmem \<times> ptr) option" where
  "pmemcpy_extra s pool dest src n = do {
     ensure (sizeof_realdata \<le> dest);
     let large = dest - sizeof_large;
     c \<leftarrow> (if large \<noteq> NULL then check_large_in_pool s pool large else Some NULL);
     if c \<noteq> NULL then do {
       l \<leftarrow> read_large s large;
       (s, cpylen) \<leftarrow> pmemcpy0 s dest (large_size l - of_nat sizeof_large) (large_used l) src n;
       s \<leftarrow> (if cpylen > 0 then write_large_used s large (large_used l + of_int cpylen) else Some s);
       Some (s, dest) }
     else do {
       let rd = dest - sizeof_realdata;
       ok \<leftarrow> (if rd = NULL then Some False
              else if pool = NULL then Some True
              else do { q \<leftarrow> check_realdata_in_pool s pool rd; Some (q \<noteq> NULL) });
       if \<not> ok then Some (s, NULL)
       else do {
         d \<leftarrow> rd_at s rd;
         (s, cpylen) \<leftarrow> pmemcpy0 s dest (ucast (rd_size d) - of_nat sizeof_realdata) (ucast (rd_used d)) src n;
         s \<leftarrow> (if cpylen > 0 then upd_rd s rd (\<lambda>d. d\<lparr>rd_used := rd_used d + of_int cpylen\<rparr>) else Some s);
         Some (s, dest) } } }"

text \<open>\<open>vsnprintf(dest, left, ...)\<close>: \<open>out\<close> is the formatted text, \<open>None\<close> an output error.  At most \<open>left - 1\<close>
  bytes and a terminator are written; the result is the length of the whole text.\<close>

definition vsnprintf_to :: "mpmem \<Rightarrow> ptr \<Rightarrow> int \<Rightarrow> bytes option \<Rightarrow> mpmem \<times> int" where
  "vsnprintf_to s dest left out = (case out of
      None \<Rightarrow> (s, -1)
    | Some xs \<Rightarrow>
        let k = min (length xs) (nat left - 1)
        in (s\<lparr>ubytes := (\<lambda>a. if dest \<le> a \<and> a < dest + k then xs ! (a - dest)
                             else if a = dest + k then 0 else ubytes s a)\<rparr>, int (length xs)))"

definition psprintf_extra :: "mpmem \<Rightarrow> ptr \<Rightarrow> ptr \<Rightarrow> bytes option \<Rightarrow> (mpmem \<times> int) option" where
  "psprintf_extra s pool data out =
     (if data = NULL then Some (s, -1)
      else do {
        ensure (sizeof_realdata \<le> data);
        let large = data - sizeof_large;
        c \<leftarrow> (if large \<noteq> NULL then check_large_in_pool s pool large else Some NULL);
        if c \<noteq> NULL then do {
          l \<leftarrow> read_large s large;
          let leftlen = sint (large_size l - of_nat sizeof_large - large_used l);
          if leftlen > 0 then do {
            let (s, cpylen) = vsnprintf_to s (data + unat (large_used l)) leftlen out;
            s \<leftarrow> (if cpylen > 0 then write_large_used s large (large_used l + of_int (min cpylen leftlen)) else Some s);
            Some (s, cpylen) }
          else Some (s, 0) }
        else do {
          let rd = data - sizeof_realdata;
          ok \<leftarrow> (if rd = NULL then Some False
                 else if pool = NULL then Some True
                 else do { q \<leftarrow> check_realdata_in_pool s pool rd; Some (q \<noteq> NULL) });
          if \<not> ok then Some (s, -1)
          else do {
            d \<leftarrow> rd_at s rd;
            let leftlen = int (unat (rd_size d)) - int sizeof_realdata - int (unat (rd_used d));
            if leftlen > 0 then do {
              let (s, cpylen) = vsnprintf_to s (data + unat (rd_used d)) leftlen out;
              s \<leftarrow> (if cpylen > 0 then upd_rd s rd (\<lambda>d. d\<lparr>rd_used := rd_used d + of_int (min cpylen leftlen)\<rparr>) else Some s);
              Some (s, cpylen) }
            else Some (s, 0) } } })"

definition pzero_extra :: "mpmem \<Rightarrow> ptr \<Rightarrow> ptr \<Rightarrow> mpmem option" where
  "pzero_extra s pool data = do {
     ensure (sizeof_realdata \<le> data);
     let large = data - sizeof_large;
     c \<leftarrow> (if large \<noteq> NULL then check_large_in_pool s pool large else Some NULL);
     if c \<noteq> NULL then write_large_used s large 0
     else do {
       let rd = data - sizeof_realdata;
       ok \<leftarrow> (if rd = NULL then Some False
              else if pool = NULL then Some True
              else do { q \<leftarrow> check_realdata_in_pool s pool rd; Some (q \<noteq> NULL) });
       if \<not> ok then Some s else upd_rd s rd (\<lambda>d. d\<lparr>rd_used := 0\<rparr>) } }"

definition pdatasize :: "mpmem \<Rightarrow> ptr \<Rightarrow> ptr \<Rightarrow> int option" where
  "pdatasize s pool data =
     (if pool = NULL \<or> data = NULL then Some (-1)
      else do {
        ensure (sizeof_realdata \<le> data);
        let large = data - sizeof_large;
        c \<leftarrow> (if large \<noteq> NULL then check_large_in_pool s pool large else Some NULL);
        if c \<noteq> NULL then do {
          l \<leftarrow> read_large s large;
          Some (sint (large_size l - of_nat sizeof_large)) }
        else do {
          let rd = data - sizeof_realdata;
          q \<leftarrow> (if rd = NULL then Some NULL else check_realdata_in_pool s pool rd);
          if q = NULL then Some (-1)
          else do { d \<leftarrow> rd_at s rd; Some (int (unat (rd_size d)) - int sizeof_realdata) } } })"

section \<open>Reallocation\<close>

text \<open>A failing \<open>pmemcpy_extra\<close> or \<open>pfree\<close> is ignored, as in the code.\<close>

definition prealloc :: "mp_env \<Rightarrow> mpmem \<Rightarrow> ptr \<Rightarrow> ptr \<Rightarrow> u32 \<Rightarrow> (mpmem \<times> ptr) option" where
  "prealloc env s pool addr newsize =
     (if pool = NULL then Some (s, NULL)
      else if addr = NULL then palloc env s pool newsize
      else do {
        ensure (sizeof_realdata \<le> addr);
        let large = addr - sizeof_large;
        c \<leftarrow> (if large \<noteq> NULL then check_large_in_pool s pool large else Some NULL);
        if c \<noteq> NULL then do {
          l \<leftarrow> read_large s large;
          if large_size l \<noteq> newsize then do {
            (s, newaddr) \<leftarrow> palloc env s pool newsize;
            if newaddr \<noteq> NULL then do {
              l \<leftarrow> read_large s large;
              let sz = large_size l - of_nat sizeof_large;
              (s, _) \<leftarrow> pmemcpy_extra s pool newaddr addr (if sz > newsize then newsize else sz);
              s \<leftarrow> write_large_used s (newaddr - sizeof_large) (large_used l);
              (s, _) \<leftarrow> pfree env s pool addr;
              Some (s, newaddr) }
            else Some (s, NULL) }
          else Some (s, NULL) }
        else do {
          let rd = addr - sizeof_realdata;
          q \<leftarrow> (if rd = NULL then Some NULL else check_realdata_in_pool s pool rd);
          if q = NULL then Some (s, NULL)
          else do {
            d \<leftarrow> rd_at s rd;
            if (ucast (rd_size d) :: u32) < newsize then do {
              (s, newaddr) \<leftarrow> palloc env s pool newsize;
              if newaddr \<noteq> NULL then do {
                d \<leftarrow> rd_at s rd;
                let sz = ucast (rd_size d) - of_nat sizeof_realdata;
                (s, _) \<leftarrow> pmemcpy_extra s pool newaddr addr (if sz > newsize then newsize else sz);
                s \<leftarrow> write_rd_used s (newaddr - sizeof_realdata) (rd_used d);
                (s, _) \<leftarrow> pfree env s pool addr;
                Some (s, newaddr) }
              else Some (s, NULL) }
            else Some (s, NULL) } } })"

end
