(* ===== verification/MempoolLists.thy ===== *)
theory MempoolLists
  imports MempoolOps
begin

text \<open>
  The block headers of a pool seen through their links: the five free lists and the busy list are doubly
  linked chains whose links are 16-bit offsets.  The lemmas say what leaving and entering a list does.
\<close>

section \<open>Views of the block headers\<close>

type_synonym headers = "ptr \<Rightarrow> realdata option"

definition fnx :: "ptr \<Rightarrow> headers \<Rightarrow> ptr \<Rightarrow> ptr option" where
  "fnx pool h r = map_option (\<lambda>d. mempool_get_realdata pool (rd_next d)) (h r)"

definition fpv :: "ptr \<Rightarrow> headers \<Rightarrow> ptr \<Rightarrow> ptr option" where
  "fpv pool h r = map_option (\<lambda>d. mempool_get_realdata pool (rd_prev d)) (h r)"

definition rnx :: "ptr \<Rightarrow> headers \<Rightarrow> ptr \<Rightarrow> ptr option" where
  "rnx pool h r = map_option (\<lambda>d. mempool_get_realdata pool (rd_realnext d)) (h r)"

definition rpv :: "ptr \<Rightarrow> headers \<Rightarrow> ptr \<Rightarrow> ptr option" where
  "rpv pool h r = map_option (\<lambda>d. mempool_get_realdata pool (rd_realprev d)) (h r)"

definition bsz :: "headers \<Rightarrow> ptr \<Rightarrow> nat" where
  "bsz h r = (case h r of Some d \<Rightarrow> unat (rd_size d) | None \<Rightarrow> 0)"

text \<open>The header at \<open>r\<close> says where it is.\<close>

definition placed :: "ptr \<Rightarrow> headers \<Rightarrow> ptr \<Rightarrow> bool" where
  "placed pool h r \<longleftrightarrow> (\<exists>d. h r = Some d \<and> mempool_get_realdata pool (rd_offset d) = r \<and> r \<noteq> NULL)"

text \<open>The five free lists and the busy list.\<close>

definition mp_lists :: "ptr \<Rightarrow> headers \<Rightarrow> ptr list \<Rightarrow> ptr list list \<Rightarrow> bool" where
  "mp_lists pool h heads Ls \<longleftrightarrow> length heads = 6 \<and> length Ls = 6 \<and>
     (\<forall>i<6. dchain (fnx pool h) (fpv pool h) NULL (heads ! i) (Ls ! i)) \<and>
     (\<forall>i<6. \<forall>j<6. i \<noteq> j \<longrightarrow> set (Ls ! i) \<inter> set (Ls ! j) = {})"

definition heads :: "mempool \<Rightarrow> ptr list" where
  "heads p = freelist p @ [busylist p]"

text \<open>Only the list links of the nodes \<open>X\<close> may differ.\<close>

definition layout :: "realdata \<Rightarrow> realdata" where
  "layout d = d\<lparr>rd_prev := 0, rd_next := 0\<rparr>"

definition linked :: "ptr set \<Rightarrow> headers \<Rightarrow> headers \<Rightarrow> bool" where
  "linked X h h' \<longleftrightarrow> (\<forall>r. map_option layout (h' r) = map_option layout (h r)) \<and> (\<forall>r. r \<notin> X \<longrightarrow> h' r = h r)"

lemma linked_refl [simp]: "linked X h h"
  by (simp add: linked_def)

lemma linked_trans: "linked X h h' \<Longrightarrow> linked Y h' h'' \<Longrightarrow> linked (X \<union> Y) h h''"
  by (auto simp: linked_def)

lemma linked_mono: "linked X h h' \<Longrightarrow> X \<subseteq> Y \<Longrightarrow> linked Y h h'"
  by (auto simp: linked_def)

lemma linked_upd: "h r = Some d \<Longrightarrow> layout d' = layout d \<Longrightarrow> r \<in> X \<Longrightarrow> linked X h (h(r \<mapsto> d'))"
  by (auto simp: linked_def)

lemma lists_upd:
  assumes l: "mp_lists pool h hs Ls" and i: "i < 6" and c: "dchain (fnx pool h') (fpv pool h') NULL x ys"
    and o: "\<And>j r. j < 6 \<Longrightarrow> j \<noteq> i \<Longrightarrow> r \<in> set (Ls ! j) \<Longrightarrow> fnx pool h' r = fnx pool h r \<and> fpv pool h' r = fpv pool h r"
    and d: "\<And>j. j < 6 \<Longrightarrow> j \<noteq> i \<Longrightarrow> set ys \<inter> set (Ls ! j) = {}"
  shows "mp_lists pool h' (hs[i := x]) (Ls[i := ys])"
proof -
  have "dchain (fnx pool h') (fpv pool h') NULL (hs[i := x] ! j) (Ls[i := ys] ! j)" if "j < 6" for j
  proof (cases "j = i")
    case True
    then show ?thesis using l i c by (simp add: mp_lists_def)
  next
    case False
    have "dchain (fnx pool h) (fpv pool h) NULL (hs ! j) (Ls ! j)" using l that by (simp add: mp_lists_def)
    then have "dchain (fnx pool h') (fpv pool h') NULL (hs ! j) (Ls ! j)"
      using o [OF that False] dchain_cong [of "Ls ! j" "fnx pool h" "fnx pool h'" "fpv pool h" "fpv pool h'"] by simp
    then show ?thesis using False by simp
  qed
  moreover have "set (Ls[i := ys] ! j) \<inter> set (Ls[i := ys] ! k) = {}" if "j < 6" "k < 6" "j \<noteq> k" for j k
    using l that d [of j] d [of k] by (cases "j = i"; cases "k = i") (auto simp: mp_lists_def Int_commute)
  ultimately show ?thesis using l unfolding mp_lists_def by simp
qed

lemma lists_chain: "mp_lists pool h hs Ls \<Longrightarrow> i < 6 \<Longrightarrow> dchain (fnx pool h) (fpv pool h) NULL (hs ! i) (Ls ! i)"
  by (simp add: mp_lists_def)

lemma lists_disjoint: "mp_lists pool h hs Ls \<Longrightarrow> i < 6 \<Longrightarrow> j < 6 \<Longrightarrow> i \<noteq> j \<Longrightarrow> r \<in> set (Ls ! i) \<Longrightarrow> r \<notin> set (Ls ! j)"
  unfolding mp_lists_def by blast

lemma fnx_Some: "fnx pool h r = Some q \<longleftrightarrow> (\<exists>d. h r = Some d \<and> mempool_get_realdata pool (rd_next d) = q)"
  by (auto simp: fnx_def)

lemma fpv_Some: "fpv pool h r = Some q \<longleftrightarrow> (\<exists>d. h r = Some d \<and> mempool_get_realdata pool (rd_prev d) = q)"
  by (auto simp: fpv_def)

lemma get_realdata_NULL [simp]: "mempool_get_realdata pool MEMPOOL_NULL = NULL"
  by (simp add: mempool_get_realdata_def)

lemma get_realdata_direct:
  "mempool_get_realdata pool off \<noteq> NULL \<Longrightarrow> mempool_get_realdata_direct pool off = mempool_get_realdata pool off"
  by (auto simp: mempool_get_realdata_def split: if_splits)

section \<open>Leaving and entering a free list\<close>

text \<open>The effect of unlinking \<open>u\<close> between \<open>a\<close> and \<open>c\<close> on the headers.\<close>

definition unlink_rd :: "headers \<Rightarrow> realdata \<Rightarrow> ptr \<Rightarrow> ptr \<Rightarrow> headers" where
  "unlink_rd h d a c =
     (let h1 = (if a = NULL then h else h(a := map_option (\<lambda>t. t\<lparr>rd_next := rd_next d\<rparr>) (h a)))
      in if c = NULL then h1 else h1(c := map_option (\<lambda>t. t\<lparr>rd_prev := rd_prev d\<rparr>) (h1 c)))"

lemma unlink_rd_lists:
  assumes l: "mp_lists pool h hs Ls" and i: "i < 6" "Ls ! i = xs @ u # ys" and d: "h u = Some d"
  defines "a \<equiv> mempool_get_realdata pool (rd_prev d)" and "c \<equiv> mempool_get_realdata pool (rd_next d)"
  shows "mp_lists pool (unlink_rd h d a c) (hs[i := (if xs = [] then c else hs ! i)]) (Ls[i := xs @ ys])"
    and "linked (set (xs @ ys)) h (unlink_rd h d a c)" and "a = last (NULL # xs)" and "c = NULL \<or> c \<in> set ys"
proof -
  have ch: "dchain (fnx pool h) (fpv pool h) NULL (hs ! i) (xs @ u # ys)" using lists_chain [OF l i(1)] i(2) by simp
  note D = dchain_distinct [OF ch] and N = dchain_nodes [OF ch]
  have u: "fpv pool h u = Some (last (NULL # xs))" "dchain (fnx pool h) (fpv pool h) u c ys"
    using ch d by (auto simp: dchain_append fnx_Some c_def)
  show a: "a = last (NULL # xs)" using u(1) d by (auto simp: fpv_Some a_def)
  show c: "c = NULL \<or> c \<in> set ys" using u(2) by (cases ys) auto
  have an: "a = NULL \<longleftrightarrow> xs = []" using a N [of "last xs"] by (cases xs rule: rev_cases) auto
  have ax: "xs \<noteq> [] \<Longrightarrow> a = last xs \<and> a \<in> set xs \<and> a \<notin> set ys" using a last_outside [OF D] by simp
  have at: "\<exists>t. h r = Some t" if "r \<in> set (xs @ u # ys)" for r using N [OF that] by (auto simp: fnx_def)
  have cx: "c \<noteq> NULL \<Longrightarrow> c \<in> set ys \<and> c \<notin> set xs" using c D by auto
  let ?h = "unlink_rd h d a c"
  have n: "fnx pool ?h r = (if xs \<noteq> [] \<and> r = last xs then Some c else fnx pool h r)" for r
    using ax an at [of a] by (auto simp: unlink_rd_def fnx_def Let_def c_def option.map_comp o_def)
  have p: "fpv pool ?h r = (if c \<noteq> NULL \<and> r = c then Some a else fpv pool h r)" for r
    using cx at [of c] by (auto simp: unlink_rd_def fpv_def Let_def a_def option.map_comp o_def)
  have "dchain (fnx pool ?h) (fpv pool ?h) NULL (if xs = [] then c else hs ! i) (xs @ ys)"
    by (rule dchain_unlink [OF ch, where c = c]) (use n p d a in \<open>auto simp: c_def fnx_def\<close>)
  then show "mp_lists pool ?h (hs[i := (if xs = [] then c else hs ! i)]) (Ls[i := xs @ ys])"
  proof (rule lists_upd [OF l i(1)])
    fix j r assume j: "j < 6" "j \<noteq> i" "r \<in> set (Ls ! j)"
    then have "r \<notin> set (xs @ u # ys)" using lists_disjoint [OF l j(1) i(1) j(2,3)] i(2) by simp
    then show "fnx pool ?h r = fnx pool h r \<and> fpv pool ?h r = fpv pool h r"
      using n p cx ax by auto
  next
    fix j assume j: "j < 6" "j \<noteq> i"
    show "set (xs @ ys) \<inter> set (Ls ! j) = {}" using lists_disjoint [OF l j(1) i(1) j(2)] i(2) by auto
  qed
  have "layout (t\<lparr>rd_next := x\<rparr>) = layout t" "layout (t\<lparr>rd_prev := x\<rparr>) = layout t" for t x by (simp_all add: layout_def)
  then show "linked (set (xs @ ys)) h ?h"
    unfolding linked_def using ax cx an by (auto simp: unlink_rd_def Let_def option.map_comp o_def)
qed

lemma get_freeidx_lt: "0 \<le> get_freeidx n" "nat (get_freeidx n) < 5"
  by (auto simp: get_freeidx_def)

lemma heads_free: "length (freelist p) = 5 \<Longrightarrow> i < 5 \<Longrightarrow> heads p ! i = freelist p ! i"
  "length (freelist p) = 5 \<Longrightarrow> i < 5 \<Longrightarrow> heads (p\<lparr>freelist := (freelist p)[i := x]\<rparr>) = (heads p)[i := x]"
  "length (freelist p) = 5 \<Longrightarrow> heads p ! 5 = busylist p"
  "length (freelist p) = 5 \<Longrightarrow> heads (p\<lparr>busylist := x\<rparr>) = (heads p)[5 := x]"
  by (simp_all add: heads_def nth_append list_update_append)

lemma lists_length: "mp_lists pool h (heads p) Ls \<Longrightarrow> length (freelist p) = 5"
  by (simp add: mp_lists_def heads_def)

lemma remove_freenode_run:
  assumes p: "pool_at s pool = Some p" and l: "mp_lists pool (rds s) (heads p) Ls" and i: "i < 5" "Ls ! i = xs @ u # ys"
    and d: "rds s u = Some d" and f: "freeidx = int i \<or> freeidx = -1 \<and> get_freeidx (ucast (rd_size d)) = int i"
  shows "\<exists>s' p'. remove_freenode s pool u freeidx = Some s' \<and> s' = s\<lparr>pools := (pools s)(pool \<mapsto> p'), rds := rds s'\<rparr> \<and>
    (\<exists>fl. p' = p\<lparr>freelist := fl\<rparr>) \<and> mp_lists pool (rds s') (heads p') (Ls[i := xs @ ys]) \<and>
    linked (set (xs @ ys)) (rds s) (rds s')"
proof -
  note len = lists_length [OF l]
  have i6: "i < 6" using i(1) by simp
  note U = unlink_rd_lists [OF l i6 i(2) d]
  define a where "a = mempool_get_realdata pool (rd_prev d)"
  define c where "c = mempool_get_realdata pool (rd_next d)"
  note V = U [folded a_def c_def]
  have ch: "dchain (fnx pool (rds s)) (fpv pool (rds s)) NULL (freelist p ! i) (xs @ u # ys)"
    using lists_chain [OF l i6] i heads_free(1) [OF len] by simp
  note N = dchain_nodes [OF ch]
  have at: "\<exists>t. rds s r = Some t" if "r \<in> set (xs @ u # ys)" for r using N [OF that] by (auto simp: fnx_def)
  have un: "u \<noteq> NULL" using N [of u] by simp
  have hd: "u \<noteq> freelist p ! i \<longleftrightarrow> xs \<noteq> []" using ch dchain_distinct [OF ch] by (cases xs) auto
  have fi: "(if freeidx = -1 then get_freeidx (ucast (rd_size d)) else freeidx) = int i" using f by auto
  show ?thesis
  proof (cases "xs = []")
    case True
    then have a: "a = NULL" using V(3) by simp
    then have dp: "rd_prev d = MEMPOOL_NULL" unfolding a_def by (auto simp: mempool_get_realdata_def mempool_get_realdata_direct_def sizeof_mempool_def split: if_splits)
    let ?p = "p\<lparr>freelist := (freelist p)[i := c]\<rparr>"
    let ?s = "s\<lparr>pools := (pools s)(pool \<mapsto> ?p), rds := unlink_rd (rds s) d a c\<rparr>"
    have "remove_freenode s pool u freeidx = Some ?s"
      using p d un fi hd True len i(1) V(4) at [of c] a dp
      by (auto simp: remove_freenode_def rd_at_def get_at_def set_freelist_def put_at_def upd_pool_def pool_at_def upd_rd_def
          unlink_rd_def Let_def c_def [symmetric] split: if_splits)
    then show ?thesis
      using V(1,2) True heads_free(2) [OF len i(1), of c] by (intro exI [of _ ?s] exI [of _ ?p]) auto
  next
    case False
    have a: "a = last xs" "a \<noteq> NULL" "a \<in> set xs" using V(3) False N [of "last xs"] by auto
    let ?s = "s\<lparr>pools := (pools s)(pool \<mapsto> p), rds := unlink_rd (rds s) d a c\<rparr>"
    have "pools s pool = Some p" using p by (auto simp: pool_at_def split: if_splits)
    then have "s\<lparr>pools := (pools s)(pool \<mapsto> p)\<rparr> = s" by (simp add: fun_upd_idem)
    then have "remove_freenode s pool u freeidx = Some ?s"
      using p d un fi hd False len i(1) V(4) at [of c] at [of a] a get_realdata_direct [of pool "rd_prev d", folded a_def]
      by (auto simp: remove_freenode_def rd_at_def get_at_def upd_rd_def
          unlink_rd_def Let_def c_def [symmetric] split: if_splits)
    then show ?thesis
      using V(1,2) False list_update_id [of "heads p" i]
      by (intro exI [of _ ?s] exI [of _ p]) (auto intro: exI [of _ "freelist p"])
  qed
qed

lemma placedD: "placed pool h r \<Longrightarrow> h r = Some d \<Longrightarrow> mempool_get_realdata pool (rd_offset d) = r \<and> r \<noteq> NULL"
  by (auto simp: placed_def)

text \<open>The effect of linking \<open>u\<close> in front of \<open>x\<close>.\<close>

definition push_rd :: "headers \<Rightarrow> ptr \<Rightarrow> realdata \<Rightarrow> ptr \<Rightarrow> headers" where
  "push_rd h u d x =
     (let h1 = h(u \<mapsto> d\<lparr>rd_next := (if x = NULL then MEMPOOL_NULL else rd_offset (the (h x))), rd_prev := MEMPOOL_NULL\<rparr>)
      in if x = NULL then h1 else h1(x := map_option (\<lambda>t. t\<lparr>rd_prev := rd_offset d\<rparr>) (h x)))"

lemma push_rd_lists:
  assumes l: "mp_lists pool h hs Ls" and i: "i < 6" and d: "h u = Some d" "placed pool h u"
    and new: "\<And>j. j < 6 \<Longrightarrow> u \<notin> set (Ls ! j)" and pl: "\<And>r. r \<in> set (Ls ! i) \<Longrightarrow> placed pool h r"
  shows "mp_lists pool (push_rd h u d (hs ! i)) (hs[i := u]) (Ls[i := u # Ls ! i])"
    and "linked (insert u (set (Ls ! i))) h (push_rd h u d (hs ! i))"
proof -
  let ?x = "hs ! i"
  note ch = lists_chain [OF l i]
  have x: "?x = NULL \<or> ?x \<in> set (Ls ! i)" using ch by (cases "Ls ! i") auto
  have xu: "?x \<noteq> NULL \<Longrightarrow> ?x \<noteq> u" using x new [OF i] by auto
  have at: "?x \<noteq> NULL \<Longrightarrow> \<exists>t. h ?x = Some t \<and> mempool_get_realdata pool (rd_offset t) = ?x" using x pl [of ?x] by (auto simp: placed_def)
  note u = placedD [OF d(2,1)]
  let ?h = "push_rd h u d ?x"
  have n: "fnx pool ?h r = (if r = u then Some ?x else fnx pool h r)" for r
    using xu at by (auto simp: push_rd_def fnx_def Let_def option.map_comp o_def)
  have p: "fpv pool ?h r = (if r = u then Some NULL else if ?x \<noteq> NULL \<and> r = ?x then Some u else fpv pool h r)" for r
    using xu at u by (auto simp: push_rd_def fpv_def Let_def option.map_comp o_def)
  have "dchain (fnx pool ?h) (fpv pool ?h) NULL u (u # Ls ! i)"
    by (rule dchain_insert_head [OF ch new [OF i]]) (use n p u xu new [OF i] in auto)
  then show "mp_lists pool ?h (hs[i := u]) (Ls[i := u # Ls ! i])"
  proof (rule lists_upd [OF l i])
    fix j r assume j: "j < 6" "j \<noteq> i" "r \<in> set (Ls ! j)"
    then have "r \<notin> set (Ls ! i)" "r \<noteq> u" using lists_disjoint [OF l j(1) i j(2,3)] new [OF j(1)] by auto
    then show "fnx pool ?h r = fnx pool h r \<and> fpv pool ?h r = fpv pool h r" using n p x by auto
  next
    fix j assume j: "j < 6" "j \<noteq> i"
    show "set (u # Ls ! i) \<inter> set (Ls ! j) = {}" using lists_disjoint [OF l j(1) i j(2)] new [OF j(1)] by auto
  qed
  have "layout (t\<lparr>rd_next := a, rd_prev := b\<rparr>) = layout t" "layout (t\<lparr>rd_prev := b\<rparr>) = layout t" for t a b
    by (simp_all add: layout_def)
  then show "linked (insert u (set (Ls ! i))) h ?h"
    unfolding linked_def using x xu d by (auto simp: push_rd_def Let_def option.map_comp o_def)
qed

lemma add_freenode_run:
  assumes p: "pool_at s pool = Some p" and l: "mp_lists pool (rds s) (heads p) Ls" and i: "i < 5"
    and d: "rds s u = Some d" "placed pool (rds s) u" and f: "freeidx = int i \<or> freeidx = -1 \<and> get_freeidx (ucast (rd_size d)) = int i"
    and new: "\<And>j. j < 6 \<Longrightarrow> u \<notin> set (Ls ! j)" and pl: "\<And>r. r \<in> set (Ls ! i) \<Longrightarrow> placed pool (rds s) r"
  shows "\<exists>s' p'. add_freenode s pool u freeidx = Some s' \<and> s' = s\<lparr>pools := (pools s)(pool \<mapsto> p'), rds := rds s'\<rparr> \<and>
    (\<exists>fl. p' = p\<lparr>freelist := fl\<rparr>) \<and> mp_lists pool (rds s') (heads p') (Ls[i := u # Ls ! i]) \<and>
    linked (insert u (set (Ls ! i))) (rds s) (rds s')"
proof -
  note len = lists_length [OF l]
  have i6: "i < 6" using i by simp
  note P = push_rd_lists [OF l i6 d new pl]
  let ?x = "freelist p ! i"
  have x: "heads p ! i = ?x" using heads_free(1) [OF len i] .
  have un: "u \<noteq> NULL" using d(2) by (auto simp: placed_def)
  have "?x = NULL \<or> ?x \<in> set (Ls ! i)" using lists_chain [OF l i6] x by (cases "Ls ! i") auto
  then have at: "?x \<noteq> NULL \<Longrightarrow> \<exists>t. rds s ?x = Some t" and xu: "?x \<noteq> NULL \<Longrightarrow> ?x \<noteq> u"
    using pl [of ?x] new [OF i6] by (auto simp: placed_def)
  have fi: "(if freeidx = -1 then get_freeidx (ucast (rd_size d)) else freeidx) = int i" using f by auto
  let ?p = "p\<lparr>freelist := (freelist p)[i := u]\<rparr>"
  let ?s = "s\<lparr>pools := (pools s)(pool \<mapsto> ?p), rds := push_rd (rds s) u d ?x\<rparr>"
  have "add_freenode s pool u freeidx = Some ?s"
  proof (cases "?x = NULL")
    case True
    then show ?thesis using p d un fi len i
      by (auto simp: add_freenode_def rd_at_def set_freelist_def upd_pool_def pool_at_def upd_rd_def push_rd_def Let_def split: if_splits)
  next
    case False
    then obtain t where "rds s ?x = Some t" using at by blast
    with False show ?thesis using p d un fi len i xu
      by (auto simp: add_freenode_def rd_at_def set_freelist_def upd_pool_def pool_at_def upd_rd_def push_rd_def Let_def
          fun_upd_twist split: if_splits)
  qed
  then show ?thesis
    using P x heads_free(2) [OF len i, of u] by (intro exI [of _ ?s] exI [of _ ?p]) auto
qed
end
