(* ===== verification/MempoolTiles.thy ===== *)
theory MempoolTiles
  imports MempoolLists
begin

text \<open>
  The blocks of a pool tile its memory: each header says where its neighbours are, and the next block
  starts where the block ends.  Distinct blocks do not overlap, and cutting a block keeps the tiling.
\<close>

section \<open>The blocks of a pool\<close>

definition first_block :: "ptr \<Rightarrow> ptr" where
  "first_block pool = pool + sizeof_mempool"

definition tiles :: "ptr \<Rightarrow> headers \<Rightarrow> ptr \<Rightarrow> ptr list \<Rightarrow> bool" where
  "tiles pool h e as \<longleftrightarrow> dchain (rnx pool h) (rpv pool h) NULL (first_block pool) as \<and>
     (\<forall>a\<in>set as. placed pool h a \<and> sizeof_realdata \<le> bsz h a \<and> a + bsz h a \<le> e \<and>
        rnx pool h a = Some (if a + bsz h a = e then NULL else a + bsz h a))"

lemma layoutD:
  assumes "layout d' = layout d"
  shows "rd_offset d' = rd_offset d" "rd_size d' = rd_size d" "rd_realnext d' = rd_realnext d" "rd_realprev d' = rd_realprev d"
    "rd_status d' = rd_status d" "rd_used d' = rd_used d"
  using arg_cong [OF assms, of rd_offset] arg_cong [OF assms, of rd_size] arg_cong [OF assms, of rd_realnext]
    arg_cong [OF assms, of rd_realprev] arg_cong [OF assms, of rd_status] arg_cong [OF assms, of rd_used]
  by (simp_all add: layout_def)

definition st :: "headers \<Rightarrow> ptr \<Rightarrow> u8" where
  "st h r = (case h r of Some d \<Rightarrow> rd_status d | None \<Rightarrow> 0)"

lemma linked_cases:
  assumes "linked X h h'"
  obtains "h r = None" "h' r = None"
  | d d' where "h r = Some d" "h' r = Some d'" "rd_offset d' = rd_offset d" "rd_size d' = rd_size d"
      "rd_realnext d' = rd_realnext d" "rd_realprev d' = rd_realprev d" "rd_status d' = rd_status d"
proof (cases "h r")
  case None
  then show ?thesis using assms that(1) unfolding linked_def by (metis map_option_is_None)
next
  case (Some d)
  then obtain d' where d': "h' r = Some d'" "layout d' = layout d"
    using assms unfolding linked_def by (metis (no_types, lifting) map_option_eq_Some)
  then show ?thesis using that(2) [OF Some d'(1)] layoutD [OF d'(2)] by blast
qed

lemma linked_views:
  assumes "linked X h h'"
  shows "rnx pool h' = rnx pool h" "rpv pool h' = rpv pool h" "bsz h' = bsz h" "placed pool h' = placed pool h" "st h' = st h"
proof -
  note * = linked_cases [OF assms]
  show "rnx pool h' = rnx pool h"
  proof
    fix r show "rnx pool h' r = rnx pool h r" by (cases rule: * [of r]) (auto simp: rnx_def)
  qed
  show "rpv pool h' = rpv pool h"
  proof
    fix r show "rpv pool h' r = rpv pool h r" by (cases rule: * [of r]) (auto simp: rpv_def)
  qed
  show "bsz h' = bsz h"
  proof
    fix r show "bsz h' r = bsz h r" by (cases rule: * [of r]) (auto simp: bsz_def)
  qed
  show "placed pool h' = placed pool h"
  proof
    fix r show "placed pool h' r = placed pool h r" by (cases rule: * [of r]) (auto simp: placed_def)
  qed
  show "st h' = st h"
  proof
    fix r show "st h' r = st h r" by (cases rule: * [of r]) (auto simp: st_def)
  qed
qed

lemma tiles_linked: "linked X h h' \<Longrightarrow> tiles pool h' e as = tiles pool h e as"
  by (simp add: tiles_def linked_views)

lemma chain_bounds:
  assumes "dchain n b v p as" and "\<And>a. a \<in> set as \<Longrightarrow> 0 < w a \<and> n a = Some (if a + w a = e then NULL else a + w a)"
  shows "a \<in> set as \<Longrightarrow> p \<le> a" and "a \<in> set as \<Longrightarrow> c \<in> set as \<Longrightarrow> a < c \<Longrightarrow> a + w a \<le> c"
proof -
  have "(\<forall>a\<in>set as. p \<le> a) \<and> (\<forall>a\<in>set as. \<forall>c\<in>set as. a < c \<longrightarrow> a + w a \<le> c)"
    using assms
  proof (induction as arbitrary: p v)
    case (Cons x as)
    let ?q = "if x + w x = e then NULL else x + w x"
    have c: "p = x" "dchain n b x ?q as" using Cons.prems(1) Cons.prems(2) [of x] by auto
    with Cons.IH [OF c(2)] Cons.prems(2) have IH: "\<forall>a\<in>set as. ?q \<le> a" "\<forall>a\<in>set as. \<forall>c\<in>set as. a < c \<longrightarrow> a + w a \<le> c"
      by auto
    have "x + w x \<le> a" if "a \<in> set as" for a
      using IH(1) that c(2) by (cases "x + w x = e") auto
    then show ?case using c(1) IH(2) by fastforce
  qed simp
  then show "a \<in> set as \<Longrightarrow> p \<le> a" "a \<in> set as \<Longrightarrow> c \<in> set as \<Longrightarrow> a < c \<Longrightarrow> a + w a \<le> c" by blast+
qed

lemma tilesD:
  assumes "tiles pool h e as" and "a \<in> set as"
  shows "placed pool h a" "sizeof_realdata \<le> bsz h a" "a + bsz h a \<le> e" "first_block pool \<le> a"
    "rnx pool h a = Some (if a + bsz h a = e then NULL else a + bsz h a)"
    "c \<in> set as \<Longrightarrow> a < c \<Longrightarrow> a + bsz h a \<le> c"
proof -
  have w: "0 < bsz h a \<and> rnx pool h a = Some (if a + bsz h a = e then NULL else a + bsz h a)" if "a \<in> set as" for a
    using assms(1) that by (fastforce simp: tiles_def sizeof_realdata_def)
  have d: "dchain (rnx pool h) (rpv pool h) NULL (first_block pool) as" using assms(1) by (simp add: tiles_def)
  show "first_block pool \<le> a" "c \<in> set as \<Longrightarrow> a < c \<Longrightarrow> a + bsz h a \<le> c"
    using chain_bounds [OF d w] assms(2) by blast+
qed (use assms in \<open>auto simp: tiles_def\<close>)

text \<open>Distinct blocks do not overlap.\<close>

lemma tiles_apart:
  assumes "tiles pool h e as" and "a \<in> set as" and "c \<in> set as" and "a \<noteq> c"
  shows "{a..<a + bsz h a} \<inter> {c..<c + bsz h c} = {}"
  using tilesD(6) [OF assms(1,2,3)] tilesD(6) [OF assms(1,3,2)] assms(4) by (cases "a < c") auto

section \<open>Cutting a block\<close>

text \<open>The headers after \<open>rd\<close>, between \<open>a\<close> and \<open>c\<close> in its free list, has been cut at \<open>r\<close>, with \<open>n\<close> the header of the rest.\<close>

definition cut_rd :: "headers \<Rightarrow> ptr \<Rightarrow> u16 \<Rightarrow> ptr \<Rightarrow> realdata \<Rightarrow> ptr \<Rightarrow> ptr \<Rightarrow> ptr \<Rightarrow> headers" where
  "cut_rd h rd sz r n rn a c = (\<lambda>x. if x = r then Some n else map_option (\<lambda>t. t\<lparr>
     rd_size := (if x = rd then sz else rd_size t),
     rd_prev := (if x = c \<and> c \<noteq> NULL then rd_offset n else rd_prev t),
     rd_next := (if x = a \<and> a \<noteq> NULL then rd_offset n else rd_next t),
     rd_realprev := (if x = rn \<and> rn \<noteq> NULL then rd_offset n else rd_realprev t),
     rd_realnext := (if x = rd then rd_offset n else rd_realnext t)\<rparr>) (h x))"

lemma cut_rd_views:
  fixes sz :: u16
  assumes d: "h rd = Some d" and n: "rd_prev n = rd_prev d" "rd_next n = rd_next d" "rd_realprev n = rd_offset d"
      "rd_realnext n = rd_realnext d" "rd_status n = 0" "mempool_get_realdata pool (rd_offset n) = r"
    and rd: "mempool_get_realdata pool (rd_offset d) = rd" "r \<noteq> NULL" "r \<noteq> rd" "rn \<noteq> r" "a \<noteq> r" "c \<noteq> r"
    and at: "rn \<noteq> NULL \<Longrightarrow> h rn \<noteq> None" "a \<noteq> NULL \<Longrightarrow> h a \<noteq> None" "c \<noteq> NULL \<Longrightarrow> h c \<noteq> None"
  defines "h' \<equiv> cut_rd h rd sz r n rn a c"
  shows "rnx pool h' x = (if x = r then rnx pool h rd else if x = rd then Some r else rnx pool h x)"
    and "rpv pool h' x = (if x = r then Some rd else if x = rn \<and> rn \<noteq> NULL then Some r else rpv pool h x)"
    and "fnx pool h' x = (if x = r then fnx pool h rd else if x = a \<and> a \<noteq> NULL then Some r else fnx pool h x)"
    and "fpv pool h' x = (if x = r then fpv pool h rd else if x = c \<and> c \<noteq> NULL then Some r else fpv pool h x)"
    and "bsz h' x = (if x = r then unat (rd_size n) else if x = rd then unat sz else bsz h x)"
    and "placed pool h' x \<longleftrightarrow> x = r \<or> placed pool h x"
    and "st h' x = (if x = r then 0 else st h x)"
proof -
  have r: "h' r = Some n" by (simp add: h'_def cut_rd_def)
  define u where "u x t = t\<lparr>
     rd_size := (if x = rd then sz else rd_size t),
     rd_prev := (if x = c \<and> c \<noteq> NULL then rd_offset n else rd_prev t),
     rd_next := (if x = a \<and> a \<noteq> NULL then rd_offset n else rd_next t),
     rd_realprev := (if x = rn \<and> rn \<noteq> NULL then rd_offset n else rd_realprev t),
     rd_realnext := (if x = rd then rd_offset n else rd_realnext t)\<rparr>" for x and t :: realdata
  have x: "x \<noteq> r \<Longrightarrow> h' x = map_option (u x) (h x)" by (simp add: h'_def cut_rd_def u_def [abs_def])
  have u: "rd_offset (u x t) = rd_offset t" "rd_status (u x t) = rd_status t"
      "rd_size (u x t) = (if x = rd then sz else rd_size t)" "rd_realnext (u x t) = (if x = rd then rd_offset n else rd_realnext t)"
      "rd_realprev (u x t) = (if x = rn \<and> rn \<noteq> NULL then rd_offset n else rd_realprev t)"
      "rd_prev (u x t) = (if x = c \<and> c \<noteq> NULL then rd_offset n else rd_prev t)"
      "rd_next (u x t) = (if x = a \<and> a \<noteq> NULL then rd_offset n else rd_next t)" for t
    by (simp_all add: u_def)
  have at': "rn = NULL \<or> h rn \<noteq> None" "a = NULL \<or> h a \<noteq> None" "c = NULL \<or> h c \<noteq> None" using at by blast+
  show "rnx pool h' x = (if x = r then rnx pool h rd else if x = rd then Some r else rnx pool h x)"
    using d n(4,6) r x u by (cases "x = r"; cases "h x") (auto simp: rnx_def)
  show "rpv pool h' x = (if x = r then Some rd else if x = rn \<and> rn \<noteq> NULL then Some r else rpv pool h x)"
    using n(3,6) rd(1) r at'(1) x u by (cases "x = r"; cases "h x") (auto simp: rpv_def)
  show "fnx pool h' x = (if x = r then fnx pool h rd else if x = a \<and> a \<noteq> NULL then Some r else fnx pool h x)"
    using d n(2,6) r at'(2) x u by (cases "x = r"; cases "h x") (auto simp: fnx_def)
  show "fpv pool h' x = (if x = r then fpv pool h rd else if x = c \<and> c \<noteq> NULL then Some r else fpv pool h x)"
    using d n(1,6) r at'(3) x u by (cases "x = r"; cases "h x") (auto simp: fpv_def)
  show "bsz h' x = (if x = r then unat (rd_size n) else if x = rd then unat sz else bsz h x)"
    using d r x u by (cases "x = r"; cases "h x") (auto simp: bsz_def)
  show "placed pool h' x \<longleftrightarrow> x = r \<or> placed pool h x"
    using r rd(2) n(6) x u by (cases "x = r"; cases "h x") (auto simp: placed_def)
  show "st h' x = (if x = r then 0 else st h x)"
    using n(5) r x u by (cases "x = r"; cases "h x") (auto simp: st_def)
qed

lemma tiles_next:
  assumes "tiles pool h e (xs @ a # ys)"
  shows "(if a + bsz h a = e then NULL else a + bsz h a) = (case ys of [] \<Rightarrow> NULL | y # _ \<Rightarrow> y)"
  using assms tilesD(5) [OF assms, of a] by (cases ys) (auto simp: tiles_def dchain_append)

lemma tiles_inside: "tiles pool h e as \<Longrightarrow> a \<in> set as \<Longrightarrow> a < r \<Longrightarrow> r < a + bsz h a \<Longrightarrow> r \<notin> set as"
  using tilesD(6) by fastforce

lemma tiles_cut:
  assumes t: "tiles pool h e (xs @ rd # ys)" and d: "h rd = Some d"
    and n: "rd_prev n = rd_prev d" "rd_next n = rd_next d" "rd_realprev n = rd_offset d"
      "rd_realnext n = rd_realnext d" "rd_status n = 0" "mempool_get_realdata pool (rd_offset n) = rd + unat sz"
      "unat (rd_size n) = bsz h rd - unat sz"
    and sz: "sizeof_realdata \<le> unat sz" "unat sz + sizeof_realdata \<le> bsz h rd"
    and ac: "a \<noteq> NULL \<Longrightarrow> a \<in> set (xs @ rd # ys)" "c \<noteq> NULL \<Longrightarrow> c \<in> set (xs @ rd # ys)"
  defines "r \<equiv> rd + unat sz" and "rn \<equiv> mempool_get_realdata pool (rd_realnext d)"
  shows "tiles pool (cut_rd h rd sz r n rn a c) e (xs @ rd # r # ys)"
    and "r \<notin> set (xs @ rd # ys)" and "rn \<noteq> NULL \<Longrightarrow> rn \<in> set ys"
    and "fnx pool (cut_rd h rd sz r n rn a c) x = (if x = r then fnx pool h rd else if x = a \<and> a \<noteq> NULL then Some r else fnx pool h x)"
    and "fpv pool (cut_rd h rd sz r n rn a c) x = (if x = r then fpv pool h rd else if x = c \<and> c \<noteq> NULL then Some r else fpv pool h x)"
    and "bsz (cut_rd h rd sz r n rn a c) x = (if x = r then bsz h rd - unat sz else if x = rd then unat sz else bsz h x)"
    and "placed pool (cut_rd h rd sz r n rn a c) x \<longleftrightarrow> x = r \<or> placed pool h x"
    and "st (cut_rd h rd sz r n rn a c) x = (if x = r then 0 else st h x)"
proof -
  note T = tilesD [OF t]
  have rd: "rd \<in> set (xs @ rd # ys)" by simp
  have rn: "rnx pool h rd = Some rn" "rn = (if rd + bsz h rd = e then NULL else rd + bsz h rd)"
    using T(5) [OF rd] d by (simp_all add: rnx_def rn_def)
  have rn': "rn = (case ys of [] \<Rightarrow> NULL | y # _ \<Rightarrow> y)" using tiles_next [OF t] rn(2) by simp
  show rny: "rn \<noteq> NULL \<Longrightarrow> rn \<in> set ys" using rn' by (cases ys) auto
  have r: "rd < r" "r < rd + bsz h rd" using sz by (auto simp: r_def sizeof_realdata_def)
  show rnew: "r \<notin> set (xs @ rd # ys)" by (rule tiles_inside [OF t rd r])
  have pr: "mempool_get_realdata pool (rd_offset d) = rd" using placedD [OF T(1) [OF rd] d] by simp
  have at: "h x \<noteq> None" if "x \<in> set (xs @ rd # ys)" for x using T(1) [OF that] by (auto simp: placed_def)
  let ?h = "cut_rd h rd sz r n rn a c"
  have V: "r \<noteq> NULL" "r \<noteq> rd" "rn \<noteq> r" "a \<noteq> r" "c \<noteq> r" "rn \<noteq> NULL \<Longrightarrow> h rn \<noteq> None" "a \<noteq> NULL \<Longrightarrow> h a \<noteq> None" "c \<noteq> NULL \<Longrightarrow> h c \<noteq> None"
    using r rny rnew ac at by auto
  note W = cut_rd_views [where sz = sz, OF d n(1-5) n(6) [folded r_def] pr V]
  show "fnx pool ?h x = (if x = r then fnx pool h rd else if x = a \<and> a \<noteq> NULL then Some r else fnx pool h x)"
    "fpv pool ?h x = (if x = r then fpv pool h rd else if x = c \<and> c \<noteq> NULL then Some r else fpv pool h x)"
    "placed pool ?h x \<longleftrightarrow> x = r \<or> placed pool h x" "st ?h x = (if x = r then 0 else st h x)" for x
    using W by blast+
  show b: "bsz ?h x = (if x = r then bsz h rd - unat sz else if x = rd then unat sz else bsz h x)" for x
    using W(5) [of x] n(7) by simp
  have ch: "dchain (rnx pool h) (rpv pool h) NULL (first_block pool) (xs @ rd # ys)" using t by (simp add: tiles_def)
  have "dchain (rnx pool ?h) (rpv pool ?h) NULL (first_block pool) (xs @ rd # r # ys)"
    by (rule dchain_insert_after [OF ch rn(1) rnew V(1)])
      (use W(1,2) rn(1) V rnew rny dchain_distinct [OF ch] in auto)
  moreover have "placed pool ?h x \<and> sizeof_realdata \<le> bsz ?h x \<and> x + bsz ?h x \<le> e \<and>
      rnx pool ?h x = Some (if x + bsz ?h x = e then NULL else x + bsz ?h x)" if "x \<in> set (xs @ rd # r # ys)" for x
  proof (cases "x = r")
    case True
    then show ?thesis using W(1,6) b sz rn T(3) [OF rd] r by (auto simp: r_def)
  next
    case False
    then have x: "x \<in> set (xs @ rd # ys)" using that by auto
    then show ?thesis using False W(1,6) b T(1-3,5) [OF x] T(3) [OF rd] sz r by (auto simp: r_def)
  qed
  ultimately show "tiles pool ?h e (xs @ rd # r # ys)" unfolding tiles_def by blast
qed

end
