(* ===== verification/MempoolSplit.thy ===== *)
theory MempoolSplit
  imports MempoolTiles
begin

text \<open>
  The choice of a free list and \<open>__split_realdata\<close>: taking a free block, whole or in part, keeps the tiling
  and the lists; the block cut off goes to the list of its size.
\<close>

section \<open>The free list of a size\<close>

definition first_free :: "mempool \<Rightarrow> nat \<Rightarrow> ptr \<times> int" where
  "first_free p k = (case filter (\<lambda>j. freelist p ! j \<noteq> NULL) [k..<5] of
      [] \<Rightarrow> (NULL, -1) | j # _ \<Rightarrow> (freelist p ! j, int j))"

definition cls :: "u32 \<Rightarrow> nat" where
  "cls n = nat (get_freeidx n)"

lemma cls_lt: "cls n < 5" "get_freeidx n = int (cls n)"
  by (auto simp: cls_def get_freeidx_def)

lemma get_freelist_first:
  assumes "length (freelist p) = 5"
  shows "mempool_get_freelist p n = Some (first_free p (cls n))"
proof -
  have u: "[4..<5] = [4]" "[3..<5] = [3, 4]" "[2..<5] = [2, 3, 4]" "[Suc 0..<5] = [1, 2, 3, 4]" "[0..<5] = [0, 1, 2, 3, 4 :: nat]"
    by (simp_all add: upt_rec)
  have 4: "n > 4096 \<Longrightarrow> get_freelist_loop p n = Some (freelist p ! 4, 4)" for n
    using assms by (simp add: get_freelist_loop.simps [of p n])
  have 3: "\<not> n > 4096 \<Longrightarrow> n > 1024 \<Longrightarrow> get_freelist_loop p n = (if freelist p ! 3 \<noteq> NULL then Some (freelist p ! 3, 3) else get_freelist_loop p 4097)" for n
    using assms by (simp add: get_freelist_loop.simps [of p n])
  have 2: "\<not> n > 1024 \<Longrightarrow> n > 512 \<Longrightarrow> get_freelist_loop p n = (if freelist p ! 2 \<noteq> NULL then Some (freelist p ! 2, 2) else get_freelist_loop p 1025)" for n
    using assms by (subst get_freelist_loop.simps) (auto simp: word_less_nat_alt)
  have 1: "\<not> n > 512 \<Longrightarrow> n > 128 \<Longrightarrow> get_freelist_loop p n = (if freelist p ! 1 \<noteq> NULL then Some (freelist p ! 1, 1) else get_freelist_loop p 513)" for n
    using assms by (subst get_freelist_loop.simps) (auto simp: word_less_nat_alt)
  have 0: "\<not> n > 128 \<Longrightarrow> get_freelist_loop p n = (if freelist p ! 0 \<noteq> NULL then Some (freelist p ! 0, 0) else get_freelist_loop p 129)" for n
    using assms by (subst get_freelist_loop.simps) (auto simp: word_less_nat_alt)
  have K: "get_freelist_loop p 4097 = Some (freelist p ! 4, 4)" by (rule 4) simp
  have K3: "get_freelist_loop p 1025 = (if freelist p ! 3 \<noteq> NULL then Some (freelist p ! 3, 3) else Some (freelist p ! 4, 4))"
    using 3 [of 1025] K by simp
  have K2: "get_freelist_loop p 513 = (if freelist p ! 2 \<noteq> NULL then Some (freelist p ! 2, 2) else get_freelist_loop p 1025)"
    by (rule 2) simp_all
  have K1: "get_freelist_loop p 129 = (if freelist p ! 1 \<noteq> NULL then Some (freelist p ! 1, 1) else get_freelist_loop p 513)"
    by (rule 1) simp_all
  consider "n > 4096" | "\<not> n > 4096" "n > 1024" | "\<not> n > 1024" "n > 512" | "\<not> n > 512" "n > 128" | "\<not> n > 128" by blast
  then show ?thesis
  proof cases
    case 1
    then show ?thesis using 4 [OF 1] by (simp add: mempool_get_freelist_def first_free_def cls_def get_freeidx_def word_less_nat_alt u)
  next
    case 2
    then show ?thesis using 3 [OF 2] K by (simp add: mempool_get_freelist_def first_free_def cls_def get_freeidx_def word_less_nat_alt u)
  next
    case 3
    then show ?thesis using 2 [OF 3] K3 by (auto simp: mempool_get_freelist_def first_free_def cls_def get_freeidx_def word_less_nat_alt u)
  next
    case 4
    then show ?thesis using 1 [OF 4] K3 K2 by (auto simp: mempool_get_freelist_def first_free_def cls_def get_freeidx_def word_less_nat_alt u)
  next
    case 5
    then show ?thesis using 0 [OF 5] K3 K2 K1 by (auto simp: mempool_get_freelist_def first_free_def cls_def get_freeidx_def word_less_nat_alt u)
  qed
qed

lemma first_free_at:
  assumes "k \<le> i" "i < 5" "freelist p ! i \<noteq> NULL" and "\<And>j. k \<le> j \<Longrightarrow> j < i \<Longrightarrow> freelist p ! j = NULL"
  shows "first_free p k = (freelist p ! i, int i)"
proof -
  have u: "[k..<5] = [k..<i] @ i # [Suc i..<5]" using assms(1,2) by (metis le_Suc_ex upt_add_eq_append upt_conv_Cons less_imp_le)
  have "filter (\<lambda>j. freelist p ! j \<noteq> NULL) [k..<i] = []"
    using assms(4) by (auto simp: filter_empty_conv)
  then show ?thesis unfolding first_free_def u using assms(3) by simp
qed

lemma first_free_cases:
  obtains "first_free p k = (NULL, -1)" "\<And>j. k \<le> j \<Longrightarrow> j < 5 \<Longrightarrow> freelist p ! j = NULL"
  | i where "k \<le> i" "i < 5" "freelist p ! i \<noteq> NULL" "first_free p k = (freelist p ! i, int i)"
      "\<And>j. k \<le> j \<Longrightarrow> j < i \<Longrightarrow> freelist p ! j = NULL"
proof (cases "filter (\<lambda>j. freelist p ! j \<noteq> NULL) [k..<5]")
  case Nil
  show ?thesis by (rule that(1)) (use Nil in \<open>auto simp: first_free_def filter_empty_conv\<close>)
next
  case (Cons i js)
  then obtain us vs where u: "[k..<5] = us @ i # vs" "\<forall>j\<in>set us. freelist p ! j = NULL" "freelist p ! i \<noteq> NULL"
    by (auto simp: filter_eq_Cons_iff)
  have len: "length us < 5 - k" using arg_cong [OF u(1), of length] by simp
  have nth: "[k..<5] ! length us = i" "\<And>j. j < length us \<Longrightarrow> [k..<5] ! j = us ! j" using u(1) by (simp_all add: nth_append)
  have i: "i = k + length us" using nth(1) len by simp
  have "freelist p ! j = NULL" if "k \<le> j" "j < i" for j
  proof -
    have "us ! (j - k) = j" using nth(2) [of "j - k"] that i len by simp
    then show ?thesis using u(2) that i by (metis add_diff_inverse_nat nat_add_left_cancel_less not_le nth_mem)
  qed
  then show ?thesis using that(2) [of i] u(3) i len Cons by (simp add: first_free_def)
qed

section \<open>Splitting\<close>

lemma lists_replace:
  assumes l: "mp_lists pool h hs Ls" and i: "i < 6" "Ls ! i = xs @ rd # ys" and d: "h rd = Some d"
    and r: "r \<noteq> NULL" "\<And>j. j < 6 \<Longrightarrow> r \<notin> set (Ls ! j)"
    and a: "a = mempool_get_realdata pool (rd_prev d)" and c: "c = mempool_get_realdata pool (rd_next d)"
    and n: "\<And>x. fnx pool h' x = (if x = r then fnx pool h rd else if x = a \<and> a \<noteq> NULL then Some r else fnx pool h x)"
    and p: "\<And>x. fpv pool h' x = (if x = r then fpv pool h rd else if x = c \<and> c \<noteq> NULL then Some r else fpv pool h x)"
  shows "mp_lists pool h' (hs[i := (if xs = [] then r else hs ! i)]) (Ls[i := xs @ r # ys])"
proof -
  have ch: "dchain (fnx pool h) (fpv pool h) NULL (hs ! i) (xs @ rd # ys)" using lists_chain [OF l i(1)] i(2) by simp
  note U = unlink_rd_lists(3,4) [OF l i d, folded a c]
  note D = dchain_distinct [OF ch] and N = dchain_nodes [OF ch]
  have an: "a = NULL \<longleftrightarrow> xs = []" using U(1) N [of "last xs"] by (cases xs rule: rev_cases) auto
  have fa: "fnx pool h rd = Some c" "fpv pool h rd = Some (last (NULL # xs))" using d U(1) by (simp_all add: fnx_def fpv_def a c)
  have ax: "xs \<noteq> [] \<Longrightarrow> a = last xs \<and> a \<in> set xs \<and> a \<notin> set ys" using U(1) last_outside [OF D] by simp
  have cx: "c \<noteq> NULL \<Longrightarrow> c \<in> set ys \<and> c \<notin> set xs" using U(2) D by auto
  have rx: "r \<notin> set (xs @ rd # ys)" using r(2) [OF i(1)] i(2) by simp
  have "dchain (fnx pool h') (fpv pool h') NULL (if xs = [] then r else hs ! i) (xs @ r # ys)"
  proof (rule dchain_replace [OF ch fa(1)])
    show "r \<notin> set (xs @ ys)" "r \<noteq> NULL" using rx r(1) by auto
    show "fnx pool h' r = Some c" "fpv pool h' r = Some (last (NULL # xs))" using n p fa by simp_all
    show "xs \<noteq> [] \<Longrightarrow> fnx pool h' (last xs) = Some r" using n ax an rx by auto
    show "c \<noteq> NULL \<Longrightarrow> fpv pool h' c = Some r" using p cx rx by auto
    show "fnx pool h' x = fnx pool h x" if "x \<in> set xs \<union> set ys" "xs = [] \<or> x \<noteq> last xs" for x
      using n that rx U(1) by (cases "xs = []") auto
    show "fpv pool h' x = fpv pool h x" if "x \<in> set xs \<union> set ys" "x \<noteq> c" for x
      using p that rx by auto
  qed simp
  then show ?thesis
  proof (rule lists_upd [OF l i(1)])
    fix j x assume j: "j < 6" "j \<noteq> i" "x \<in> set (Ls ! j)"
    then have "x \<notin> set (xs @ rd # ys)" "x \<noteq> r" using lists_disjoint [OF l j(1) i(1) j(2,3)] i(2) r(2) [OF j(1)] by auto
    moreover from this have "x = a \<longrightarrow> a = NULL" "x = c \<longrightarrow> c = NULL" using cx ax an by (cases "xs = []"; auto)+
    ultimately show "fnx pool h' x = fnx pool h x \<and> fpv pool h' x = fpv pool h x" using n [of x] p [of x] by (auto split: if_splits)
  next
    fix j assume j: "j < 6" "j \<noteq> i"
    show "set (xs @ r # ys) \<inter> set (Ls ! j) = {}" using lists_disjoint [OF l j(1) i(1) j(2)] i(2) r(2) [OF j(1)] by auto
  qed
qed

lemma upd_rd_run: "rds s r = Some d \<Longrightarrow> r \<noteq> NULL \<Longrightarrow> upd_rd s r f = Some (s\<lparr>rds := (rds s)(r \<mapsto> f d)\<rparr>)"
  by (simp add: upd_rd_def rd_at_def)

lemma get_realdata_eq_NULL [simp]: "mempool_get_realdata pool off = NULL \<longleftrightarrow> off = MEMPOOL_NULL"
  by (auto simp: mempool_get_realdata_def mempool_get_realdata_direct_def sizeof_mempool_def)

definition rest_rd :: "realdata \<Rightarrow> mpmem \<Rightarrow> realdata \<Rightarrow> u32 \<Rightarrow> ptr \<Rightarrow> realdata" where
  "rest_rd junk s d sz r = (raw_rd junk s r)\<lparr>rd_offset := ucast (ucast (rd_offset d) + sz),
     rd_size := ucast (ucast (rd_size d) - sz), rd_prev := rd_prev d, rd_next := rd_next d,
     rd_realprev := rd_offset d, rd_realnext := rd_realnext d, rd_status := 0\<rparr>"

definition upd_at :: "headers \<Rightarrow> ptr \<Rightarrow> (realdata \<Rightarrow> realdata) \<Rightarrow> headers" where
  "upd_at h x f = (if x = NULL then h else h(x := map_option f (h x)))"

lemma upd_at_apply: "upd_at h x f y = (if y = x \<and> x \<noteq> NULL then map_option f (h y) else h y)"
  by (simp add: upd_at_def)

lemma upd_rd_at: "rds s x \<noteq> None \<Longrightarrow> x \<noteq> NULL \<Longrightarrow> upd_rd s x f = Some (s\<lparr>rds := upd_at (rds s) x f\<rparr>)"
  by (auto simp: upd_rd_run upd_at_def)

lemma cut_rd_steps:
  assumes "r \<noteq> rn" "r \<noteq> rd" "r \<noteq> c" "r \<noteq> a" "rd \<noteq> NULL"
  shows "upd_at (upd_at (upd_at (upd_at (h(r \<mapsto> n)) rn (\<lambda>t. t\<lparr>rd_realprev := rd_offset n\<rparr>))
      rd (\<lambda>t. t\<lparr>rd_size := sz, rd_realnext := rd_offset n\<rparr>)) c (\<lambda>t. t\<lparr>rd_prev := rd_offset n\<rparr>))
      a (\<lambda>t. t\<lparr>rd_next := rd_offset n\<rparr>) = cut_rd h rd sz r n rn a c"
proof
  fix x
  show "upd_at (upd_at (upd_at (upd_at (h(r \<mapsto> n)) rn (\<lambda>t. t\<lparr>rd_realprev := rd_offset n\<rparr>))
      rd (\<lambda>t. t\<lparr>rd_size := sz, rd_realnext := rd_offset n\<rparr>)) c (\<lambda>t. t\<lparr>rd_prev := rd_offset n\<rparr>))
      a (\<lambda>t. t\<lparr>rd_next := rd_offset n\<rparr>) x = cut_rd h rd sz r n rn a c x"
  proof (cases "x = r")
    case True
    then show ?thesis using assms by (simp add: upd_at_apply cut_rd_def)
  next
    case False
    show ?thesis
      by (cases "x = rn \<and> rn \<noteq> NULL"; cases "x = rd"; cases "x = c \<and> c \<noteq> NULL"; cases "x = a \<and> a \<noteq> NULL"; cases "h x";
          simp only: upd_at_apply cut_rd_def False if_True if_False fun_upd_apply option.map simp_thms)
        (use assms False in auto)
  qed
qed

lemma split_cut_alt:
  "split_cut junk s pool rd sz fl freeidx = do {
     d \<leftarrow> rd_at s rd;
     p \<leftarrow> pool_at s pool;
     let r = rd + unat sz;
     let n = rest_rd junk s d sz r;
     ensure (r + sizeof_realdata \<le> pool + unat (pool_size p));
     let s = s\<lparr>rds := (rds s)(r \<mapsto> n)\<rparr>;
     s \<leftarrow> (if rd_realnext d \<noteq> MEMPOOL_NULL
           then upd_rd s (mempool_get_realdata_direct pool (rd_realnext d)) (\<lambda>t. t\<lparr>rd_realprev := rd_offset n\<rparr>)
           else Some s);
     s \<leftarrow> upd_rd s rd (\<lambda>t. t\<lparr>rd_size := ucast sz, rd_realnext := rd_offset n\<rparr>);
     s \<leftarrow> (if mempool_get_realdata pool (rd_next d) \<noteq> NULL
           then upd_rd s (mempool_get_realdata pool (rd_next d)) (\<lambda>t. t\<lparr>rd_prev := rd_offset n\<rparr>) else Some s);
     s \<leftarrow> (if rd \<noteq> fl then upd_rd s (mempool_get_realdata pool (rd_prev d)) (\<lambda>t. t\<lparr>rd_next := rd_offset n\<rparr>)
           else set_freelist s pool freeidx r);
     s \<leftarrow> (if get_freeidx (ucast (rd_size n)) \<noteq> freeidx then do {
             s \<leftarrow> remove_freenode s pool r freeidx;
             add_freenode s pool r (get_freeidx (ucast (rd_size n))) }
           else Some s);
     Some (s, r) }"
  by (simp only: split_cut_def rest_rd_def Let_def)

text \<open>Everything \<open>split_cut\<close> does before the rest changes its list.\<close>

lemma split_cut_run:
  assumes p: "pool_at s pool = Some p" and d: "rds s rd = Some d" "rd \<noteq> NULL"
    and r: "r = rd + unat sz" "r + sizeof_realdata \<le> pool + unat (pool_size p)"
    and a: "a = mempool_get_realdata pool (rd_prev d)" and c: "c = mempool_get_realdata pool (rd_next d)"
    and rn: "rn = mempool_get_realdata pool (rd_realnext d)"
    and ne: "r \<noteq> rn" "r \<noteq> rd" "r \<noteq> c" "r \<noteq> a"
    and at: "rn = NULL \<or> rds s rn \<noteq> None" "a = NULL \<or> rds s a \<noteq> None" "c = NULL \<or> rds s c \<noteq> None"
    and hd: "rd \<noteq> fl \<longleftrightarrow> a \<noteq> NULL" and i: "length (freelist p) = 5" "i < 5"
    and n: "n = rest_rd junk s d sz r"
  defines "p1 \<equiv> (if a = NULL then p\<lparr>freelist := (freelist p)[i := r]\<rparr> else p)"
  defines "s1 \<equiv> s\<lparr>pools := (pools s)(pool \<mapsto> p1), rds := cut_rd (rds s) rd (ucast sz) r n rn a c\<rparr>"
  shows "split_cut junk s pool rd sz fl (int i) =
    (if cls (ucast (rd_size n)) \<noteq> i then do {
       s \<leftarrow> remove_freenode s1 pool r (int i);
       s \<leftarrow> add_freenode s pool r (int (cls (ucast (rd_size n))));
       Some (s, r) }
     else Some (s1, r))"
proof -
  define h1 where "h1 = (rds s)(r \<mapsto> n)"
  define h2 where "h2 = upd_at h1 rn (\<lambda>t. t\<lparr>rd_realprev := rd_offset n\<rparr>)"
  define h3 where "h3 = upd_at h2 rd (\<lambda>t. t\<lparr>rd_size := ucast sz, rd_realnext := rd_offset n\<rparr>)"
  define h4 where "h4 = upd_at h3 c (\<lambda>t. t\<lparr>rd_prev := rd_offset n\<rparr>)"
  define h5 where "h5 = upd_at h4 a (\<lambda>t. t\<lparr>rd_next := rd_offset n\<rparr>)"
  have h5: "h5 = cut_rd (rds s) rd (ucast sz) r n rn a c"
    unfolding h5_def h4_def h3_def h2_def h1_def by (rule cut_rd_steps) (use ne d in auto)
  have H: "rn = NULL \<or> h1 rn \<noteq> None" "h2 rd \<noteq> None" "c = NULL \<or> h3 c \<noteq> None" "a = NULL \<or> h4 a \<noteq> None"
    using at d ne by (auto simp: h4_def h3_def h2_def h1_def upd_at_apply)
  have pp: "pools s pool = Some p" "pool \<noteq> NULL" using p by (auto simp: pool_at_def split: if_splits)
  have 1: "(if rd_realnext d \<noteq> MEMPOOL_NULL
      then upd_rd (s\<lparr>rds := h1\<rparr>) (mempool_get_realdata_direct pool (rd_realnext d)) (\<lambda>t. t\<lparr>rd_realprev := rd_offset n\<rparr>)
      else Some (s\<lparr>rds := h1\<rparr>)) = Some (s\<lparr>rds := h2\<rparr>)"
    using H(1) get_realdata_direct [of pool "rd_realnext d", folded rn] rn
    by (auto simp: h2_def upd_rd_at upd_at_def)
  have 2: "upd_rd (s\<lparr>rds := h2\<rparr>) rd (\<lambda>t. t\<lparr>rd_size := ucast sz, rd_realnext := rd_offset n\<rparr>) = Some (s\<lparr>rds := h3\<rparr>)"
    using H(2) d(2) by (simp add: upd_rd_at h3_def)
  have 3: "(if c \<noteq> NULL then upd_rd (s\<lparr>rds := h3\<rparr>) c (\<lambda>t. t\<lparr>rd_prev := rd_offset n\<rparr>) else Some (s\<lparr>rds := h3\<rparr>)) = Some (s\<lparr>rds := h4\<rparr>)"
    using H(3) by (auto simp: upd_rd_at h4_def upd_at_def)
  have 4: "(if rd \<noteq> fl then upd_rd (s\<lparr>rds := h4\<rparr>) a (\<lambda>t. t\<lparr>rd_next := rd_offset n\<rparr>)
      else set_freelist (s\<lparr>rds := h4\<rparr>) pool (int i) r) = Some (s\<lparr>pools := (pools s)(pool \<mapsto> p1), rds := h5\<rparr>)"
  proof (cases "a = NULL")
    case True
    then show ?thesis using hd i pp by (simp add: set_freelist_def pool_at_def upd_pool_def p1_def h5_def upd_at_def)
  next
    case False
    have "s\<lparr>pools := (pools s)(pool \<mapsto> p), rds := h5\<rparr> = s\<lparr>rds := h5\<rparr>" using pp by (simp add: fun_upd_idem)
    then show ?thesis using False hd H(4) by (simp add: upd_rd_at p1_def h5_def)
  qed
  show ?thesis
    unfolding split_cut_alt
    using d p r(2) 1 [unfolded h1_def n] 2 [unfolded n] 3 [unfolded n c] 4 [unfolded n a] cls_lt(2) [of "ucast (rd_size (rest_rd junk s d sz r))"]
    unfolding n a c s1_def
    by (simp add: rd_at_def Let_def r(1) [symmetric] h5 [unfolded n a c])
qed

lemma split_whole_remove:
  assumes "rd_at s rd = Some d" and "pool_at s pool = Some p" and "length (freelist p) = 5" "i < 5"
    and "rd \<noteq> freelist p ! i \<Longrightarrow> rd_prev d \<noteq> MEMPOOL_NULL"
  shows "split_whole s pool rd (freelist p ! i) (int i) = remove_freenode s pool rd (int i)"
  using assms get_realdata_direct [of pool "rd_prev d"]
  by (auto simp: split_whole_def remove_freenode_def Let_def)

text \<open>Marking a block that is in no list.\<close>

definition mark :: "realdata \<Rightarrow> realdata" where
  "mark d = d\<lparr>rd_prev := MEMPOOL_NULL, rd_next := MEMPOOL_NULL, rd_status := 1\<rparr>"

lemma mark_views:
  assumes "h rd = Some d"
  defines "h' \<equiv> h(rd \<mapsto> mark d)"
  shows "rnx pool h' = rnx pool h" "rpv pool h' = rpv pool h" "bsz h' = bsz h" "placed pool h' = placed pool h"
    "st h' x = (if x = rd then 1 else st h x)"
    "x \<noteq> rd \<Longrightarrow> fnx pool h' x = fnx pool h x" "x \<noteq> rd \<Longrightarrow> fpv pool h' x = fpv pool h x"
  using assms by (auto simp: fun_eq_iff rnx_def rpv_def bsz_def placed_def st_def fnx_def fpv_def mark_def)

lemma lists_cong:
  assumes "mp_lists pool h hs Ls" and "\<And>j x. j < 6 \<Longrightarrow> x \<in> set (Ls ! j) \<Longrightarrow> fnx pool h' x = fnx pool h x \<and> fpv pool h' x = fpv pool h x"
  shows "mp_lists pool h' hs Ls"
proof -
  have "dchain (fnx pool h') (fpv pool h') NULL (hs ! j) (Ls ! j)" if "j < 6" for j
    using assms(2) [OF that] lists_chain [OF assms(1) that]
      dchain_cong [of "Ls ! j" "fnx pool h" "fnx pool h'" "fpv pool h" "fpv pool h'"] by simp
  then show ?thesis using assms(1) unfolding mp_lists_def by blast
qed

lemma mark_inv:
  assumes "h rd = Some d" and "mp_lists pool h hs Ls" and "\<And>j. j < 6 \<Longrightarrow> rd \<notin> set (Ls ! j)" and "tiles pool h e as"
  shows "mp_lists pool (h(rd \<mapsto> mark d)) hs Ls" "tiles pool (h(rd \<mapsto> mark d)) e as"
proof -
  show "mp_lists pool (h(rd \<mapsto> mark d)) hs Ls"
  proof (rule lists_cong [OF assms(2)])
    fix j x assume "j < 6" "x \<in> set (Ls ! j)"
    then have "x \<noteq> rd" using assms(3) by blast
    then show "fnx pool (h(rd \<mapsto> mark d)) x = fnx pool h x \<and> fpv pool (h(rd \<mapsto> mark d)) x = fpv pool h x"
      using mark_views(6,7) [where h = h, OF assms(1)] by blast
  qed
  show "tiles pool (h(rd \<mapsto> mark d)) e as"
    using assms(4) unfolding tiles_def mark_views(1-4) [where h = h, OF assms(1)] .
qed

definition bcl :: "headers \<Rightarrow> ptr \<Rightarrow> nat" where
  "bcl h x = cls (of_nat (bsz h x))"

lemma bcl_rd: "h x = Some d \<Longrightarrow> cls (ucast (rd_size d)) = bcl h x"
  by (simp add: bcl_def bsz_def)

text \<open>What a split leaves behind: \<open>rest\<close> is the block cut off the end of \<open>rd\<close>, if any.\<close>

definition split_post :: "headers \<Rightarrow> ptr list \<Rightarrow> ptr list list \<Rightarrow> ptr \<Rightarrow> nat \<Rightarrow> headers \<Rightarrow> ptr list \<Rightarrow> ptr list list \<Rightarrow> ptr \<Rightarrow> bool" where
  "split_post h as Ls rd n h' as' Ls' rest \<longleftrightarrow>
     (rest = NULL \<and> as' = as \<or> rest \<noteq> NULL \<and> rest \<notin> set as \<and> set as' = insert rest (set as)) \<and> Ls' ! 5 = Ls ! 5 \<and>
     (\<forall>j<5. set (Ls' ! j) = set (Ls ! j) - {rd} \<union> (if rest \<noteq> NULL \<and> j = bcl h' rest then {rest} else {})) \<and>
     (\<forall>x. st h' x = (if x = rd then 1 else if rest \<noteq> NULL \<and> x = rest then 0 else st h x)) \<and>
     (\<forall>x. x \<noteq> rd \<and> (rest = NULL \<or> x \<noteq> rest) \<longrightarrow> bsz h' x = bsz h x) \<and>
     n \<le> bsz h' rd \<and> bsz h' rd + (if rest = NULL then 0 else bsz h' rest) = bsz h rd \<and>
     (\<exists>d. h' rd = Some d \<and> rd_next d = MEMPOOL_NULL \<and> rd_prev d = MEMPOOL_NULL) \<and>
     (\<forall>x. x \<notin> set as \<and> (rest = NULL \<or> x \<noteq> rest) \<longrightarrow> h' x = h x)"

lemma split_run_whole:
  assumes p: "pool_at s pool = Some p" and l: "mp_lists pool (rds s) (heads p) Ls" and t: "tiles pool (rds s) e as"
    and mem: "\<And>j x. j < 6 \<Longrightarrow> x \<in> set (Ls ! j) \<Longrightarrow> x \<in> set as"
    and i: "i < 5" "rd \<in> set (Ls ! i)" and d: "rds s rd = Some d"
    and ff: "first_free p (cls (ucast (rd_size d))) = (freelist p ! i, int i)"
    and sz: "unat sz \<le> bsz (rds s) rd" "ucast (rd_size d) - sz < (30 :: u32)"
  shows "\<exists>s' p' Ls'. split_realdata junk s pool rd sz = Some (s', rd, NULL) \<and>
    s' = s\<lparr>pools := (pools s)(pool \<mapsto> p'), rds := rds s'\<rparr> \<and> (\<exists>fl. p' = p\<lparr>freelist := fl\<rparr>) \<and>
    mp_lists pool (rds s') (heads p') Ls' \<and> tiles pool (rds s') e as \<and>
    split_post (rds s) as Ls rd (unat sz) (rds s') as Ls' NULL"
proof -
  note len = lists_length [OF l]
  obtain xs ys where xs: "Ls ! i = xs @ rd # ys" using i(2) by (meson split_list)
  have i6: "i < 6" using i(1) by simp
  have lL: "length Ls = 6" using l by (simp add: mp_lists_def)
  have ch: "dchain (fnx pool (rds s)) (fpv pool (rds s)) NULL (freelist p ! i) (xs @ rd # ys)"
    using lists_chain [OF l i6] xs heads_free(1) [OF len i(1)] by simp
  note D = dchain_distinct [OF ch]
  have rdN: "rd \<noteq> NULL" using dchain_nodes [OF ch, of rd] by simp
  have pr: "rd_prev d \<noteq> MEMPOOL_NULL" if "rd \<noteq> freelist p ! i"
  proof -
    have "xs \<noteq> []" using ch that by (cases xs) auto
    then show ?thesis using unlink_rd_lists(3) [OF l i6 xs d] dchain_nodes [OF ch, of "last xs"] by auto
  qed
  have at: "rd_at s rd = Some d" using d rdN by (simp add: rd_at_def)
  obtain s1 p1 where s1: "remove_freenode s pool rd (int i) = Some s1" "s1 = s\<lparr>pools := (pools s)(pool \<mapsto> p1), rds := rds s1\<rparr>"
      "\<exists>fl. p1 = p\<lparr>freelist := fl\<rparr>" "mp_lists pool (rds s1) (heads p1) (Ls[i := xs @ ys])" "linked (set (xs @ ys)) (rds s) (rds s1)"
    using remove_freenode_run [OF p l i(1) xs d, of "int i"] by auto
  let ?Ls = "Ls[i := xs @ ys]"
  have rdX: "rd \<notin> set (xs @ ys)" using D by auto
  have d1: "rds s1 rd = Some d" using s1(5) rdX d by (simp add: linked_def)
  have no: "rd \<notin> set (?Ls ! j)" if "j < 6" for j
    using lists_disjoint [OF l i6 that, of rd] rdX xs lL that by (cases "j = i") auto
  let ?s = "s1\<lparr>rds := (rds s1)(rd \<mapsto> mark d)\<rparr>"
  have r: "split_realdata junk s pool rd sz = Some (?s, rd, NULL)"
    using at p get_freelist_first [OF len] ff split_whole_remove [OF at p len i(1) pr] s1(1) sz(2) d1 rdN
    by (simp add: split_realdata_def upd_rd_run mark_def [symmetric])
  have M: "mp_lists pool (rds ?s) (heads p1) ?Ls" "tiles pool (rds ?s) e as"
    using mark_inv [OF d1 s1(4) no, of e as] t tiles_linked [OF s1(5)] by simp_all
  note V = mark_views [where h = "rds s1", OF d1]
  have "split_post (rds s) as Ls rd (unat sz) (rds ?s) as ?Ls NULL"
  proof -
    have "set (?Ls ! j) = set (Ls ! j) - {rd}" if "j < 5" for j
      using that lL no [of j] rdX xs lists_disjoint [OF l i6 _ _ i(2), of j] by (cases "j = i") auto
    moreover have "rds ?s x = rds s x" if "x \<notin> set as" for x
      using that mem [OF i6] xs s1(5) by (auto simp: linked_def)
    moreover have "?Ls ! 5 = Ls ! 5" using i(1) by simp
    ultimately show ?thesis
      unfolding split_post_def using V(3,5) linked_views(3,5) [OF s1(5)] sz(1) by (auto simp: mark_def)
  qed
  moreover have "?s = s\<lparr>pools := (pools s)(pool \<mapsto> p1), rds := rds ?s\<rparr>" using s1(2) by (cases s1; cases s) simp
  ultimately show ?thesis using r M s1(3) by blast
qed

lemma unat_u16: "unat (x :: u16) < 65536"
proof -
  have "unat x < 2 ^ LENGTH(16)" by (rule unsigned_less)
  then show ?thesis by simp
qed

lemma unat_ucast_16_32 [simp]: "unat (ucast (x :: u16) :: u32) = unat x"
  using unat_u16 [of x] by (simp add: unsigned_ucast_eq take_bit_nat_eq_self)

lemma unat_ucast_32_16: "unat (x :: u32) < 65536 \<Longrightarrow> unat (ucast x :: u16) = unat x"
  by (simp add: unsigned_ucast_eq take_bit_nat_eq_self)

lemma unat_add_32: "unat (x :: u32) + unat y < 2 ^ 32 \<Longrightarrow> unat (x + y) = unat x + unat y"
  by (simp add: unat_word_ariths)

lemma unat_sub_32: "unat (y :: u32) \<le> unat x \<Longrightarrow> unat (x - y) = unat x - unat y"
  by (simp add: unat_sub word_le_nat_alt)

lemma rest_rd_facts:
  assumes t: "tiles pool (rds s) e as" and rd: "rd \<in> set as" "rds s rd = Some d"
    and e: "e \<le> pool + 65536" and sz: "unat sz \<le> bsz (rds s) rd" "\<not> ucast (rd_size d) - sz < (30 :: u32)"
  shows "unat sz + 30 \<le> bsz (rds s) rd"
    and "mempool_get_realdata pool (rd_offset (rest_rd junk s d sz (rd + unat sz))) = rd + unat sz"
    and "unat (rd_size (rest_rd junk s d sz (rd + unat sz))) = bsz (rds s) rd - unat sz"
proof -
  have b: "bsz (rds s) rd = unat (rd_size d)" using rd(2) by (simp add: bsz_def)
  have q: "unat (ucast (rd_size d) - sz :: u32) = unat (rd_size d) - unat sz" using sz(1) b by (simp add: unat_sub_32)
  have "30 \<le> unat (ucast (rd_size d) - sz :: u32)" using sz(2) by (simp add: word_less_nat_alt)
  then show k: "unat sz + 30 \<le> bsz (rds s) rd" using q b by simp
  have pr: "mempool_get_realdata pool (rd_offset d) = rd" "rd \<noteq> NULL" using placedD [OF tilesD(1) [OF t rd(1)] rd(2)] by simp_all
  then have o: "rd = pool + sizeof_mempool + unat (rd_offset d)"
    by (auto simp: mempool_get_realdata_def mempool_get_realdata_direct_def split: if_splits)
  have "rd + bsz (rds s) rd \<le> e" by (rule tilesD(3) [OF t rd(1)])
  then have lt: "unat (rd_offset d) + unat sz + 30 + 192 \<le> 65536" using o k e by (simp add: sizeof_mempool_def)
  have u: "unat (rd_offset (rest_rd junk s d sz (rd + unat sz))) = unat (rd_offset d) + unat sz"
    using lt by (simp add: rest_rd_def unat_add_32 unat_ucast_32_16)
  then have "rd_offset (rest_rd junk s d sz (rd + unat sz)) \<noteq> MEMPOOL_NULL" using lt by (auto simp: MEMPOOL_NULL_def)
  then show "mempool_get_realdata pool (rd_offset (rest_rd junk s d sz (rd + unat sz))) = rd + unat sz"
    using o u by (simp add: mempool_get_realdata_def mempool_get_realdata_direct_def)
  show "unat (rd_size (rest_rd junk s d sz (rd + unat sz))) = bsz (rds s) rd - unat sz"
    using q b unat_u16 [of "rd_size d"] by (simp add: rest_rd_def unat_ucast_32_16)
qed

lemma split_run_cut:
  assumes p: "pool_at s pool = Some p" and l: "mp_lists pool (rds s) (heads p) Ls" and t: "tiles pool (rds s) e as"
    and e: "e = pool + unat (pool_size p)" "unat (pool_size p) \<le> 65536"
    and mem: "\<And>j x. j < 6 \<Longrightarrow> x \<in> set (Ls ! j) \<Longrightarrow> x \<in> set as"
    and i: "i < 5" "rd \<in> set (Ls ! i)" and d: "rds s rd = Some d"
    and ff: "first_free p (cls (ucast (rd_size d))) = (freelist p ! i, int i)"
    and sz: "unat sz \<le> bsz (rds s) rd" "\<not> ucast (rd_size d) - sz < (30 :: u32)" "sizeof_realdata \<le> unat sz"
  shows "\<exists>s' p' Ls' as' rest. split_realdata junk s pool rd sz = Some (s', rd, rest) \<and>
    s' = s\<lparr>pools := (pools s)(pool \<mapsto> p'), rds := rds s'\<rparr> \<and> (\<exists>fl. p' = p\<lparr>freelist := fl\<rparr>) \<and>
    mp_lists pool (rds s') (heads p') Ls' \<and> tiles pool (rds s') e as' \<and>
    split_post (rds s) as Ls rd (unat sz) (rds s') as' Ls' rest"
proof -
  note len = lists_length [OF l]
  obtain xs ys where xs: "Ls ! i = xs @ rd # ys" using i(2) by (meson split_list)
  have i6: "i < 6" using i(1) by simp
  have rda: "rd \<in> set as" by (rule mem [OF i6 i(2)])
  obtain as1 as2 where as: "as = as1 @ rd # as2" using rda by (meson split_list)
  have lL: "length Ls = 6" using l by (simp add: mp_lists_def)
  have ch: "dchain (fnx pool (rds s)) (fpv pool (rds s)) NULL (freelist p ! i) (xs @ rd # ys)"
    using lists_chain [OF l i6] xs heads_free(1) [OF len i(1)] by simp
  note D = dchain_distinct [OF ch] and N = dchain_nodes [OF ch]
  have rdN: "rd \<noteq> NULL" using N [of rd] by simp
  define r where "r = rd + unat sz"
  define n where "n = rest_rd junk s d sz r"
  define a where "a = mempool_get_realdata pool (rd_prev d)"
  define c where "c = mempool_get_realdata pool (rd_next d)"
  define rn where "rn = mempool_get_realdata pool (rd_realnext d)"
  note U = unlink_rd_lists(3,4) [OF l i6 xs d, folded a_def c_def]
  have e': "e \<le> pool + 65536" using e by simp
  note F = rest_rd_facts(1) [OF t rda d e' sz(1,2)] rest_rd_facts(2,3) [OF t rda d e' sz(1,2), of junk, folded r_def n_def]
  have an: "a = NULL \<longleftrightarrow> xs = []" using U(1) N [of "last xs"] by (cases xs rule: rev_cases) auto
  have inas: "a \<noteq> NULL \<Longrightarrow> a \<in> set (as1 @ rd # as2)" "c \<noteq> NULL \<Longrightarrow> c \<in> set (as1 @ rd # as2)"
    using U an mem [OF i6] xs unfolding as by (cases "xs = []"; auto)+
  have nf: "rd_prev n = rd_prev d" "rd_next n = rd_next d" "rd_realprev n = rd_offset d" "rd_realnext n = rd_realnext d" "rd_status n = 0"
    by (simp_all add: n_def rest_rd_def)
  have szk: "sizeof_realdata \<le> unat sz" "unat sz + sizeof_realdata \<le> bsz (rds s) rd" "unat (ucast sz :: u16) = unat sz"
    using sz(3) F(1) unat_u16 [of "rd_size d"] d by (auto simp: sizeof_realdata_def bsz_def unat_ucast_32_16)
  have g: "mempool_get_realdata pool (rd_offset n) = rd + unat (ucast sz :: u16)"
      "unat (rd_size n) = bsz (rds s) rd - unat (ucast sz :: u16)" "sizeof_realdata \<le> unat (ucast sz :: u16)"
      "unat (ucast sz :: u16) + sizeof_realdata \<le> bsz (rds s) rd"
    using F szk by (simp_all add: r_def n_def)
  note C = tiles_cut [where sz = "ucast sz :: u16", OF t [unfolded as] d nf g inas, unfolded szk(3), folded r_def rn_def as]
  let ?h = "cut_rd (rds s) rd (ucast sz) r n rn a c"
  have at: "rn = NULL \<or> rds s rn \<noteq> None" "a = NULL \<or> rds s a \<noteq> None" "c = NULL \<or> rds s c \<noteq> None"
    using C(3) inas tilesD(1) [OF t] as by (fastforce simp: placed_def)+
  have ne: "r \<noteq> rn" "r \<noteq> rd" "r \<noteq> c" "r \<noteq> a" "r \<noteq> NULL"
    using C(2,3) inas as sz(3) rdN by (auto simp: r_def sizeof_realdata_def)
  have hd: "rd \<noteq> freelist p ! i \<longleftrightarrow> a \<noteq> NULL" using ch D unfolding an by (cases xs) auto
  have r2: "r + sizeof_realdata \<le> pool + unat (pool_size p)"
    using tilesD(3) [OF t rda] F(1) e by (simp add: r_def sizeof_realdata_def)
  define p1 where "p1 = (if a = NULL then p\<lparr>freelist := (freelist p)[i := r]\<rparr> else p)"
  define s1 where "s1 = s\<lparr>pools := (pools s)(pool \<mapsto> p1), rds := ?h\<rparr>"
  note S = split_cut_run [OF p d rdN r_def r2 a_def c_def rn_def ne(1-4) at hd len i(1) n_def, folded p1_def, folded s1_def]
  have rno: "r \<notin> set (Ls ! j)" if "j < 6" for j using C(2) mem [OF that] as by auto
  have heads1: "heads p1 = (heads p)[i := (if xs = [] then r else heads p ! i)]"
    using heads_free(1,2) [OF len i(1)] an list_update_id [of "heads p" i] by (auto simp: p1_def)
  have l1: "mp_lists pool ?h (heads p1) (Ls[i := xs @ r # ys])"
    unfolding heads1 by (rule lists_replace [OF l i6 xs d ne(5) rno a_def c_def C(4,5)])
  have outside: "rd \<notin> set (Ls ! j)" if "j < 6" "j \<noteq> i" for j
    using lists_disjoint [OF l i6 that(1) _ i(2)] that(2) by blast
  let ?k = "cls (ucast (rd_size n))" and ?Ls1 = "Ls[i := xs @ r # ys]"
  have hr: "?h r = Some n" by (simp add: cut_rd_def)
  have k: "?k = bcl ?h r" by (rule bcl_rd [where h = ?h and x = r, OF hr])
  have p1: "pool_at s1 pool = Some p1" "\<exists>fl. p1 = p\<lparr>freelist := fl\<rparr>"
    using p by (auto simp: s1_def pool_at_def p1_def intro: exI [of _ "freelist p"] split: if_splits)
  have "\<exists>s2 p2 Ls2. split_cut junk s pool rd sz (freelist p ! i) (int i) = Some (s2, r) \<and>
      s2 = s\<lparr>pools := (pools s)(pool \<mapsto> p2), rds := rds s2\<rparr> \<and> (\<exists>fl. p2 = p\<lparr>freelist := fl\<rparr>) \<and>
      mp_lists pool (rds s2) (heads p2) Ls2 \<and> linked (insert r (set as - {rd})) ?h (rds s2) \<and> Ls2 ! 5 = Ls ! 5 \<and>
      (\<forall>j<5. set (Ls2 ! j) = set (Ls ! j) - {rd} \<union> (if j = ?k then {r} else {}))"
  proof (cases "?k = i")
    case True
    have "set (?Ls1 ! j) = set (Ls ! j) - {rd} \<union> (if j = ?k then {r} else {})" if "j < 5" for j
      using outside [of j] that True D xs lL i6 by (cases "j = i") auto
    moreover have "?Ls1 ! 5 = Ls ! 5" using i(1) by simp
    moreover have "split_cut junk s pool rd sz (freelist p ! i) (int i) = Some (s1, r)" using S True by simp
    ultimately show ?thesis using l1 p1(2) by (intro exI [of _ s1] exI [of _ p1] exI [of _ ?Ls1]) (simp add: s1_def)
  next
    case False
    have l1': "mp_lists pool (rds s1) (heads p1) ?Ls1" using l1 by (simp add: s1_def)
    have hr1: "rds s1 r = Some n" using hr by (simp add: s1_def)
    have L1: "?Ls1 ! i = xs @ r # ys" using lL i6 by simp
    obtain s3 p3 where s3: "remove_freenode s1 pool r (int i) = Some s3" "s3 = s1\<lparr>pools := (pools s1)(pool \<mapsto> p3), rds := rds s3\<rparr>"
        "\<exists>fl. p3 = p1\<lparr>freelist := fl\<rparr>" "mp_lists pool (rds s3) (heads p3) (?Ls1[i := xs @ ys])" "linked (set (xs @ ys)) (rds s1) (rds s3)"
      using remove_freenode_run [OF p1(1) l1' i(1) L1 hr1, of "int i"] by auto
    let ?Ls3 = "?Ls1[i := xs @ ys]"
    have kk: "?k < 5" "?k < 6" using cls_lt(1) [of "ucast (rd_size n)"] by simp_all
    have rX: "r \<notin> set (xs @ ys)" using rno [OF i6] xs by auto
    have hr3: "rds s3 r = Some n" using s3(5) hr1 rX by (simp add: linked_def)
    have p3: "pool_at s3 pool = Some p3" using p by (subst s3(2)) (auto simp: pool_at_def split: if_splits)
    have no3: "r \<notin> set (?Ls3 ! j)" if "j < 6" for j using rno [OF that] rX lL that by (cases "j = i") auto
    have pl: "placed pool (rds s3) x" if "x = r \<or> x \<in> set (Ls ! j) \<and> j < 6" for x j
      using that C(7) mem tilesD(1) [OF t] linked_views(4) [OF s3(5)] by (auto simp: s1_def)
    have pl3: "placed pool (rds s3) x" if "x \<in> set (?Ls3 ! ?k)" for x
      using that False pl [of x ?k] kk by simp
    obtain s4 p4 where s4: "add_freenode s3 pool r (int ?k) = Some s4" "s4 = s3\<lparr>pools := (pools s3)(pool \<mapsto> p4), rds := rds s4\<rparr>"
        "\<exists>fl. p4 = p3\<lparr>freelist := fl\<rparr>" "mp_lists pool (rds s4) (heads p4) (?Ls3[?k := r # ?Ls3 ! ?k])"
        "linked (insert r (set (?Ls3 ! ?k))) (rds s3) (rds s4)"
      using add_freenode_run [where freeidx = "int ?k", OF p3 s3(4) kk(1) hr3 pl] no3 pl3 by auto
    let ?Ls4 = "?Ls3[?k := r # ?Ls3 ! ?k]"
    have "set (?Ls4 ! j) = set (Ls ! j) - {rd} \<union> (if j = ?k then {r} else {})" if "j < 5" for j
      using outside [of j] that False D xs lL i6 by (cases "j = i"; cases "j = ?k") auto
    moreover have "?Ls4 ! 5 = Ls ! 5" using i(1) kk(1) by simp
    moreover have "split_cut junk s pool rd sz (freelist p ! i) (int i) = Some (s4, r)" 
      using S False s3(1) s4(1) by simp
    moreover have "linked (insert r (set as - {rd})) ?h (rds s4)"
    proof -
      have "set (xs @ ys) \<subseteq> set as - {rd}" "set (?Ls3 ! ?k) \<subseteq> set as - {rd}"
        using mem [OF i6] mem [OF kk(2)] xs D outside [OF kk(2)] False by auto
      with linked_trans [OF s3(5) s4(5)] show ?thesis by (auto simp: s1_def intro: linked_mono)
    qed
    moreover have "s4 = s\<lparr>pools := (pools s)(pool \<mapsto> p4), rds := rds s4\<rparr>"
      using s4(2) s3(2) by (cases s4; cases s3; cases s) (simp add: s1_def)
    moreover have "\<exists>fl. p4 = p\<lparr>freelist := fl\<rparr>" using s4(3) s3(3) p1(2) by auto
    ultimately show ?thesis using s4(4) by (intro exI [of _ s4] exI [of _ p4] exI [of _ ?Ls4]) blast
  qed
  then obtain s2 p2 Ls2 where s2: "split_cut junk s pool rd sz (freelist p ! i) (int i) = Some (s2, r)"
      "s2 = s\<lparr>pools := (pools s)(pool \<mapsto> p2), rds := rds s2\<rparr>" "\<exists>fl. p2 = p\<lparr>freelist := fl\<rparr>"
      "mp_lists pool (rds s2) (heads p2) Ls2" "linked (insert r (set as - {rd})) ?h (rds s2)" "Ls2 ! 5 = Ls ! 5"
      "\<forall>j<5. set (Ls2 ! j) = set (Ls ! j) - {rd} \<union> (if j = ?k then {r} else {})" by blast
  obtain d0 where d0: "?h rd = Some d0" using d ne(2) by (simp add: cut_rd_def)
  then have d2: "rds s2 rd = Some d0" using s2(5) ne(2) by (auto simp: linked_def)
  have no: "rd \<notin> set (Ls2 ! j)" if "j < 6" for j
    using s2(6,7) lists_disjoint [OF l i6 _ _ i(2), of 5] ne(2) that i(1) by (cases "j = 5") (auto simp: less_Suc_eq)
  let ?s = "s2\<lparr>rds := (rds s2)(rd \<mapsto> mark d0)\<rparr>"
  have r: "split_realdata junk s pool rd sz = Some (?s, rd, r)"
    using d p get_freelist_first [OF len] ff s2(1) sz(2) d2 rdN
    by (simp add: split_realdata_def rd_at_def upd_rd_run mark_def [symmetric])
  have M: "mp_lists pool (rds ?s) (heads p2) Ls2" "tiles pool (rds ?s) e (as1 @ rd # r # as2)"
    using mark_inv [OF d2 s2(4) no, of e "as1 @ rd # r # as2"] C(1) tiles_linked [OF s2(5)] by simp_all
  note V = mark_views [where h = "rds s2", OF d2]
  have "split_post (rds s) as Ls rd (unat sz) (rds ?s) (as1 @ rd # r # as2) Ls2 r"
  proof -
    have "rds ?s x = rds s x" if "x \<notin> set as" "x \<noteq> r" for x
    proof -
      have "x \<noteq> rn \<or> rn = NULL" "x \<noteq> a \<or> a = NULL" "x \<noteq> c \<or> c = NULL" "x \<noteq> rd" using that C(3) inas as rda by auto
      then have "?h x = rds s x" using that(2) by (auto simp: cut_rd_def option.map_ident)
      then show ?thesis using that s2(5) rda by (auto simp: linked_def)
    qed
    then show ?thesis
      unfolding split_post_def using V(3,5) linked_views(3,5) [OF s2(5)] C(2,6,8) s2(6,7) k ne szk(2) as
      by (auto simp: mark_def bcl_def)
  qed
  moreover have "?s = s\<lparr>pools := (pools s)(pool \<mapsto> p2), rds := rds ?s\<rparr>" using s2(2) by (cases s2; cases s) simp
  ultimately show ?thesis using r M s2(3) by blast
qed

end
