(* ===== verification/MempoolInv.thy ===== *)
theory MempoolInv
  imports MempoolSplit
begin

text \<open>
  The invariant of a pool: its blocks tile its memory, each block is on the free list of its size or on the
  busy list, and \<open>leftsize\<close> is the sum of the free blocks.  Taking a block with \<open>alloc_busy\<close> or
  \<open>alloc_first\<close> keeps it.
\<close>

section \<open>The invariant of a pool\<close>

definition free_blocks :: "ptr list list \<Rightarrow> ptr set" where
  "free_blocks Ls = (\<Union>j<5. set (Ls ! j))"

definition pool_ok :: "ptr \<Rightarrow> mempool \<Rightarrow> headers \<Rightarrow> ptr list \<Rightarrow> ptr list list \<Rightarrow> bool" where
  "pool_ok pool p h as Ls \<longleftrightarrow> pool \<noteq> NULL \<and> unat (pool_size p) \<le> 65536 \<and>
     tiles pool h (pool + unat (pool_size p)) as \<and> mp_lists pool h (heads p) Ls \<and>
     set as = free_blocks Ls \<union> set (Ls ! 5) \<and>
     (\<forall>x\<in>free_blocks Ls. st h x = 0) \<and> (\<forall>x\<in>set (Ls ! 5). st h x = 1) \<and>
     unat (leftsize p) = (\<Sum>x\<in>free_blocks Ls. bsz h x) \<and>
     (if Ls ! 5 = [] then as = [first_block pool] \<and> Ls = [[], [], [], [], [first_block pool], []]
      else \<forall>j<5. \<forall>x\<in>set (Ls ! j). bcl h x = j)"

lemma finite_free [simp]: "finite (free_blocks Ls)"
  by (simp add: free_blocks_def)

lemma free_blocksI: "j < 5 \<Longrightarrow> x \<in> set (Ls ! j) \<Longrightarrow> x \<in> free_blocks Ls"
  by (auto simp: free_blocks_def)

lemma pool_ok_mem: "pool_ok pool p h as Ls \<Longrightarrow> j < 6 \<Longrightarrow> x \<in> set (Ls ! j) \<Longrightarrow> x \<in> set as"
  using free_blocksI [of j x Ls] unfolding pool_ok_def by (cases "j = 5") auto

lemma free_not_busy: "mp_lists pool h hs Ls \<Longrightarrow> x \<in> free_blocks Ls \<Longrightarrow> x \<notin> set (Ls ! 5)"
  unfolding free_blocks_def using lists_disjoint [of pool h hs Ls _ 5 x] by fastforce

lemma split_post_free:
  assumes "split_post h as Ls rd n h1 as1 Ls1 rest"
  shows "free_blocks Ls1 = free_blocks Ls - {rd} \<union> (if rest \<noteq> NULL then {rest} else {})"
proof -
  have k: "bcl h1 rest < 5" by (simp add: bcl_def cls_lt)
  have "\<forall>j<5. set (Ls1 ! j) = set (Ls ! j) - {rd} \<union> (if rest \<noteq> NULL \<and> j = bcl h1 rest then {rest} else {})"
    using assms unfolding split_post_def by blast
  then have "free_blocks Ls1 = (\<Union>j<5. set (Ls ! j) - {rd} \<union> (if rest \<noteq> NULL \<and> j = bcl h1 rest then {rest} else {}))"
    unfolding free_blocks_def by simp
  also have "\<dots> = free_blocks Ls - {rd} \<union> (if rest \<noteq> NULL then {rest} else {})"
    unfolding free_blocks_def using k by (cases "rest = NULL") (auto split: if_splits)
  finally show ?thesis .
qed

text \<open>Allocating \<open>rd\<close>: the split, then the link in front of the busy list.\<close>

lemma alloc_core:
  assumes ok: "pool_ok pool p h as Ls" and i: "i < 5" "rd \<in> set (Ls ! i)"
    and sp: "split_post h as Ls rd n h1 as1 Ls1 rest"
    and t1: "tiles pool h1 (pool + unat (pool_size p)) as1" and l1: "mp_lists pool h1 (heads p1) Ls1"
    and p1: "pool_size p1 = pool_size p" "leftsize p1 = leftsize p" and d1: "h1 rd = Some d1"
    and p': "p' = p1\<lparr>busylist := rd, leftsize := leftsize p1 - ucast (rd_size d1)\<rparr>"
  defines "h2 \<equiv> push_rd h1 rd d1 (busylist p1)" and "Ls2 \<equiv> Ls1[5 := rd # Ls1 ! 5]"
  shows "pool_ok pool p' h2 as1 Ls2" and "linked (set (rd # Ls ! 5)) h1 h2" and "set (Ls2 ! 5) = insert rd (set (Ls ! 5))"
proof -
  have S: "rest = NULL \<and> as1 = as \<or> rest \<noteq> NULL \<and> rest \<notin> set as \<and> set as1 = insert rest (set as)" "Ls1 ! 5 = Ls ! 5"
      "\<forall>j<5. set (Ls1 ! j) = set (Ls ! j) - {rd} \<union> (if rest \<noteq> NULL \<and> j = bcl h1 rest then {rest} else {})"
      "\<forall>x. st h1 x = (if x = rd then 1 else if rest \<noteq> NULL \<and> x = rest then 0 else st h x)"
      "\<forall>x. x \<noteq> rd \<and> (rest = NULL \<or> x \<noteq> rest) \<longrightarrow> bsz h1 x = bsz h x"
      "bsz h1 rd + (if rest = NULL then 0 else bsz h1 rest) = bsz h rd"
    using sp by (auto simp: split_post_def)
  note K = ok [unfolded pool_ok_def]
  have rda: "rd \<in> set as" by (rule pool_ok_mem [OF ok _ i(2)]) (use i in simp)
  have rdf: "rd \<in> free_blocks Ls" by (rule free_blocksI [OF i])
  have l: "mp_lists pool h (heads p) Ls" using K by blast
  note F1 = split_post_free [OF sp]
  have rdb: "rd \<notin> set (Ls ! 5)" by (rule free_not_busy [OF l rdf])
  have rr: "rest \<noteq> NULL \<Longrightarrow> rest \<noteq> rd \<and> rest \<notin> set as" using S(1) rda by auto
  have rd1: "rd \<notin> free_blocks Ls1" using F1 rr by auto
  have no: "rd \<notin> set (Ls1 ! j)" if "j < 6" for j
    using rd1 rdb S(2) that by (cases "j = 5") (auto simp: free_blocks_def less_Suc_eq)
  have rda1: "rd \<in> set as1" using rda S(1) by auto
  have mem1: "x \<in> set as1" if "j < 6" "x \<in> set (Ls1 ! j)" for j x
  proof (cases "j = 5")
    case True
    then show ?thesis using that S(1,2) pool_ok_mem [OF ok, of 5 x] by auto
  next
    case False
    then have "x \<in> free_blocks Ls1" using that by (intro free_blocksI [of j]) auto
    then show ?thesis using F1 K S(1) by (auto split: if_splits)
  qed
  note len = lists_length [OF l1]
  have lL1: "length Ls1 = 6" using l1 by (simp add: mp_lists_def)
  have bh: "heads p1 ! 5 = busylist p1" by (rule heads_free(3) [OF len])
  have P: "mp_lists pool h2 ((heads p1)[5 := rd]) Ls2" "linked (insert rd (set (Ls1 ! 5))) h1 h2"
    using push_rd_lists [where i = 5, OF l1 _ d1 tilesD(1) [OF t1 rda1] no tilesD(1) [OF t1 mem1 [of 5]]]
    by (simp_all add: h2_def Ls2_def bh)
  show lk: "linked (set (rd # Ls ! 5)) h1 h2" using P(2) S(2) by simp
  show b2: "set (Ls2 ! 5) = insert rd (set (Ls ! 5))" using lL1 S(2) by (simp add: Ls2_def)
  have f2: "free_blocks Ls2 = free_blocks Ls1" by (simp add: free_blocks_def Ls2_def)
  have hd: "heads p' = (heads p1)[5 := rd]" unfolding p' heads_def using len by (simp add: list_update_append)
  note V = linked_views [OF lk]
  have sum: "(\<Sum>x\<in>free_blocks Ls1. bsz h1 x) + bsz h1 rd = (\<Sum>x\<in>free_blocks Ls. bsz h x)"
  proof -
    have "(\<Sum>x\<in>free_blocks Ls - {rd}. bsz h1 x) = (\<Sum>x\<in>free_blocks Ls - {rd}. bsz h x)"
      using S(5) rr K by (intro sum.cong) auto
    moreover have "(\<Sum>x\<in>free_blocks Ls. bsz h x) = bsz h rd + (\<Sum>x\<in>free_blocks Ls - {rd}. bsz h x)"
      by (rule sum.remove) (use rdf in auto)
    moreover have "rest \<noteq> NULL \<Longrightarrow> rest \<notin> free_blocks Ls - {rd}" using rr K by auto
    ultimately show ?thesis unfolding F1 using S(6) by (cases "rest = NULL") (auto simp: sum.insert)
  qed
  have "unat (leftsize p') = (\<Sum>x\<in>free_blocks Ls2. bsz h2 x)"
  proof -
    have b: "bsz h1 rd = unat (rd_size d1)" using d1 by (simp add: bsz_def)
    have u: "unat (ucast (rd_size d1) :: u24) = unat (rd_size d1)"
      using unat_u16 [of "rd_size d1"] by (simp add: unsigned_ucast_eq take_bit_nat_eq_self)
    have "unat (leftsize p) = (\<Sum>x\<in>free_blocks Ls1. bsz h1 x) + unat (rd_size d1)" using K sum b by simp
    then have "unat (leftsize p - ucast (rd_size d1)) = (\<Sum>x\<in>free_blocks Ls1. bsz h1 x)"
      using u by (simp add: unat_sub word_le_nat_alt)
    then show ?thesis using p1 p' f2 V(3) by simp
  qed
  moreover have "\<forall>j<5. \<forall>x\<in>set (Ls2 ! j). bcl h2 x = j"
  proof (intro allI impI ballI)
    fix j x assume j: "j < 5" "x \<in> set (Ls2 ! j)"
    then have x: "x \<in> set (Ls ! j) - {rd} \<union> (if rest \<noteq> NULL \<and> j = bcl h1 rest then {rest} else {})"
      using S(3) by (simp add: Ls2_def)
    have "bcl h2 x = bcl h1 x" by (simp add: bcl_def V(3))
    moreover have "bcl h1 x = j" if "x \<in> set (Ls ! j) - {rd}"
    proof (cases "Ls ! 5 = []")
      case True
      then have "Ls = [[], [], [], [], [first_block pool], []]" using K by simp
      then show ?thesis using that i j(1) by (auto simp: less_Suc_eq numeral_eq_Suc)
    next
      case False
      then have "bcl h x = j" using K that j(1) by simp
      moreover have "rest = NULL \<or> x \<noteq> rest" using that rr K j(1) free_blocksI by blast
      ultimately show ?thesis using S(5) that by (simp add: bcl_def)
    qed
    ultimately show "bcl h2 x = j" using x by (auto split: if_splits)
  qed
  moreover have "Ls2 ! 5 \<noteq> []" using lL1 by (simp add: Ls2_def)
  moreover have "set as1 = free_blocks Ls2 \<union> set (Ls2 ! 5)"
    unfolding f2 b2 F1 using S(1) K rdf by auto
  moreover have "\<forall>x\<in>free_blocks Ls2. st h2 x = 0"
    unfolding f2 V(5) using F1 S(4) K rd1 by (auto split: if_splits)
  moreover have "\<forall>x\<in>set (Ls2 ! 5). st h2 x = 1"
    unfolding b2 V(5) using S(4) K rr by (auto split: if_splits)
  moreover have "tiles pool h2 (pool + unat (pool_size p')) as1" using t1 tiles_linked [OF lk] p1 p' by simp
  ultimately show "pool_ok pool p' h2 as1 Ls2"
    unfolding pool_ok_def using K P(1) hd p1 p' by simp
qed

lemma list_head:
  assumes "mp_lists pool h (heads p) Ls" and "j < 5"
  shows "freelist p ! j = (case Ls ! j of [] \<Rightarrow> NULL | x # _ \<Rightarrow> x)"
proof -
  have "j < 6" using assms(2) by simp
  from lists_chain [OF assms(1) this] show ?thesis
    using heads_free(1) [OF lists_length [OF assms(1)] assms(2)] by (cases "Ls ! j") auto
qed

lemma busy_head:
  assumes "mp_lists pool h (heads p) Ls"
  shows "busylist p = (case Ls ! 5 of [] \<Rightarrow> NULL | x # _ \<Rightarrow> x)"
  using lists_chain [OF assms, of 5] heads_free(3) [OF lists_length [OF assms]] by (cases "Ls ! 5") auto

lemma fresh_nth: "i < 5 \<Longrightarrow> [[], [], [], [], [a], []] ! i = (if i = 4 then [a] else [])"
  by (auto simp: less_Suc_eq numeral_eq_Suc)

text \<open>In a pool that satisfies the invariant, the list found for the size of a free block is the one it is in.\<close>

lemma first_free_own:
  assumes ok: "pool_ok pool p h as Ls" and i: "i < 5" "rd \<in> set (Ls ! i)" and d: "h rd = Some d"
  shows "first_free p (cls (ucast (rd_size d))) = (freelist p ! i, int i)"
proof (rule first_free_at)
  have l: "mp_lists pool h (heads p) Ls" using ok by (simp add: pool_ok_def)
  have i6: "i < 6" using i(1) by simp
  show "i < 5" by (rule i)
  have "rd \<noteq> NULL" "Ls ! i \<noteq> []" using dchain_nodes [OF lists_chain [OF l i6] i(2)] i(2) by auto
  moreover have "x \<noteq> NULL" if "x \<in> set (Ls ! i)" for x using dchain_nodes [OF lists_chain [OF l i6] that] by simp
  ultimately show "freelist p ! i \<noteq> NULL" using list_head [OF l i(1)] by (cases "Ls ! i") auto
  have k: "cls (ucast (rd_size d)) = bcl h rd" by (rule bcl_rd [where h = h and x = rd, OF d])
  have kl: "bcl h rd < 5" by (simp add: bcl_def cls_lt)
  show "cls (ucast (rd_size d)) \<le> i"
  proof (cases "Ls ! 5 = []")
    case True
    then have "Ls = [[], [], [], [], [first_block pool], []]" using ok by (simp add: pool_ok_def)
    then have "i = 4" using fresh_nth [OF i(1), of "first_block pool"] i(2) by (auto split: if_splits)
    then show ?thesis using k kl by simp
  next
    case False
    then show ?thesis using ok i k by (simp add: pool_ok_def)
  qed
  show "freelist p ! j = NULL" if "cls (ucast (rd_size d)) \<le> j" "j < i" for j
  proof (cases "Ls ! 5 = []")
    case True
    then have "Ls = [[], [], [], [], [first_block pool], []]" using ok by (simp add: pool_ok_def)
    then have "Ls ! j = []" using that(2) i(1) fresh_nth [of j "first_block pool"] by simp
    then show ?thesis using list_head [OF l, of j] that(2) i(1) by simp
  next
    case False
    then show ?thesis using ok i k that by (simp add: pool_ok_def)
  qed
qed

definition same_conf :: "mempool \<Rightarrow> mempool \<Rightarrow> bool" where
  "same_conf p p' \<longleftrightarrow> p'\<lparr>freelist := [], busylist := NULL, leftsize := 0, failed := 0, total_leftsize := 0\<rparr> =
     p\<lparr>freelist := [], busylist := NULL, leftsize := 0, failed := 0, total_leftsize := 0\<rparr>"

lemma same_confD:
  assumes "same_conf p p'"
  shows "pool_size p' = pool_size p" "p_next p' = p_next p" "p_prev p' = p_prev p"
  using arg_cong [OF assms [unfolded same_conf_def], of pool_size] arg_cong [OF assms [unfolded same_conf_def], of p_next]
    arg_cong [OF assms [unfolded same_conf_def], of p_prev] by simp_all

definition alloc_post :: "mpmem \<Rightarrow> ptr \<Rightarrow> mempool \<Rightarrow> ptr list \<Rightarrow> ptr list list \<Rightarrow> nat \<Rightarrow> ptr \<Rightarrow> mpmem \<Rightarrow> mempool \<Rightarrow> ptr list \<Rightarrow> ptr list list \<Rightarrow> bool" where
  "alloc_post s pool p as Ls n rd s' p' as' Ls' \<longleftrightarrow>
     s' = s\<lparr>pools := (pools s)(pool \<mapsto> p'), rds := rds s'\<rparr> \<and> same_conf p p' \<and> pool_ok pool p' (rds s') as' Ls' \<and>
     rd \<notin> set (Ls ! 5) \<and> set (Ls' ! 5) = insert rd (set (Ls ! 5)) \<and> n \<le> bsz (rds s') rd \<and>
     (\<forall>x\<in>set (Ls ! 5). bsz (rds s') x = bsz (rds s) x) \<and> (\<forall>x. x \<notin> set as' \<longrightarrow> rds s' x = rds s x)"

lemma split_ok:
  assumes p: "pool_at s pool = Some p" and ok: "pool_ok pool p (rds s) as Ls" and i: "i < 5" "rd \<in> set (Ls ! i)"
    and sz: "sizeof_realdata \<le> unat sz" "unat sz \<le> bsz (rds s) rd"
  shows "\<exists>s' p' Ls' as' rest. split_realdata junk s pool rd sz = Some (s', rd, rest) \<and>
    s' = s\<lparr>pools := (pools s)(pool \<mapsto> p'), rds := rds s'\<rparr> \<and> (\<exists>fl. p' = p\<lparr>freelist := fl\<rparr>) \<and>
    mp_lists pool (rds s') (heads p') Ls' \<and> tiles pool (rds s') (pool + unat (pool_size p)) as' \<and>
    split_post (rds s) as Ls rd (unat sz) (rds s') as' Ls' rest"
proof -
  have K: "mp_lists pool (rds s) (heads p) Ls" "tiles pool (rds s) (pool + unat (pool_size p)) as" "unat (pool_size p) \<le> 65536"
    using ok by (simp_all add: pool_ok_def)
  have rda: "rd \<in> set as" by (rule pool_ok_mem [OF ok _ i(2)]) (use i in simp)
  then obtain d where d: "rds s rd = Some d" using tilesD(1) [OF K(2)] by (auto simp: placed_def)
  note ff = first_free_own [OF ok i d]
  have mem: "x \<in> set as" if "j < 6" "x \<in> set (Ls ! j)" for j x by (rule pool_ok_mem [OF ok that])
  show ?thesis
  proof (cases "ucast (rd_size d) - sz < (30 :: u32)")
    case True
    have "\<exists>s' p' Ls'. split_realdata junk s pool rd sz = Some (s', rd, NULL) \<and>
      s' = s\<lparr>pools := (pools s)(pool \<mapsto> p'), rds := rds s'\<rparr> \<and> (\<exists>fl. p' = p\<lparr>freelist := fl\<rparr>) \<and>
      mp_lists pool (rds s') (heads p') Ls' \<and> tiles pool (rds s') (pool + unat (pool_size p)) as \<and>
      split_post (rds s) as Ls rd (unat sz) (rds s') as Ls' NULL"
      by (rule split_run_whole [OF p K(1,2) _ i d ff sz(2) True]) (rule mem)
    then show ?thesis by blast
  next
    case False
    show ?thesis by (rule split_run_cut [OF p K(1,2) refl K(3) _ i d ff sz(2) False sz(1)]) (rule mem)
  qed
qed

lemma split_postD:
  assumes "split_post h as Ls rd n h' as' Ls' rest"
  shows "Ls' ! 5 = Ls ! 5" "n \<le> bsz h' rd" "\<exists>d. h' rd = Some d \<and> rd_next d = MEMPOOL_NULL \<and> rd_prev d = MEMPOOL_NULL"
    "x \<noteq> rd \<Longrightarrow> x \<in> set as \<Longrightarrow> bsz h' x = bsz h x" "x \<notin> set as' \<Longrightarrow> h' x = h x" "set as \<subseteq> set as'"
  using assms unfolding split_post_def by auto

lemma alloc_post_core:
  assumes p: "pool_at s pool = Some p" and ok: "pool_ok pool p (rds s) as Ls" and i: "i < 5" "rd \<in> set (Ls ! i)"
    and s1: "s1 = s\<lparr>pools := (pools s)(pool \<mapsto> p1), rds := rds s1\<rparr>" "same_conf p p1" "leftsize p1 = leftsize p"
    and sp: "split_post (rds s) as Ls rd n (rds s1) as1 Ls1 rest"
    and t1: "tiles pool (rds s1) (pool + unat (pool_size p)) as1" and l1: "mp_lists pool (rds s1) (heads p1) Ls1"
    and d1: "rds s1 rd = Some d1"
  shows "\<exists>s2 p2. alloc_finish (s1\<lparr>rds := push_rd (rds s1) rd d1 (busylist p1)\<rparr>) pool rd = Some s2 \<and>
    alloc_post s pool p as Ls n rd s2 p2 as1 (Ls1[5 := rd # Ls1 ! 5])"
proof -
  define p2 where "p2 = p1\<lparr>busylist := rd, leftsize := leftsize p1 - ucast (rd_size d1)\<rparr>"
  define s2 where "s2 = s1\<lparr>pools := (pools s1)(pool \<mapsto> p2), rds := push_rd (rds s1) rd d1 (busylist p1)\<rparr>"
  have ps: "pool_size p1 = pool_size p" by (rule same_confD [OF s1(2)])
  note A = alloc_core [where h = "rds s", OF ok i sp t1 l1 ps s1(3) d1 p2_def]
  have l: "mp_lists pool (rds s) (heads p) Ls" using ok by (simp add: pool_ok_def)
  have rdb: "rd \<notin> set (Ls ! 5)" by (rule free_not_busy [OF l free_blocksI [OF i]])
  have "rd \<in> set as" by (rule pool_ok_mem [OF ok _ i(2)]) (use i in simp)
  then have rdN: "rd \<noteq> NULL" using split_postD(6) [OF sp] tilesD(1) [OF t1, of rd] by (auto simp: placed_def)
  have ps1: "pools s1 = (pools s)(pool \<mapsto> p1)" by (subst s1(1)) simp
  have "pools s1 pool = Some p1" "pool \<noteq> NULL" using p unfolding ps1 by (auto simp: pool_at_def split: if_splits)
  moreover obtain d2 where "push_rd (rds s1) rd d1 (busylist p1) rd = Some d2" "rd_size d2 = rd_size d1"
    by (rule linked_cases [OF A(2), of rd]) (use d1 in simp_all)
  ultimately have "alloc_finish (s1\<lparr>rds := push_rd (rds s1) rd d1 (busylist p1)\<rparr>) pool rd = Some s2"
    using rdN by (auto simp: alloc_finish_def rd_at_def upd_pool_def pool_at_def s2_def p2_def)
  moreover have "alloc_post s pool p as Ls n rd s2 p2 as1 (Ls1[5 := rd # Ls1 ! 5])"
  proof -
    have "s2 = s\<lparr>pools := (pools s)(pool \<mapsto> p2), rds := rds s2\<rparr>"
      using s1(1) by (cases s1; cases s) (simp add: s2_def)
    moreover have "same_conf p p2" using s1(2) by (simp add: same_conf_def p2_def)
    moreover have "rds s2 x = rds s x" if "x \<notin> set as1" for x
    proof -
      have "x \<notin> set (rd # Ls ! 5)" using that split_postD(6) [OF sp] pool_ok_mem [OF ok, of 5 x] pool_ok_mem [OF ok, of i rd] i by auto
      then show ?thesis using A(2) split_postD(5) [OF sp that] by (simp add: s2_def linked_def)
    qed
    moreover have "bsz (rds s2) x = bsz (rds s) x" if "x \<in> set (Ls ! 5)" for x
    proof -
      have "x \<noteq> rd" "x \<in> set as" using that rdb pool_ok_mem [OF ok, of 5 x] by auto
      then show ?thesis using linked_views(3) [OF A(2)] split_postD(4) [OF sp] by (simp add: s2_def)
    qed
    ultimately show ?thesis
      unfolding alloc_post_def using A(1,3) rdb split_postD(2) [OF sp] linked_views(3) [OF A(2)] by (simp add: s2_def)
  qed
  ultimately show ?thesis by blast
qed

lemma push_rd_id:
  assumes "h u = Some d" and "rd_next d = MEMPOOL_NULL" and "rd_prev d = MEMPOOL_NULL"
  shows "push_rd h u d NULL = h"
proof -
  have "d\<lparr>rd_next := MEMPOOL_NULL, rd_prev := MEMPOOL_NULL\<rparr> = d" using assms(2,3) by (cases d) simp
  then show ?thesis using assms(1) by (auto simp: push_rd_def)
qed

lemma alloc_busy_ok:
  assumes p: "pool_at s pool = Some p" and ok: "pool_ok pool p (rds s) as Ls" and i: "i < 5" "rd \<in> set (Ls ! i)"
    and sz: "sizeof_realdata \<le> unat sz" "unat sz \<le> bsz (rds s) rd" and b: "Ls ! 5 \<noteq> []"
  shows "\<exists>s1 s2 p2 as2 Ls2. alloc_busy junk s pool rd sz = Some (s1, rd) \<and> alloc_finish s1 pool rd = Some s2 \<and>
    alloc_post s pool p as Ls (unat sz) rd s2 p2 as2 Ls2"
proof -
  let ?p = "p\<lparr>failed := 0\<rparr>"
  let ?s = "s\<lparr>pools := (pools s)(pool \<mapsto> ?p)\<rparr>"
  have hp: "heads ?p = heads p" by (simp add: heads_def)
  have ok0: "pool_ok pool ?p (rds ?s) as Ls" using ok by (simp add: pool_ok_def hp)
  have p0: "pool_at ?s pool = Some ?p" using p by (auto simp: pool_at_def split: if_splits)
  have u: "upd_pool s pool (\<lambda>p. p\<lparr>failed := 0\<rparr>) = Some ?s" using p by (simp add: upd_pool_def)
  have sz0: "unat sz \<le> bsz (rds ?s) rd" using sz(2) by simp
  obtain s1 p1 Ls1 as1 rest fl where s1: "split_realdata junk ?s pool rd sz = Some (s1, rd, rest)"
      "s1 = ?s\<lparr>pools := (pools ?s)(pool \<mapsto> p1), rds := rds s1\<rparr>" "p1 = ?p\<lparr>freelist := fl\<rparr>"
      "mp_lists pool (rds s1) (heads p1) Ls1" "tiles pool (rds s1) (pool + unat (pool_size ?p)) as1"
      "split_post (rds ?s) as Ls rd (unat sz) (rds s1) as1 Ls1 rest"
    using split_ok [OF p0 ok0 i sz(1) sz0, of junk] by blast
  note sp = s1(6)
  obtain d1 where d1: "rds s1 rd = Some d1" "rd_next d1 = MEMPOOL_NULL" "rd_prev d1 = MEMPOOL_NULL"
    using split_postD(3) [OF sp] by blast
  have e1: "s1 = s\<lparr>pools := (pools s)(pool \<mapsto> p1), rds := rds s1\<rparr>" using s1(2) by (cases s1; cases s) simp
  have ps1: "pools s1 = (pools s)(pool \<mapsto> p1)" by (subst e1) simp
  have c1: "same_conf p p1" "leftsize p1 = leftsize p" using s1(3) by (simp_all add: same_conf_def)
  have t1: "tiles pool (rds s1) (pool + unat (pool_size p)) as1" using s1(5) by simp
  have sp': "split_post (rds s) as Ls rd (unat sz) (rds s1) as1 Ls1 rest" using sp by simp
  from alloc_post_core [OF p ok i e1 c1 sp' t1 s1(4) d1(1)] obtain s2 p2 where
    s2: "alloc_finish (s1\<lparr>rds := push_rd (rds s1) rd d1 (busylist p1)\<rparr>) pool rd = Some s2"
      "alloc_post s pool p as Ls (unat sz) rd s2 p2 as1 (Ls1[5 := rd # Ls1 ! 5])" by blast
  have l: "mp_lists pool (rds s) (heads p) Ls" using ok by (simp add: pool_ok_def)
  have rdb: "rd \<notin> set (Ls ! 5)" by (rule free_not_busy [OF l free_blocksI [OF i]])
  obtain y ys where y: "Ls1 ! 5 = y # ys" using b split_postD(1) [OF sp] by (cases "Ls ! 5") auto
  have yb: "busylist p1 = y" using busy_head [OF s1(4)] y by simp
  have yN: "y \<noteq> NULL" "\<exists>db. rds s1 y = Some db"
    using dchain_nodes [OF lists_chain [OF s1(4), of 5], of y] y by (auto simp: fnx_def)
  then obtain db where db: "rds s1 y = Some db" by blast
  have yr: "y \<noteq> rd" using rdb y split_postD(1) [OF sp] by auto
  have rdN: "rd \<noteq> NULL" using split_postD(6) [OF sp] tilesD(1) [OF t1, of rd] pool_ok_mem [OF ok, of i rd] i by (auto simp: placed_def)
  have "alloc_busy junk s pool rd sz = Some (s1\<lparr>rds := push_rd (rds s1) rd d1 (busylist p1)\<rparr>, rd)"
  proof -
    have "pool_at s1 pool = Some p1" using p ps1 by (auto simp: pool_at_def split: if_splits)
    moreover have "d1\<lparr>rd_next := x\<rparr> = d1\<lparr>rd_next := x, rd_prev := MEMPOOL_NULL\<rparr>" for x using d1(3) by (cases d1) simp
    ultimately show ?thesis
      unfolding alloc_busy_def u using s1(1) yb yN(1) db d1(1) yr rdN
      by (simp add: rd_at_def upd_rd_run push_rd_def Let_def)
  qed
  then show ?thesis using s2 by blast
qed

lemma set_freelist_id:
  assumes "pool_at s pool = Some p" and "i < length (freelist p)" and "freelist p ! i = x"
  shows "set_freelist s pool (int i) x = Some s"
proof -
  have "(freelist p)[i := x] = freelist p" using assms(3) by auto
  moreover have "s\<lparr>pools := (pools s)(pool \<mapsto> p)\<rparr> = s"
    using assms(1) by (auto simp: pool_at_def fun_upd_idem split: if_splits)
  ultimately show ?thesis using assms(1,2) by (simp add: set_freelist_def upd_pool_def)
qed

lemma fresh_pool:
  assumes ok: "pool_ok pool p h as Ls" and b: "Ls ! 5 = []"
  shows "Ls = [[], [], [], [], [first_block pool], []]" "as = [first_block pool]" "first_block pool \<in> set (Ls ! 4)"
    "freelist p ! 4 = first_block pool" "bsz h (first_block pool) = unat (leftsize p)"
proof -
  show L: "Ls = [[], [], [], [], [first_block pool], []]" "as = [first_block pool]" using ok b by (simp_all add: pool_ok_def)
  show L4: "first_block pool \<in> set (Ls ! 4)" using L by simp
  have l: "mp_lists pool h (heads p) Ls" using ok by (simp add: pool_ok_def)
  have "Ls ! 4 = [first_block pool]" using L by simp
  then show "freelist p ! 4 = first_block pool" using list_head [OF l, of 4] by simp
  have "free_blocks Ls = {first_block pool}" using L(2) ok b by (simp add: pool_ok_def)
  then show "bsz h (first_block pool) = unat (leftsize p)" using ok by (simp add: pool_ok_def)
qed

lemma alloc_first_ok:
  assumes p: "pool_at s pool = Some p" and ok: "pool_ok pool p (rds s) as Ls" and b: "Ls ! 5 = []"
    and sz: "sizeof_realdata \<le> unat sz" "unat sz \<le> unat (leftsize p)"
  shows "\<exists>s1 s2 p2 as2 Ls2. alloc_first junk s pool sz = Some (s1, first_block pool) \<and>
    alloc_finish s1 pool (first_block pool) = Some s2 \<and> alloc_post s pool p as Ls (unat sz) (first_block pool) s2 p2 as2 Ls2"
proof -
  let ?rd = "first_block pool"
  note F = fresh_pool [OF ok b]
  have i: "4 < (5 :: nat)" by simp
  have szb: "unat sz \<le> bsz (rds s) ?rd" using F(5) sz(2) by simp
  obtain s1 p1 Ls1 as1 rest fl where s1: "split_realdata junk s pool ?rd sz = Some (s1, ?rd, rest)"
      "s1 = s\<lparr>pools := (pools s)(pool \<mapsto> p1), rds := rds s1\<rparr>" "p1 = p\<lparr>freelist := fl\<rparr>"
      "mp_lists pool (rds s1) (heads p1) Ls1" "tiles pool (rds s1) (pool + unat (pool_size p)) as1"
      "split_post (rds s) as Ls ?rd (unat sz) (rds s1) as1 Ls1 rest"
    using split_ok [OF p ok i F(3) sz(1) szb, of junk] by blast
  note sp = s1(6)
  obtain d1 where d1: "rds s1 ?rd = Some d1" "rd_next d1 = MEMPOOL_NULL" "rd_prev d1 = MEMPOOL_NULL"
    using split_postD(3) [OF sp] by blast
  have c1: "same_conf p p1" "leftsize p1 = leftsize p" using s1(3) by (simp_all add: same_conf_def)
  have ps1: "pools s1 = (pools s)(pool \<mapsto> p1)" by (subst s1(2)) simp
  have p1: "pool_at s1 pool = Some p1" using p ps1 by (auto simp: pool_at_def split: if_splits)
  note len1 = lists_length [OF s1(4)]
  have "Ls1 ! 5 = []" using split_postD(1) [OF sp] b by simp
  then have bl: "busylist p1 = NULL" using busy_head [OF s1(4)] by simp
  have sets: "set (Ls1 ! j) = (if rest \<noteq> NULL \<and> j = bcl (rds s1) rest then {rest} else {})" if "j < 5" for j
  proof -
    have "set (Ls ! j) - {?rd} = {}" using F(1) fresh_nth [OF that, of ?rd] by (auto split: if_splits)
    then show ?thesis using sp that unfolding split_post_def by blast
  qed
  have hd: "freelist p1 ! j = (if rest \<noteq> NULL \<and> j = bcl (rds s1) rest then rest else NULL)" if "j < 5" for j
    using list_head [OF s1(4) that] sets [OF that] by (cases "Ls1 ! j") (auto split: if_splits)
  have "alloc_first junk s pool sz = Some (s1, ?rd)"
  proof (cases "rest = NULL")
    case True
    then have "set_freelist s1 pool 4 NULL = Some s1" using set_freelist_id [OF p1, of 4] len1 hd [of 4] by simp
    then show ?thesis using p s1(1) F(4) lists_length [of pool "rds s" p Ls] ok True
      by (simp add: alloc_first_def MEMPOOL_FREELIST_SIZE_def pool_ok_def)
  next
    case False
    have ra: "rest \<in> set as1" using sp False by (simp add: split_post_def)
    then obtain a where a: "rds s1 rest = Some a" using tilesD(1) [OF s1(5)] by (auto simp: placed_def)
    have k: "get_freeidx (ucast (rd_size a)) = int (bcl (rds s1) rest)" "bcl (rds s1) rest < 5"
      using bcl_rd [where h = "rds s1" and x = rest, OF a] cls_lt by (simp_all add: bcl_def)
    have "set_freelist s1 pool (int (bcl (rds s1) rest)) rest = Some s1"
      by (rule set_freelist_id [OF p1]) (use len1 hd k(2) False in simp_all)
    moreover have "bcl (rds s1) rest \<noteq> 4 \<Longrightarrow> set_freelist s1 pool 4 NULL = Some s1"
      using set_freelist_id [OF p1, of 4] len1 hd [of 4] by simp
    ultimately show ?thesis using p s1(1) F(4) lists_length [of pool "rds s" p Ls] ok False a k
      by (auto simp: alloc_first_def MEMPOOL_FREELIST_SIZE_def pool_ok_def rd_at_def)
  qed
  moreover have "s1\<lparr>rds := push_rd (rds s1) ?rd d1 (busylist p1)\<rparr> = s1"
    using push_rd_id [where h = "rds s1", OF d1] bl by simp
  ultimately show ?thesis
    using alloc_post_core [OF p ok i F(3) s1(2) c1 sp s1(5) s1(4) d1(1)] by auto
qed

end
