(* ===== verification/MempoolScan.thy ===== *)
theory MempoolScan
  imports MempoolInv
begin

text \<open>
  \<open>__get_availdata\<close> returns a free block that is large enough, or none.  A block leaves the busy list, and
  \<open>__init_mempool\<close> gives a pool of one free block.
\<close>

section \<open>Searching a pool\<close>

lemma avail_scan_in:
  assumes "chain (fnx pool (rds s)) tmp ps" and "set ps \<subseteq> X" and "ava \<in> X" and "\<And>x. x \<in> X \<Longrightarrow> x \<noteq> NULL \<and> rds s x \<noteq> None"
  shows "\<exists>a\<in>X. avail_scan s pool sz tmp ava n = Some a"
  using assms(1-3)
proof (induction ps arbitrary: tmp ava n)
  case Nil
  then show ?case by (simp add: avail_scan.simps)
next
  case (Cons x ps)
  then have x: "tmp = x" "x \<in> X" by auto
  then obtain d a where d: "rd_at s x = Some d" "rd_at s ava = Some a"
    using assms(4) [of x] assms(4) [OF Cons.prems(3)] by (auto simp: rd_at_def)
  have q: "chain (fnx pool (rds s)) (mempool_get_realdata pool (rd_next d)) ps"
    using Cons.prems(1) d(1) by (auto simp: fnx_Some rd_at_def split: if_splits)
  let ?ava = "if ucast (rd_size d) \<ge> sz \<and> rd_size a > rd_size d then x else ava"
  have "?ava \<in> X" using x Cons.prems(3) by simp
  then have "\<exists>b\<in>X. avail_scan s pool sz (mempool_get_realdata pool (rd_next d)) ?ava (n + 1) = Some b"
    using Cons.IH [OF q] Cons.prems(2) by simp
  then show ?case
    using x d assms(4) [OF x(2)] Cons.prems(3) by (auto simp: avail_scan.simps [of s pool sz x ava n])
qed

lemma next_freelist_run:
  assumes "length (freelist p) = 5" and "i < 4"
  shows "\<exists>j. i < j \<and> j \<le> 4 \<and> next_freelist p (int i) = Some (freelist p ! j, int j)"
  using assms(2)
proof (induction "4 - i" arbitrary: i)
  case (Suc n)
  have n: "nat (int i + 1) = Suc i" by simp
  show ?case
  proof (cases "freelist p ! Suc i \<noteq> NULL \<or> Suc i = 4")
    case True
    then show ?thesis using Suc.prems assms(1) n by (intro exI [of _ "Suc i"]) (auto simp: next_freelist.simps [of p "int i"])
  next
    case False
    then have lt: "Suc i < 4" using Suc.prems by simp
    have "next_freelist p (int i) = next_freelist p (int (Suc i))"
      using Suc.prems False lt assms(1) n by (subst next_freelist.simps) (simp add: add.commute)
    then show ?thesis using Suc.hyps(1) [of "Suc i"] Suc.hyps(2) lt by (metis Suc_lessD diff_Suc_Suc diff_diff_left less_imp_le_nat nat.inject plus_1_eq_Suc add.commute Suc_diff_Suc)
  qed
qed simp

lemma avail_from_ok:
  assumes p: "pool_at s pool = Some p" and l: "mp_lists pool (rds s) (heads p) Ls"
  shows "i < 5 \<Longrightarrow> freelist p ! i \<noteq> NULL \<Longrightarrow> \<exists>a. get_availdata_from s pool sz (freelist p ! i) (int i) = Some a \<and>
    (a = NULL \<or> (\<exists>j<5. a \<in> set (Ls ! j) \<and> unat sz \<le> bsz (rds s) a))"
proof (induction "4 - i" arbitrary: i rule: less_induct)
  case less
  note len = lists_length [OF l]
  have i6: "i < 6" using less.prems by simp
  have ch: "dchain (fnx pool (rds s)) (fpv pool (rds s)) NULL (freelist p ! i) (Ls ! i)"
    using lists_chain [OF l i6] heads_free(1) [OF len less.prems(1)] by simp
  have hd: "freelist p ! i \<in> set (Ls ! i)" using list_head [OF l less.prems(1)] less.prems(2) by (cases "Ls ! i") auto
  have X: "x \<noteq> NULL \<and> rds s x \<noteq> None" if "x \<in> set (Ls ! i)" for x
    using dchain_nodes [OF ch that] by (auto simp: fnx_def)
  obtain a where a: "a \<in> set (Ls ! i)" "avail_scan s pool sz (freelist p ! i) (freelist p ! i) 0 = Some a"
    using avail_scan_in [OF dchain_chain [OF ch] subset_refl hd X] by blast
  obtain d where d: "rds s a = Some d" "a \<noteq> NULL" using X [OF a(1)] by auto
  show ?case
  proof (cases "ucast (rd_size d) \<ge> sz")
    case True
    then have "unat sz \<le> bsz (rds s) a" using d by (simp add: bsz_def word_le_nat_alt)
    moreover have "get_availdata_from s pool sz (freelist p ! i) (int i) = Some a"
      using a(2) d True by (simp add: get_availdata_from.simps rd_at_def)
    ultimately show ?thesis using a(1) less.prems(1) by blast
  next
    case small: False
    show ?thesis
    proof (cases "i < 4")
      case False
      then have "get_availdata_from s pool sz (freelist p ! i) (int i) = Some NULL"
        using a(2) d small less.prems(1) by (simp add: get_availdata_from.simps rd_at_def)
      then show ?thesis by blast
    next
      case True
      obtain j where j: "i < j" "j \<le> 4" "next_freelist p (int i) = Some (freelist p ! j, int j)"
        using next_freelist_run [OF len True] by blast
      have "get_availdata_from s pool sz (freelist p ! i) (int i) =
          (if freelist p ! j \<noteq> NULL then get_availdata_from s pool sz (freelist p ! j) (int j) else Some NULL)"
        using a(2) d small True j(3) p by (subst get_availdata_from.simps) (simp add: rd_at_def)
      then show ?thesis using less.hyps [of j] j(1,2) by (cases "freelist p ! j = NULL") auto
    qed
  qed
qed

lemma get_availdata_ok:
  assumes p: "pool_at s pool = Some p" and l: "mp_lists pool (rds s) (heads p) Ls"
  shows "\<exists>a. get_availdata s pool sz = Some a \<and> (a = NULL \<or> (\<exists>j<5. a \<in> set (Ls ! j) \<and> unat sz \<le> bsz (rds s) a))"
proof -
  note len = lists_length [OF l]
  have g: "get_availdata s pool sz = (case first_free p (cls sz) of (tmp, i) \<Rightarrow> get_availdata_from s pool sz tmp i)"
    using p get_freelist_first [OF len, of sz] by (simp add: get_availdata_def split: prod.splits)
  show ?thesis
  proof (cases rule: first_free_cases [of p "cls sz"])
    case 1
    then show ?thesis unfolding g by (simp add: get_availdata_from.simps avail_scan.simps)
  next
    case (2 i)
    show ?thesis unfolding g 2(4) using avail_from_ok [OF p l 2(2,3)] by simp
  qed
qed

section \<open>Leaving the busy list\<close>

lemma unlink_busy_run:
  assumes p: "pool_at s pool = Some p" and l: "mp_lists pool (rds s) (heads p) Ls" and x: "Ls ! 5 = xs @ rd # ys"
    and d: "rds s rd = Some d"
  shows "\<exists>s' b. unlink_busy s pool rd = Some s' \<and>
    s' = s\<lparr>pools := (pools s)(pool \<mapsto> p\<lparr>busylist := b\<rparr>), rds := rds s'\<rparr> \<and>
    mp_lists pool (rds s') (heads (p\<lparr>busylist := b\<rparr>)) (Ls[5 := xs @ ys]) \<and> linked (set (xs @ rd # ys)) (rds s) (rds s') \<and>
    rds s' rd = Some (d\<lparr>rd_prev := MEMPOOL_NULL, rd_next := MEMPOOL_NULL\<rparr>)"
proof -
  note len = lists_length [OF l]
  have i6: "(5 :: nat) < 6" by simp
  note U = unlink_rd_lists [OF l i6 x d]
  define a where "a = mempool_get_realdata pool (rd_prev d)"
  define c where "c = mempool_get_realdata pool (rd_next d)"
  note V = U [folded a_def c_def]
  have ch: "dchain (fnx pool (rds s)) (fpv pool (rds s)) NULL (busylist p) (xs @ rd # ys)"
    using lists_chain [OF l i6] x heads_free(3) [OF len] by simp
  note N = dchain_nodes [OF ch] and D = dchain_distinct [OF ch]
  have at: "\<exists>t. rds s r = Some t" if "r \<in> set (xs @ rd # ys)" for r using N [OF that] by (auto simp: fnx_def)
  have rdN: "rd \<noteq> NULL" using N [of rd] by simp
  have an: "a = NULL \<longleftrightarrow> xs = []" using V(3) N [of "last xs"] by (cases xs rule: rev_cases) auto
  have ax: "a \<noteq> NULL \<Longrightarrow> rds s a \<noteq> None \<and> a \<noteq> c \<and> a \<noteq> rd"
    using V(3,4) an last_outside [OF D] at [of a] N [of "last xs"] by (cases "xs = []") auto
  have cx: "c \<noteq> NULL \<Longrightarrow> rds s c \<noteq> None \<and> c \<noteq> rd" using V(4) at [of c] D by auto
  define b where "b = (if xs = [] then c else busylist p)"
  let ?h = "unlink_rd (rds s) d a c"
  let ?h' = "?h(rd \<mapsto> d\<lparr>rd_prev := MEMPOOL_NULL, rd_next := MEMPOOL_NULL\<rparr>)"
  let ?s = "s\<lparr>pools := (pools s)(pool \<mapsto> p\<lparr>busylist := b\<rparr>), rds := ?h'\<rparr>"
  have pp: "pools s pool = Some p" "pool \<noteq> NULL" using p by (auto simp: pool_at_def split: if_splits)
  have hrd: "?h rd = Some d" using d ax cx an by (auto simp: unlink_rd_def Let_def)
  have dp: "a = NULL \<longleftrightarrow> rd_prev d = MEMPOOL_NULL" "c = NULL \<longleftrightarrow> rd_next d = MEMPOOL_NULL" by (simp_all add: a_def c_def)
  have da: "a \<noteq> NULL \<Longrightarrow> mempool_get_realdata_direct pool (rd_prev d) = a" "c \<noteq> NULL \<Longrightarrow> mempool_get_realdata_direct pool (rd_next d) = c"
    using get_realdata_direct by (simp_all add: a_def c_def)
  have r: "unlink_busy s pool rd = Some ?s"
  proof (cases "xs = []")
    case True
    then have a0: "a = NULL" using an by simp
    show ?thesis
    proof (cases "c = NULL")
      case True
      then show ?thesis using a0 dp da d rdN pp \<open>xs = []\<close>
        by (simp add: unlink_busy_def rd_at_def upd_pool_def pool_at_def c_def [symmetric] upd_rd_run unlink_rd_def b_def)
    next
      case False
      then obtain t where "rds s c = Some t" "c \<noteq> rd" using cx by blast
      then show ?thesis using False a0 dp da d rdN pp \<open>xs = []\<close>
        by (simp add: unlink_busy_def rd_at_def upd_pool_def pool_at_def c_def [symmetric] upd_rd_run unlink_rd_def b_def)
    qed
  next
    case False
    then have a0: "a \<noteq> NULL" using an by simp
    then obtain t where t: "rds s a = Some t" "a \<noteq> c" "a \<noteq> rd" using ax by blast
    have e: "s\<lparr>pools := (pools s)(pool \<mapsto> p), rds := h\<rparr> = s\<lparr>rds := h\<rparr>" for h using pp by (simp add: fun_upd_idem)
    have b0: "p\<lparr>busylist := b\<rparr> = p" using False by (simp add: b_def)
    show ?thesis
    proof (cases "c = NULL")
      case True
      then show ?thesis using a0 t dp da d rdN unfolding b0 e
        by (simp add: unlink_busy_def rd_at_def upd_rd_run unlink_rd_def)
    next
      case c: False
      then obtain t' where "rds s c = Some t'" "c \<noteq> rd" using cx by blast
      then show ?thesis using c a0 t dp da d rdN unfolding b0 e
        by (simp add: unlink_busy_def rd_at_def upd_rd_run unlink_rd_def)
    qed
  qed
  have L: "mp_lists pool ?h (heads (p\<lparr>busylist := b\<rparr>)) (Ls[5 := xs @ ys])"
    using V(1) heads_free(3,4) [OF len] list_update_id [of "heads p" 5] by (cases "xs = []") (simp_all add: b_def)
  have lL: "length Ls = 6" using l by (simp add: mp_lists_def)
  have "mp_lists pool ?h' (heads (p\<lparr>busylist := b\<rparr>)) (Ls[5 := xs @ ys])"
  proof (rule lists_cong [OF L])
    fix j r assume j: "j < 6" "r \<in> set (Ls[5 := xs @ ys] ! j)"
    then have "r \<noteq> rd" using D x lists_disjoint [OF l j(1) i6, of r] lL by (cases "j = 5") auto
    then show "fnx pool ?h' r = fnx pool ?h r \<and> fpv pool ?h' r = fpv pool ?h r" by (simp add: fnx_def fpv_def)
  qed
  moreover have "linked (set (xs @ rd # ys)) (rds s) ?h'"
  proof -
    have "linked {rd} ?h ?h'" by (rule linked_upd [where h = ?h and r = rd, OF hrd]) (simp_all add: layout_def)
    from linked_trans [OF V(2) this] show ?thesis by (rule linked_mono) auto
  qed
  ultimately show ?thesis using r by (intro exI [of _ ?s] exI [of _ b]) simp
qed

section \<open>A pool without allocated blocks\<close>

lemma init_mempool_ok:
  assumes p: "pool_at s pool = Some p" and sz: "sizeof_mempool + sizeof_realdata \<le> unat (pool_size p)" "unat (pool_size p) \<le> 65536"
  shows "\<exists>s' p'. init_mempool junk s pool = Some s' \<and> s' = s\<lparr>pools := (pools s)(pool \<mapsto> p'), rds := rds s'\<rparr> \<and> same_conf p p' \<and>
    pool_ok pool p' (rds s') [first_block pool] [[], [], [], [], [first_block pool], []] \<and>
    (\<forall>x. x \<noteq> first_block pool \<longrightarrow> rds s' x = rds s x)"
proof -
  define n where "n = (ucast (pool_size p - of_nat sizeof_mempool) :: u16)"
  let ?r = "first_block pool"
  define d where "d = (raw_rd junk s ?r)\<lparr>rd_offset := 0, rd_size := n, rd_prev := MEMPOOL_NULL, rd_next := MEMPOOL_NULL,
               rd_realprev := MEMPOOL_NULL, rd_realnext := MEMPOOL_NULL, rd_status := 0\<rparr>"
  define p' where "p' = p\<lparr>freelist := [NULL, NULL, NULL, NULL, ?r], busylist := NULL, leftsize := ucast n, failed := 0\<rparr>"
  let ?s = "s\<lparr>pools := (pools s)(pool \<mapsto> p'), rds := (rds s)(?r \<mapsto> d)\<rparr>"
  have pp: "pools s pool = Some p" "pool \<noteq> NULL" using p by (auto simp: pool_at_def split: if_splits)
  have r: "init_mempool junk s pool = Some ?s"
    using p pp sz(1) by (simp add: init_mempool_def upd_pool_def pool_at_def p'_def d_def n_def first_block_def Let_def
        MEMPOOL_FREELIST_SIZE_def numeral_eq_Suc)
  have u: "unat (of_nat sizeof_mempool :: u32) = 192" by (simp add: sizeof_mempool_def)
  have nn: "unat n = unat (pool_size p) - 192"
    using sz u by (simp add: n_def unat_ucast_32_16 unat_sub_32 sizeof_mempool_def sizeof_realdata_def)
  have h: "(rds ?s) ?r = Some d" by simp
  have rN: "?r \<noteq> NULL" "mempool_get_realdata pool 0 = ?r" using pp
    by (simp_all add: first_block_def mempool_get_realdata_def mempool_get_realdata_direct_def MEMPOOL_NULL_def)
  have V: "rnx pool (rds ?s) ?r = Some NULL" "rpv pool (rds ?s) ?r = Some NULL" "fnx pool (rds ?s) ?r = Some NULL"
      "fpv pool (rds ?s) ?r = Some NULL" "bsz (rds ?s) ?r = unat (pool_size p) - 192" "st (rds ?s) ?r = 0" "placed pool (rds ?s) ?r"
    using rN nn by (simp_all add: rnx_def rpv_def fnx_def fpv_def bsz_def st_def placed_def d_def)
  have e: "?r + (unat (pool_size p) - 192) = pool + unat (pool_size p)"
    using sz(1) by (simp add: first_block_def sizeof_mempool_def)
  have t: "tiles pool (rds ?s) (pool + unat (pool_size p')) [?r]"
    unfolding tiles_def using V e sz(1) rN by (auto simp: p'_def sizeof_mempool_def sizeof_realdata_def)
  have "dchain (fnx pool (rds ?s)) (fpv pool (rds ?s)) NULL (heads p' ! i) ([[], [], [], [], [?r], []] ! i)" if "i < 6" for i
    using that V rN by (auto simp: heads_def p'_def less_Suc_eq numeral_eq_Suc)
  moreover have "set ([[], [], [], [], [?r], []] ! i) \<inter> set ([[], [], [], [], [?r], []] ! j) = {}" if "i < 6" "j < 6" "i \<noteq> j" for i j
    using that by (auto simp: less_Suc_eq numeral_eq_Suc)
  ultimately have l: "mp_lists pool (rds ?s) (heads p') [[], [], [], [], [?r], []]"
    by (simp add: mp_lists_def heads_def p'_def)
  have f: "free_blocks [[], [], [], [], [?r], []] = {?r}"
    by (auto simp: free_blocks_def less_Suc_eq numeral_eq_Suc)
  have "unat (leftsize p') = unat n"
    using unat_u16 [of n] by (simp add: p'_def unsigned_ucast_eq take_bit_nat_eq_self)
  then have "pool_ok pool p' (rds ?s) [?r] [[], [], [], [], [?r], []]"
    unfolding pool_ok_def f using pp t l V sz nn by (simp add: p'_def)
  moreover have "same_conf p p'" by (simp add: same_conf_def p'_def)
  ultimately show ?thesis using r by (intro exI [of _ ?s] exI [of _ p']) simp
qed

end
