(* ===== verification/MempoolMerge.thy ===== *)
theory MempoolMerge
  imports MempoolScan
begin

text \<open>
  Coalescing in \<open>__free_realdata\<close>: a free neighbour leaves its list and the block in front takes over its
  memory.
\<close>

section \<open>Merging blocks\<close>

lemma chain_span:
  assumes "dchain n b v x (x # ms @ B)" and "\<And>a. a \<in> set (x # ms @ B) \<Longrightarrow> 0 < w a \<and> n a = Some (if a + w a = e then NULL else a + w a)"
  shows "x + sum_list (map w (x # ms)) = last (x # ms) + w (last (x # ms))"
  using assms
proof (induction ms arbitrary: v x)
  case (Cons y ms)
  have c: "dchain n b x y (y # ms @ B)" "n x = Some y" "y \<noteq> NULL" using Cons.prems(1) by auto
  have "y = x + w x" using Cons.prems(2) [of x] c(2,3) by (auto split: if_splits)
  moreover have "y + sum_list (map w (y # ms)) = last (y # ms) + w (last (y # ms))"
    by (rule Cons.IH [OF c(1)]) (use Cons.prems(2) in auto)
  ultimately show ?case by simp
qed simp

text \<open>The block \<open>x\<close> takes over the blocks \<open>ms\<close> that follow it.\<close>

lemma tiles_merge:
  assumes t: "tiles pool h e (A @ x # ms @ B)"
    and sz: "bsz h' x = sum_list (map (bsz h) (x # ms))" and nx: "rnx pool h' x = rnx pool h (last (x # ms))"
    and pv: "rpv pool h' x = rpv pool h x" and pl: "placed pool h' x"
    and o: "\<And>y. y \<in> set A \<union> set B \<Longrightarrow> bsz h' y = bsz h y \<and> rnx pool h' y = rnx pool h y \<and> placed pool h' y"
    and p: "\<And>y. y \<in> set A \<union> set B \<Longrightarrow> rpv pool h' y = (if B \<noteq> [] \<and> y = hd B then Some x else rpv pool h y)"
  shows "tiles pool h' e (A @ x # B)"
proof -
  have T: "placed pool h a \<and> sizeof_realdata \<le> bsz h a \<and> a + bsz h a \<le> e \<and>
      rnx pool h a = Some (if a + bsz h a = e then NULL else a + bsz h a)" if "a \<in> set (A @ x # ms @ B)" for a
    using t that unfolding tiles_def by blast
  have ch: "dchain (rnx pool h) (rpv pool h) NULL (first_block pool) (A @ x # ms @ B)" using t by (simp add: tiles_def)
  have D: "distinct (A @ x # ms @ B)" by (rule dchain_distinct [OF ch])
  let ?l = "last (x # ms)"
  have dx: "dseg (rnx pool h) (rpv pool h) NULL (first_block pool) A x"
      "dchain (rnx pool h) (rpv pool h) (last (NULL # A)) x (x # ms @ B)"
    using ch by (auto simp: dchain_append)
  have span: "x + bsz h' x = ?l + bsz h ?l"
  proof -
    have "0 < bsz h a \<and> rnx pool h a = Some (if a + bsz h a = e then NULL else a + bsz h a)" if "a \<in> set (x # ms @ B)" for a
      using T [of a] that by (auto simp: sizeof_realdata_def)
    from chain_span [OF dx(2) this] show ?thesis unfolding sz by blast
  qed
  have lin: "?l \<in> set (A @ x # ms @ B)" using last_in_set [of "x # ms"] by auto
  obtain q where q: "rnx pool h ?l = Some q" "dchain (rnx pool h) (rpv pool h) ?l q B"
  proof -
    have "dchain (rnx pool h) (rpv pool h) (last (NULL # A)) x ((x # ms) @ B)" using dx(2) by simp
    then have "dchain (rnx pool h) (rpv pool h) (last (NULL # A)) x (butlast (x # ms) @ ?l # B)"
      by (metis append_Cons append_butlast_last_id append_assoc append_Nil list.distinct(1))
    then show ?thesis using that by (auto simp: dchain_append)
  qed
  have A': "dseg (rnx pool h') (rpv pool h') NULL (first_block pool) A x"
    using dx(1) o p D by (subst dseg_cong [of A "rnx pool h'" "rnx pool h" "rpv pool h'" "rpv pool h"]) auto
  have qB: "q \<noteq> NULL \<Longrightarrow> B \<noteq> [] \<and> q = hd B" using q(2) by (cases B) auto
  have B': "dchain (rnx pool h') (rpv pool h') x q B"
  proof (rule dchain_relink [OF q(2)])
    show "distinct B" using D by simp
    show "rnx pool h' y = rnx pool h y" if "y \<in> set B" for y using o that by simp
    show "q \<noteq> NULL \<Longrightarrow> rpv pool h' q = Some x" using p [of q] qB by auto
    show "rpv pool h' y = rpv pool h y" if "y \<in> set B" "y \<noteq> q" for y
      using p [of y] that q(2) by (cases B) auto
  qed
  have xn: "x \<noteq> NULL" "rpv pool h' x = Some (last (NULL # A))" using dx(2) pv by auto
  have "dchain (rnx pool h') (rpv pool h') NULL (first_block pool) (A @ x # B)"
    unfolding dchain_append using A' B' xn nx q(1) by auto
  moreover have "placed pool h' a \<and> sizeof_realdata \<le> bsz h' a \<and> a + bsz h' a \<le> e \<and>
      rnx pool h' a = Some (if a + bsz h' a = e then NULL else a + bsz h' a)" if "a \<in> set (A @ x # B)" for a
  proof (cases "a = x")
    case True
    have "bsz h x \<le> bsz h' x" unfolding sz by simp
    then show ?thesis using True pl nx span T [OF lin] T [of x] by simp
  next
    case False
    then have "a \<in> set A \<union> set B" using that by auto
    then show ?thesis using o [of a] T [of a] by auto
  qed
  ultimately show ?thesis unfolding tiles_def by blast
qed

text \<open>Views of single field updates.\<close>

lemma grow_views:
  fixes n q :: u16
  assumes "h x = Some d"
  defines "h' \<equiv> h(x \<mapsto> d\<lparr>rd_size := n, rd_realnext := q\<rparr>)"
  shows "bsz h' y = (if y = x then unat n else bsz h y)"
    and "rnx pool h' y = (if y = x then Some (mempool_get_realdata pool q) else rnx pool h y)"
    and "rpv pool h' = rpv pool h" and "fnx pool h' = fnx pool h" and "fpv pool h' = fpv pool h"
    and "placed pool h' = placed pool h" and "st h' = st h"
  using assms by (auto simp: bsz_def rnx_def rpv_def fnx_def fpv_def placed_def st_def fun_eq_iff)

lemma back_views:
  fixes o' :: u16
  assumes "q = NULL \<or> h q \<noteq> None"
  defines "h' \<equiv> upd_at h q (\<lambda>t. t\<lparr>rd_realprev := o'\<rparr>)"
  shows "rpv pool h' y = (if y = q \<and> q \<noteq> NULL then Some (mempool_get_realdata pool o') else rpv pool h y)"
    and "bsz h' = bsz h" and "rnx pool h' = rnx pool h" and "fnx pool h' = fnx pool h" and "fpv pool h' = fpv pool h"
    and "placed pool h' = placed pool h" and "st h' = st h"
  using assms by (auto simp: upd_at_def bsz_def rnx_def rpv_def fnx_def fpv_def placed_def st_def fun_eq_iff split: option.splits)

lemma status_views:
  fixes k :: u8
  assumes "h x = Some d"
  defines "h' \<equiv> h(x \<mapsto> d\<lparr>rd_status := k\<rparr>)"
  shows "st h' y = (if y = x then k else st h y)"
    and "bsz h' = bsz h" and "rnx pool h' = rnx pool h" and "rpv pool h' = rpv pool h" and "fnx pool h' = fnx pool h"
    and "fpv pool h' = fpv pool h" and "placed pool h' = placed pool h"
  using assms by (auto simp: bsz_def rnx_def rpv_def fnx_def fpv_def placed_def st_def fun_eq_iff)

lemma lists_same_links: "mp_lists pool h hs Ls \<Longrightarrow> fnx pool h' = fnx pool h \<Longrightarrow> fpv pool h' = fpv pool h \<Longrightarrow> mp_lists pool h' hs Ls"
  by (rule lists_cong) auto

section \<open>Freeing with coalescing\<close>

lemma absorb_run:
  assumes p: "pool_at s pool = Some p" and l: "mp_lists pool (rds s) (heads p) Ls" and j: "j < 5" "u \<in> set (Ls ! j)"
    and cl: "bcl (rds s) u = j" and f: "rds s f = Some df" "f \<noteq> NULL"
    and sz: "unat (rd_size df) + unat (rd_size dz) < 65536" and mem: "set (Ls ! j) \<subseteq> set as" "f \<in> set as"
  shows "\<exists>s0 s1 p1 Ls1. remove_freenode s pool u (-1) = Some s0 \<and> rds s0 u = rds s u \<and>
    upd_rd s0 f (\<lambda>t. t\<lparr>rd_size := rd_size t + rd_size dz, rd_realnext := rd_realnext dz\<rparr>) = Some s1 \<and>
    s1 = s\<lparr>pools := (pools s)(pool \<mapsto> p1), rds := rds s1\<rparr> \<and> (\<exists>fl. p1 = p\<lparr>freelist := fl\<rparr>) \<and>
    mp_lists pool (rds s1) (heads p1) Ls1 \<and> Ls1 ! 5 = Ls ! 5 \<and> (\<forall>k<5. set (Ls1 ! k) = set (Ls ! k) - {u}) \<and>
    (\<forall>y. bsz (rds s1) y = (if y = f then bsz (rds s) f + unat (rd_size dz) else bsz (rds s) y)) \<and>
    (\<forall>y. rnx pool (rds s1) y = (if y = f then Some (mempool_get_realdata pool (rd_realnext dz)) else rnx pool (rds s) y)) \<and>
    rpv pool (rds s1) = rpv pool (rds s) \<and> placed pool (rds s1) = placed pool (rds s) \<and> st (rds s1) = st (rds s) \<and>
    (\<forall>y. y \<notin> set as \<longrightarrow> rds s1 y = rds s y)"
proof -
  obtain xs ys where x: "Ls ! j = xs @ u # ys" using j(2) by (meson split_list)
  have j6: "j < 6" using j(1) by simp
  have D: "distinct (xs @ u # ys)" using dchain_distinct [OF lists_chain [OF l j6]] x by simp
  have lL: "length Ls = 6" using l by (simp add: mp_lists_def)
  obtain du where du: "rds s u = Some du" using dchain_nodes [OF lists_chain [OF l j6] j(2)] by (auto simp: fnx_def)
  have "get_freeidx (ucast (rd_size du)) = int j" using bcl_rd [where h = "rds s" and x = u, OF du] cl cls_lt by simp
  then obtain s0 p1 where s0: "remove_freenode s pool u (-1) = Some s0" "s0 = s\<lparr>pools := (pools s)(pool \<mapsto> p1), rds := rds s0\<rparr>"
      "\<exists>fl. p1 = p\<lparr>freelist := fl\<rparr>" "mp_lists pool (rds s0) (heads p1) (Ls[j := xs @ ys])" "linked (set (xs @ ys)) (rds s) (rds s0)"
    using remove_freenode_run [OF p l j(1) x du, of "-1"] by auto
  note V = linked_views [OF s0(5)]
  obtain d0 where d0: "rds s0 f = Some d0" "rd_size d0 = rd_size df"
    by (rule linked_cases [OF s0(5), of f]) (use f in auto)
  let ?d = "d0\<lparr>rd_size := rd_size d0 + rd_size dz, rd_realnext := rd_realnext dz\<rparr>"
  let ?s = "s0\<lparr>rds := (rds s0)(f \<mapsto> ?d)\<rparr>"
  note W = grow_views [where h = "rds s0" and x = f and n = "rd_size d0 + rd_size dz" and q = "rd_realnext dz", OF d0(1)]
  have n: "unat (rd_size d0 + rd_size dz) = bsz (rds s) f + unat (rd_size dz)"
    using sz d0(2) f(1) by (simp add: unat_word_ariths bsz_def)
  have "upd_rd s0 f (\<lambda>t. t\<lparr>rd_size := rd_size t + rd_size dz, rd_realnext := rd_realnext dz\<rparr>) = Some ?s"
    using d0(1) f(2) by (simp add: upd_rd_run)
  moreover have "?s = s\<lparr>pools := (pools s)(pool \<mapsto> p1), rds := rds ?s\<rparr>" using s0(2) by (cases s0; cases s) simp
  moreover have "mp_lists pool (rds ?s) (heads p1) (Ls[j := xs @ ys])"
    by (rule lists_same_links [OF s0(4)]) (use W(4,5) in simp_all)
  moreover have "\<forall>k<5. set (Ls[j := xs @ ys] ! k) = set (Ls ! k) - {u}"
    using D x lL j6 lists_disjoint [OF l j6 _ _ j(2)] by (auto simp: nth_list_update)
  moreover have "Ls[j := xs @ ys] ! 5 = Ls ! 5" using j(1) by simp
  moreover have "\<forall>y. bsz (rds ?s) y = (if y = f then bsz (rds s) f + unat (rd_size dz) else bsz (rds s) y)"
    using W(1) n V(3) by simp
  moreover have "\<forall>y. rnx pool (rds ?s) y = (if y = f then Some (mempool_get_realdata pool (rd_realnext dz)) else rnx pool (rds s) y)"
    using W(2) V(1) by simp
  moreover have "rds s0 u = rds s u" using s0(5) D by (simp add: linked_def)
  moreover have "\<forall>y. y \<notin> set as \<longrightarrow> rds ?s y = rds s y" using s0(5) mem x by (auto simp: linked_def)
  ultimately show ?thesis using s0(1,3) W(3,6,7) V(2,4,5) by (intro exI [of _ s0] exI [of _ ?s] exI [of _ p1] exI [of _ "Ls[j := xs @ ys]"]) simp
qed

text \<open>A busy block \<open>rd\<close> that has left the busy list.\<close>

definition loose :: "mpmem \<Rightarrow> ptr \<Rightarrow> mempool \<Rightarrow> ptr list \<Rightarrow> ptr list list \<Rightarrow> ptr \<Rightarrow> bool" where
  "loose s pool p as Ls rd \<longleftrightarrow> pool_at s pool = Some p \<and> mp_lists pool (rds s) (heads p) Ls \<and>
     tiles pool (rds s) (pool + unat (pool_size p)) as \<and> unat (pool_size p) \<le> 65536 \<and> rd \<in> set as \<and>
     set as = insert rd (free_blocks Ls \<union> set (Ls ! 5)) \<and> rd \<notin> free_blocks Ls \<and> rd \<notin> set (Ls ! 5) \<and>
     (\<forall>x\<in>free_blocks Ls. st (rds s) x = 0) \<and> (\<forall>x\<in>set (Ls ! 5). st (rds s) x = 1) \<and> st (rds s) rd = 1 \<and>
     (\<forall>j<5. \<forall>x\<in>set (Ls ! j). bcl (rds s) x = j)"

text \<open>The header \<open>fh\<close> has taken over the blocks \<open>ms\<close> behind it; the back link of the next block is still the old one.\<close>

definition merged :: "mpmem \<Rightarrow> ptr \<Rightarrow> mempool \<Rightarrow> ptr list \<Rightarrow> ptr list list \<Rightarrow> ptr \<Rightarrow> ptr list \<Rightarrow> mpmem \<Rightarrow> mempool \<Rightarrow> ptr list list \<Rightarrow> bool" where
  "merged s pool p as Ls fh ms s1 p1 Ls1 \<longleftrightarrow>
     s1 = s\<lparr>pools := (pools s)(pool \<mapsto> p1), rds := rds s1\<rparr> \<and> (\<exists>fl. p1 = p\<lparr>freelist := fl\<rparr>) \<and>
     mp_lists pool (rds s1) (heads p1) Ls1 \<and> Ls1 ! 5 = Ls ! 5 \<and> (\<forall>k<5. set (Ls1 ! k) = set (Ls ! k) - set (fh # ms)) \<and>
     (\<forall>y. bsz (rds s1) y = (if y = fh then sum_list (map (bsz (rds s)) (fh # ms)) else bsz (rds s) y)) \<and>
     (\<forall>y. rnx pool (rds s1) y = (if y = fh then rnx pool (rds s) (last (fh # ms)) else rnx pool (rds s) y)) \<and>
     rpv pool (rds s1) = rpv pool (rds s) \<and> placed pool (rds s1) = placed pool (rds s) \<and> st (rds s1) = st (rds s) \<and>
     (\<forall>y. y \<notin> set as \<longrightarrow> rds s1 y = rds s y)"

lemma tiles_sum:
  assumes "tiles pool h (pool + k) (A @ x # ms @ B)" and "k \<le> 65536"
  shows "sum_list (map (bsz h) (x # ms)) < 65536"
proof -
  note T = tilesD [OF assms(1)]
  have "dchain (rnx pool h) (rpv pool h) (last (NULL # A)) x (x # ms @ B)"
    using assms(1) by (auto simp: tiles_def dchain_append)
  moreover have "0 < bsz h a \<and> rnx pool h a = Some (if a + bsz h a = pool + k then NULL else a + bsz h a)" if "a \<in> set (x # ms @ B)" for a
    using T(2) [of a] T(5) [of a] that by (auto simp: sizeof_realdata_def)
  ultimately have "x + sum_list (map (bsz h) (x # ms)) = last (x # ms) + bsz h (last (x # ms))" by (rule chain_span)
  moreover have "last (x # ms) \<in> set (A @ x # ms @ B)" using last_in_set [of "x # ms"] by auto
  then have "last (x # ms) + bsz h (last (x # ms)) \<le> pool + k" by (rule T(3))
  moreover have "first_block pool \<le> x" by (rule T(4)) simp
  ultimately show ?thesis using assms(2) by (simp add: first_block_def sizeof_mempool_def)
qed

lemma looseD:
  assumes "loose s pool p as Ls rd"
  shows "pool_at s pool = Some p" "mp_lists pool (rds s) (heads p) Ls" "tiles pool (rds s) (pool + unat (pool_size p)) as"
    "unat (pool_size p) \<le> 65536" "rd \<in> set as" "set as = insert rd (free_blocks Ls \<union> set (Ls ! 5))"
    "rd \<notin> free_blocks Ls" "rd \<notin> set (Ls ! 5)" "x \<in> free_blocks Ls \<Longrightarrow> st (rds s) x = 0" "x \<in> set (Ls ! 5) \<Longrightarrow> st (rds s) x = 1"
    "st (rds s) rd = 1" "j < 5 \<Longrightarrow> x \<in> set (Ls ! j) \<Longrightarrow> bcl (rds s) x = j"
  using assms unfolding loose_def by blast+

lemma loose_free: "loose s pool p as Ls rd \<Longrightarrow> x \<in> set as \<Longrightarrow> st (rds s) x = 0 \<Longrightarrow> x \<in> free_blocks Ls"
  using looseD(6,10,11) by (metis Un_iff insert_iff zero_neq_one)

lemma free_blocksE:
  assumes "x \<in> free_blocks Ls"
  obtains j where "j < 5" "x \<in> set (Ls ! j)"
  using assms unfolding free_blocks_def by blast

lemma loose_mem: "loose s pool p as Ls rd \<Longrightarrow> j < 5 \<Longrightarrow> set (Ls ! j) \<subseteq> set as"
  using looseD(6) free_blocksI by blast

text \<open>The block before \<open>rd\<close>, when it is free, takes over \<open>rd\<close>.\<close>

lemma merge_prev_run:
  assumes lo: "loose s pool p as Ls rd" and as: "as = A0 @ rd # B0" and d: "rds s rd = Some d"
    and rp: "realprev = mempool_get_realdata pool (rd_realprev d)"
    and pf: "prev_free = (realprev \<noteq> NULL \<and> st (rds s) realprev = 0)"
  shows "\<exists>s1 fh p1 Ls1 A ms.
    (if prev_free then do {
       s \<leftarrow> remove_freenode s pool realprev (-1);
       s \<leftarrow> upd_rd s realprev (\<lambda>t. t\<lparr>rd_size := rd_size t + rd_size d, rd_realnext := rd_realnext d\<rparr>);
       Some (s, realprev) }
     else Some (s, rd)) = Some (s1, fh) \<and>
    as = A @ fh # ms @ B0 \<and> set (fh # ms) \<subseteq> insert rd (free_blocks Ls) \<and> merged s pool p as Ls fh ms s1 p1 Ls1 \<and> last (fh # ms) = rd"
proof -
  note L = looseD [OF lo]
  have rv: "realprev = last (NULL # A0)"
    using L(3) d unfolding tiles_def as by (auto simp: dchain_append rpv_def rp)
  show ?thesis
  proof (cases prev_free)
    case False
    have "merged s pool p as Ls rd [] s p Ls"
    proof -
      have "pools s pool = Some p" using L(1) by (auto simp: pool_at_def split: if_splits)
      then have "s = s\<lparr>pools := (pools s)(pool \<mapsto> p), rds := rds s\<rparr>" by (cases s) (simp add: fun_upd_idem)
      moreover have "set (Ls ! k) - {rd} = set (Ls ! k)" if "k < 5" for k using L(7) free_blocksI [OF that] by blast
      moreover have "\<exists>fl. p = p\<lparr>freelist := fl\<rparr>" by (rule exI [of _ "freelist p"]) simp
      ultimately show ?thesis using L(2) by (simp add: merged_def)
    qed
    then show ?thesis using False as L(7) by (intro exI [of _ s] exI [of _ rd] exI [of _ p] exI [of _ Ls] exI [of _ A0] exI [of _ "[]"]) simp
  next
    case True
    then have A0: "A0 \<noteq> []" using pf rv by auto
    define A where "A = butlast A0"
    have asx: "as = A @ realprev # [rd] @ B0" using A0 rv as by (simp add: A_def)
    have xf: "realprev \<in> free_blocks Ls" by (rule loose_free [OF lo]) (use asx True pf in auto)
    then obtain j where j: "j < 5" "realprev \<in> set (Ls ! j)" by (rule free_blocksE)
    have xr: "realprev \<noteq> rd" using xf L(7) by blast
    obtain dx where dx: "rds s realprev = Some dx" "realprev \<noteq> NULL"
      using tilesD(1) [OF L(3), of realprev] asx by (auto simp: placed_def)
    have "sum_list (map (bsz (rds s)) (realprev # [rd])) < 65536" by (rule tiles_sum [OF L(3) [unfolded asx] L(4)])
    then have sz: "unat (rd_size dx) + unat (rd_size d) < 65536" using dx d by (simp add: bsz_def)
    have xa: "realprev \<in> set as" using asx by simp
    obtain s0 s1 p1 Ls1 where a: "remove_freenode s pool realprev (-1) = Some s0"
        "upd_rd s0 realprev (\<lambda>t. t\<lparr>rd_size := rd_size t + rd_size d, rd_realnext := rd_realnext d\<rparr>) = Some s1"
        "s1 = s\<lparr>pools := (pools s)(pool \<mapsto> p1), rds := rds s1\<rparr>" "\<exists>fl. p1 = p\<lparr>freelist := fl\<rparr>"
        "mp_lists pool (rds s1) (heads p1) Ls1" "Ls1 ! 5 = Ls ! 5" "\<forall>k<5. set (Ls1 ! k) = set (Ls ! k) - {realprev}"
        "\<forall>y. bsz (rds s1) y = (if y = realprev then bsz (rds s) realprev + unat (rd_size d) else bsz (rds s) y)"
        "\<forall>y. rnx pool (rds s1) y = (if y = realprev then Some (mempool_get_realdata pool (rd_realnext d)) else rnx pool (rds s) y)"
        "rpv pool (rds s1) = rpv pool (rds s)" "placed pool (rds s1) = placed pool (rds s)" "st (rds s1) = st (rds s)"
        "\<forall>y. y \<notin> set as \<longrightarrow> rds s1 y = rds s y"
      using absorb_run [OF L(1,2) j L(12) [OF j] dx sz loose_mem [OF lo j(1)] xa] by blast
    have "merged s pool p as Ls realprev [rd] s1 p1 Ls1"
    proof -
      have "set (Ls ! k) - {realprev} = set (Ls ! k) - set (realprev # [rd])" if "k < 5" for k
        using L(7) free_blocksI [OF that] by auto
      moreover have "bsz (rds s) rd = unat (rd_size d)" "rnx pool (rds s) rd = Some (mempool_get_realdata pool (rd_realnext d))"
        using d by (simp_all add: bsz_def rnx_def)
      ultimately show ?thesis using a(3-13) unfolding merged_def by simp
    qed
    moreover have "set (realprev # [rd]) \<subseteq> insert rd (free_blocks Ls)" using xf by simp
    ultimately show ?thesis using True a(1,2) asx
      by (intro exI [of _ s1] exI [of _ realprev] exI [of _ p1] exI [of _ Ls1] exI [of _ A] exI [of _ "[rd]"]) simp
  qed
qed

text \<open>The block behind, when it is free, is taken over as well.\<close>

lemma mergedD:
  assumes "merged s pool p as Ls fh ms s1 p1 Ls1"
  shows "s1 = s\<lparr>pools := (pools s)(pool \<mapsto> p1), rds := rds s1\<rparr>" "\<exists>fl. p1 = p\<lparr>freelist := fl\<rparr>"
     "mp_lists pool (rds s1) (heads p1) Ls1" "Ls1 ! 5 = Ls ! 5" "k < 5 \<Longrightarrow> set (Ls1 ! k) = set (Ls ! k) - set (fh # ms)"
     "bsz (rds s1) y = (if y = fh then sum_list (map (bsz (rds s)) (fh # ms)) else bsz (rds s) y)"
     "rnx pool (rds s1) y = (if y = fh then rnx pool (rds s) (last (fh # ms)) else rnx pool (rds s) y)"
     "rpv pool (rds s1) = rpv pool (rds s)" "placed pool (rds s1) = placed pool (rds s)" "st (rds s1) = st (rds s)"
     "y \<notin> set as \<Longrightarrow> rds s1 y = rds s y"
  using assms unfolding merged_def by blast+

lemma merged_pool_at: "merged s pool p as Ls fh ms s1 p1 Ls1 \<Longrightarrow> pool_at s pool = Some p \<Longrightarrow> pool_at s1 pool = Some p1"
proof -
  assume m: "merged s pool p as Ls fh ms s1 p1 Ls1" and p: "pool_at s pool = Some p"
  have "pools s1 = (pools s)(pool \<mapsto> p1)" by (subst mergedD(1) [OF m]) simp
  then show "pool_at s1 pool = Some p1" using p by (auto simp: pool_at_def split: if_splits)
qed

lemma merge_next_run:
  assumes lo: "loose s pool p as Ls rd" and as: "as = A @ fh # ms @ B0" and m: "merged s pool p as Ls fh ms s1 p1 Ls1"
    and sub: "set (fh # ms) \<subseteq> insert rd (free_blocks Ls)" and rn: "rnx pool (rds s) (last (fh # ms)) = Some realnext"
    and nf: "next_free = (realnext \<noteq> NULL \<and> st (rds s) realnext = 0)"
  shows "\<exists>s2 p2 Ls2 ms' B.
    (if next_free then do {
       s \<leftarrow> remove_freenode s1 pool realnext (-1);
       n \<leftarrow> rd_at s realnext;
       upd_rd s fh (\<lambda>t. t\<lparr>rd_size := rd_size t + rd_size n, rd_realnext := rd_realnext n\<rparr>) }
     else Some s1) = Some s2 \<and>
    as = A @ fh # ms' @ B \<and> set (fh # ms) \<subseteq> set (fh # ms') \<and> set (fh # ms') \<subseteq> insert rd (free_blocks Ls) \<and>
    merged s pool p as Ls fh ms' s2 p2 Ls2"
proof (cases next_free)
  case False
  then show ?thesis using as sub m by auto
next
  case True
  note L = looseD [OF lo] and M = mergedD [OF m]
  have ch: "dchain (rnx pool (rds s)) (rpv pool (rds s)) NULL (first_block pool) (A @ fh # ms @ B0)"
    using L(3) as by (simp add: tiles_def)
  then have "dchain (rnx pool (rds s)) (rpv pool (rds s)) NULL (first_block pool) ((A @ butlast (fh # ms)) @ last (fh # ms) # B0)"
    by (metis append_Cons append_assoc append_butlast_last_id list.distinct(1) append_Nil)
  then have "dchain (rnx pool (rds s)) (rpv pool (rds s)) (last (fh # ms)) realnext B0"
    using rn unfolding dchain_append by auto
  then obtain B where B0: "B0 = realnext # B" using True nf by (cases B0) auto
  have asx: "as = A @ fh # (ms @ [realnext]) @ B" using as B0 by simp
  have D: "distinct as" using dchain_distinct [OF ch] as by simp
  have xf: "realnext \<in> free_blocks Ls" by (rule loose_free [OF lo]) (use asx True nf in auto)
  then obtain j where j: "j < 5" "realnext \<in> set (Ls ! j)" by (rule free_blocksE)
  have ne: "realnext \<notin> set (fh # ms)" using D asx by auto
  then have j1: "realnext \<in> set (Ls1 ! j)" using M(5) [OF j(1)] j(2) by simp
  have cl: "bcl (rds s1) realnext = j" using L(12) [OF j] M(6) [of realnext] ne by (simp add: bcl_def)
  have fa: "fh \<in> set as" "realnext \<in> set as" using asx by auto
  have "placed pool (rds s1) fh" "placed pool (rds s1) realnext" using tilesD(1) [OF L(3)] fa M(9) by auto
  then obtain df dn where df: "rds s1 fh = Some df" "fh \<noteq> NULL" and dn: "rds s1 realnext = Some dn" "realnext \<noteq> NULL"
    by (auto simp: placed_def)
  have "sum_list (map (bsz (rds s)) (fh # ms @ [realnext])) < 65536"
    by (rule tiles_sum [where B = B and A = A, OF _ L(4)]) (use L(3) asx in simp)
  moreover have bz: "bsz (rds s1) fh = sum_list (map (bsz (rds s)) (fh # ms))" "bsz (rds s1) realnext = bsz (rds s) realnext"
    using M(6) [of fh] M(6) [of realnext] ne by auto
  ultimately have sz: "unat (rd_size df) + unat (rd_size dn) < 65536" using df dn by (simp add: bsz_def)
  have mem: "set (Ls1 ! j) \<subseteq> set as" using M(5) [OF j(1)] loose_mem [OF lo j(1)] by auto
  obtain s0 s2 p2 Ls2 where a: "remove_freenode s1 pool realnext (-1) = Some s0" "rds s0 realnext = rds s1 realnext"
      "upd_rd s0 fh (\<lambda>t. t\<lparr>rd_size := rd_size t + rd_size dn, rd_realnext := rd_realnext dn\<rparr>) = Some s2"
      "s2 = s1\<lparr>pools := (pools s1)(pool \<mapsto> p2), rds := rds s2\<rparr>" "\<exists>fl. p2 = p1\<lparr>freelist := fl\<rparr>"
      "mp_lists pool (rds s2) (heads p2) Ls2" "Ls2 ! 5 = Ls1 ! 5" "\<forall>k<5. set (Ls2 ! k) = set (Ls1 ! k) - {realnext}"
      "\<forall>y. bsz (rds s2) y = (if y = fh then bsz (rds s1) fh + unat (rd_size dn) else bsz (rds s1) y)"
      "\<forall>y. rnx pool (rds s2) y = (if y = fh then Some (mempool_get_realdata pool (rd_realnext dn)) else rnx pool (rds s1) y)"
      "rpv pool (rds s2) = rpv pool (rds s1)" "placed pool (rds s2) = placed pool (rds s1)" "st (rds s2) = st (rds s1)"
      "\<forall>y. y \<notin> set as \<longrightarrow> rds s2 y = rds s1 y"
    using absorb_run [OF merged_pool_at [OF m L(1)] M(3) j(1) j1 cl df sz mem fa(1)] by blast
  have "merged s pool p as Ls fh (ms @ [realnext]) s2 p2 Ls2"
    unfolding merged_def
  proof (intro conjI)
    show "s2 = s\<lparr>pools := (pools s)(pool \<mapsto> p2), rds := rds s2\<rparr>"
      using a(4) M(1) by (cases s1; cases s; cases s2) simp
    show "\<exists>fl. p2 = p\<lparr>freelist := fl\<rparr>" using a(5) M(2) by auto
    show "\<forall>k<5. set (Ls2 ! k) = set (Ls ! k) - set (fh # ms @ [realnext])" using a(8) M(5) by auto
    have "bsz (rds s) realnext = unat (rd_size dn)" using bz(2) dn by (simp add: bsz_def)
    then show "\<forall>y. bsz (rds s2) y = (if y = fh then sum_list (map (bsz (rds s)) (fh # ms @ [realnext])) else bsz (rds s) y)"
      using a(9) M(6) bz(1) by simp
    have "rnx pool (rds s1) realnext = Some (mempool_get_realdata pool (rd_realnext dn))" using dn by (simp add: rnx_def)
    then have "rnx pool (rds s) realnext = Some (mempool_get_realdata pool (rd_realnext dn))" using M(7) [of realnext] ne by simp
    then show "\<forall>y. rnx pool (rds s2) y = (if y = fh then rnx pool (rds s) (last (fh # ms @ [realnext])) else rnx pool (rds s) y)"
      using a(10) M(7) by simp
  qed (use a M in auto)
  moreover have "rd_at s0 realnext = Some dn" using a(2) dn by (simp add: rd_at_def)
  moreover have "set (fh # ms) \<subseteq> set (fh # ms @ [realnext])" "set (fh # ms @ [realnext]) \<subseteq> insert rd (free_blocks Ls)"
    using sub xf by auto
  ultimately show ?thesis using True a(1,3) asx
    by (intro exI [of _ s2] exI [of _ p2] exI [of _ Ls2] exI [of _ "ms @ [realnext]"] exI [of _ B]) simp
qed

end
