(* ===== verification/MempoolFree.thy ===== *)
theory MempoolFree
  imports MempoolMerge
begin

text \<open>
  The rest of \<open>__free_realdata\<close>: the back link of the block behind, the free list of the new size, and
  \<open>leftsize\<close>.  The freed pool satisfies the invariant again.
\<close>

lemma same_conf_freelist: "\<exists>fl. p1 = p\<lparr>freelist := fl\<rparr> \<Longrightarrow> same_conf p p1 \<and> leftsize p1 = leftsize p \<and> busylist p1 = busylist p"
  by (auto simp: same_conf_def)

lemma same_conf_trans: "same_conf p q \<Longrightarrow> same_conf q r \<Longrightarrow> same_conf p r"
  by (simp add: same_conf_def)

lemma tiles_total:
  assumes "tiles pool h (pool + k) as" and "k \<le> 65536"
  shows "(\<Sum>x\<in>set as. bsz h x) < 65536"
proof (cases as)
  case (Cons a as')
  have "distinct as" using assms(1) dchain_distinct unfolding tiles_def by blast
  then have "(\<Sum>x\<in>set as. bsz h x) = sum_list (map (bsz h) as)" by (simp add: sum_list_distinct_conv_sum_set)
  also have "\<dots> < 65536" unfolding Cons by (rule tiles_sum [where A = "[]" and B = "[]"]) (use assms Cons in auto)
  finally show ?thesis .
qed simp

text \<open>The back link of the block behind the merged one.\<close>

lemma merged_back:
  assumes lo: "loose s pool p as Ls rd" and as: "as = A @ fh # ms @ B" and m: "merged s pool p as Ls fh ms s1 p1 Ls1"
    and f: "rds s1 fh = Some f"
  defines "h3 \<equiv> upd_at (rds s1) (mempool_get_realdata pool (rd_realnext f)) (\<lambda>t. t\<lparr>rd_realprev := rd_offset f\<rparr>)"
  shows "tiles pool h3 (pool + unat (pool_size p)) (A @ fh # B)" and "mp_lists pool h3 (heads p1) Ls1"
    and "bsz h3 = bsz (rds s1)" and "placed pool h3 = placed pool (rds s)" and "st h3 = st (rds s)"
    and "y \<notin> set as \<Longrightarrow> h3 y = rds s y" and "h3 fh = Some f"
    and "(if rd_realnext f \<noteq> MEMPOOL_NULL
           then upd_rd s1 (mempool_get_realdata_direct pool (rd_realnext f)) (\<lambda>t. t\<lparr>rd_realprev := rd_offset f\<rparr>)
           else Some s1) = Some (s1\<lparr>rds := h3\<rparr>)"
proof -
  note L = looseD [OF lo] and M = mergedD [OF m]
  define q where "q = mempool_get_realdata pool (rd_realnext f)"
  have t: "tiles pool (rds s) (pool + unat (pool_size p)) (A @ fh # ms @ B)" using L(3) as by simp
  have ch: "dchain (rnx pool (rds s)) (rpv pool (rds s)) NULL (first_block pool) (A @ fh # ms @ B)"
    using t by (simp add: tiles_def)
  have D: "distinct as" using dchain_distinct [OF ch] as by simp
  have "rnx pool (rds s) (last (fh # ms)) = Some q" using M(7) [of fh] f by (simp add: rnx_def q_def)
  moreover have "dchain (rnx pool (rds s)) (rpv pool (rds s)) NULL (first_block pool) ((A @ butlast (fh # ms)) @ last (fh # ms) # B)"
    using ch by (metis append_Cons append_assoc append_butlast_last_id list.distinct(1) append_Nil)
  ultimately have cq: "dchain (rnx pool (rds s)) (rpv pool (rds s)) (last (fh # ms)) q B" unfolding dchain_append by auto
  have q: "q = NULL \<longleftrightarrow> B = []" "B \<noteq> [] \<Longrightarrow> q = hd B" "q \<noteq> NULL \<Longrightarrow> q \<in> set B" using cq by (cases B; auto)+
  have fa: "fh \<in> set as" using as by simp
  have pf: "mempool_get_realdata pool (rd_offset f) = fh" "fh \<noteq> NULL"
    using placedD [of pool "rds s1" fh f] M(9) tilesD(1) [OF L(3) fa] f by simp_all
  have at: "q = NULL \<or> rds s1 q \<noteq> None"
  proof -
    have "q \<noteq> NULL \<Longrightarrow> placed pool (rds s1) q" using q(3) M(9) tilesD(1) [OF L(3), of q] as by simp
    then show ?thesis by (auto simp: placed_def)
  qed
  have qf: "q \<noteq> fh" using q(1,3) D as pf(2) by auto
  note V = back_views [where h = "rds s1" and q = q and o' = "rd_offset f", OF at]
  have h3: "h3 = upd_at (rds s1) q (\<lambda>t. t\<lparr>rd_realprev := rd_offset f\<rparr>)" by (simp add: h3_def q_def)
  show "bsz h3 = bsz (rds s1)" "placed pool h3 = placed pool (rds s)" "st h3 = st (rds s)"
    unfolding h3 using V M by simp_all
  show "mp_lists pool h3 (heads p1) Ls1" unfolding h3 by (rule lists_same_links [OF M(3)]) (use V in simp_all)
  show "y \<notin> set as \<Longrightarrow> h3 y = rds s y" unfolding h3 using M(11) q(3) as by (auto simp: upd_at_apply)
  show "h3 fh = Some f" unfolding h3 using qf f by (simp add: upd_at_apply)
  show "tiles pool h3 (pool + unat (pool_size p)) (A @ fh # B)"
  proof (rule tiles_merge [OF t])
    show "bsz h3 fh = sum_list (map (bsz (rds s)) (fh # ms))" "rnx pool h3 fh = rnx pool (rds s) (last (fh # ms))"
      "rpv pool h3 fh = rpv pool (rds s) fh"
      unfolding h3 using V M(6) [of fh] M(7) [of fh] M(8) qf by simp_all
    show "placed pool h3 fh" unfolding h3 using V(6) M(9) tilesD(1) [OF L(3) fa] by simp
    fix y assume y: "y \<in> set A \<union> set B"
    then have "y \<noteq> fh" "y \<in> set as" using D as by auto
    then show "bsz h3 y = bsz (rds s) y \<and> rnx pool h3 y = rnx pool (rds s) y \<and> placed pool h3 y"
      unfolding h3 using V M(6) [of y] M(7) [of y] M(9) tilesD(1) [OF L(3)] by simp
    show "rpv pool h3 y = (if B \<noteq> [] \<and> y = hd B then Some fh else rpv pool (rds s) y)"
      unfolding h3 using V(1) [where y = y] M(8) q pf by auto
  qed
  show "(if rd_realnext f \<noteq> MEMPOOL_NULL
           then upd_rd s1 (mempool_get_realdata_direct pool (rd_realnext f)) (\<lambda>t. t\<lparr>rd_realprev := rd_offset f\<rparr>)
           else Some s1) = Some (s1\<lparr>rds := h3\<rparr>)"
  proof (cases "q = NULL")
    case True
    then have "rd_realnext f = MEMPOOL_NULL"
      by (auto simp: q_def mempool_get_realdata_def mempool_get_realdata_direct_def sizeof_mempool_def split: if_splits)
    then show ?thesis using True by (simp add: h3 upd_at_def)
  next
    case False
    then have "rd_realnext f \<noteq> MEMPOOL_NULL" "mempool_get_realdata_direct pool (rd_realnext f) = q"
      using get_realdata_direct [of pool "rd_realnext f"] by (auto simp: q_def)
    then show ?thesis using upd_rd_at [of s1 q] at False by (simp add: h3)
  qed
qed

text \<open>The merged block is filed under its size and marked free.\<close>

lemma refile_run:
  assumes p: "pool_at s pool = Some p" and l: "mp_lists pool (rds s) (heads p) Ls"
    and t: "tiles pool (rds s) (pool + unat (pool_size p)) as"
    and u: "u \<in> set as" "\<And>j. j < 6 \<Longrightarrow> u \<notin> set (Ls ! j)" and mem: "\<And>j. j < 6 \<Longrightarrow> set (Ls ! j) \<subseteq> set as"
  shows "\<exists>s1 s2 p2 Ls2. add_freenode s pool u (-1) = Some s1 \<and> upd_rd s1 u (\<lambda>t. t\<lparr>rd_status := 0\<rparr>) = Some s2 \<and>
    s2 = s\<lparr>pools := (pools s)(pool \<mapsto> p2), rds := rds s2\<rparr> \<and> (\<exists>fl. p2 = p\<lparr>freelist := fl\<rparr>) \<and>
    mp_lists pool (rds s2) (heads p2) Ls2 \<and> tiles pool (rds s2) (pool + unat (pool_size p)) as \<and>
    (\<forall>j<6. set (Ls2 ! j) = set (Ls ! j) \<union> (if j = bcl (rds s) u then {u} else {})) \<and> Ls2 ! 5 = Ls ! 5 \<and>
    bsz (rds s2) = bsz (rds s) \<and> (\<forall>x. st (rds s2) x = (if x = u then 0 else st (rds s) x)) \<and>
    (\<forall>x. x \<notin> set as \<longrightarrow> rds s2 x = rds s x)"
proof -
  have pu: "placed pool (rds s) u" by (rule tilesD(1) [OF t u(1)])
  then obtain d where d: "rds s u = Some d" "u \<noteq> NULL" by (auto simp: placed_def)
  let ?k = "bcl (rds s) u"
  have k: "?k < 5" "get_freeidx (ucast (rd_size d)) = int ?k"
    using bcl_rd [where h = "rds s" and x = u, OF d(1)] by (simp_all add: bcl_def cls_lt)
  have pl: "placed pool (rds s) r" if "r \<in> set (Ls ! ?k)" for r
    using mem [of ?k] k(1) that tilesD(1) [OF t, of r] by auto
  obtain s1 p2 where s1: "add_freenode s pool u (-1) = Some s1" "s1 = s\<lparr>pools := (pools s)(pool \<mapsto> p2), rds := rds s1\<rparr>"
      "\<exists>fl. p2 = p\<lparr>freelist := fl\<rparr>" "mp_lists pool (rds s1) (heads p2) (Ls[?k := u # Ls ! ?k])"
      "linked (insert u (set (Ls ! ?k))) (rds s) (rds s1)"
    using add_freenode_run [where freeidx = "-1", OF p l k(1) d(1) pu _ u(2) pl] k(2) by auto
  let ?Ls = "Ls[?k := u # Ls ! ?k]"
  note V = linked_views [OF s1(5)]
  obtain d1 where d1: "rds s1 u = Some d1"
    by (rule linked_cases [OF s1(5), of u]) (use d in simp_all)
  let ?s = "s1\<lparr>rds := (rds s1)(u \<mapsto> d1\<lparr>rd_status := 0\<rparr>)\<rparr>"
  note W = status_views [where h = "rds s1" and k = 0, OF d1]
  have lL: "length Ls = 6" using l by (simp add: mp_lists_def)
  have "upd_rd s1 u (\<lambda>t. t\<lparr>rd_status := 0\<rparr>) = Some ?s" using d1 d(2) by (simp add: upd_rd_run)
  moreover have "?s = s\<lparr>pools := (pools s)(pool \<mapsto> p2), rds := rds ?s\<rparr>" using s1(2) by (cases s1; cases s) simp
  moreover have "mp_lists pool (rds ?s) (heads p2) ?Ls" by (rule lists_same_links [OF s1(4)]) (use W in simp_all)
  moreover have "tiles pool (rds ?s) (pool + unat (pool_size p)) as" using t V W by (simp add: tiles_def)
  moreover have "\<forall>j<6. set (?Ls ! j) = set (Ls ! j) \<union> (if j = ?k then {u} else {})" using lL by auto
  moreover have "?Ls ! 5 = Ls ! 5" using k(1) by simp
  moreover have "\<forall>x. x \<notin> set as \<longrightarrow> rds ?s x = rds s x"
    using s1(5) u(1) mem [of ?k] k(1) by (auto simp: linked_def)
  ultimately show ?thesis using s1(1,3) V W by (intro exI [of _ s1] exI [of _ ?s] exI [of _ p2] exI [of _ ?Ls]) simp
qed

text \<open>The sizes of the free blocks after a merge.\<close>

lemma merged_sum:
  fixes w w' :: "ptr \<Rightarrow> nat"
  assumes F: "finite F" and d: "distinct (f # ms)" and sub: "set (f # ms) \<subseteq> insert r F" "r \<in> set (f # ms)" "r \<notin> F"
    and w: "\<And>y. w' y = (if y = f then sum_list (map w (f # ms)) else w y)"
  shows "(\<Sum>x\<in>insert f (F - set (f # ms)). w' x) = (\<Sum>x\<in>F. w x) + w r"
proof -
  let ?M = "set (f # ms)"
  have m: "sum_list (map w (f # ms)) = (\<Sum>x\<in>?M. w x)" using d by (simp add: sum_list_distinct_conv_sum_set)
  have "(\<Sum>x\<in>insert f (F - ?M). w' x) = w' f + (\<Sum>x\<in>F - ?M. w' x)" by (rule sum.insert) (use F in auto)
  also have "\<dots> = (\<Sum>x\<in>?M. w x) + (\<Sum>x\<in>F - ?M. w x)"
    using w [of f] m by (intro arg_cong2 [where f = plus] sum.cong) (auto simp: w)
  also have "\<dots> = (\<Sum>x\<in>?M \<union> (F - ?M). w x)" by (rule sum.union_disjoint [symmetric]) (use F in auto)
  also have "?M \<union> (F - ?M) = insert r F" using sub by auto
  finally show ?thesis using sub(3) F by (simp add: sum.insert)
qed

text \<open>What is known of the state before \<open>leftsize\<close> is updated: \<open>fh\<close> has taken over \<open>ms\<close>, all but \<open>rd\<close> free before.\<close>

definition refiled :: "mpmem \<Rightarrow> ptr \<Rightarrow> mempool \<Rightarrow> ptr list list \<Rightarrow> ptr \<Rightarrow> ptr list \<Rightarrow> ptr list \<Rightarrow> mpmem \<Rightarrow> mempool \<Rightarrow> ptr list list \<Rightarrow> bool" where
  "refiled s pool p Ls fh ms as' s5 p5 Ls5 \<longleftrightarrow>
     s5 = s\<lparr>pools := (pools s)(pool \<mapsto> p5), rds := rds s5\<rparr> \<and> (\<exists>fl. p5 = p\<lparr>freelist := fl\<rparr>) \<and>
     mp_lists pool (rds s5) (heads p5) Ls5 \<and> tiles pool (rds s5) (pool + unat (pool_size p)) as' \<and>
     (\<forall>j<5. set (Ls5 ! j) = set (Ls ! j) - set (fh # ms) \<union> (if j = bcl (rds s5) fh then {fh} else {})) \<and> Ls5 ! 5 = Ls ! 5 \<and>
     (\<forall>y. bsz (rds s5) y = (if y = fh then sum_list (map (bsz (rds s)) (fh # ms)) else bsz (rds s) y)) \<and>
     (\<forall>x. st (rds s5) x = (if x = fh then 0 else st (rds s) x))"

lemma merged_lists:
  assumes lo: "loose s pool p as Ls rd" and as: "as = A @ fh # ms @ B" and m: "merged s pool p as Ls fh ms s2 p2 Ls2"
    and sub: "set (fh # ms) \<subseteq> insert rd (free_blocks Ls)" and j: "j < 6"
  shows "fh \<notin> set (Ls2 ! j)" and "set (Ls2 ! j) \<subseteq> set (A @ fh # B)"
proof -
  note L = looseD [OF lo] and M = mergedD [OF m]
  have a: "set as = set (A @ fh # B) \<union> set (fh # ms)" using as by auto
  have "fh \<notin> set (Ls2 ! j) \<and> set (Ls2 ! j) \<subseteq> set (A @ fh # B)"
  proof (cases "j = 5")
    case True
    have "set (fh # ms) \<inter> set (Ls ! 5) = {}" using sub L(8) free_not_busy [OF L(2)] by blast
    moreover have "set (Ls ! 5) \<subseteq> set as" using L(6) by blast
    ultimately show ?thesis using True M(4) a by auto
  next
    case False
    then have "set (Ls2 ! j) = set (Ls ! j) - set (fh # ms)" "set (Ls ! j) \<subseteq> set as"
      using M(5) [of j] j loose_mem [OF lo, of j] by auto
    then show ?thesis using a by auto
  qed
  then show "fh \<notin> set (Ls2 ! j)" "set (Ls2 ! j) \<subseteq> set (A @ fh # B)" by blast+
qed

lemma merged_refile:
  assumes lo: "loose s pool p as Ls rd" and as: "as = A @ fh # ms @ B" and m: "merged s pool p as Ls fh ms s2 p2 Ls2"
    and sub: "set (fh # ms) \<subseteq> insert rd (free_blocks Ls)" and f: "rds s2 fh = Some f"
  shows "\<exists>s3 s4 s5 p5 Ls5. (if rd_realnext f \<noteq> MEMPOOL_NULL
           then upd_rd s2 (mempool_get_realdata_direct pool (rd_realnext f)) (\<lambda>t. t\<lparr>rd_realprev := rd_offset f\<rparr>)
           else Some s2) = Some s3 \<and> add_freenode s3 pool fh (-1) = Some s4 \<and>
      upd_rd s4 fh (\<lambda>t. t\<lparr>rd_status := 0\<rparr>) = Some s5 \<and> refiled s pool p Ls fh ms (A @ fh # B) s5 p5 Ls5 \<and>
      (\<forall>x. x \<notin> set as \<longrightarrow> rds s5 x = rds s x)"
proof -
  note L = looseD [OF lo] and M = mergedD [OF m]
  note K = merged_lists [OF lo as m sub]
  define h3 where "h3 = upd_at (rds s2) (mempool_get_realdata pool (rd_realnext f)) (\<lambda>t. t\<lparr>rd_realprev := rd_offset f\<rparr>)"
  note B = merged_back [OF lo as m f, folded h3_def]
  define s3 where "s3 = s2\<lparr>rds := h3\<rparr>"
  have r3: "rds s3 = h3" "pools s3 = pools s2" by (simp_all add: s3_def)
  have p3: "pool_at s3 pool = Some p2" using merged_pool_at [OF m L(1)] r3 by (simp add: pool_at_def split: if_splits)
  have ps: "pool_size p2 = pool_size p" using same_confD same_conf_freelist [OF M(2)] by blast
  have t3: "tiles pool (rds s3) (pool + unat (pool_size p2)) (A @ fh # B)" using B(1) ps r3 by simp
  have l3: "mp_lists pool (rds s3) (heads p2) Ls2" using B(2) r3 by simp
  have fa: "fh \<in> set (A @ fh # B)" by simp
  obtain s4 s5 p5 Ls5 where s5: "add_freenode s3 pool fh (-1) = Some s4" "upd_rd s4 fh (\<lambda>t. t\<lparr>rd_status := 0\<rparr>) = Some s5"
      "s5 = s3\<lparr>pools := (pools s3)(pool \<mapsto> p5), rds := rds s5\<rparr>" "\<exists>fl. p5 = p2\<lparr>freelist := fl\<rparr>"
      "mp_lists pool (rds s5) (heads p5) Ls5" "tiles pool (rds s5) (pool + unat (pool_size p2)) (A @ fh # B)"
      "\<forall>j<6. set (Ls5 ! j) = set (Ls2 ! j) \<union> (if j = bcl (rds s3) fh then {fh} else {})" "Ls5 ! 5 = Ls2 ! 5"
      "bsz (rds s5) = bsz (rds s3)" "\<forall>x. st (rds s5) x = (if x = fh then 0 else st (rds s3) x)"
      "\<forall>x. x \<notin> set (A @ fh # B) \<longrightarrow> rds s5 x = rds s3 x"
    using refile_run [OF p3 l3 t3 fa K] by blast
  have "refiled s pool p Ls fh ms (A @ fh # B) s5 p5 Ls5"
    unfolding refiled_def
  proof (intro conjI)
    show "s5 = s\<lparr>pools := (pools s)(pool \<mapsto> p5), rds := rds s5\<rparr>"
      using s5(3) M(1) by (cases s5; cases s2; cases s) (simp add: s3_def)
    show "\<exists>fl. p5 = p\<lparr>freelist := fl\<rparr>" using s5(4) M(2) by auto
    show "tiles pool (rds s5) (pool + unat (pool_size p)) (A @ fh # B)" using s5(6) ps by simp
    show "\<forall>j<5. set (Ls5 ! j) = set (Ls ! j) - set (fh # ms) \<union> (if j = bcl (rds s5) fh then {fh} else {})"
    proof (intro allI impI)
      fix j :: nat assume j: "j < 5"
      have "bcl (rds s5) fh = bcl (rds s3) fh" using s5(9) by (simp add: bcl_def)
      moreover have "set (Ls5 ! j) = set (Ls2 ! j) \<union> (if j = bcl (rds s3) fh then {fh} else {})" using s5(7) j by simp
      ultimately show "set (Ls5 ! j) = set (Ls ! j) - set (fh # ms) \<union> (if j = bcl (rds s5) fh then {fh} else {})"
        using M(5) [OF j] by simp
    qed
  qed (use s5(5,8-10) B(3,5) M(4,6) r3 in simp_all)
  moreover have "\<forall>x. x \<notin> set as \<longrightarrow> rds s5 x = rds s x" using s5(11) B(6) r3 as by auto
  ultimately show ?thesis using B(8) s5(1,2) by (auto simp: s3_def)
qed

lemma free_stages:
  assumes lo: "loose s pool p as Ls rd"
  shows "\<exists>d fh ms A B s5 p5 Ls5. rds s rd = Some d \<and> as = A @ fh # ms @ B \<and> rd \<in> set (fh # ms) \<and>
    set (fh # ms) \<subseteq> insert rd (free_blocks Ls) \<and> refiled s pool p Ls fh ms (A @ fh # B) s5 p5 Ls5 \<and>
    (\<forall>x. x \<notin> set as \<longrightarrow> rds s5 x = rds s x) \<and>
    free_realdata s pool rd = upd_pool s5 pool (\<lambda>p. p\<lparr>leftsize := leftsize p + ucast (rd_size d), failed := 0\<rparr>)"
proof -
  note L = looseD [OF lo]
  have prd: "placed pool (rds s) rd" by (rule tilesD(1) [OF L(3,5)])
  then obtain d where d: "rds s rd = Some d" "rd \<noteq> NULL" by (auto simp: placed_def)
  obtain A0 B0 where as0: "as = A0 @ rd # B0" using L(5) by (meson split_list)
  define realprev where "realprev = mempool_get_realdata pool (rd_realprev d)"
  define realnext where "realnext = mempool_get_realdata pool (rd_realnext d)"
  define pf where "pf \<longleftrightarrow> realprev \<noteq> NULL \<and> st (rds s) realprev = 0"
  define nf where "nf \<longleftrightarrow> realnext \<noteq> NULL \<and> st (rds s) realnext = 0"
  obtain s1 fh p1 Ls1 A ms where m1: "(if pf then do {
       s \<leftarrow> remove_freenode s pool realprev (-1);
       s \<leftarrow> upd_rd s realprev (\<lambda>t. t\<lparr>rd_size := rd_size t + rd_size d, rd_realnext := rd_realnext d\<rparr>);
       Some (s, realprev) }
     else Some (s, rd)) = Some (s1, fh)"
    "as = A @ fh # ms @ B0" "set (fh # ms) \<subseteq> insert rd (free_blocks Ls)" "merged s pool p as Ls fh ms s1 p1 Ls1" "last (fh # ms) = rd"
    using merge_prev_run [OF lo as0 d(1) realprev_def pf_def] by blast
  have rn: "rnx pool (rds s) (last (fh # ms)) = Some realnext" using m1(5) d by (simp add: rnx_def realnext_def)
  obtain s2 p2 Ls2 ms' B where m2: "(if nf then do {
       s \<leftarrow> remove_freenode s1 pool realnext (-1);
       n \<leftarrow> rd_at s realnext;
       upd_rd s fh (\<lambda>t. t\<lparr>rd_size := rd_size t + rd_size n, rd_realnext := rd_realnext n\<rparr>) }
     else Some s1) = Some s2"
    "as = A @ fh # ms' @ B" "set (fh # ms) \<subseteq> set (fh # ms')" "set (fh # ms') \<subseteq> insert rd (free_blocks Ls)"
    "merged s pool p as Ls fh ms' s2 p2 Ls2"
    using merge_next_run [OF lo m1(2,4,3) rn nf_def] by blast
  note M1 = mergedD [OF m1(4)] and M = mergedD [OF m2(5)]
  have "last (fh # ms) \<in> set (fh # ms')" by (rule subsetD [OF m2(3) last_in_set]) simp
  then have rdm: "rd \<in> set (fh # ms')" by (simp only: m1(5))
  have fa: "fh \<in> set as" using m2(2) by simp
  have pfh: "placed pool (rds s2) fh" using M(9) tilesD(1) [OF L(3) fa] by simp
  then obtain f where f: "rds s2 fh = Some f" "fh \<noteq> NULL" by (auto simp: placed_def)
  obtain s3 s4 s5 p5 Ls5 where r: "(if rd_realnext f \<noteq> MEMPOOL_NULL
           then upd_rd s2 (mempool_get_realdata_direct pool (rd_realnext f)) (\<lambda>t. t\<lparr>rd_realprev := rd_offset f\<rparr>)
           else Some s2) = Some s3" "add_freenode s3 pool fh (-1) = Some s4"
      "upd_rd s4 fh (\<lambda>t. t\<lparr>rd_status := 0\<rparr>) = Some s5" "refiled s pool p Ls fh ms' (A @ fh # B) s5 p5 Ls5"
      "\<forall>x. x \<notin> set as \<longrightarrow> rds s5 x = rds s x"
    using merged_refile [OF lo m2(2,5,4) f(1)] by blast
  have "(if realprev \<noteq> NULL then do { t \<leftarrow> rd_at s realprev; Some (rd_status t = 0) } else Some False) = Some pf"
  proof (cases "realprev = NULL")
    case False
    have "rpv pool (rds s) rd = Some realprev" using d by (simp add: rpv_def realprev_def)
    then have "realprev = last (NULL # A0)" using L(3) unfolding tiles_def as0 by (auto simp: dchain_append)
    then have "realprev \<in> set as" using False as0 by (auto split: if_splits)
    then show ?thesis using tilesD(1) [OF L(3), of realprev] False by (auto simp: placed_def rd_at_def st_def pf_def)
  qed (simp add: pf_def)
  moreover have "(if realnext \<noteq> NULL then do { t \<leftarrow> rd_at s1 realnext; Some (rd_status t = 0) } else Some False) = Some nf"
  proof (cases "realnext = NULL")
    case False
    have "realnext = (case B0 of [] \<Rightarrow> NULL | y # _ \<Rightarrow> y)"
      using tiles_next [OF L(3) [unfolded as0]] tilesD(5) [OF L(3,5)] d by (simp add: rnx_def realnext_def)
    then have "realnext \<in> set as" using False as0 by (cases B0) auto
    then have "placed pool (rds s1) realnext" using tilesD(1) [OF L(3)] M1(9) by simp
    moreover have "st (rds s1) realnext = st (rds s) realnext" using M1(10) by simp
    ultimately show ?thesis using False by (auto simp: placed_def rd_at_def st_def nf_def)
  qed (simp add: nf_def)
  moreover have "rd_at s rd = Some d" "rd_at s2 fh = Some f" using d f by (simp_all add: rd_at_def)
  ultimately have "free_realdata s pool rd = upd_pool s5 pool (\<lambda>p. p\<lparr>leftsize := leftsize p + ucast (rd_size d), failed := 0\<rparr>)"
    unfolding free_realdata_def
    by (simp only: Option.bind.bind_lunit Let_def prod.case realprev_def [symmetric] realnext_def [symmetric] m1(1) m2(1) r(1-3))
  then show ?thesis using d(1) m2(2,4) rdm r(4,5) by blast
qed

lemma free_realdata_run:
  assumes lo: "loose s pool p as Ls rd" and left: "unat (leftsize p) = (\<Sum>x\<in>free_blocks Ls. bsz (rds s) x)" and b: "Ls ! 5 \<noteq> []"
  shows "\<exists>s' p' as' Ls'. free_realdata s pool rd = Some s' \<and> s' = s\<lparr>pools := (pools s)(pool \<mapsto> p'), rds := rds s'\<rparr> \<and>
    same_conf p p' \<and> Ls' ! 5 = Ls ! 5 \<and> pool_ok pool p' (rds s') as' Ls' \<and>
    (\<forall>x\<in>set (Ls ! 5). bsz (rds s') x = bsz (rds s) x) \<and> (\<forall>x. x \<notin> set as \<longrightarrow> rds s' x = rds s x)"
proof -
  note L = looseD [OF lo]
  obtain d fh ms A B s5 p5 Ls5 where d: "rds s rd = Some d" and as: "as = A @ fh # ms @ B" and rdm: "rd \<in> set (fh # ms)"
    and sub: "set (fh # ms) \<subseteq> insert rd (free_blocks Ls)" and rf: "refiled s pool p Ls fh ms (A @ fh # B) s5 p5 Ls5"
    and out: "\<forall>x. x \<notin> set as \<longrightarrow> rds s5 x = rds s x"
    and run: "free_realdata s pool rd = upd_pool s5 pool (\<lambda>p. p\<lparr>leftsize := leftsize p + ucast (rd_size d), failed := 0\<rparr>)"
    using free_stages [OF lo] by blast
  have R: "s5 = s\<lparr>pools := (pools s)(pool \<mapsto> p5), rds := rds s5\<rparr>" "\<exists>fl. p5 = p\<lparr>freelist := fl\<rparr>"
     "mp_lists pool (rds s5) (heads p5) Ls5" "tiles pool (rds s5) (pool + unat (pool_size p)) (A @ fh # B)"
     "j < 5 \<Longrightarrow> set (Ls5 ! j) = set (Ls ! j) - set (fh # ms) \<union> (if j = bcl (rds s5) fh then {fh} else {})" "Ls5 ! 5 = Ls ! 5"
     "bsz (rds s5) y = (if y = fh then sum_list (map (bsz (rds s)) (fh # ms)) else bsz (rds s) y)"
     "st (rds s5) x = (if x = fh then 0 else st (rds s) x)" for j x y
    using rf unfolding refiled_def by blast+
  define p' where "p' = p5\<lparr>leftsize := leftsize p5 + ucast (rd_size d), failed := 0\<rparr>"
  define s' where "s' = s5\<lparr>pools := (pools s5)(pool \<mapsto> p')\<rparr>"
  have pN: "pool \<noteq> NULL" using L(1) by (auto simp: pool_at_def split: if_splits)
  have ps5: "pools s5 = (pools s)(pool \<mapsto> p5)" by (subst R(1)) simp
  have run': "free_realdata s pool rd = Some s'" using run ps5 pN by (simp add: upd_pool_def pool_at_def s'_def p'_def)
  have s': "s' = s\<lparr>pools := (pools s)(pool \<mapsto> p'), rds := rds s'\<rparr>" using R(1) by (cases s5; cases s) (simp add: s'_def)
  have D: "distinct (A @ fh # ms @ B)" using L(3) dchain_distinct as unfolding tiles_def by blast
  have nb: "set (fh # ms) \<inter> set (Ls ! 5) = {}" using sub L(8) free_not_busy [OF L(2)] by blast
  have asset: "set (A @ fh # B) = insert fh (set as - set (fh # ms))" using D as by auto
  have k: "bcl (rds s5) fh < 5" by (simp add: bcl_def cls_lt)
  have F: "free_blocks Ls5 = insert fh (free_blocks Ls - set (fh # ms))"
  proof -
    have "free_blocks Ls5 = (\<Union>j<5. set (Ls ! j) - set (fh # ms) \<union> (if j = bcl (rds s5) fh then {fh} else {}))"
      unfolding free_blocks_def using R(5) by simp
    then show ?thesis using k by (auto simp: free_blocks_def split: if_splits)
  qed
  have sum: "(\<Sum>x\<in>free_blocks Ls5. bsz (rds s5) x) = (\<Sum>x\<in>free_blocks Ls. bsz (rds s) x) + bsz (rds s) rd"
    unfolding F by (rule merged_sum [OF _ _ sub rdm L(7) R(7)]) (use D in simp_all)
  have tot: "(\<Sum>x\<in>free_blocks Ls5. bsz (rds s5) x) < 65536"
  proof -
    have "free_blocks Ls5 \<subseteq> set (A @ fh # B)" unfolding F asset using L(6) by blast
    then have "(\<Sum>x\<in>free_blocks Ls5. bsz (rds s5) x) \<le> (\<Sum>x\<in>set (A @ fh # B). bsz (rds s5) x)" by (intro sum_mono2) auto
    then show ?thesis using tiles_total [OF R(4) L(4)] by simp
  qed
  have cl: "bcl (rds s5) x = j" if j: "j < 5" "x \<in> set (Ls5 ! j)" for j x
  proof (cases "x = fh")
    case True
    then show ?thesis using that R(5) [OF j(1)] by (auto split: if_splits)
  next
    case False
    then have "x \<in> set (Ls ! j)" using that R(5) [OF j(1)] by (auto split: if_splits)
    then show ?thesis using L(12) [OF j(1)] R(7) [of x] False by (simp add: bcl_def)
  qed
  have "pool_ok pool p' (rds s') (A @ fh # B) Ls5"
  proof -
    have u: "unat (ucast (rd_size d) :: u24) = bsz (rds s) rd"
      using unat_u16 [of "rd_size d"] d by (simp add: unsigned_ucast_eq take_bit_nat_eq_self bsz_def)
    have l5: "leftsize p5 = leftsize p" "pool_size p' = pool_size p" using R(2) by (auto simp: p'_def)
    have "unat (leftsize p') = (\<Sum>x\<in>free_blocks Ls5. bsz (rds s') x)"
      using sum tot left u l5 by (simp add: p'_def s'_def unat_word_ariths)
    moreover have "mp_lists pool (rds s') (heads p') Ls5" using R(3) by (simp add: p'_def heads_def s'_def)
    moreover have "tiles pool (rds s') (pool + unat (pool_size p')) (A @ fh # B)" using R(4) l5 by (simp add: s'_def)
    moreover have "set (A @ fh # B) = free_blocks Ls5 \<union> set (Ls5 ! 5)"
    proof -
      have "set as - M = (free_blocks Ls - M) \<union> set (Ls ! 5)" if "rd \<in> M" "M \<inter> set (Ls ! 5) = {}" for M
        unfolding L(6) using that by blast
      from this [OF rdm nb] show ?thesis unfolding F R(6) asset by simp
    qed
    moreover have "\<forall>x\<in>free_blocks Ls5. st (rds s') x = 0" unfolding F s'_def using R(8) L(9) by simp
    moreover have "\<forall>x\<in>set (Ls5 ! 5). st (rds s') x = 1" unfolding R(6) s'_def using R(8) L(10) nb by auto
    moreover have "\<forall>j<5. \<forall>x\<in>set (Ls5 ! j). bcl (rds s') x = j" using cl by (simp add: s'_def)
    ultimately show ?thesis unfolding pool_ok_def using pN l5 L(4) b R(6) by simp
  qed
  moreover have "same_conf p p'" using R(2) by (auto simp: same_conf_def p'_def)
  moreover have "\<forall>x\<in>set (Ls ! 5). bsz (rds s') x = bsz (rds s) x" using R(7) nb by (auto simp: s'_def)
  moreover have "\<forall>x. x \<notin> set as \<longrightarrow> rds s' x = rds s x" using out by (simp add: s'_def)
  ultimately show ?thesis using run' s' R(6)
    by (intro exI [of _ s'] exI [of _ p'] exI [of _ "A @ fh # B"] exI [of _ Ls5]) (intro conjI; assumption)
qed

text \<open>A block that leaves the busy list is loose.\<close>

lemma unlink_busy_loose:
  assumes p: "pool_at s pool = Some p" and ok: "pool_ok pool p (rds s) as Ls" and rd: "rd \<in> set (Ls ! 5)"
  shows "\<exists>s1 b xs d. unlink_busy s pool rd = Some s1 \<and> s1 = s\<lparr>pools := (pools s)(pool \<mapsto> p\<lparr>busylist := b\<rparr>), rds := rds s1\<rparr> \<and>
    loose s1 pool (p\<lparr>busylist := b\<rparr>) as (Ls[5 := xs]) rd \<and> set xs = set (Ls ! 5) - {rd} \<and> length Ls = 6 \<and>
    bsz (rds s1) = bsz (rds s) \<and> (\<forall>x. x \<notin> set as \<longrightarrow> rds s1 x = rds s x) \<and>
    rds s1 rd = Some d \<and> rd_next d = MEMPOOL_NULL \<and> rd_prev d = MEMPOOL_NULL"
proof -
  note K = ok [unfolded pool_ok_def]
  have l: "mp_lists pool (rds s) (heads p) Ls" using K by blast
  obtain xs ys where x: "Ls ! 5 = xs @ rd # ys" using rd by (meson split_list)
  have D: "distinct (xs @ rd # ys)" using dchain_distinct [OF lists_chain [OF l, of 5]] x by simp
  have rda: "rd \<in> set as" by (rule pool_ok_mem [OF ok _ rd]) simp
  have t: "tiles pool (rds s) (pool + unat (pool_size p)) as" using K by blast
  obtain d where d: "rds s rd = Some d" using tilesD(1) [OF t rda] by (auto simp: placed_def)
  obtain s1 b where s1: "unlink_busy s pool rd = Some s1" "s1 = s\<lparr>pools := (pools s)(pool \<mapsto> p\<lparr>busylist := b\<rparr>), rds := rds s1\<rparr>"
      "mp_lists pool (rds s1) (heads (p\<lparr>busylist := b\<rparr>)) (Ls[5 := xs @ ys])" "linked (set (xs @ rd # ys)) (rds s) (rds s1)"
      "rds s1 rd = Some (d\<lparr>rd_prev := MEMPOOL_NULL, rd_next := MEMPOOL_NULL\<rparr>)"
    using unlink_busy_run [OF p l x d] by blast
  note V = linked_views [OF s1(4)]
  have lL: "length Ls = 6" using l by (simp add: mp_lists_def)
  have f: "free_blocks (Ls[5 := xs @ ys]) = free_blocks Ls" by (simp add: free_blocks_def)
  have nb: "x \<in> free_blocks Ls \<Longrightarrow> x \<notin> set (Ls ! 5)" for x by (rule free_not_busy [OF l])
  have ps1: "pools s1 = (pools s)(pool \<mapsto> p\<lparr>busylist := b\<rparr>)" by (subst s1(2)) simp
  have "loose s1 pool (p\<lparr>busylist := b\<rparr>) as (Ls[5 := xs @ ys]) rd"
    unfolding loose_def f
  proof (intro conjI)
    show "pool_at s1 pool = Some (p\<lparr>busylist := b\<rparr>)" using ps1 K by (simp add: pool_at_def)
    show "tiles pool (rds s1) (pool + unat (pool_size (p\<lparr>busylist := b\<rparr>))) as" using t tiles_linked [OF s1(4)] by simp
    show "set as = insert rd (free_blocks Ls \<union> set (Ls[5 := xs @ ys] ! 5))" using K x lL by auto
    show "rd \<notin> free_blocks Ls" using nb rd by blast
    show "rd \<notin> set (Ls[5 := xs @ ys] ! 5)" using D lL by simp
    show "\<forall>x\<in>free_blocks Ls. st (rds s1) x = 0" "st (rds s1) rd = 1" "\<forall>x\<in>set (Ls[5 := xs @ ys] ! 5). st (rds s1) x = 1"
      using K V(5) rd x lL by auto
    show "\<forall>j<5. \<forall>x\<in>set (Ls[5 := xs @ ys] ! j). bcl (rds s1) x = j" using K V(3) x by (simp add: bcl_def)
  qed (use s1(3) rda K in simp_all)
  moreover have "set (xs @ ys) = set (Ls ! 5) - {rd}" using x D by auto
  moreover have "\<forall>x. x \<notin> set as \<longrightarrow> rds s1 x = rds s x"
    using s1(4) pool_ok_mem [OF ok, of 5] x unfolding linked_def by auto
  ultimately show ?thesis using s1(1,2,5) V(3) lL
    by (intro exI [of _ s1] exI [of _ b] exI [of _ "xs @ ys"] exI [of _ "d\<lparr>rd_prev := MEMPOOL_NULL, rd_next := MEMPOOL_NULL\<rparr>"]) 
      (intro conjI; assumption?; simp)
qed

text \<open>The pool that had no free block left: the block becomes the only free one.\<close>

lemma push_only_free:
  assumes lo: "loose s pool p as Ls rd" and left: "unat (leftsize p) = (\<Sum>x\<in>free_blocks Ls. bsz (rds s) x)" and z: "leftsize p = 0"
    and b: "Ls ! 5 \<noteq> []" and d: "rds s rd = Some d" "rd_next d = MEMPOOL_NULL" "rd_prev d = MEMPOOL_NULL"
  shows "\<exists>s1 s2 s3 p' Ls'. set_freelist s pool (get_freeidx (ucast (rd_size d))) rd = Some s1 \<and>
    upd_rd s1 rd (\<lambda>t. t\<lparr>rd_status := 0\<rparr>) = Some s2 \<and>
    upd_pool s2 pool (\<lambda>p. p\<lparr>leftsize := leftsize p + ucast (rd_size d), failed := 0\<rparr>) = Some s3 \<and>
    s3 = s\<lparr>pools := (pools s)(pool \<mapsto> p'), rds := rds s3\<rparr> \<and>
    same_conf p p' \<and> Ls' ! 5 = Ls ! 5 \<and> pool_ok pool p' (rds s3) as Ls' \<and>
    (\<forall>x\<in>set (Ls ! 5). bsz (rds s3) x = bsz (rds s) x) \<and> (\<forall>x. x \<notin> set as \<longrightarrow> rds s3 x = rds s x)"
proof -
  note L = looseD [OF lo]
  have pp: "pools s pool = Some p" "pool \<noteq> NULL" using L(1) by (auto simp: pool_at_def split: if_splits)
  have lL: "length Ls = 6" using L(2) by (simp add: mp_lists_def)
  note len = lists_length [OF L(2)]
  have F: "free_blocks Ls = {}"
  proof -
    have "\<forall>x\<in>free_blocks Ls. bsz (rds s) x = 0" using left z by simp
    moreover have "0 < bsz (rds s) x" if "x \<in> free_blocks Ls" for x
      using tilesD(2) [OF L(3), of x] that L(6) by (auto simp: sizeof_realdata_def)
    ultimately show ?thesis by (metis all_not_in_conv less_irrefl)
  qed
  have E: "Ls ! j = []" if "j < 5" for j using F that by (auto simp: free_blocks_def)
  let ?k = "bcl (rds s) rd"
  have k: "?k < 5" "get_freeidx (ucast (rd_size d)) = int ?k"
    using bcl_rd [where h = "rds s" and x = rd, OF d(1)] by (simp_all add: bcl_def cls_lt)
  have rdN: "rd \<noteq> NULL" using tilesD(1) [OF L(3,5)] by (auto simp: placed_def)
  let ?p = "p\<lparr>freelist := (freelist p)[?k := rd]\<rparr>"
  let ?p' = "?p\<lparr>leftsize := leftsize p + ucast (rd_size d), failed := 0\<rparr>"
  let ?s1 = "s\<lparr>pools := (pools s)(pool \<mapsto> ?p)\<rparr>"
  let ?h = "(rds s)(rd \<mapsto> d\<lparr>rd_status := 0\<rparr>)"
  let ?s2 = "?s1\<lparr>rds := ?h\<rparr>" and ?s3 = "s\<lparr>pools := (pools s)(pool \<mapsto> ?p'), rds := ?h\<rparr>"
  let ?Ls = "Ls[?k := [rd]]"
  note W = status_views [where h = "rds s" and k = 0, OF d(1)]
  have u: "unat (ucast (rd_size d) :: u24) = bsz (rds s) rd"
    using unat_u16 [of "rd_size d"] d by (simp add: unsigned_ucast_eq take_bit_nat_eq_self bsz_def)
  have r1: "set_freelist s pool (get_freeidx (ucast (rd_size d))) rd = Some ?s1"
    using k len pp by (simp add: set_freelist_def upd_pool_def pool_at_def)
  have r2: "upd_rd ?s1 rd (\<lambda>t. t\<lparr>rd_status := 0\<rparr>) = Some ?s2" using d(1) rdN by (simp add: upd_rd_run)
  have r3: "upd_pool ?s2 pool (\<lambda>p. p\<lparr>leftsize := leftsize p + ucast (rd_size d), failed := 0\<rparr>) = Some ?s3"
    using pp by (simp add: upd_pool_def pool_at_def)
  have k6: "?k < 6" using k(1) by simp
  have fr: "rd \<notin> set (Ls ! j)" if "j < 6" for j using that L(8) E [of j] by (cases "j = 5") auto
  have c: "dchain (fnx pool ?h) (fpv pool ?h) NULL rd [rd]" using d rdN by (simp add: fnx_def fpv_def)
  have l: "mp_lists pool ?h ((heads p)[?k := rd]) ?Ls"
    by (rule lists_upd [OF L(2) k6 c]) (use W fr in auto)
  have F': "free_blocks ?Ls = {rd}"
  proof -
    have "set (?Ls ! j) = (if j = ?k then {rd} else {})" if "j < 5" for j using that lL E [OF that] by simp
    then have "free_blocks ?Ls = (\<Union>j<5. if j = ?k then {rd} else {})" unfolding free_blocks_def by simp
    then show ?thesis using k(1) by (auto split: if_splits)
  qed
  have b5: "?Ls ! 5 = Ls ! 5" using k(1) by simp
  have ok: "pool_ok pool ?p' (rds ?s3) as ?Ls"
    unfolding pool_ok_def F' b5
  proof (intro conjI)
    have "heads ?p' = (heads p)[?k := rd]" using heads_free(2) [OF len k(1), of rd] by (simp add: heads_def)
    then show "mp_lists pool (rds ?s3) (heads ?p') ?Ls" using l by simp
    show "tiles pool (rds ?s3) (pool + unat (pool_size ?p')) as" using L(3) W by (simp add: tiles_def)
    show "set as = {rd} \<union> set (Ls ! 5)" using L(6) F by simp
    show "\<forall>x\<in>set (Ls ! 5). st (rds ?s3) x = 1" using L(8,10) W(1) by auto
    show "unat (leftsize ?p') = (\<Sum>x\<in>{rd}. bsz (rds ?s3) x)" using u z W(2) by simp
    have "bcl ?h x = j" if "j < 5" "x \<in> set (?Ls ! j)" for j x
      using that E [OF that(1)] lL W(2) by (cases "j = ?k") (auto simp: bcl_def)
    then show "if Ls ! 5 = [] then as = [first_block pool] \<and> ?Ls = [[], [], [], [], [first_block pool], []]
      else \<forall>j<5. \<forall>x\<in>set (?Ls ! j). bcl (rds ?s3) x = j" using b by simp
  qed (use pp L(4) W(1) in simp_all)
  have "same_conf p ?p'" by (simp add: same_conf_def)
  moreover have "\<forall>x\<in>set (Ls ! 5). bsz (rds ?s3) x = bsz (rds s) x" using W(2) by simp
  moreover have "\<forall>x. x \<notin> set as \<longrightarrow> rds ?s3 x = rds s x" using L(5) by auto
  ultimately show ?thesis using r1 r2 r3 ok b5
    by (intro exI [of _ ?s1] exI [of _ ?s2] exI [of _ ?s3] exI [of _ ?p'] exI [of _ ?Ls]) simp
qed

end
