(* ===== verification/MempoolHeap.thy ===== *)
theory MempoolHeap
  imports MempoolFree
begin

text \<open>
  All pools of a heap: each satisfies its invariant and no two overlap.  Updates of fields that the blocks do
  not depend on are steps that keep this, also while one pool is under repair.
\<close>

section \<open>All pools of the heap\<close>

definition heap_ok :: "mpmem \<Rightarrow> (ptr \<Rightarrow> ptr set) \<Rightarrow> bool" where
  "heap_ok s D \<longleftrightarrow>
     (\<forall>a p. pool_at s a = Some p \<longrightarrow> (\<exists>as Ls. pool_ok a p (rds s) as Ls \<and> set (Ls ! 5) = D a)) \<and>
     (\<forall>a. pool_at s a = None \<longrightarrow> D a = {}) \<and>
     (\<forall>a p b q. pool_at s a = Some p \<longrightarrow> pool_at s b = Some q \<longrightarrow> a < b \<longrightarrow> a + unat (pool_size p) \<le> b)"

lemma pool_ok_cong:
  assumes "pool_ok pool p h as Ls" and "pool_size p' = pool_size p" "freelist p' = freelist p" "busylist p' = busylist p" "leftsize p' = leftsize p"
  shows "pool_ok pool p' h as Ls"
  using assms by (simp add: pool_ok_def heads_def)

lemma pool_ok_frame:
  assumes ok: "pool_ok pool p h as Ls" and same: "\<And>x. x \<in> set as \<Longrightarrow> h' x = h x"
  shows "pool_ok pool p h' as Ls"
proof -
  have v: "rnx pool h' x = rnx pool h x" "rpv pool h' x = rpv pool h x" "fnx pool h' x = fnx pool h x" "fpv pool h' x = fpv pool h x"
    "placed pool h' x = placed pool h x" "bsz h' x = bsz h x" "st h' x = st h x" "bcl h' x = bcl h x" if "x \<in> set as" for x
    using same [OF that] by (simp_all add: rnx_def rpv_def fnx_def fpv_def placed_def bsz_def st_def bcl_def)
  note K = ok [unfolded pool_ok_def]
  have "tiles pool h' (pool + unat (pool_size p)) as"
    using K v dchain_cong [of as "rnx pool h" "rnx pool h'" "rpv pool h" "rpv pool h'"] unfolding tiles_def by simp
  moreover have "mp_lists pool h' (heads p) Ls"
  proof (rule lists_cong)
    show "mp_lists pool h (heads p) Ls" using K by blast
  qed (use v pool_ok_mem [OF ok] in blast)
  moreover have "(\<Sum>x\<in>free_blocks Ls. bsz h' x) = (\<Sum>x\<in>free_blocks Ls. bsz h x)"
    using v K by (intro sum.cong) auto
  moreover have "st h' x = st h x" if "x \<in> free_blocks Ls \<union> set (Ls ! 5)" for x using v that K by blast
  moreover have "bcl h' x = bcl h x" if "x \<in> set (Ls ! j)" "j < 5" for x j using v pool_ok_mem [OF ok _ that(1)] that(2) by simp
  ultimately show ?thesis using K unfolding pool_ok_def by auto
qed

lemma pool_ok_range: "pool_ok pool p h as Ls \<Longrightarrow> x \<in> set as \<Longrightarrow> pool \<le> x \<and> x + bsz h x \<le> pool + unat (pool_size p) \<and> 0 < bsz h x"
  unfolding pool_ok_def using tilesD(2,3,4) by (fastforce simp: first_block_def sizeof_realdata_def)

lemma heap_okD:
  assumes "heap_ok s D" and "pool_at s a = Some p"
  obtains as Ls where "pool_ok a p (rds s) as Ls" "set (Ls ! 5) = D a"
  using assms unfolding heap_ok_def by blast

text \<open>One pool is new or changes; its blocks stay inside its memory.\<close>

lemma heap_ok_apart: "heap_ok s D \<Longrightarrow> pool_at s a = Some p \<Longrightarrow> pool_at s b = Some q \<Longrightarrow> a < b \<Longrightarrow> a + unat (pool_size p) \<le> b"
  unfolding heap_ok_def by blast

lemma heap_ok_put:
  assumes h: "heap_ok s D" and pl: "pools s' = (pools s)(a \<mapsto> p')" and ok: "pool_ok a p' (rds s') as Ls"
    and ap: "\<And>b q. pool_at s b = Some q \<Longrightarrow> b \<noteq> a \<Longrightarrow> a + unat (pool_size p') \<le> b \<or> b + unat (pool_size q) \<le> a"
    and fr: "\<And>x. x < a \<or> a + unat (pool_size p') \<le> x \<Longrightarrow> rds s' x = rds s x"
  shows "heap_ok s' (D(a := set (Ls ! 5)))"
proof -
  have aN: "a \<noteq> NULL" using ok by (simp add: pool_ok_def)
  have at: "pool_at s' b = (if b = a then Some p' else pool_at s b)" for b using pl aN by (simp add: pool_at_def)
  have "\<exists>as Ls'. pool_ok b q (rds s') as Ls' \<and> set (Ls' ! 5) = (D(a := set (Ls ! 5))) b" if "pool_at s' b = Some q" for b q
  proof (cases "b = a")
    case True
    then show ?thesis using at that ok by auto
  next
    case False
    then have b: "pool_at s b = Some q" using at that by simp
    obtain bs Lb where B: "pool_ok b q (rds s) bs Lb" "set (Lb ! 5) = D b" by (rule heap_okD [OF h b])
    have "rds s' x = rds s x" if "x \<in> set bs" for x
    proof (rule fr)
      have "b \<le> x" "x < b + unat (pool_size q)" using pool_ok_range [OF B(1) that] by simp_all
      then show "x < a \<or> a + unat (pool_size p') \<le> x" using ap [OF b] False by auto
    qed
    from pool_ok_frame [OF B(1) this] show ?thesis using B(2) False by auto
  qed
  moreover have "b + unat (pool_size q) \<le> c" if "pool_at s' b = Some q" "pool_at s' c = Some r" "b < c" for b q c r
    using that heap_ok_apart [OF h, of b _ c] ap [of b] ap [of c] at by (force split: if_splits)
  moreover have "(D(a := set (Ls ! 5))) b = {}" if "pool_at s' b = None" for b
    using that h at unfolding heap_ok_def by (auto split: if_splits)
  ultimately show ?thesis unfolding heap_ok_def by blast
qed

lemma heap_ok_upd:
  assumes h: "heap_ok s D" and a: "pool_at s a = Some p" and pl: "pools s' = (pools s)(a \<mapsto> p')"
    and ok: "pool_ok a p' (rds s') as Ls" and ps: "pool_size p' = pool_size p"
    and fr: "\<And>x. x < a \<or> a + unat (pool_size p) \<le> x \<Longrightarrow> rds s' x = rds s x"
  shows "heap_ok s' (D(a := set (Ls ! 5)))"
  by (rule heap_ok_put [OF h pl ok]) (use heap_ok_apart [OF h a] heap_ok_apart [OF h _ a] ps fr in \<open>auto simp: nat_neq_iff\<close>)

lemma pools_of: "s' = s\<lparr>pools := P, rds := R\<rparr> \<Longrightarrow> pools s' = P"
  by simp

text \<open>Fields that the blocks do not depend on.\<close>

definition same_core :: "mempool \<Rightarrow> mempool \<Rightarrow> bool" where
  "same_core p p' \<longleftrightarrow> pool_size p' = pool_size p \<and> freelist p' = freelist p \<and> busylist p' = busylist p \<and> leftsize p' = leftsize p"

lemma heap_ok_core:
  assumes h: "heap_ok s D" and u: "upd_pool s a f = Some s'" and f: "\<And>p. same_core p (f p)"
  shows "heap_ok s' D" and "rds s' = rds s"
proof -
  obtain p where p: "pool_at s a = Some p" "s' = s\<lparr>pools := (pools s)(a \<mapsto> f p)\<rparr>"
    using u by (auto simp: upd_pool_def split: bind_splits)
  obtain as Ls where ok: "pool_ok a p (rds s) as Ls" "set (Ls ! 5) = D a" by (rule heap_okD [OF h p(1)])
  have "heap_ok s' (D(a := set (Ls ! 5)))"
  proof (rule heap_ok_upd [OF h p(1)])
    show "pools s' = (pools s)(a \<mapsto> f p)" using p(2) by simp
    show "pool_ok a (f p) (rds s') as Ls" "pool_size (f p) = pool_size p"
      using pool_ok_cong [OF ok(1)] f [of p] p(2) by (simp_all add: same_core_def)
  qed (simp add: p(2))
  then show "heap_ok s' D" using ok(2) by simp
  show "rds s' = rds s" using p(2) by simp
qed

lemma bindE:
  assumes "Option.bind x f = Some r"
  obtains y where "x = Some y" "f y = Some r"
  using assms by (auto split: bind_splits)

text \<open>The update of such a field as a step that keeps the invariant.\<close>

lemma core_bind:
  assumes "Option.bind (upd_pool s a f) g = Some r" and "heap_ok s D" and "\<And>p. same_core p (f p)"
  obtains s1 where "heap_ok s1 D" "rds s1 = rds s" "g s1 = Some r"
  using bindE [OF assms(1)] heap_ok_core [OF assms(2) _ assms(3)] by metis

lemma same_core_upd [simp]:
  "same_core p p"
  "same_core p (p\<lparr>p_next := x\<rparr>)" "same_core p (p\<lparr>p_prev := x\<rparr>)" "same_core p (p\<lparr>p_prev := x, p_next := y\<rparr>)"
  "same_core p (p\<lparr>pooltail := x\<rparr>)" "same_core p (p\<lparr>failed := k\<rparr>)" "same_core p (p\<lparr>total_leftsize := l\<rparr>)"
  "same_core p (p\<lparr>total_alloced := l\<rparr>)" "same_core p (p\<lparr>freepool := x\<rparr>)" "same_core p (p\<lparr>pfree_count := c\<rparr>)"
  "same_core p (p\<lparr>cfg_ht := t\<rparr>)" "same_core p (p\<lparr>cfg_largeht := t\<rparr>)"
  by (simp_all add: same_core_def)

lemma poolE:
  assumes "Option.bind (pool_at s a) f = Some r"
  obtains p where "pool_at s a = Some p" "f p = Some r"
  using assms by (rule bindE)

lemma move2tail_ok:
  assumes h: "heap_ok s D" and r: "mempool_move2tail s b a = Some (s', k)"
  shows "heap_ok s' D \<and> rds s' = rds s"
  using r h unfolding mempool_move2tail_def by (auto elim!: core_bind poolE split: if_splits)

lemma heap_ok_rd:
  assumes h: "heap_ok s D" and x: "x \<in> D b"
  obtains p where "pool_at s b = Some p" "b \<le> x" "x < b + unat (pool_size p)"
proof (cases "pool_at s b")
  case None
  then show ?thesis using h x unfolding heap_ok_def by auto
next
  case (Some p)
  then obtain as Ls where ok: "pool_ok b p (rds s) as Ls" "set (Ls ! 5) = D b" by (rule heap_okD [OF h])
  then have "x \<in> set as" using pool_ok_mem [OF ok(1), of 5] x by auto
  then show ?thesis using that [OF Some] pool_ok_range [OF ok(1)] by force
qed

section \<open>A heap with one pool under repair\<close>

definition without :: "ptr \<Rightarrow> mpmem \<Rightarrow> mpmem" where
  "without a s = s\<lparr>pools := (pools s)(a := None)\<rparr>"

definition but :: "mpmem \<Rightarrow> (ptr \<Rightarrow> ptr set) \<Rightarrow> ptr \<Rightarrow> nat \<Rightarrow> bool" where
  "but s D a k \<longleftrightarrow> heap_ok (without a s) D \<and> (\<exists>p. pool_at s a = Some p \<and> unat (pool_size p) = k) \<and>
     (\<forall>b q. pool_at s b = Some q \<longrightarrow> b \<noteq> a \<longrightarrow> a + k \<le> b \<or> b + unat (pool_size q) \<le> a)"

lemma pool_at_without: "pool_at (without a s) b = (if b = a then None else pool_at s b)"
  by (simp add: pool_at_def without_def)

lemma without_rds [simp]: "rds (without a s) = rds s"
  by (simp add: without_def)

lemma but_open:
  assumes h: "heap_ok s D" and a: "pool_at s a = Some p"
  shows "but s (D(a := {})) a (unat (pool_size p))"
proof -
  have "heap_ok (without a s) (D(a := {}))"
    unfolding heap_ok_def pool_at_without using h unfolding heap_ok_def by (auto split: if_splits)
  moreover have "a + unat (pool_size p) \<le> b \<or> b + unat (pool_size q) \<le> a" if "pool_at s b = Some q" "b \<noteq> a" for b q
    using heap_ok_apart [OF h a that(1)] heap_ok_apart [OF h that(1) a] that(2) by (cases "a < b") auto
  ultimately show ?thesis unfolding but_def using a by blast
qed

lemma but_close:
  assumes b: "but s D a k" and a: "pool_at s a = Some p" and ok: "pool_ok a p (rds s) as Ls"
  shows "heap_ok s (D(a := set (Ls ! 5)))"
proof (rule heap_ok_put [where s = "without a s"])
  show "heap_ok (without a s) D" using b by (simp add: but_def)
  show "pools s = (pools (without a s))(a \<mapsto> p)"
    using a by (auto simp: without_def pool_at_def fun_upd_idem split: if_splits)
  show "pool_ok a p (rds s) as Ls" by (rule ok)
qed (use b a in \<open>auto simp: but_def pool_at_without split: if_splits\<close>)

lemma heap_ok_frame:
  assumes h: "heap_ok s D" and pl: "pools s' = pools s"
    and fr: "\<And>b q x. pool_at s b = Some q \<Longrightarrow> b \<le> x \<Longrightarrow> x < b + unat (pool_size q) \<Longrightarrow> rds s' x = rds s x"
  shows "heap_ok s' D"
proof -
  have at: "pool_at s' = pool_at s" using pl by (simp add: pool_at_def fun_eq_iff)
  have "\<exists>as Ls. pool_ok b q (rds s') as Ls \<and> set (Ls ! 5) = D b" if b: "pool_at s b = Some q" for b q
  proof -
    obtain bs Lb where B: "pool_ok b q (rds s) bs Lb" "set (Lb ! 5) = D b" by (rule heap_okD [OF h b])
    have "pool_ok b q (rds s') bs Lb" by (rule pool_ok_frame [OF B(1)], rule fr [OF b]) (use pool_ok_range [OF B(1)] in force)+
    then show ?thesis using B(2) by blast
  qed
  then show ?thesis using h unfolding heap_ok_def at by blast
qed

lemma but_change:
  assumes b: "but s D a k" and pl: "pools s' = (pools s)(a \<mapsto> p')" and ps: "unat (pool_size p') = k"
    and fr: "\<And>x. x < a \<or> a + k \<le> x \<Longrightarrow> rds s' x = rds s x"
  shows "but s' D a k"
proof -
  have at: "pool_at s' c = (if c = a then if a = NULL then None else Some p' else pool_at s c)" for c using pl by (simp add: pool_at_def)
  have w: "pools (without a s') = pools (without a s)" using pl by (simp add: without_def)
  have aN: "a \<noteq> NULL" using b by (auto simp: but_def pool_at_def split: if_splits)
  have "heap_ok (without a s') D"
  proof (rule heap_ok_frame [OF _ w])
    show "heap_ok (without a s) D" using b by (simp add: but_def)
    fix c q x assume c: "pool_at (without a s) c = Some q" "c \<le> x" "x < c + unat (pool_size q)"
    then have "pool_at s c = Some q" "c \<noteq> a" by (auto simp: pool_at_without split: if_splits)
    then have "x < a \<or> a + k \<le> x" using b c(2,3) unfolding but_def by fastforce
    then show "rds (without a s') x = rds (without a s) x" using fr by simp
  qed
  then show ?thesis using b ps at aN unfolding but_def by (auto split: if_splits)
qed

lemma but_core:
  assumes b: "but s D a k" and u: "upd_pool s c f = Some s'" and f: "\<And>p. same_core p (f p)"
  shows "but s' D a k" and "rds s' = rds s"
proof -
  obtain p where p: "pool_at s c = Some p" "s' = s\<lparr>pools := (pools s)(c \<mapsto> f p)\<rparr>"
    using u by (auto simp: upd_pool_def elim!: bindE)
  show "rds s' = rds s" using p(2) by simp
  have sz: "pool_size (f p) = pool_size p" using f by (simp add: same_core_def)
  show "but s' D a k"
  proof (cases "c = a")
    case True
    show ?thesis by (rule but_change [OF b, where p' = "f p"]) (use p sz b True in \<open>auto simp: but_def\<close>)
  next
    case False
    have "upd_pool (without a s) c f = Some (without a s')"
      using p False by (simp add: upd_pool_def pool_at_without) (simp add: without_def fun_upd_twist)
    then have "heap_ok (without a s') D" using heap_ok_core(1) [OF _ _ f] b by (auto simp: but_def)
    moreover have "pool_at s' x = (if x = c then Some (f p) else pool_at s x)" for x
      using p by (auto simp: pool_at_def split: if_splits)
    ultimately show ?thesis using b p(1) sz False unfolding but_def by auto
  qed
qed

lemma but_bind:
  assumes "Option.bind (upd_pool s c f) g = Some r" and "but s D a k" and "\<And>p. same_core p (f p)"
  obtains s1 where "but s1 D a k" "rds s1 = rds s" "g s1 = Some r"
  using bindE [OF assms(1)] but_core [OF assms(2) _ assms(3)] by metis

end
