(* ===== verification/MempoolAlloc.thy ===== *)
theory MempoolAlloc
  imports MempoolHeap
begin

text \<open>
  \<open>__alloc_realdata\<close> over all pools, with its search, and pools made by \<open>mempool_init_extra\<close>.
\<close>

section \<open>Allocation in the pools of a heap\<close>

definition heap_alloc :: "mpmem \<Rightarrow> (ptr \<Rightarrow> ptr set) \<Rightarrow> ptr \<Rightarrow> nat \<Rightarrow> ptr \<Rightarrow> mpmem \<Rightarrow> bool" where
  "heap_alloc s D a n rd s' \<longleftrightarrow> heap_ok s' (D(a := insert rd (D a))) \<and> pool_at s' a \<noteq> None \<and> rd \<notin> D a \<and> n \<le> bsz (rds s') rd \<and>
     (\<forall>b. \<forall>x\<in>D b. bsz (rds s') x = bsz (rds s) x)"

lemma heap_alloc_post:
  assumes h: "heap_ok s D" and a: "pool_at s a = Some p" and ok: "pool_ok a p (rds s) as Ls" and D: "set (Ls ! 5) = D a"
    and post: "alloc_post s a p as Ls n rd s' p' as' Ls'"
  shows "heap_alloc s D a n rd s'"
proof -
  have P: "s' = s\<lparr>pools := (pools s)(a \<mapsto> p'), rds := rds s'\<rparr>" "same_conf p p'" "pool_ok a p' (rds s') as' Ls'"
     "rd \<notin> set (Ls ! 5)" "set (Ls' ! 5) = insert rd (set (Ls ! 5))" "n \<le> bsz (rds s') rd"
     "\<And>x. x \<in> set (Ls ! 5) \<Longrightarrow> bsz (rds s') x = bsz (rds s) x" "\<And>x. x \<notin> set as' \<Longrightarrow> rds s' x = rds s x"
    using post unfolding alloc_post_def by blast+
  have ps: "pool_size p' = pool_size p" by (rule same_confD [OF P(2)])
  have fr: "rds s' x = rds s x" if "x < a \<or> a + unat (pool_size p) \<le> x" for x
    using P(8) [of x] pool_ok_range [OF P(3), of x] that ps by force
  have "heap_ok s' (D(a := set (Ls' ! 5)))" by (rule heap_ok_upd [OF h a pools_of [OF P(1)] P(3) ps fr])
  moreover have "bsz (rds s') x = bsz (rds s) x" if x: "x \<in> D b" for b x
  proof (cases "b = a")
    case True
    then show ?thesis using P(7) D x by simp
  next
    case False
    obtain q where q: "pool_at s b = Some q" "b \<le> x" "x < b + unat (pool_size q)" by (rule heap_ok_rd [OF h x])
    have "rds s' x = rds s x"
      by (rule fr) (use q heap_ok_apart [OF h a q(1)] heap_ok_apart [OF h q(1) a] False in \<open>cases "a < b"; auto\<close>)
    then show ?thesis by (simp add: bsz_def)
  qed
  moreover have "pool_at s' a \<noteq> None" using a by (subst P(1)) (auto simp: pool_at_def split: if_splits)
  ultimately show ?thesis unfolding heap_alloc_def using P(4-6) D by simp
qed

lemma heap_alloc_core: "heap_alloc s1 D a n rd s' \<Longrightarrow> rds s1 = rds s \<Longrightarrow> heap_alloc s D a n rd s'"
  by (simp add: heap_alloc_def)

lemma busy_empty: "pool_ok a p h as Ls \<Longrightarrow> busylist p = NULL \<longleftrightarrow> Ls ! 5 = []"
  using busy_head [of a h p Ls] dchain_nodes [OF lists_chain [of a h "heads p" Ls 5]] unfolding pool_ok_def
  by (cases "Ls ! 5") auto

lemma unat_u24_32 [simp]: "unat (ucast (x :: u24) :: u32) = unat x"
proof -
  have "unat x < 2 ^ LENGTH(24)" by (rule unsigned_less)
  then show ?thesis by (simp add: unsigned_ucast_eq take_bit_nat_eq_self)
qed

text \<open>The two ways to take a block from the pool at \<open>a\<close>.\<close>

lemma take_busy:
  assumes h: "heap_ok s D" and a: "pool_at s a = Some p" and b: "busylist p \<noteq> NULL" and sz: "sizeof_realdata \<le> unat sz"
  shows "\<exists>ava. get_availdata s a sz = Some ava \<and> (ava \<noteq> NULL \<longrightarrow>
    (\<exists>s1 s2. alloc_busy junk s a ava sz = Some (s1, ava) \<and> alloc_finish s1 a ava = Some s2 \<and> heap_alloc s D a (unat sz) ava s2))"
proof -
  obtain as Ls where ok: "pool_ok a p (rds s) as Ls" "set (Ls ! 5) = D a" by (rule heap_okD [OF h a])
  have l: "mp_lists a (rds s) (heads p) Ls" using ok by (simp add: pool_ok_def)
  have "Ls ! 5 \<noteq> []" using busy_empty [OF ok(1)] b by simp
  then show ?thesis
    using get_availdata_ok [OF a l, of sz] alloc_busy_ok [OF a ok(1) _ _ sz, of _ _ junk] heap_alloc_post [OF h a ok] by metis
qed

lemma take_first:
  assumes h: "heap_ok s D" and a: "pool_at s a = Some p" and b: "busylist p = NULL" and sz: "sizeof_realdata \<le> unat sz"
    and le: "\<not> (ucast (leftsize p) :: u32) < sz"
  shows "\<exists>s1 s2 rd. alloc_first junk s a sz = Some (s1, rd) \<and> rd \<noteq> NULL \<and> alloc_finish s1 a rd = Some s2 \<and>
    heap_alloc s D a (unat sz) rd s2"
proof -
  obtain as Ls where ok: "pool_ok a p (rds s) as Ls" "set (Ls ! 5) = D a" by (rule heap_okD [OF h a])
  have e: "Ls ! 5 = []" using busy_empty [OF ok(1)] b by simp
  have le': "unat sz \<le> unat (leftsize p)" using le by (simp add: word_less_nat_alt)
  have "first_block a \<noteq> NULL" by (simp add: first_block_def sizeof_mempool_def)
  then show ?thesis using alloc_first_ok [OF a ok(1) e sz le', of junk] heap_alloc_post [OF h a ok] by metis
qed

definition search_post :: "mpmem \<Rightarrow> (ptr \<Rightarrow> ptr set) \<Rightarrow> u32 \<Rightarrow> mpmem \<times> ptr \<times> ptr \<Rightarrow> bool" where
  "search_post s D sz r = (case r of (s', t, rd) \<Rightarrow>
     if rd = NULL then heap_ok s' D \<and> rds s' = rds s else heap_alloc s D t (unat sz) rd s')"

lemma search_post_core: "search_post s1 D sz r \<Longrightarrow> rds s1 = rds s \<Longrightarrow> search_post s D sz r"
  by (auto simp: search_post_def heap_alloc_def split: prod.splits if_splits)

text \<open>Whatever the search returns, the blocks of all pools stay in order.\<close>

lemma alloc_search_post:
  assumes "alloc_search junk s b sz tmp n = Some r" and "heap_ok s D" and "sizeof_realdata \<le> unat sz"
  shows "search_post s D sz r"
proof -
  have "\<forall>D. heap_ok s D \<longrightarrow> sizeof_realdata \<le> unat sz \<longrightarrow> search_post s D sz r"
  proof (rule alloc_search.raw_induct [where P = "\<lambda>_ s _ sz _ _ r. \<forall>D. heap_ok s D \<longrightarrow> sizeof_realdata \<le> unat sz \<longrightarrow> search_post s D sz r",
        OF _ assms(1)], intro allI impI)
    fix f junk s b sz tmp n r D
    assume IH: "\<And>junk s b sz tmp n r. f junk s b sz tmp n = Some r \<Longrightarrow> \<forall>D. heap_ok s D \<longrightarrow> sizeof_realdata \<le> unat sz \<longrightarrow> search_post s D sz r"
      and body: "(if tmp = NULL then Some (s, NULL, NULL)
      else do {
        t \<leftarrow> pool_at s tmp;
        q \<leftarrow> pool_at s b;
        (fl, _) \<leftarrow> (if (ucast (leftsize t) :: u32) < sz then Some (NULL, -1) else mempool_get_freelist t sz);
        if fl = NULL then do {
          s \<leftarrow> (if failed t < MEMPOOL_FAILED_SKIP then
                  if (ucast (leftsize t) :: u32) < failed_memsize q
                  then upd_pool s tmp (\<lambda>t. t\<lparr>failed := failed t + 1\<rparr>) else Some s
                else do { (s, _) \<leftarrow> mempool_move2tail s b tmp; Some s });
          if max_searchpool q > 0 \<and> n + 1 \<ge> max_searchpool q then Some (s, tmp, NULL)
          else f junk s b sz (p_next t) (if max_searchpool q > 0 then n + 1 else n) }
        else if busylist t \<noteq> NULL then do {
          avadata \<leftarrow> get_availdata s tmp sz;
          if avadata = NULL then do {
            s \<leftarrow> (if failed t < MEMPOOL_FAILED_SKIP \<and> (ucast (leftsize t) :: u32) < failed_memsize q
                  then upd_pool s tmp (\<lambda>t. t\<lparr>failed := failed t + 1\<rparr>) else Some s);
            if max_searchpool q > 0 \<and> n + 1 \<ge> max_searchpool q then Some (s, tmp, NULL)
            else f junk s b sz (p_next t) (if max_searchpool q > 0 then n + 1 else n) }
          else do {
            (s, rd) \<leftarrow> alloc_busy junk s tmp avadata sz;
            s \<leftarrow> alloc_finish s tmp rd;
            Some (s, tmp, rd) } }
        else do {
          (s, rd) \<leftarrow> alloc_first junk s tmp sz;
          s \<leftarrow> alloc_finish s tmp rd;
          Some (s, tmp, rd) } }) = Some r"
      and h: "heap_ok s D" and sz: "sizeof_realdata \<le> unat sz"
    show "search_post s D sz r"
  proof (cases "tmp = NULL")
    case True
    then show ?thesis using body h by (auto simp: search_post_def)
  next
    case False
    then obtain t q fl k where t: "pool_at s tmp = Some t" "pool_at s b = Some q"
        "(if (ucast (leftsize t) :: u32) < sz then Some (NULL, -1) else mempool_get_freelist t sz) = Some (fl, k)"
      using body by (auto elim!: bindE split: if_splits)
    have rec: "search_post s D sz r" if a: "Option.bind x (\<lambda>s1. if c then Some (s1, tmp, NULL) else f junk s1 b sz (p_next t) m) = Some r"
      and k: "\<And>s1. x = Some s1 \<Longrightarrow> heap_ok s1 D \<and> rds s1 = rds s" for x c m
    proof -
      obtain s1 where x: "x = Some s1" "(if c then Some (s1, tmp, NULL) else f junk s1 b sz (p_next t) m) = Some r"
        by (rule bindE [OF a])
      have "search_post s1 D sz r" using x(2) IH [of junk s1 b sz "p_next t" m r] k [OF x(1)] sz by (cases c) (auto simp: search_post_def)
      then show ?thesis by (rule search_post_core) (use k [OF x(1)] in simp)
    qed
    show ?thesis
    proof (cases "fl = NULL")
      case True
      show ?thesis
        by (rule rec [where c = "max_searchpool q > 0 \<and> n + 1 \<ge> max_searchpool q" and m = "if max_searchpool q > 0 then n + 1 else n" and
              x = "if failed t < MEMPOOL_FAILED_SKIP then
                  if (ucast (leftsize t) :: u32) < failed_memsize q
                  then upd_pool s tmp (\<lambda>t. t\<lparr>failed := failed t + 1\<rparr>) else Some s
                else do { (s, _) \<leftarrow> mempool_move2tail s b tmp; Some s }"])
          (use body t True False h in \<open>auto dest: heap_ok_core [OF h] move2tail_ok [OF h] elim!: bindE split: if_splits\<close>)
    next
      case fl: False
      show ?thesis
      proof (cases "busylist t = NULL")
        case True
        have le: "\<not> (ucast (leftsize t) :: u32) < sz" using t(3) fl by auto
        show ?thesis using body t False fl True take_first [OF h t(1) True sz le, of junk] by (auto simp: search_post_def)
      next
        case nb: False
        obtain ava where g: "get_availdata s tmp sz = Some ava" "ava \<noteq> NULL \<Longrightarrow>
            \<exists>s1 s2. alloc_busy junk s tmp ava sz = Some (s1, ava) \<and> alloc_finish s1 tmp ava = Some s2 \<and> heap_alloc s D tmp (unat sz) ava s2"
          using take_busy [OF h t(1) nb sz, of junk] by blast
        show ?thesis
        proof (cases "ava = NULL")
          case True
          show ?thesis
            by (rule rec [where c = "max_searchpool q > 0 \<and> n + 1 \<ge> max_searchpool q" and m = "if max_searchpool q > 0 then n + 1 else n" and
                  x = "if failed t < MEMPOOL_FAILED_SKIP \<and> (ucast (leftsize t) :: u32) < failed_memsize q
                  then upd_pool s tmp (\<lambda>t. t\<lparr>failed := failed t + 1\<rparr>) else Some s"])
              (use body t True False fl nb g h in \<open>auto dest: heap_ok_core [OF h] split: if_splits\<close>)
        next
          case False
          then show ?thesis using body t \<open>tmp \<noteq> NULL\<close> fl nb g by (auto simp: search_post_def)
        qed
      qed
    qed
    qed
  qed
  then show ?thesis using assms(2,3) by blast
qed

definition again_post :: "mpmem \<Rightarrow> (ptr \<Rightarrow> ptr set) \<Rightarrow> u32 \<Rightarrow> mpmem \<times> ptr \<Rightarrow> bool" where
  "again_post s D sz r = (case r of (s', rd) \<Rightarrow>
     if rd = NULL then heap_ok s' D \<and> rds s' = rds s else \<exists>a. heap_alloc s D a (unat sz) rd s')"

lemma again_post_core: "again_post s1 D sz r \<Longrightarrow> rds s1 = rds s \<Longrightarrow> again_post s D sz r"
  by (auto simp: again_post_def heap_alloc_def split: prod.splits if_splits)

lemma upd_pool_at: "upd_pool s a f = Some s' \<Longrightarrow> pool_at s' b = (if b = a then map_option f (pool_at s b) else pool_at s b)"
  by (auto simp: upd_pool_def pool_at_def split: bind_splits if_splits)

lemma heap_alloc_upd:
  assumes "heap_alloc s D a n rd s1" and "upd_pool s1 b f = Some s2" and "\<And>p. same_core p (f p)"
  shows "heap_alloc s D a n rd s2"
  using assms heap_ok_core [OF _ assms(2,3)] upd_pool_at [OF assms(2), of a] unfolding heap_alloc_def by auto

lemma alloc_again_post:
  assumes "alloc_again junk s b sz tmp n = Some r" and "heap_ok s D" and "sizeof_realdata \<le> unat sz"
  shows "again_post s D sz r"
proof -
  have "\<forall>D. heap_ok s D \<longrightarrow> sizeof_realdata \<le> unat sz \<longrightarrow> again_post s D sz r"
  proof (rule alloc_again.raw_induct [where P = "\<lambda>_ s _ sz _ _ r. \<forall>D. heap_ok s D \<longrightarrow> sizeof_realdata \<le> unat sz \<longrightarrow> again_post s D sz r",
        OF _ assms(1)], intro allI impI)
    fix f junk s b sz tmp n r D
    assume IH: "\<And>junk s b sz tmp n r. f junk s b sz tmp n = Some r \<Longrightarrow> \<forall>D. heap_ok s D \<longrightarrow> sizeof_realdata \<le> unat sz \<longrightarrow> again_post s D sz r"
      and body: "do {
     (s, tmp, rd) \<leftarrow> alloc_search junk s b sz tmp 0;
     q \<leftarrow> pool_at s b;
     if rd = NULL \<and> n < MEMPOOL_REALLOC_MAXCHKS \<and> tmp \<noteq> NULL \<and>
        (percent_ge q 20 \<or> total_leftsize q \<ge> MEMPOOL_INPOOL_SIZE) then do {
       t \<leftarrow> pool_at s tmp;
       f junk s b sz (p_next t) 0 }
     else if rd = NULL \<and> n < MEMPOOL_REALLOC_MAXCHKS \<and> tmp \<noteq> NULL \<and> percent_ge q 10 then do {
       t \<leftarrow> pool_at s tmp;
       f junk s b sz (p_next t) (n + 1) }
     else if rd \<noteq> NULL then do {
       d \<leftarrow> rd_at s rd;
       s \<leftarrow> upd_pool s b (\<lambda>b. b\<lparr>total_leftsize := total_leftsize b - ucast (rd_size d)\<rparr>);
       Some (s, rd) }
     else Some (s, NULL) } = Some r"
      and h: "heap_ok s D" and sz: "sizeof_realdata \<le> unat sz"
    obtain s1 t rd where a: "alloc_search junk s b sz tmp 0 = Some (s1, t, rd)" using body by (auto elim!: bindE)
    note P = alloc_search_post [OF a h sz]
    show "again_post s D sz r"
    proof (cases "rd = NULL")
      case True
      then have k: "heap_ok s1 D" "rds s1 = rds s" using P by (simp_all add: search_post_def)
      have rec: "again_post s D sz r" if "f junk s1 b sz q m = Some r" for q m
        by (rule again_post_core [OF _ k(2)]) (use IH [OF that] k(1) sz in blast)
      show ?thesis
      proof (cases "\<exists>q m. f junk s1 b sz q m = Some r")
        case True
        then show ?thesis using rec by blast
      next
        case False
        then have "r = (s1, NULL)" using body \<open>rd = NULL\<close> unfolding a by (auto elim!: poolE split: if_splits)
        then show ?thesis using k by (simp add: again_post_def)
      qed
    next
      case False
      then obtain d :: realdata and s2 where u: "upd_pool s1 b (\<lambda>b. b\<lparr>total_leftsize := total_leftsize b - ucast (rd_size d)\<rparr>) = Some s2" "r = (s2, rd)"
        using body unfolding a by (auto elim!: bindE)
      have "heap_alloc s D t (unat sz) rd s1" using P False by (simp add: search_post_def)
      from heap_alloc_upd [OF this u(1)] show ?thesis using u(2) False by (auto simp: again_post_def)
    qed
  qed
  then show ?thesis using assms(2,3) by blast
qed

lemma alloc_realdata_post:
  "alloc_realdata junk s b a sz = Some r \<Longrightarrow> heap_ok s D \<Longrightarrow> sizeof_realdata \<le> unat sz \<Longrightarrow> again_post s D sz r"
  unfolding alloc_realdata_def by (rule alloc_again_post)

section \<open>New pools\<close>

text \<open>What \<open>malloc\<close> promises: a block that does not overlap the pools.\<close>

definition malloc_ok :: "mp_env \<Rightarrow> bool" where
  "malloc_ok env \<longleftrightarrow> (\<forall>s sz. env_malloc env s sz \<noteq> NULL \<longrightarrow> pools s (env_malloc env s sz) = None \<and>
     (\<forall>b q. pool_at s b = Some q \<longrightarrow> env_malloc env s sz + unat sz \<le> b \<or> b + unat (pool_size q) \<le> env_malloc env s sz))"

text \<open>Operations that only touch the configuration of one pool.\<close>

definition only_conf :: "ptr \<Rightarrow> mpmem \<Rightarrow> mpmem \<Rightarrow> bool" where
  "only_conf a s s' \<longleftrightarrow> rds s' = rds s \<and> (\<forall>b. b \<noteq> a \<longrightarrow> pools s' b = pools s b) \<and>
     rel_option (\<lambda>p p'. pool_size p' = pool_size p) (pools s a) (pools s' a)"

lemma only_conf_refl [simp]: "only_conf a s s"
  by (simp add: only_conf_def option.rel_refl)

lemma only_conf_trans: "only_conf a s s1 \<Longrightarrow> only_conf a s1 s2 \<Longrightarrow> only_conf a s s2"
  by (auto simp: only_conf_def option_rel_Some1 rel_option_iff split: option.splits)

lemma only_conf_upd:
  assumes "upd_pool s a f = Some s'" and "\<And>p. pool_size (f p) = pool_size p"
  shows "only_conf a s s'"
  using assms by (auto simp: only_conf_def upd_pool_def pool_at_def split: bind_splits if_splits)

lemma only_conf_larges [simp]: "only_conf a s (free_larges s xs)"
  by (simp add: only_conf_def free_larges_def option.rel_refl)

definition keeps :: "(ptr \<Rightarrow> ptr set) \<Rightarrow> mpmem \<Rightarrow> mpmem \<Rightarrow> bool" where
  "keeps D s s' \<longleftrightarrow> heap_ok s' D \<and> (\<forall>b. \<forall>x\<in>D b. bsz (rds s') x = bsz (rds s) x)"

lemma keeps_trans: "keeps D s s1 \<Longrightarrow> keeps D s1 s2 \<Longrightarrow> keeps D s s2"
  by (simp add: keeps_def)

lemma keeps_refl: "heap_ok s D \<Longrightarrow> keeps D s s"
  by (simp add: keeps_def)

lemma keeps_core: "upd_pool s a f = Some s' \<Longrightarrow> heap_ok s D \<Longrightarrow> (\<And>p. same_core p (f p)) \<Longrightarrow> keeps D s s'"
  using heap_ok_core by (simp add: keeps_def)

lemma reset_tables_conf: "reset_tables env s a = Some s' \<Longrightarrow> only_conf a s s'"
  unfolding reset_tables_def
  by (auto simp: Let_def elim!: bindE dest!: only_conf_upd split: if_splits intro: only_conf_trans [OF only_conf_larges])

lemma set_maxmem_conf: "mempool_set_maxmem env s a m = Some s' \<Longrightarrow> only_conf a s s'"
  unfolding mempool_set_maxmem_def
  by (auto simp: Let_def elim!: bindE split: if_splits dest!: reset_tables_conf only_conf_upd intro: only_conf_trans)

lemma set_single_max_conf: "mempool_set_single_max s a m = Some s' \<Longrightarrow> only_conf a s s'"
  unfolding mempool_set_single_max_def by (auto split: if_splits dest!: only_conf_upd)

lemma init_size_le: "unat (init_size sz) \<le> 65536"
proof -
  have "init_size sz \<le> 65536" by (auto simp: init_size_def Let_def MEMPOOL_MAXSIZE_def mempool_getpagesize_def)
  then show ?thesis by (simp add: word_le_nat_alt)
qed

text \<open>A pool that has just been initialised joins the heap.\<close>

lemma init_joins:
  assumes h: "heap_ok s D" and new: "pools s m = None"
    and ap: "\<And>b q. pool_at s b = Some q \<Longrightarrow> m + n \<le> b \<or> b + unat (pool_size q) \<le> m"
    and p: "pool_at s1 m = Some p" "unat (pool_size p) = n" "n \<le> 65536"
    and s1: "rds s1 = rds s" "\<And>b. b \<noteq> m \<Longrightarrow> pools s1 b = pools s b"
    and r: "init_mempool junk s1 m = Some s2"
  shows "keeps D s s2 \<and> pool_at s2 m \<noteq> None"
proof -
  have sz: "sizeof_mempool + sizeof_realdata \<le> unat (pool_size p)"
    using r p(1) by (auto simp: init_mempool_def split: if_splits)
  obtain p' where i: "s2 = s1\<lparr>pools := (pools s1)(m \<mapsto> p'), rds := rds s2\<rparr>" "same_conf p p'"
      "pool_ok m p' (rds s2) [first_block m] [[], [], [], [], [first_block m], []]"
      "\<forall>x. x \<noteq> first_block m \<longrightarrow> rds s2 x = rds s1 x"
    using init_mempool_ok [OF p(1) sz, of junk] p(2,3) r by auto
  have ps: "pool_size p' = pool_size p" by (rule same_confD [OF i(2)])
  have pl: "pools s2 = (pools s)(m \<mapsto> p')" using s1(2) by (subst i(1)) auto
  have Dm: "D m = {}" using h new unfolding heap_ok_def pool_at_def by auto
  have fb: "m \<le> first_block m" "first_block m < m + n" using sz p(2) by (simp_all add: first_block_def sizeof_realdata_def)
  have fr: "rds s2 x = rds s x" if "x < m \<or> m + unat (pool_size p') \<le> x" for x
    using i(4) s1(1) that fb p(2) ps by auto
  have "heap_ok s2 (D(m := set ([[], [], [], [], [first_block m], []] ! 5)))"
    by (rule heap_ok_put [OF h pl i(3) _ fr]) (use ap ps p(2) in auto)
  moreover have "D(m := set ([[], [], [], [], [first_block m], []] ! 5)) = D" using Dm by (simp add: fun_upd_idem)
  moreover have "bsz (rds s2) x = bsz (rds s) x" if x: "x \<in> D b" for b x
  proof -
    obtain q where q: "pool_at s b = Some q" "b \<le> x" "x < b + unat (pool_size q)" by (rule heap_ok_rd [OF h x])
    have "rds s2 x = rds s x" by (rule fr) (use ap [OF q(1)] q p(2) ps in auto)
    then show ?thesis by (simp add: bsz_def)
  qed
  moreover have "pool_at s2 m \<noteq> None" using p(1) pl by (auto simp: pool_at_def split: if_splits)
  ultimately show ?thesis by (simp add: keeps_def)
qed

lemma init_extra_keeps:
  assumes r: "mempool_init_extra env s sz mm sm mf ms j arg = Some (s', pool)" and h: "heap_ok s D" and m: "malloc_ok env"
  shows "keeps D s s' \<and> (pool \<noteq> NULL \<longrightarrow> pool_at s' pool \<noteq> None)"
proof (cases "env_malloc env s (init_size sz) = NULL")
  case True
  then show ?thesis using r h by (simp add: mempool_init_extra_def Let_def keeps_refl)
next
  case False
  let ?m = "env_malloc env s (init_size sz)"
  let ?p = "(env_pool env)\<lparr>pool_size := init_size sz, failed_memsize := drop_bit 2 (init_size sz), cfg_ht := None, cfg_largeht := None\<rparr>"
  let ?s = "s\<lparr>pools := (pools s)(?m \<mapsto> ?p)\<rparr>"
  obtain s1 s2 s3 s4 s5 where c: "mempool_set_maxmem env ?s ?m mm = Some s1" "mempool_set_single_max s1 ?m sm = Some s2"
      "upd_pool s2 ?m (\<lambda>p. p\<lparr>max_freepool := ucast (if mf < MEMPOOL_FREEPOOL_MAX then mf else MEMPOOL_FREEPOOL_MAX),
              max_searchpool := ms, judge_alloc := j, judge_args := arg, pfree_count := 0, freepool := NULL\<rparr>) = Some s3"
      "init_mempool (env_rd env) s3 ?m = Some s4"
      "upd_pool s4 ?m (\<lambda>p. p\<lparr>total_alloced := 0, total_leftsize := ucast (leftsize p),
              p_prev := NULL, p_next := NULL, pooltail := NULL\<rparr>) = Some s'" "pool = ?m"
    using r False by (auto simp: mempool_init_extra_def Let_def elim!: bindE split: if_splits)
  have c3: "only_conf ?m s2 s3" by (rule only_conf_upd [OF c(3)]) simp
  have oc: "only_conf ?m ?s s3"
    by (rule only_conf_trans [OF only_conf_trans [OF set_maxmem_conf [OF c(1)] set_single_max_conf [OF c(2)]] c3])
  then obtain p3 where p3: "pools s3 ?m = Some p3" "pool_size p3 = init_size sz"
    by (auto simp: only_conf_def option_rel_Some1)
  have M: "pools s ?m = None" "\<And>b q. pool_at s b = Some q \<Longrightarrow> ?m + unat (init_size sz) \<le> b \<or> b + unat (pool_size q) \<le> ?m"
    using m False unfolding malloc_ok_def by blast+
  have i: "keeps D s s4 \<and> pool_at s4 ?m \<noteq> None"
  proof (rule init_joins [OF h M _ _ init_size_le _ _ c(4)])
    show "pool_at s3 ?m = Some p3" using p3 False by (simp add: pool_at_def)
  qed (use p3 oc in \<open>auto simp: only_conf_def\<close>)
  have "keeps D s4 s'" by (rule keeps_core [OF c(5)]) (use i in \<open>auto simp: keeps_def same_core_def\<close>)
  then show ?thesis using i keeps_trans upd_pool_at [OF c(5), of ?m] c(6) by auto
qed

end
