(* ===== verification/MempoolRelease.thy ===== *)
theory MempoolRelease
  imports MempoolAlloc
begin

text \<open>
  \<open>__pfree_realdata\<close> with its three cases: the pool becomes empty, had nothing free, or coalesces.
\<close>

section \<open>Freeing in the pools of a heap\<close>

definition heap_free :: "mpmem \<Rightarrow> (ptr \<Rightarrow> ptr set) \<Rightarrow> ptr \<Rightarrow> ptr \<Rightarrow> mpmem \<Rightarrow> bool" where
  "heap_free s D a rd s' \<longleftrightarrow> heap_ok s' (D(a := D a - {rd})) \<and> (\<forall>b. \<forall>x\<in>D b. x \<noteq> rd \<longrightarrow> bsz (rds s') x = bsz (rds s) x)"

lemma heap_ok_bind_size:
  assumes h: "heap_ok s D" and a: "pool_at s a = Some p" and x: "x \<in> D b" "b \<noteq> a"
    and fr: "\<And>x. x < a \<or> a + unat (pool_size p) \<le> x \<Longrightarrow> rds s' x = rds s x"
  shows "bsz (rds s') x = bsz (rds s) x"
proof -
  obtain q where q: "pool_at s b = Some q" "b \<le> x" "x < b + unat (pool_size q)" by (rule heap_ok_rd [OF h x(1)])
  have "rds s' x = rds s x"
    by (rule fr) (use q heap_ok_apart [OF h a q(1)] heap_ok_apart [OF h q(1) a] x(2) in \<open>cases "a < b"; auto\<close>)
  then show ?thesis by (simp add: bsz_def)
qed

text \<open>The pool whose last block is freed is reset.\<close>

lemma init_closes:
  assumes b: "but s D a k" and D: "D a = {}" and k: "k \<le> 65536" and r: "init_mempool junk s a = Some s'"
  shows "heap_ok s' D \<and> (\<forall>x. x < a \<or> a + k \<le> x \<longrightarrow> rds s' x = rds s x)"
proof -
  obtain p where p: "pool_at s a = Some p" "unat (pool_size p) = k" using b by (auto simp: but_def)
  have sz: "sizeof_mempool + sizeof_realdata \<le> unat (pool_size p)"
    using r p(1) by (auto simp: init_mempool_def split: if_splits)
  obtain p' where i: "s' = s\<lparr>pools := (pools s)(a \<mapsto> p'), rds := rds s'\<rparr>" "same_conf p p'"
      "pool_ok a p' (rds s') [first_block a] [[], [], [], [], [first_block a], []]"
      "\<forall>x. x \<noteq> first_block a \<longrightarrow> rds s' x = rds s x"
    using init_mempool_ok [OF p(1) sz, of junk] p(2) k r by auto
  have ps: "unat (pool_size p') = k" using same_confD [OF i(2)] p(2) by simp
  have fb: "a \<le> first_block a" "first_block a < a + k" using sz p(2) by (simp_all add: first_block_def sizeof_realdata_def)
  then have fr: "x < a \<or> a + k \<le> x \<Longrightarrow> rds s' x = rds s x" for x using i(4) by auto
  have pl: "pools s' = (pools s)(a \<mapsto> p')" by (rule pools_of [OF i(1)])
  have b': "but s' D a k" by (rule but_change [OF b pl ps fr])
  have "pool_at s' a = Some p'" using pl p(1) by (auto simp: pool_at_def split: if_splits)
  from but_close [OF b' this i(3)] have "heap_ok s' D" using D by (simp add: fun_upd_idem)
  then show ?thesis using fr by blast
qed

lemma htE:
  assumes "Option.bind (ht_delete t x) f = Some r"
  obtains y where "ht_delete t x = Some y" "f y = Some r"
  using assms by (rule bindE)

lemma core_last:
  assumes "upd_pool s a f = Some s'" and "heap_ok s D" and "\<And>p. same_core p (f p)"
  obtains "heap_ok s' D" "rds s' = rds s"
  using assms heap_ok_core by blast

lemma core_if:
  assumes "Option.bind (if c then upd_pool s a f else Some s) g = Some r" and "heap_ok s D" and "\<And>p. same_core p (f p)"
  obtains s1 where "heap_ok s1 D" "rds s1 = rds s" "g s1 = Some r"
proof (cases c)
  case True
  then show ?thesis using core_bind [of s a f g r D] assms that by auto
qed (use assms that in auto)

lemma but_if:
  assumes "Option.bind (if c then upd_pool s x f else Some s) g = Some r" and "but s D a k" and "\<And>p. same_core p (f p)"
  obtains s1 where "but s1 D a k" "rds s1 = rds s" "g s1 = Some r"
proof (cases c)
  case True
  then show ?thesis using but_bind [of s x f g r D a k] assms that by auto
qed (use assms that in auto)

text \<open>The second half of \<open>mempool_internal_destroy\<close>: the pool is kept for later or freed.\<close>

definition destroy_tail :: "realdata \<Rightarrow> ptr \<Rightarrow> ptr \<Rightarrow> mpmem \<Rightarrow> mempool \<Rightarrow> mpmem option" where
  "destroy_tail junk base a s b = do {
     s \<leftarrow> (if pfree_count b < ucast (max_freepool b) then do {
             s \<leftarrow> init_mempool junk s a;
             s \<leftarrow> upd_pool s a (\<lambda>p. p\<lparr>p_next := freepool b\<rparr>);
             s \<leftarrow> (if freepool b \<noteq> NULL then upd_pool s (freepool b) (\<lambda>t. t\<lparr>p_prev := a\<rparr>) else Some s);
             s \<leftarrow> upd_pool s base (\<lambda>b. b\<lparr>freepool := a\<rparr>);
             s \<leftarrow> upd_pool s a (\<lambda>p. p\<lparr>p_prev := NULL\<rparr>);
             upd_pool s base (\<lambda>b. b\<lparr>pfree_count := pfree_count b + 1\<rparr>) }
           else free_pool s a);
     upd_pool s base (\<lambda>b. b\<lparr>total_alloced := total_alloced b - ucast (pool_size b)\<rparr>) }"

lemma destroy_tail_ok:
  assumes b: "but s D a k" and D: "D a = {}" and k: "k \<le> 65536" and r: "destroy_tail junk base a s q = Some s'"
  shows "heap_ok s' D \<and> (\<forall>x. x < a \<or> a + k \<le> x \<longrightarrow> rds s' x = rds s x)"
proof (cases "pfree_count q < ucast (max_freepool q)")
  case True
  then obtain s1 where i: "init_mempool junk s a = Some s1" using r by (auto simp: destroy_tail_def elim!: bindE split: if_splits)
  have h: "heap_ok s1 D" "\<forall>x. x < a \<or> a + k \<le> x \<longrightarrow> rds s1 x = rds s x" using init_closes [OF b D k i] by blast+
  have "heap_ok s' D \<and> rds s' = rds s1"
    using r h(1) True i unfolding destroy_tail_def
    apply simp
    apply (elim core_bind, assumption, simp)
    apply (simp split: if_splits)
    apply (elim core_bind core_last, (assumption | simp)+)
    apply (elim core_bind core_last, (assumption | simp)+)
    done
  then show ?thesis using h(2) by simp
next
  case False
  then obtain s1 where i: "free_pool s a = Some s1" "upd_pool s1 base (\<lambda>b. b\<lparr>total_alloced := total_alloced b - ucast (pool_size b)\<rparr>) = Some s'"
    using r by (auto simp: destroy_tail_def elim!: bindE)
  have h: "heap_ok s1 D" "rds s1 = rds s" using b i(1) by (auto simp: free_pool_def but_def without_def elim!: poolE)
  then show ?thesis using heap_ok_core [OF h(1) i(2)] h(2) by simp
qed

lemma destroy_prefix:
  assumes r: "mempool_internal_destroy junk s base a = Some s'" and b: "but s D a k"
    and cont: "\<And>s1 q. destroy_tail junk base a s1 q = Some s' \<Longrightarrow> but s1 D a k \<Longrightarrow> rds s1 = rds s \<Longrightarrow> P"
  shows P
proof -
  obtain q p where qp: "pool_at s base = Some q" "pool_at s a = Some p"
    using r unfolding mempool_internal_destroy_def by (elim poolE) (rule that)
  obtain s1 where 1: "but s1 D a k" "rds s1 = rds s"
    "do { s \<leftarrow> (if p_prev p \<noteq> NULL then upd_pool s1 (p_prev p) (\<lambda>t. t\<lparr>p_next := p_next p\<rparr>) else Some s1);
     s \<leftarrow> (if p_next p \<noteq> NULL then upd_pool s (p_next p) (\<lambda>t. t\<lparr>p_prev := p_prev p\<rparr>) else Some s);
     b \<leftarrow> pool_at s base;
     (ht, _) \<leftarrow> ht_delete (cfg_ht b) a;
     s \<leftarrow> upd_pool s base (\<lambda>b. b\<lparr>cfg_ht := ht\<rparr>);
     s \<leftarrow> upd_pool s base (\<lambda>b. b\<lparr>total_leftsize := total_leftsize b - ucast (leftsize p)\<rparr>);
     b \<leftarrow> pool_at s base;
     destroy_tail junk base a s b } = Some s'"
    by (rule but_if [OF r [unfolded mempool_internal_destroy_def qp Option.bind.bind_lunit destroy_tail_def [symmetric]] b]) simp_all
  obtain s2 where 2: "but s2 D a k" "rds s2 = rds s1"
    "do { s \<leftarrow> (if p_next p \<noteq> NULL then upd_pool s2 (p_next p) (\<lambda>t. t\<lparr>p_prev := p_prev p\<rparr>) else Some s2);
     b \<leftarrow> pool_at s base;
     (ht, _) \<leftarrow> ht_delete (cfg_ht b) a;
     s \<leftarrow> upd_pool s base (\<lambda>b. b\<lparr>cfg_ht := ht\<rparr>);
     s \<leftarrow> upd_pool s base (\<lambda>b. b\<lparr>total_leftsize := total_leftsize b - ucast (leftsize p)\<rparr>);
     b \<leftarrow> pool_at s base;
     destroy_tail junk base a s b } = Some s'"
    by (rule but_if [OF 1(3,1)]) simp_all
  obtain s3 where 3: "but s3 D a k" "rds s3 = rds s2"
    "do { b \<leftarrow> pool_at s3 base;
     (ht, _) \<leftarrow> ht_delete (cfg_ht b) a;
     s \<leftarrow> upd_pool s3 base (\<lambda>b. b\<lparr>cfg_ht := ht\<rparr>);
     s \<leftarrow> upd_pool s base (\<lambda>b. b\<lparr>total_leftsize := total_leftsize b - ucast (leftsize p)\<rparr>);
     b \<leftarrow> pool_at s base;
     destroy_tail junk base a s b } = Some s'"
    by (rule but_if [OF 2(3,1)]) simp_all
  obtain ht where 4: "do { s \<leftarrow> upd_pool s3 base (\<lambda>b. b\<lparr>cfg_ht := ht\<rparr>);
     s \<leftarrow> upd_pool s base (\<lambda>b. b\<lparr>total_leftsize := total_leftsize b - ucast (leftsize p)\<rparr>);
     b \<leftarrow> pool_at s base;
     destroy_tail junk base a s b } = Some s'"
    using 3(3) by (auto elim!: poolE htE)
  obtain s4 where 5: "but s4 D a k" "rds s4 = rds s3"
    "do { s \<leftarrow> upd_pool s4 base (\<lambda>b. b\<lparr>total_leftsize := total_leftsize b - ucast (leftsize p)\<rparr>);
     b \<leftarrow> pool_at s base;
     destroy_tail junk base a s b } = Some s'"
    by (rule but_bind [OF 4 3(1)]) simp_all
  obtain s5 where 6: "but s5 D a k" "rds s5 = rds s4" "do { b \<leftarrow> pool_at s5 base; destroy_tail junk base a s5 b } = Some s'"
    by (rule but_bind [OF 5(3,1)]) simp_all
  show P using 6(3) by (rule poolE) (use cont 6 5 3 2 1 in simp)
qed

lemma internal_destroy_ok:
  assumes b: "but s D a k" and D: "D a = {}" and k: "k \<le> 65536" and r: "mempool_internal_destroy junk s base a = Some s'"
  shows "heap_ok s' D \<and> (\<forall>x. x < a \<or> a + k \<le> x \<longrightarrow> rds s' x = rds s x)"
proof (rule destroy_prefix [OF r b])
  fix s1 q assume "destroy_tail junk base a s1 q = Some s'" "but s1 D a k" "rds s1 = rds s"
  then show ?thesis using destroy_tail_ok [where s = s1 and a = a and D = D, OF _ D k] by simp
qed

lemma move2header_ok:
  assumes h: "heap_ok s D" and r: "mempool_move2header s b a = Some s'"
  shows "heap_ok s' D \<and> rds s' = rds s"
proof -
  show ?thesis
  proof (cases "a = b \<or> (\<exists>q. pool_at s b = Some q \<and> a = p_next q)")
    case True
    then show ?thesis using r h by (auto simp: mempool_move2header_def elim!: poolE)
  next
    case False
    then obtain q p m where qp: "pool_at s b = Some q" "pool_at s a = Some p" "move2header_loop s p (p_next q) 0 = Some m"
      using r by (auto simp: mempool_move2header_def elim!: bindE)
    show ?thesis
      using r h False qp unfolding mempool_move2header_def
      by (cases "m > 4") (auto elim!: core_bind core_if core_last poolE)
  qed
qed

lemma loose_core:
  assumes "loose s a p as Ls rd" and "rds s' = rds s" and "pool_at s' a = Some p'" and "same_core p p'"
  shows "loose s' a p' as Ls rd"
proof -
  have "heads p' = heads p" using assms(4) by (simp add: same_core_def heads_def)
  then show ?thesis using assms unfolding loose_def same_core_def by simp
qed

text \<open>The pointers that tie the pools of a list together, and a step at the pool \<open>a\<close> that keeps them.\<close>

definition links :: "mempool \<Rightarrow> ptr \<times> ptr \<times> ptr \<times> ptr \<times> mp_hash_table option \<times> mp_hash_table option \<times> u32" where
  "links p = (p_prev p, p_next p, pooltail p, freepool p, cfg_ht p, cfg_largeht p, pool_size p)"

definition same_links :: "mpmem \<Rightarrow> mpmem \<Rightarrow> ptr \<Rightarrow> bool" where
  "same_links s s' a \<longleftrightarrow> (\<forall>c. map_option links (pool_at s' c) = map_option links (pool_at s c) \<and>
     (c \<noteq> a \<longrightarrow> map_option busylist (pool_at s' c) = map_option busylist (pool_at s c)))"

lemma same_links_refl [simp]: "same_links s s a"
  by (simp add: same_links_def)

lemma same_links_trans: "same_links s s1 a \<Longrightarrow> same_links s1 s2 a \<Longrightarrow> same_links s s2 a"
  by (simp add: same_links_def)

lemma same_conf_links: "same_conf p p' \<Longrightarrow> links p' = links p"
  unfolding same_conf_def links_def
  by (drule arg_cong [where f = "\<lambda>p. (p_prev p, p_next p, pooltail p, freepool p, cfg_ht p, cfg_largeht p, pool_size p)"]) simp

lemma conf_same_links:
  assumes "s' = s\<lparr>pools := (pools s)(a \<mapsto> p'), rds := h\<rparr>" and "pool_at s a = Some p" and "same_conf p p'"
  shows "same_links s s' a"
  using assms same_conf_links [OF assms(3)] by (auto simp: same_links_def pool_at_def split: if_splits)

lemma upd_same_links:
  assumes u: "upd_pool s x f = Some s'" and "\<And>q. links (f q) = links q" and "\<And>q. busylist (f q) = busylist q"
  shows "same_links s s' a"
  unfolding same_links_def
proof
  fix c
  show "map_option links (pool_at s' c) = map_option links (pool_at s c) \<and>
    (c \<noteq> a \<longrightarrow> map_option busylist (pool_at s' c) = map_option busylist (pool_at s c))"
    using upd_pool_at [OF u, of c] assms(2,3) by (cases "c = x"; cases "pool_at s c") simp_all
qed

text \<open>The state between \<open>__pfree_realdata\<close> leaving the busy list and the three ways to go on.\<close>

lemma pfree_start:
  assumes h: "heap_ok s D" and rd: "rd \<in> D a" and base: "pool_at s base \<noteq> None"
  shows "\<exists>p s2 p2 as Ls xs d k. pool_at s a = Some p \<and> k = unat (pool_size p) \<and> k \<le> 65536 \<and>
    but s2 (D(a := {})) a k \<and> loose s2 a p2 as Ls rd \<and> Ls ! 5 = xs \<and> set xs = D a - {rd} \<and>
    unat (leftsize p2) = (\<Sum>x\<in>free_blocks Ls. bsz (rds s2) x) \<and> unat (pool_size p2) = k \<and>
    (\<forall>x. x < a \<or> a + k \<le> x \<longrightarrow> rds s2 x = rds s x) \<and> bsz (rds s2) = bsz (rds s) \<and>
    (\<forall>x\<in>set as. a \<le> x \<and> x < a + k) \<and>
    rds s2 rd = Some d \<and> rd_next d = MEMPOOL_NULL \<and> rd_prev d = MEMPOOL_NULL \<and> same_links s s2 a \<and>
    pfree_realdata junk s base a rd =
      (if busylist p2 = NULL then
         if a \<noteq> base then do {
           s \<leftarrow> upd_pool s2 base (\<lambda>b. b\<lparr>total_leftsize := total_leftsize b - ucast (rd_size d)\<rparr>);
           mempool_internal_destroy junk s base a }
         else init_mempool junk s2 a
       else if leftsize p2 = 0 then do {
         s \<leftarrow> set_freelist s2 a (get_freeidx (ucast (rd_size d))) rd;
         s \<leftarrow> upd_rd s rd (\<lambda>t. t\<lparr>rd_status := 0\<rparr>);
         s \<leftarrow> upd_pool s a (\<lambda>p. p\<lparr>leftsize := leftsize p + ucast (rd_size d), failed := 0\<rparr>);
         mempool_move2header s base a }
       else free_realdata s2 a rd)"
proof -
  obtain p where p: "pool_at s a = Some p" by (rule heap_ok_rd [OF h rd])
  obtain as Ls where ok: "pool_ok a p (rds s) as Ls" "set (Ls ! 5) = D a" by (rule heap_okD [OF h p])
  let ?k = "unat (pool_size p)"
  have k: "?k \<le> 65536" and left: "unat (leftsize p) = (\<Sum>x\<in>free_blocks Ls. bsz (rds s) x)" using ok(1) by (simp_all add: pool_ok_def)
  have rd5: "rd \<in> set (Ls ! 5)" using ok(2) rd by simp
  obtain s1 b xs d where s1: "unlink_busy s a rd = Some s1" "s1 = s\<lparr>pools := (pools s)(a \<mapsto> p\<lparr>busylist := b\<rparr>), rds := rds s1\<rparr>"
      "loose s1 a (p\<lparr>busylist := b\<rparr>) as (Ls[5 := xs]) rd" "set xs = set (Ls ! 5) - {rd}" "length Ls = 6"
      "bsz (rds s1) = bsz (rds s)" "\<forall>x. x \<notin> set as \<longrightarrow> rds s1 x = rds s x"
      "rds s1 rd = Some d" "rd_next d = MEMPOOL_NULL" "rd_prev d = MEMPOOL_NULL"
    using unlink_busy_loose [OF p ok(1) rd5] by blast
  have ps1: "pools s1 = (pools s)(a \<mapsto> p\<lparr>busylist := b\<rparr>)" by (rule pools_of [OF s1(2)])
  have rg: "a \<le> x \<and> x < a + ?k" if "x \<in> set as" for x using pool_ok_range [OF ok(1) that] by simp
  have fr: "rds s1 x = rds s x" if "x < a \<or> a + ?k \<le> x" for x
  proof -
    have "x \<notin> set as" using rg [of x] that by auto
    then show ?thesis using s1(7) by blast
  qed
  have b1: "but s1 (D(a := {})) a ?k" by (rule but_change [OF but_open [OF h p] ps1 _ fr]) simp_all
  have "pool_at s1 base \<noteq> None" using base ps1 by (auto simp: pool_at_def split: if_splits)
  then obtain q where q: "pool_at s1 base = Some q" by blast
  let ?f = "\<lambda>b :: mempool. b\<lparr>total_leftsize := total_leftsize b + ucast (rd_size d)\<rparr>"
  obtain s2 where u: "upd_pool s1 base ?f = Some s2" using q by (simp add: upd_pool_def)
  note B = but_core [OF b1 u same_core_upd(7)]
  obtain p2 where p2: "pool_at s2 a = Some p2" "same_core (p\<lparr>busylist := b\<rparr>) p2"
    using upd_pool_at [OF u, of a] looseD(1) [OF s1(3)] by (cases "a = base") (auto simp: same_core_def)
  have l2: "loose s2 a p2 as (Ls[5 := xs]) rd" by (rule loose_core [OF s1(3) B(2) p2])
  have rdN: "rd \<noteq> NULL" using tilesD(1) [OF looseD(3,5) [OF s1(3)]] by (auto simp: placed_def)
  have at1: "pool_at s1 c = (if c = a then Some (p\<lparr>busylist := b\<rparr>) else pool_at s c)" for c
    using ps1 p by (auto simp: pool_at_def split: if_splits)
  have sl: "same_links s s2 a" unfolding same_links_def
    using upd_pool_at [OF u] p by (cases "pool_at s base") (auto simp: at1 links_def)
  have "pfree_realdata junk s base a rd =
      (if busylist p2 = NULL then
         if a \<noteq> base then do {
           s \<leftarrow> upd_pool s2 base (\<lambda>b. b\<lparr>total_leftsize := total_leftsize b - ucast (rd_size d)\<rparr>);
           mempool_internal_destroy junk s base a }
         else init_mempool junk s2 a
       else if leftsize p2 = 0 then do {
         s \<leftarrow> set_freelist s2 a (get_freeidx (ucast (rd_size d))) rd;
         s \<leftarrow> upd_rd s rd (\<lambda>t. t\<lparr>rd_status := 0\<rparr>);
         s \<leftarrow> upd_pool s a (\<lambda>p. p\<lparr>leftsize := leftsize p + ucast (rd_size d), failed := 0\<rparr>);
         mempool_move2header s base a }
       else free_realdata s2 a rd)"
    using s1(1,8) rdN u p2(1) by (simp add: pfree_realdata_def rd_at_def)
  moreover have "free_blocks (Ls[5 := xs]) = free_blocks Ls" by (simp add: free_blocks_def)
  ultimately show ?thesis using p k B l2 s1(4,5,6,8-10) ok(2) p2(2) left fr rg sl
    by (intro exI [of _ p] exI [of _ s2] exI [of _ p2] exI [of _ as] exI [of _ "Ls[5 := xs]"] exI [of _ xs] exI [of _ d] exI [of _ ?k])
      (simp add: same_core_def)
qed

text \<open>A pool that stays in use.\<close>

lemma repaired:
  assumes b: "but s2 (D(a := {})) a k" and pl: "s3 = s2\<lparr>pools := (pools s2)(a \<mapsto> p'), rds := rds s3\<rparr>" and ps: "same_conf p2 p'" "unat (pool_size p2) = k"
    and ok: "pool_ok a p' (rds s3) as' Ls'" and fr: "\<forall>x. x \<notin> set as \<longrightarrow> rds s3 x = rds s2 x" "\<forall>x\<in>set as. a \<le> x \<and> x < a + k"
  shows "heap_ok s3 (D(a := set (Ls' ! 5))) \<and> (\<forall>x. x < a \<or> a + k \<le> x \<longrightarrow> rds s3 x = rds s2 x)"
proof -
  have f: "rds s3 x = rds s2 x" if "x < a \<or> a + k \<le> x" for x
  proof -
    have "x \<notin> set as" using fr(2) that by auto
    then show ?thesis using fr(1) by blast
  qed
  have ps': "unat (pool_size p') = k" using same_confD [OF ps(1)] ps(2) by simp
  have b3: "but s3 (D(a := {})) a k" by (rule but_change [OF b pools_of [OF pl] ps' f])
  have "a \<noteq> NULL" using ok by (simp add: pool_ok_def)
  then have "pool_at s3 a = Some p'" using pools_of [OF pl] by (simp add: pool_at_def)
  from but_close [OF b3 this ok] show ?thesis using f by simp
qed

lemma pfree_realdata_heap:
  assumes h: "heap_ok s D" and rd: "rd \<in> D a" and base: "pool_at s base \<noteq> None"
  shows "(pfree_realdata junk s base a rd = Some s' \<longrightarrow> heap_free s D a rd s') \<and>
    (base = a \<longrightarrow> pfree_realdata junk s base a rd \<noteq> None)"
proof -
  obtain p s2 p2 as Ls xs d k where S: "pool_at s a = Some p" "k = unat (pool_size p)" "k \<le> 65536"
    "but s2 (D(a := {})) a k" "loose s2 a p2 as Ls rd" "Ls ! 5 = xs" "set xs = D a - {rd}"
    "unat (leftsize p2) = (\<Sum>x\<in>free_blocks Ls. bsz (rds s2) x)" "unat (pool_size p2) = k"
    "\<forall>x. x < a \<or> a + k \<le> x \<longrightarrow> rds s2 x = rds s x" "bsz (rds s2) = bsz (rds s)"
    "\<forall>x\<in>set as. a \<le> x \<and> x < a + k"
    "rds s2 rd = Some d" "rd_next d = MEMPOOL_NULL" "rd_prev d = MEMPOOL_NULL" "same_links s s2 a"
    and run: "pfree_realdata junk s base a rd =
      (if busylist p2 = NULL then
         if a \<noteq> base then do {
           s \<leftarrow> upd_pool s2 base (\<lambda>b. b\<lparr>total_leftsize := total_leftsize b - ucast (rd_size d)\<rparr>);
           mempool_internal_destroy junk s base a }
         else init_mempool junk s2 a
       else if leftsize p2 = 0 then do {
         s \<leftarrow> set_freelist s2 a (get_freeidx (ucast (rd_size d))) rd;
         s \<leftarrow> upd_rd s rd (\<lambda>t. t\<lparr>rd_status := 0\<rparr>);
         s \<leftarrow> upd_pool s a (\<lambda>p. p\<lparr>leftsize := leftsize p + ucast (rd_size d), failed := 0\<rparr>);
         mempool_move2header s base a }
       else free_realdata s2 a rd)"
    using pfree_start [OF h rd base, of junk] by (elim exE conjE) (rule that)
  have D': "D(a := D a - {rd}) = D(a := set xs)" using S(7) by simp
  have fin: "heap_free s D a rd s3" if h3: "heap_ok s3 (D(a := set xs))" and f3: "\<forall>x. x < a \<or> a + k \<le> x \<longrightarrow> rds s3 x = rds s2 x"
    and b3: "\<forall>x\<in>set xs. bsz (rds s3) x = bsz (rds s2) x" for s3
  proof -
    have fr: "rds s3 x = rds s x" if "x < a \<or> a + unat (pool_size p) \<le> x" for x
      using f3 [rule_format, of x] S(10) [rule_format, of x] that S(2) by simp
    have "bsz (rds s3) x = bsz (rds s) x" if x: "x \<in> D b" "x \<noteq> rd" for x b
    proof (cases "b = a")
      case True
      then have "x \<in> set xs" using x S(7) by simp
      then show ?thesis using b3 S(11) by simp
    next
      case False
      show ?thesis by (rule heap_ok_bind_size [OF h S(1) x(1) False fr])
    qed
    then show ?thesis unfolding heap_free_def D' using h3 by blast
  qed
  have pa: "pool_at s2 a = Some p2" by (rule looseD(1) [OF S(5)])
  have be: "busylist p2 = NULL \<longleftrightarrow> xs = []"
    
    using busy_head [OF looseD(2) [OF S(5)]] dchain_nodes [OF lists_chain [OF looseD(2) [OF S(5)], of 5], of "hd xs"] S(6) by (cases xs) simp_all
  have e: "D(a := {}) = D(a := set xs)" "(D(a := {})) a = {}" if "xs = []" using that by simp_all
  consider (gone) "busylist p2 = NULL" "a \<noteq> base" | (reset) "busylist p2 = NULL" "a = base"
    | (full) "busylist p2 \<noteq> NULL" "leftsize p2 = 0" | (join) "busylist p2 \<noteq> NULL" "leftsize p2 \<noteq> 0" by blast
  then show ?thesis
  proof cases
    case gone
    have "heap_free s D a rd s'" if r: "pfree_realdata junk s base a rd = Some s'"
    proof -
      obtain s3 where s3: "upd_pool s2 base (\<lambda>b. b\<lparr>total_leftsize := total_leftsize b - ucast (rd_size d)\<rparr>) = Some s3"
          "mempool_internal_destroy junk s3 base a = Some s'" using r run gone by (auto elim!: bindE)
      note B = but_core [OF S(4) s3(1) same_core_upd(7)]
      show ?thesis using internal_destroy_ok [OF B(1) _ S(3) s3(2)] B(2) fin [of s'] e gone be by auto
    qed
    then show ?thesis using gone by blast
  next
    case reset
    have sz: "sizeof_mempool + sizeof_realdata \<le> unat (pool_size p2)"
      using tilesD(2-4) [OF looseD(3,5) [OF S(5)]] by (simp add: first_block_def)
    have k2: "unat (pool_size p2) \<le> 65536" using S(3,9) by simp
    obtain s3 where s3: "init_mempool junk s2 a = Some s3" using init_mempool_ok [OF pa sz k2, of junk] by blast
    have "heap_free s D a rd s3" using init_closes [OF S(4) _ S(3) s3] fin [of s3] e reset be by auto
    then show ?thesis using run reset s3 by auto
  next
    case full
    have ne: "Ls ! 5 \<noteq> []" using full be S(6) by simp
    obtain s3 s4 s5 p' Ls' where r: "set_freelist s2 a (get_freeidx (ucast (rd_size d))) rd = Some s3"
        "upd_rd s3 rd (\<lambda>t. t\<lparr>rd_status := 0\<rparr>) = Some s4"
        "upd_pool s4 a (\<lambda>p. p\<lparr>leftsize := leftsize p + ucast (rd_size d), failed := 0\<rparr>) = Some s5"
        "s5 = s2\<lparr>pools := (pools s2)(a \<mapsto> p'), rds := rds s5\<rparr>" "same_conf p2 p'" "Ls' ! 5 = Ls ! 5" "pool_ok a p' (rds s5) as Ls'"
        "\<forall>x\<in>set (Ls ! 5). bsz (rds s5) x = bsz (rds s2) x" "\<forall>x. x \<notin> set as \<longrightarrow> rds s5 x = rds s2 x"
      using push_only_free [OF S(5,8) full(2) ne S(13-15)] by blast
    have R: "heap_ok s5 (D(a := set xs)) \<and> (\<forall>x. x < a \<or> a + k \<le> x \<longrightarrow> rds s5 x = rds s2 x)"
      using repaired [OF S(4) r(4,5) S(9) r(7,9) S(12)] r(6) S(6) by simp
    have "pfree_realdata junk s base a rd = mempool_move2header s5 base a" using run full r(1-3) by simp
    moreover have "heap_free s D a rd s6" if "mempool_move2header s5 base a = Some s6" for s6
      using move2header_ok [of s5 "D(a := set xs)", OF _ that] fin [of s6] R r(8) S(6) by simp
    moreover have "base = a \<Longrightarrow> mempool_move2header s5 base a \<noteq> None"
      using r(7) pools_of [OF r(4)] by (simp add: mempool_move2header_def pool_at_def pool_ok_def)
    ultimately show ?thesis by auto
  next
    case join
    have ne: "Ls ! 5 \<noteq> []" using join be S(6) by simp
    obtain s3 p' as' Ls' where r: "free_realdata s2 a rd = Some s3" "s3 = s2\<lparr>pools := (pools s2)(a \<mapsto> p'), rds := rds s3\<rparr>"
        "same_conf p2 p'" "Ls' ! 5 = Ls ! 5" "pool_ok a p' (rds s3) as' Ls'"
        "\<forall>x\<in>set (Ls ! 5). bsz (rds s3) x = bsz (rds s2) x" "\<forall>x. x \<notin> set as \<longrightarrow> rds s3 x = rds s2 x"
      using free_realdata_run [OF S(5,8) ne] by blast
    have "heap_ok s3 (D(a := set xs)) \<and> (\<forall>x. x < a \<or> a + k \<le> x \<longrightarrow> rds s3 x = rds s2 x)"
      using repaired [OF S(4) r(2,3) S(9) r(5,7) S(12)] r(4) S(6) by simp
    then have "heap_free s D a rd s3" using fin r(6) S(6) by simp
    then show ?thesis using run join r(1) by auto
  qed
qed

end
