(* ===== verification/MempoolApi.thy ===== *)
theory MempoolApi
  imports MempoolRelease
begin

text \<open>
  The public operations \<open>palloc\<close> and \<open>pfree\<close> of \<open>demo_mempool/mempool.c\<close> over the allocator below them.
\<close>

section \<open>The byte counter of a block\<close>

lemma used_views:
  assumes "h rd = Some d" and "h' = h(rd \<mapsto> d\<lparr>rd_used := u\<rparr>)"
  shows "rnx pool h' = rnx pool h" "rpv pool h' = rpv pool h" "fnx pool h' = fnx pool h" "fpv pool h' = fpv pool h"
    "placed pool h' = placed pool h" "bsz h' = bsz h" "st h' = st h" "bcl h' = bcl h"
  using assms by (auto simp: rnx_def rpv_def fnx_def fpv_def placed_def bsz_def st_def bcl_def fun_eq_iff)

lemma used_keeps:
  assumes h: "heap_ok s D" and u: "upd_rd s rd (\<lambda>d. d\<lparr>rd_used := u\<rparr>) = Some s'"
  shows "heap_ok s' D" "bsz (rds s') = bsz (rds s)" "pool_at s' = pool_at s"
proof -
  obtain d where d: "rds s rd = Some d" "s' = s\<lparr>rds := (rds s)(rd \<mapsto> d\<lparr>rd_used := u\<rparr>)\<rparr>"
    using u by (auto simp: upd_rd_def rd_at_def elim!: bindE split: if_splits)
  have r: "rds s' = (rds s)(rd \<mapsto> d\<lparr>rd_used := u\<rparr>)" using d(2) by simp
  note v = used_views [OF d(1) r]
  have p: "pool_ok a p (rds s') as Ls = pool_ok a p (rds s) as Ls" for a p as Ls
    unfolding pool_ok_def tiles_def mp_lists_def v by (rule refl)
  show at: "pool_at s' = pool_at s" using d(2) by (simp add: pool_at_def fun_eq_iff)
  show "heap_ok s' D" using h unfolding heap_ok_def at p .
  show "bsz (rds s') = bsz (rds s)" by (rule v)
qed

section \<open>Allocation\<close>

lemma get_mempool_keeps:
  assumes r: "get_mempool env s a = Some (s', m)" and h: "heap_ok s D" and env: "malloc_ok env" and m: "m \<noteq> NULL"
  shows "keeps D s s'"
proof -
  obtain p where p: "pool_at s a = Some p" using r by (auto simp: get_mempool_def elim!: bindE)
  define step1 where "step1 = (if freepool p \<noteq> NULL then do {
          let newpool = freepool p;
          n \<leftarrow> pool_at s newpool;
          s \<leftarrow> upd_pool s a (\<lambda>p. p\<lparr>freepool := p_next n\<rparr>);
          s \<leftarrow> (if p_next n \<noteq> NULL then upd_pool s (p_next n) (\<lambda>t. t\<lparr>p_prev := NULL\<rparr>) else Some s);
          s \<leftarrow> upd_pool s a (\<lambda>p. p\<lparr>pfree_count := pfree_count p - 1\<rparr>);
          Some (s, newpool) }
        else mempool_init_extra env s (pool_size p) 0 0 0 (max_searchpool p) NULL NULL)"
  obtain s1 m1 where s1: "step1 = Some (s1, m1)"
    and rest: "do { (s, r) \<leftarrow>
       (if m1 \<noteq> NULL then do {
          p \<leftarrow> pool_at s1 a;
          (ht, r) \<leftarrow> ht_insert (cfg_ht p) m1;
          s \<leftarrow> upd_pool s1 a (\<lambda>p. p\<lparr>cfg_ht := ht\<rparr>);
          Some (s, r) }
        else Some (s1, 0));
     if r \<noteq> 0 then do { s \<leftarrow> free_pool s m1; Some (s, NULL) }
     else do {
       n \<leftarrow> pool_at s m1;
       s \<leftarrow> upd_pool s a (\<lambda>p. p\<lparr>total_alloced := total_alloced p + ucast (pool_size p),
              total_leftsize := total_leftsize p + ucast (leftsize n)\<rparr>);
       Some (s, m1) } } = Some (s', m)"
    using r p unfolding get_mempool_def step1_def by (auto elim!: bindE)
  have k1: "keeps D s s1"
  proof (cases "freepool p = NULL")
    case True
    then show ?thesis using s1 init_extra_keeps [OF _ h env] unfolding step1_def by auto
  next
    case False
    then have "heap_ok s1 D \<and> rds s1 = rds s"
      using s1 h unfolding step1_def Let_def by (auto elim!: core_bind poolE split: if_splits)
    then show ?thesis by (simp add: keeps_def)
  qed
  then have h1: "heap_ok s1 D" by (simp add: keeps_def)
  obtain t s2 and n :: mempool where u: "upd_pool s1 a (\<lambda>p. p\<lparr>cfg_ht := t\<rparr>) = Some s2"
      "upd_pool s2 a (\<lambda>p. p\<lparr>total_alloced := total_alloced p + ucast (pool_size p),
         total_leftsize := total_leftsize p + ucast (leftsize n)\<rparr>) = Some s'"
    using rest m by (auto elim!: bindE split: if_splits)
  have k2: "keeps D s1 s2" by (rule keeps_core [OF u(1) h1]) simp
  then have "keeps D s2 s'" by (intro keeps_core [OF u(2)]) (simp_all add: keeps_def same_core_def)
  then show ?thesis using k1 k2 keeps_trans by blast
qed

text \<open>The loop of \<open>palloc\<close>: whatever pools it adds, a block that it returns is new.\<close>

lemma heap_alloc_keeps: "keeps D s s1 \<Longrightarrow> heap_alloc s1 D a n rd s' \<Longrightarrow> heap_alloc s D a n rd s'"
  by (simp add: keeps_def heap_alloc_def)

lemma palloc_loop_post:
  assumes "palloc_loop env s a n tmp = Some (s', x)" and "heap_ok s D" and "malloc_ok env" and "sizeof_realdata \<le> unat n" and "x \<noteq> NULL"
  shows "sizeof_realdata \<le> x \<and> (\<exists>b. heap_alloc s D b (unat n) (x - sizeof_realdata) s')"
proof -
  define P where "P = (\<lambda>env s n (r :: mpmem \<times> ptr). \<forall>D. heap_ok s D \<longrightarrow> malloc_ok env \<longrightarrow> sizeof_realdata \<le> unat (n :: u32) \<longrightarrow> snd r \<noteq> NULL \<longrightarrow>
    sizeof_realdata \<le> snd r \<and> (\<exists>b. heap_alloc s D b (unat n) (snd r - sizeof_realdata) (fst r)))"
  have "P env s n (s', x)"
  proof (rule palloc_loop.raw_induct [where P = "\<lambda>env s _ n _ r. P env s n r", OF _ assms(1)])
    fix f env s a n tmp r
    assume IH: "\<And>env s a n tmp r. f env s a n tmp = Some r \<Longrightarrow> P env s n r"
      and body: "do {
     (s, rd) \<leftarrow> alloc_realdata (env_rd env) s a tmp n;
     if rd = NULL then do {
       p \<leftarrow> pool_at s a;
       if total_alloced p + ucast (push_bit 1 (pool_size p)) \<ge> ucast (max_memsize p) then Some (s, NULL)
       else do {
         (s, newpool) \<leftarrow> get_mempool env s a;
         if newpool = NULL then Some (s, NULL)
         else do {
           p \<leftarrow> pool_at s a;
           s \<leftarrow> upd_pool s newpool (\<lambda>n. n\<lparr>p_next := p_next p\<rparr>);
           s \<leftarrow> (if p_next p \<noteq> NULL then upd_pool s (p_next p) (\<lambda>t. t\<lparr>p_prev := newpool\<rparr>) else Some s);
           s \<leftarrow> upd_pool s newpool (\<lambda>n. n\<lparr>p_prev := a\<rparr>);
           s \<leftarrow> upd_pool s a (\<lambda>p. p\<lparr>p_next := newpool,
                  pooltail := (if pooltail p = NULL then newpool else pooltail p)\<rparr>);
           f env s a n newpool } } }
     else do {
       s \<leftarrow> upd_rd s rd (\<lambda>d. d\<lparr>rd_used := 0\<rparr>);
       Some (s, rd + sizeof_realdata) } } = Some r"
    show "P env s n r"
      unfolding P_def
    proof (intro allI impI)
      fix D assume h: "heap_ok s D" and env: "malloc_ok env" and n: "sizeof_realdata \<le> unat n" and x: "snd r \<noteq> NULL"
      obtain s1 rd where a: "alloc_realdata (env_rd env) s a tmp n = Some (s1, rd)" using body by (auto elim!: bindE)
      note A = alloc_realdata_post [OF a h n]
      show "sizeof_realdata \<le> snd r \<and> (\<exists>b. heap_alloc s D b (unat n) (snd r - sizeof_realdata) (fst r))"
      proof (cases "rd = NULL")
        case False
        then obtain s2 where u: "upd_rd s1 rd (\<lambda>d. d\<lparr>rd_used := 0\<rparr>) = Some s2" "r = (s2, rd + sizeof_realdata)"
          using body unfolding a by (auto elim!: bindE)
        obtain b where b: "heap_alloc s D b (unat n) rd s1" using A False by (auto simp: again_post_def)
        then have "heap_alloc s D b (unat n) rd s2"
          using used_keeps [OF _ u(1)] used_keeps(2,3) [OF _ u(1), of "D(b := insert rd (D b))"] unfolding heap_alloc_def by auto
        then show ?thesis using u(2) by auto
      next
        case True
        then have h1: "heap_ok s1 D" "keeps D s s1" using A by (simp_all add: again_post_def keeps_def)
        obtain s2 m where g: "get_mempool env s1 a = Some (s2, m)" "m \<noteq> NULL"
          and rest: "do {
           p \<leftarrow> pool_at s2 a;
           s \<leftarrow> upd_pool s2 m (\<lambda>n. n\<lparr>p_next := p_next p\<rparr>);
           s \<leftarrow> (if p_next p \<noteq> NULL then upd_pool s (p_next p) (\<lambda>t. t\<lparr>p_prev := m\<rparr>) else Some s);
           s \<leftarrow> upd_pool s m (\<lambda>n. n\<lparr>p_prev := a\<rparr>);
           s \<leftarrow> upd_pool s a (\<lambda>p. p\<lparr>p_next := m,
                  pooltail := (if pooltail p = NULL then m else pooltail p)\<rparr>);
           f env s a n m } = Some r"
        proof -
          obtain p where p: "pool_at s1 a = Some p" using body True unfolding a by (auto elim!: poolE)
          have np: "\<not> total_alloced p + ucast (push_bit 1 (pool_size p)) \<ge> ucast (max_memsize p)"
            using body True x p unfolding a by auto
          then obtain s2 m where g: "get_mempool env s1 a = Some (s2, m)" using body True p unfolding a by (auto elim!: bindE)
          have "m \<noteq> NULL" using body True p np g x unfolding a by (cases "m = NULL") auto
          then show ?thesis using that [OF g] body True p np g unfolding a by simp
        qed
        have k2: "keeps D s1 s2" by (rule get_mempool_keeps [OF g(1) h1(1) env g(2)])
        then have "heap_ok s2 D" by (simp add: keeps_def)
        with rest obtain s6 where s6: "heap_ok s6 D" "rds s6 = rds s2" and rec: "f env s6 a n m = Some r"
          by (elim poolE core_bind core_if) (simp_all add: same_core_def)
        have k: "keeps D s s6" using h1(2) k2 s6 by (simp add: keeps_def)
        have "P env s6 n r" by (rule IH [OF rec])
        then have "sizeof_realdata \<le> snd r \<and> (\<exists>b. heap_alloc s6 D b (unat n) (snd r - sizeof_realdata) (fst r))"
          using k env n x unfolding P_def keeps_def by blast
        then show ?thesis using heap_alloc_keeps [OF k] by blast
      qed
    qed
  qed
  then show ?thesis using assms(2-5) unfolding P_def by simp
qed

lemma alloc_large_keeps:
  assumes r: "alloc_large env s a sz = Some (s', x)" and h: "heap_ok s D" and x: "x \<noteq> NULL"
  shows "keeps D s s' \<and> sizeof_large \<le> x \<and> larges s' (x - sizeof_large) =
    Some \<lparr>large_flag = MEMPOOL_LARGEFLAG, large_size = MEMPOOL_MEMALIGN (sz + of_nat sizeof_large) 8, large_used = 0\<rparr>"
proof -
  define n where "n = MEMPOOL_MEMALIGN (sz + of_nat sizeof_large) 8"
  define m where "m = env_malloc env s n"
  define s0 where "s0 = s\<lparr>larges := (larges s)(m \<mapsto> \<lparr>large_flag = MEMPOOL_LARGEFLAG, large_size = n, large_used = 0\<rparr>)\<rparr>"
  note d = n_def [symmetric] m_def [symmetric] s0_def [symmetric]
  have "m \<noteq> NULL" using r x unfolding alloc_large_def Let_def d by (cases "m = NULL") auto
  then obtain t s1 where u: "upd_pool s0 a (\<lambda>p. p\<lparr>cfg_largeht := t\<rparr>) = Some s1"
      "upd_pool s1 a (\<lambda>p. p\<lparr>total_alloced := total_alloced p + ucast n\<rparr>) = Some s'" "x = m + sizeof_large"
    using r x unfolding alloc_large_def Let_def d by (auto elim!: bindE split: if_splits)
  have at: "pool_at s0 = pool_at s" "rds s0 = rds s" by (simp_all add: pool_at_def fun_eq_iff s0_def)
  have k0: "keeps D s s0" using h unfolding keeps_def heap_ok_def at by simp
  have k1: "keeps D s0 s1" by (rule keeps_core [OF u(1)]) (use k0 in \<open>simp_all add: keeps_def\<close>)
  have k2: "keeps D s1 s'" by (rule keeps_core [OF u(2)]) (use k1 in \<open>simp_all add: keeps_def\<close>)
  have "larges s' = larges s1" using u(2) by (auto simp: upd_pool_def elim!: bindE)
  also have "\<dots> = larges s0" using u(1) by (auto simp: upd_pool_def elim!: bindE)
  finally have "larges s' m = Some \<lparr>large_flag = MEMPOOL_LARGEFLAG, large_size = n, large_used = 0\<rparr>" by (simp add: s0_def)
  moreover have "keeps D s s'" using k0 k1 k2 keeps_trans by blast
  ultimately show ?thesis unfolding u(3) n_def by simp
qed

lemma pool_room:
  assumes ok: "pool_ok a p h as Ls"
  shows "sizeof_mempool + sizeof_realdata \<le> unat (pool_size p)" and "unat (pool_size p) \<le> 65536"
proof -
  have t: "tiles a h (a + unat (pool_size p)) as" using ok by (simp add: pool_ok_def)
  have fN: "first_block a \<noteq> NULL" by (simp add: first_block_def sizeof_mempool_def)
  have c: "dchain (rnx a h) (rpv a h) NULL (first_block a) as" using t by (simp add: tiles_def)
  then have "as \<noteq> []" using fN by auto
  then obtain x xs where "as = x # xs" by (cases as) auto
  then have f: "first_block a \<in> set as" using c by auto
  then have "sizeof_realdata \<le> bsz h (first_block a)" "first_block a + bsz h (first_block a) \<le> a + unat (pool_size p)"
    using t by (simp_all add: tiles_def)
  then show "sizeof_mempool + sizeof_realdata \<le> unat (pool_size p)" by (simp add: first_block_def)
  show "unat (pool_size p) \<le> 65536" using ok by (simp add: pool_ok_def)
qed

lemma unat_ucast_32_64 [simp]: "unat (ucast (x :: u32) :: u64) = unat x"
proof -
  have "unat x < 2 ^ LENGTH(32)" by (rule unsigned_less)
  then show ?thesis by (simp add: unsigned_ucast_eq take_bit_nat_eq_self)
qed

lemma palloc_post:
  assumes r: "palloc env s a sz = Some (s', x)" and h: "heap_ok s D" and env: "malloc_ok env" and x: "x \<noteq> NULL"
  shows "sizeof_realdata \<le> x \<and> (\<exists>b. heap_alloc s D b (unat sz + sizeof_realdata) (x - sizeof_realdata) s') \<or>
    keeps D s s' \<and> sizeof_large \<le> x \<and> larges s' (x - sizeof_large) =
      Some \<lparr>large_flag = MEMPOOL_LARGEFLAG, large_size = MEMPOOL_MEMALIGN (sz + of_nat sizeof_large) 8, large_used = 0\<rparr>"
proof -
  have aN: "a \<noteq> NULL" using r x by (cases "a = NULL") (auto simp: palloc_def)
  obtain p where p: "pool_at s a = Some p" using r aN by (auto simp: palloc_def elim!: poolE)
  obtain as Ls where ok: "pool_ok a p (rds s) as Ls" by (rule heap_okD [OF h p])
  note room = pool_room [OF ok]
  show ?thesis
  proof (cases "(ucast sz :: u64) > ucast (pool_size p) - of_nat sizeof_mempool - of_nat sizeof_realdata")
    case True
    then have "alloc_large env s a sz = Some (s', x)" using r aN p x by (auto simp: palloc_def Let_def split: if_splits)
    from alloc_large_keeps [OF this h x] show ?thesis by blast
  next
    case False
    let ?n = "sz + of_nat sizeof_realdata"
    obtain tmp where l: "palloc_loop env s a ?n tmp = Some (s', x)"
      using r aN p x False by (auto simp: palloc_def Let_def split: if_splits)
    have le: "(of_nat (sizeof_mempool + sizeof_realdata) :: u64) \<le> ucast (pool_size p)"
      using room by (simp add: word_le_nat_alt sizeof_mempool_def sizeof_realdata_def)
    have "unat (ucast (pool_size p) - of_nat (sizeof_mempool + sizeof_realdata) :: u64) \<le> unat (pool_size p)"
      using le by (simp add: unat_sub)
    moreover have "(ucast sz :: u64) \<le> ucast (pool_size p) - of_nat (sizeof_mempool + sizeof_realdata)"
      using False by (simp add: diff_diff_eq)
    then have "unat sz \<le> unat (ucast (pool_size p) - of_nat (sizeof_mempool + sizeof_realdata) :: u64)"
      unfolding word_le_nat_alt by simp
    ultimately have "unat sz \<le> 65536" using room(2) by simp
    then have n: "unat ?n = unat sz + sizeof_realdata"
      by (simp add: unat_word_ariths sizeof_realdata_def)
    show ?thesis using palloc_loop_post [OF l h env _ x] n by simp
  qed
qed

section \<open>Release\<close>

text \<open>A hash table of addresses of the pool, and what it holds.\<close>

definition addr_table :: "mp_hash_table option \<Rightarrow> ptr set \<Rightarrow> bool" where
  "addr_table t S \<longleftrightarrow> (case t of None \<Rightarrow> S = {}
     | Some ht \<Rightarrow> mp_inv ht \<and> mp_hashf ht = hash_memaddr \<and> mp_cmp ht = Some hash_memcmp \<and> set (mp_elems ht) = S \<and> (\<forall>x\<in>S. x < 2 ^ 64))"

lemma addr_table_find:
  assumes t: "addr_table t S" and x: "x \<noteq> NULL" "x < 2 ^ 64"
  shows "ht_find t x = Some (if x \<in> S then x else NULL)"
proof (cases t)
  case None
  then show ?thesis using t by (simp add: addr_table_def ht_find_def)
next
  case (Some ht)
  have A: "mp_inv ht" "mp_hashf ht = hash_memaddr" "mp_cmp ht = Some hash_memcmp" "set (mp_elems ht) = S" "\<forall>x\<in>S. x < 2 ^ 64"
    using t Some by (simp_all add: addr_table_def)
  obtain bs fs where "mp_rep ht bs fs" using A(1) mp_inv_rep by blast
  from pool.find_spec [OF this A(2,3) x(1)] obtain y where y: "mp_hash_table_find ht x = Some y"
    "if \<exists>z\<in>S. same hash_memaddr (Some hash_memcmp) x z then y \<in> S \<and> same hash_memaddr (Some hash_memcmp) x y \<and> y \<noteq> NULL else y = NULL"
    using A(4) by auto
  have eq: "same hash_memaddr (Some hash_memcmp) x z \<longleftrightarrow> x = z" if "z \<in> S" for z
  proof -
    have "z < 2 ^ 64" using A(5) that by blast
    then have "unat (of_nat z :: u64) = z" "unat (of_nat x :: u64) = x" using x(2) by (simp_all add: unat_of_nat)
    then show ?thesis unfolding pool_same by metis
  qed
  show ?thesis using y eq Some by (auto simp: ht_find_def split: if_splits)
qed

lemma pfree_live:
  assumes h: "heap_ok s D" and rd: "rd \<in> D b" and a: "pool_at s a = Some p" and aN: "a \<noteq> NULL"
    and ht: "addr_table (cfg_ht p) T" "b \<in> T" and lt: "addr_table (cfg_largeht p) L" "rd + sizeof_realdata - sizeof_large \<notin> L"
    and sm: "rd < 2 ^ 63"
  shows "pfree env s a (rd + sizeof_realdata) = do { s \<leftarrow> pfree_realdata (env_rd env) s a b rd; Some (s, 0) }"
proof -
  obtain q where q: "pool_at s b = Some q" "b \<le> rd" "rd < b + unat (pool_size q)" by (rule heap_ok_rd [OF h rd])
  obtain as Ls where ok: "pool_ok b q (rds s) as Ls" "set (Ls ! 5) = D b" by (rule heap_okD [OF h q(1)])
  have ra: "rd \<in> set as" using pool_ok_mem [OF ok(1), of 5 rd] ok(2) rd by simp
  have "placed b (rds s) rd" using ok(1) ra by (simp add: pool_ok_def tiles_def)
  then obtain d where d: "rds s rd = Some d" "mempool_get_realdata b (rd_offset d) = rd" "rd \<noteq> NULL" by (auto simp: placed_def)
  then have off: "rd = b + sizeof_mempool + unat (rd_offset d)" by (auto simp: mempool_get_realdata_def mempool_get_realdata_direct_def split: if_splits)
  have "st (rds s) rd = 1" using ok rd by (simp add: pool_ok_def)
  then have st: "rd_status d \<noteq> 0" using d(1) by (simp add: st_def)
  have bN: "b \<noteq> NULL" using ok(1) by (simp add: pool_ok_def)
  have "ht_find (cfg_largeht p) (rd + sizeof_realdata - sizeof_large) = Some NULL"
    using addr_table_find [OF lt(1), of "rd + sizeof_realdata - sizeof_large"] lt(2) sm by (simp add: sizeof_realdata_def sizeof_large_def)
  then have large: "check_large_in_pool s a (rd + sizeof_realdata - sizeof_large) = Some NULL"
    using a aN by (simp add: check_large_in_pool_def)
  have "ht_find (cfg_ht p) b = Some b" using addr_table_find [OF ht(1) bN] ht(2) off sm by simp
  then have "check_realdata_in_pool s a rd = Some b"
    using d(1,3) a off by (simp add: check_realdata_in_pool_def rd_at_def)
  then show ?thesis using aN large d st bN by (simp add: pfree_def pfree_small_def rd_at_def Let_def)
qed

end
