(* ===== verification/MempoolReturns.thy ===== *)
theory MempoolReturns
  imports MempoolApi
begin

text \<open>
  When the search of \<open>__alloc_realdata\<close> in \<open>demo_mempool/mempool.c\<close> returns: over a list of pools none of which has failed too often, and on a
  pool with nothing in use; which pool the block found belongs to; and what a new pool starts with.
\<close>

section \<open>The search\<close>

definition p_nxt :: "mpmem \<Rightarrow> ptr \<Rightarrow> ptr option" where
  "p_nxt s x = map_option p_next (pools s x)"

text \<open>Only failure counters differ.\<close>

definition only_failed :: "mpmem \<Rightarrow> mpmem \<Rightarrow> bool" where
  "only_failed s s' \<longleftrightarrow> rds s' = rds s \<and>
     (\<forall>b. map_option (\<lambda>p. p\<lparr>failed := 0\<rparr>) (pools s' b) = map_option (\<lambda>p. p\<lparr>failed := 0\<rparr>) (pools s b))"

text \<open>No pool disappears.\<close>

definition pools_stay :: "mpmem \<Rightarrow> mpmem \<Rightarrow> bool" where
  "pools_stay s s' \<longleftrightarrow> (\<forall>b. pool_at s b \<noteq> None \<longrightarrow> pool_at s' b \<noteq> None)"

lemma only_failed_refl [simp]: "only_failed s s"
  by (simp add: only_failed_def)

lemma only_failed_trans: "only_failed s s1 \<Longrightarrow> only_failed s1 s2 \<Longrightarrow> only_failed s s2"
  by (simp add: only_failed_def)

lemma only_failed_upd: "upd_pool s a (\<lambda>t. t\<lparr>failed := failed t + 1\<rparr>) = Some s1 \<Longrightarrow> only_failed s s1"
  by (auto simp: only_failed_def upd_pool_def pool_at_def split: bind_splits if_splits)

lemma only_failed_pool:
  assumes "only_failed s s'" and "pool_at s b = Some p"
  obtains p' where "pool_at s' b = Some p'" "p'\<lparr>failed := 0\<rparr> = p\<lparr>failed := 0\<rparr>"
  using assms unfolding only_failed_def pool_at_def by (auto split: if_splits) (metis (no_types, lifting) map_option_eq_Some)

lemma failed_fields:
  assumes "p'\<lparr>failed := 0\<rparr> = p\<lparr>failed := 0\<rparr>"
  shows "p_next p' = p_next p" "max_searchpool p' = max_searchpool p" "freepool p' = freepool p" "cfg_ht p' = cfg_ht p"
    "pool_size p' = pool_size p"
  using arg_cong [OF assms, of p_next] arg_cong [OF assms, of max_searchpool] arg_cong [OF assms, of freepool]
    arg_cong [OF assms, of cfg_ht] arg_cong [OF assms, of pool_size] by simp_all

lemma pools_stay_trans: "pools_stay s s1 \<Longrightarrow> pools_stay s1 s2 \<Longrightarrow> pools_stay s s2"
  by (simp add: pools_stay_def)

lemma pools_stay_upd: "upd_pool s a f = Some s1 \<Longrightarrow> pools_stay s s1"
  by (auto simp: pools_stay_def upd_pool_at)

lemma only_failed_stay: "only_failed s s' \<Longrightarrow> pools_stay s s'"
  unfolding pools_stay_def by (metis not_None_eq only_failed_pool)

lemma only_failed_dom: "only_failed s s' \<Longrightarrow> dom (pools s') = dom (pools s)"
  unfolding only_failed_def dom_def by (metis (mono_tags, lifting) map_option_is_None)

text \<open>What a block that was taken leaves behind.\<close>

definition taken :: "mpmem \<Rightarrow> mpmem \<Rightarrow> ptr \<Rightarrow> ptr \<Rightarrow> bool" where
  "taken s s' t rd \<longleftrightarrow> rd \<noteq> NULL \<and> rd_at s' rd \<noteq> None \<and> pools_stay s s' \<and> same_links s s' t \<and>
     t \<le> rd \<and> (\<exists>p. pool_at s t = Some p \<and> rd < t + unat (pool_size p))"

lemma only_failed_links: "only_failed s s' \<Longrightarrow> same_links s s' a"
proof -
  assume o: "only_failed s s'"
  have "map_option links (pool_at s' c) = map_option links (pool_at s c) \<and> map_option busylist (pool_at s' c) = map_option busylist (pool_at s c)" for c
  proof -
    have "map_option (\<lambda>p. p\<lparr>failed := 0\<rparr>) (pool_at s' c) = map_option (\<lambda>p. p\<lparr>failed := 0\<rparr>) (pool_at s c)"
      using o by (simp add: only_failed_def pool_at_def)
    from arg_cong [OF this, of "map_option links"] arg_cong [OF this, of "map_option busylist"]
    show ?thesis by (cases "pool_at s' c"; cases "pool_at s c") (simp_all add: links_def)
  qed
  then show ?thesis by (simp add: same_links_def)
qed

lemma same_links_size:
  assumes "same_links s s' a" and "pool_at s' b = Some p'"
  obtains p where "pool_at s b = Some p" "links p = links p'" "pool_size p = pool_size p'"
proof -
  have "map_option links (pool_at s' b) = map_option links (pool_at s b)" using assms(1) by (simp add: same_links_def)
  then obtain p where "pool_at s b = Some p" "links p = links p'" using assms(2) by (cases "pool_at s b") auto
  moreover from this have "pool_size p = pool_size p'" by (simp add: links_def)
  ultimately show ?thesis using that by blast
qed

lemma alloc_post_taken:
  assumes post: "alloc_post s a p as Ls n rd s' p' as' Ls'" and a: "pool_at s a = Some p"
  shows "taken s s' a rd"
proof -
  have P: "same_conf p p'" "s' = s\<lparr>pools := (pools s)(a \<mapsto> p'), rds := rds s'\<rparr>" "pool_ok a p' (rds s') as' Ls'"
     "set (Ls' ! 5) = insert rd (set (Ls ! 5))" using post unfolding alloc_post_def by blast+
  have "rd \<in> set as'" using pool_ok_mem [OF P(3), of 5 rd] P(4) by simp
  then have "placed a (rds s') rd" using P(3) by (simp add: pool_ok_def tiles_def)
  moreover have "pool_at s' b = (if b = a then Some p' else pool_at s b)" for b
    using a by (subst P(2)) (auto simp: pool_at_def split: if_splits)
  moreover have "a \<le> rd \<and> rd < a + unat (pool_size p)"
    using pool_ok_range [OF P(3) \<open>rd \<in> set as'\<close>] same_confD(1) [OF P(1)] by auto
  moreover have "same_links s s' a" by (rule conf_same_links [OF P(2) a P(1)])
  ultimately show ?thesis using a by (auto simp: taken_def pools_stay_def placed_def rd_at_def)
qed

lemma take_busy_run:
  assumes h: "heap_ok s D" and a: "pool_at s a = Some p" and b: "busylist p \<noteq> NULL" and sz: "sizeof_realdata \<le> unat sz"
  obtains ava where "get_availdata s a sz = Some ava" "ava \<noteq> NULL \<Longrightarrow>
    \<exists>s1 s2. alloc_busy junk s a ava sz = Some (s1, ava) \<and> alloc_finish s1 a ava = Some s2 \<and> taken s s2 a ava"
proof -
  obtain as Ls where ok: "pool_ok a p (rds s) as Ls" "set (Ls ! 5) = D a" by (rule heap_okD [OF h a])
  have l: "mp_lists a (rds s) (heads p) Ls" using ok by (simp add: pool_ok_def)
  have "Ls ! 5 \<noteq> []" using busy_empty [OF ok(1)] b by simp
  then show ?thesis
    using that get_availdata_ok [OF a l, of sz] alloc_busy_ok [OF a ok(1) _ _ sz, of _ _ junk] alloc_post_taken [OF _ a] by metis
qed

lemma take_first_run:
  assumes h: "heap_ok s D" and a: "pool_at s a = Some p" and b: "busylist p = NULL" and sz: "sizeof_realdata \<le> unat sz"
    and le: "\<not> (ucast (leftsize p) :: u32) < sz"
  obtains s1 s2 rd where "alloc_first junk s a sz = Some (s1, rd)" "alloc_finish s1 a rd = Some s2" "taken s s2 a rd"
proof -
  obtain as Ls where ok: "pool_ok a p (rds s) as Ls" "set (Ls ! 5) = D a" by (rule heap_okD [OF h a])
  have e: "Ls ! 5 = []" using busy_empty [OF ok(1)] b by simp
  have le': "unat sz \<le> unat (leftsize p)" using le by (simp add: word_less_nat_alt)
  show ?thesis using that alloc_first_ok [OF a ok(1) e sz le', of junk] alloc_post_taken [OF _ a] by metis
qed

text \<open>The search ends; when it finds nothing and has no limit it has come to the end of the list.\<close>

definition search_ends :: "ptr set \<Rightarrow> mpmem \<Rightarrow> ptr \<Rightarrow> (mpmem \<times> ptr \<times> ptr) option \<Rightarrow> bool" where
  "search_ends A s base r \<longleftrightarrow> (\<exists>s' t rd. r = Some (s', t, rd) \<and>
     (if rd = NULL then only_failed s s' \<and> (\<forall>q. pool_at s base = Some q \<and> \<not> max_searchpool q > 0 \<longrightarrow> t = NULL) else t \<in> A \<and> taken s s' t rd))"

lemma search_ends_step:
  assumes "search_ends A s1 base r" and "only_failed s s1"
  shows "search_ends A s base r"
proof -
  have l: "same_links s s1 a" for a by (rule only_failed_links [OF assms(2)])
  have sz: "\<exists>p. pool_at s c = Some p \<and> pool_size p = pool_size p1" if "pool_at s1 c = Some p1" for c p1
    using same_links_size [OF l that] by blast
  have m: "\<exists>q1. pool_at s1 base = Some q1 \<and> max_searchpool q1 = max_searchpool q" if "pool_at s base = Some q" for q
    using only_failed_pool [OF assms(2) that] failed_fields(2) by metis
  have tk: "taken s s' t rd" if "taken s1 s' t rd" for s' t rd
    using that same_links_trans [OF l] pools_stay_trans [OF only_failed_stay [OF assms(2)]] sz [of t] unfolding taken_def by metis
  show ?thesis
    using assms m only_failed_trans [OF assms(2)] tk unfolding search_ends_def by (auto split: if_splits) metis+
qed

lemma search_run:
  assumes "heap_ok s D" and "chain (p_nxt s) a ps" and "\<forall>x\<in>set ps. \<forall>p. pools s x = Some p \<longrightarrow> failed p < MEMPOOL_FAILED_SKIP"
    and "pool_at s base \<noteq> None" and "set ps \<subseteq> A" and sz: "sizeof_realdata \<le> unat sz"
  shows "search_ends A s base (alloc_search junk s base sz a n)"
  using assms(1-5)
proof (induction ps arbitrary: s a n)
  case Nil
  then show ?case by (simp add: alloc_search.simps search_ends_def)
next
  case (Cons x ps)
  note h = Cons.prems(1)
  obtain p where p: "x = a" "a \<noteq> NULL" "pools s a = Some p" "chain (p_nxt s) (p_next p) ps"
  proof -
    obtain r where "a = x" "x \<noteq> NULL" "p_nxt s x = Some r" "chain (p_nxt s) r ps" using Cons.prems(2) by auto
    then show ?thesis using that by (auto simp: p_nxt_def [of s x])
  qed
  have pa: "pool_at s a = Some p" using p by (simp add: pool_at_def)
  have f: "failed p < MEMPOOL_FAILED_SKIP" using Cons.prems(3) p by auto
  obtain q where q: "pool_at s base = Some q" using Cons.prems(4) by blast
  have aA: "a \<in> A" using Cons.prems(5) p(1) by simp
  have nx: "a \<notin> set ps" using chain_distinct [OF Cons.prems(2)] p(1) by simp
  have rec: "search_ends A s base (alloc_search junk s1 base sz (p_next p) m)"
    if s1: "s1 = s \<or> upd_pool s a (\<lambda>t. t\<lparr>failed := failed t + 1\<rparr>) = Some s1" for s1 m
  proof (cases "s1 = s")
    case True
    show ?thesis using Cons.IH [OF h p(4)] Cons.prems(3-5) True by simp
  next
    case False
    then have u: "upd_pool s a (\<lambda>t. t\<lparr>failed := failed t + 1\<rparr>) = Some s1" using s1 by blast
    then have e: "s1 = s\<lparr>pools := (pools s)(a \<mapsto> p\<lparr>failed := failed p + 1\<rparr>)\<rparr>" using pa by (simp add: upd_pool_def)
    have "chain (p_nxt s1) (p_next p) ps"
    proof (subst chain_cong)
      show "p_nxt s1 x = p_nxt s x" if "x \<in> set ps" for x using that nx by (auto simp: p_nxt_def e)
    qed (rule p(4))
    moreover have "\<forall>x\<in>set ps. \<forall>p. pools s1 x = Some p \<longrightarrow> failed p < MEMPOOL_FAILED_SKIP" using Cons.prems(3) nx by (auto simp: e)
    moreover have "pool_at s1 base \<noteq> None" using upd_pool_at [OF u, of base] q by auto
    ultimately have "search_ends A s1 base (alloc_search junk s1 base sz (p_next p) m)" using Cons.IH Cons.prems(5) heap_ok_core(1) [OF h u] by simp
    then show ?thesis by (rule search_ends_step) (rule only_failed_upd [OF u])
  qed
  have up: "\<exists>s1. upd_pool s a (\<lambda>t. t\<lparr>failed := failed t + 1\<rparr>) = Some s1" using pa by (simp add: upd_pool_def)
  then obtain s1 where s1: "upd_pool s a (\<lambda>t. t\<lparr>failed := failed t + 1\<rparr>) = Some s1" by blast
  note R = rec [OF disjI1 [OF refl]] rec [OF disjI2 [OF s1]]
  have stop: "search_ends A s base (Some (s0, a, NULL))" if "s0 = s \<or> s0 = s1" "max_searchpool q > 0" for s0
    using that only_failed_upd [OF s1] q by (auto simp: search_ends_def)
  obtain as Ls where ok: "pool_ok a p (rds s) as Ls" by (rule heap_okD [OF h pa])
  then have len: "length (freelist p) = 5" using lists_length [of a "rds s" p Ls] by (simp add: pool_ok_def)
  obtain fl k where fk: "first_free p (cls sz) = (fl, k)" by (cases "first_free p (cls sz)")
  then have g: "mempool_get_freelist p sz = Some (fl, k)" using get_freelist_first [OF len, of sz] by simp
  show ?case
  proof (cases "(ucast (leftsize p) :: u32) < sz \<or> fl = NULL")
    case True
    then show ?thesis using R stop s1 pa q p(2) g f by (subst alloc_search.simps) (auto simp: Let_def)
  next
    case False
    show ?thesis
    proof (cases "busylist p = NULL")
      case True
      obtain s1 s2 rd where "alloc_first junk s a sz = Some (s1, rd)" "alloc_finish s1 a rd = Some s2" "taken s s2 a rd"
        using take_first_run [OF h pa True sz] False by blast
      then show ?thesis using True False pa q p(2) g aA by (subst alloc_search.simps) (auto simp: search_ends_def taken_def)
    next
      case nb: False
      obtain ava where av: "get_availdata s a sz = Some ava" "ava \<noteq> NULL \<Longrightarrow>
          \<exists>s1 s2. alloc_busy junk s a ava sz = Some (s1, ava) \<and> alloc_finish s1 a ava = Some s2 \<and> taken s s2 a ava"
        using take_busy_run [OF h pa nb sz, of junk] by blast
      show ?thesis
      proof (cases "ava = NULL")
        case True
        then show ?thesis using av R stop s1 nb False pa q p(2) g f by (subst alloc_search.simps) (auto simp: Let_def)
      next
        case av': False
        obtain s3 s2 where "alloc_busy junk s a ava sz = Some (s3, ava)" "alloc_finish s3 a ava = Some s2" "taken s s2 a ava"
          using av(2) [OF av'] by blast
        then show ?thesis using av(1) av' nb False pa q p(2) g aA by (subst alloc_search.simps) (auto simp: search_ends_def)
      qed
    qed
  qed
qed

section \<open>The search from the base pool\<close>

definition realdata_ends :: "ptr set \<Rightarrow> mpmem \<Rightarrow> (mpmem \<times> ptr) option \<Rightarrow> bool" where
  "realdata_ends A s r \<longleftrightarrow> (\<exists>s' rd. r = Some (s', rd) \<and> (if rd = NULL then only_failed s s' else (\<exists>t\<in>A. taken s s' t rd)))"

lemma taken_upd:
  assumes t: "taken s s1 t rd" and u: "upd_pool s1 b f = Some s2"
    and l: "\<And>q. links (f q) = links q" "\<And>q. busylist (f q) = busylist q"
  shows "taken s s2 t rd"
proof -
  have "rds s2 = rds s1" using u by (auto simp: upd_pool_def split: bind_splits)
  then have "rd_at s2 rd = rd_at s1 rd" by (simp add: rd_at_def)
  moreover have "same_links s1 s2 t" by (rule upd_same_links [OF u l])
  ultimately show ?thesis using t pools_stay_trans [OF _ pools_stay_upd [OF u]] same_links_trans by (auto simp: taken_def)
qed

lemma alloc_realdata_taken:
  assumes "alloc_search junk s base sz a 0 = Some (s', t, rd)" and "taken s s' t rd" and "pool_at s base \<noteq> None"
  shows "\<exists>s2. alloc_realdata junk s base a sz = Some (s2, rd) \<and> taken s s2 t rd"
proof -
  obtain q' where q': "pool_at s' base = Some q'" using assms(2,3) by (auto simp: pools_stay_def taken_def)
  obtain d where d: "rd_at s' rd = Some d" "rd \<noteq> NULL" using assms(2) by (auto simp: taken_def)
  have "\<exists>s2. upd_pool s' base (\<lambda>b. b\<lparr>total_leftsize := total_leftsize b - ucast (rd_size d)\<rparr>) = Some s2"
    using q' by (simp add: upd_pool_def)
  then obtain s2 where u: "upd_pool s' base (\<lambda>b. b\<lparr>total_leftsize := total_leftsize b - ucast (rd_size d)\<rparr>) = Some s2" by blast
  then show ?thesis using assms(1) q' d taken_upd [OF assms(2) u] by (simp add: links_def alloc_realdata_def alloc_again.simps)
qed

lemma alloc_realdata_search:
  assumes "search_ends A s base (alloc_search junk s base sz a 0)" and q: "pool_at s base = Some q" "\<not> max_searchpool q > 0"
  shows "realdata_ends A s (alloc_realdata junk s base a sz)"
proof -
  obtain s' t rd where r: "alloc_search junk s base sz a 0 = Some (s', t, rd)"
      "if rd = NULL then only_failed s s' \<and> t = NULL else t \<in> A \<and> taken s s' t rd"
    using assms unfolding search_ends_def by auto
  have "pools_stay s s'" using r(2) only_failed_stay by (auto simp: taken_def split: if_splits)
  then obtain q' where q': "pool_at s' base = Some q'" using q(1) by (auto simp: pools_stay_def)
  show ?thesis
  proof (cases "rd = NULL")
    case True
    then show ?thesis using r q' by (simp add: alloc_realdata_def alloc_again.simps realdata_ends_def)
  next
    case False
    then obtain s2 where "alloc_realdata junk s base a sz = Some (s2, rd)" "taken s s2 t rd" "t \<in> A"
      using alloc_realdata_taken [OF r(1)] r(2) q(1) by auto
    then show ?thesis using False unfolding realdata_ends_def by (intro exI [of _ s2] exI [of _ rd]) auto
  qed
qed

text \<open>A pool with nothing in use and enough room is used at once.\<close>

lemma first_free_last:
  assumes "freelist p ! 4 \<noteq> NULL" and "k < 5"
  shows "fst (first_free p k) \<noteq> NULL"
proof -
  have "4 \<in> set (filter (\<lambda>j. freelist p ! j \<noteq> NULL) [k..<5])" using assms by simp
  then obtain j js where j: "filter (\<lambda>j. freelist p ! j \<noteq> NULL) [k..<5] = j # js"
    by (metis (no_types, lifting) list.exhaust list.set(1) empty_iff)
  then have "j \<in> set (filter (\<lambda>j. freelist p ! j \<noteq> NULL) [k..<5])" by simp
  then have "freelist p ! j \<noteq> NULL" by simp
  then show ?thesis unfolding first_free_def j by simp
qed

lemma search_fresh:
  assumes h: "heap_ok s D" and n: "pool_at s m = Some n" and b: "busylist n = NULL" and sz: "sizeof_realdata \<le> unat sz"
    and le: "\<not> (ucast (leftsize n) :: u32) < sz" and q: "pool_at s base \<noteq> None"
  obtains s' rd where "alloc_search junk s base sz m k = Some (s', m, rd)" "taken s s' m rd"
proof -
  have mN: "m \<noteq> NULL" using n by (auto simp: pool_at_def split: if_splits)
  obtain as Ls where ok: "pool_ok m n (rds s) as Ls" by (rule heap_okD [OF h n])
  then have len: "length (freelist n) = 5" using lists_length [of m "rds s" n Ls] by (simp add: pool_ok_def)
  have e: "Ls ! 5 = []" using busy_empty [OF ok] b by simp
  have l: "mp_lists m (rds s) (heads n) Ls" using ok by (simp add: pool_ok_def)
  have "Ls ! 4 = [first_block m]" using ok e by (auto simp: pool_ok_def)
  then have "heads n ! 4 = first_block m" using lists_chain [OF l, of 4] by simp
  then have f4: "freelist n ! 4 \<noteq> NULL" using len by (simp add: heads_def nth_append first_block_def sizeof_mempool_def)
  have "cls sz < 5" by (simp add: cls_def get_freeidx_def)
  from first_free_last [OF f4 this] obtain fl i where fl: "mempool_get_freelist n sz = Some (fl, i)" "fl \<noteq> NULL"
    using get_freelist_first [OF len, of sz] by (cases "first_free n (cls sz)") auto
  obtain s1 s2 rd where "alloc_first junk s m sz = Some (s1, rd)" "alloc_finish s1 m rd = Some s2" "taken s s2 m rd"
    using take_first_run [OF h n b sz le] by blast
  then have "alloc_search junk s base sz m k = Some (s2, m, rd) \<and> taken s s2 m rd"
    using fl le b n q mN by (subst alloc_search.simps) auto
  then show ?thesis using that by blast
qed

section \<open>A new pool\<close>

lemma ht_insert_total:
  assumes "addr_table t S"
  obtains t' r where "ht_insert t x = Some (t', r)"
proof (cases t)
  case None
  then show ?thesis using that by (simp add: ht_insert_def)
next
  case (Some ht)
  then have A: "mp_inv ht" "mp_hashf ht = hash_memaddr" "mp_cmp ht = Some hash_memcmp" using assms by (simp_all add: addr_table_def)
  obtain bs fs where R: "mp_rep ht bs fs" using A(1) mp_inv_rep by blast
  have "mp_hash_table_insert ht x \<noteq> None"
  proof (cases "x = NULL \<or> num_elements ht \<ge> num_buckets ht \<or> (\<exists>y\<in>set (mp_elems ht). same hash_memaddr (Some hash_memcmp) x y)")
    case True
    then show ?thesis using pool.insert_refused [OF R A(2,3) True] by auto
  next
    case False
    then have "num_elements ht < num_buckets ht" "x \<noteq> NULL" "\<not> (\<exists>y\<in>set (mp_elems ht). same hash_memaddr (Some hash_memcmp) x y)" by auto
    from pool.insert_ok [OF R A(2,3) this(2,1,3)] show ?thesis by auto
  qed
  then show ?thesis using that Some by (auto simp: ht_insert_def)
qed

lemma init_extra_run:
  assumes m: "env_malloc env s (init_size sz) = m" "m \<noteq> NULL" and room: "sizeof_mempool + sizeof_realdata \<le> unat (init_size sz)"
  shows "\<exists>s' n. mempool_init_extra env s sz 0 0 0 ms NULL NULL = Some (s', m) \<and> pool_at s' m = Some n \<and> busylist n = NULL \<and>
    pool_size n = init_size sz \<and> (\<forall>b. b \<noteq> m \<longrightarrow> pool_at s' b = pool_at s b)"
  using m room
  by (simp add: mempool_init_extra_def Let_def mempool_set_maxmem_def mempool_set_single_max_def upd_pool_def init_mempool_def pool_at_def)

end
