(* ===== verification/MempoolChain.thy ===== *)
theory MempoolChain
  imports MempoolReturns
begin

text \<open>
  The pools of one manager in \<open>demo_mempool/mempool.c\<close>: the doubly linked list of the pools in use behind the base pool, the list of the
  pools kept for later, and the two hash tables of the base pool.  Releasing a pool, moving it to the front and \<open>pfree\<close> return
  and keep this structure.
\<close>

section \<open>Fields of pools\<close>

text \<open>A field of the pool at an address; \<open>None\<close> where there is no pool.\<close>

definition fld :: "(mempool \<Rightarrow> 'a) \<Rightarrow> mpmem \<Rightarrow> ptr \<Rightarrow> 'a option" where
  "fld g s x = map_option g (pool_at s x)"

lemma fld_pool: "pool_at s x = Some p \<Longrightarrow> fld g s x = Some (g p)"
  by (simp add: fld_def)

lemma fldE:
  assumes "fld g s x = Some v"
  obtains p where "pool_at s x = Some p" "g p = v"
  using assms by (auto simp: fld_def)

lemma fld_same:
  assumes "upd_pool s x f = Some s'" and "\<And>q. g (f q) = g q"
  shows "fld g s' = fld g s"
proof
  fix y
  show "fld g s' y = fld g s y"
    using upd_pool_at [OF assms(1), of y] assms(2) by (cases "y = x"; cases "pool_at s y") (simp_all add: fld_def)
qed

lemma fld_set:
  assumes u: "upd_pool s x f = Some s'" and "\<And>q. g (f q) = v"
  shows "fld g s' = (fld g s)(x \<mapsto> v)"
proof -
  obtain p where "pool_at s x = Some p" using u by (auto simp: upd_pool_def elim!: bindE)
  then show ?thesis using upd_pool_at [OF u] assms(2) by (auto simp: fld_def fun_eq_iff)
qed

lemma upd_some: "fld g s x = Some v \<Longrightarrow> \<exists>s'. upd_pool s x f = Some s'"
  by (auto simp: fld_def upd_pool_def)

lemma updE:
  assumes "fld g s x = Some v"
  obtains s' where "upd_pool s x f = Some s'"
  using upd_some [OF assms] by blast

text \<open>The conditional update of the neighbours.\<close>

lemma if_upd_some:
  assumes "x \<noteq> NULL \<Longrightarrow> \<exists>v. fld g s x = Some v"
  shows "\<exists>s'. (if x \<noteq> NULL then upd_pool s x f else Some s) = Some s'"
  using assms upd_some by (cases "x = NULL") auto

lemma fld_if_same:
  assumes "(if c then upd_pool s x f else Some s) = Some s'" and "\<And>q. g (f q) = g q"
  shows "fld g s' = fld g s"
  using assms fld_same [of s x f s' g] by (cases c) auto

lemma fld_if_set:
  assumes "(if c then upd_pool s x f else Some s) = Some s'" and "\<And>q. g (f q) = v"
  shows "fld g s' = (if c then (fld g s)(x \<mapsto> v) else fld g s)"
  using assms fld_set [of s x f s' g v] by (cases c) auto

section \<open>The lists of pools\<close>

text \<open>The pools \<open>ps\<close> are linked in both directions behind the base pool \<open>b\<close>, which knows the last one; the pools \<open>fs\<close> kept for later
  are linked from its \<open>freepool\<close>, are not in use otherwise and hold no block.\<close>

definition pool_lists :: "mpmem \<Rightarrow> ptr \<Rightarrow> ptr list \<Rightarrow> ptr list \<Rightarrow> bool" where
  "pool_lists s b ps fs \<longleftrightarrow> (\<exists>v. dchain (fld p_next s) (fld p_prev s) v b (b # ps)) \<and>
     fld pooltail s b = Some (if ps = [] then NULL else last ps) \<and>
     (\<exists>f. fld freepool s b = Some f \<and> chain (fld p_next s) f fs) \<and> set (b # ps) \<inter> set fs = {} \<and>
     (\<forall>x\<in>set fs. fld busylist s x = Some NULL)"

lemma pool_lists_fields:
  assumes "pool_lists s b ps fs" and "fld p_next s' = fld p_next s" and "fld p_prev s' = fld p_prev s"
    and "fld pooltail s' = fld pooltail s" and "fld freepool s' = fld freepool s" and "\<And>x. x \<in> set fs \<Longrightarrow> fld busylist s' x = fld busylist s x"
  shows "pool_lists s' b ps fs"
  using assms unfolding pool_lists_def by simp

lemma pool_lists_nodes: "pool_lists s b ps fs \<Longrightarrow> x \<in> set (b # ps) \<Longrightarrow> x \<noteq> NULL \<and> (\<exists>p. pool_at s x = Some p)"
  unfolding pool_lists_def fld_def using dchain_nodes by (metis option.map_disc_iff not_None_eq)

lemma pool_lists_fld: "pool_lists s b ps fs \<Longrightarrow> x \<in> set (b # ps) \<Longrightarrow> \<exists>v. fld g s x = Some v"
  using pool_lists_nodes fld_pool by blast

text \<open>A pool of the list and its neighbours.\<close>

lemma pool_lists_mid:
  assumes L: "pool_lists s b (us @ a # vs) fs"
  obtains c where "fld p_next s a = Some c" "fld p_prev s a = Some (last (b # us))" "c = (case vs of [] \<Rightarrow> NULL | y # _ \<Rightarrow> y)"
    "fld p_next s (last (b # us)) = Some a" "distinct (b # us @ a # vs)" "last (b # us) \<noteq> NULL"
proof -
  obtain v where c: "dchain (fld p_next s) (fld p_prev s) v b ((b # us) @ a # vs)" using L by (auto simp: pool_lists_def)
  then obtain c where s: "dseg (fld p_next s) (fld p_prev s) v b (b # us) a" "fld p_prev s a = Some (last (v # b # us))"
     "fld p_next s a = Some c" "dchain (fld p_next s) (fld p_prev s) a c vs" unfolding dchain_append by auto
  have "fld p_next s (last (b # us)) = Some a \<and> last (b # us) \<noteq> NULL"
    using s(1) by (cases us rule: rev_cases) (auto simp: dseg_snoc dseg_append split: option.splits)
  moreover have "c = (case vs of [] \<Rightarrow> NULL | y # _ \<Rightarrow> y)" using s(4) by (cases vs) auto
  moreover have "distinct (b # us @ a # vs)" using dchain_distinct [OF c] by simp
  ultimately show ?thesis using that s(2,3) by auto
qed

text \<open>Taking a pool out of the list.\<close>

lemma pool_lists_remove:
  assumes L: "pool_lists s b (us @ a # vs) fs" and u: "u = last (b # us)" and c: "fld p_next s a = Some c"
    and n: "\<And>x. x \<noteq> a \<Longrightarrow> fld p_next s' x = ((fld p_next s)(u \<mapsto> c)) x"
    and p: "\<And>x. x \<noteq> a \<Longrightarrow> fld p_prev s' x = (if c \<noteq> NULL \<and> x = c then Some u else fld p_prev s x)"
    and t: "fld pooltail s' b = Some (if us @ vs = [] then NULL else last (us @ vs))"
    and f: "fld freepool s' b = fld freepool s b" and bl: "\<And>x. x \<in> set fs \<Longrightarrow> fld busylist s' x = fld busylist s x"
  shows "pool_lists s' b (us @ vs) fs"
proof -
  obtain v where ch: "dchain (fld p_next s) (fld p_prev s) v b ((b # us) @ a # vs)" using L by (auto simp: pool_lists_def)
  have d: "distinct ((b # us) @ a # vs)" by (rule dchain_distinct [OF ch])
  have an: "a \<notin> set (b # us) \<union> set vs" and lu: "u \<in> set (b # us)" "u \<notin> set vs" "u \<noteq> a" using d unfolding u by (auto dest: last_in_set)
  have "dchain (fld p_next s') (fld p_prev s') v b ((b # us) @ vs)"
  proof (rule dchain_unlink [OF ch c])
    show "fld p_next s' (last (b # us)) = Some c" using n [OF lu(3)] unfolding u by simp
    show "fld p_next s' x = fld p_next s x" if "x \<in> set (b # us) \<union> set vs" "b # us = [] \<or> x \<noteq> last (b # us)" for x
      using n [of x] that an u by auto
    show "fld p_prev s' c = Some (last (v # b # us))" if "c \<noteq> NULL"
    proof -
      have "c \<in> set vs" using ch c that by (cases vs) (auto simp: dchain_append)
      then have "c \<noteq> a" using an by auto
      then show ?thesis using p [of c] that u by simp
    qed
    show "fld p_prev s' x = fld p_prev s x" if "x \<in> set (b # us) \<union> set vs" "x \<noteq> c" for x using p [of x] that an by auto
  qed simp
  moreover have "chain (fld p_next s') f fs = chain (fld p_next s) f fs" for f
  proof (rule chain_cong)
    fix x assume "x \<in> set fs"
    then have "x \<noteq> a" "x \<noteq> u" using L lu(1) by (auto simp: pool_lists_def)
    then show "fld p_next s' x = fld p_next s x" using n [of x] by simp
  qed
  ultimately show ?thesis using L t f bl by (auto simp: pool_lists_def)
qed

text \<open>Putting a pool behind the base pool.\<close>

lemma pool_lists_front:
  assumes L: "pool_lists s b ps fs" and a: "a \<notin> set (b # ps)" "a \<notin> set fs" "a \<noteq> NULL" and c: "fld p_next s b = Some c"
    and n: "fld p_next s' b = Some a" "fld p_next s' a = Some c" "\<And>x. x \<noteq> a \<Longrightarrow> x \<noteq> b \<Longrightarrow> fld p_next s' x = fld p_next s x"
    and p: "fld p_prev s' a = Some b" "\<And>x. x \<noteq> a \<Longrightarrow> fld p_prev s' x = (if c \<noteq> NULL \<and> x = c then Some a else fld p_prev s x)"
    and t: "fld pooltail s' b = Some (if ps = [] then a else last ps)"
    and f: "fld freepool s' b = fld freepool s b" and bl: "\<And>x. x \<in> set fs \<Longrightarrow> fld busylist s' x = fld busylist s x"
  shows "pool_lists s' b (a # ps) fs"
proof -
  obtain v where ch: "dchain (fld p_next s) (fld p_prev s) v b ([] @ b # ps)" using L by (auto simp: pool_lists_def)
  have "dchain (fld p_next s') (fld p_prev s') v b ([] @ b # a # ps)"
  proof (rule dchain_insert_after [OF ch c])
    show "fld p_prev s' c = Some a" if "c \<noteq> NULL"
    proof -
      have "c \<in> set ps" using ch c that by (cases ps) auto
      then show ?thesis using p(2) [of c] that a(1) by auto
    qed
    show "fld p_prev s' x = fld p_prev s x" if "x \<in> set ([] @ b # ps)" "x \<noteq> c" for x using p(2) [of x] that a(1) by auto
    show "fld p_next s' x = fld p_next s x" if "x \<in> set [] \<union> set ps" for x
      using n(3) [of x] that a(1) dchain_distinct [OF ch] by auto
  qed (use a n p in auto)
  moreover have "chain (fld p_next s') f fs = chain (fld p_next s) f fs" for f
  proof (rule chain_cong)
    fix x assume "x \<in> set fs"
    then have "x \<noteq> a" "x \<noteq> b" using L a(2) by (auto simp: pool_lists_def)
    then show "fld p_next s' x = fld p_next s x" by (rule n(3))
  qed
  ultimately show ?thesis using L t f bl a(2) by (auto simp: pool_lists_def)
qed

text \<open>Keeping a pool for later.\<close>

lemma pool_lists_keep:
  assumes L: "pool_lists s b ps fs" and a: "a \<notin> set (b # ps)" "a \<notin> set fs" "a \<noteq> NULL" and f: "fld freepool s b = Some f"
    and n: "fld p_next s' a = Some f" "\<And>x. x \<noteq> a \<Longrightarrow> fld p_next s' x = fld p_next s x"
    and p: "\<And>x. x \<in> set (b # ps) \<Longrightarrow> fld p_prev s' x = fld p_prev s x"
    and t: "fld pooltail s' b = fld pooltail s b"
    and f': "fld freepool s' b = Some a" and bl: "fld busylist s' a = Some NULL" "\<And>x. x \<in> set fs \<Longrightarrow> fld busylist s' x = fld busylist s x"
  shows "pool_lists s' b ps (a # fs)"
proof -
  have "dchain (fld p_next s') (fld p_prev s') v b (b # ps) = dchain (fld p_next s) (fld p_prev s) v b (b # ps)" for v
    by (rule dchain_cong) (use n(2) p a(1) in metis)+
  moreover have "chain (fld p_next s') f fs = chain (fld p_next s) f fs"
    by (rule chain_cong) (use a(2) n(2) in metis)
  ultimately show ?thesis using L t f f' bl a n(1) by (auto simp: pool_lists_def)
qed

section \<open>Moving a pool to the front\<close>

lemma move2header_loop_runs:
  "dchain (fld p_next s) b v x (x # ys) \<Longrightarrow> move2header_loop s p x k \<noteq> None"
proof (induction ys arbitrary: x v k)
  case Nil
  then show ?case by (subst move2header_loop.simps) (auto simp: fld_def)
next
  case (Cons y ys)
  then have d: "fld p_next s x = Some y" "dchain (fld p_next s) b x y (y # ys)" by auto
  obtain n where n: "pool_at s x = Some n" "p_next n = y" using d(1) by (rule fldE)
  show ?case using n Cons.IH [OF d(2)] by (subst move2header_loop.simps) auto
qed

text \<open>The fields that moving a pool leaves alone.\<close>

definition same_tables :: "mpmem \<Rightarrow> mpmem \<Rightarrow> bool" where
  "same_tables s s' \<longleftrightarrow> fld cfg_ht s' = fld cfg_ht s \<and> fld cfg_largeht s' = fld cfg_largeht s \<and> fld pool_size s' = fld pool_size s"

lemma pool_lists_tail:
  assumes L: "pool_lists s b (us @ a # vs) fs" and q: "pool_at s b = Some q"
    and r: "(if a = pooltail q then upd_pool s b (\<lambda>b. b\<lparr>pooltail := x\<rparr>) else Some s) = Some s'"
    and x: "x = (if us = [] then NULL else last us)"
  shows "fld pooltail s' b = Some (if us @ vs = [] then NULL else last (us @ vs))"
proof -
  have t: "pooltail q = last (a # vs)" using L q by (simp add: pool_lists_def fld_def)
  have "distinct (a # vs)" using pool_lists_mid [OF L] by auto
  then have "a = pooltail q \<longleftrightarrow> vs = []" using t by (auto dest: last_in_set)
  then show ?thesis using r t x q fld_set [of s b _ s' pooltail x] by (cases "vs = []") (auto simp: fld_def)
qed

lemma move2header_moves:
  assumes L: "pool_lists s b (us @ a # vs) fs" and us: "us \<noteq> []"
    and q: "pool_at s b = Some q" and p: "pool_at s a = Some p"
  shows "\<exists>s'. do {
         s \<leftarrow> (if a = pooltail q then upd_pool s b (\<lambda>b. b\<lparr>pooltail := p_prev p\<rparr>) else Some s);
         s \<leftarrow> upd_pool s (p_prev p) (\<lambda>t. t\<lparr>p_next := p_next p\<rparr>);
         s \<leftarrow> (if p_next p \<noteq> NULL then upd_pool s (p_next p) (\<lambda>t. t\<lparr>p_prev := p_prev p\<rparr>) else Some s);
         b' \<leftarrow> pool_at s b;
         s \<leftarrow> upd_pool s a (\<lambda>p. p\<lparr>p_next := p_next b'\<rparr>);
         s \<leftarrow> upd_pool s (p_next b') (\<lambda>t. t\<lparr>p_prev := a\<rparr>);
         s \<leftarrow> upd_pool s b (\<lambda>b. b\<lparr>p_next := a\<rparr>);
         upd_pool s a (\<lambda>p. p\<lparr>p_prev := b\<rparr>) } = Some s' \<and> pool_lists s' b (a # us @ vs) fs \<and> same_tables s s'"
proof -
  define u c where "u = p_prev p" and "c = p_next p"
  obtain d where d: "fld p_next s a = Some d" "fld p_prev s a = Some (last (b # us))" "d = (case vs of [] \<Rightarrow> NULL | y # _ \<Rightarrow> y)"
    "fld p_next s (last (b # us)) = Some a" "distinct (b # us @ a # vs)" by (rule pool_lists_mid [OF L])
  have uc: "u = last us" "fld p_next s a = Some c" "c = (case vs of [] \<Rightarrow> NULL | y # _ \<Rightarrow> y)" using d(1-3) p us by (simp_all add: fld_def u_def c_def)
  have ub: "u \<noteq> b" "u \<noteq> a" "u \<in> set us" using uc(1) us d(5) by (auto dest: last_in_set)
  note node = pool_lists_nodes [OF L]
  obtain s1 where 1: "(if a = pooltail q then upd_pool s b (\<lambda>b. b\<lparr>pooltail := u\<rparr>) else Some s) = Some s1"
    using q by (cases "a = pooltail q") (auto simp: upd_pool_def)
  note F1 = fld_if_same [OF 1]
  have "\<exists>v. fld p_next s1 u = Some v" using d(4) us uc(1) by (simp add: F1)
  then obtain s2 where 2: "upd_pool s1 u (\<lambda>t. t\<lparr>p_next := c\<rparr>) = Some s2" by (elim exE updE) (rule that)
  note F2 = fld_same [OF 2] and N2 = fld_set [OF 2, of p_next c, simplified]
  have cn: "c \<noteq> NULL \<Longrightarrow> c \<in> set vs" using uc(3) by (cases vs) auto
  have "\<exists>v. fld p_prev s2 c = Some v" if "c \<noteq> NULL"
    using pool_lists_fld [OF L, of c p_prev] cn [OF that] by (simp add: F1 F2)
  from if_upd_some [of c, OF this] obtain s3 where 3: "(if c \<noteq> NULL then upd_pool s2 c (\<lambda>t. t\<lparr>p_prev := u\<rparr>) else Some s2) = Some s3" by blast
  note F3 = fld_if_same [OF 3] and N3 = fld_if_set [OF 3, of p_prev u, simplified]
  have L3: "pool_lists s3 b (us @ vs) fs"
  proof (rule pool_lists_remove [OF L _ uc(2)])
    show "fld pooltail s3 b = Some (if us @ vs = [] then NULL else last (us @ vs))"
      using pool_lists_tail [OF L q 1] uc(1) us by (simp add: F2 F3)
  qed (use uc(1) us in \<open>auto simp: F1 F2 F3 N2 N3\<close>)
  obtain q3 where q3: "pool_at s3 b = Some q3" using pool_lists_nodes [OF L3, of b] by auto
  define e where "e = p_next q3"
  have e: "e \<in> set us" "fld p_next s3 b = Some e" using L3 us q3 by (cases us; auto simp: pool_lists_def fld_def e_def)+
  have an: "a \<noteq> b" "a \<notin> set us" "a \<notin> set vs" using d(5) by auto
  have "\<exists>v. fld p_prev s3 a = Some v" using d(2) by (simp add: F1 F2 N3)
  then obtain s4 where 4: "upd_pool s3 a (\<lambda>p. p\<lparr>p_next := e\<rparr>) = Some s4" by (elim exE updE) (rule that)
  note F4 = fld_same [OF 4] and N4 = fld_set [OF 4, of p_next e, simplified]
  have "\<exists>v. fld p_prev s4 e = Some v" using pool_lists_fld [OF L3, of e p_prev] e(1) by (simp add: F4)
  then obtain s5 where 5: "upd_pool s4 e (\<lambda>t. t\<lparr>p_prev := a\<rparr>) = Some s5" by (elim exE updE) (rule that)
  note F5 = fld_same [OF 5] and N5 = fld_set [OF 5, of p_prev a, simplified]
  have "\<exists>v. fld pooltail s5 b = Some v" by (simp add: fld_pool [OF q3] F4 F5)
  then obtain s6 where 6: "upd_pool s5 b (\<lambda>b. b\<lparr>p_next := a\<rparr>) = Some s6" by (elim exE updE) (rule that)
  note F6 = fld_same [OF 6] and N6 = fld_set [OF 6, of p_next a, simplified]
  have "\<exists>v. fld p_next s6 a = Some v" using an(1) by (simp add: N6 F5 N4)
  then obtain s7 where 7: "upd_pool s6 a (\<lambda>p. p\<lparr>p_prev := b\<rparr>) = Some s7" by (elim exE updE) (rule that)
  note F7 = fld_same [OF 7] and N7 = fld_set [OF 7, of p_prev b, simplified]
  have eN: "e \<noteq> NULL" using pool_lists_nodes [OF L3, of e] e(1) by simp
  have "pool_lists s7 b (a # us @ vs) fs"
  proof (rule pool_lists_front [OF L3 _ _ _ e(2)])
    show "a \<notin> set fs" using L by (auto simp: pool_lists_def)
    show "fld pooltail s7 b = Some (if us @ vs = [] then a else last (us @ vs))"
      using L3 us by (simp add: F4 F5 F6 F7 pool_lists_def)
  qed (use an node [of a] eN in \<open>simp_all add: F4 F5 F6 F7 N4 N5 N6 N7\<close>)
  moreover have "same_tables s s7" by (simp add: same_tables_def F1 F2 F3 F4 F5 F6 F7)
  ultimately show ?thesis
    using 1 2 3 4 5 6 7 q3 unfolding u_def [symmetric] c_def [symmetric] by (simp add: e_def)
qed

lemma move2header_runs:
  assumes L: "pool_lists s b (us @ a # vs) fs"
  shows "\<exists>s'. mempool_move2header s b a = Some s' \<and> same_tables s s' \<and>
    (pool_lists s' b (us @ a # vs) fs \<or> pool_lists s' b (a # us @ vs) fs)"
proof -
  obtain q p where q: "pool_at s b = Some q" and p: "pool_at s a = Some p" using pool_lists_nodes [OF L] by force
  have ne: "a \<noteq> b" by (rule pool_lists_mid [OF L]) simp
  have nx: "p_next q = hd (us @ [a])" using L q by (cases us) (auto simp: pool_lists_def fld_def)
  show ?thesis
  proof (cases us)
    case Nil
    then show ?thesis using L q nx by (simp add: mempool_move2header_def same_tables_def)
  next
    case (Cons y ys)
    have n: "a \<noteq> p_next q" by (rule pool_lists_mid [OF L]) (use nx Cons in auto)
    obtain v where "dchain (fld p_next s) (fld p_prev s) v b (b # y # ys @ a # vs)" using L Cons by (auto simp: pool_lists_def)
    then have "dchain (fld p_next s) (fld p_prev s) b y (y # ys @ a # vs)" by auto
    from move2header_loop_runs [OF this] obtain m where m: "move2header_loop s p (p_next q) 0 = Some m" using nx Cons by auto
    have "us \<noteq> []" using Cons by simp
    from move2header_moves [OF L this q p] show ?thesis
      using q p ne n m L by (cases "m > 4") (auto simp: mempool_move2header_def same_tables_def)
  qed
qed

section \<open>Releasing a pool\<close>

lemma fld_init:
  assumes "init_mempool junk s a = Some s'" and "\<And>q l z. g (q\<lparr>freelist := l, busylist := NULL, leftsize := z, failed := 0\<rparr>) = g q"
  shows "fld g s' = fld g s"
proof
  fix x
  show "fld g s' x = fld g s x"
    using assms by (auto simp: init_mempool_def Let_def fld_def upd_pool_def pool_at_def elim!: bindE split: if_splits)
qed

lemma fld_init_busy: "init_mempool junk s a = Some s' \<Longrightarrow> fld busylist s' = (fld busylist s)(a \<mapsto> NULL)"
  by (auto simp: init_mempool_def Let_def fld_def upd_pool_def pool_at_def fun_eq_iff elim!: bindE split: if_splits)

lemma fld_free: "free_pool s a = Some s' \<Longrightarrow> fld g s' = (fld g s)(a := None)"
  by (auto simp: free_pool_def fld_def pool_at_def fun_eq_iff elim!: bindE)

text \<open>The second half of \<open>mempool_internal_destroy\<close>.\<close>

lemma destroy_tail_runs:
  assumes L: "pool_lists s b ps fs" and a: "a \<notin> set (b # ps)" "a \<notin> set fs" and p: "pool_at s a = Some p"
    and sz: "sizeof_mempool + sizeof_realdata \<le> unat (pool_size p)" and q: "pool_at s b = Some q"
  shows "\<exists>s'. destroy_tail junk b a s q = Some s' \<and> fld cfg_ht s' b = fld cfg_ht s b \<and> fld cfg_largeht s' b = fld cfg_largeht s b \<and>
    (pool_lists s' b ps (a # fs) \<and> fld pool_size s' = fld pool_size s \<or>
     pool_lists s' b ps fs \<and> fld pool_size s' = (fld pool_size s)(a := None))"
proof (cases "pfree_count q < ucast (max_freepool q)")
  case False
  obtain s1 where 1: "free_pool s a = Some s1" using p by (simp add: free_pool_def)
  note F1 = fld_free [OF 1]
  have "\<exists>v. fld p_next s1 b = Some v" using a(1) by (simp add: fld_pool [OF q] F1)
  then obtain s2 where 2: "upd_pool s1 b (\<lambda>b. b\<lparr>total_alloced := total_alloced b - ucast (pool_size b)\<rparr>) = Some s2"
    by (elim exE updE) (rule that)
  note F2 = fld_same [OF 2]
  have "dchain (fld p_next s2) (fld p_prev s2) v b (b # ps) = dchain (fld p_next s) (fld p_prev s) v b (b # ps)" for v
    by (rule dchain_cong) (use a(1) in \<open>auto simp: F1 F2\<close>)
  moreover have "chain (fld p_next s2) f fs = chain (fld p_next s) f fs" for f by (rule chain_cong) (use a(2) in \<open>auto simp: F1 F2\<close>)
  ultimately have "pool_lists s2 b ps fs" using L a by (auto simp: pool_lists_def F1 F2)
  then show ?thesis using False 1 2 a(1) by (simp add: destroy_tail_def F1 F2)
next
  case True
  define f where "f = freepool q"
  have f: "fld freepool s b = Some f" by (simp add: fld_pool [OF q] f_def)
  have aN: "a \<noteq> NULL" using p by (auto simp: pool_at_def split: if_splits)
  obtain s1 where 1: "init_mempool junk s a = Some s1" using p sz aN by (simp add: init_mempool_def Let_def upd_pool_def pool_at_def)
  note F1 = fld_init [OF 1] and N1 = fld_init_busy [OF 1]
  have "\<exists>v. fld p_next s1 a = Some v" by (simp add: fld_pool [OF p] F1)
  then obtain s2 where 2: "upd_pool s1 a (\<lambda>p. p\<lparr>p_next := f\<rparr>) = Some s2" by (elim exE updE) (rule that)
  note F2 = fld_same [OF 2] and N2 = fld_set [OF 2, of p_next f, simplified]
  have fs: "f \<noteq> NULL \<Longrightarrow> f \<in> set fs" using L f by (cases fs) (auto simp: pool_lists_def)
  have "\<exists>v. fld busylist s2 f = Some v" if "f \<noteq> NULL" using L fs [OF that] a(2) by (auto simp: F2 N1 pool_lists_def)
  from if_upd_some [of f, OF this] obtain s3 where 3: "(if f \<noteq> NULL then upd_pool s2 f (\<lambda>t. t\<lparr>p_prev := a\<rparr>) else Some s2) = Some s3" by blast
  note F3 = fld_if_same [OF 3] and N3 = fld_if_set [OF 3, of p_prev a, simplified]
  have "\<exists>v. fld cfg_ht s3 b = Some v" by (simp add: fld_pool [OF q] F1 F2 F3)
  then obtain s4 where 4: "upd_pool s3 b (\<lambda>b. b\<lparr>freepool := a\<rparr>) = Some s4" by (elim exE updE) (rule that)
  note F4 = fld_same [OF 4] and N4 = fld_set [OF 4, of freepool a, simplified]
  have "\<exists>v. fld cfg_ht s4 a = Some v" by (simp add: fld_pool [OF p] F1 F2 F3 F4)
  then obtain s5 where 5: "upd_pool s4 a (\<lambda>p. p\<lparr>p_prev := NULL\<rparr>) = Some s5" by (elim exE updE) (rule that)
  note F5 = fld_same [OF 5] and N5 = fld_set [OF 5, of p_prev NULL, simplified]
  have "\<exists>v. fld cfg_ht s5 b = Some v" by (simp add: fld_pool [OF q] F1 F2 F3 F4 F5)
  then obtain s6 where 6: "upd_pool s5 b (\<lambda>b. b\<lparr>pfree_count := pfree_count b + 1\<rparr>) = Some s6" by (elim exE updE) (rule that)
  note F6 = fld_same [OF 6]
  have "\<exists>v. fld cfg_ht s6 b = Some v" by (simp add: fld_pool [OF q] F1 F2 F3 F4 F5 F6)
  then obtain s7 where 7: "upd_pool s6 b (\<lambda>b. b\<lparr>total_alloced := total_alloced b - ucast (pool_size b)\<rparr>) = Some s7"
    by (elim exE updE) (rule that)
  note F7 = fld_same [OF 7]
  have "pool_lists s7 b ps (a # fs)"
  proof (rule pool_lists_keep [OF L a aN f])
    show "fld p_prev s7 x = fld p_prev s x" if "x \<in> set (b # ps)" for x
    proof -
      have "x \<noteq> a" "f \<noteq> NULL \<Longrightarrow> x \<noteq> f" using that a(1) fs L by (auto simp: pool_lists_def)
      then show ?thesis by (auto simp: F1 F2 F4 F6 F7 N3 N5)
    qed
  qed (use a in \<open>auto simp: F1 F2 F3 F4 F5 F6 F7 N1 N2 N4\<close>)
  moreover have "destroy_tail junk b a s q = Some s7"
    using True 1 2 3 4 5 6 7 by (cases "f = NULL") (simp_all add: destroy_tail_def f_def [symmetric])
  ultimately show ?thesis by (simp add: F1 F2 F3 F4 F5 F6 F7)
qed

lemma destroy_runs:
  assumes L: "pool_lists s b (us @ a # vs) fs" and p: "pool_at s a = Some p"
    and sz: "sizeof_mempool + sizeof_realdata \<le> unat (pool_size p)"
    and t: "fld cfg_ht s b = Some t" "ht_delete t a = Some (t', log)"
  shows "\<exists>s'. mempool_internal_destroy junk s b a = Some s' \<and> fld cfg_ht s' b = Some t' \<and> fld cfg_largeht s' b = fld cfg_largeht s b \<and>
    (pool_lists s' b (us @ vs) (a # fs) \<and> fld pool_size s' = fld pool_size s \<or>
     pool_lists s' b (us @ vs) fs \<and> fld pool_size s' = (fld pool_size s)(a := None))"
proof -
  obtain q where q: "pool_at s b = Some q" using pool_lists_nodes [OF L] by force
  define u c where "u = p_prev p" and "c = p_next p"
  obtain d where d: "fld p_next s a = Some d" "fld p_prev s a = Some (last (b # us))" "d = (case vs of [] \<Rightarrow> NULL | y # _ \<Rightarrow> y)"
    "fld p_next s (last (b # us)) = Some a" "distinct (b # us @ a # vs)" "last (b # us) \<noteq> NULL" by (rule pool_lists_mid [OF L])
  have uc: "u = last (b # us)" "fld p_next s a = Some c" "c = (case vs of [] \<Rightarrow> NULL | y # _ \<Rightarrow> y)"
    using d(1-3) p by (simp_all add: fld_def u_def c_def)
  have uN: "u \<noteq> NULL" "u \<in> set (b # us)" using d(6) uc(1) by auto
  have ub: "u = b \<longleftrightarrow> us = []" using uc(1) d(5) by (auto dest: last_in_set)
  have an: "a \<noteq> b" "a \<notin> set us" "a \<notin> set vs" "u \<noteq> a" using d(5) uN(2) by auto
  obtain s1 where 1: "(if a = pooltail q then upd_pool s b (\<lambda>b'. b'\<lparr>pooltail := (if u = b then NULL else u)\<rparr>) else Some s) = Some s1"
    using q by (cases "a = pooltail q") (auto simp: upd_pool_def)
  note F1 = fld_if_same [OF 1]
  have "\<exists>v. fld p_next s1 u = Some v" using d(4) uc(1) by (simp add: F1)
  then obtain s2 where 2: "upd_pool s1 u (\<lambda>t. t\<lparr>p_next := c\<rparr>) = Some s2" by (elim exE updE) (rule that)
  note F2 = fld_same [OF 2] and N2 = fld_set [OF 2, of p_next c, simplified]
  have cn: "c \<noteq> NULL \<Longrightarrow> c \<in> set vs" using uc(3) by (cases vs) auto
  have "\<exists>v. fld p_prev s2 c = Some v" if "c \<noteq> NULL"
    using pool_lists_fld [OF L, of c p_prev] cn [OF that] by (simp add: F1 F2)
  from if_upd_some [of c, OF this] obtain s3 where 3: "(if c \<noteq> NULL then upd_pool s2 c (\<lambda>t. t\<lparr>p_prev := u\<rparr>) else Some s2) = Some s3" by blast
  note F3 = fld_if_same [OF 3] and N3 = fld_if_set [OF 3, of p_prev u, simplified]
  have L3: "pool_lists s3 b (us @ vs) fs"
  proof (rule pool_lists_remove [OF L uc(1,2)])
    show "fld pooltail s3 b = Some (if us @ vs = [] then NULL else last (us @ vs))"
      using pool_lists_tail [OF L q 1] uc(1) ub by (simp add: F2 F3)
  qed (auto simp: F1 F2 F3 N2 N3)
  have t3: "fld cfg_ht s3 b = Some t" using t(1) by (simp add: F1 F2 F3)
  then obtain q3 where q3: "pool_at s3 b = Some q3" "cfg_ht q3 = t" by (rule fldE)
  obtain s4 where 4: "upd_pool s3 b (\<lambda>b. b\<lparr>cfg_ht := t'\<rparr>) = Some s4" using t3 by (elim updE) (rule that)
  note F4 = fld_same [OF 4] and N4 = fld_set [OF 4, of cfg_ht t', simplified]
  have "\<exists>v. fld cfg_ht s4 b = Some v" by (simp add: N4)
  then obtain s5 where 5: "upd_pool s4 b (\<lambda>b. b\<lparr>total_leftsize := total_leftsize b - ucast (leftsize p)\<rparr>) = Some s5"
    by (elim exE updE) (rule that)
  note F5 = fld_same [OF 5]
  have L5: "pool_lists s5 b (us @ vs) fs" by (rule pool_lists_fields [OF L3]) (simp_all add: F4 F5)
  obtain q5 where q5: "pool_at s5 b = Some q5" using pool_lists_nodes [OF L5, of b] by auto
  have "fld pool_size s5 a = Some (pool_size p)" by (simp add: fld_pool [OF p] F1 F2 F3 F4 F5)
  then obtain p5 where p5: "pool_at s5 a = Some p5" "pool_size p5 = pool_size p" by (rule fldE)
  have "a \<notin> set (b # us @ vs)" "a \<notin> set fs" using an L by (auto simp: pool_lists_def)
  from destroy_tail_runs [OF L5 this p5(1) _ q5, of junk] obtain s6 where 6: "destroy_tail junk b a s5 q5 = Some s6"
    "fld cfg_ht s6 b = fld cfg_ht s5 b" "fld cfg_largeht s6 b = fld cfg_largeht s5 b"
    "pool_lists s6 b (us @ vs) (a # fs) \<and> fld pool_size s6 = fld pool_size s5 \<or>
     pool_lists s6 b (us @ vs) fs \<and> fld pool_size s6 = (fld pool_size s5)(a := None)" using sz p5(2) by auto
  have "mempool_internal_destroy junk s b a = Some s6"
    using q p uN(1) 1 2 3 4 5 6(1) q3 q5 t(2) unfolding u_def c_def by (simp add: mempool_internal_destroy_def destroy_tail_def)
  then show ?thesis using 6 by (auto simp: F1 F2 F3 F4 F5 N4)
qed

section \<open>The tables of the base pool\<close>

lemma mp_elems_distinct:
  assumes R: "mp_rep ht bs fs" and r: "\<And>x. same (mp_hashf ht) (mp_cmp ht) x x"
  shows "distinct (mp_elems ht)"
proof -
  have d: "distinct (concat bs)" and V: "\<forall>p\<in>set (concat bs). \<forall>q\<in>set (concat bs). p \<noteq> q \<longrightarrow> \<not> same (mp_hashf ht) (mp_cmp ht) (dt ht p) (dt ht q)"
    using R by (simp_all add: mp_rep_def mp_links_def mp_vals_def)
  have "inj_on (dt ht) (set (concat bs))" unfolding inj_on_def using V r by metis
  then show ?thesis using d unfolding mp_inv_elems [OF R] distinct_map by blast
qed

lemma mp_freed [simp]: "mp_inv (ht\<lparr>freed := l\<rparr>) = mp_inv ht" "mp_elems (ht\<lparr>freed := l\<rparr>) = mp_elems ht"
proof -
  have "rv (ht\<lparr>freed := l\<rparr>) = rv ht" "dt (ht\<lparr>freed := l\<rparr>) = dt ht" by (simp_all add: rv_def dt_def fun_eq_iff)
  then show "mp_inv (ht\<lparr>freed := l\<rparr>) = mp_inv ht" "mp_elems (ht\<lparr>freed := l\<rparr>) = mp_elems ht"
    by (simp_all add: mp_inv_def mp_rep_def mp_links_def mp_vals_def mp_shape_def mp_buckets_def mp_elems_def)
qed

lemma ht_delete_run:
  assumes t: "addr_table t S" and x: "x \<in> S" "x \<noteq> NULL"
  obtains t' log where "ht_delete t x = Some (t', log)" "addr_table t' (S - {x})"
proof (cases t)
  case None
  then show ?thesis using t x by (simp add: addr_table_def)
next
  case (Some ht)
  have A: "mp_inv ht" "mp_hashf ht = hash_memaddr" "mp_cmp ht = Some hash_memcmp" "set (mp_elems ht) = S" "\<forall>y\<in>S. y < 2 ^ 64"
    using t Some by (simp_all add: addr_table_def)
  obtain bs fs where R: "mp_rep ht bs fs" using A(1) mp_inv_rep by blast
  have eq: "same hash_memaddr (Some hash_memcmp) x z \<longleftrightarrow> x = z" if "z < 2 ^ 64" for z
  proof -
    have "unat (of_nat z :: u64) = z" "unat (of_nat x :: u64) = x" using that A(5) x(1) by (simp_all add: unat_of_nat)
    then show ?thesis unfolding pool_same by metis
  qed
  have ex: "\<exists>y\<in>set (mp_elems ht). same hash_memaddr (Some hash_memcmp) x y" using A(4,5) x(1) eq by blast
  from pool.delete_spec [OF R A(2,3) x(2)] obtain ht' y where d: "mp_hash_table_delete ht x = Some (ht', 0)" "mp_inv ht'"
      "same hash_memaddr (Some hash_memcmp) x y" "mset (mp_elems ht) = add_mset y (mset (mp_elems ht'))"
      "mp_hashf ht' = hash_memaddr" "mp_cmp ht' = Some hash_memcmp" using ex by auto
  have "y \<in> S" using d(4) A(4) by (metis set_mset_mset union_single_eq_member)
  then have y: "y = x" using d(3) eq A(5) by blast
  have "distinct (mp_elems ht)" by (rule mp_elems_distinct [OF R]) (simp add: A(2,3) pool_same)
  then have "x \<notin> set (mp_elems ht')" using mset_eq_imp_distinct_iff [of "mp_elems ht" "x # mp_elems ht'"] d(4) y by simp
  moreover have "S = insert x (set (mp_elems ht'))" using arg_cong [OF d(4), of set_mset] A(4) y by simp
  ultimately have S: "set (mp_elems ht') = S - {x}" by blast
  let ?t = "Some (ht'\<lparr>freed := []\<rparr>)"
  have "addr_table ?t (S - {x})" using d S A(5) by (simp add: addr_table_def)
  then show ?thesis using that Some d(1) by (auto simp: ht_delete_def)
qed

text \<open>The table of the large blocks frees what it deletes.\<close>

definition large_table :: "mp_hash_table option \<Rightarrow> ptr set \<Rightarrow> bool" where
  "large_table t L \<longleftrightarrow> addr_table t L \<and> (\<forall>ht. t = Some ht \<longrightarrow> mp_free ht \<and> freed ht = [])"

text \<open>A base pool \<open>b\<close> with the pools \<open>ps\<close> behind it, the pools \<open>fs\<close> kept for later, all of one size, and the large blocks \<open>L\<close>.\<close>

definition managed :: "mpmem \<Rightarrow> ptr \<Rightarrow> ptr list \<Rightarrow> ptr list \<Rightarrow> ptr set \<Rightarrow> bool" where
  "managed s b ps fs L \<longleftrightarrow> pool_lists s b ps fs \<and> (\<forall>x\<in>set (ps @ fs). fld pool_size s x = fld pool_size s b) \<and> (\<forall>x\<in>set fs. x < 2 ^ 64) \<and>
     (\<exists>t. fld cfg_ht s b = Some t \<and> addr_table t (set (b # ps))) \<and>
     (\<exists>t. fld cfg_largeht s b = Some t \<and> large_table t L)"

lemma managed_fields:
  assumes "managed s b ps fs L" and "pool_lists s' b ps' fs'" and "set ps' = set ps" and "set fs' = set fs" and "fld pool_size s' = fld pool_size s"
    and "fld cfg_ht s' b = fld cfg_ht s b" and "fld cfg_largeht s' b = fld cfg_largeht s b"
  shows "managed s' b ps' fs' L"
  using assms by (simp add: managed_def)

lemma same_links_fld:
  assumes "same_links s s' a"
  shows "fld p_prev s' = fld p_prev s" "fld p_next s' = fld p_next s" "fld pooltail s' = fld pooltail s" "fld freepool s' = fld freepool s"
    "fld cfg_ht s' = fld cfg_ht s" "fld cfg_largeht s' = fld cfg_largeht s" "fld pool_size s' = fld pool_size s" "x \<noteq> a \<Longrightarrow> fld busylist s' x = fld busylist s x"
proof -
  have l: "map_option links (pool_at s' c) = map_option links (pool_at s c)" for c using assms by (simp add: same_links_def)
  have f: "fld (\<lambda>p. h (links p)) s' = fld (\<lambda>p. h (links p)) s" for h
    using arg_cong [OF l, of "map_option h"] by (simp add: fld_def fun_eq_iff option.map_comp comp_def)
  have g: "fld (\<lambda>p. h (links p)) s' = fld (\<lambda>p. h (links p)) s" for h
    using arg_cong [OF l, of "map_option h"] by (simp add: fld_def fun_eq_iff option.map_comp comp_def)
  have z: "fld (\<lambda>p. h (links p)) s' = fld (\<lambda>p. h (links p)) s" for h
    using arg_cong [OF l, of "map_option h"] by (simp add: fld_def fun_eq_iff option.map_comp comp_def)
  show "fld p_prev s' = fld p_prev s" using f [of "\<lambda>(a, _). a"] by (simp add: links_def)
  show "fld p_next s' = fld p_next s" using f [of "\<lambda>(_, a, _). a"] by (simp add: links_def)
  show "fld pooltail s' = fld pooltail s" using f [of "\<lambda>(_, _, a, _). a"] by (simp add: links_def)
  show "fld freepool s' = fld freepool s" using f [of "\<lambda>(_, _, _, a, _). a"] by (simp add: links_def)
  show "fld cfg_ht s' = fld cfg_ht s" using g [of "\<lambda>(_, _, _, _, a, _). a"] by (simp add: links_def)
  show "fld cfg_largeht s' = fld cfg_largeht s" using g [of "\<lambda>(_, _, _, _, _, a, _). a"] by (simp add: links_def)
  show "fld pool_size s' = fld pool_size s" using z [of "\<lambda>(_, _, _, _, _, _, a). a"] by (simp add: links_def)
  show "x \<noteq> a \<Longrightarrow> fld busylist s' x = fld busylist s x" using assms by (simp add: same_links_def fld_def)
qed

lemma managed_links:
  assumes M: "managed s b ps fs L" and l: "same_links s s' a" and a: "a \<in> set (b # ps)"
  shows "managed s' b ps fs L"
proof -
  note F = same_links_fld [OF l]
  have P: "pool_lists s b ps fs" using M by (simp add: managed_def)
  have "pool_lists s' b ps fs"
  proof (rule pool_lists_fields [OF P])
    fix x assume "x \<in> set fs"
    then have "x \<noteq> a" using a P by (auto simp: pool_lists_def)
    then show "fld busylist s' x = fld busylist s x" by (rule F)
  qed (rule F)+
  then show ?thesis by (rule managed_fields [OF M]) (simp_all add: F)
qed

section \<open>pfree\<close>

lemma managed_move:
  assumes M: "managed s b ps fs L" and a: "a \<in> set ps"
  shows "\<exists>s' ps'. mempool_move2header s b a = Some s' \<and> ps' \<in> {ps, a # remove1 a ps} \<and> managed s' b ps' fs L"
proof -
  obtain us vs where ps: "ps = us @ a # vs" "a \<notin> set us" using a by (metis split_list_first)
  have P: "pool_lists s b (us @ a # vs) fs" using M ps by (simp add: managed_def)
  obtain s' where s': "mempool_move2header s b a = Some s'" "same_tables s s'"
      "pool_lists s' b (us @ a # vs) fs \<or> pool_lists s' b (a # us @ vs) fs" using move2header_runs [OF P] by blast
  have r: "remove1 a ps = us @ vs" using ps by (simp add: remove1_append)
  have "managed s' b ps' fs L" if "pool_lists s' b ps' fs" "set ps' = set ps" for ps'
    using managed_fields [OF M that refl] s'(2) by (simp add: same_tables_def)
  then show ?thesis using s' r ps by (auto simp: insert_commute)
qed

lemma managed_destroy:
  assumes M: "managed s b ps fs L" and a: "a \<in> set ps" and p: "pool_at s a = Some p"
    and sz: "sizeof_mempool + sizeof_realdata \<le> unat (pool_size p)"
  shows "\<exists>s' fs'. mempool_internal_destroy junk s b a = Some s' \<and> fs' \<in> {fs, a # fs} \<and> managed s' b (remove1 a ps) fs' L"
proof -
  obtain us vs where ps: "ps = us @ a # vs" "a \<notin> set us" using a by (metis split_list_first)
  have P: "pool_lists s b (us @ a # vs) fs" using M ps by (simp add: managed_def)
  obtain t l where t: "fld cfg_ht s b = Some t" "addr_table t (set (b # ps))" "fld cfg_largeht s b = Some l" "large_table l L"
    using M by (auto simp: managed_def)
  have "a \<noteq> NULL" using pool_lists_nodes [OF P] by auto
  then obtain t' log where d: "ht_delete t a = Some (t', log)" "addr_table t' (set (b # ps) - {a})"
    using ht_delete_run [OF t(2)] a by (metis list.set_intros(2))
  obtain s' where s': "mempool_internal_destroy junk s b a = Some s'" "fld cfg_ht s' b = Some t'" "fld cfg_largeht s' b = Some l"
      "pool_lists s' b (us @ vs) (a # fs) \<and> fld pool_size s' = fld pool_size s \<or>
       pool_lists s' b (us @ vs) fs \<and> fld pool_size s' = (fld pool_size s)(a := None)"
    using destroy_runs [OF P p sz t(1) d(1), of junk] t(3) by auto
  have r: "remove1 a ps = us @ vs" using ps by (simp add: remove1_append)
  have dist: "distinct (b # us @ a # vs)" by (rule pool_lists_mid [OF P])
  then have e: "set (b # ps) - {a} = set (b # us @ vs)" using ps by auto
  have big: "\<forall>x\<in>set (a # fs). x < 2 ^ 64" using M t(2) a by (auto simp: managed_def addr_table_def split: option.splits)
  have M': "managed s' b (us @ vs) fs' L" if "pool_lists s' b (us @ vs) fs'" "set fs' \<subseteq> set (a # fs)" "\<forall>x\<in>set ((us @ vs) @ fs'). fld pool_size s' x = fld pool_size s' b" for fs'
    using that s'(2,3) d(2) t(4) big e by (auto simp: managed_def)
  have z: "\<forall>x\<in>set (ps @ fs). fld pool_size s x = fld pool_size s b" using M by (simp add: managed_def)
  have an: "a \<noteq> b" "a \<notin> set (us @ vs @ fs)" using dist P by (auto simp: pool_lists_def)
  show ?thesis using s'(4)
  proof (elim disjE conjE)
    assume c: "pool_lists s' b (us @ vs) (a # fs)" "fld pool_size s' = fld pool_size s"
    have "managed s' b (us @ vs) (a # fs) L" by (rule M' [OF c(1)]) (use z ps c(2) in auto)
    then show ?thesis using s'(1) r by auto
  next
    assume c: "pool_lists s' b (us @ vs) fs" "fld pool_size s' = (fld pool_size s)(a := None)"
    have "managed s' b (us @ vs) fs L" by (rule M' [OF c(1)]) (use z ps c(2) an in auto)
    then show ?thesis using s'(1) r by auto
  qed
qed

lemma init_same_links: "init_mempool junk s a = Some s' \<Longrightarrow> same_links s s' a"
  using fld_init [of junk s a s' links] fld_init_busy [of junk s a s']
  by (auto simp: same_links_def links_def fld_def fun_eq_iff)

lemma pfree_realdata_managed:
  assumes h: "heap_ok s D" and rd: "rd \<in> D a" and M: "managed s b ps fs L" and a: "a \<in> set (b # ps)"
  shows "\<exists>s' ps' fs'. pfree_realdata junk s b a rd = Some s' \<and> managed s' b ps' fs' L \<and>
    (if a \<noteq> b \<and> D a = {rd} then ps' = remove1 a ps \<and> fs' \<in> {fs, a # fs} else ps' \<in> {ps, a # remove1 a ps} \<and> fs' = fs)"
proof -
  have P: "pool_lists s b ps fs" using M by (simp add: managed_def)
  have base: "pool_at s b \<noteq> None" using pool_lists_nodes [OF P, of b] by auto
  obtain p s2 p2 as Ls xs d k where S: "pool_at s a = Some p" "k = unat (pool_size p)"
    "loose s2 a p2 as Ls rd" "Ls ! 5 = xs" "set xs = D a - {rd}"
    "unat (leftsize p2) = (\<Sum>x\<in>free_blocks Ls. bsz (rds s2) x)" "unat (pool_size p2) = k" "k \<le> 65536"
    "rds s2 rd = Some d" "rd_next d = MEMPOOL_NULL" "rd_prev d = MEMPOOL_NULL" "same_links s s2 a"
    and run: "pfree_realdata junk s b a rd =
      (if busylist p2 = NULL then
         if a \<noteq> b then do {
           s \<leftarrow> upd_pool s2 b (\<lambda>b. b\<lparr>total_leftsize := total_leftsize b - ucast (rd_size d)\<rparr>);
           mempool_internal_destroy junk s b a }
         else init_mempool junk s2 a
       else if leftsize p2 = 0 then do {
         s \<leftarrow> set_freelist s2 a (get_freeidx (ucast (rd_size d))) rd;
         s \<leftarrow> upd_rd s rd (\<lambda>t. t\<lparr>rd_status := 0\<rparr>);
         s \<leftarrow> upd_pool s a (\<lambda>p. p\<lparr>leftsize := leftsize p + ucast (rd_size d), failed := 0\<rparr>);
         mempool_move2header s b a }
       else free_realdata s2 a rd)"
    using pfree_start [OF h rd base, of junk] by (elim exE conjE) (rule that)
  have M2: "managed s2 b ps fs L" by (rule managed_links [OF M S(12) a])
  have pa: "pool_at s2 a = Some p2" by (rule looseD(1) [OF S(3)])
  have be: "busylist p2 = NULL \<longleftrightarrow> xs = []"
    using busy_head [OF looseD(2) [OF S(3)]] dchain_nodes [OF lists_chain [OF looseD(2) [OF S(3)], of 5], of "hd xs"] S(4) by (cases xs) simp_all
  then have be': "busylist p2 = NULL \<longleftrightarrow> D a = {rd}" using S(5) rd by (cases xs) auto
  have sz: "sizeof_mempool + sizeof_realdata \<le> unat (pool_size p2)"
    using tilesD(2-4) [OF looseD(3,5) [OF S(3)]] by (simp add: first_block_def)
  consider (gone) "busylist p2 = NULL" "a \<noteq> b" | (reset) "busylist p2 = NULL" "a = b"
    | (full) "busylist p2 \<noteq> NULL" "leftsize p2 = 0" | (join) "busylist p2 \<noteq> NULL" "leftsize p2 \<noteq> 0" by blast
  then show ?thesis
  proof cases
    case gone
    obtain s3 where 3: "upd_pool s2 b (\<lambda>b. b\<lparr>total_leftsize := total_leftsize b - ucast (rd_size d)\<rparr>) = Some s3"
      using pool_lists_fld [of s2 b ps fs b links] M2 by (auto simp: managed_def elim!: updE)
    have l: "same_links s2 s3 a" by (rule upd_same_links [OF 3]) (simp_all add: links_def)
    have M3: "managed s3 b ps fs L" by (rule managed_links [OF M2 l a])
    have p3: "pool_at s3 a = Some p2" using upd_pool_at [OF 3, of a] gone(2) pa by simp
    have "a \<in> set ps" using a gone(2) by simp
    from managed_destroy [OF M3 this p3 sz, of junk] show ?thesis using run gone be' 3 by auto
  next
    case reset
    have k2: "unat (pool_size p2) \<le> 65536" using S(7,8) by simp
    obtain s3 where s3: "init_mempool junk s2 a = Some s3" using init_mempool_ok [OF pa sz k2, of junk] by blast
    show ?thesis using managed_links [OF M2 init_same_links [OF s3] a] run reset s3 by auto
  next
    case full
    have ne: "Ls ! 5 \<noteq> []" using full be S(4) by simp
    obtain s3 s4 s5 p' Ls' where r: "set_freelist s2 a (get_freeidx (ucast (rd_size d))) rd = Some s3"
        "upd_rd s3 rd (\<lambda>t. t\<lparr>rd_status := 0\<rparr>) = Some s4"
        "upd_pool s4 a (\<lambda>p. p\<lparr>leftsize := leftsize p + ucast (rd_size d), failed := 0\<rparr>) = Some s5"
        "s5 = s2\<lparr>pools := (pools s2)(a \<mapsto> p'), rds := rds s5\<rparr>" "same_conf p2 p'"
      using push_only_free [OF S(3,6) full(2) ne S(9-11)] by blast
    have M5: "managed s5 b ps fs L" by (rule managed_links [OF M2 conf_same_links [OF r(4) pa r(5)] a])
    have e: "pfree_realdata junk s b a rd = mempool_move2header s5 b a" using run full r(1-3) by simp
    show ?thesis
    proof (cases "a = b")
      case True
      have "pool_at s5 b \<noteq> None" using M5 pool_lists_nodes [of s5 b ps fs b] by (auto simp: managed_def)
      then show ?thesis using e True M5 by (auto simp: mempool_move2header_def)
    next
      case False
      then show ?thesis using managed_move [OF M5, of a] a e full be' by auto
    qed
  next
    case join
    have ne: "Ls ! 5 \<noteq> []" using join be S(4) by simp
    obtain s3 p' where r: "free_realdata s2 a rd = Some s3" "s3 = s2\<lparr>pools := (pools s2)(a \<mapsto> p'), rds := rds s3\<rparr>"
        "same_conf p2 p'" using free_realdata_run [OF S(3,6) ne] by blast
    have "managed s3 b ps fs L" by (rule managed_links [OF M2 conf_same_links [OF r(2) pa r(3)] a])
    then show ?thesis using run join r(1) be' by auto
  qed
qed

lemma pfree_managed:
  assumes h: "heap_ok s D" and rd: "rd \<in> D a" "rd < 2 ^ 63" and M: "managed s b ps fs L" and a: "a \<in> set (b # ps)"
    and l: "rd + sizeof_realdata - sizeof_large \<notin> L"
  shows "\<exists>s' ps' fs'. pfree env s b (rd + sizeof_realdata) = Some (s', 0) \<and> heap_free s D a rd s' \<and> managed s' b ps' fs' L \<and>
    (if a \<noteq> b \<and> D a = {rd} then ps' = remove1 a ps \<and> fs' \<in> {fs, a # fs} else ps' \<in> {ps, a # remove1 a ps} \<and> fs' = fs)"
proof -
  have P: "pool_lists s b ps fs" using M by (simp add: managed_def)
  obtain q where q: "pool_at s b = Some q" "b \<noteq> NULL" using pool_lists_nodes [OF P, of b] by auto
  have t: "addr_table (cfg_ht q) (set (b # ps))" "addr_table (cfg_largeht q) L" using M q(1) by (simp_all add: managed_def large_table_def fld_def)
  have e: "pfree env s b (rd + sizeof_realdata) = do { s \<leftarrow> pfree_realdata (env_rd env) s b a rd; Some (s, 0) }"
    by (rule pfree_live [OF h rd(1) q t(1) a t(2) l rd(2)])
  have "pool_at s b \<noteq> None" using q(1) by simp
  note H = pfree_realdata_heap [OF h rd(1) this, of "env_rd env"]
  obtain s' ps' fs' where s': "pfree_realdata (env_rd env) s b a rd = Some s'" "managed s' b ps' fs' L"
    "if a \<noteq> b \<and> D a = {rd} then ps' = remove1 a ps \<and> fs' \<in> {fs, a # fs} else ps' \<in> {ps, a # remove1 a ps} \<and> fs' = fs"
    using pfree_realdata_managed [OF h rd(1) M a, of "env_rd env"] by blast
  moreover have "heap_free s D a rd s'" using H [of s'] s'(1) by blast
  ultimately show ?thesis unfolding e by (intro exI [of _ s'] exI [of _ ps'] exI [of _ fs']) simp
qed

end
