(* ===== verification/MempoolManaged.thy ===== *)
theory MempoolManaged
  imports MempoolChain
begin

text \<open>
  \<open>palloc\<close> and \<open>mempool_destroy\<close> on the pools of one manager in \<open>demo_mempool/mempool.c\<close>: a new pool enters the list of pools and the
  table of the base pool, \<open>palloc\<close> returns and keeps the manager in order, and \<open>mempool_destroy\<close> frees every pool and every large block.
\<close>

section \<open>A new pool\<close>

lemma ht_insert_run:
  assumes t: "addr_table t S" and x: "x \<noteq> NULL" "x < 2 ^ 64"
  obtains t' r where "ht_insert t x = Some (t', r)" "addr_table t' (if r = 0 then insert x S else S)"
    "large_table t S \<Longrightarrow> large_table t' (if r = 0 then insert x S else S)"
proof (cases t)
  case None
  have "ht_insert t x = Some (None, -1)" using None by (simp add: ht_insert_def)
  then show ?thesis using that [of None "-1"] t None by simp
next
  case (Some ht)
  have A: "mp_inv ht" "mp_hashf ht = hash_memaddr" "mp_cmp ht = Some hash_memcmp" "set (mp_elems ht) = S" "\<forall>x\<in>S. x < 2 ^ 64"
    using t Some by (simp_all add: addr_table_def)
  obtain bs fs where R: "mp_rep ht bs fs" using A(1) mp_inv_rep by blast
  show ?thesis
  proof (cases "num_elements ht \<ge> num_buckets ht \<or> (\<exists>y\<in>set (mp_elems ht). same hash_memaddr (Some hash_memcmp) x y)")
    case True
    then obtain ht' where i: "mp_hash_table_insert ht x = Some (ht', -1)" "mp_inv ht'" "mp_elems ht' = mp_elems ht" "mp_hashf ht' = hash_memaddr"
        "mp_cmp ht' = Some hash_memcmp" "freed ht' = freed ht" "mp_free ht' = mp_free ht"
      using pool.insert_refused [OF R A(2,3), of x] by blast
    have a: "addr_table (Some ht') S" using i A by (simp add: addr_table_def)
    show ?thesis by (rule that [of "Some ht'" "-1"]) (use i a Some in \<open>auto simp: ht_insert_def large_table_def\<close>)
  next
    case False
    then have "num_elements ht < num_buckets ht" "\<not> (\<exists>y\<in>set (mp_elems ht). same hash_memaddr (Some hash_memcmp) x y)" by auto
    from pool.insert_ok [OF R A(2,3) x(1) this] obtain ht' where i: "mp_hash_table_insert ht x = Some (ht', 0)" "mp_inv ht'"
        "mset (mp_elems ht') = add_mset x (mset (mp_elems ht))" "mp_hashf ht' = hash_memaddr"
        "mp_cmp ht' = Some hash_memcmp" "freed ht' = freed ht" "mp_free ht' = mp_free ht" by blast
    have "set (mp_elems ht') = insert x S" using arg_cong [OF i(3), of set_mset] A(4) by simp
    then have a: "addr_table (Some ht') (insert x S)" using i A x(2) by (simp add: addr_table_def)
    show ?thesis by (rule that [of "Some ht'" 0]) (use i a Some in \<open>auto simp: ht_insert_def large_table_def\<close>)
  qed
qed

text \<open>A pool with nothing in use has all its memory left.\<close>

lemma idle_leftsize:
  assumes ok: "pool_ok a p h as Ls" and b: "busylist p = NULL"
  shows "unat (leftsize p) = unat (pool_size p) - sizeof_mempool"
proof -
  have e: "Ls ! 5 = []" using busy_empty [OF ok] b by simp
  have L: "as = [first_block a]" "Ls = [[], [], [], [], [first_block a], []]" using ok e by (auto simp: pool_ok_def)
  have "free_blocks Ls = {first_block a}"
    unfolding free_blocks_def L(2) by (auto simp: less_Suc_eq numeral_eq_Suc)
  then have l: "unat (leftsize p) = bsz h (first_block a)" using ok by (simp add: pool_ok_def)
  have t: "tiles a h (a + unat (pool_size p)) [first_block a]" using ok L(1) by (simp add: pool_ok_def)
  then have "rnx a h (first_block a) = Some NULL" by (auto simp: tiles_def)
  then have "first_block a + bsz h (first_block a) = a + unat (pool_size p)"
    using t by (auto simp: tiles_def first_block_def sizeof_mempool_def split: if_splits)
  then show ?thesis using l by (simp add: first_block_def)
qed

text \<open>Between \<open>__get_mempool\<close> and its links: the pool \<open>m\<close> is in the table but not in the list.\<close>

definition joining :: "mpmem \<Rightarrow> ptr \<Rightarrow> ptr list \<Rightarrow> ptr list \<Rightarrow> ptr set \<Rightarrow> ptr \<Rightarrow> bool" where
  "joining s b ps fs L m \<longleftrightarrow> pool_lists s b ps fs \<and> m \<notin> set (b # ps @ fs) \<and> m \<noteq> NULL \<and> fld busylist s m = Some NULL \<and>
     (\<forall>x\<in>set (m # ps @ fs). fld pool_size s x = fld pool_size s b) \<and> (\<forall>x\<in>set fs. x < 2 ^ 64) \<and>
     (\<exists>t. fld cfg_ht s b = Some t \<and> addr_table t (insert m (set (b # ps)))) \<and> (\<exists>t. fld cfg_largeht s b = Some t \<and> large_table t L)"

text \<open>What \<open>malloc\<close> is assumed to do when \<open>palloc\<close> calls it: it succeeds, with a 64-bit address, in the state \<open>s\<close> and in those the search
  leads to, where only the failure counters of pools differ.\<close>

definition malloc_gives :: "mp_env \<Rightarrow> mpmem \<Rightarrow> bool" where
  "malloc_gives env s \<longleftrightarrow> (\<forall>s1 n. only_failed s s1 \<longrightarrow> env_malloc env s1 n \<noteq> NULL \<and> env_malloc env s1 n < 2 ^ 64)"

text \<open>The first half of \<open>__get_mempool\<close>: a pool from the pools kept for later, or a new one.\<close>

definition fresh_pool :: "mp_env \<Rightarrow> mpmem \<Rightarrow> ptr \<Rightarrow> mempool \<Rightarrow> (mpmem \<times> ptr) option" where
  "fresh_pool env s pool p = (if freepool p \<noteq> NULL then do {
          let newpool = freepool p;
          n \<leftarrow> pool_at s newpool;
          s \<leftarrow> upd_pool s pool (\<lambda>p. p\<lparr>freepool := p_next n\<rparr>);
          s \<leftarrow> (if p_next n \<noteq> NULL then upd_pool s (p_next n) (\<lambda>t. t\<lparr>p_prev := NULL\<rparr>) else Some s);
          s \<leftarrow> upd_pool s pool (\<lambda>p. p\<lparr>pfree_count := pfree_count p - 1\<rparr>);
          Some (s, newpool) }
        else mempool_init_extra env s (pool_size p) 0 0 0 (max_searchpool p) NULL NULL)"

lemma get_mempool_fresh:
  "get_mempool env s a = do {
     p \<leftarrow> pool_at s a;
     (s, m) \<leftarrow> fresh_pool env s a p;
     (s, r) \<leftarrow>
       (if m \<noteq> NULL then do {
          p \<leftarrow> pool_at s a;
          (ht, r) \<leftarrow> ht_insert (cfg_ht p) m;
          s \<leftarrow> upd_pool s a (\<lambda>p. p\<lparr>cfg_ht := ht\<rparr>);
          Some (s, r) }
        else Some (s, 0));
     if r \<noteq> 0 then do { s \<leftarrow> free_pool s m; Some (s, NULL) }
     else do {
       n \<leftarrow> pool_at s m;
       s \<leftarrow> upd_pool s a (\<lambda>p. p\<lparr>total_alloced := total_alloced p + ucast (pool_size p),
              total_leftsize := total_leftsize p + ucast (leftsize n)\<rparr>);
       Some (s, m) } }"
  by (simp add: get_mempool_def fresh_pool_def)

text \<open>What it leaves: the pool \<open>m\<close>, with nothing in use, outside both lists, and everything else of the manager as it was.\<close>

definition fresh_ends :: "mpmem \<Rightarrow> ptr \<Rightarrow> ptr list \<Rightarrow> ptr list \<Rightarrow> mpmem \<Rightarrow> ptr \<Rightarrow> bool" where
  "fresh_ends s b ps fs s1 m \<longleftrightarrow> m \<noteq> NULL \<and> m \<notin> set (b # ps @ fs) \<and> pool_lists s1 b ps fs \<and> fld busylist s1 m = Some NULL \<and>
     fld pool_size s1 m = fld pool_size s b \<and> (\<forall>x\<in>set (b # ps @ fs). fld pool_size s1 x = fld pool_size s x) \<and>
     fld cfg_ht s1 b = fld cfg_ht s b \<and> fld cfg_largeht s1 b = fld cfg_largeht s b"

lemma fresh_reused:
  assumes M: "managed s b ps (m # fs) L" and p: "pool_at s b = Some p"
  shows "\<exists>s1. fresh_pool env s b p = Some (s1, m) \<and> fresh_ends s b ps fs s1 m"
proof -
  have P: "pool_lists s b ps (m # fs)" and z: "fld pool_size s m = fld pool_size s b" using M by (auto simp: managed_def)
  obtain c where c: "fld freepool s b = Some m" "m \<noteq> NULL" "fld p_next s m = Some c" "chain (fld p_next s) c fs" "fld busylist s m = Some NULL"
    using P by (auto simp: pool_lists_def)
  have d: "m \<notin> set (b # ps)" "m \<notin> set fs" "set (b # ps) \<inter> set fs = {}"
    using P chain_distinct [of "fld p_next s" _ "m # fs"] by (auto simp: pool_lists_def)
  obtain n where n: "pool_at s m = Some n" "p_next n = c" using c(3) by (rule fldE)
  obtain s1 where 1: "upd_pool s b (\<lambda>p. p\<lparr>freepool := c\<rparr>) = Some s1" using c(1) by (elim updE) (rule that)
  note F1 = fld_same [OF 1] and N1 = fld_set [OF 1, of freepool c, simplified]
  have cs: "c \<noteq> NULL \<Longrightarrow> c \<in> set fs" using c(4) by (cases fs) auto
  have "\<exists>v. fld busylist s1 c = Some v" if "c \<noteq> NULL" using P cs [OF that] by (auto simp: F1 pool_lists_def)
  from if_upd_some [of c, OF this] obtain s2 where 2: "(if c \<noteq> NULL then upd_pool s1 c (\<lambda>t. t\<lparr>p_prev := NULL\<rparr>) else Some s1) = Some s2" by blast
  note F2 = fld_if_same [OF 2] and N2 = fld_if_set [OF 2, of p_prev NULL, simplified]
  have "\<exists>v. fld cfg_ht s2 b = Some v" using M by (auto simp: managed_def F1 F2)
  then obtain s3 where 3: "upd_pool s2 b (\<lambda>p. p\<lparr>pfree_count := pfree_count p - 1\<rparr>) = Some s3" by (elim exE updE) (rule that)
  note F3 = fld_same [OF 3]
  have "dchain (fld p_next s3) (fld p_prev s3) v b (b # ps) = dchain (fld p_next s) (fld p_prev s) v b (b # ps)" for v
    by (rule dchain_cong) (use cs d(3) in \<open>auto simp: F1 F2 F3 N2\<close>)
  then have "pool_lists s3 b ps fs" using P c(4) d by (auto simp: pool_lists_def F1 F2 F3 N1)
  then have "fresh_ends s b ps fs s3 m" using c d z by (simp add: fresh_ends_def F1 F2 F3)
  moreover have "fresh_pool env s b p = Some (s3, m)"
    using c(1,2) n 1 2 3 p by (cases "c = NULL") (auto simp: fresh_pool_def fld_def Let_def)
  ultimately show ?thesis by blast
qed

lemma fresh_new:
  assumes M: "managed s b ps fs L" and p: "pool_at s b = Some p" "freepool p = NULL" "init_size (pool_size p) = pool_size p"
    and m: "env_malloc env s (pool_size p) = m" "m \<noteq> NULL" "pools s m = None"
    and room: "sizeof_mempool + sizeof_realdata \<le> unat (pool_size p)"
  shows "fs = [] \<and> (\<exists>s1. fresh_pool env s b p = Some (s1, m) \<and> fresh_ends s b ps [] s1 m)"
proof -
  have P: "pool_lists s b ps fs" using M by (simp add: managed_def)
  then have fs: "fs = []" using p(1,2) by (auto simp: pool_lists_def fld_def)
  obtain s1 n where i: "mempool_init_extra env s (pool_size p) 0 0 0 (max_searchpool p) NULL NULL = Some (s1, m)" "pool_at s1 m = Some n"
      "busylist n = NULL" "pool_size n = pool_size p" "\<forall>x. x \<noteq> m \<longrightarrow> pool_at s1 x = pool_at s x"
    using init_extra_run [of env s "pool_size p" m] m room p(3) by metis
  have mn: "m \<notin> set (b # ps)" using pool_lists_nodes [OF P, of m] m(2,3) by (auto simp: pool_at_def)
  have F: "fld g s1 x = fld g s x" if "x \<in> set (b # ps)" for g :: "mempool \<Rightarrow> 'c" and x
    using i(5) that mn by (auto simp: fld_def)
  have F': "fld g s1 b = fld g s b" for g :: "mempool \<Rightarrow> 'c" by (rule F) simp
  have "dchain (fld p_next s1) (fld p_prev s1) v b (b # ps) = dchain (fld p_next s) (fld p_prev s) v b (b # ps)" for v
    by (rule dchain_cong) (simp_all only: F)
  then have "pool_lists s1 b ps []" using P fs by (simp add: pool_lists_def F')
  moreover have "fld pool_size s1 m = fld pool_size s b" "fld busylist s1 m = Some NULL"
    using i(2-4) p(1) by (simp_all add: fld_def)
  ultimately have "fresh_ends s b ps [] s1 m" using m(2) mn F [of _ pool_size] by (simp add: fresh_ends_def F')
  then show ?thesis using fs i(1) p(2) by (simp add: fresh_pool_def)
qed

lemma fresh_keeps:
  assumes r: "fresh_pool env s a p = Some (s1, m)" and h: "heap_ok s D" and env: "malloc_ok env"
  shows "heap_ok s1 D"
proof (cases "freepool p = NULL")
  case True
  then show ?thesis using r init_extra_keeps [OF _ h env] by (auto simp: fresh_pool_def keeps_def)
next
  case False
  then show ?thesis using r h unfolding fresh_pool_def Let_def by (auto elim!: core_bind poolE split: if_splits)
qed

lemma idle_without:
  assumes h: "heap_ok s D" and m: "fld busylist s m = Some NULL"
  shows "heap_ok (without m s) D"
proof -
  obtain n where n: "pool_at s m = Some n" "busylist n = NULL" using m by (rule fldE)
  obtain as Ls where ok: "pool_ok m n (rds s) as Ls" "set (Ls ! 5) = D m" by (rule heap_okD [OF h n(1)])
  then have "D m = {}" using busy_empty [OF ok(1)] n(2) by simp
  then show ?thesis using h unfolding heap_ok_def by (auto simp: pool_at_without split: if_splits)
qed

lemma get_mempool_managed:
  assumes h: "heap_ok s D" and M: "managed s b ps fs L" and env: "malloc_ok env" and p: "pool_at s b = Some p" "init_size (pool_size p) = pool_size p"
    and m: "env_malloc env s (pool_size p) \<noteq> NULL" "env_malloc env s (pool_size p) < 2 ^ 64"
  shows "\<exists>s' r fs'. get_mempool env s b = Some (s', r) \<and> heap_ok s' D \<and> set fs' \<subseteq> set fs \<and> fld pool_size s' b = fld pool_size s b \<and>
    (if r = NULL then managed s' b ps fs' L else joining s' b ps fs' L r)"
proof -
  obtain as Ls where ok: "pool_ok b p (rds s) as Ls" by (rule heap_okD [OF h p(1)])
  note room = pool_room [OF ok]
  have sm: "\<forall>x\<in>set fs. x < 2 ^ 64" using M by (simp add: managed_def)
  have "\<exists>s1 m fs'. fresh_pool env s b p = Some (s1, m) \<and> fresh_ends s b ps fs' s1 m \<and> set fs' \<subseteq> set fs \<and> m < 2 ^ 64"
  proof (cases "freepool p = NULL")
    case True
    have "pools s (env_malloc env s (pool_size p)) = None" using env m(1) by (simp add: malloc_ok_def)
    from fresh_new [OF M p(1) True p(2) refl m(1) this room(1)] m(2) show ?thesis by auto
  next
    case False
    then obtain x xs where "fs = x # xs" using M p(1) by (cases fs) (auto simp: managed_def pool_lists_def fld_def)
    then show ?thesis using fresh_reused [of s b ps x xs L p env] M p(1) sm by auto
  qed
  then obtain s1 m fs' where 1: "fresh_pool env s b p = Some (s1, m)" "fresh_ends s b ps fs' s1 m" "set fs' \<subseteq> set fs" "m < 2 ^ 64" by blast
  have E: "m \<noteq> NULL" "m \<notin> set (b # ps @ fs')" "pool_lists s1 b ps fs'" "fld busylist s1 m = Some NULL" "fld pool_size s1 m = fld pool_size s b"
    "\<forall>x\<in>set (b # ps @ fs'). fld pool_size s1 x = fld pool_size s x" "fld cfg_ht s1 b = fld cfg_ht s b" "fld cfg_largeht s1 b = fld cfg_largeht s b"
    using 1(2) by (simp_all add: fresh_ends_def)
  have h1: "heap_ok s1 D" by (rule fresh_keeps [OF 1(1) h env])
  obtain t where t: "fld cfg_ht s b = Some t" "addr_table t (set (b # ps))" using M by (auto simp: managed_def)
  obtain p1 where p1: "pool_at s1 b = Some p1" "cfg_ht p1 = t" using E(7) t(1) by (auto elim: fldE)
  obtain n1 where n1: "pool_at s1 m = Some n1" "busylist n1 = NULL" using E(4) by (rule fldE)
  obtain t' r where i: "ht_insert t m = Some (t', r)" "addr_table t' (if r = 0 then insert m (set (b # ps)) else set (b # ps))"
    by (rule ht_insert_run [OF t(2) E(1) 1(4)])
  obtain s2 where 2: "upd_pool s1 b (\<lambda>p. p\<lparr>cfg_ht := t'\<rparr>) = Some s2" by (rule updE [OF fld_pool [OF p1(1), of cfg_ht]])
  note F2 = fld_same [OF 2] and N2 = fld_set [OF 2, of cfg_ht t', simplified]
  have h2: "heap_ok s2 D" using heap_ok_core(1) [OF h1 2] by simp
  have P2: "pool_lists s2 b ps fs'" by (rule pool_lists_fields [OF E(3)]) (simp_all add: F2)
  have mb: "m \<noteq> b" using E(2) by simp
  have n2: "pool_at s2 m = Some n1" using upd_pool_at [OF 2, of m] mb n1(1) by simp
  have z: "\<forall>x\<in>set (ps @ fs'). fld pool_size s1 x = fld pool_size s1 b" using E(6) M 1(3) by (auto simp: managed_def)
  obtain l where l: "fld cfg_largeht s1 b = Some l" "large_table l L" using M E(8) by (auto simp: managed_def)
  show ?thesis
  proof (cases "r = 0")
    case False
    obtain s3 where 3: "free_pool s2 m = Some s3" using n2 by (simp add: free_pool_def)
    note F3 = fld_free [OF 3]
    have "s3 = without m s2" using 3 n2 by (simp add: free_pool_def without_def)
    then have h3: "heap_ok s3 D" using idle_without [OF h2] E(4) F2 [of busylist] by simp
    have "dchain (fld p_next s3) (fld p_prev s3) v b (b # ps) = dchain (fld p_next s2) (fld p_prev s2) v b (b # ps)" for v
      by (rule dchain_cong) (use E(2) in \<open>auto simp: F3\<close>)
    moreover have "chain (fld p_next s3) f fs' = chain (fld p_next s2) f fs'" for f by (rule chain_cong) (use E(2) in \<open>auto simp: F3\<close>)
    ultimately have "pool_lists s3 b ps fs'" using P2 E(2) by (auto simp: pool_lists_def F3)
    then have "managed s3 b ps fs' L" using z i(2) False l E(2) sm 1(3) by (auto simp: managed_def F2 F3 N2)
    moreover have "get_mempool env s b = Some (s3, NULL)" using p(1) 1(1) E(1) p1 i(1) 2 False 3 by (simp add: get_mempool_fresh)
    moreover have "fld pool_size s3 b = fld pool_size s b" using E(2,6) by (simp add: F3 F2)
    ultimately show ?thesis using h3 1(3) by (intro exI [of _ s3] exI [of _ NULL] exI [of _ fs']) simp
  next
    case True
    have "\<exists>v. fld cfg_ht s2 b = Some v" by (simp add: N2)
    then obtain s3 where 3: "upd_pool s2 b (\<lambda>p. p\<lparr>total_alloced := total_alloced p + ucast (pool_size p),
              total_leftsize := total_leftsize p + ucast (leftsize n1)\<rparr>) = Some s3" by (elim exE updE) (rule that)
    note F3 = fld_same [OF 3]
    have "heap_ok s3 D" using heap_ok_core(1) [OF h2 3] by (simp add: same_core_def)
    moreover have "joining s3 b ps fs' L m"
      unfolding joining_def
    proof (intro conjI)
      show "pool_lists s3 b ps fs'" by (rule pool_lists_fields [OF P2]) (simp_all add: F3)
      show "\<exists>t. fld cfg_ht s3 b = Some t \<and> addr_table t (insert m (set (b # ps)))" using i(2) True by (simp add: F3 N2)
      show "\<exists>t. fld cfg_largeht s3 b = Some t \<and> large_table t L" using l by (simp add: F3 F2)
      show "\<forall>x\<in>set (m # ps @ fs'). fld pool_size s3 x = fld pool_size s3 b" using z E(5,6) by (auto simp: F3 F2)
    qed (use E sm 1(3) in \<open>auto simp: F3 F2\<close>)
    moreover have "get_mempool env s b = Some (s3, m)" using p(1) 1(1) E(1) p1 i(1) 2 True 3 n2 by (simp add: get_mempool_fresh)
    moreover have "fld pool_size s3 b = fld pool_size s b" using E(6) by (simp add: F3 F2)
    ultimately show ?thesis using E(1) 1(3) by (intro exI [of _ s3] exI [of _ m] exI [of _ fs']) simp
  qed
qed

section \<open>Linking the new pool behind the base pool\<close>

definition link_pool :: "mpmem \<Rightarrow> ptr \<Rightarrow> ptr \<Rightarrow> mpmem option" where
  "link_pool s pool newpool = do {
     p \<leftarrow> pool_at s pool;
     s \<leftarrow> upd_pool s newpool (\<lambda>n. n\<lparr>p_next := p_next p\<rparr>);
     s \<leftarrow> (if p_next p \<noteq> NULL then upd_pool s (p_next p) (\<lambda>t. t\<lparr>p_prev := newpool\<rparr>) else Some s);
     s \<leftarrow> upd_pool s newpool (\<lambda>n. n\<lparr>p_prev := pool\<rparr>);
     upd_pool s pool (\<lambda>p. p\<lparr>p_next := newpool, pooltail := (if pooltail p = NULL then newpool else pooltail p)\<rparr>) }"

lemma link_managed:
  assumes J: "joining s b ps fs L m" and h: "heap_ok s D"
  shows "\<exists>s' n. link_pool s b m = Some s' \<and> managed s' b (m # ps) fs L \<and> heap_ok s' D \<and> pool_at s' m = Some n \<and> busylist n = NULL \<and>
    fld pool_size s' b = fld pool_size s b"
proof -
  have P: "pool_lists s b ps fs" and m: "m \<notin> set (b # ps)" "m \<notin> set fs" "m \<noteq> NULL" and bl: "fld busylist s m = Some NULL"
    using J by (auto simp: joining_def)
  obtain p where p: "pool_at s b = Some p" using pool_lists_nodes [OF P, of b] by auto
  define c where "c = p_next p"
  have c: "fld p_next s b = Some c" using fld_pool [OF p] by (simp add: c_def)
  obtain s1 where 1: "upd_pool s m (\<lambda>n. n\<lparr>p_next := c\<rparr>) = Some s1" by (rule updE [OF bl])
  note F1 = fld_same [OF 1] and N1 = fld_set [OF 1, of p_next c, simplified]
  have cs: "c \<noteq> NULL \<Longrightarrow> c \<in> set ps" using P c by (cases ps) (auto simp: pool_lists_def)
  have "\<exists>v. fld p_prev s1 c = Some v" if "c \<noteq> NULL" using pool_lists_fld [OF P, of c p_prev] cs [OF that] by (simp add: F1)
  from if_upd_some [of c, OF this] obtain s2 where 2: "(if c \<noteq> NULL then upd_pool s1 c (\<lambda>t. t\<lparr>p_prev := m\<rparr>) else Some s1) = Some s2" by blast
  note F2 = fld_if_same [OF 2] and N2 = fld_if_set [OF 2, of p_prev m, simplified]
  have "fld busylist s2 m = Some NULL" by (simp add: F1 F2 bl)
  then obtain s3 where 3: "upd_pool s2 m (\<lambda>n. n\<lparr>p_prev := b\<rparr>) = Some s3" by (rule updE)
  note F3 = fld_same [OF 3] and N3 = fld_set [OF 3, of p_prev b, simplified]
  have t3: "fld pooltail s3 b = Some (if ps = [] then NULL else last ps)" using P by (simp add: F1 F2 F3 pool_lists_def)
  then obtain s4 where 4: "upd_pool s3 b (\<lambda>p. p\<lparr>p_next := m, pooltail := (if pooltail p = NULL then m else pooltail p)\<rparr>) = Some s4"
    by (rule updE)
  note F4 = fld_same [OF 4] and N4 = fld_set [OF 4, of p_next m, simplified]
  have "last ps \<noteq> NULL" if "ps \<noteq> []" using pool_lists_nodes [OF P, of "last ps"] that by simp
  then have t4: "fld pooltail s4 b = Some (if ps = [] then m else last ps)" 
  proof -
    obtain p3 where p3: "pool_at s3 b = Some p3" "pooltail p3 = (if ps = [] then NULL else last ps)" using t3 by (rule fldE)
    then have "pool_at s4 b = Some (p3\<lparr>p_next := m, pooltail := (if pooltail p3 = NULL then m else pooltail p3)\<rparr>)"
      using upd_pool_at [OF 4, of b] by simp
    from fld_pool [OF this, of pooltail] p3(2) \<open>ps \<noteq> [] \<Longrightarrow> last ps \<noteq> NULL\<close> show ?thesis by (cases "ps = []") simp_all
  qed
  have ht4: "fld g s4 = fld g s" if "\<And>q x. g (q\<lparr>p_next := x\<rparr>) = g q" "\<And>q x. g (q\<lparr>p_prev := x\<rparr>) = g q"
      "\<And>q x. g (q\<lparr>pooltail := x\<rparr>) = g q" for g :: "mempool \<Rightarrow> 'c"
    using that fld_same [OF 4, of g] fld_same [OF 3, of g] fld_if_same [OF 2, of g] fld_same [OF 1, of g] by simp
  have "pool_lists s4 b (m # ps) fs"
    by (rule pool_lists_front [OF P m c]) (use m(1) t4 in \<open>auto simp: ht4 F1 F2 F3 F4 N1 N2 N3 N4\<close>)
  then have "managed s4 b (m # ps) fs L" using J by (simp add: managed_def joining_def ht4 insert_commute)
  moreover have "heap_ok s4 D"
  proof -
    have h1: "heap_ok s1 D" by (rule heap_ok_core(1) [OF h 1]) simp
    have h2: "heap_ok s2 D" using h1 2 heap_ok_core(1) [OF h1, of c "\<lambda>t. t\<lparr>p_prev := m\<rparr>" s2] by (auto split: if_splits)
    have h3: "heap_ok s3 D" by (rule heap_ok_core(1) [OF h2 3]) simp
    show ?thesis by (rule heap_ok_core(1) [OF h3 4]) (simp add: same_core_def)
  qed
  moreover have "fld busylist s4 m = Some NULL" "fld pool_size s4 b = fld pool_size s b" by (simp_all add: ht4 bl)
  moreover have "link_pool s b m = Some s4" using p 1 2 3 4 by (cases "c = NULL") (simp_all add: link_pool_def c_def [symmetric])
  ultimately show ?thesis by (auto elim: fldE)
qed

lemma palloc_loop_link:
  "palloc_loop env s a n tmp = do {
     (s, rd) \<leftarrow> alloc_realdata (env_rd env) s a tmp n;
     if rd = NULL then do {
       p \<leftarrow> pool_at s a;
       if total_alloced p + ucast (push_bit 1 (pool_size p)) \<ge> ucast (max_memsize p) then Some (s, NULL)
       else do {
         (s, newpool) \<leftarrow> get_mempool env s a;
         if newpool = NULL then Some (s, NULL)
         else do { s \<leftarrow> link_pool s a newpool; palloc_loop env s a n newpool } } }
     else do {
       s \<leftarrow> upd_rd s rd (\<lambda>d. d\<lparr>rd_used := 0\<rparr>);
       Some (s, rd + sizeof_realdata) } }"
  by (subst palloc_loop.simps) (simp add: link_pool_def Option.bind_assoc cong: if_cong)

section \<open>The loop of palloc\<close>

text \<open>The block at \<open>rd\<close> lies in the memory of a pool of \<open>A\<close>.\<close>

definition placed_in :: "mpmem \<Rightarrow> ptr set \<Rightarrow> ptr \<Rightarrow> bool" where
  "placed_in s A rd \<longleftrightarrow> (\<exists>t\<in>A. t \<le> rd \<and> (\<exists>q. pool_at s t = Some q \<and> rd < t + unat (pool_size q)))"

lemma palloc_found:
  assumes M: "managed s b ps fs L" and r: "alloc_realdata (env_rd env) s b tmp n = Some (s1, rd)"
    and tk: "taken s s1 t rd" "t \<in> set (b # ps)"
  shows "\<exists>s'. palloc_loop env s b n tmp = Some (s', rd + sizeof_realdata) \<and> managed s' b ps fs L \<and> placed_in s' (set (b # ps)) rd"
proof -
  have M1: "managed s1 b ps fs L" by (rule managed_links [OF M _ tk(2)]) (use tk in \<open>simp add: taken_def\<close>)
  obtain d where d: "rd_at s1 rd = Some d" "rd \<noteq> NULL" using tk(1) by (auto simp: taken_def)
  define s2 where "s2 = s1\<lparr>rds := (rds s1)(rd \<mapsto> d\<lparr>rd_used := 0\<rparr>)\<rparr>"
  have u: "upd_rd s1 rd (\<lambda>d. d\<lparr>rd_used := 0\<rparr>) = Some s2" using d by (simp add: upd_rd_def s2_def)
  have at: "pool_at s2 = pool_at s1" by (simp add: s2_def pool_at_def fun_eq_iff)
  have l: "same_links s1 s2 b" by (simp add: same_links_def at)
  have "managed s2 b ps fs L" by (rule managed_links [OF M1 l]) simp
  moreover have "placed_in s2 (set (b # ps)) rd"
  proof -
    obtain p where p: "t \<le> rd" "pool_at s t = Some p" "rd < t + unat (pool_size p)" "same_links s s1 t" using tk(1) by (auto simp: taken_def)
    have "map_option links (pool_at s1 t) = Some (links p)" using p(2,4) by (simp add: same_links_def)
    then obtain p1 where "pool_at s1 t = Some p1" "pool_size p1 = pool_size p" by (auto simp: links_def)
    then show ?thesis using p tk(2) unfolding placed_in_def at by (intro bexI [of _ t]) simp_all
  qed
  moreover have "palloc_loop env s b n tmp = Some (s2, rd + sizeof_realdata)"
    using r d u by (subst palloc_loop_link) simp
  ultimately show ?thesis by blast
qed

lemma palloc_loop_managed:
  assumes h: "heap_ok s D" and M: "managed s b ps fs L" and env: "malloc_ok env" "malloc_gives env s"
    and p: "pool_at s b = Some p" "\<not> max_searchpool p > 0" "init_size (pool_size p) = pool_size p"
    and qs: "chain (p_nxt s) tmp qs" "set qs \<subseteq> set (b # ps)" "\<forall>x\<in>set qs. \<forall>p. pools s x = Some p \<longrightarrow> failed p < MEMPOOL_FAILED_SKIP"
    and n: "sizeof_realdata \<le> unat n" "unat n \<le> unat (pool_size p) - sizeof_mempool"
  shows "\<exists>s' x ps' fs'. palloc_loop env s b n tmp = Some (s', x) \<and> managed s' b ps' fs' L \<and> set ps \<subseteq> set ps' \<and> set fs' \<subseteq> set fs \<and>
    (if x = NULL then heap_ok s' D else sizeof_realdata \<le> x \<and> placed_in s' (set (b # ps')) (x - sizeof_realdata))"
proof -
  have pb: "pool_at s b \<noteq> None" using p(1) by simp
  from alloc_realdata_search [OF search_run [OF h qs(1,3) pb qs(2) n(1), of "env_rd env" 0] p(1,2)]
  obtain s1 rd where r: "alloc_realdata (env_rd env) s b tmp n = Some (s1, rd)"
      "if rd = NULL then only_failed s s1 else \<exists>t\<in>set (b # ps). taken s s1 t rd"
    unfolding realdata_ends_def by blast
  show ?thesis
  proof (cases "rd = NULL")
    case False
    then obtain t where "taken s s1 t rd" "t \<in> set (b # ps)" using r(2) by auto
    from palloc_found [OF M r(1) this] obtain s' where "palloc_loop env s b n tmp = Some (s', rd + sizeof_realdata)"
        "managed s' b ps fs L" "placed_in s' (set (b # ps)) rd" by blast
    then show ?thesis
      by (intro exI [of _ s'] exI [of _ "rd + sizeof_realdata"] exI [of _ ps] exI [of _ fs]) (simp add: sizeof_realdata_def)
  next
    case True
    have of: "only_failed s s1" using r(2) True by simp
    have h1: "heap_ok s1 D" using alloc_realdata_post [OF r(1) h n(1)] True by (simp add: again_post_def)
    have M1: "managed s1 b ps fs L" by (rule managed_links [OF M only_failed_links [OF of, of b]]) simp
    obtain p1 where p1: "pool_at s1 b = Some p1" "p1\<lparr>failed := 0\<rparr> = p\<lparr>failed := 0\<rparr>" by (rule only_failed_pool [OF of p(1)])
    note F = failed_fields [OF p1(2)]
    have m: "env_malloc env s1 (pool_size p1) \<noteq> NULL" "env_malloc env s1 (pool_size p1) < 2 ^ 64" using env(2) of by (simp_all add: malloc_gives_def)
    have z: "init_size (pool_size p1) = pool_size p1" using p(3) F(5) by simp
    obtain s2 k fs' where g: "get_mempool env s1 b = Some (s2, k)" "heap_ok s2 D" "set fs' \<subseteq> set fs" "fld pool_size s2 b = fld pool_size s1 b"
        "if k = NULL then managed s2 b ps fs' L else joining s2 b ps fs' L k"
      using get_mempool_managed [OF h1 M1 env(1) p1(1) z m] by blast
    consider (max) "total_alloced p1 + ucast (push_bit 1 (pool_size p1)) \<ge> ucast (max_memsize p1)"
      | (none) "\<not> total_alloced p1 + ucast (push_bit 1 (pool_size p1)) \<ge> ucast (max_memsize p1)" "k = NULL"
      | (new) "\<not> total_alloced p1 + ucast (push_bit 1 (pool_size p1)) \<ge> ucast (max_memsize p1)" "k \<noteq> NULL" by blast
    then show ?thesis
    proof cases
      case max
      then have "palloc_loop env s b n tmp = Some (s1, NULL)" using r(1) True p1(1) by (subst palloc_loop_link) simp
      then show ?thesis using h1 M1 by auto
    next
      case none
      then have "palloc_loop env s b n tmp = Some (s2, NULL)" using r(1) True p1(1) g(1) by (subst palloc_loop_link) simp
      then show ?thesis using g none by auto
    next
      case new
      have J: "joining s2 b ps fs' L k" using g(5) new by simp
      obtain s6 q where l: "link_pool s2 b k = Some s6" "managed s6 b (k # ps) fs' L" "heap_ok s6 D" "pool_at s6 k = Some q" "busylist q = NULL"
          "fld pool_size s6 b = fld pool_size s2 b"
        using link_managed [OF J g(2)] by blast
      obtain as Ls where ok: "pool_ok k q (rds s6) as Ls" by (rule heap_okD [OF l(3,4)])
      have b6: "fld pool_size s6 b = Some (pool_size p)" using l(6) g(4) fld_pool [OF p1(1), of pool_size] F(5) by simp
      then have b6': "pool_at s6 b \<noteq> None" by (auto elim: fldE)
      have "fld pool_size s6 k = fld pool_size s6 b" using l(2) by (simp add: managed_def)
      then have "pool_size q = pool_size p" using b6 fld_pool [OF l(4), of pool_size] by simp
      then have "unat n \<le> unat (leftsize q)" using idle_leftsize [OF ok l(5)] n(2) by simp
      then have le: "\<not> (ucast (leftsize q) :: u32) < n" by (simp add: word_less_nat_alt)
      obtain s7 rd' where f: "alloc_search (env_rd env) s6 b n k 0 = Some (s7, k, rd')" "taken s6 s7 k rd'"
        by (rule search_fresh [OF l(3,4,5) n(1) le b6'])
      obtain s8 where f8: "alloc_realdata (env_rd env) s6 b k n = Some (s8, rd')" "taken s6 s8 k rd'"
        using alloc_realdata_taken [OF f b6'] by blast
      obtain s9 where s9: "palloc_loop env s6 b n k = Some (s9, rd' + sizeof_realdata)" "managed s9 b (k # ps) fs' L"
          "placed_in s9 (set (b # k # ps)) rd'" using palloc_found [OF l(2) f8] by auto
      have "palloc_loop env s b n tmp = Some (s9, rd' + sizeof_realdata)"
        using r(1) True p1(1) g(1) new l(1) s9(1) by (subst palloc_loop_link) simp
      then show ?thesis using s9(2,3) g(3)
        by (intro exI [of _ s9] exI [of _ "rd' + sizeof_realdata"] exI [of _ "k # ps"] exI [of _ fs']) (auto simp: sizeof_realdata_def)
    qed
  qed
qed

section \<open>palloc\<close>

lemma align_large:
  assumes "unat sz + 32 \<le> 2 ^ 32"
  shows "sizeof_large \<le> unat (MEMPOOL_MEMALIGN (sz + of_nat sizeof_large) 8)"
proof -
  define x :: u32 where "x = sz + of_nat sizeof_large + (8 - 1)"
  have x: "unat x = unat sz + 19" using assms by (simp add: x_def unat_word_ariths sizeof_large_def)
  have "(x AND 7) + (x AND NOT 7) = x"
    by (subst disjunctive_add) (auto simp: bit_simps simp flip: bit.conj_disj_distrib)
  then have y: "x AND NOT 7 = x - (x AND 7)" by (simp add: algebra_simps)
  have z: "unat (x AND 7) \<le> 7" using unat_and_le2 [of x 7] by simp
  then have "x AND 7 \<le> x" using x by (simp add: word_le_nat_alt)
  then have "unat (x AND NOT 7) = unat x - unat (x AND 7)" unfolding y by (rule unat_sub)
  moreover have "MEMPOOL_MEMALIGN (sz + of_nat sizeof_large) 8 = x AND NOT 7" by (simp add: MEMPOOL_MEMALIGN_def x_def)
  ultimately show ?thesis using x z by (simp only: sizeof_large_def)
qed

lemma alloc_large_managed:
  assumes h: "heap_ok s D" and M: "managed s b ps fs L" and env: "malloc_gives env s" and sz: "unat sz + 32 \<le> 2 ^ 32"
  shows "\<exists>s' x L'. alloc_large env s b sz = Some (s', x) \<and> managed s' b ps fs L' \<and>
    (if x = NULL then L' = L \<and> heap_ok s' D else L' = insert (x - sizeof_large) L)"
proof -
  define n where "n = MEMPOOL_MEMALIGN (sz + of_nat sizeof_large) 8"
  define m where "m = env_malloc env s n"
  define s0 where "s0 = s\<lparr>larges := (larges s)(m \<mapsto> \<lparr>large_flag = MEMPOOL_LARGEFLAG, large_size = n, large_used = 0\<rparr>)\<rparr>"
  have m: "m \<noteq> NULL" "m < 2 ^ 64" using env only_failed_refl unfolding malloc_gives_def m_def by blast+
  have at: "pool_at s0 = pool_at s" "rds s0 = rds s" by (simp_all add: s0_def pool_at_def fun_eq_iff)
  have h0: "heap_ok s0 D" using h unfolding heap_ok_def at .
  have M0: "managed s0 b ps fs L" by (rule managed_links [OF M, of _ b]) (simp_all add: same_links_def at)
  obtain t where t: "fld cfg_largeht s0 b = Some t" "large_table t L" using M0 by (auto simp: managed_def)
  obtain p where p: "pool_at s0 b = Some p" "cfg_largeht p = t" using t(1) by (rule fldE)
  obtain t' r where i: "ht_insert t m = Some (t', r)" "large_table t' (if r = 0 then insert m L else L)"
  proof -
    have "addr_table t L" using t(2) by (simp add: large_table_def)
    from ht_insert_run [OF this m] obtain t' r where "ht_insert t m = Some (t', r)" "large_table t' (if r = 0 then insert m L else L)"
      using t(2) by metis
    then show ?thesis by (rule that)
  qed
  obtain s1 where 1: "upd_pool s0 b (\<lambda>p. p\<lparr>cfg_largeht := t'\<rparr>) = Some s1" by (rule updE [OF t(1)])
  note F1 = fld_same [OF 1] and N1 = fld_set [OF 1, of cfg_largeht t', simplified]
  have M1: "managed s1 b ps fs (if r = 0 then insert m L else L)"
  proof -
    have "pool_lists s1 b ps fs" by (rule pool_lists_fields [of s0]) (use M0 in \<open>simp_all add: managed_def F1\<close>)
    then show ?thesis using M0 i(2) by (simp add: managed_def F1 N1)
  qed
  have h1: "heap_ok s1 D" by (rule heap_ok_core(1) [OF h0 1]) simp
  show ?thesis
  proof (cases "r = 0")
    case True
    have "\<exists>v. fld cfg_largeht s1 b = Some v" by (simp add: N1)
    then obtain s2 where 2: "upd_pool s1 b (\<lambda>p. p\<lparr>total_alloced := total_alloced p + ucast n\<rparr>) = Some s2" by (elim exE updE) (rule that)
    have "managed s2 b ps fs (insert m L)"
      using managed_links [OF M1 upd_same_links [OF 2, of b]] True by (simp add: links_def)
    moreover have "alloc_large env s b sz = Some (s2, m + sizeof_large)"
      using align_large [OF sz] m(1) p i(1) 1 2 True
      by (simp add: alloc_large_def Let_def n_def [symmetric] m_def [symmetric] s0_def [symmetric])
    ultimately show ?thesis by (intro exI [of _ s2] exI [of _ "m + sizeof_large"] exI [of _ "insert m L"]) (simp add: sizeof_large_def)
  next
    case False
    have at': "pool_at (free_larges s1 [m]) = pool_at s1" "rds (free_larges s1 [m]) = rds s1"
      by (simp_all add: free_larges_def pool_at_def fun_eq_iff)
    have "managed (free_larges s1 [m]) b ps fs L"
      using managed_links [OF M1, of "free_larges s1 [m]" b] False by (simp add: same_links_def at')
    moreover have "heap_ok (free_larges s1 [m]) D" using h1 unfolding heap_ok_def at' .
    moreover have "alloc_large env s b sz = Some (free_larges s1 [m], NULL)"
      using align_large [OF sz] m(1) p i(1) 1 False
      by (simp add: alloc_large_def Let_def n_def [symmetric] m_def [symmetric] s0_def [symmetric])
    ultimately show ?thesis by auto
  qed
qed

text \<open>The pool a new block belongs to is the one whose memory it lies in.\<close>

lemma alloc_placed:
  assumes a: "heap_alloc s D c n rd s'" and p: "placed_in s' A rd"
  shows "c \<in> A"
proof -
  obtain t q where t: "t \<in> A" "t \<le> rd" "pool_at s' t = Some q" "rd < t + unat (pool_size q)" using p by (auto simp: placed_in_def)
  have h: "heap_ok s' (D(c := insert rd (D c)))" using a by (simp add: heap_alloc_def)
  obtain r where r: "pool_at s' c = Some r" "c \<le> rd" "rd < c + unat (pool_size r)" by (rule heap_ok_rd [OF h, of rd c]) auto
  have "c = t" using heap_ok_apart [OF h t(3) r(1)] heap_ok_apart [OF h r(1) t(3)] t(2,4) r(2,3) by (cases "c < t"; cases "t < c") auto
  then show ?thesis using t(1) by simp
qed

lemma palloc_managed:
  assumes h: "heap_ok s D" and M: "managed s b ps fs L" and env: "malloc_ok env" "malloc_gives env s"
    and p: "pool_at s b = Some p" "\<not> max_searchpool p > 0" "init_size (pool_size p) = pool_size p"
    and f: "\<forall>x\<in>set (b # ps). \<forall>p. pool_at s x = Some p \<longrightarrow> failed p < MEMPOOL_FAILED_SKIP" and sz: "unat sz + 32 \<le> 2 ^ 32"
  shows "\<exists>s' x ps' fs' L'. palloc env s b sz = Some (s', x) \<and> managed s' b ps' fs' L' \<and> set ps \<subseteq> set ps' \<and> set fs' \<subseteq> set fs \<and>
    (if x = NULL then heap_ok s' D \<and> L' = L
     else L' = L \<and> sizeof_realdata \<le> x \<and>
         (\<exists>t\<in>set (b # ps'). heap_alloc s D t (unat sz + sizeof_realdata) (x - sizeof_realdata) s') \<or>
       L' = insert (x - sizeof_large) L \<and> keeps D s s' \<and> sizeof_large \<le> x \<and> larges s' (x - sizeof_large) =
         Some \<lparr>large_flag = MEMPOOL_LARGEFLAG, large_size = MEMPOOL_MEMALIGN (sz + of_nat sizeof_large) 8, large_used = 0\<rparr>)"
proof -
  have P: "pool_lists s b ps fs" using M by (simp add: managed_def)
  have bN: "b \<noteq> NULL" using pool_lists_nodes [OF P, of b] by simp
  obtain v where "dchain (fld p_next s) (fld p_prev s) v b (b # ps)" using P by (auto simp: pool_lists_def)
  then have "chain (fld p_next s) b (b # ps)" by (rule dchain_chain)
  moreover have "chain (fld p_next s) x xs = chain (p_nxt s) x xs" if "NULL \<notin> set xs" for x xs
    by (rule chain_cong) (use that in \<open>auto simp: fld_def p_nxt_def pool_at_def split: if_splits\<close>)
  moreover have N: "NULL \<notin> set (b # ps)" using pool_lists_nodes [OF P] by auto
  ultimately have c: "chain (p_nxt s) b (b # ps)" by blast
  then have c': "chain (p_nxt s) (p_next p) ps" using p(1) by (auto simp: p_nxt_def pool_at_def split: if_splits)
  have f': "\<forall>x\<in>set (b # ps). \<forall>p. pools s x = Some p \<longrightarrow> failed p < MEMPOOL_FAILED_SKIP"
  proof (intro ballI allI impI)
    fix x q assume x: "x \<in> set (b # ps)" "pools s x = Some q"
    then have "pool_at s x = Some q" using N by (cases "x = NULL") (auto simp: pool_at_def)
    then show "failed q < MEMPOOL_FAILED_SKIP" using f x(1) by blast
  qed
  obtain as Ls where ok: "pool_ok b p (rds s) as Ls" by (rule heap_okD [OF h p(1)])
  note room = pool_room [OF ok]
  show ?thesis
  proof (cases "(ucast sz :: u64) > ucast (pool_size p) - of_nat sizeof_mempool - of_nat sizeof_realdata")
    case True
    then have "palloc env s b sz = alloc_large env s b sz \<or> palloc env s b sz = Some (s, NULL)" using bN p(1) by (auto simp: palloc_def)
    then show ?thesis
    proof
      assume e: "palloc env s b sz = alloc_large env s b sz"
      obtain s' x L' where r: "alloc_large env s b sz = Some (s', x)" "managed s' b ps fs L'"
          "if x = NULL then L' = L \<and> heap_ok s' D else L' = insert (x - sizeof_large) L"
        using alloc_large_managed [OF h M env(2) sz] by blast
      show ?thesis unfolding e using r alloc_large_keeps [OF r(1) h]
        by (intro exI [of _ s'] exI [of _ x] exI [of _ ps] exI [of _ fs] exI [of _ L']) (cases "x = NULL"; simp)
    qed (use h M in auto)
  next
    case False
    let ?n = "sz + of_nat sizeof_realdata"
    have le: "(of_nat (sizeof_mempool + sizeof_realdata) :: u64) \<le> ucast (pool_size p)"
      using room by (simp add: word_le_nat_alt sizeof_mempool_def sizeof_realdata_def)
    have "(ucast sz :: u64) \<le> ucast (pool_size p) - of_nat (sizeof_mempool + sizeof_realdata)"
      using False by (simp add: diff_diff_eq)
    then have "unat sz \<le> unat (ucast (pool_size p) - of_nat (sizeof_mempool + sizeof_realdata) :: u64)"
      unfolding word_le_nat_alt by simp
    also have "\<dots> = unat (pool_size p) - (sizeof_mempool + sizeof_realdata)"
      using le by (simp add: unat_sub sizeof_mempool_def sizeof_realdata_def)
    finally have "unat sz + sizeof_realdata \<le> unat (pool_size p) - sizeof_mempool" using room(1) by linarith
    moreover have "unat ?n = unat sz + sizeof_realdata" using sz by (simp add: unat_word_ariths sizeof_realdata_def)
    ultimately have n: "sizeof_realdata \<le> unat ?n" "unat ?n \<le> unat (pool_size p) - sizeof_mempool" "unat ?n = unat sz + sizeof_realdata" by simp_all
    define tmp where "tmp = (if (ucast (leftsize p) :: u32) > ?n then b else p_next p)"
    define qs where "qs = (if tmp = b then b # ps else ps)"
    have nb: "p_next p \<noteq> b"
    proof
      assume "p_next p = b"
      then have "chain (p_nxt s) b ps" using c' by simp
      then have "ps = b # ps" using c chain_unique by metis
      then show False by simp
    qed
    have t: "tmp = b \<and> qs = b # ps \<or> tmp = p_next p \<and> qs = ps" using nb by (auto simp: tmp_def qs_def)
    have e: "palloc env s b sz = palloc_loop env s b ?n tmp \<or> palloc env s b sz = Some (s, NULL)"
      using bN p(1) False by (simp add: palloc_def Let_def tmp_def)
    have q: "chain (p_nxt s) tmp qs" "set qs \<subseteq> set (b # ps)" "\<forall>x\<in>set qs. \<forall>p. pools s x = Some p \<longrightarrow> failed p < MEMPOOL_FAILED_SKIP"
      using t c c' f' by auto
    obtain s' x ps' fs' where r: "palloc_loop env s b ?n tmp = Some (s', x)" "managed s' b ps' fs' L" "set ps \<subseteq> set ps'" "set fs' \<subseteq> set fs"
        "if x = NULL then heap_ok s' D else sizeof_realdata \<le> x \<and> placed_in s' (set (b # ps')) (x - sizeof_realdata)"
      using palloc_loop_managed [OF h M env p q n(1,2)] by blast
    show ?thesis using e
    proof
      assume e: "palloc env s b sz = palloc_loop env s b ?n tmp"
      have "\<exists>t\<in>set (b # ps'). heap_alloc s D t (unat sz + sizeof_realdata) (x - sizeof_realdata) s'" if x: "x \<noteq> NULL"
      proof -
        obtain c where c: "heap_alloc s D c (unat sz + sizeof_realdata) (x - sizeof_realdata) s'"
          using palloc_loop_post [OF r(1) h env(1) n(1) x] n(3) by auto
        then show ?thesis using alloc_placed [OF c] r(5) x by auto
      qed
      then show ?thesis using r unfolding e
        by (intro exI [of _ s'] exI [of _ x] exI [of _ ps'] exI [of _ fs'] exI [of _ L]) (cases "x = NULL"; simp)
    qed (use h M in auto)
  qed
qed

section \<open>mempool_destroy\<close>

lemma free_pool_run: "pool_at s x = Some p \<Longrightarrow> free_pool s x = Some (s\<lparr>pools := (pools s)(x := None)\<rparr>)"
  by (simp add: free_pool_def)

lemma fld_gone: "y \<noteq> x \<Longrightarrow> fld g (s\<lparr>pools := (pools s)(x := None)\<rparr>) y = fld g s y"
  by (simp add: fld_def pool_at_def)

lemma restrict_gone: "(m(x := None)) |` (- set xs) = m |` (- set (x # xs))"
  by (auto simp: restrict_map_def fun_eq_iff)

lemma destroy_freepools_run:
  "chain (fld p_next s) f fs \<Longrightarrow> \<forall>x\<in>set fs. fld busylist s x = Some NULL \<Longrightarrow>
    destroy_freepools s f = Some (s\<lparr>pools := pools s |` (- set fs)\<rparr>)"
proof (induction fs arbitrary: s f)
  case Nil
  then show ?case by (simp add: destroy_freepools.simps)
next
  case (Cons x xs)
  let ?s = "s\<lparr>pools := (pools s)(x := None)\<rparr>"
  obtain c where c: "f = x" "x \<noteq> NULL" "fld p_next s x = Some c" "chain (fld p_next s) c xs" using Cons.prems(1) by auto
  obtain p where p: "pool_at s x = Some p" "p_next p = c" using c(3) by (rule fldE)
  have nx: "x \<notin> set xs" using chain_distinct [OF Cons.prems(1)] by simp
  have b: "busylist p = NULL" using Cons.prems(2) p(1) by (simp add: fld_def)
  have "chain (fld p_next ?s) c xs = chain (fld p_next s) c xs" by (rule chain_cong, rule fld_gone) (use nx in auto)
  moreover have "\<forall>y\<in>set xs. fld busylist ?s y = Some NULL" 
  proof
    fix y assume y: "y \<in> set xs"
    then have "y \<noteq> x" using nx by auto
    then show "fld busylist ?s y = Some NULL" using Cons.prems(2) y by (simp add: fld_gone)
  qed
  ultimately have "destroy_freepools ?s c = Some (?s\<lparr>pools := pools ?s |` (- set xs)\<rparr>)" using Cons.IH c(4) by blast
  then show ?case using c(1,2) p b free_pool_run [OF p(1)]
    by (subst destroy_freepools.simps) (simp add: restrict_gone [of _ x xs, simplified])
qed

lemma destroy_pools_run:
  "chain (fld p_next s) f ps \<Longrightarrow> destroy_pools s f = Some (s\<lparr>pools := pools s |` (- set ps)\<rparr>)"
proof (induction ps arbitrary: s f)
  case Nil
  then show ?case by (simp add: destroy_pools.simps)
next
  case (Cons x xs)
  let ?s = "s\<lparr>pools := (pools s)(x := None)\<rparr>"
  obtain c where c: "f = x" "x \<noteq> NULL" "fld p_next s x = Some c" "chain (fld p_next s) c xs" using Cons.prems by auto
  obtain p where p: "pool_at s x = Some p" "p_next p = c" using c(3) by (rule fldE)
  have nx: "x \<notin> set xs" using chain_distinct [OF Cons.prems] by simp
  have "chain (fld p_next ?s) c xs = chain (fld p_next s) c xs" by (rule chain_cong, rule fld_gone) (use nx in auto)
  then have "destroy_pools ?s c = Some (?s\<lparr>pools := pools ?s |` (- set xs)\<rparr>)" using Cons.IH c(4) by blast
  then show ?case using c(1,2) p free_pool_run [OF p(1)]
    by (subst destroy_pools.simps) (simp add: restrict_gone [of _ x xs, simplified])
qed

text \<open>Tables whose bucket index does not overflow an \<open>int\<close> while they are freed.\<close>

definition small_tables :: "mpmem \<Rightarrow> ptr \<Rightarrow> bool" where
  "small_tables s b \<longleftrightarrow> (\<forall>ht. fld cfg_ht s b = Some (Some ht) \<or> fld cfg_largeht s b = Some (Some ht) \<longrightarrow> unat (num_buckets ht) < 2 ^ 31)"

lemma table_free_run:
  assumes t: "addr_table t S" and n: "\<And>ht. t = Some ht \<Longrightarrow> unat (num_buckets ht) < 2 ^ 31"
  shows "\<exists>log. (case t of None \<Rightarrow> Some [] | Some ht \<Rightarrow> mp_hash_table_free ht) = Some log \<and> (large_table t S \<longrightarrow> set log = S)"
proof (cases t)
  case None
  then show ?thesis using t by (simp add: addr_table_def)
next
  case (Some ht)
  then have A: "mp_inv ht" "set (mp_elems ht) = S" using t by (simp_all add: addr_table_def)
  obtain bs fs where R: "mp_rep ht bs fs" using A(1) mp_inv_rep by blast
  then have "mp_links ht bs fs []" by (simp add: mp_rep_def)
  from mp_free_loop_run [OF this n [OF Some], of 0 "freed ht"]
  have "mp_hash_table_free ht = Some (freed ht @ (if mp_free ht then mp_elems ht else []))"
    by (simp add: mp_hash_table_free_def mp_inv_elems [OF R])
  then show ?thesis using Some A(2) by (auto simp: large_table_def)
qed

lemma mempool_destroy_managed:
  assumes M: "managed s b ps fs L" and st: "small_tables s b"
  shows "mempool_destroy s b = Some (s\<lparr>pools := pools s |` (- set (b # ps @ fs)), larges := larges s |` (- L)\<rparr>)"
proof -
  have P: "pool_lists s b ps fs" using M by (simp add: managed_def)
  obtain p where p: "pool_at s b = Some p" "b \<noteq> NULL" using pool_lists_nodes [OF P, of b] by auto
  have tb: "addr_table (cfg_ht p) (set (b # ps))" "large_table (cfg_largeht p) L" 
    using M by (auto simp: managed_def fld_pool [OF p(1)])
  obtain log where log: "(case cfg_largeht p of None \<Rightarrow> Some [] | Some ht \<Rightarrow> mp_hash_table_free ht) = Some log" "set log = L"
    using table_free_run [of "cfg_largeht p" L] tb(2) st fld_pool [OF p(1), of cfg_largeht] by (auto simp: large_table_def small_tables_def)
  obtain log' where log': "(case cfg_ht p of None \<Rightarrow> Some [] | Some ht \<Rightarrow> mp_hash_table_free ht) = Some log'"
    using table_free_run [OF tb(1)] st fld_pool [OF p(1), of cfg_ht] by (auto simp: small_tables_def)
  define s0 where "s0 = free_larges s log"
  have at0: "pool_at s0 = pool_at s" by (simp add: s0_def free_larges_def pool_at_def fun_eq_iff)
  have F0: "fld g s0 = fld g s" for g :: "mempool \<Rightarrow> 'c" by (simp add: fld_def at0 fun_eq_iff)
  let ?f = "\<lambda>p :: mempool. p\<lparr>cfg_largeht := None\<rparr>" and ?g = "\<lambda>p :: mempool. p\<lparr>cfg_ht := None\<rparr>"
  have 1: "upd_pool s0 b ?f = Some (s0\<lparr>pools := (pools s0)(b \<mapsto> ?f p)\<rparr>)" (is "_ = Some ?s1") using p by (simp add: upd_pool_def at0)
  note F1 = fld_same [OF 1]
  have P1: "pool_lists ?s1 b ps fs" by (rule pool_lists_fields [OF P]) (simp_all add: F1 F0)
  obtain c where c: "freepool p = c" "chain (fld p_next ?s1) c fs" "\<forall>x\<in>set fs. fld busylist ?s1 x = Some NULL" "set (b # ps) \<inter> set fs = {}"
    using P1 F1 [of freepool] F0 [of freepool] fld_pool [OF p(1), of freepool] by (auto simp: pool_lists_def)
  let ?s2 = "?s1\<lparr>pools := pools ?s1 |` (- set fs)\<rparr>"
  have 2: "destroy_freepools ?s1 (freepool p) = Some ?s2" using destroy_freepools_run [OF c(2,3)] c(1) by simp
  have b2: "pool_at ?s2 b = Some (?f p)" using p(2) c(4) by (simp add: pool_at_def)
  let ?s3 = "?s2\<lparr>pools := (pools ?s2)(b \<mapsto> ?g (?f p))\<rparr>"
  have 3: "upd_pool ?s2 b ?g = Some ?s3" using b2 by (simp add: upd_pool_def)
  have nx: "fld p_next ?s3 x = fld p_next s x" if "x \<in> set (b # ps)" for x
    
  proof -
    have "x \<notin> set fs" using that c(4) by auto
    then show ?thesis using p by (simp add: fld_def pool_at_def s0_def free_larges_def restrict_map_def)
  qed
  obtain v where "dchain (fld p_next s) (fld p_prev s) v b (b # ps)" using P by (auto simp: pool_lists_def)
  then have "chain (fld p_next s) b (b # ps)" by (rule dchain_chain)
  then have "chain (fld p_next ?s3) b (b # ps)" by (subst chain_cong [OF nx])
  from destroy_pools_run [OF this] have 4: "destroy_pools ?s3 b = Some (?s3\<lparr>pools := pools ?s3 |` (- set (b # ps))\<rparr>)" .
  have e: "?s3\<lparr>pools := pools ?s3 |` (- set (b # ps))\<rparr> = s\<lparr>pools := pools s |` (- set (b # ps @ fs)), larges := larges s |` (- L)\<rparr>"
    using log(2) by (auto simp: s0_def free_larges_def restrict_map_def fun_eq_iff)
  show ?thesis
    unfolding e [symmetric] using p log(1) log' 1 2 3 4 by (simp add: mempool_destroy_def s0_def [symmetric])
qed

section \<open>A new manager\<close>

text \<open>The tables that \<open>mempool_set_maxmem\<close> gives a new base pool.\<close>

lemma hash_size_range:
  fixes m :: u56 and z :: u32
  assumes "unat m \<le> 2 ^ 35" and "unat z \<le> unat m" and "207 \<le> unat z"
  shows "2 \<le> (ucast ((ucast m :: u64) div ucast z + 1) :: u32)" "(ucast ((ucast m :: u64) div ucast z + 1) :: u32) \<le> 2 ^ 31"
proof -
  have m: "unat (ucast m :: u64) = unat m"
    using assms(1) by (simp add: unsigned_ucast_eq take_bit_nat_eq_self)
  have d: "1 \<le> unat m div unat z" using assms(2,3) div_le_mono [of "unat z" "unat m" "unat z"] by simp
  have "unat m div unat z \<le> 2 ^ 35 div 207"
    by (rule order_trans [OF div_le_mono [OF assms(1)] div_le_mono2]) (use assms(3) in auto)
  then have u: "unat m div unat z \<le> 165989074" by simp
  have q: "unat ((ucast m :: u64) div ucast z) = unat m div unat z" by (simp add: unat_div m)
  have "unat ((ucast m :: u64) div ucast z + 1) = unat m div unat z + 1"
    using u by (subst unat_add_lem [THEN iffD1]) (simp_all add: q)
  then have e: "unat (ucast ((ucast m :: u64) div ucast z + 1) :: u32) = unat m div unat z + 1"
    using u by (simp add: unsigned_ucast_eq take_bit_nat_eq_self)
  show "2 \<le> (ucast ((ucast m :: u64) div ucast z + 1) :: u32)" using d e by (simp add: word_le_nat_alt)
  show "(ucast ((ucast m :: u64) div ucast z + 1) :: u32) \<le> 2 ^ 31" using u e by (simp add: word_le_nat_alt)
qed

lemma reset_tables_run:
  assumes p: "pool_at s a = Some p" "addr_table (cfg_ht p) S" "large_table (cfg_largeht p) L" "small_tables s a" and c: "env_calloc env" and a: "a < 2 ^ 64"
    and z: "unat (max_memsize p) \<le> 2 ^ 35" "unat (pool_size p) \<le> unat (max_memsize p)" "207 \<le> unat (pool_size p)"
  shows "\<exists>t l. reset_tables env s a =
      upd_pool (s\<lparr>larges := larges s |` (- L)\<rparr>) a (\<lambda>p. p\<lparr>cfg_ht := Some t, cfg_largeht := Some l\<rparr>) \<and>
    addr_table (Some t) {a} \<and> large_table (Some l) {}"
proof -
  let ?n = "ucast ((ucast (max_memsize p) :: u64) div ucast (pool_size p) + 1) :: u32"
  have aN: "a \<noteq> NULL" using p(1) by (auto simp: pool_at_def split: if_splits)
  note cr = create_run [OF hash_size_range [OF z], of hash_memaddr "Some hash_memcmp"]
  obtain t0 where t0: "mp_hash_table_create hash_memaddr (Some hash_memcmp) False ?n True True True = Some (Some t0)" "mp_inv t0" "mp_elems t0 = []"
      "mp_hashf t0 = hash_memaddr" "mp_cmp t0 = Some hash_memcmp" using cr [of False] by blast
  obtain l where l: "mp_hash_table_create hash_memaddr (Some hash_memcmp) True ?n True True True = Some (Some l)" "mp_inv l" "mp_elems l = []"
      "mp_hashf l = hash_memaddr" "mp_cmp l = Some hash_memcmp" "mp_free l" "freed l = []" using cr [of True] by blast
  obtain bs fs where R: "mp_rep t0 bs fs" using t0(2) mp_inv_rep by blast
  have "unat (num_elements t0) = length (mp_elems t0)" using R mp_inv_elems [OF R] by (simp add: mp_rep_def)
  then have "num_elements t0 = 0" using t0(3) by (simp add: unat_eq_0)
  moreover have "num_buckets t0 \<noteq> 0" using R by (auto simp: mp_rep_def mp_links_def mp_shape_def unat_pow2 simp flip: unat_eq_0)
  ultimately have "num_elements t0 < num_buckets t0" by (simp add: word_neq_0_conv)
  from pool.insert_ok [OF R t0(4,5) aN this] t0(3) obtain t where t: "mp_hash_table_insert t0 a = Some (t, 0)" "mp_inv t"
      "mset (mp_elems t) = {#a#}" "mp_hashf t = hash_memaddr" "mp_cmp t = Some hash_memcmp" by auto
  have "set (mp_elems t) = {a}" using arg_cong [OF t(3), of set_mset] by simp
  then have "addr_table (Some t) {a}" using t a by (simp add: addr_table_def)
  note tbl = this
  have lt: "large_table (Some l) {}" using l by (simp add: large_table_def addr_table_def)
  have "pool_size p \<noteq> 0" using z(3) by auto
  moreover obtain log where log: "(case cfg_largeht p of None \<Rightarrow> Some [] | Some ht \<Rightarrow> mp_hash_table_free ht) = Some log" "set log = L"
    using table_free_run [of "cfg_largeht p" L] p(3,4) fld_pool [OF p(1), of cfg_largeht] by (auto simp: large_table_def small_tables_def)
  moreover obtain log' where "(case cfg_ht p of None \<Rightarrow> Some [] | Some ht \<Rightarrow> mp_hash_table_free ht) = Some log'"
    using table_free_run [OF p(2)] p(4) fld_pool [OF p(1), of cfg_ht] by (auto simp: small_tables_def)
  moreover have "free_larges s log = s\<lparr>larges := larges s |` (- L)\<rparr>"
    using log(2) by (auto simp: free_larges_def restrict_map_def fun_eq_iff)
  ultimately have "reset_tables env s a =
      upd_pool (s\<lparr>larges := larges s |` (- L)\<rparr>) a (\<lambda>p. p\<lparr>cfg_ht := Some t, cfg_largeht := Some l\<rparr>)"
    using p(1) c t0(1) l(1) t(1) by (simp add: reset_tables_def Let_def)
  then show ?thesis using tbl lt by blast
qed

lemma set_maxmem_run:
  assumes p: "pool_at s a = Some p" "cfg_ht p = None" "cfg_largeht p = None" and c: "env_calloc env" and a: "a < 2 ^ 64"
    and z: "207 \<le> unat (pool_size p)" "unat (pool_size p) \<le> 65536" and mm: "mm > 0" "mm \<noteq> ucast (max_memsize p)"
  shows "\<exists>s' t l. mempool_set_maxmem env s a mm = Some s' \<and> fld cfg_ht s' a = Some t \<and> addr_table t {a} \<and>
    fld cfg_largeht s' a = Some l \<and> large_table l {} \<and> fld pool_size s' a = Some (pool_size p)"
proof -
  have aN: "a \<noteq> NULL" using p(1) by (auto simp: pool_at_def split: if_splits)
  define m1 where "m1 = (ucast mm :: u56)"
  define m2 where "m2 = (if (ucast m1 :: u64) > MEMPOOL_MAX_TOTAL then ucast MEMPOOL_MAX_TOTAL else m1)"
  define m where "m = (if (ucast m2 :: u64) < ucast (pool_size p) then ucast (pool_size p) else m2)"
  define sm where "sm = (if (ucast (single_max p) :: u64) > ucast m then ucast m else single_max p)"
  have w: "unat (ucast x :: u64) = unat x" for x :: u56
  proof -
    have "unat x < 2 ^ LENGTH(56)" by (rule unsigned_less)
    then show ?thesis by (simp add: unsigned_ucast_eq take_bit_nat_eq_self)
  qed
  have m2: "unat m2 \<le> 2 ^ 35" using w [of m1]
    by (auto simp: m2_def MEMPOOL_MAX_TOTAL_def word_less_nat_alt linorder_not_less unsigned_ucast_eq take_bit_nat_eq_self)
  have pz: "unat (ucast (pool_size p) :: u56) = unat (pool_size p)" using z(2) by (simp add: unsigned_ucast_eq take_bit_nat_eq_self)
  have m: "unat m \<le> 2 ^ 35" "unat (pool_size p) \<le> unat m"
    using m2 z(2) w [of m2] pz by (auto simp: m_def word_less_nat_alt linorder_not_less)
  let ?p = "p\<lparr>max_memsize := m, single_max := sm\<rparr>"
  let ?s1 = "s\<lparr>pools := (pools s)(a \<mapsto> ?p)\<rparr>"
  have 1: "upd_pool s a (\<lambda>p. p\<lparr>max_memsize := m, single_max := sm\<rparr>) = Some ?s1" using p(1) by (simp add: upd_pool_def)
  have p1: "pool_at ?s1 a = Some ?p" using aN by (simp add: pool_at_def)
  obtain t l where r: "reset_tables env ?s1 a = upd_pool ?s1 a (\<lambda>p. p\<lparr>cfg_ht := Some t, cfg_largeht := Some l\<rparr>)"
      "addr_table (Some t) {a}" "large_table (Some l) {}"
  proof -
    have e: "addr_table (cfg_ht ?p) {}" "large_table (cfg_largeht ?p) {}" "small_tables ?s1 a"
      using p(2,3) by (simp_all add: addr_table_def large_table_def small_tables_def fld_pool [OF p1])
    have "larges ?s1 |` (- {}) = larges ?s1" by (simp add: restrict_map_def)
    then show ?thesis using that reset_tables_run [OF p1 e c a] m z(1) by auto
  qed
  let ?s2 = "?s1\<lparr>pools := (pools ?s1)(a \<mapsto> ?p\<lparr>cfg_ht := Some t, cfg_largeht := Some l\<rparr>)\<rparr>"
  have 2: "upd_pool ?s1 a (\<lambda>p. p\<lparr>cfg_ht := Some t, cfg_largeht := Some l\<rparr>) = Some ?s2" using p1 by (simp add: upd_pool_def)
  have "mempool_set_maxmem env s a mm = Some ?s2"
  proof -
    have "mempool_set_maxmem env s a mm = do { s \<leftarrow> upd_pool s a (\<lambda>p. p\<lparr>max_memsize := m, single_max := sm\<rparr>);
        if mm > 0 \<and> mm \<noteq> ucast (max_memsize p) then reset_tables env s a else Some s }"
      using aN p(1) unfolding mempool_set_maxmem_def Let_def m1_def m2_def m_def sm_def by simp
    then show ?thesis using mm 1 r(1) 2 by simp
  qed
  then show ?thesis using r(2,3) aN by (intro exI [of _ ?s2] exI [of _ "Some t"] exI [of _ "Some l"]) (simp add: fld_def pool_at_def)
qed

lemma init_extra_managed:
  assumes h: "heap_ok s D" and env: "malloc_ok env" "env_calloc env" and a: "env_malloc env s (init_size sz) = a" "a \<noteq> NULL" "a < 2 ^ 64"
    and z: "207 \<le> unat (init_size sz)" and mm: "mm > 0" "mm \<noteq> ucast (max_memsize (env_pool env))"
  shows "\<exists>s'. mempool_init_extra env s sz mm sm mf ms j arg = Some (s', a) \<and> heap_ok s' D \<and> managed s' a [] [] {} \<and>
    fld pool_size s' a = Some (init_size sz) \<and> fld max_searchpool s' a = Some ms"
proof -
  define p where "p = (env_pool env)\<lparr>pool_size := init_size sz, failed_memsize := drop_bit 2 (init_size sz), cfg_ht := None, cfg_largeht := None\<rparr>"
  define s0 where "s0 = s\<lparr>pools := (pools s)(a \<mapsto> p)\<rparr>"
  have p0: "pool_at s0 a = Some p" using a(2) by (simp add: s0_def pool_at_def)
  have pz: "cfg_ht p = None" "cfg_largeht p = None" "207 \<le> unat (pool_size p)" "unat (pool_size p) \<le> 65536" "mm \<noteq> ucast (max_memsize p)"
    using z init_size_le [of sz] mm(2) by (simp_all add: p_def)
  obtain s1 t l where 1: "mempool_set_maxmem env s0 a mm = Some s1" "fld cfg_ht s1 a = Some t" "addr_table t {a}"
      "fld cfg_largeht s1 a = Some l" "large_table l {}" "fld pool_size s1 a = Some (pool_size p)"
    using set_maxmem_run [OF p0 pz(1,2) env(2) a(3) pz(3,4) mm(1) pz(5)] by blast
  have "\<exists>s2. mempool_set_single_max s1 a sm = Some s2" using a(2) upd_some [OF 1(2)] by (simp add: mempool_set_single_max_def)
  then obtain s2 where 2: "mempool_set_single_max s1 a sm = Some s2" by blast
  have F2: "fld cfg_ht s2 = fld cfg_ht s1" "fld cfg_largeht s2 = fld cfg_largeht s1" "fld pool_size s2 = fld pool_size s1"
    using 2 a(2) by (auto simp: mempool_set_single_max_def intro!: fld_same)
  let ?f = "\<lambda>p. p\<lparr>max_freepool := ucast (if mf < MEMPOOL_FREEPOOL_MAX then mf else MEMPOOL_FREEPOOL_MAX),
              max_searchpool := ms, judge_alloc := j, judge_args := arg, pfree_count := 0, freepool := NULL\<rparr>"
  have "fld cfg_ht s2 a = Some t" using 1(2) F2 by simp
  then obtain s3 where 3: "upd_pool s2 a ?f = Some s3" by (rule updE)
  note F3 = fld_same [OF 3] and N3 = fld_set [OF 3, of max_searchpool ms, simplified] fld_set [OF 3, of freepool NULL, simplified]
  have z3: "fld pool_size s3 a = Some (pool_size p)" using 1(6) F2 by (simp add: F3)
  then obtain p3 where p3: "pool_at s3 a = Some p3" "pool_size p3 = pool_size p" by (rule fldE)
  have "\<exists>s4. init_mempool (env_rd env) s3 a = Some s4"
    using p3 pz(3) by (simp add: init_mempool_def Let_def upd_pool_def pool_at_def sizeof_mempool_def sizeof_realdata_def split: if_splits)
  then obtain s4 where 4: "init_mempool (env_rd env) s3 a = Some s4" by blast
  note F4 = fld_init [OF 4] and N4 = fld_init_busy [OF 4]
  let ?g = "\<lambda>p. p\<lparr>total_alloced := 0, total_leftsize := ucast (leftsize p), p_prev := NULL, p_next := NULL, pooltail := NULL\<rparr>"
  have "fld pool_size s4 a = Some (pool_size p)" using z3 by (simp add: F4)
  then obtain s5 where 5: "upd_pool s4 a ?g = Some s5" by (rule updE)
  note F5 = fld_same [OF 5] and N5 = fld_set [OF 5, of p_prev NULL, simplified] fld_set [OF 5, of p_next NULL, simplified] fld_set [OF 5, of pooltail NULL, simplified]
  have r: "mempool_init_extra env s sz mm sm mf ms j arg = Some (s5, a)"
    using a(1,2) z 1(1) 2 3 4 5 by (simp add: mempool_init_extra_def Let_def p_def [symmetric] s0_def [symmetric] sizeof_mempool_def)
  have "pool_lists s5 a [] []" using a(2) by (simp add: pool_lists_def F4 F5 N3 N5)
  moreover have "fld cfg_ht s5 a = Some t" "fld cfg_largeht s5 a = Some l" using 1 F2 by (simp_all add: F3 F4 F5)
  ultimately have "managed s5 a [] [] {}" using 1(3,5) by (simp add: managed_def)
  moreover have "fld pool_size s5 a = Some (init_size sz)" "fld max_searchpool s5 a = Some ms" using z3 by (simp_all add: F4 F5 N3 p_def)
  ultimately show ?thesis using r init_extra_keeps [OF r h env(1)] by (simp add: keeps_def)
qed

end
