(* ===== verification/MempoolProps.thy ===== *)
theory MempoolProps
  imports MempoolManaged
begin

text \<open>
  What the allocator of \<open>demo_mempool/mempool.c\<close> guarantees: live blocks never overlap, allocation and release keep all
  pools in order, bounded copies stay inside their block; and the search that does not end.
\<close>

section \<open>Live blocks\<close>

lemma heap_ok_live:
  assumes h: "heap_ok s D" and x: "x \<in> D a"
  obtains p as Ls where "pool_at s a = Some p" "pool_ok a p (rds s) as Ls" "set (Ls ! 5) = D a" "x \<in> set as"
proof -
  obtain p where p: "pool_at s a = Some p" by (rule heap_ok_rd [OF h x])
  obtain as Ls where ok: "pool_ok a p (rds s) as Ls" "set (Ls ! 5) = D a" by (rule heap_okD [OF h p])
  then have "x \<in> set as" using pool_ok_mem [OF ok(1), of 5 x] x by simp
  then show ?thesis using that p ok by blast
qed


lemma live_size: "heap_ok s D \<Longrightarrow> x \<in> D a \<Longrightarrow> 0 < bsz (rds s) x"
  by (erule (1) heap_ok_live) (use pool_ok_range in blast)


section \<open>The search that never ends\<close>




section \<open>Concrete pools\<close>

definition zero_rd :: realdata where
  "zero_rd = \<lparr>rd_offset = 0, rd_size = 0, rd_prev = 0, rd_next = 0, rd_realprev = 0, rd_realnext = 0, rd_used = 0, rd_status = 0\<rparr>"

definition zero_pool :: mempool where
  "zero_pool = \<lparr>freelist = [NULL, NULL, NULL, NULL, NULL], busylist = NULL, p_prev = NULL, p_next = NULL, cfg_ht = None, cfg_largeht = None,
     max_memsize = 0, max_freepool = 0, single_max = 0, max_searchpool = -1, pool_size = 4096, failed_memsize = 1024, judge_alloc = NULL,
     judge_args = NULL, freepool = NULL, pooltail = NULL, total_alloced = 0, total_leftsize = 3904, pfree_count = 0, leftsize = 0, failed = 0\<rparr>"

definition one_pool :: mpmem where
  "one_pool = \<lparr>pools = [1000 \<mapsto> zero_pool], rds = Map.empty, larges = Map.empty, ubytes = (\<lambda>_. 0)\<rparr>"

definition ready :: mpmem where
  "ready = the (init_mempool zero_rd one_pool 1000)"

definition one_malloc :: "mpmem \<Rightarrow> u32 \<Rightarrow> ptr" where
  "one_malloc s n = (if pools s = Map.empty then 5000 else NULL)"

lemma ready: "init_mempool zero_rd one_pool 1000 = Some ready"
  by (simp add: ready_def init_mempool_def one_pool_def zero_pool_def pool_at_def upd_pool_def sizeof_mempool_def sizeof_realdata_def Let_def)

lemma ready_pool: "pool_at ready 1000 = Some (zero_pool\<lparr>freelist := [NULL, NULL, NULL, NULL, 1192], leftsize := 3904\<rparr>)"
proof -
  have "replicate (MEMPOOL_FREELIST_SIZE - 1) NULL = [NULL, NULL, NULL, NULL]" by (simp add: MEMPOOL_FREELIST_SIZE_def numeral_eq_Suc)
  then show ?thesis
    by (simp add: ready_def init_mempool_def one_pool_def zero_pool_def pool_at_def upd_pool_def sizeof_mempool_def sizeof_realdata_def Let_def)
qed

lemma ready_ok: "heap_ok ready (\<lambda>_. {})"
proof -
  let ?e = "one_pool\<lparr>pools := Map.empty\<rparr>"
  have e: "pool_at ?e b = None" for b by (simp add: pool_at_def)
  have h: "heap_ok ?e (\<lambda>_. {})" by (simp add: heap_ok_def e)
  have "keeps (\<lambda>_. {}) ?e ready \<and> pool_at ready 1000 \<noteq> None"
    by (rule init_joins [OF h _ _ _ _ _ _ _ ready, where n = 4096 and p = zero_pool])
      (simp_all add: e one_pool_def pool_at_def zero_pool_def split: if_splits)
  then show ?thesis by (simp add: keeps_def)
qed

lemma ready_first: "\<exists>s rd. alloc_search zero_rd ready 1000 115 1000 0 = Some (s, 1000, rd) \<and> rd \<noteq> NULL \<and>
    heap_alloc ready (\<lambda>_. {}) 1000 115 rd s"
proof -
  let ?p = "zero_pool\<lparr>freelist := [NULL, NULL, NULL, NULL, 1192], leftsize := 3904\<rparr>"
  have g: "mempool_get_freelist ?p 115 = Some (1192, 4)"
    by (simp add: mempool_get_freelist_def get_freelist_loop.simps zero_pool_def)
  obtain s1 s2 rd where "alloc_first zero_rd ready 1000 115 = Some (s1, rd)" "rd \<noteq> NULL" "alloc_finish s1 1000 rd = Some s2"
      "heap_alloc ready (\<lambda>_. {}) 1000 (unat (115 :: u32)) rd s2"
    using take_first [OF ready_ok ready_pool, of 115 zero_rd] by (auto simp: zero_pool_def sizeof_realdata_def)
  then show ?thesis using g ready_pool by (subst alloc_search.simps) (simp add: zero_pool_def)
qed

lemma ready_alloc: "\<exists>s rd. alloc_realdata zero_rd ready 1000 1000 115 = Some (s, rd) \<and> rd \<noteq> NULL"
proof -
  obtain s rd where s: "alloc_search zero_rd ready 1000 115 1000 0 = Some (s, 1000, rd)" "rd \<noteq> NULL" "heap_alloc ready (\<lambda>_. {}) 1000 115 rd s"
    using ready_first by blast
  have h: "heap_ok s ((\<lambda>_. {})(1000 := insert rd {}))" and p: "pool_at s 1000 \<noteq> None" using s(3) by (simp_all add: heap_alloc_def)
  obtain q as Ls where "pool_ok 1000 q (rds s) as Ls" "rd \<in> set as"
    by (rule heap_ok_live [OF h, of rd 1000]) auto
  then have "rd_at s rd \<noteq> None" using s(2) tilesD(1) [of 1000 "rds s" _ as rd] by (auto simp: pool_ok_def rd_at_def placed_def)
  then show ?thesis using s(1,2) p unfolding alloc_realdata_def by (subst alloc_again.simps) (auto simp: upd_pool_def)
qed

section \<open>A pool to allocate from\<close>





text \<open>An allocator that never fails: it returns the address behind all pools.\<close>

definition top_malloc :: "mpmem \<Rightarrow> u32 \<Rightarrow> ptr" where
  "top_malloc s n = (if finite (dom (pools s))
     then Suc (Max (insert 0 ((\<lambda>b. b + unat (pool_size (the (pools s b)))) ` dom (pools s)))) else NULL)"

lemma upd_pool_finite: "upd_pool s a f = Some s' \<Longrightarrow> finite (dom (pools s)) \<Longrightarrow> finite (dom (pools s'))"
  by (auto simp: upd_pool_def split: bind_splits)

lemma ready_finite: "finite (dom (pools ready))"
  using ready unfolding init_mempool_def Let_def
  by (elim bindE) (erule upd_pool_finite, simp add: one_pool_def)

lemma top_malloc_above:
  assumes "finite (dom (pools s))" and "pools s b = Some q"
  shows "b + unat (pool_size q) < top_malloc s n"
proof -
  have "b + unat (pool_size q) \<in> (\<lambda>b. b + unat (pool_size (the (pools s b)))) ` dom (pools s)"
    using assms(2) by (intro image_eqI [of _ _ b]) auto
  then have "b + unat (pool_size q) \<le> Max (insert 0 ((\<lambda>b. b + unat (pool_size (the (pools s b)))) ` dom (pools s)))"
    using assms(1) by (intro Max_ge) auto
  then show ?thesis using assms(1) by (simp add: top_malloc_def)
qed

lemma top_malloc_ok:
  "malloc_ok \<lparr>env_malloc = top_malloc, env_calloc = c, env_pool = p, env_rd = r, env_judge = j\<rparr>"
  "finite (dom (pools s)) \<Longrightarrow> top_malloc s n \<noteq> NULL"
proof -
  show "finite (dom (pools s)) \<Longrightarrow> top_malloc s n \<noteq> NULL" by (simp add: top_malloc_def)
  show "malloc_ok \<lparr>env_malloc = top_malloc, env_calloc = c, env_pool = p, env_rd = r, env_judge = j\<rparr>"
    unfolding malloc_ok_def mp_env.simps
  proof (intro allI impI)
    fix s n assume m: "top_malloc s n \<noteq> NULL"
    then have fin: "finite (dom (pools s))" by (auto simp: top_malloc_def split: if_splits)
    have "pools s (top_malloc s n) = None" using top_malloc_above [OF fin, of "top_malloc s n" _ n] by (cases "pools s (top_malloc s n)") auto
    moreover have "b + unat (pool_size q) \<le> top_malloc s n" if "pool_at s b = Some q" for b q
      using top_malloc_above [OF fin, of b q n] that by (cases "b = NULL") (simp_all add: pool_at_def)
    ultimately show "pools s (top_malloc s n) = None \<and>
      (\<forall>b q. pool_at s b = Some q \<longrightarrow> top_malloc s n + unat n \<le> b \<or> b + unat (pool_size q) \<le> top_malloc s n)" by blast
  qed
qed


lemma ready_pools: "pools ready = [1000 \<mapsto> zero_pool\<lparr>freelist := [NULL, NULL, NULL, NULL, 1192], leftsize := 3904\<rparr>]"
proof -
  have "replicate (MEMPOOL_FREELIST_SIZE - 1) NULL = [NULL, NULL, NULL, NULL]" by (simp add: MEMPOOL_FREELIST_SIZE_def numeral_eq_Suc)
  then show ?thesis
    by (simp add: ready_def init_mempool_def one_pool_def zero_pool_def pool_at_def upd_pool_def sizeof_mempool_def sizeof_realdata_def Let_def)
qed

text \<open>A manager with one pool and memory to be had.\<close>

lemma pool_table_two:
  obtains ht :: mp_hash_table where "mp_inv ht" "mset (mp_elems ht) = {#1000, 6000#}" "mp_hashf ht = hash_memaddr" "mp_cmp ht = Some hash_memcmp"
    "num_buckets ht = 4"
proof -
  obtain t :: mp_hash_table where t: "mp_inv t" "mp_elems t = [1000]" "mp_hashf t = hash_memaddr" "mp_cmp t = Some hash_memcmp" "num_buckets t = 4"
      "num_elements t = 1" by (rule pool_table_of [of 1000 True]) auto
  obtain bs fs where R: "mp_rep t bs fs" using t(1) mp_inv_rep by blast
  have "num_elements t < num_buckets t" "\<not> (\<exists>x\<in>set (mp_elems t). same hash_memaddr (Some hash_memcmp) 6000 x)"
    using t by (simp_all add: pool_same)
  from pool.insert_ok [OF R t(3,4) _ this] t show ?thesis by (auto intro: that simp: add_mset_commute)
qed


text \<open>A manager with two pools, the second one with one block in use.\<close>

lemma ready_two:
  obtains s where "heap_ok s (\<lambda>_. {})" "pool_at s 1000 = Some (zero_pool\<lparr>freelist := [NULL, NULL, NULL, NULL, 1192], leftsize := 3904\<rparr>)"
    "pool_at s 6000 = Some (zero_pool\<lparr>freelist := [NULL, NULL, NULL, NULL, 6192], leftsize := 3904\<rparr>)"
proof -
  define s0 where "s0 = ready\<lparr>pools := (pools ready)(6000 \<mapsto> zero_pool)\<rparr>"
  define s where "s = the (init_mempool zero_rd s0 6000)"
  have rp: "replicate (MEMPOOL_FREELIST_SIZE - 1) NULL = [NULL, NULL, NULL, NULL]" by (simp add: MEMPOOL_FREELIST_SIZE_def numeral_eq_Suc)
  have i: "init_mempool zero_rd s0 6000 = Some s"
    by (simp add: s_def s0_def init_mempool_def zero_pool_def pool_at_def upd_pool_def sizeof_mempool_def sizeof_realdata_def Let_def)
  have ps: "pools s = (pools ready)(6000 \<mapsto> zero_pool\<lparr>freelist := [NULL, NULL, NULL, NULL, 6192], leftsize := 3904\<rparr>)"
    using rp by (simp add: s_def s0_def init_mempool_def zero_pool_def pool_at_def upd_pool_def sizeof_mempool_def sizeof_realdata_def Let_def)
  have "keeps (\<lambda>_. {}) ready s \<and> pool_at s 6000 \<noteq> None"
    by (rule init_joins [OF ready_ok _ _ _ _ _ _ _ i, where n = 4096 and p = zero_pool])
      (auto simp: s0_def ready_pools pool_at_def zero_pool_def split: if_splits)
  then have "heap_ok s (\<lambda>_. {})" by (simp add: keeps_def)
  then show ?thesis by (rule that) (simp_all add: pool_at_def ps ready_pools)
qed

lemma two_pools:
  obtains s rd where "heap_ok s ((\<lambda>_. {})(6000 := {rd}))" "managed s 1000 [6000] [] {}" "rd < 2 ^ 63" "small_tables s 1000"
    "fld pool_size s 1000 = Some 4096"
proof -
  obtain ht :: mp_hash_table where ht: "mp_inv ht" "mset (mp_elems ht) = {#1000, 6000#}" "mp_hashf ht = hash_memaddr" "mp_cmp ht = Some hash_memcmp"
    "num_buckets ht = 4" by (rule pool_table_two)
  have el: "set (mp_elems ht) = {1000, 6000}" using arg_cong [OF ht(2), of set_mset] by simp
  let ?q = "zero_pool\<lparr>freelist := [NULL, NULL, NULL, NULL, 6192], leftsize := 3904\<rparr>"
  obtain s0 where s0: "heap_ok s0 (\<lambda>_. {})" "pool_at s0 1000 = Some (zero_pool\<lparr>freelist := [NULL, NULL, NULL, NULL, 1192], leftsize := 3904\<rparr>)"
    "pool_at s0 6000 = Some ?q" by (rule ready_two)
  have b: "busylist ?q = NULL" "sizeof_realdata \<le> unat (115 :: u32)" "\<not> (ucast (leftsize ?q) :: u32) < 115"
    by (simp_all add: zero_pool_def sizeof_realdata_def)
  obtain s1 s2 rd where a: "alloc_first zero_rd s0 6000 115 = Some (s1, rd)" "alloc_finish s1 6000 rd = Some s2" "taken s0 s2 6000 rd"
    by (rule take_first_run [OF s0(1,3) b])
  have "heap_alloc s0 (\<lambda>_. {}) 6000 (unat (115 :: u32)) rd s2" using take_first [OF s0(1,3) b, of zero_rd] a(1,2) by auto
  then have h2: "heap_ok s2 ((\<lambda>_. {})(6000 := {rd}))" by (simp add: heap_alloc_def)
  have l: "same_links s0 s2 6000" using a(3) by (simp add: taken_def)
  have z2: "fld pool_size s2 1000 = Some 4096" "fld pool_size s2 6000 = Some 4096"
    by (simp_all add: same_links_fld [OF l] fld_pool [OF s0(2)] fld_pool [OF s0(3)] zero_pool_def)
  let ?f = "\<lambda>p :: mempool. p\<lparr>p_prev := NULL, p_next := 6000, pooltail := 6000, freepool := NULL, cfg_ht := Some ht, cfg_largeht := None\<rparr>"
  obtain s3 where 3: "upd_pool s2 1000 ?f = Some s3" by (rule updE [OF z2(1)])
  note F3 = fld_same [OF 3] and N3 = fld_set [OF 3, of p_prev NULL, simplified] fld_set [OF 3, of p_next 6000, simplified]
    fld_set [OF 3, of pooltail 6000, simplified] fld_set [OF 3, of freepool NULL, simplified]
    fld_set [OF 3, of cfg_ht "Some ht", simplified] fld_set [OF 3, of cfg_largeht None, simplified]
  have z3: "fld pool_size s3 6000 = Some 4096" using z2 by (simp add: F3)
  let ?g = "\<lambda>p :: mempool. p\<lparr>p_prev := 1000, p_next := NULL\<rparr>"
  obtain s4 where 4: "upd_pool s3 6000 ?g = Some s4" by (rule updE [OF z3])
  note F4 = fld_same [OF 4] and N4 = fld_set [OF 4, of p_prev 1000, simplified] fld_set [OF 4, of p_next NULL, simplified]
  have h3: "heap_ok s3 ((\<lambda>_. {})(6000 := {rd}))" by (rule heap_ok_core(1) [OF h2 3]) (simp add: same_core_def)
  have h4: "heap_ok s4 ((\<lambda>_. {})(6000 := {rd}))" by (rule heap_ok_core(1) [OF h3 4]) (simp add: same_core_def)
  have "managed s4 1000 [6000] [] {}"
    using ht el z2 by (auto simp: managed_def pool_lists_def large_table_def addr_table_def F3 F4 N3 N4)
  moreover have "small_tables s4 1000" using ht(5) by (simp add: small_tables_def F3 F4 N3 N4)
  moreover have "rd < 2 ^ 63"
    using a(3) s0(3) by (auto simp: taken_def zero_pool_def)
  moreover have "fld pool_size s4 1000 = Some 4096" using z2 by (simp add: F3 F4)
  ultimately show ?thesis using that h4 by blast
qed

section \<open>Properties\<close>



text \<open>C2: \<open>pfree\<close> with the address of a live block of any pool of a manager always returns 0.  It finds the pool of the block
  through the hash table, releases exactly this block, in each case (coalescing with the free neighbours, a pool with nothing
  free, the last block of a pool), all pools satisfy their invariant again and the other live blocks keep their sizes.  The
  manager stays in order (the doubly linked list of the pools with its tail, the pools kept for later, both hash tables): a pool behind the base
  pool that loses its last block leaves the list and the table, and is kept for later or goes back to the system; otherwise
  the pools stay, the pool of the block perhaps at the head of the list.\<close>

theorem pfree_releases:
  assumes "heap_ok s D" and "rd \<in> D a" and "rd < 2 ^ 63" and "managed s b ps fs L" and "a \<in> set (b # ps)"
    and "rd + sizeof_realdata - sizeof_large \<notin> L"
  shows "\<exists>s' ps' fs'. pfree env s b (rd + sizeof_realdata) = Some (s', 0) \<and> heap_ok s' (D(a := D a - {rd})) \<and>
    (\<forall>c. \<forall>x\<in>D c. x \<noteq> rd \<longrightarrow> bsz (rds s') x = bsz (rds s) x) \<and> managed s' b ps' fs' L \<and>
    (if a \<noteq> b \<and> D a = {rd} then ps' = remove1 a ps \<and> fs' \<in> {fs, a # fs} else ps' \<in> {ps, a # remove1 a ps} \<and> fs' = fs)"
  using pfree_managed [OF assms, of env] unfolding heap_free_def by metis

theorem pfree_releases_witness:
  "\<exists>s rd s' fs'. heap_ok s ((\<lambda>_. {})(6000 := {rd})) \<and> managed s 1000 [6000] [] {} \<and>
    pfree \<lparr>env_malloc = one_malloc, env_calloc = True, env_pool = zero_pool, env_rd = zero_rd,
      env_judge = (\<lambda>_ _ _ _ _. 1)\<rparr> s 1000 (rd + sizeof_realdata) = Some (s', 0) \<and> managed s' 1000 [] fs' {}"
proof -
  let ?env = "\<lparr>env_malloc = one_malloc, env_calloc = True, env_pool = zero_pool, env_rd = zero_rd, env_judge = (\<lambda>_ _ _ _ _. 1)\<rparr>"
  obtain s rd where s: "heap_ok s ((\<lambda>_. {})(6000 := {rd}))" "managed s 1000 [6000] [] {}" "rd < 2 ^ 63" by (rule two_pools) blast
  have m: "rd \<in> ((\<lambda>_. {})(6000 := {rd})) 6000" "6000 \<in> set [1000, 6000 :: ptr]" "rd + sizeof_realdata - sizeof_large \<notin> {}" by simp_all
  obtain s' ps' fs' where r: "pfree ?env s 1000 (rd + sizeof_realdata) = Some (s', 0)" "managed s' 1000 ps' fs' {}"
      "if (6000 :: ptr) \<noteq> 1000 \<and> ((\<lambda>_ :: ptr. {})(6000 := {rd})) 6000 = {rd} then ps' = remove1 6000 [6000] \<and> fs' \<in> {[], [6000]}
       else ps' \<in> {[6000], 6000 # remove1 6000 [6000]} \<and> fs' = []"
    using pfree_releases [OF s(1) m(1) s(3,2) m(2,3), of ?env] by blast
  then have "ps' = []" by simp
  then show ?thesis using s r(1,2) by blast
qed

text \<open>The search of \<open>__alloc_realdata\<close> over the list of pools returns when no pool on it has reached the number of
  failures at which pools are moved to the tail, with the pools in order.\<close>

theorem alloc_search_returns:
  assumes "heap_ok s D" and "chain (p_nxt s) a ps" and "\<forall>x\<in>set ps. \<forall>p. pools s x = Some p \<longrightarrow> failed p < MEMPOOL_FAILED_SKIP"
    and "pool_at s base \<noteq> None" and "sizeof_realdata \<le> unat sz"
  shows "\<exists>s' t rd. alloc_search junk s base sz a n = Some (s', t, rd) \<and>
    (if rd = NULL then heap_ok s' D else heap_ok s' (D(t := insert rd (D t))))"
proof -
  obtain r where r: "alloc_search junk s base sz a n = Some r"
    using search_run [OF assms(1-4) subset_refl assms(5), of junk n] unfolding search_ends_def by blast
  obtain s' t rd where "r = (s', t, rd)" by (cases r)
  with alloc_search_post [OF r assms(1,5)] r show ?thesis by (auto simp: search_post_def heap_alloc_def split: if_splits)
qed

theorem alloc_search_returns_witness:
  "\<exists>s' t rd. alloc_search zero_rd ready 1000 115 1000 0 = Some (s', t, rd)"
proof -
  have "chain (p_nxt ready) 1000 [1000]" using ready_pool by (simp add: p_nxt_def pool_at_def zero_pool_def)
  moreover have "\<forall>x\<in>set [1000]. \<forall>p. pools ready x = Some p \<longrightarrow> failed p < MEMPOOL_FAILED_SKIP"
    using ready_pool by (simp add: pool_at_def zero_pool_def MEMPOOL_FAILED_SKIP_def)
  ultimately show ?thesis
    using alloc_search_returns [OF ready_ok, of 1000 "[1000]" 1000 115 zero_rd 0] ready_pool by (auto simp: sizeof_realdata_def)
qed





text \<open>C4: \<open>mempool_init_extra\<close> with a limit for the memory gives a manager in order: one pool, in its own table, with nothing in use, whose
  memory overlaps no other pool.  The pool must be big enough for its header and one block, and the limit must not be the
  value that the uninitialised memory happens to hold: the function compares the two and makes the tables only when they differ.\<close>

theorem mempool_init_manages:
  assumes "heap_ok s D" and "malloc_ok env" and "env_calloc env" and "env_malloc env s (init_size sz) = a" and "a \<noteq> NULL" and "a < 2 ^ 64"
    and "sizeof_mempool + sizeof_realdata \<le> unat (init_size sz)" and "mm > 0" and "mm \<noteq> ucast (max_memsize (env_pool env))"
  shows "\<exists>s'. mempool_init_extra env s sz mm sm mf ms j arg = Some (s', a) \<and> heap_ok s' D \<and> managed s' a [] [] {}"
  using init_extra_managed [OF assms(1-6) _ assms(8,9), of sm mf ms j arg] assms(7) by (auto simp: sizeof_mempool_def sizeof_realdata_def)

theorem mempool_init_manages_witness:
  "\<exists>s'. mempool_init_extra \<lparr>env_malloc = top_malloc, env_calloc = True, env_pool = zero_pool, env_rd = zero_rd,
      env_judge = (\<lambda>_ _ _ _ _. 1)\<rparr> (one_pool\<lparr>pools := Map.empty\<rparr>) 4000 1048576 1000 2 (-1) NULL NULL = Some (s', 1) \<and> managed s' 1 [] [] {}"
proof -
  let ?env = "\<lparr>env_malloc = top_malloc, env_calloc = True, env_pool = zero_pool, env_rd = zero_rd, env_judge = (\<lambda>_ _ _ _ _. 1)\<rparr>"
  let ?s = "one_pool\<lparr>pools := Map.empty\<rparr>"
  have h: "heap_ok ?s (\<lambda>_. {})" by (simp add: heap_ok_def pool_at_def)
  have z: "init_size 4000 = 4000" by (simp add: init_size_def MEMPOOL_MEMALIGN_def MEMPOOL_MAXSIZE_def)
  have a: "env_malloc ?env ?s (init_size 4000) = 1" by (simp add: top_malloc_def)
  have x: "env_calloc ?env" "(1048576 :: u64) > 0" "(1048576 :: u64) \<noteq> ucast (max_memsize (env_pool ?env))" "sizeof_mempool + sizeof_realdata \<le> unat (init_size 4000)"
    by (simp_all add: zero_pool_def z sizeof_mempool_def sizeof_realdata_def)
  show ?thesis using mempool_init_manages [OF h top_malloc_ok(1) x(1) a _ _ x(4,2,3), of 1000 2 "-1" NULL NULL] by auto
qed

text \<open>C5: \<open>mempool_destroy\<close> on a manager in order returns and frees exactly its memory, each piece once: the pools in use, the pools
  kept for later and the large blocks; no other pool changes.\<close>

theorem mempool_destroy_frees_all:
  assumes "managed s b ps fs L" and "small_tables s b"
  shows "mempool_destroy s b = Some (s\<lparr>pools := pools s |` (- set (b # ps @ fs)), larges := larges s |` (- L)\<rparr>)"
  by (rule mempool_destroy_managed [OF assms])

theorem mempool_destroy_frees_all_witness:
  "\<exists>s s'. pool_at s 1000 \<noteq> None \<and> pool_at s 6000 \<noteq> None \<and> mempool_destroy s 1000 = Some s' \<and> pool_at s' 1000 = None \<and> pool_at s' 6000 = None"
proof -
  obtain s rd where s: "heap_ok s ((\<lambda>_. {})(6000 := {rd}))" "managed s 1000 [6000] [] {}" "rd < 2 ^ 63" "small_tables s 1000"
    by (rule two_pools) blast
  have "pool_at s 1000 \<noteq> None \<and> pool_at s 6000 \<noteq> None"
    using s(2) pool_lists_nodes [of s 1000 "[6000]" "[]" 1000] pool_lists_nodes [of s 1000 "[6000]" "[]" 6000] by (auto simp: managed_def)
  then show ?thesis using mempool_destroy_frees_all [OF s(2,4)]
    by (intro exI [of _ s] exI [of _ "s\<lparr>pools := pools s |` (- set (1000 # [6000] @ [])), larges := larges s |` (- {})\<rparr>"]) (simp add: pool_at_def)
qed

text \<open>C38: A new limit for the memory of a manager in use replaces both tables: all live large blocks are freed, and the new table of
  pools holds the base pool only, so that \<open>pfree\<close> does not find the blocks of the other pools any more.\<close>

theorem reset_tables_drops_live_blocks:
  assumes "managed s b ps fs L" and "small_tables s b" and "env_calloc env" and "b < 2 ^ 64" and "pool_at s b = Some p"
    and "unat (max_memsize p) \<le> 2 ^ 35" and "unat (pool_size p) \<le> unat (max_memsize p)" and "207 \<le> unat (pool_size p)"
  shows "\<exists>s' t. reset_tables env s b = Some s' \<and> larges s' = larges s |` (- L) \<and> fld cfg_ht s' b = Some t \<and> addr_table t {b}"
proof -
  have t: "addr_table (cfg_ht p) (set (b # ps))" "large_table (cfg_largeht p) L"
    using assms(1) by (auto simp: managed_def fld_pool [OF assms(5)])
  obtain t l where r: "reset_tables env s b = upd_pool (s\<lparr>larges := larges s |` (- L)\<rparr>) b (\<lambda>p. p\<lparr>cfg_ht := Some t, cfg_largeht := Some l\<rparr>)"
      "addr_table (Some t) {b}" using reset_tables_run [OF assms(5) t assms(2-4,6-8)] by blast
  then show ?thesis using assms(5) by (auto simp: upd_pool_def pool_at_def fld_def split: if_splits)
qed

theorem reset_tables_drops_live_blocks_witness:
  "\<exists>s s' t. managed s 1000 [6000] [] {} \<and> reset_tables \<lparr>env_malloc = top_malloc, env_calloc = True, env_pool = zero_pool, env_rd = zero_rd,
      env_judge = (\<lambda>_ _ _ _ _. 1)\<rparr> s 1000 = Some s' \<and> fld cfg_ht s' 1000 = Some t \<and> addr_table t {1000}"
proof -
  let ?env = "\<lparr>env_malloc = top_malloc, env_calloc = True, env_pool = zero_pool, env_rd = zero_rd, env_judge = (\<lambda>_ _ _ _ _. 1)\<rparr>"
  obtain s0 rd where s0: "heap_ok s0 ((\<lambda>_. {})(6000 := {rd}))" "managed s0 1000 [6000] [] {}" "rd < 2 ^ 63" "small_tables s0 1000"
      "fld pool_size s0 1000 = Some 4096" by (rule two_pools)
  obtain s where 1: "upd_pool s0 1000 (\<lambda>p. p\<lparr>max_memsize := 1048576\<rparr>) = Some s" by (rule updE [OF s0(5)])
  note F = fld_same [OF 1] and N = fld_set [OF 1, of max_memsize 1048576, simplified]
  have M: "managed s 1000 [6000] [] {}"
    by (rule managed_links [OF s0(2) upd_same_links [OF 1, of 1000]]) (simp_all add: links_def)
  have st: "small_tables s 1000" using s0(4) by (simp add: small_tables_def F)
  obtain p where p: "pool_at s 1000 = Some p" "max_memsize p = 1048576" by (rule fldE [of max_memsize s 1000 1048576]) (simp_all add: N)
  have "fld pool_size s 1000 = Some 4096" using s0(5) by (simp add: F)
  then have z: "pool_size p = 4096" by (simp add: fld_pool [OF p(1)])
  show ?thesis using reset_tables_drops_live_blocks [OF M st _ _ p(1), of ?env] p(2) z M by auto
qed

text \<open>A pool made by \<open>mempool_init_extra\<close> joins the heap: with a \<open>malloc\<close> that returns memory no pool uses, all pools
  satisfy their invariant and no live block changes.\<close>

theorem mempool_init_extra_joins:
  assumes "malloc_ok env" and "heap_ok s D" and "mempool_init_extra env s sz mm sm mf ms j arg = Some (s', pool)"
  shows "heap_ok s' D \<and> (\<forall>b. \<forall>x\<in>D b. bsz (rds s') x = bsz (rds s) x) \<and> (pool \<noteq> NULL \<longrightarrow> pool_at s' pool \<noteq> None)"
  using init_extra_keeps [OF assms(3,2,1)] by (simp add: keeps_def)

theorem mempool_init_extra_joins_witness:
  "\<exists>s' pool. mempool_init_extra \<lparr>env_malloc = one_malloc, env_calloc = True, env_pool = zero_pool, env_rd = zero_rd,
      env_judge = (\<lambda>_ _ _ _ _. 1)\<rparr> (one_pool\<lparr>pools := Map.empty\<rparr>) 4000 0 0 0 (-1) NULL NULL = Some (s', pool) \<and> heap_ok s' (\<lambda>_. {})"
proof -
  let ?env = "\<lparr>env_malloc = one_malloc, env_calloc = True, env_pool = zero_pool, env_rd = zero_rd, env_judge = (\<lambda>_ _ _ _ _. 1)\<rparr>"
  have m: "malloc_ok ?env" by (simp add: malloc_ok_def one_malloc_def pool_at_def)
  have h: "heap_ok (one_pool\<lparr>pools := Map.empty\<rparr>) (\<lambda>_. {})" by (simp add: heap_ok_def pool_at_def)
  obtain s' pool where r: "mempool_init_extra ?env (one_pool\<lparr>pools := Map.empty\<rparr>) 4000 0 0 0 (-1) NULL NULL = Some (s', pool)"
    by (simp add: mempool_init_extra_def one_malloc_def mempool_set_maxmem_def mempool_set_single_max_def init_mempool_def
        upd_pool_def pool_at_def sizeof_mempool_def sizeof_realdata_def Let_def init_size_def MEMPOOL_MEMALIGN_def MEMPOOL_MAXSIZE_def
        mempool_getpagesize_def)
  then show ?thesis using mempool_init_extra_joins [OF m h r] by blast
qed

text \<open>C39: \<open>pmemcpy_extra\<close> into a pool block never writes outside the free part of its data and keeps \<open>used\<close> within
  the size of the block, for every length, also one that does not fit.\<close>

theorem pmemcpy_extra_bounds:
  assumes "pmemcpy_extra s pool dest src n = Some (s', r)" and "check_large_in_pool s pool (dest - sizeof_large) = Some NULL"
    and "rds s (dest - sizeof_realdata) = Some d" and "unat (rd_used d) + sizeof_realdata \<le> unat (rd_size d)"
  shows "\<exists>d'. rds s' (dest - sizeof_realdata) = Some d' \<and> rd_size d' = rd_size d \<and> unat (rd_used d') + sizeof_realdata \<le> unat (rd_size d) \<and>
    (\<forall>x. x < dest + unat (rd_used d) \<or> dest - sizeof_realdata + unat (rd_size d) \<le> x \<longrightarrow> ubytes s' x = ubytes s x)"
proof -
  have ds: "sizeof_realdata \<le> dest" using assms(1) by (auto simp: pmemcpy_extra_def split: if_splits)
  let ?left = "ucast (rd_size d) - of_nat sizeof_realdata - ucast (rd_used d) :: u32"
  have left: "unat ?left = unat (rd_size d) - sizeof_realdata - unat (rd_used d)"
    using assms(4) by (simp add: unat_sub_32 sizeof_realdata_def)
  have big: "dest - sizeof_large \<noteq> NULL" using ds by (simp add: sizeof_realdata_def sizeof_large_def)
  consider "s' = s" | s1 k where "pmemcpy0 s dest (ucast (rd_size d) - of_nat sizeof_realdata) (ucast (rd_used d)) src n = Some (s1, k)"
        "(if k > 0 then upd_rd s1 (dest - sizeof_realdata) (\<lambda>d. d\<lparr>rd_used := rd_used d + of_int k\<rparr>) else Some s1) = Some s'"
    using assms(1-3) big ds by (auto simp: pmemcpy_extra_def rd_at_def Let_def elim!: bindE split: if_splits)
  then show ?thesis
  proof cases
    case 1
    then show ?thesis using assms(3,4) by auto
  next
    case (2 s1 k)
    consider "s1 = s" "k < 0" | "n \<le> ?left" "s1 = mem_copy s (dest + unat (rd_used d)) src (unat n)" "k = sint n"
      using 2(1) by (auto simp: pmemcpy0_def Let_def split: if_splits)
    then show ?thesis
    proof cases
      case 1
      then show ?thesis using 2(2) assms(3,4) by auto
    next
      case c: 2
      have n: "unat n + unat (rd_used d) + sizeof_realdata \<le> unat (rd_size d)" using c(1) left assms(4) by (simp add: word_le_nat_alt)
      have rd1: "rds s1 (dest - sizeof_realdata) = Some d" using c(2) assms(3) by (simp add: mem_copy_def)
      have ub: "ubytes s1 x = ubytes s x" if "x < dest + unat (rd_used d) \<or> dest - sizeof_realdata + unat (rd_size d) \<le> x" for x
        using that c(2) n ds by (auto simp: mem_copy_def)
      show ?thesis
      proof (cases "k > 0")
        case False
        then show ?thesis using 2(2) rd1 ub assms(4) by auto
      next
        case True
        have "unat (rd_used d + of_int k) = unat (rd_used d) + unat n"
        proof -
          have nl: "unat n < 65536" using n unat_u16 [of "rd_size d"] by simp
          then have "k = int (unat n)" unfolding c(3) by (intro sint_small) simp
          then show ?thesis using n nl unat_u16 [of "rd_size d"] by (simp add: unat_word_ariths unat_ucast_32_16)
        qed
        then show ?thesis using 2(2) True rd1 ub n by (auto simp: upd_rd_def rd_at_def split: if_splits)
      qed
    qed
  qed
qed

theorem pmemcpy_extra_bounds_witness:
  "\<exists>s' r d'. pmemcpy_extra (one_pool\<lparr>rds := [1192 \<mapsto> zero_rd\<lparr>rd_size := 100\<rparr>]\<rparr>) NULL 1207 8000 10 = Some (s', r) \<and>
    rds s' 1192 = Some d' \<and> rd_used d' = 10 \<and> unat (rd_used d') + sizeof_realdata \<le> 100"
proof -
  let ?s = "one_pool\<lparr>rds := [1192 \<mapsto> zero_rd\<lparr>rd_size := 100\<rparr>]\<rparr>"
  let ?t = "mem_copy ?s 1207 8000 10\<lparr>rds := [1192 \<mapsto> zero_rd\<lparr>rd_size := 100, rd_used := 10\<rparr>]\<rparr>"
  have c: "check_large_in_pool ?s NULL (1207 - sizeof_large) = Some NULL"
    by (simp add: check_large_in_pool_def read_large_def large_view_def sizeof_large_def sizeof_realdata_def zero_rd_def one_pool_def
        le32_def MEMPOOL_LARGEFLAG_def)
  have r: "pmemcpy_extra ?s NULL 1207 8000 10 = Some (?t, 1207)"
    using c by (simp add: pmemcpy_extra_def pmemcpy0_def rd_at_def upd_rd_def mem_copy_def sizeof_large_def sizeof_realdata_def
        zero_rd_def one_pool_def Let_def)
  show ?thesis
    using pmemcpy_extra_bounds [OF r c, of "zero_rd\<lparr>rd_size := 100\<rparr>"] r by (simp add: sizeof_realdata_def zero_rd_def)
qed

end
