(* ===== verification/Cjson.thy ===== *)
theory Cjson
  imports Chains CText
begin

text \<open>
  The JSON library \<open>demo_json/cJSON.c\<close>.  A C string is the list of its characters before the
  terminator, and a pointer into a string is the rest from there on: \<open>cur\<close> reads the character,
  \<open>adv\<close> moves the pointer and is \<open>None\<close> when it would pass the terminator.  Nodes live in a heap;
  the owned strings of a node are values.  Double arithmetic, \<open>pow\<close> and the \<open>%f\<close> family of \<open>printf\<close> are the
  fields of the record \<open>fpu\<close>; where the next node is allocated and which string allocations succeed
  are fields of \<open>jenv\<close>.  A function that returns a pointer has \<open>None\<close> for undefined behaviour and \<open>Some NULL\<close>
  or \<open>Some None\<close> for the null pointer.
\<close>

section \<open>Characters and strings\<close>

definition cur :: "cstr \<Rightarrow> char" where
  "cur s = (case s of [] \<Rightarrow> CHR 0x00 | c # _ \<Rightarrow> c)"

definition adv :: "nat \<Rightarrow> cstr \<Rightarrow> cstr option" where
  "adv n s = (if n \<le> length s then Some (drop n s) else None)"

definition peek :: "nat \<Rightarrow> cstr \<Rightarrow> char option" where
  "peek n s = map_option cur (adv n s)"

definition tolower :: "char \<Rightarrow> char" where
  "tolower c = (if code CHR ''A'' \<le> code c \<and> code c \<le> code CHR ''Z'' then char_of (code c + 32) else c)"

definition strncmp_eq :: "cstr \<Rightarrow> cstr \<Rightarrow> bool" where
  "strncmp_eq s lit \<longleftrightarrow> take (length lit) s = lit"

function casecmp_loop :: "cstr \<Rightarrow> cstr \<Rightarrow> int" where
  "casecmp_loop s1 s2 =
     (if tolower (cur s1) = tolower (cur s2)
      then if s1 = [] then 0 else casecmp_loop (tl s1) (tl s2)
      else int (code (tolower (cur s1))) - int (code (tolower (cur s2))))"
  by auto
termination by (relation "measure (\<lambda>(s1, s2). length s1)") auto

declare casecmp_loop.simps [simp del]

definition cJSON_strcasecmp :: "cstr option \<Rightarrow> cstr option \<Rightarrow> int" where
  "cJSON_strcasecmp s1 s2 = (case s1 of
      None \<Rightarrow> if s1 = s2 then 0 else 1
    | Some a \<Rightarrow> (case s2 of None \<Rightarrow> 1 | Some b \<Rightarrow> casecmp_loop a b))"

fun skip :: "cstr \<Rightarrow> cstr" where
  "skip [] = []"
| "skip (c # r) = (if code c \<le> 32 then skip r else c # r)"

section \<open>Nodes\<close>

record 'd fpu =
  fp_of_int :: "int \<Rightarrow> 'd"
  fp_lit :: "int \<Rightarrow> int \<Rightarrow> 'd"
  fp_add :: "'d \<Rightarrow> 'd \<Rightarrow> 'd"
  fp_sub :: "'d \<Rightarrow> 'd \<Rightarrow> 'd"
  fp_mul :: "'d \<Rightarrow> 'd \<Rightarrow> 'd"
  fp_abs :: "'d \<Rightarrow> 'd"
  fp_floor :: "'d \<Rightarrow> 'd"
  fp_le :: "'d \<Rightarrow> 'd \<Rightarrow> bool"
  fp_lt :: "'d \<Rightarrow> 'd \<Rightarrow> bool"
  fp_pow :: "'d \<Rightarrow> 'd \<Rightarrow> 'd"
  fp_to_int :: "'d \<Rightarrow> int"
  fp_eps :: 'd
  fp_show0 :: "'d \<Rightarrow> cstr"
  fp_showe :: "'d \<Rightarrow> cstr"
  fp_showf :: "'d \<Rightarrow> cstr"

record 'd cJSON =
  j_next :: ptr
  j_prev :: ptr
  j_child :: ptr
  j_type :: int
  j_valuestring :: "cstr option"
  j_valueint :: int
  j_valuedouble :: 'd
  j_string :: "cstr option"

record 'd jst =
  jheap :: "ptr \<Rightarrow> 'd cJSON option"
  jep :: "cstr option"

record 'd jenv =
  jf :: "'d fpu"
  jmalloc :: "(ptr \<Rightarrow> 'd cJSON option) \<Rightarrow> ptr"
  jstr_ok :: "nat \<Rightarrow> bool"

definition cJSON_False :: int where "cJSON_False = 0"
definition cJSON_True :: int where "cJSON_True = 1"
definition cJSON_NULL :: int where "cJSON_NULL = 2"
definition cJSON_Number :: int where "cJSON_Number = 3"
definition cJSON_String :: int where "cJSON_String = 4"
definition cJSON_Array :: int where "cJSON_Array = 5"
definition cJSON_Object :: int where "cJSON_Object = 6"
definition cJSON_IsReference :: int where "cJSON_IsReference = 256"

definition is_reference :: "int \<Rightarrow> bool" where
  "is_reference t \<longleftrightarrow> t AND cJSON_IsReference \<noteq> 0"

definition jat :: "'d jst \<Rightarrow> ptr \<Rightarrow> 'd cJSON option" where
  "jat s p = (if p = NULL then None else jheap s p)"

definition jupd :: "'d jst \<Rightarrow> ptr \<Rightarrow> ('d cJSON \<Rightarrow> 'd cJSON) \<Rightarrow> 'd jst option" where
  "jupd s p f = do { n \<leftarrow> jat s p; Some (s\<lparr>jheap := (jheap s)(p \<mapsto> f n)\<rparr>) }"

definition jfree :: "'d jst \<Rightarrow> ptr \<Rightarrow> 'd jst option" where
  "jfree s p = do { _ \<leftarrow> jat s p; Some (s\<lparr>jheap := (jheap s)(p := None)\<rparr>) }"

definition cJSON_GetErrorPtr :: "'d jst \<Rightarrow> cstr option" where
  "cJSON_GetErrorPtr s = jep s"

definition cJSON_strdup :: "'d jenv \<Rightarrow> cstr \<Rightarrow> cstr option" where
  "cJSON_strdup env str = (if jstr_ok env (length str + 1) then Some str else None)"

definition cJSON_New_Item :: "'d jenv \<Rightarrow> 'd jst \<Rightarrow> 'd jst \<times> ptr" where
  "cJSON_New_Item env s =
     (let node = jmalloc env (jheap s)
      in if node = NULL then (s, NULL)
         else (s\<lparr>jheap := (jheap s)(node \<mapsto> \<lparr>j_next = NULL, j_prev = NULL, j_child = NULL, j_type = 0,
                 j_valuestring = None, j_valueint = 0, j_valuedouble = fp_of_int (jf env) 0, j_string = None\<rparr>)\<rparr>, node))"

partial_function (option) cJSON_Delete :: "'d jst \<Rightarrow> ptr \<Rightarrow> 'd jst option" where
  "cJSON_Delete s c =
     (if c = NULL then Some s
      else do {
        n \<leftarrow> jat s c;
        s \<leftarrow> (if \<not> is_reference (j_type n) \<and> j_child n \<noteq> NULL then cJSON_Delete s (j_child n) else Some s);
        s \<leftarrow> jfree s c;
        cJSON_Delete s (j_next n) })"

section \<open>Numbers\<close>

fun digits_loop :: "'d fpu \<Rightarrow> 'd \<Rightarrow> cstr \<Rightarrow> 'd \<times> cstr" where
  "digits_loop f n [] = (n, [])"
| "digits_loop f n (c # r) =
     (if is_digit c
      then digits_loop f (fp_add f (fp_mul f n (fp_of_int f 10)) (fp_of_int f (int (code c) - int (code CHR ''0'')))) r
      else (n, c # r))"

fun frac_loop :: "'d fpu \<Rightarrow> 'd \<Rightarrow> 'd \<Rightarrow> cstr \<Rightarrow> 'd \<times> 'd \<times> cstr" where
  "frac_loop f n scale [] = (n, scale, [])"
| "frac_loop f n scale (c # r) =
     (if is_digit c
      then frac_loop f (fp_add f (fp_mul f n (fp_of_int f 10)) (fp_of_int f (int (code c) - int (code CHR ''0''))))
             (fp_sub f scale (fp_of_int f 1)) r
      else (n, scale, c # r))"

text \<open>The exponent is an \<open>int\<close>; its overflow is undefined.\<close>

fun exp_loop :: "int \<Rightarrow> cstr \<Rightarrow> (int \<times> cstr) option" where
  "exp_loop subscale [] = Some (subscale, [])"
| "exp_loop subscale (c # r) =
     (if is_digit c then do {
        let v = subscale * 10 + (int (code c) - int (code CHR ''0''));
        ensure (v < 2 ^ 31);
        exp_loop v r }
      else Some (subscale, c # r))"

text \<open>The number and the rest of the text; the assignments to the item are in \<open>parse_number\<close>.\<close>

definition scan_number :: "'d fpu \<Rightarrow> cstr \<Rightarrow> ('d \<times> cstr) option" where
  "scan_number f num = do {
     let (sign, num) = (if cur num = CHR ''-'' then (-1, tl num) else (1 :: int, num));
     let num = (if cur num = CHR ''0'' then tl num else num);
     let (n, num) = (if is_digit (cur num) \<and> cur num \<noteq> CHR ''0'' then digits_loop f (fp_of_int f 0) num
                     else (fp_of_int f 0, num));
     let (n, scale, num) =
       (if cur num = CHR ''.'' \<and> is_digit (cur (tl num)) then frac_loop f n (fp_of_int f 0) (tl num)
        else (n, fp_of_int f 0, num));
     (subscale, signsubscale, num) \<leftarrow>
       (if cur num = CHR ''e'' \<or> cur num = CHR ''E'' then do {
          let num = tl num;
          let (signsubscale, num) = (if cur num = CHR ''+'' then (1 :: int, tl num)
                                     else if cur num = CHR ''-'' then (-1, tl num) else (1, num));
          (subscale, num) \<leftarrow> exp_loop 0 num;
          Some (subscale, signsubscale, num) }
        else Some (0, 1, num));
     let n = fp_mul f (fp_mul f (fp_of_int f sign) n)
               (fp_pow f (fp_of_int f 10) (fp_add f scale (fp_of_int f (subscale * signsubscale))));
     Some (n, num) }"

definition parse_number :: "'d jenv \<Rightarrow> 'd jst \<Rightarrow> ptr \<Rightarrow> cstr \<Rightarrow> ('d jst \<times> cstr option) option" where
  "parse_number env s item num = do {
     (n, num) \<leftarrow> scan_number (jf env) num;
     s \<leftarrow> jupd s item (\<lambda>i. i\<lparr>j_valuedouble := n, j_valueint := fp_to_int (jf env) n, j_type := cJSON_Number\<rparr>);
     Some (s, Some num) }"

text \<open>The text written by \<open>sprintf\<close> must fit in the 21 or 64 bytes allocated.\<close>

definition print_number :: "'d jenv \<Rightarrow> 'd cJSON \<Rightarrow> cstr option option" where
  "print_number env item = do {
     let f = jf env;
     let d = j_valuedouble item;
     if fp_le f (fp_abs f (fp_sub f (fp_of_int f (j_valueint item)) d)) (fp_eps f) \<and>
        fp_le f d (fp_of_int f (2 ^ 31 - 1)) \<and> fp_le f (fp_of_int f (- (2 ^ 31))) d
     then if jstr_ok env 21 then do {
            let str = show_int (j_valueint item);
            ensure (length str + 1 \<le> 21);
            Some (Some str) }
          else Some None
     else if jstr_ok env 64 then do {
            let str = (if fp_le f (fp_abs f (fp_sub f (fp_floor f d) d)) (fp_eps f) \<and> fp_lt f (fp_abs f d) (fp_lit f 1 60)
                       then fp_show0 f d
                       else if fp_lt f (fp_abs f d) (fp_lit f 1 (-6)) \<or> fp_lt f (fp_lit f 1 9) (fp_abs f d)
                       then fp_showe f d else fp_showf f d);
            ensure (length str + 1 \<le> 64);
            Some (Some str) }
          else Some None }"

section \<open>Strings\<close>

definition hex_digit :: "char \<Rightarrow> u32 option" where
  "hex_digit c =
     (if is_digit c then Some (of_nat (code c - code CHR ''0''))
      else if code CHR ''A'' \<le> code c \<and> code c \<le> code CHR ''F'' then Some (of_nat (10 + code c - code CHR ''A''))
      else if code CHR ''a'' \<le> code c \<and> code c \<le> code CHR ''f'' then Some (of_nat (10 + code c - code CHR ''a''))
      else None)"

definition parse_hex4 :: "cstr \<Rightarrow> u32" where
  "parse_hex4 str =
     (case hex_digit (cur str) of None \<Rightarrow> 0 | Some h \<Rightarrow>
       let h = push_bit 4 h; str = tl str in
       (case hex_digit (cur str) of None \<Rightarrow> 0 | Some d \<Rightarrow>
         let h = push_bit 4 (h + d); str = tl str in
         (case hex_digit (cur str) of None \<Rightarrow> 0 | Some d \<Rightarrow>
           let h = push_bit 4 (h + d); str = tl str in
           (case hex_digit (cur str) of None \<Rightarrow> 0 | Some d \<Rightarrow> h + d))))"

text \<open>The first pass over a string: the number of characters, an escape counting for one.\<close>

fun scan_len :: "cstr \<Rightarrow> nat \<Rightarrow> nat option" where
  "scan_len [] len = Some len"
| "scan_len (c # r) len =
     (if c = CHR 0x22 then Some len
      else if c = CHR 0x5C then (case r of [] \<Rightarrow> None | _ # r' \<Rightarrow> scan_len r' (len + 1))
      else scan_len r (len + 1))"

definition firstByteMark :: "u32 list" where
  "firstByteMark = [0x00, 0x00, 0xC0, 0xE0, 0xF0, 0xF8, 0xFC]"

definition char_of_u32 :: "u32 \<Rightarrow> char" where
  "char_of_u32 x = char_of (unat x)"

definition utf8_bytes :: "u32 \<Rightarrow> cstr" where
  "utf8_bytes uc =
     (let len = (if uc < 0x80 then 1 else if uc < 0x800 then 2 else if uc < 0x10000 then 3 else 4);
          cont = (\<lambda>u. char_of_u32 ((u OR 0x80) AND 0xBF));
          (t4, uc) = (if len \<ge> 4 then ([cont uc], drop_bit 6 uc) else ([], uc));
          (t3, uc) = (if len \<ge> 3 then (cont uc # t4, drop_bit 6 uc) else (t4, uc));
          (t2, uc) = (if len \<ge> 2 then (cont uc # t3, drop_bit 6 uc) else (t3, uc))
      in char_of_u32 (uc OR firstByteMark ! len) # t2)"

text \<open>The case \<open>'u'\<close>: \<open>ptr\<close> is at the letter; the result is the output and the pointer at the last
  character consumed.\<close>

definition unescape_u :: "cstr \<Rightarrow> cstr \<Rightarrow> (cstr \<times> cstr) option" where
  "unescape_u out ptr = do {
     let uc = parse_hex4 (tl ptr);
     ptr \<leftarrow> adv 4 ptr;
     if (0xDC00 \<le> uc \<and> uc \<le> 0xDFFF) \<or> uc = 0 then Some (out, ptr)
     else if 0xD800 \<le> uc \<and> uc \<le> 0xDBFF then do {
       c1 \<leftarrow> peek 1 ptr;
       if c1 \<noteq> CHR 0x5C then Some (out, ptr)
       else do {
         c2 \<leftarrow> peek 2 ptr;
         if c2 \<noteq> CHR ''u'' then Some (out, ptr)
         else do {
           let uc2 = parse_hex4 (drop 3 ptr);
           ptr \<leftarrow> adv 6 ptr;
           if uc2 < 0xDC00 \<or> uc2 > 0xDFFF then Some (out, ptr)
           else Some (out @ utf8_bytes (0x10000 + (push_bit 10 (uc AND 0x3FF) OR (uc2 AND 0x3FF))), ptr) } } }
     else Some (out @ utf8_bytes uc, ptr) }"

definition unescape_switch :: "cstr \<Rightarrow> cstr \<Rightarrow> (cstr \<times> cstr) option" where
  "unescape_switch out ptr =
     (let c = cur ptr in
      if c = CHR ''b'' then Some (out @ [CHR 0x08], ptr)
      else if c = CHR ''f'' then Some (out @ [CHR 0x0C], ptr)
      else if c = CHR ''n'' then Some (out @ [CHR 0x0A], ptr)
      else if c = CHR ''r'' then Some (out @ [CHR 0x0D], ptr)
      else if c = CHR ''t'' then Some (out @ [CHR 0x09], ptr)
      else if c = CHR ''u'' then unescape_u out ptr
      else Some (out @ [c], ptr))"

partial_function (option) unescape :: "cstr \<Rightarrow> cstr \<Rightarrow> (cstr \<times> cstr) option" where
  "unescape out ptr =
     (if ptr = [] \<or> cur ptr = CHR 0x22 then Some (out, ptr)
      else if cur ptr \<noteq> CHR 0x5C then unescape (out @ [cur ptr]) (tl ptr)
      else do {
        (out, ptr) \<leftarrow> unescape_switch out (tl ptr);
        ptr \<leftarrow> adv 1 ptr;
        unescape out ptr })"

text \<open>The unescaped text must fit in the buffer of \<open>len + 1\<close> bytes.\<close>

definition parse_string :: "'d jenv \<Rightarrow> 'd jst \<Rightarrow> ptr \<Rightarrow> cstr \<Rightarrow> ('d jst \<times> cstr option) option" where
  "parse_string env s item str =
     (if cur str \<noteq> CHR 0x22 then Some (s\<lparr>jep := Some str\<rparr>, None)
      else do {
        len \<leftarrow> scan_len (tl str) 0;
        if \<not> jstr_ok env (len + 1) then Some (s, None)
        else do {
          (out, ptr) \<leftarrow> unescape [] (tl str);
          ensure (length out + 1 \<le> len + 1);
          let ptr = (if cur ptr = CHR 0x22 then tl ptr else ptr);
          s \<leftarrow> jupd s item (\<lambda>i. i\<lparr>j_valuestring := Some out, j_type := cJSON_String\<rparr>);
          Some (s, Some ptr) } })"

definition escaped_chars :: cstr where
  "escaped_chars = [CHR 0x22, CHR 0x5C, CHR 0x08, CHR 0x0C, CHR 0x0A, CHR 0x0D, CHR 0x09]"

fun print_len :: "cstr \<Rightarrow> nat \<Rightarrow> nat" where
  "print_len [] len = len"
| "print_len (c # r) len =
     print_len r (if c \<in> set escaped_chars then len + 2 else if code c < 32 then len + 6 else len + 1)"

definition hex_lower :: "nat \<Rightarrow> char" where
  "hex_lower n = ''0123456789abcdef'' ! n"

fun escape_loop :: "cstr \<Rightarrow> cstr" where
  "escape_loop [] = []"
| "escape_loop (c # r) =
     (if code c > 31 \<and> c \<noteq> CHR 0x22 \<and> c \<noteq> CHR 0x5C then c # escape_loop r
      else CHR 0x5C #
        (if c = CHR 0x5C then [CHR 0x5C] else if c = CHR 0x22 then [CHR 0x22]
         else if c = CHR 0x08 then ''b'' else if c = CHR 0x0C then ''f'' else if c = CHR 0x0A then ''n''
         else if c = CHR 0x0D then ''r'' else if c = CHR 0x09 then ''t''
         else ''u00'' @ [hex_lower (code c div 16), hex_lower (code c mod 16)]) @ escape_loop r)"

definition print_string_ptr :: "'d jenv \<Rightarrow> cstr option \<Rightarrow> cstr option option" where
  "print_string_ptr env str = (case str of
      None \<Rightarrow> Some (cJSON_strdup env [])
    | Some str \<Rightarrow>
        let len = print_len str 0 in
        if \<not> jstr_ok env (len + 3) then Some None
        else do {
          let out = CHR 0x22 # escape_loop str @ [CHR 0x22];
          ensure (length out + 1 \<le> len + 3);
          Some (Some out) })"

definition print_string :: "'d jenv \<Rightarrow> 'd cJSON \<Rightarrow> cstr option option" where
  "print_string env item = print_string_ptr env (j_valuestring item)"

end
