(* ===== verification/CjsonOps.thy ===== *)
theory CjsonOps
  imports Cjson
begin

text \<open>
  The recursive part of \<open>cJSON.c\<close>: parsing and printing of values, and the operations on arrays and
  objects.  The recursive functions take the nesting depth as fuel; running out of fuel is \<open>None\<close>, like
  undefined behaviour.
\<close>

section \<open>Parsing\<close>

definition skip_opt :: "cstr option \<Rightarrow> cstr option" where
  "skip_opt v = map_option skip v"

type_synonym 'd parser = "'d jst \<Rightarrow> ptr \<Rightarrow> cstr option \<Rightarrow> ('d jst \<times> cstr option) option"

text \<open>The functions below call \<open>parse_value\<close> for the children; it is their parameter \<open>pv\<close>.  \<open>parse_elems\<close> is the
  \<open>while\<close> loop of \<open>parse_array\<close> and what follows it, \<open>parse_pair\<close> the name, colon and value of one member,
  \<open>parse_members\<close> the loop of \<open>parse_object\<close>.\<close>

partial_function (option) parse_elems :: "'d parser \<Rightarrow> 'd jenv \<Rightarrow> 'd jst \<Rightarrow> ptr \<Rightarrow> cstr \<Rightarrow> ('d jst \<times> cstr option) option" where
  "parse_elems pv env s child v =
     (if cur v = CHR '','' then do {
        let (s, new_item) = cJSON_New_Item env s;
        if new_item = NULL then Some (s, None)
        else do {
          s \<leftarrow> jupd s child (\<lambda>i. i\<lparr>j_next := new_item\<rparr>);
          s \<leftarrow> jupd s new_item (\<lambda>i. i\<lparr>j_prev := child\<rparr>);
          (s, v) \<leftarrow> pv s new_item (Some (skip (tl v)));
          case skip_opt v of
            None \<Rightarrow> Some (s, None)
          | Some v \<Rightarrow> parse_elems pv env s new_item v } }
      else if cur v = CHR '']'' then Some (s, Some (tl v))
      else Some (s\<lparr>jep := Some v\<rparr>, None))"

definition parse_array :: "'d parser \<Rightarrow> 'd jenv \<Rightarrow> 'd jst \<Rightarrow> ptr \<Rightarrow> cstr \<Rightarrow> ('d jst \<times> cstr option) option" where
  "parse_array pv env s item v =
     (if cur v \<noteq> CHR ''['' then Some (s\<lparr>jep := Some v\<rparr>, None)
      else do {
        s \<leftarrow> jupd s item (\<lambda>i. i\<lparr>j_type := cJSON_Array\<rparr>);
        let v = skip (tl v);
        if cur v = CHR '']'' then Some (s, Some (tl v))
        else do {
          let (s, child) = cJSON_New_Item env s;
          s \<leftarrow> jupd s item (\<lambda>i. i\<lparr>j_child := child\<rparr>);
          if child = NULL then Some (s, None)
          else do {
            (s, v) \<leftarrow> pv s child (Some (skip v));
            case skip_opt v of
              None \<Rightarrow> Some (s, None)
            | Some v \<Rightarrow> parse_elems pv env s child v } } })"

definition parse_pair :: "'d parser \<Rightarrow> 'd jenv \<Rightarrow> 'd jst \<Rightarrow> ptr \<Rightarrow> cstr \<Rightarrow> ('d jst \<times> cstr option) option" where
  "parse_pair pv env s child v = do {
     (s, v) \<leftarrow> parse_string env s child v;
     case skip_opt v of
       None \<Rightarrow> Some (s, None)
     | Some v \<Rightarrow> do {
         s \<leftarrow> jupd s child (\<lambda>i. i\<lparr>j_valuestring := None, j_string := j_valuestring i\<rparr>);
         if cur v \<noteq> CHR '':'' then Some (s\<lparr>jep := Some v\<rparr>, None)
         else do {
           (s, v) \<leftarrow> pv s child (Some (skip (tl v)));
           Some (s, skip_opt v) } } }"

partial_function (option) parse_members :: "'d parser \<Rightarrow> 'd jenv \<Rightarrow> 'd jst \<Rightarrow> ptr \<Rightarrow> cstr \<Rightarrow> ('d jst \<times> cstr option) option" where
  "parse_members pv env s child v =
     (if cur v = CHR '','' then do {
        let (s, new_item) = cJSON_New_Item env s;
        if new_item = NULL then Some (s, None)
        else do {
          s \<leftarrow> jupd s child (\<lambda>i. i\<lparr>j_next := new_item\<rparr>);
          s \<leftarrow> jupd s new_item (\<lambda>i. i\<lparr>j_prev := child\<rparr>);
          (s, v) \<leftarrow> parse_pair pv env s new_item (skip (tl v));
          case v of None \<Rightarrow> Some (s, None) | Some v \<Rightarrow> parse_members pv env s new_item v } }
      else if cur v = CHR ''}'' then Some (s, Some (tl v))
      else Some (s\<lparr>jep := Some v\<rparr>, None))"

definition parse_object :: "'d parser \<Rightarrow> 'd jenv \<Rightarrow> 'd jst \<Rightarrow> ptr \<Rightarrow> cstr \<Rightarrow> ('d jst \<times> cstr option) option" where
  "parse_object pv env s item v =
     (if cur v \<noteq> CHR ''{'' then Some (s\<lparr>jep := Some v\<rparr>, None)
      else do {
        s \<leftarrow> jupd s item (\<lambda>i. i\<lparr>j_type := cJSON_Object\<rparr>);
        let v = skip (tl v);
        if cur v = CHR ''}'' then Some (s, Some (tl v))
        else do {
          let (s, child) = cJSON_New_Item env s;
          s \<leftarrow> jupd s item (\<lambda>i. i\<lparr>j_child := child\<rparr>);
          if child = NULL then Some (s, None)
          else do {
            (s, v) \<leftarrow> parse_pair pv env s child (skip v);
            case v of None \<Rightarrow> Some (s, None) | Some v \<Rightarrow> parse_members pv env s child v } } })"

primrec parse_value :: "nat \<Rightarrow> 'd jenv \<Rightarrow> 'd jst \<Rightarrow> ptr \<Rightarrow> cstr option \<Rightarrow> ('d jst \<times> cstr option) option" where
  "parse_value 0 env s item value = None"
| "parse_value (Suc k) env s item value = (case value of
      None \<Rightarrow> Some (s, None)
    | Some v \<Rightarrow>
        if strncmp_eq v ''null'' then do {
          s \<leftarrow> jupd s item (\<lambda>i. i\<lparr>j_type := cJSON_NULL\<rparr>);
          Some (s, Some (drop 4 v)) }
        else if strncmp_eq v ''false'' then do {
          s \<leftarrow> jupd s item (\<lambda>i. i\<lparr>j_type := cJSON_False\<rparr>);
          Some (s, Some (drop 5 v)) }
        else if strncmp_eq v ''true'' then do {
          s \<leftarrow> jupd s item (\<lambda>i. i\<lparr>j_type := cJSON_True, j_valueint := 1\<rparr>);
          Some (s, Some (drop 4 v)) }
        else if cur v = CHR 0x22 then parse_string env s item v
        else if cur v = CHR ''-'' \<or> is_digit (cur v) then parse_number env s item v
        else if cur v = CHR ''['' then parse_array (parse_value k env) env s item v
        else if cur v = CHR ''{'' then parse_object (parse_value k env) env s item v
        else Some (s\<lparr>jep := Some v\<rparr>, None))"

text \<open>The state, the root or \<open>NULL\<close>, and the end of the parsed text.\<close>

definition cJSON_ParseWithOpts :: "nat \<Rightarrow> 'd jenv \<Rightarrow> 'd jst \<Rightarrow> cstr \<Rightarrow> bool \<Rightarrow> ('d jst \<times> ptr \<times> cstr option) option" where
  "cJSON_ParseWithOpts fuel env s v require_null_terminated = do {
     let (s, c) = cJSON_New_Item env s;
     let s = s\<lparr>jep := None\<rparr>;
     if c = NULL then Some (s, NULL, None)
     else do {
       (s, e) \<leftarrow> parse_value fuel env s c (Some (skip v));
       case e of
         None \<Rightarrow> do { s \<leftarrow> cJSON_Delete s c; Some (s, NULL, None) }
       | Some e \<Rightarrow>
           if require_null_terminated then
             let e = skip e in
             if e \<noteq> [] then do { s \<leftarrow> cJSON_Delete s c; Some (s\<lparr>jep := Some e\<rparr>, NULL, None) }
             else Some (s, c, Some e)
           else Some (s, c, Some e) } }"

definition cJSON_Parse :: "nat \<Rightarrow> 'd jenv \<Rightarrow> 'd jst \<Rightarrow> cstr \<Rightarrow> ('d jst \<times> ptr) option" where
  "cJSON_Parse fuel env s v = do { (s, c, _) \<leftarrow> cJSON_ParseWithOpts fuel env s v False; Some (s, c) }"

section \<open>Walking the children\<close>

partial_function (option) count_loop :: "'d jst \<Rightarrow> ptr \<Rightarrow> nat \<Rightarrow> nat option" where
  "count_loop s c i = (if c = NULL then Some i else do { n \<leftarrow> jat s c; count_loop s (j_next n) (i + 1) })"

definition cJSON_GetArraySize :: "'d jst \<Rightarrow> ptr \<Rightarrow> nat option" where
  "cJSON_GetArraySize s arr = do { a \<leftarrow> jat s arr; count_loop s (j_child a) 0 }"

partial_function (option) item_loop :: "'d jst \<Rightarrow> ptr \<Rightarrow> int \<Rightarrow> ptr option" where
  "item_loop s c item =
     (if c \<noteq> NULL \<and> item > 0 then do { n \<leftarrow> jat s c; item_loop s (j_next n) (item - 1) } else Some c)"

definition cJSON_GetArrayItem :: "'d jst \<Rightarrow> ptr \<Rightarrow> int \<Rightarrow> ptr option" where
  "cJSON_GetArrayItem s arr item = do { a \<leftarrow> jat s arr; item_loop s (j_child a) item }"

text \<open>The child with the name, and its index.\<close>

partial_function (option) name_loop :: "'d jst \<Rightarrow> ptr \<Rightarrow> cstr \<Rightarrow> nat \<Rightarrow> (ptr \<times> nat) option" where
  "name_loop s c str i =
     (if c = NULL then Some (NULL, i)
      else do {
        n \<leftarrow> jat s c;
        if cJSON_strcasecmp (j_string n) (Some str) \<noteq> 0 then name_loop s (j_next n) str (i + 1)
        else Some (c, i) })"

definition cJSON_GetObjectItem :: "'d jst \<Rightarrow> ptr \<Rightarrow> cstr \<Rightarrow> ptr option" where
  "cJSON_GetObjectItem s obj str = do {
     a \<leftarrow> jat s obj;
     (c, _) \<leftarrow> name_loop s (j_child a) str 0;
     Some c }"

section \<open>Printing\<close>

definition tabs :: "int \<Rightarrow> cstr" where
  "tabs n = replicate (nat n) CHR 0x09"

fun compose_array :: "bool \<Rightarrow> cstr list \<Rightarrow> cstr" where
  "compose_array fmt [] = []"
| "compose_array fmt [e] = e"
| "compose_array fmt (e # es) = e @ '','' @ (if fmt then '' '' else []) @ compose_array fmt es"

fun compose_object :: "bool \<Rightarrow> int \<Rightarrow> (cstr \<times> cstr) list \<Rightarrow> cstr" where
  "compose_object fmt depth [] = []"
| "compose_object fmt depth ((n, e) # es) =
     (if fmt then tabs depth else []) @ n @ '':'' @ (if fmt then [CHR 0x09] else []) @ e @
     (if es \<noteq> [] then '','' else []) @ (if fmt then [CHR 0x0A] else []) @ compose_object fmt depth es"

type_synonym printer = "ptr \<Rightarrow> int \<Rightarrow> bool \<Rightarrow> cstr option option"

text \<open>\<open>print_value\<close> is the parameter \<open>pv\<close> of the functions that call it for the children.  \<open>print_elems\<close> and
  \<open>print_members\<close> are the loops that collect the texts of the children; the inner option is \<open>NULL\<close>, an
  allocation failure.  The composed text must fit in the \<open>len\<close> bytes allocated.\<close>

partial_function (option) print_elems :: "printer \<Rightarrow> 'd jst \<Rightarrow> ptr \<Rightarrow> int \<Rightarrow> bool \<Rightarrow> cstr list option option" where
  "print_elems pv s c depth fmt =
     (if c = NULL then Some (Some [])
      else do {
        n \<leftarrow> jat s c;
        ret \<leftarrow> pv c depth fmt;
        case ret of
          None \<Rightarrow> Some None
        | Some e \<Rightarrow> do {
            es \<leftarrow> print_elems pv s (j_next n) depth fmt;
            Some (map_option (\<lambda>es. e # es) es) } })"

definition print_array :: "printer \<Rightarrow> 'd jenv \<Rightarrow> 'd jst \<Rightarrow> ptr \<Rightarrow> int \<Rightarrow> bool \<Rightarrow> cstr option option" where
  "print_array pv env s item depth fmt = do {
     i \<leftarrow> jat s item;
     numentries \<leftarrow> count_loop s (j_child i) 0;
     if numentries = 0 then Some (if jstr_ok env 3 then Some ''[]'' else None)
     else if \<not> jstr_ok env (numentries * 8) then Some None
     else do {
       entries \<leftarrow> print_elems pv s (j_child i) (depth + 1) fmt;
       case entries of
         None \<Rightarrow> Some None
       | Some es \<Rightarrow>
           let len = 5 + sum_list (map (\<lambda>e. length e + 2 + (if fmt then 1 else 0)) es) in
           if \<not> jstr_ok env len then Some None
           else do {
             let out = ''['' @ compose_array fmt es @ '']'';
             ensure (length out + 1 \<le> len);
             Some (Some out) } } }"

partial_function (option) print_members ::
  "printer \<Rightarrow> 'd jenv \<Rightarrow> 'd jst \<Rightarrow> ptr \<Rightarrow> int \<Rightarrow> bool \<Rightarrow> (cstr \<times> cstr) list option option" where
  "print_members pv env s c depth fmt =
     (if c = NULL then Some (Some [])
      else do {
        n \<leftarrow> jat s c;
        str \<leftarrow> print_string_ptr env (j_string n);
        ret \<leftarrow> pv c depth fmt;
        es \<leftarrow> print_members pv env s (j_next n) depth fmt;
        Some (case (str, ret, es) of (Some a, Some b, Some es) \<Rightarrow> Some ((a, b) # es) | _ \<Rightarrow> None) })"

definition print_object :: "printer \<Rightarrow> 'd jenv \<Rightarrow> 'd jst \<Rightarrow> ptr \<Rightarrow> int \<Rightarrow> bool \<Rightarrow> cstr option option" where
  "print_object pv env s item depth fmt = do {
     i \<leftarrow> jat s item;
     numentries \<leftarrow> count_loop s (j_child i) 0;
     if numentries = 0 then
       let len = (if fmt then nat (depth + 4) else 3) in
       if \<not> jstr_ok env len then Some None
       else do {
         let out = ''{'' @ (if fmt then CHR 0x0A # tabs (depth - 1) else []) @ ''}'';
         ensure (length out + 1 \<le> len);
         Some (Some out) }
     else if \<not> jstr_ok env (numentries * 8) then Some None
     else do {
       let depth = depth + 1;
       entries \<leftarrow> print_members pv env s (j_child i) depth fmt;
       case entries of
         None \<Rightarrow> Some None
       | Some es \<Rightarrow>
           let len = 7 + (if fmt then nat depth else 0) +
             sum_list (map (\<lambda>(n, e). length e + length n + 2 + (if fmt then 2 + nat depth else 0)) es) in
           if \<not> jstr_ok env len then Some None
           else do {
             let out = ''{'' @ (if fmt then [CHR 0x0A] else []) @ compose_object fmt depth es @
                       (if fmt then tabs (depth - 1) else []) @ ''}'';
             ensure (length out + 1 \<le> len);
             Some (Some out) } } }"

primrec print_value :: "nat \<Rightarrow> 'd jenv \<Rightarrow> 'd jst \<Rightarrow> ptr \<Rightarrow> int \<Rightarrow> bool \<Rightarrow> cstr option option" where
  "print_value 0 env s item depth fmt = None"
| "print_value (Suc k) env s item depth fmt =
     (if item = NULL then Some None
      else do {
        i \<leftarrow> jat s item;
        let t = j_type i mod 256;
        if t = cJSON_NULL then Some (cJSON_strdup env ''null'')
        else if t = cJSON_False then Some (cJSON_strdup env ''false'')
        else if t = cJSON_True then Some (cJSON_strdup env ''true'')
        else if t = cJSON_Number then print_number env i
        else if t = cJSON_String then print_string env i
        else if t = cJSON_Array then print_array (print_value k env s) env s item depth fmt
        else if t = cJSON_Object then print_object (print_value k env s) env s item depth fmt
        else Some None })"

definition cJSON_Print :: "nat \<Rightarrow> 'd jenv \<Rightarrow> 'd jst \<Rightarrow> ptr \<Rightarrow> cstr option option" where
  "cJSON_Print fuel env s item = print_value fuel env s item 0 True"

definition cJSON_PrintUnformatted :: "nat \<Rightarrow> 'd jenv \<Rightarrow> 'd jst \<Rightarrow> ptr \<Rightarrow> cstr option option" where
  "cJSON_PrintUnformatted fuel env s item = print_value fuel env s item 0 False"

section \<open>Changing arrays and objects\<close>

definition suffix_object :: "'d jst \<Rightarrow> ptr \<Rightarrow> ptr \<Rightarrow> 'd jst option" where
  "suffix_object s prev item = do {
     s \<leftarrow> jupd s prev (\<lambda>i. i\<lparr>j_next := item\<rparr>);
     jupd s item (\<lambda>i. i\<lparr>j_prev := prev\<rparr>) }"

definition create_reference :: "'d jenv \<Rightarrow> 'd jst \<Rightarrow> ptr \<Rightarrow> ('d jst \<times> ptr) option" where
  "create_reference env s item = do {
     let (s, ref) = cJSON_New_Item env s;
     if ref = NULL then Some (s, NULL)
     else do {
       i \<leftarrow> jat s item;
       s \<leftarrow> jupd s ref (\<lambda>_. i\<lparr>j_string := None, j_type := j_type i OR cJSON_IsReference, j_next := NULL, j_prev := NULL\<rparr>);
       Some (s, ref) } }"

partial_function (option) last_loop :: "'d jst \<Rightarrow> ptr \<Rightarrow> ptr option" where
  "last_loop s c = do { n \<leftarrow> jat s c; if j_next n \<noteq> NULL then last_loop s (j_next n) else Some c }"

definition cJSON_AddItemToArray :: "'d jst \<Rightarrow> ptr \<Rightarrow> ptr \<Rightarrow> 'd jst option" where
  "cJSON_AddItemToArray s arr item = do {
     a \<leftarrow> jat s arr;
     if item = NULL then Some s
     else if j_child a = NULL then jupd s arr (\<lambda>i. i\<lparr>j_child := item\<rparr>)
     else do { c \<leftarrow> last_loop s (j_child a); suffix_object s c item } }"

definition cJSON_AddItemToObject :: "'d jenv \<Rightarrow> 'd jst \<Rightarrow> ptr \<Rightarrow> cstr \<Rightarrow> ptr \<Rightarrow> 'd jst option" where
  "cJSON_AddItemToObject env s obj str item =
     (if item = NULL then Some s
      else do {
        s \<leftarrow> jupd s item (\<lambda>i. i\<lparr>j_string := cJSON_strdup env str\<rparr>);
        cJSON_AddItemToArray s obj item })"

definition cJSON_AddItemReferenceToArray :: "'d jenv \<Rightarrow> 'd jst \<Rightarrow> ptr \<Rightarrow> ptr \<Rightarrow> 'd jst option" where
  "cJSON_AddItemReferenceToArray env s arr item = do {
     (s, ref) \<leftarrow> create_reference env s item;
     cJSON_AddItemToArray s arr ref }"

definition cJSON_AddItemReferenceToObject :: "'d jenv \<Rightarrow> 'd jst \<Rightarrow> ptr \<Rightarrow> cstr \<Rightarrow> ptr \<Rightarrow> 'd jst option" where
  "cJSON_AddItemReferenceToObject env s obj str item = do {
     (s, ref) \<leftarrow> create_reference env s item;
     cJSON_AddItemToObject env s obj str ref }"

definition cJSON_DetachItemFromArray :: "'d jst \<Rightarrow> ptr \<Rightarrow> int \<Rightarrow> ('d jst \<times> ptr) option" where
  "cJSON_DetachItemFromArray s arr which = do {
     a \<leftarrow> jat s arr;
     c \<leftarrow> item_loop s (j_child a) which;
     if c = NULL then Some (s, NULL)
     else do {
       n \<leftarrow> jat s c;
       s \<leftarrow> (if j_prev n \<noteq> NULL then jupd s (j_prev n) (\<lambda>i. i\<lparr>j_next := j_next n\<rparr>) else Some s);
       s \<leftarrow> (if j_next n \<noteq> NULL then jupd s (j_next n) (\<lambda>i. i\<lparr>j_prev := j_prev n\<rparr>) else Some s);
       s \<leftarrow> (if c = j_child a then jupd s arr (\<lambda>i. i\<lparr>j_child := j_next n\<rparr>) else Some s);
       s \<leftarrow> jupd s c (\<lambda>i. i\<lparr>j_next := NULL, j_prev := NULL\<rparr>);
       Some (s, c) } }"

definition cJSON_DeleteItemFromArray :: "'d jst \<Rightarrow> ptr \<Rightarrow> int \<Rightarrow> 'd jst option" where
  "cJSON_DeleteItemFromArray s arr which = do {
     (s, c) \<leftarrow> cJSON_DetachItemFromArray s arr which;
     cJSON_Delete s c }"

definition cJSON_DetachItemFromObject :: "'d jst \<Rightarrow> ptr \<Rightarrow> cstr \<Rightarrow> ('d jst \<times> ptr) option" where
  "cJSON_DetachItemFromObject s obj str = do {
     a \<leftarrow> jat s obj;
     (c, i) \<leftarrow> name_loop s (j_child a) str 0;
     if c \<noteq> NULL then cJSON_DetachItemFromArray s obj (int i) else Some (s, NULL) }"

definition cJSON_DeleteItemFromObject :: "'d jst \<Rightarrow> ptr \<Rightarrow> cstr \<Rightarrow> 'd jst option" where
  "cJSON_DeleteItemFromObject s obj str = do {
     (s, c) \<leftarrow> cJSON_DetachItemFromObject s obj str;
     cJSON_Delete s c }"

definition cJSON_ReplaceItemInArray :: "'d jst \<Rightarrow> ptr \<Rightarrow> int \<Rightarrow> ptr \<Rightarrow> 'd jst option" where
  "cJSON_ReplaceItemInArray s arr which newitem = do {
     a \<leftarrow> jat s arr;
     c \<leftarrow> item_loop s (j_child a) which;
     if c = NULL then Some s
     else do {
       n \<leftarrow> jat s c;
       s \<leftarrow> jupd s newitem (\<lambda>i. i\<lparr>j_next := j_next n, j_prev := j_prev n\<rparr>);
       s \<leftarrow> (if j_next n \<noteq> NULL then jupd s (j_next n) (\<lambda>i. i\<lparr>j_prev := newitem\<rparr>) else Some s);
       s \<leftarrow> (if c = j_child a then jupd s arr (\<lambda>i. i\<lparr>j_child := newitem\<rparr>)
             else jupd s (j_prev n) (\<lambda>i. i\<lparr>j_next := newitem\<rparr>));
       s \<leftarrow> jupd s c (\<lambda>i. i\<lparr>j_next := NULL, j_prev := NULL\<rparr>);
       cJSON_Delete s c } }"

definition cJSON_ReplaceItemInObject :: "'d jenv \<Rightarrow> 'd jst \<Rightarrow> ptr \<Rightarrow> cstr \<Rightarrow> ptr \<Rightarrow> 'd jst option" where
  "cJSON_ReplaceItemInObject env s obj str newitem = do {
     a \<leftarrow> jat s obj;
     (c, i) \<leftarrow> name_loop s (j_child a) str 0;
     if c \<noteq> NULL then do {
       s \<leftarrow> jupd s newitem (\<lambda>n. n\<lparr>j_string := cJSON_strdup env str\<rparr>);
       cJSON_ReplaceItemInArray s obj (int i) newitem }
     else Some s }"

section \<open>Creating items\<close>

definition create_typed :: "'d jenv \<Rightarrow> 'd jst \<Rightarrow> ('d cJSON \<Rightarrow> 'd cJSON) \<Rightarrow> ('d jst \<times> ptr) option" where
  "create_typed env s f = do {
     let (s, item) = cJSON_New_Item env s;
     s \<leftarrow> (if item \<noteq> NULL then jupd s item f else Some s);
     Some (s, item) }"

definition cJSON_CreateNull :: "'d jenv \<Rightarrow> 'd jst \<Rightarrow> ('d jst \<times> ptr) option" where
  "cJSON_CreateNull env s = create_typed env s (\<lambda>i. i\<lparr>j_type := cJSON_NULL\<rparr>)"

definition cJSON_CreateTrue :: "'d jenv \<Rightarrow> 'd jst \<Rightarrow> ('d jst \<times> ptr) option" where
  "cJSON_CreateTrue env s = create_typed env s (\<lambda>i. i\<lparr>j_type := cJSON_True\<rparr>)"

definition cJSON_CreateFalse :: "'d jenv \<Rightarrow> 'd jst \<Rightarrow> ('d jst \<times> ptr) option" where
  "cJSON_CreateFalse env s = create_typed env s (\<lambda>i. i\<lparr>j_type := cJSON_False\<rparr>)"

definition cJSON_CreateBool :: "'d jenv \<Rightarrow> 'd jst \<Rightarrow> int \<Rightarrow> ('d jst \<times> ptr) option" where
  "cJSON_CreateBool env s b = create_typed env s (\<lambda>i. i\<lparr>j_type := (if b \<noteq> 0 then cJSON_True else cJSON_False)\<rparr>)"

definition cJSON_CreateNumber :: "'d jenv \<Rightarrow> 'd jst \<Rightarrow> 'd \<Rightarrow> ('d jst \<times> ptr) option" where
  "cJSON_CreateNumber env s num =
     create_typed env s (\<lambda>i. i\<lparr>j_type := cJSON_Number, j_valuedouble := num, j_valueint := fp_to_int (jf env) num\<rparr>)"

definition cJSON_CreateString :: "'d jenv \<Rightarrow> 'd jst \<Rightarrow> cstr \<Rightarrow> ('d jst \<times> ptr) option" where
  "cJSON_CreateString env s str =
     create_typed env s (\<lambda>i. i\<lparr>j_type := cJSON_String, j_valuestring := cJSON_strdup env str\<rparr>)"

definition cJSON_CreateArray :: "'d jenv \<Rightarrow> 'd jst \<Rightarrow> ('d jst \<times> ptr) option" where
  "cJSON_CreateArray env s = create_typed env s (\<lambda>i. i\<lparr>j_type := cJSON_Array\<rparr>)"

definition cJSON_CreateObject :: "'d jenv \<Rightarrow> 'd jst \<Rightarrow> ('d jst \<times> ptr) option" where
  "cJSON_CreateObject env s = create_typed env s (\<lambda>i. i\<lparr>j_type := cJSON_Object\<rparr>)"

text \<open>The loop of the four functions that create an array of \<open>count\<close> items; \<open>mk\<close> creates one item.\<close>

fun create_loop :: "('d jst \<Rightarrow> 'x \<Rightarrow> ('d jst \<times> ptr) option) \<Rightarrow> 'd jst \<Rightarrow> ptr \<Rightarrow> bool \<Rightarrow> ptr \<Rightarrow> 'x list \<Rightarrow> 'd jst option" where
  "create_loop mk s a first p [] = Some s"
| "create_loop mk s a first p (x # xs) = do {
     (s, n) \<leftarrow> mk s x;
     s \<leftarrow> (if first then jupd s a (\<lambda>i. i\<lparr>j_child := n\<rparr>) else suffix_object s p n);
     create_loop mk s a False n xs }"

definition create_array :: "'d jenv \<Rightarrow> 'd jst \<Rightarrow> ('d jst \<Rightarrow> 'x \<Rightarrow> ('d jst \<times> ptr) option) \<Rightarrow> 'x list \<Rightarrow> nat \<Rightarrow> ('d jst \<times> ptr) option" where
  "create_array env s mk xs n = do {
     (s, a) \<leftarrow> cJSON_CreateArray env s;
     if a = NULL then Some (s, NULL)
     else do {
       ensure (n \<le> length xs);
       s \<leftarrow> create_loop mk s a True NULL (take n xs);
       Some (s, a) } }"

definition cJSON_CreateIntArray :: "'d jenv \<Rightarrow> 'd jst \<Rightarrow> int list \<Rightarrow> nat \<Rightarrow> ('d jst \<times> ptr) option" where
  "cJSON_CreateIntArray env s numbers n =
     create_array env s (\<lambda>s x. cJSON_CreateNumber env s (fp_of_int (jf env) x)) numbers n"

text \<open>The conversion of a \<open>float\<close> to a \<open>double\<close> is exact; the numbers are given as doubles.\<close>

definition cJSON_CreateFloatArray :: "'d jenv \<Rightarrow> 'd jst \<Rightarrow> 'd list \<Rightarrow> nat \<Rightarrow> ('d jst \<times> ptr) option" where
  "cJSON_CreateFloatArray env s numbers n = create_array env s (cJSON_CreateNumber env) numbers n"

definition cJSON_CreateDoubleArray :: "'d jenv \<Rightarrow> 'd jst \<Rightarrow> 'd list \<Rightarrow> nat \<Rightarrow> ('d jst \<times> ptr) option" where
  "cJSON_CreateDoubleArray env s numbers n = create_array env s (cJSON_CreateNumber env) numbers n"

definition cJSON_CreateStringArray :: "'d jenv \<Rightarrow> 'd jst \<Rightarrow> cstr list \<Rightarrow> nat \<Rightarrow> ('d jst \<times> ptr) option" where
  "cJSON_CreateStringArray env s strings n = create_array env s (cJSON_CreateString env) strings n"

section \<open>Duplication\<close>

text \<open>The copy of the fields: the new node and whether the strings could be copied.\<close>

definition duplicate_fields :: "'d jenv \<Rightarrow> 'd jst \<Rightarrow> ptr \<Rightarrow> 'd cJSON \<Rightarrow> ('d jst \<times> bool) option" where
  "duplicate_fields env s newitem i = do {
     s \<leftarrow> jupd s newitem (\<lambda>n. n\<lparr>j_type := j_type i AND NOT cJSON_IsReference, j_valueint := j_valueint i,
            j_valuedouble := j_valuedouble i\<rparr>);
     let vs = Option.bind (j_valuestring i) (cJSON_strdup env);
     if j_valuestring i \<noteq> None \<and> vs = None then Some (s, False)
     else do {
       s \<leftarrow> jupd s newitem (\<lambda>n. n\<lparr>j_valuestring := vs\<rparr>);
       let st = Option.bind (j_string i) (cJSON_strdup env);
       if j_string i \<noteq> None \<and> st = None then Some (s, False)
       else do { s \<leftarrow> jupd s newitem (\<lambda>n. n\<lparr>j_string := st\<rparr>); Some (s, True) } } }"

text \<open>The loop over the children; \<open>dup\<close> is \<open>cJSON_Duplicate\<close> with recursion.\<close>

partial_function (option) duplicate_children ::
  "('d jst \<Rightarrow> ptr \<Rightarrow> ('d jst \<times> ptr) option) \<Rightarrow> 'd jst \<Rightarrow> ptr \<Rightarrow> ptr \<Rightarrow> ptr \<Rightarrow> ('d jst \<times> ptr) option" where
  "duplicate_children dup s newitem cptr nptr =
     (if cptr = NULL then Some (s, newitem)
      else do {
        (s, newchild) \<leftarrow> dup s cptr;
        if newchild = NULL then do { s \<leftarrow> cJSON_Delete s newitem; Some (s, NULL) }
        else do {
          s \<leftarrow> (if nptr \<noteq> NULL then suffix_object s nptr newchild
                else jupd s newitem (\<lambda>n. n\<lparr>j_child := newchild\<rparr>));
          c \<leftarrow> jat s cptr;
          duplicate_children dup s newitem (j_next c) newchild } })"

primrec cJSON_Duplicate :: "nat \<Rightarrow> 'd jenv \<Rightarrow> bool \<Rightarrow> 'd jst \<Rightarrow> ptr \<Rightarrow> ('d jst \<times> ptr) option" where
  "cJSON_Duplicate 0 env recurse s item = None"
| "cJSON_Duplicate (Suc k) env recurse s item =
     (if item = NULL then Some (s, NULL)
      else do {
        let (s, newitem) = cJSON_New_Item env s;
        if newitem = NULL then Some (s, NULL)
        else do {
          i \<leftarrow> jat s item;
          (s, ok) \<leftarrow> duplicate_fields env s newitem i;
          if \<not> ok then do { s \<leftarrow> cJSON_Delete s newitem; Some (s, NULL) }
          else if \<not> recurse then Some (s, newitem)
          else duplicate_children (cJSON_Duplicate k env True) s newitem (j_child i) NULL } })"

section \<open>Minification\<close>

fun skip_line :: "cstr \<Rightarrow> cstr" where
  "skip_line [] = []"
| "skip_line (c # r) = (if c = CHR 0x0A then c # r else skip_line r)"

fun skip_comment :: "cstr \<Rightarrow> cstr" where
  "skip_comment [] = []"
| "skip_comment (c # r) = (if c = CHR ''*'' \<and> cur r = CHR ''/'' then c # r else skip_comment r)"

text \<open>The inner loop over a string literal: the output and the position of its end.  A backslash at
  the end of the text makes the loop copy the terminator and go on behind it.\<close>

fun minify_string :: "cstr \<Rightarrow> cstr \<Rightarrow> (cstr \<times> cstr) option" where
  "minify_string into [] = Some (into, [])"
| "minify_string into (c # r) =
     (if c = CHR 0x22 then Some (into, c # r)
      else if c = CHR 0x5C then (case r of [] \<Rightarrow> None | d # r' \<Rightarrow> minify_string (into @ [c, d]) r')
      else minify_string (into @ [c]) r)"

partial_function (option) minify_loop :: "cstr \<Rightarrow> cstr \<Rightarrow> cstr option" where
  "minify_loop into json =
     (if json = [] then Some into
      else if cur json = CHR '' '' \<or> cur json = CHR 0x09 \<or> cur json = CHR 0x0D \<or> cur json = CHR 0x0A
      then minify_loop into (tl json)
      else if cur json = CHR ''/'' \<and> cur (tl json) = CHR ''/'' then minify_loop into (skip_line json)
      else if cur json = CHR ''/'' \<and> cur (tl json) = CHR ''*'' then do {
        json \<leftarrow> adv 2 (skip_comment json);
        minify_loop into json }
      else if cur json = CHR 0x22 then do {
        (into, json) \<leftarrow> minify_string (into @ [cur json]) (tl json);
        rest \<leftarrow> adv 1 json;
        minify_loop (into @ [cur json]) rest }
      else minify_loop (into @ [cur json]) (tl json))"

definition cJSON_Minify :: "cstr \<Rightarrow> cstr option" where
  "cJSON_Minify json = minify_loop [] json"

end
