(* ===== verification/CjsonStr.thy ===== *)
theory CjsonStr
  imports CjsonOps
begin

text \<open>
  Strings and integers of the JSON library: what \<open>print_string_ptr\<close> writes, \<open>parse_string\<close> reads back,
  within the buffers the two functions allocate; and the same for integers.
\<close>

section \<open>Escapes\<close>

lemma cur_Cons [simp]: "cur (c # r) = c"
  by (simp add: cur_def)

lemma cur_Nil [simp]: "cur [] = CHR 0x00"
  by (simp add: cur_def)

lemma parse_hex4_control:
  assumes "n < 32"
  shows "parse_hex4 (CHR ''0'' # CHR ''0'' # hex_lower (n div 16) # hex_lower (n mod 16) # r) = of_nat n"
proof -
  have "n \<in> set [0..<32]" using assms by simp
  then show ?thesis
    by (simp add: upt_rec; elim disjE; simp add: parse_hex4_def hex_digit_def is_digit_def hex_lower_def code_def)
qed

lemma utf8_bytes_ascii:
  assumes "0 < n" and "n < 128"
  shows "utf8_bytes (of_nat n) = [char_of n]"
proof -
  have "unat (of_nat n :: u32) = n" using assms by (simp add: unat_of_nat take_bit_nat_eq_self)
  then show ?thesis
    using assms by (simp add: utf8_bytes_def firstByteMark_def char_of_u32_def word_less_nat_alt)
qed

lemma unescape_u_control:
  assumes "0 < n" and "n < 32"
  shows "unescape_u out (''u00'' @ hex_lower (n div 16) # hex_lower (n mod 16) # r) =
    Some (out @ [char_of n], hex_lower (n mod 16) # r)"
proof -
  have u: "unat (of_nat n :: u32) = n" using assms by (simp add: unat_of_nat take_bit_nat_eq_self)
  then have "(of_nat n :: u32) \<noteq> 0" "\<not> 0xDC00 \<le> (of_nat n :: u32)" "\<not> 0xD800 \<le> (of_nat n :: u32)"
    using assms by (auto simp: word_le_nat_alt)
  then show ?thesis
    using assms by (simp add: unescape_u_def parse_hex4_control utf8_bytes_ascii adv_def)
qed

definition esc1 :: "char \<Rightarrow> cstr" where
  "esc1 c = escape_loop [c]"

lemma escape_loop_Cons: "escape_loop (c # r) = esc1 c @ escape_loop r"
  by (simp add: esc1_def)

lemma unescape_step:
  "unescape_switch out p = Some (out', c # r) \<Longrightarrow> unescape out (CHR 0x5C # p) = unescape out' r"
  by (subst unescape.simps) (simp add: adv_def)

lemma esc1_cases:
  assumes "CHR 0x00 \<noteq> c"
  obtains (plain) "esc1 c = [c]" "c \<noteq> CHR 0x22" "c \<noteq> CHR 0x5C" "31 < code c"
  | (escaped) d where "esc1 c = [CHR 0x5C, d]" "\<And>out r. unescape_switch out (d # r) = Some (out @ [c], d # r)"
  | (control) "esc1 c = CHR 0x5C # ''u00'' @ [hex_lower (code c div 16), hex_lower (code c mod 16)]"
      "0 < code c" "code c < 32"
proof (cases "code c > 31 \<and> c \<noteq> CHR 0x22 \<and> c \<noteq> CHR 0x5C")
  case True
  then show thesis by (intro plain) (simp_all add: esc1_def)
next
  case False
  show thesis
  proof (cases "c \<in> set escaped_chars")
    case True
    then have "\<exists>d. esc1 c = [CHR 0x5C, d] \<and> (\<forall>out r. unescape_switch out (d # r) = Some (out @ [c], d # r))"
      unfolding escaped_chars_def by (simp only: list.set insert_iff empty_iff) (elim disjE; simp add: esc1_def unescape_switch_def code_def)
    then show thesis using escaped by blast
  next
    case F: False
    have n: "0 < code c" "code c < 32"
      using False F assms code_eq_iff [of c "CHR 0x00"] by (auto simp: escaped_chars_def code_def)
    moreover from this have "esc1 c = CHR 0x5C # ''u00'' @ [hex_lower (code c div 16), hex_lower (code c mod 16)]"
      using F by (auto simp: esc1_def escaped_chars_def)
    ultimately show thesis using control by blast
  qed
qed

lemma unescape_esc1:
  assumes "CHR 0x00 \<noteq> c"
  shows "unescape out (esc1 c @ r) = unescape (out @ [c]) r"
  using assms
proof (cases rule: esc1_cases)
  case plain
  then show ?thesis by (simp add: unescape.simps [of out "c # r"])
next
  case (escaped d)
  then show ?thesis using unescape_step by simp
next
  case control
  then have "unescape_switch out (''u00'' @ hex_lower (code c div 16) # hex_lower (code c mod 16) # r) =
      Some (out @ [c], hex_lower (code c mod 16) # r)"
    using unescape_u_control [of "code c" out r] by (simp add: unescape_switch_def)
  from unescape_step [OF this] control(1) show ?thesis by simp
qed

lemma unescape_escape:
  "CHR 0x00 \<notin> set str \<Longrightarrow> unescape out (escape_loop str @ CHR 0x22 # r) = Some (out @ str, CHR 0x22 # r)"
proof (induction str arbitrary: out)
  case Nil
  then show ?case by (simp add: unescape.simps [of out "CHR 0x22 # r"])
next
  case (Cons c str)
  then show ?case by (simp add: escape_loop_Cons unescape_esc1 del: escape_loop.simps)
qed

lemma print_len_eq: "print_len str len = len + length (escape_loop str)"
  by (induction str arbitrary: len) (auto simp: escaped_chars_def code_def)

lemma hex_lower_plain: "n < 16 \<Longrightarrow> hex_lower n \<noteq> CHR 0x22 \<and> hex_lower n \<noteq> CHR 0x5C"
proof -
  assume "n < 16"
  then have "n \<in> set [0..<16]" by simp
  then show ?thesis by (simp add: upt_rec; elim disjE; simp add: hex_lower_def)
qed

lemma scan_len_esc1:
  assumes "CHR 0x00 \<noteq> c"
  shows "\<exists>k\<ge>1. scan_len (esc1 c @ r) len = scan_len r (len + k)"
  using assms
proof (cases rule: esc1_cases)
  case plain
  then show ?thesis by (intro exI [of _ 1]) simp
next
  case (escaped d)
  then show ?thesis by (intro exI [of _ 1]) simp
next
  case control
  then have "hex_lower (code c div 16) \<noteq> CHR 0x22 \<and> hex_lower (code c div 16) \<noteq> CHR 0x5C"
    "hex_lower (code c mod 16) \<noteq> CHR 0x22 \<and> hex_lower (code c mod 16) \<noteq> CHR 0x5C"
    by (intro hex_lower_plain; simp)+
  with control show ?thesis by (intro exI [of _ "Suc (Suc (Suc (Suc (Suc 0))))"]) simp
qed

lemma scan_len_escape:
  "CHR 0x00 \<notin> set str \<Longrightarrow> \<exists>k\<ge>length str. scan_len (escape_loop str @ CHR 0x22 # r) len = Some (len + k)"
proof (induction str arbitrary: len)
  case (Cons c str)
  obtain k where k: "k \<ge> 1" "scan_len (esc1 c @ escape_loop str @ CHR 0x22 # r) len =
      scan_len (escape_loop str @ CHR 0x22 # r) (len + k)"
    using scan_len_esc1 [of c] Cons.prems by (metis list.set_intros(1))
  from Cons.IH [of "len + k"] Cons.prems obtain j where "j \<ge> length str"
    "scan_len (escape_loop str @ CHR 0x22 # r) (len + k) = Some (len + k + j)" by auto
  with k show ?case
    by (intro exI [of _ "k + j"]) (simp add: escape_loop_Cons del: escape_loop.simps)
qed simp

definition quoted :: "cstr \<Rightarrow> cstr" where
  "quoted str = CHR 0x22 # escape_loop str @ [CHR 0x22]"

lemma print_string_ptr_quoted:
  assumes "\<And>n. jstr_ok env n"
  shows "print_string_ptr env (Some str) = Some (Some (quoted str))"
  using assms by (simp add: print_string_ptr_def quoted_def print_len_eq)

lemma parse_string_quoted:
  assumes "\<And>n. jstr_ok env n" and "CHR 0x00 \<notin> set str" and "jat s item = Some i"
  shows "parse_string env s item (quoted str @ r) =
    Some (s\<lparr>jheap := (jheap s)(item \<mapsto> i\<lparr>j_valuestring := Some str, j_type := cJSON_String\<rparr>)\<rparr>, Some r)"
proof -
  obtain k where "k \<ge> length str" "scan_len (escape_loop str @ CHR 0x22 # r) 0 = Some k"
    using scan_len_escape [OF assms(2), of r 0] by auto
  then show ?thesis
    using assms unescape_escape [OF assms(2), of "[]" r] by (simp add: parse_string_def quoted_def jupd_def)
qed

section \<open>Integers\<close>

text \<open>What IEEE double arithmetic guarantees on the integers that a double represents exactly.\<close>

definition exact_ints :: "'d fpu \<Rightarrow> bool" where
  "exact_ints f \<longleftrightarrow>
     (\<forall>a b. \<bar>a\<bar> \<le> 2 ^ 53 \<and> \<bar>b\<bar> \<le> 2 ^ 53 \<and> \<bar>a + b\<bar> \<le> 2 ^ 53 \<longrightarrow>
        fp_add f (fp_of_int f a) (fp_of_int f b) = fp_of_int f (a + b)) \<and>
     (\<forall>a b. \<bar>a\<bar> \<le> 2 ^ 53 \<and> \<bar>b\<bar> \<le> 2 ^ 53 \<and> \<bar>a * b\<bar> \<le> 2 ^ 53 \<and> (a * b \<noteq> 0 \<or> 0 \<le> a \<and> 0 \<le> b) \<longrightarrow>
        fp_mul f (fp_of_int f a) (fp_of_int f b) = fp_of_int f (a * b)) \<and>
     fp_pow f (fp_of_int f 10) (fp_of_int f 0) = fp_of_int f 1 \<and>
     (\<forall>a. \<bar>a\<bar> \<le> 2 ^ 31 \<longrightarrow> fp_to_int f (fp_of_int f a) = a) \<and>
     (\<forall>a. \<bar>a\<bar> \<le> 2 ^ 53 \<longrightarrow> fp_abs f (fp_sub f (fp_of_int f a) (fp_of_int f a)) = fp_of_int f 0) \<and>
     fp_le f (fp_of_int f 0) (fp_eps f) \<and>
     (\<forall>a b. \<bar>a\<bar> \<le> 2 ^ 53 \<and> \<bar>b\<bar> \<le> 2 ^ 53 \<longrightarrow> (fp_le f (fp_of_int f a) (fp_of_int f b) \<longleftrightarrow> a \<le> b))"

definition stop :: "cstr \<Rightarrow> bool" where
  "stop r \<longleftrightarrow> \<not> is_digit (cur r) \<and> cur r \<notin> {CHR ''.'', CHR ''e'', CHR ''E''}"

lemma exact_intsD:
  assumes "exact_ints f"
  shows "\<And>a b. \<bar>a\<bar> \<le> 2 ^ 53 \<Longrightarrow> \<bar>b\<bar> \<le> 2 ^ 53 \<Longrightarrow> \<bar>a + b\<bar> \<le> 2 ^ 53 \<Longrightarrow> fp_add f (fp_of_int f a) (fp_of_int f b) = fp_of_int f (a + b)"
    and "\<And>a b. \<bar>a\<bar> \<le> 2 ^ 53 \<Longrightarrow> \<bar>b\<bar> \<le> 2 ^ 53 \<Longrightarrow> \<bar>a * b\<bar> \<le> 2 ^ 53 \<Longrightarrow> a * b \<noteq> 0 \<or> 0 \<le> a \<and> 0 \<le> b \<Longrightarrow>
      fp_mul f (fp_of_int f a) (fp_of_int f b) = fp_of_int f (a * b)"
    and "fp_pow f (fp_of_int f 10) (fp_of_int f 0) = fp_of_int f 1"
    and "\<And>a. \<bar>a\<bar> \<le> 2 ^ 31 \<Longrightarrow> fp_to_int f (fp_of_int f a) = a"
    and "\<And>a. \<bar>a\<bar> \<le> 2 ^ 53 \<Longrightarrow> fp_abs f (fp_sub f (fp_of_int f a) (fp_of_int f a)) = fp_of_int f 0"
    and "fp_le f (fp_of_int f 0) (fp_eps f)"
    and "\<And>a b. \<bar>a\<bar> \<le> 2 ^ 53 \<Longrightarrow> \<bar>b\<bar> \<le> 2 ^ 53 \<Longrightarrow> fp_le f (fp_of_int f a) (fp_of_int f b) \<longleftrightarrow> a \<le> b"
  using assms unfolding exact_ints_def by blast+

lemma digits_loop_show:
  assumes f: "exact_ints f"
  shows "n < 2 ^ 40 \<Longrightarrow> digits_loop f (fp_of_int f 0) (show_nat n @ r) = digits_loop f (fp_of_int f (int n)) r"
proof (induction n arbitrary: r rule: show_nat.induct)
  case (1 n)
  have step: "digits_loop f (fp_of_int f (int m)) (char_of (48 + d) # r) = digits_loop f (fp_of_int f (int (m * 10 + d))) r"
    if "d < 10" "m < 2 ^ 40" for m d r
  proof -
    have b: "int m < 2 ^ 40" using that(2) by (metis of_nat_less_iff of_nat_numeral of_nat_power)
    have m: "fp_mul f (fp_of_int f (int m)) (fp_of_int f 10) = fp_of_int f (int m * 10)"
      using b by (intro exact_intsD(2) [OF f]) auto
    have a: "fp_add f (fp_of_int f (int m * 10)) (fp_of_int f (int d)) = fp_of_int f (int m * 10 + int d)"
      using b that(1) by (intro exact_intsD(1) [OF f]) auto
    have "int (code (char_of (48 + d))) - int (code CHR ''0'') = int d"
      using that(1) by (simp add: code_def)
    then show ?thesis using is_digit_digit [OF that(1)] m a by simp
  qed
  show ?case
  proof (cases "n < 10")
    case True
    then show ?thesis using step [of n 0 r] by (simp add: show_nat.simps [of n])
  next
    case False
    have "n div 10 < 2 ^ 40" "n div 10 * 10 + n mod 10 = n" using "1.prems" by auto
    then show ?thesis
      using False "1.IH" [OF False, of "char_of (48 + n mod 10) # r"] step [of "n mod 10" "n div 10" r]
      by (simp add: show_nat.simps [of n])
  qed
qed

lemma digits_loop_stop: "stop r \<Longrightarrow> digits_loop f n r = (n, r)"
  by (cases r) (auto simp: stop_def)

lemma scan_number_show:
  assumes f: "exact_ints f" and i: "int32 i" and r: "stop r"
  shows "scan_number f (show_int i @ r) = Some (fp_of_int f i, r)"
proof -
  define n where "n = nat \<bar>i\<bar>"
  define sgn' where "sgn' = (if i < 0 then -1 else 1 :: int)"
  have n: "n < 2 ^ 40" using i unfolding n_def int32_def by (simp add: nat_less_iff) linarith
  have ii: "sgn' * int n = i" by (simp add: sgn'_def n_def)
  obtain c t where ct: "show_nat n = c # t" "is_digit c" "0 < n \<Longrightarrow> c \<noteq> CHR ''0''"
    using show_nat_hd [of n] by blast
  have c: "c \<noteq> CHR ''-''" using ct(2) is_digit_chars(1) by auto
  have sign: "(if cur (show_int i @ r) = CHR ''-'' then (-1, tl (show_int i @ r)) else (1 :: int, show_int i @ r)) =
      (sgn', show_nat n @ r)"
    using c ct(1) by (auto simp: show_int_def sgn'_def n_def)
  have zero: "show_nat 0 = ''0''" using code_eq_iff [of "char_of (48 :: nat)" "CHR ''0''"] by (simp add: show_nat.simps [of 0] code_def)
  have digits: "(let num = (if cur (show_nat n @ r) = CHR ''0'' then tl (show_nat n @ r) else show_nat n @ r)
      in if is_digit (cur num) \<and> cur num \<noteq> CHR ''0'' then digits_loop f (fp_of_int f 0) num else (fp_of_int f 0, num)) =
      (fp_of_int f (int n), r)"
  proof (cases "n = 0")
    case True
    then show ?thesis using r zero by (simp add: stop_def)
  next
    case False
    then show ?thesis
      using ct digits_loop_show [OF f n, of r] digits_loop_stop [OF r] by simp
  qed
  have b: "\<bar>int n\<bar> \<le> 2 ^ 31" using i by (simp add: n_def int32_def abs_le_iff)
  have add: "fp_add f (fp_of_int f 0) (fp_of_int f (0 * 1)) = fp_of_int f 0"
    using exact_intsD(1) [OF f, of 0 0] by simp
  have m1: "fp_mul f (fp_of_int f sgn') (fp_of_int f (int n)) = fp_of_int f i"
    using exact_intsD(2) [OF f, of sgn' "int n"] b ii by (auto simp: sgn'_def n_def)
  have m2: "fp_mul f (fp_of_int f i) (fp_of_int f 1) = fp_of_int f i"
    using exact_intsD(2) [OF f, of i 1] b ii by (auto simp: n_def)
  have nodot: "cur r \<noteq> CHR ''.''" "cur r \<noteq> CHR ''e''" "cur r \<noteq> CHR ''E''" using r by (auto simp: stop_def)
  show ?thesis
    unfolding scan_number_def sign Let_def [of "(_, _)"] prod.case
    using digits nodot add m1 m2 exact_intsD(3) [OF f] by (simp add: Let_def)
qed

lemma print_number_show:
  assumes f: "exact_ints (jf env)" and i: "int32 (j_valueint n)" "j_valuedouble n = fp_of_int (jf env) (j_valueint n)"
    and ok: "\<And>n. jstr_ok env n"
  shows "print_number env n = Some (Some (show_int (j_valueint n)))"
proof -
  let ?i = "j_valueint n"
  have b: "\<bar>?i\<bar> \<le> 2 ^ 53" "?i \<le> 2 ^ 31 - 1" "- (2 ^ 31) \<le> ?i" using i(1) by (auto simp: int32_def)
  have "nat \<bar>?i\<bar> < 10 ^ Suc 10" using i(1) by (simp add: int32_def nat_less_iff) linarith
  from length_show_nat [OF this] have "length (show_int ?i) + 1 \<le> 21"
    by (auto simp: show_int_def)
  then show ?thesis
    using b ok exact_intsD(5-7) [OF f] by (simp add: print_number_def i(2) Let_def)
qed

end
