(* ===== verification/CjsonTree.thy ===== *)
theory CjsonTree
  imports CjsonStr
begin

text \<open>
  JSON values as a datatype, their representation by nodes in the heap, and the printer: it writes the
  reference text of the represented value, never beyond the buffers it allocates, and minifying the
  formatted text gives the unformatted one.
\<close>

section \<open>Values and their representation\<close>

datatype json =
    JNull
  | JFalse
  | JTrue
  | JNum int
  | JStr cstr
  | JArr "json list"
  | JObj "(cstr \<times> json) list"

definition nxt :: "(ptr \<Rightarrow> 'd cJSON option) \<Rightarrow> ptr \<Rightarrow> ptr option" where
  "nxt h p = map_option j_next (h p)"

definition prv :: "(ptr \<Rightarrow> 'd cJSON option) \<Rightarrow> ptr \<Rightarrow> ptr option" where
  "prv h p = map_option j_prev (h p)"

text \<open>The node at \<open>p\<close> represents a value, with all nodes below it in \<open>A\<close>; the children form a doubly
  linked list.\<close>

definition named :: "(ptr \<Rightarrow> 'd cJSON option) \<Rightarrow> ptr \<Rightarrow> cstr \<Rightarrow> bool" where
  "named h p k \<longleftrightarrow> map_option j_string (h p) = Some (Some k)"

inductive jval :: "'d fpu \<Rightarrow> (ptr \<Rightarrow> 'd cJSON option) \<Rightarrow> ptr set \<Rightarrow> ptr \<Rightarrow> json \<Rightarrow> bool" for f h A where
  jval_null: "p \<noteq> NULL \<Longrightarrow> h p = Some n \<Longrightarrow> j_type n = cJSON_NULL \<Longrightarrow> jval f h A p JNull"
| jval_false: "p \<noteq> NULL \<Longrightarrow> h p = Some n \<Longrightarrow> j_type n = cJSON_False \<Longrightarrow> jval f h A p JFalse"
| jval_true: "p \<noteq> NULL \<Longrightarrow> h p = Some n \<Longrightarrow> j_type n = cJSON_True \<Longrightarrow> jval f h A p JTrue"
| jval_num: "p \<noteq> NULL \<Longrightarrow> h p = Some n \<Longrightarrow> j_type n = cJSON_Number \<Longrightarrow> j_valueint n = i \<Longrightarrow>
    j_valuedouble n = fp_of_int f i \<Longrightarrow> int32 i \<Longrightarrow> jval f h A p (JNum i)"
| jval_str: "p \<noteq> NULL \<Longrightarrow> h p = Some n \<Longrightarrow> j_type n = cJSON_String \<Longrightarrow> j_valuestring n = Some str \<Longrightarrow>
    jval f h A p (JStr str)"
| jval_arr: "p \<noteq> NULL \<Longrightarrow> h p = Some n \<Longrightarrow> j_type n = cJSON_Array \<Longrightarrow>
    dchain (nxt h) (prv h) NULL (j_child n) ps \<Longrightarrow> set ps \<subseteq> A \<Longrightarrow> list_all2 (jval f h A) ps js \<Longrightarrow> jval f h A p (JArr js)"
| jval_obj: "p \<noteq> NULL \<Longrightarrow> h p = Some n \<Longrightarrow> j_type n = cJSON_Object \<Longrightarrow>
    dchain (nxt h) (prv h) NULL (j_child n) ps \<Longrightarrow> set ps \<subseteq> A \<Longrightarrow>
    list_all2 (\<lambda>p kv. named h p (fst kv) \<and> jval f h A p (snd kv)) ps kvs \<Longrightarrow> jval f h A p (JObj kvs)"

inductive_cases jval_nullE: "jval f h A p JNull"
inductive_cases jval_falseE: "jval f h A p JFalse"
inductive_cases jval_trueE: "jval f h A p JTrue"
inductive_cases jval_numE: "jval f h A p (JNum i)"
inductive_cases jval_strE: "jval f h A p (JStr t)"
inductive_cases jval_arrE: "jval f h A p (JArr js)"
inductive_cases jval_objE: "jval f h A p (JObj kvs)"

primrec jdepth :: "json \<Rightarrow> nat" where
  "jdepth JNull = 0"
| "jdepth JFalse = 0"
| "jdepth JTrue = 0"
| "jdepth (JNum i) = 0"
| "jdepth (JStr t) = 0"
| "jdepth (JArr js) = Suc (Max (insert 0 (set (map jdepth js))))"
| "jdepth (JObj kvs) = Suc (Max (insert 0 (set (map snd (map (map_prod (\<lambda>x. x) jdepth) kvs)))))"

text \<open>The reference text of a value at nesting depth \<open>d\<close>.\<close>

primrec render :: "json \<Rightarrow> int \<Rightarrow> bool \<Rightarrow> cstr" where
  "render JNull d fmt = ''null''"
| "render JFalse d fmt = ''false''"
| "render JTrue d fmt = ''true''"
| "render (JNum i) d fmt = show_int i"
| "render (JStr t) d fmt = quoted t"
| "render (JArr js) d fmt =
     ''['' @ compose_array fmt (map (\<lambda>r. r (d + 1) fmt) (map render js)) @ '']''"
| "render (JObj kvs) d fmt =
     (if kvs = [] then ''{'' @ (if fmt then CHR 0x0A # tabs (d - 1) else []) @ ''}''
      else ''{'' @ (if fmt then [CHR 0x0A] else []) @
        compose_object fmt (d + 1) (map (\<lambda>(k, r). (quoted k, r (d + 1) fmt)) (map (map_prod (\<lambda>x. x) render) kvs)) @
        (if fmt then tabs d else []) @ ''}'')"

text \<open>Strings in a C value contain no terminator.\<close>

primrec jclean :: "json \<Rightarrow> bool" where
  "jclean JNull \<longleftrightarrow> True"
| "jclean JFalse \<longleftrightarrow> True"
| "jclean JTrue \<longleftrightarrow> True"
| "jclean (JNum i) \<longleftrightarrow> int32 i"
| "jclean (JStr t) \<longleftrightarrow> CHR 0x00 \<notin> set t"
| "jclean (JArr js) \<longleftrightarrow> list_all id (map jclean js)"
| "jclean (JObj kvs) \<longleftrightarrow> list_all (\<lambda>(k, c). CHR 0x00 \<notin> set k \<and> c) (map (map_prod (\<lambda>x. x) jclean) kvs)"

section \<open>Printing\<close>

lemma nxt_eq_Some: "nxt h p = Some q \<longleftrightarrow> (\<exists>n. h p = Some n \<and> j_next n = q)"
  by (auto simp: nxt_def)

lemma prv_eq_Some: "prv h p = Some q \<longleftrightarrow> (\<exists>n. h p = Some n \<and> j_prev n = q)"
  by (auto simp: prv_def)

lemma jat_some: "jat s p = Some n \<longleftrightarrow> p \<noteq> NULL \<and> jheap s p = Some n"
  by (auto simp: jat_def)

lemma count_loop_chain: "chain (nxt (jheap s)) p ps \<Longrightarrow> count_loop s p i = Some (i + length ps)"
proof (induction ps arbitrary: p i)
  case (Cons q ps)
  then obtain n where "p = q" "q \<noteq> NULL" "jheap s q = Some n" "chain (nxt (jheap s)) (j_next n) ps"
    by (auto simp: nxt_eq_Some)
  then show ?case using Cons.IH by (simp add: count_loop.simps [of s q] jat_def)
qed (simp add: count_loop.simps)

lemma print_elems_chain:
  assumes "chain (nxt (jheap s)) p ps" and "list_all2 (\<lambda>p e. pv p d fmt = Some (Some e)) ps es"
  shows "print_elems pv s p d fmt = Some (Some es)"
  using assms
proof (induction ps arbitrary: p es)
  case (Cons q ps)
  then obtain n e es' where "p = q" "q \<noteq> NULL" "jheap s q = Some n" "chain (nxt (jheap s)) (j_next n) ps"
    "es = e # es'" "pv q d fmt = Some (Some e)" "list_all2 (\<lambda>p e. pv p d fmt = Some (Some e)) ps es'"
    by (auto simp: nxt_eq_Some list_all2_Cons1)
  then show ?case using Cons.IH by (simp add: print_elems.simps [of pv s q] jat_def)
qed (simp add: print_elems.simps)

lemma print_members_chain:
  assumes "chain (nxt (jheap s)) p ps"
    and "list_all2 (\<lambda>p ke. (\<exists>k. named (jheap s) p k \<and> fst ke = quoted k) \<and> pv p d fmt = Some (Some (snd ke))) ps es"
    and "\<And>n. jstr_ok env n"
  shows "print_members pv env s p d fmt = Some (Some es)"
  using assms(1,2)
proof (induction ps arbitrary: p es)
  case (Cons q ps)
  then obtain n k e es' where "p = q" "q \<noteq> NULL" "jheap s q = Some n" "chain (nxt (jheap s)) (j_next n) ps"
    "es = (quoted k, e) # es'" "named (jheap s) q k" "pv q d fmt = Some (Some e)"
    "list_all2 (\<lambda>p ke. (\<exists>k. named (jheap s) p k \<and> fst ke = quoted k) \<and> pv p d fmt = Some (Some (snd ke))) ps es'"
    by (auto simp: nxt_eq_Some list_all2_Cons1)
  then show ?case
    using Cons.IH by (simp add: print_members.simps [of pv env s q] jat_def named_def print_string_ptr_quoted [OF assms(3)])
qed (simp add: print_members.simps)

lemma compose_array_length:
  "es \<noteq> [] \<Longrightarrow> length (compose_array fmt es) + 2 \<le> sum_list (map (\<lambda>e. length e + 2 + (if fmt then 1 else 0)) es)"
  by (induction es rule: induct_list012) auto

lemma compose_object_length:
  "length (compose_object fmt d es) \<le> sum_list (map (\<lambda>(n, e). length e + length n + 2 + (if fmt then 2 + nat d else 0)) es)"
  by (induction es) (auto simp: tabs_def)

lemma print_array_ok:
  assumes "jat s item = Some i" and "chain (nxt (jheap s)) (j_child i) ps" and "\<And>n. jstr_ok env n"
    and "list_all2 (\<lambda>p e. pv p (d + 1) fmt = Some (Some e)) ps es"
  shows "print_array pv env s item d fmt = Some (Some (''['' @ compose_array fmt es @ '']''))"
proof (cases "ps = []")
  case True
  then show ?thesis using assms by (simp add: print_array_def count_loop.simps)
next
  case False
  then have "es \<noteq> []" using assms(4) by auto
  then show ?thesis
    using assms False compose_array_length [of es fmt] print_elems_chain [where pv = pv and d = "d + 1" and fmt = fmt, OF assms(2,4)]
    by (simp add: print_array_def count_loop_chain)
qed

lemma print_object_ok:
  assumes "jat s item = Some i" and "chain (nxt (jheap s)) (j_child i) ps" and "\<And>n. jstr_ok env n"
    and "list_all2 (\<lambda>p ke. (\<exists>k. named (jheap s) p k \<and> fst ke = quoted k) \<and> pv p (d + 1) fmt = Some (Some (snd ke))) ps es"
    and "0 \<le> d"
  shows "print_object pv env s item d fmt = Some (Some
    (if es = [] then ''{'' @ (if fmt then CHR 0x0A # tabs (d - 1) else []) @ ''}''
     else ''{'' @ (if fmt then [CHR 0x0A] else []) @ compose_object fmt (d + 1) es @ (if fmt then tabs d else []) @ ''}''))"
proof (cases "ps = []")
  case True
  then show ?thesis using assms by (auto simp: print_object_def count_loop.simps tabs_def)
next
  case False
  then have "es \<noteq> []" using assms(4) by auto
  then show ?thesis
    using assms False compose_object_length [of fmt "d + 1" es] print_members_chain [where pv = pv and d = "d + 1" and fmt = fmt, OF assms(2,4,3)]
    by (auto simp: print_object_def count_loop_chain tabs_def Let_def)
qed

lemma jdepth_elem:
  "jdepth (JArr js) \<le> k \<Longrightarrow> j \<in> set js \<Longrightarrow> jdepth j < k"
  "jdepth (JObj kvs) \<le> k \<Longrightarrow> (key, v) \<in> set kvs \<Longrightarrow> jdepth v < k"
proof -
  have M: "x \<le> Max (insert 0 (set xs))" if "x \<in> set xs" for x :: nat and xs
    using that by simp
  show "jdepth j < k" if "jdepth (JArr js) \<le> k" "j \<in> set js"
  proof -
    have "jdepth j \<le> Max (insert 0 (set (map jdepth js)))" by (rule M) (simp add: that(2))
    also have "\<dots> < k" using that(1) by (simp only: jdepth.simps Suc_le_eq)
    finally show ?thesis .
  qed
  show "jdepth v < k" if "jdepth (JObj kvs) \<le> k" "(key, v) \<in> set kvs"
  proof -
    have "jdepth v \<le> Max (insert 0 (set (map snd (map (map_prod (\<lambda>x. x) jdepth) kvs))))"
      by (rule M) (use that(2) in force)
    also have "\<dots> < k" using that(1) by (simp only: jdepth.simps Suc_le_eq)
    finally show ?thesis .
  qed
qed

lemmas cJSON_types = cJSON_NULL_def cJSON_False_def cJSON_True_def cJSON_Number_def cJSON_String_def
  cJSON_Array_def cJSON_Object_def

lemma print_value_render:
  assumes "jval f (jheap s) A p j" and f: "jf env = f" "exact_ints f" and ok: "\<And>n. jstr_ok env n"
  shows "jdepth j < k \<Longrightarrow> 0 \<le> d \<Longrightarrow> print_value k env s p d fmt = Some (Some (render j d fmt))"
  using assms(1)
proof (induction j arbitrary: p k d rule: json.induct)
  case (JArr js)
  from JArr.prems(3) obtain n ps where n: "p \<noteq> NULL" "jheap s p = Some n" "j_type n = cJSON_Array"
      "dchain (nxt (jheap s)) (prv (jheap s)) NULL (j_child n) ps" "list_all2 (jval f (jheap s) A) ps js"
    by (auto elim: jval_arrE)
  obtain k' where k: "k = Suc k'" "jdepth (JArr js) \<le> k'" using JArr.prems(1) by (cases k) (simp_all del: jdepth.simps)
  have "list_all2 (\<lambda>p e. print_value k' env s p (d + 1) fmt = Some (Some e)) ps (map (\<lambda>j. render j (d + 1) fmt) js)"
    using n(5) JArr.IH JArr.prems(2) jdepth_elem(1) [OF k(2)]
    by (auto simp: list_all2_conv_all_nth)
  from print_array_ok [where item = p and i = n and pv = "print_value k' env s" and d = d and fmt = fmt, OF _ dchain_chain [OF n(4)] ok this] n(1-3) show ?case
    by (simp add: k(1) jat_def cJSON_types o_def)
next
  case (JObj kvs)
  from JObj.prems(3) obtain n ps where n: "p \<noteq> NULL" "jheap s p = Some n" "j_type n = cJSON_Object"
      "dchain (nxt (jheap s)) (prv (jheap s)) NULL (j_child n) ps"
      "list_all2 (\<lambda>p kv. named (jheap s) p (fst kv) \<and> jval f (jheap s) A p (snd kv)) ps kvs"
    by (auto elim: jval_objE)
  obtain k' where k: "k = Suc k'" "jdepth (JObj kvs) \<le> k'" using JObj.prems(1) by (cases k) (simp_all del: jdepth.simps)
  have v: "print_value k' env s q (d + 1) fmt = Some (Some (render v (d + 1) fmt))"
    if "(key, v) \<in> set kvs" "jval f (jheap s) A q v" for key v q
    using JObj.IH [OF that(1), of v] jdepth_elem(2) [OF k(2) that(1)] JObj.prems(2) that(2) by simp
  have "list_all2 (\<lambda>p ke. (\<exists>k. named (jheap s) p k \<and> fst ke = quoted k) \<and>
      print_value k' env s p (d + 1) fmt = Some (Some (snd ke))) ps (map (\<lambda>(k, v). (quoted k, render v (d + 1) fmt)) kvs)"
    unfolding list_all2_map2
  proof (rule list.rel_mono_strong [OF n(5)])
    fix q kv
    assume "kv \<in> set kvs" and *: "named (jheap s) q (fst kv) \<and> jval f (jheap s) A q (snd kv)"
    then have "print_value k' env s q (d + 1) fmt = Some (Some (render (snd kv) (d + 1) fmt))"
      using v [of "fst kv" "snd kv"] by simp
    with * show "(\<exists>k. named (jheap s) q k \<and> fst (case kv of (k, v) \<Rightarrow> (quoted k, render v (d + 1) fmt)) = quoted k) \<and>
        print_value k' env s q (d + 1) fmt = Some (Some (snd (case kv of (k, v) \<Rightarrow> (quoted k, render v (d + 1) fmt))))"
      by (auto simp: split_beta)
  qed
  from print_object_ok [where item = p and i = n and pv = "print_value k' env s" and d = d and fmt = fmt, OF _ dchain_chain [OF n(4)] ok this JObj.prems(2)] n(1-3) show ?case
    by (simp add: k(1) jat_def cJSON_types o_def case_prod_unfold)
next
  case (JNum i)
  then obtain n where "p \<noteq> NULL" "jheap s p = Some n" "j_type n = cJSON_Number" "j_valueint n = i"
      "j_valuedouble n = fp_of_int f i" "int32 i" by (auto elim: jval_numE)
  then show ?case
    using JNum.prems(1) print_number_show [of env n] f ok by (cases k) (simp_all add: jat_def cJSON_types)
next
  case (JStr t)
  then obtain n where "p \<noteq> NULL" "jheap s p = Some n" "j_type n = cJSON_String" "j_valuestring n = Some t"
    by (auto elim: jval_strE)
  then show ?case
    using JStr.prems(1) by (cases k) (simp_all add: jat_def cJSON_types print_string_def print_string_ptr_quoted [OF ok])
next
  case JNull
  then obtain n where "p \<noteq> NULL" "jheap s p = Some n" "j_type n = cJSON_NULL" by (auto elim: jval_nullE)
  then show ?case using JNull.prems(1) by (cases k) (simp_all add: jat_def cJSON_types cJSON_strdup_def ok)
next
  case JFalse
  then obtain n where "p \<noteq> NULL" "jheap s p = Some n" "j_type n = cJSON_False" by (auto elim: jval_falseE)
  then show ?case using JFalse.prems(1) by (cases k) (simp_all add: jat_def cJSON_types cJSON_strdup_def ok)
next
  case JTrue
  then obtain n where "p \<noteq> NULL" "jheap s p = Some n" "j_type n = cJSON_True" by (auto elim: jval_trueE)
  then show ?case using JTrue.prems(1) by (cases k) (simp_all add: jat_def cJSON_types cJSON_strdup_def ok)
qed

section \<open>Minification\<close>

definition plain :: "char \<Rightarrow> bool" where
  "plain c \<longleftrightarrow> c \<notin> {CHR '' '', CHR 0x09, CHR 0x0D, CHR 0x0A, CHR ''/'', CHR 0x22}"

lemma minify_plain: "list_all plain t \<Longrightarrow> minify_loop into (t @ r) = minify_loop (into @ t) r"
proof (induction t arbitrary: into)
  case (Cons c t)
  then have "minify_loop into (c # (t @ r)) = minify_loop (into @ [c]) (t @ r)"
    by (simp add: minify_loop.simps [of into "c # (t @ r)"] plain_def)
  with Cons show ?case by simp
qed simp

lemma minify_space:
  "list_all (\<lambda>c. c \<in> {CHR '' '', CHR 0x09, CHR 0x0A}) t \<Longrightarrow> minify_loop into (t @ r) = minify_loop into r"
proof (induction t)
  case (Cons c t)
  then have "minify_loop into (c # (t @ r)) = minify_loop into (t @ r)"
    by (auto simp: minify_loop.simps [of into "c # (t @ r)"])
  with Cons show ?case by simp
qed simp

lemma minify_string_escape:
  "CHR 0x00 \<notin> set str \<Longrightarrow>
   minify_string into (escape_loop str @ CHR 0x22 # r) = Some (into @ escape_loop str, CHR 0x22 # r)"
proof (induction str arbitrary: into)
  case (Cons c str)
  have c: "CHR 0x00 \<noteq> c" using Cons.prems by auto
  have "minify_string into (esc1 c @ p) = minify_string (into @ esc1 c) p" for into p
    using c
  proof (cases rule: esc1_cases)
    case plain
    then show ?thesis by simp
  next
    case (escaped d)
    then show ?thesis by simp
  next
    case control
    then have "hex_lower (code c div 16) \<noteq> CHR 0x22 \<and> hex_lower (code c div 16) \<noteq> CHR 0x5C"
      "hex_lower (code c mod 16) \<noteq> CHR 0x22 \<and> hex_lower (code c mod 16) \<noteq> CHR 0x5C"
      by (intro hex_lower_plain; simp)+
    with control show ?thesis by simp
  qed
  with Cons show ?case by (simp add: escape_loop_Cons del: escape_loop.simps)
qed simp

lemma minify_quoted:
  assumes "CHR 0x00 \<notin> set str"
  shows "minify_loop into (quoted str @ r) = minify_loop (into @ quoted str) r"
  by (subst minify_loop.simps) (simp add: quoted_def minify_string_escape [OF assms] adv_def)

lemma show_nat_plain: "list_all plain (show_nat n)"
proof (induction n rule: show_nat.induct)
  case (1 n)
  have p: "plain (char_of (48 + d))" if "d < 10" for d :: nat
  proof -
    have "is_digit (char_of (48 + d))" using that by (rule is_digit_digit)
    moreover have "\<not> is_digit c" if "c \<in> {CHR '' '', CHR 0x09, CHR 0x0D, CHR 0x0A, CHR ''/'', CHR 0x22}" for c
      using that by (auto simp: is_digit_def code_def)
    ultimately show ?thesis unfolding plain_def by blast
  qed
  then show ?case using 1 by (simp add: show_nat.simps [of n])
qed

lemma show_int_plain: "list_all plain (show_int i)"
  by (simp add: show_int_def show_nat_plain) (simp add: plain_def)

lemma tabs_space: "list_all (\<lambda>c. c \<in> {CHR '' '', CHR 0x09, CHR 0x0A}) (tabs d)"
  by (simp add: tabs_def list_all_iff)

lemma minify_newline: "minify_loop into (CHR 0x0A # p) = minify_loop into p"
  using minify_space [of "[CHR 0x0A]" into p] by simp

lemma minify_compose_array:
  assumes "list_all2 (\<lambda>t u. \<forall>into r. minify_loop into (t @ r) = minify_loop (into @ u) r) ts us"
  shows "minify_loop into (compose_array True ts @ r) = minify_loop (into @ compose_array False us) r"
  using assms
proof (induction ts us arbitrary: into rule: list_induct2')
  case (4 t ts u us)
  show ?case
  proof (cases ts)
    case Nil
    then show ?thesis using 4 by simp
  next
    case (Cons t' ts')
    then obtain u' us' where us: "us = u' # us'" using 4 by (auto simp: list_all2_Cons1)
    have "minify_loop i ('', '' @ p) = minify_loop (i @ '','') p" for i p
      using minify_plain [of "'',''" i "'' '' @ p"] minify_space [of "'' ''" "i @ '',''" p] by (simp add: plain_def)
    then show ?thesis using 4 Cons us by simp
  qed
qed simp_all

lemma minify_compose_object:
  assumes "list_all2 (\<lambda>(m, t) (n, u). (\<forall>into r. minify_loop into (m @ r) = minify_loop (into @ n) r) \<and>
      (\<forall>into r. minify_loop into (t @ r) = minify_loop (into @ u) r)) ts us"
  shows "minify_loop into (compose_object True d ts @ r) = minify_loop (into @ compose_object False d' us) r"
  using assms
proof (induction ts us arbitrary: into rule: list_induct2')
  case (4 mt ts nu us)
  obtain m t n u where mt: "mt = (m, t)" "nu = (n, u)" by (cases mt, cases nu)
  have e: "ts = [] \<longleftrightarrow> us = []" using 4 by auto
  have c: "minify_loop i (CHR '':'' # CHR 0x09 # p) = minify_loop (i @ '':'') p" for i p
    using minify_plain [of "'':''" i "[CHR 0x09] @ p"] minify_space [of "[CHR 0x09]" "i @ '':''" p] by (simp add: plain_def)
  have s: "minify_loop i (CHR '','' # CHR 0x0A # p) = minify_loop (i @ '','') p" for i p
    using minify_plain [of "'',''" i "[CHR 0x0A] @ p"] minify_space [of "[CHR 0x0A]" "i @ '',''" p] by (simp add: plain_def)
  show ?case using 4 e mt by (simp add: minify_space [OF tabs_space] minify_newline c s)
qed simp_all

lemma minify_literals:
  "minify_loop into (CHR ''n'' # CHR ''u'' # CHR ''l'' # CHR ''l'' # r) = minify_loop (into @ ''null'') r"
  "minify_loop into (CHR ''f'' # CHR ''a'' # CHR ''l'' # CHR ''s'' # CHR ''e'' # r) = minify_loop (into @ ''false'') r"
  "minify_loop into (CHR ''t'' # CHR ''r'' # CHR ''u'' # CHR ''e'' # r) = minify_loop (into @ ''true'') r"
  using minify_plain [of "''null''" into r] minify_plain [of "''false''" into r] minify_plain [of "''true''" into r]
  by (simp_all add: plain_def)

lemma minify_render:
  "jclean j \<Longrightarrow> minify_loop into (render j d True @ r) = minify_loop (into @ render j d' False) r"
proof (induction j arbitrary: into d d' r)
  case (JArr js)
  have "list_all2 (\<lambda>t u. \<forall>into r. minify_loop into (t @ r) = minify_loop (into @ u) r)
      (map (\<lambda>j. render j (d + 1) True) js) (map (\<lambda>j. render j (d' + 1) False) js)"
    using JArr by (simp add: list_all2_conv_all_nth list_all_length)
  from minify_compose_array [OF this] show ?case
    using minify_plain [of "''[''" into] minify_plain [of "'']''"] by (simp add: plain_def o_def)
next
  case (JObj kvs)
  have "list_all2 (\<lambda>(m, t) (n, u). (\<forall>into r. minify_loop into (m @ r) = minify_loop (into @ n) r) \<and>
      (\<forall>into r. minify_loop into (t @ r) = minify_loop (into @ u) r))
      (map (\<lambda>kv. (quoted (fst kv), render (snd kv) (d + 1) True)) kvs)
      (map (\<lambda>kv. (quoted (fst kv), render (snd kv) (d' + 1) False)) kvs)"
    unfolding list_all2_map1 list_all2_map2
  proof (rule list.rel_refl_strong)
    fix kv assume kv: "kv \<in> set kvs"
    then have "CHR 0x00 \<notin> set (fst kv)" "jclean (snd kv)" using JObj.prems by (simp_all add: list_all_iff case_prod_unfold)
    then show "(case (quoted (fst kv), render (snd kv) (d + 1) True) of (m, t) \<Rightarrow>
        \<lambda>(n, u). (\<forall>into r. minify_loop into (m @ r) = minify_loop (into @ n) r) \<and>
          (\<forall>into r. minify_loop into (t @ r) = minify_loop (into @ u) r)) (quoted (fst kv), render (snd kv) (d' + 1) False)"
      using JObj.IH [OF kv, of "snd kv"] kv minify_quoted by (cases kv) simp
  qed
  from minify_compose_object [OF this, where d = "d + 1" and d' = "d' + 1"] show ?case
    using minify_plain [of "''{''" into] minify_plain [of "''}''"]
    by (simp add: plain_def o_def case_prod_unfold minify_newline minify_space [OF tabs_space])
qed (simp_all add: minify_plain show_int_plain minify_quoted minify_literals)

end
