(* ===== verification/CjsonParse.thy ===== *)
theory CjsonParse
  imports CjsonTree
begin

text \<open>
  The parser reads the text of every value back: it builds, out of freshly allocated nodes, a tree
  that represents the value, and touches no other node.
\<close>

section \<open>Frames\<close>

definition fresh_malloc :: "'d jenv \<Rightarrow> bool" where
  "fresh_malloc env \<longleftrightarrow> (\<forall>h. finite (dom h) \<longrightarrow> jmalloc env h \<noteq> NULL \<and> h (jmalloc env h) = None)"

text \<open>Only the node \<open>item\<close> of \<open>h\<close> differs in \<open>h'\<close>.\<close>

definition jframe :: "(ptr \<Rightarrow> 'd cJSON option) \<Rightarrow> ptr \<Rightarrow> (ptr \<Rightarrow> 'd cJSON option) \<Rightarrow> bool" where
  "jframe h item h' \<longleftrightarrow> (\<forall>q. q \<in> dom h \<and> q \<noteq> item \<longrightarrow> h' q = h q) \<and> item \<in> dom h' \<and> finite (dom h')"

lemma jframe_dom: "jframe h item h' \<Longrightarrow> dom h \<subseteq> dom h'"
  unfolding jframe_def by (metis domIff subsetI)

lemma jval_mono: "jval f h A p j \<Longrightarrow> A \<subseteq> B \<Longrightarrow> jval f h B p j"
proof (induction rule: jval.induct)
  case (jval_arr p n ps js)
  then show ?case by (intro jval.jval_arr) (auto elim: list_all2_mono)
next
  case (jval_obj p n ps kvs)
  then show ?case by (intro jval.jval_obj) (auto elim: list_all2_mono)
qed (auto intro: jval.intros)

definition same_value :: "'d cJSON \<Rightarrow> 'd cJSON \<Rightarrow> bool" where
  "same_value n n' \<longleftrightarrow> j_type n' = j_type n \<and> j_valuestring n' = j_valuestring n \<and> j_valueint n' = j_valueint n \<and>
     j_valuedouble n' = j_valuedouble n \<and> j_child n' = j_child n"

lemma jval_cong:
  assumes "jval f h A p j" and "\<And>q. q \<in> A \<Longrightarrow> h' q = h q"
    and "h p = Some n" and "h' p = Some n'" and "same_value n n'"
  shows "jval f h' A p j"
  using assms(1,3-5)
proof (induction arbitrary: n n' rule: jval.induct)
  case (jval_arr p m ps js)
  have "dchain (nxt h') (prv h') NULL (j_child n') ps"
    using jval_arr assms(2) dchain_cong [of ps "nxt h" "nxt h'" "prv h" "prv h'"]
    by (auto simp: nxt_def prv_def same_value_def subset_iff)
  moreover have "list_all2 (jval f h' A) ps js"
  proof (rule list.rel_mono_strong [OF jval_arr.IH])
    fix q j
    assume q: "q \<in> set ps" and IH: "jval f h A q j \<and> (\<forall>x. h q = Some x \<longrightarrow> (\<forall>xa. h' q = Some xa \<longrightarrow> same_value x xa \<longrightarrow> jval f h' A q j))"
    obtain x where "h q = Some x" using dchain_nodes [OF jval_arr(4) q] by (auto simp: nxt_def)
    moreover have "h' q = h q" using assms(2) jval_arr(5) q by blast
    ultimately show "jval f h' A q j" using IH by (auto simp: same_value_def)
  qed
  ultimately show ?case using jval_arr by (intro jval.jval_arr [where n = n']) (auto simp: same_value_def)
next
  case (jval_obj p m ps kvs)
  have "dchain (nxt h') (prv h') NULL (j_child n') ps"
    using jval_obj assms(2) dchain_cong [of ps "nxt h" "nxt h'" "prv h" "prv h'"]
    by (auto simp: nxt_def prv_def same_value_def subset_iff)
  moreover have "list_all2 (\<lambda>p kv. named h' p (fst kv) \<and> jval f h' A p (snd kv)) ps kvs"
  proof (rule list.rel_mono_strong [OF jval_obj.IH])
    fix q kv
    assume q: "q \<in> set ps" and IH: "named h q (fst kv) \<and> jval f h A q (snd kv) \<and>
      (\<forall>x. h q = Some x \<longrightarrow> (\<forall>xa. h' q = Some xa \<longrightarrow> same_value x xa \<longrightarrow> jval f h' A q (snd kv)))"
    obtain x where "h q = Some x" using dchain_nodes [OF jval_obj(4) q] by (auto simp: nxt_def)
    moreover have "h' q = h q" using assms(2) jval_obj(5) q by blast
    ultimately show "named h' q (fst kv) \<and> jval f h' A q (snd kv)" using IH by (auto simp: same_value_def named_def)
  qed
  ultimately show ?case using jval_obj by (intro jval.jval_obj [where n = n']) (auto simp: same_value_def)
qed (auto simp: same_value_def intro: jval.intros)

section \<open>Loops over elements\<close>

text \<open>What the representation of an element must satisfy, and what a parser of elements must do.\<close>

definition stable :: "((ptr \<Rightarrow> 'd cJSON option) \<Rightarrow> ptr set \<Rightarrow> ptr \<Rightarrow> bool) \<Rightarrow> bool" where
  "stable R \<longleftrightarrow> (\<forall>h h' A B p n x. R h A p \<and> A \<subseteq> B \<and> (\<forall>q\<in>A. h' q = h q) \<and> h p = Some n \<and>
     (h' p = Some n \<or> h' p = Some (n\<lparr>j_next := x\<rparr>)) \<longrightarrow> R h' B p)"

definition elem_ok :: "('d jst \<Rightarrow> ptr \<Rightarrow> cstr \<Rightarrow> ('d jst \<times> cstr option) option) \<Rightarrow> cstr \<Rightarrow>
    ((ptr \<Rightarrow> 'd cJSON option) \<Rightarrow> ptr set \<Rightarrow> ptr \<Rightarrow> bool) \<Rightarrow> bool" where
  "elem_ok pe t R \<longleftrightarrow> (\<exists>c t'. t = c # t' \<and> 32 < code c) \<and>
     (\<forall>s item n r. item \<noteq> NULL \<and> jheap s item = Some n \<and> j_child n = NULL \<and> finite (dom (jheap s)) \<and> stop r \<longrightarrow>
       (\<exists>s' n'. pe s item (t @ r) = Some (s', Some (skip r)) \<and> R (jheap s') (dom (jheap s') - dom (jheap s)) item \<and>
          jframe (jheap s) item (jheap s') \<and> jheap s' item = Some n' \<and> j_next n' = j_next n \<and> j_prev n' = j_prev n))"

lemma elem_okD:
  "elem_ok pe t R \<Longrightarrow> item \<noteq> NULL \<and> jheap s item = Some n \<and> j_child n = NULL \<and> finite (dom (jheap s)) \<and> stop r \<Longrightarrow>
    \<exists>s' n'. pe s item (t @ r) = Some (s', Some (skip r)) \<and> R (jheap s') (dom (jheap s') - dom (jheap s)) item \<and>
      jframe (jheap s) item (jheap s') \<and> jheap s' item = Some n' \<and> j_next n' = j_next n \<and> j_prev n' = j_prev n"
  unfolding elem_ok_def by blast

definition elem_loop :: "'d jenv \<Rightarrow> ('d jst \<Rightarrow> ptr \<Rightarrow> cstr \<Rightarrow> ('d jst \<times> cstr option) option) \<Rightarrow> char \<Rightarrow>
    ('d jst \<Rightarrow> ptr \<Rightarrow> cstr \<Rightarrow> ('d jst \<times> cstr option) option) \<Rightarrow> bool" where
  "elem_loop env pe close L \<longleftrightarrow> (\<forall>s child v. L s child v =
     (if cur v = CHR '','' then do {
        let (s, new_item) = cJSON_New_Item env s;
        if new_item = NULL then Some (s, None)
        else do {
          s \<leftarrow> jupd s child (\<lambda>i. i\<lparr>j_next := new_item\<rparr>);
          s \<leftarrow> jupd s new_item (\<lambda>i. i\<lparr>j_prev := child\<rparr>);
          (s, v) \<leftarrow> pe s new_item (skip (tl v));
          case v of None \<Rightarrow> Some (s, None) | Some v \<Rightarrow> L s new_item v } }
      else if cur v = close then Some (s, Some (tl v))
      else Some (s\<lparr>jep := Some v\<rparr>, None)))"

definition spaces :: "cstr \<Rightarrow> bool" where
  "spaces w \<longleftrightarrow> (\<forall>c\<in>set w. code c \<le> 32)"

lemma skip_spaces: "spaces w \<Longrightarrow> skip (w @ r) = skip r"
  by (induction w) (auto simp: spaces_def)

definition body :: "cstr \<Rightarrow> cstr list \<Rightarrow> cstr" where
  "body w ts = concat (map (\<lambda>t. '','' @ w @ t) ts)"

lemma new_item_run:
  assumes "fresh_malloc env" and "finite (dom (jheap s))"
  obtains q z where "cJSON_New_Item env s = (s\<lparr>jheap := (jheap s)(q \<mapsto> z)\<rparr>, q)" "q \<noteq> NULL" "jheap s q = None"
    "j_next z = NULL" "j_prev z = NULL" "j_child z = NULL"
  using assms that unfolding fresh_malloc_def cJSON_New_Item_def Let_def by (auto split: if_splits)

lemma stable_head:
  assumes "stable R" and "R h4 (dom h4 - dom h3) q" and "h4 q = Some m" and "h5 q = Some (m\<lparr>j_next := p\<rparr>)"
    and "jframe h4 q h5" and "q \<in> dom h3" and "dom h \<subseteq> dom h3"
  shows "R h5 (dom h5 - dom h) q"
proof -
  have "dom h4 - dom h3 \<subseteq> dom h5 - dom h" using jframe_dom [OF assms(5)] assms(7) by blast
  moreover have "\<forall>x\<in>dom h4 - dom h3. h5 x = h4 x" using assms(5,6) unfolding jframe_def by auto
  ultimately show ?thesis using assms(1-4) unfolding stable_def by blast
qed

lemma stable_rest:
  assumes "list_all2 (\<lambda>p R. R h5 (dom h5 - dom h4) p) ps Rs" and "\<And>R. R \<in> set Rs \<Longrightarrow> stable R"
    and "set ps \<subseteq> dom h5 - dom h4" and "dom h \<subseteq> dom h4"
  shows "list_all2 (\<lambda>p R. R h5 (dom h5 - dom h) p) ps Rs"
proof (rule list.rel_mono_strong [OF assms(1)])
  fix x R
  assume x: "x \<in> set ps" "R \<in> set Rs" "R h5 (dom h5 - dom h4) x"
  obtain m where "h5 x = Some m" using x(1) assms(3) by auto
  moreover have "dom h5 - dom h4 \<subseteq> dom h5 - dom h" using assms(4) by blast
  ultimately show "R h5 (dom h5 - dom h) x" using x(3) assms(2) [OF x(2)] unfolding stable_def by blast
qed

lemma jframe_step:
  assumes "jframe h3 q h4" and "jframe h4 q h5" and "q \<notin> dom h" and "h5 item = Some m"
    and "\<And>x. x \<in> dom h \<Longrightarrow> x \<noteq> item \<Longrightarrow> h3 x = h x" and "dom h \<subseteq> dom h3"
  shows "jframe h item h5"
  unfolding jframe_def
proof (intro conjI allI impI)
  fix x assume x: "x \<in> dom h \<and> x \<noteq> item"
  then have "x \<in> dom h3" "x \<noteq> q" "h3 x = h x" using assms by auto
  then show "h5 x = h x" using assms(1,2) jframe_dom [OF assms(1)] unfolding jframe_def by (metis subsetD)
qed (use assms in \<open>auto simp: jframe_def\<close>)

lemma elem_loop_ok:
  assumes L: "elem_loop env pe close L" and env: "fresh_malloc env"
    and c: "close \<noteq> CHR '',''" "32 < code close" and w: "spaces w" "spaces w'" "stop (w' @ close # r)"
    and xs: "list_all2 (elem_ok pe) ts Rs" "\<And>R. R \<in> set Rs \<Longrightarrow> stable R"
    and s: "child \<noteq> NULL" "jheap s child = Some n" "j_next n = NULL" "finite (dom (jheap s))"
  shows "\<exists>s' ps q. L s child (skip (body w ts @ w' @ close # r)) = Some (s', Some r) \<and>
    dchain (nxt (jheap s')) (prv (jheap s')) child q ps \<and> jheap s' child = Some (n\<lparr>j_next := q\<rparr>) \<and>
    list_all2 (\<lambda>p R. R (jheap s') (dom (jheap s') - dom (jheap s)) p) ps Rs \<and>
    set ps \<subseteq> dom (jheap s') - dom (jheap s) \<and> jframe (jheap s) child (jheap s')"
  using xs s
proof (induction ts Rs arbitrary: s child n rule: list_induct2')
  case 1
  have "skip (w' @ close # r) = close # r" using skip_spaces [OF w(2)] c(2) by simp
  moreover have "n\<lparr>j_next := NULL\<rparr> = n" using 1 by simp
  ultimately show ?case
    using L c(1) 1 by (intro exI [of _ s] exI [of _ "[]"] exI [of _ NULL]) (auto simp: elem_loop_def jframe_def body_def)
next
  case (4 t ts R Rs)
  then have e: "elem_ok pe t R" and R: "stable R" by auto
  obtain q z where q: "cJSON_New_Item env s = (s\<lparr>jheap := (jheap s)(q \<mapsto> z)\<rparr>, q)" "q \<noteq> NULL" "jheap s q = None"
      "j_next z = NULL" "j_prev z = NULL" "j_child z = NULL"
    using new_item_run [OF env "4.prems"(6)] by blast
  define h3 where "h3 = (jheap s)(q \<mapsto> z\<lparr>j_prev := child\<rparr>, child \<mapsto> n\<lparr>j_next := q\<rparr>)"
  define s3 where "s3 = s\<lparr>jheap := h3\<rparr>"
  have cq: "child \<noteq> q" using q(3) "4.prems"(4) by auto
  have h3: "h3 q = Some (z\<lparr>j_prev := child\<rparr>)" "h3 child = Some (n\<lparr>j_next := q\<rparr>)" "finite (dom h3)"
    "dom h3 = insert q (dom (jheap s))"
    using cq "4.prems"(4,6) by (auto simp: h3_def)
  have rest: "stop (body w ts @ w' @ close # r)"
    using w(3) by (cases ts) (simp_all add: body_def stop_def is_digit_def code_def)
  have "q \<noteq> NULL \<and> jheap s3 q = Some (z\<lparr>j_prev := child\<rparr>) \<and> j_child (z\<lparr>j_prev := child\<rparr>) = NULL \<and> finite (dom (jheap s3)) \<and>
      stop (body w ts @ w' @ close # r)" using h3 q rest by (simp add: s3_def)
  from elem_okD [OF e this] obtain s4 n4 where
      "pe s3 q (t @ body w ts @ w' @ close # r) = Some (s4, Some (skip (body w ts @ w' @ close # r)))"
      "R (jheap s4) (dom (jheap s4) - dom (jheap s3)) q" "jframe (jheap s3) q (jheap s4)" "jheap s4 q = Some n4"
      "j_next n4 = j_next (z\<lparr>j_prev := child\<rparr>)" "j_prev n4 = j_prev (z\<lparr>j_prev := child\<rparr>)"
    by blast
  then have s4: "pe s3 q (t @ body w ts @ w' @ close # r) = Some (s4, Some (skip (body w ts @ w' @ close # r)))"
      "R (jheap s4) (dom (jheap s4) - dom h3) q" "jframe h3 q (jheap s4)" "jheap s4 q = Some n4"
      "j_next n4 = NULL" "j_prev n4 = child"
    using q(4) by (simp_all add: s3_def)
  from "4.IH" [of q s4 n4] "4.prems" q s4 obtain s5 ps p where s5:
      "L s4 q (skip (body w ts @ w' @ close # r)) = Some (s5, Some r)"
      "dchain (nxt (jheap s5)) (prv (jheap s5)) q p ps" "jheap s5 q = Some (n4\<lparr>j_next := p\<rparr>)"
      "list_all2 (\<lambda>p R. R (jheap s5) (dom (jheap s5) - dom (jheap s4)) p) ps Rs"
      "set ps \<subseteq> dom (jheap s5) - dom (jheap s4)" "jframe (jheap s4) q (jheap s5)"
    by (auto simp: jframe_def)
  have D: "dom h3 \<subseteq> dom (jheap s4)" "dom (jheap s4) \<subseteq> dom (jheap s5)" "dom (jheap s) \<subseteq> dom h3"
    using jframe_dom [OF s4(3)] jframe_dom [OF s5(6)] h3(4) by auto
  have sk: "skip (body w (t # ts) @ w' @ close # r) = CHR '','' # w @ t @ body w ts @ w' @ close # r"
    by (simp add: body_def code_def)
  obtain c0 t' where "t = c0 # t'" "32 < code c0" using e by (auto simp: elem_ok_def)
  then have sk2: "skip (w @ t @ body w ts @ w' @ close # r) = t @ body w ts @ w' @ close # r"
    using skip_spaces [OF w(1)] by simp
  have "jupd (s\<lparr>jheap := (jheap s)(q \<mapsto> z)\<rparr>) child (\<lambda>i. i\<lparr>j_next := q\<rparr>) =
      Some (s\<lparr>jheap := (jheap s)(q \<mapsto> z, child \<mapsto> n\<lparr>j_next := q\<rparr>)\<rparr>)"
    using cq "4.prems"(3,4) by (simp add: jupd_def jat_def)
  moreover have "jupd (s\<lparr>jheap := (jheap s)(q \<mapsto> z, child \<mapsto> n\<lparr>j_next := q\<rparr>)\<rparr>) q (\<lambda>i. i\<lparr>j_prev := child\<rparr>) = Some s3"
    using cq q(2) by (simp add: jupd_def jat_def s3_def h3_def fun_upd_twist)
  ultimately have run: "L s child (skip (body w (t # ts) @ w' @ close # r)) = Some (s5, Some r)"
    using L q(1,2) s4(1) s5(1) unfolding elem_loop_def sk by (simp add: sk2)
  have s5c: "jheap s5 child = Some (n\<lparr>j_next := q\<rparr>)"
    using s4(3) s5(6) h3(2) cq unfolding jframe_def by (metis domI)
  have "R (jheap s5) (dom (jheap s5) - dom (jheap s)) q"
    by (rule stable_head [OF R s4(2,4) s5(3,6)]) (use h3 D in auto)
  moreover have "list_all2 (\<lambda>p R. R (jheap s5) (dom (jheap s5) - dom (jheap s)) p) ps Rs"
    by (rule stable_rest [OF s5(4) _ s5(5)]) (use "4.prems"(2) D in auto)
  moreover have "jframe (jheap s) child (jheap s5)"
    by (rule jframe_step [OF s4(3) s5(6) _ s5c]) (use q(3) D in \<open>auto simp: h3_def\<close>)
  moreover have "dchain (nxt (jheap s5)) (prv (jheap s5)) child q (q # ps)"
    using s5(2,3) q(2) s4(6) by (simp add: nxt_def prv_def)
  moreover have "set (q # ps) \<subseteq> dom (jheap s5) - dom (jheap s)"
    using s5(3,5) D q(3) by (simp add: domI domIff) blast
  ultimately show ?case
    using run s5c by (intro exI [of _ s5] exI [of _ "q # ps"] exI [of _ q]) simp
qed simp_all

section \<open>Arrays and objects\<close>

definition elem_parser :: "'d parser \<Rightarrow> 'd jst \<Rightarrow> ptr \<Rightarrow> cstr \<Rightarrow> ('d jst \<times> cstr option) option" where
  "elem_parser pv s p v = do { (s, v) \<leftarrow> pv s p (Some v); Some (s, skip_opt v) }"

lemma elem_parser_bind:
  "Option.bind (elem_parser pv s p v) g = Option.bind (pv s p (Some v)) (\<lambda>(s, v). g (s, skip_opt v))"
  by (cases "pv s p (Some v)") (auto simp: elem_parser_def)

lemma parse_elems_loop: "elem_loop env (elem_parser pv) CHR '']'' (parse_elems pv env)"
  unfolding elem_loop_def by (intro allI, subst parse_elems.simps) (simp add: elem_parser_bind split: prod.splits)

lemma parse_members_loop: "elem_loop env (parse_pair pv env) CHR ''}'' (parse_members pv env)"
  unfolding elem_loop_def by (intro allI, subst parse_members.simps) simp

text \<open>The first element and the loop, after the node of the container has been given its first child.\<close>

lemma container_ok:
  assumes L: "elem_loop env pe close L" and env: "fresh_malloc env"
    and c: "close \<noteq> CHR '',''" "32 < code close" and w: "spaces w" "spaces w'" "stop (w' @ close # r)"
    and xs: "list_all2 (elem_ok pe) (t # ts) (R # Rs)" "\<And>R'. R' \<in> set (R # Rs) \<Longrightarrow> stable R'"
    and s: "item \<noteq> NULL" "jheap s item = Some n" "finite (dom (jheap s))"
  defines "s1 \<equiv> fst (cJSON_New_Item env s)" and "q \<equiv> snd (cJSON_New_Item env s)"
  shows "\<exists>s2 s'. q \<noteq> NULL \<and> jupd s1 item (\<lambda>i. i\<lparr>j_child := q\<rparr>) = Some s2 \<and>
    (do { (s, v) \<leftarrow> pe s2 q (t @ body w ts @ w' @ close # r);
          case v of None \<Rightarrow> Some (s, None) | Some v \<Rightarrow> L s q v }) = Some (s', Some r) \<and>
    jheap s' item = Some (n\<lparr>j_child := q\<rparr>) \<and> jframe (jheap s) item (jheap s') \<and>
    (\<exists>ps. dchain (nxt (jheap s')) (prv (jheap s')) NULL q ps \<and> set ps \<subseteq> dom (jheap s') - dom (jheap s) \<and>
       list_all2 (\<lambda>p R. R (jheap s') (dom (jheap s') - dom (jheap s)) p) ps (R # Rs))"
proof -
  obtain q' z where "cJSON_New_Item env s = (s\<lparr>jheap := (jheap s)(q' \<mapsto> z)\<rparr>, q')" and q: "q' \<noteq> NULL" "jheap s q' = None"
      "j_next z = NULL" "j_prev z = NULL" "j_child z = NULL"
    using new_item_run [OF env s(3)] by blast
  then have s1: "s1 = s\<lparr>jheap := (jheap s)(q \<mapsto> z)\<rparr>" "q' = q" by (simp_all add: s1_def q_def)
  note q = q [unfolded s1(2)]
  have iq: "item \<noteq> q" using q(2) s(2) by auto
  define h2 where "h2 = (jheap s)(q \<mapsto> z, item \<mapsto> n\<lparr>j_child := q\<rparr>)"
  define s2 where "s2 = s\<lparr>jheap := h2\<rparr>"
  have u: "jupd s1 item (\<lambda>i. i\<lparr>j_child := q\<rparr>) = Some s2"
    using s(1,2) iq by (simp add: s1 jupd_def jat_def s2_def h2_def)
  have h2: "h2 q = Some z" "h2 item = Some (n\<lparr>j_child := q\<rparr>)" "dom h2 = insert q (dom (jheap s))"
    using iq s(2) by (auto simp: h2_def)
  have rest: "stop (body w ts @ w' @ close # r)"
    using w(3) by (cases ts) (simp_all add: body_def stop_def is_digit_def code_def)
  have "q \<noteq> NULL \<and> jheap s2 q = Some z \<and> j_child z = NULL \<and> finite (dom (jheap s2)) \<and> stop (body w ts @ w' @ close # r)"
    using q h2 s(3) rest by (simp add: s2_def)
  from elem_okD [OF _ this, of pe t R] xs(1) obtain s3 n3 where
      "pe s2 q (t @ body w ts @ w' @ close # r) = Some (s3, Some (skip (body w ts @ w' @ close # r)))"
      "R (jheap s3) (dom (jheap s3) - dom (jheap s2)) q" "jframe (jheap s2) q (jheap s3)" "jheap s3 q = Some n3"
      "j_next n3 = j_next z" "j_prev n3 = j_prev z"
    by auto
  then have s3: "pe s2 q (t @ body w ts @ w' @ close # r) = Some (s3, Some (skip (body w ts @ w' @ close # r)))"
      "R (jheap s3) (dom (jheap s3) - dom h2) q" "jframe h2 q (jheap s3)" "jheap s3 q = Some n3"
      "j_next n3 = NULL" "j_prev n3 = NULL" using q by (simp_all add: s2_def)
  have fin: "finite (dom (jheap s3))" using s3(3) by (simp add: jframe_def)
  have xs': "list_all2 (elem_ok pe) ts Rs" "\<And>R'. R' \<in> set Rs \<Longrightarrow> stable R'" using xs by auto
  from elem_loop_ok [OF L env c w xs' q(1) s3(4,5) fin] obtain s4 ps p where s4:
      "L s3 q (skip (body w ts @ w' @ close # r)) = Some (s4, Some r)"
      "dchain (nxt (jheap s4)) (prv (jheap s4)) q p ps" "jheap s4 q = Some (n3\<lparr>j_next := p\<rparr>)"
      "list_all2 (\<lambda>p R. R (jheap s4) (dom (jheap s4) - dom (jheap s3)) p) ps Rs"
      "set ps \<subseteq> dom (jheap s4) - dom (jheap s3)" "jframe (jheap s3) q (jheap s4)"
    by blast
  have D: "dom h2 \<subseteq> dom (jheap s3)" "dom (jheap s3) \<subseteq> dom (jheap s4)" "dom (jheap s) \<subseteq> dom h2"
    using jframe_dom [OF s3(3)] jframe_dom [OF s4(6)] h2(3) by auto
  have "jheap s4 item = Some (n\<lparr>j_child := q\<rparr>)"
    using s3(3) s4(6) h2(2) iq unfolding jframe_def by (metis domI)
  moreover from this have "jframe (jheap s) item (jheap s4)"
    by (rule jframe_step [OF s3(3) s4(6), rotated]) (use q(2) D in \<open>auto simp: h2_def\<close>)
  moreover have "R (jheap s4) (dom (jheap s4) - dom (jheap s)) q"
    by (rule stable_head [where R = R, OF _ s3(2,4) s4(3,6)]) (use xs(2) h2 D in auto)
  moreover have "list_all2 (\<lambda>p R. R (jheap s4) (dom (jheap s4) - dom (jheap s)) p) ps Rs"
    by (rule stable_rest [OF s4(4) _ s4(5)]) (use xs'(2) D in auto)
  moreover have "dchain (nxt (jheap s4)) (prv (jheap s4)) NULL q (q # ps)"
    using s4(2,3) q(1) s3(6) by (simp add: nxt_def prv_def)
  moreover have "set (q # ps) \<subseteq> dom (jheap s4) - dom (jheap s)"
    using s4(3,5) D q(2) by (simp add: domI domIff) blast
  ultimately show ?thesis
    using u q(1) s3(1) s4(1) by - (rule exI [of _ s2], rule exI [of _ s4], intro conjI exI [of _ "q # ps"], simp_all del: dchain_Cons)
qed

section \<open>Reading a printed value back\<close>

definition keeps :: "'d cJSON \<Rightarrow> 'd cJSON \<Rightarrow> bool" where
  "keeps n n' \<longleftrightarrow> j_next n' = j_next n \<and> j_prev n' = j_prev n \<and> j_string n' = j_string n"

definition parses :: "'d parser \<Rightarrow> 'd fpu \<Rightarrow> cstr \<Rightarrow> json \<Rightarrow> bool" where
  "parses pv f t j \<longleftrightarrow> (\<forall>s item n r. item \<noteq> NULL \<and> jheap s item = Some n \<and> j_child n = NULL \<and>
      finite (dom (jheap s)) \<and> stop r \<longrightarrow>
     (\<exists>s' n'. pv s item (Some (t @ r)) = Some (s', Some r) \<and>
        jval f (jheap s') (dom (jheap s') - dom (jheap s)) item j \<and>
        jframe (jheap s) item (jheap s') \<and> jheap s' item = Some n' \<and> keeps n n'))"

lemma stable_jval: "stable (\<lambda>h A p. jval f h A p j)"
  unfolding stable_def
proof (intro allI impI, elim conjE)
  fix h h' :: "ptr \<Rightarrow> 'a cJSON option" and A B p n x
  assume j: "jval f h A p j" and AB: "A \<subseteq> B" and h: "\<forall>q\<in>A. h' q = h q" "h p = Some n"
    "h' p = Some n \<or> h' p = Some (n\<lparr>j_next := x\<rparr>)"
  then obtain n' where "h' p = Some n'" "same_value n n'" by (auto simp: same_value_def)
  with jval_cong [OF j _ h(2)] h(1) have "jval f h' A p j" by blast
  with AB show "jval f h' B p j" using jval_mono by blast
qed

lemma stable_named_jval: "stable (\<lambda>h A p. named h p k \<and> jval f h A p j)"
  unfolding stable_def
proof (intro allI impI, elim conjE, intro conjI)
  fix h h' :: "ptr \<Rightarrow> 'a cJSON option" and A B p n x
  assume *: "named h p k" "jval f h A p j" "A \<subseteq> B" "\<forall>q\<in>A. h' q = h q" "h p = Some n"
    "h' p = Some n \<or> h' p = Some (n\<lparr>j_next := x\<rparr>)"
  then show "named h' p k" by (auto simp: named_def)
  show "jval f h' B p j" using stable_jval [of f j] * unfolding stable_def by blast
qed

lemma elem_parser_ok:
  assumes "parses pv f t j" and "\<exists>c t'. t = c # t' \<and> 32 < code c"
  shows "elem_ok (elem_parser pv) t (\<lambda>h A p. jval f h A p j)"
  unfolding elem_ok_def
proof (intro conjI allI impI)
  fix s :: "'a jst" and item n r
  assume "item \<noteq> NULL \<and> jheap s item = Some n \<and> j_child n = NULL \<and> finite (dom (jheap s)) \<and> stop r"
  with assms(1) obtain s' n' where "pv s item (Some (t @ r)) = Some (s', Some r)"
      "jval f (jheap s') (dom (jheap s') - dom (jheap s)) item j" "jframe (jheap s) item (jheap s')"
      "jheap s' item = Some n'" "keeps n n'" unfolding parses_def by blast
  then show "\<exists>s' n'. elem_parser pv s item (t @ r) = Some (s', Some (skip r)) \<and>
      jval f (jheap s') (dom (jheap s') - dom (jheap s)) item j \<and> jframe (jheap s) item (jheap s') \<and>
      jheap s' item = Some n' \<and> j_next n' = j_next n \<and> j_prev n' = j_prev n"
    by (intro exI [of _ s'] exI [of _ n']) (simp add: elem_parser_def skip_opt_def keeps_def)
qed (rule assms(2))

lemma parse_pair_ok:
  assumes p: "parses pv f t j" and t: "\<exists>c t'. t = c # t' \<and> 32 < code c" and k: "CHR 0x00 \<notin> set k"
    and ok: "\<And>n. jstr_ok env n" and w: "spaces w"
  shows "elem_ok (parse_pair pv env) (quoted k @ '':'' @ w @ t) (\<lambda>h A p. named h p k \<and> jval f h A p j)"
  unfolding elem_ok_def
proof (intro conjI allI impI)
  show "\<exists>c t'. quoted k @ '':'' @ w @ t = c # t' \<and> 32 < code c" by (simp add: quoted_def code_def)
  fix s :: "'a jst" and item n r
  assume s: "item \<noteq> NULL \<and> jheap s item = Some n \<and> j_child n = NULL \<and> finite (dom (jheap s)) \<and> stop r"
  define m where "m = n\<lparr>j_type := cJSON_String, j_valuestring := None, j_string := Some k\<rparr>"
  define s1 where "s1 = s\<lparr>jheap := (jheap s)(item \<mapsto> m)\<rparr>"
  have "item \<noteq> NULL \<and> jheap s1 item = Some m \<and> j_child m = NULL \<and> finite (dom (jheap s1)) \<and> stop r"
    using s by (simp add: s1_def m_def)
  with p obtain s' n' where s': "pv s1 item (Some (t @ r)) = Some (s', Some r)"
      "jval f (jheap s') (dom (jheap s') - dom (jheap s1)) item j" "jframe (jheap s1) item (jheap s')"
      "jheap s' item = Some n'" "keeps m n'" unfolding parses_def by blast
  have sk: "skip (w @ t @ r) = t @ r" using skip_spaces [OF w] t by auto
  have "parse_string env s item (quoted k @ '':'' @ w @ t @ r) =
      Some (s\<lparr>jheap := (jheap s)(item \<mapsto> n\<lparr>j_valuestring := Some k, j_type := cJSON_String\<rparr>)\<rparr>, Some ('':'' @ w @ t @ r))"
    using parse_string_quoted [OF ok k, of s item n] s by (simp add: jat_def)
  then have "parse_pair pv env s item ((quoted k @ '':'' @ w @ t) @ r) = Some (s', Some (skip r))"
    using s s'(1) sk by (simp add: parse_pair_def skip_opt_def jupd_def jat_def code_def s1_def m_def)
  moreover have "dom (jheap s1) = dom (jheap s)" using s by (auto simp: s1_def)
  moreover have "jframe (jheap s) item (jheap s')" using s'(3) unfolding jframe_def by (auto simp: s1_def)
  ultimately show "\<exists>s' n'. parse_pair pv env s item ((quoted k @ '':'' @ w @ t) @ r) = Some (s', Some (skip r)) \<and>
      (named (jheap s') item k \<and> jval f (jheap s') (dom (jheap s') - dom (jheap s)) item j) \<and>
      jframe (jheap s) item (jheap s') \<and> jheap s' item = Some n' \<and> j_next n' = j_next n \<and> j_prev n' = j_prev n"
    using s'(2,4,5) by (intro exI [of _ s'] exI [of _ n']) (simp add: keeps_def m_def named_def)
qed

lemma render_hd: "\<exists>c t. render j d fmt = c # t \<and> 32 < code c"
proof (cases j)
  case (JNum i)
  obtain c t where "show_nat (nat i) = c # t" "is_digit c" using show_nat_hd by blast
  then show ?thesis using JNum by (auto simp: show_int_def is_digit_def code_def)
qed (auto simp: quoted_def code_def)

lemma compose_array_body:
  "compose_array fmt (t # ts) = t @ body (if fmt then '' '' else []) ts"
  by (induction ts arbitrary: t) (auto simp: body_def)

lemma compose_object_body:
  "compose_object fmt d ((n, e) # es) =
     (if fmt then tabs d else []) @ (n @ '':'' @ (if fmt then [CHR 0x09] else []) @ e) @
     body (if fmt then CHR 0x0A # tabs d else []) (map (\<lambda>(n, e). n @ '':'' @ (if fmt then [CHR 0x09] else []) @ e) es) @
     (if fmt then [CHR 0x0A] else [])"
  by (induction es arbitrary: n e) (auto simp: body_def)

lemma spaces_simps [simp]: "spaces []" "spaces (c # w) \<longleftrightarrow> code c \<le> 32 \<and> spaces w" "spaces (v @ w) \<longleftrightarrow> spaces v \<and> spaces w"
  "spaces (tabs d)"
  by (auto simp: spaces_def tabs_def code_def)

lemma stop_spaces: "spaces w \<Longrightarrow> stop (close # r) \<Longrightarrow> stop (w @ close # r)"
  by (cases w) (auto simp: stop_def is_digit_def code_def)

lemma strncmp_hd: "cur v \<noteq> hd lit \<Longrightarrow> lit \<noteq> [] \<Longrightarrow> \<not> strncmp_eq v lit"
  by (cases v; cases lit) (auto simp: strncmp_eq_def)

lemma parse_array_ok:
  assumes pv: "list_all2 (elem_ok (elem_parser pv)) ts Rs" "\<And>R. R \<in> set Rs \<Longrightarrow> stable R" and env: "fresh_malloc env"
    and hd: "\<And>t. t \<in> set ts \<Longrightarrow> \<exists>c t'. t = c # t' \<and> 32 < code c \<and> c \<noteq> CHR '']''"
    and s: "item \<noteq> NULL" "jheap s item = Some n" "finite (dom (jheap s))" "j_child n = NULL"
  shows "\<exists>s' ps q. parse_array pv env s item (''['' @ compose_array fmt ts @ '']'' @ r) = Some (s', Some r) \<and>
    jheap s' item = Some (n\<lparr>j_type := cJSON_Array, j_child := q\<rparr>) \<and> jframe (jheap s) item (jheap s') \<and>
    dchain (nxt (jheap s')) (prv (jheap s')) NULL q ps \<and> set ps \<subseteq> dom (jheap s') - dom (jheap s) \<and>
    list_all2 (\<lambda>p R. R (jheap s') (dom (jheap s') - dom (jheap s)) p) ps Rs"
proof -
  define s0 where "s0 = s\<lparr>jheap := (jheap s)(item \<mapsto> n\<lparr>j_type := cJSON_Array\<rparr>)\<rparr>"
  have u: "jupd s item (\<lambda>i. i\<lparr>j_type := cJSON_Array\<rparr>) = Some s0" using s by (simp add: jupd_def jat_def s0_def)
  have d: "dom (jheap s0) = dom (jheap s)" using s(2) by (auto simp: s0_def)
  show ?thesis
  proof (cases ts)
    case Nil
    have "parse_array pv env s item (''['' @ compose_array fmt ts @ '']'' @ r) = Some (s0, Some r)"
      using Nil u by (simp add: parse_array_def code_def)
    moreover have "n\<lparr>j_type := cJSON_Array, j_child := NULL\<rparr> = n\<lparr>j_type := cJSON_Array\<rparr>" using s(4) by simp
    ultimately show ?thesis using Nil pv(1) s
      by (intro exI [of _ s0] exI [of _ "[]"] exI [of _ NULL]) (auto simp: s0_def jframe_def)
  next
    case (Cons t ts')
    then obtain R Rs' where Rs: "Rs = R # Rs'" using pv(1) by (auto simp: list_all2_Cons1)
    define w :: cstr where "w = (if fmt then '' '' else [])"
    have w: "spaces w" "stop ([] @ CHR '']'' # r)" by (auto simp: w_def stop_def is_digit_def code_def)
    have c: "CHR '']'' \<noteq> CHR '',''" "32 < code CHR '']''" by (simp_all add: code_def)
    obtain s2 s' ps where r: "snd (cJSON_New_Item env s0) \<noteq> NULL"
        "jupd (fst (cJSON_New_Item env s0)) item (\<lambda>i. i\<lparr>j_child := snd (cJSON_New_Item env s0)\<rparr>) = Some s2"
        "(do { (s, v) \<leftarrow> elem_parser pv s2 (snd (cJSON_New_Item env s0)) (t @ body w ts' @ [] @ CHR '']'' # r);
          case v of None \<Rightarrow> Some (s, None) | Some v \<Rightarrow> parse_elems pv env s (snd (cJSON_New_Item env s0)) v }) = Some (s', Some r)"
        "jheap s' item = Some (n\<lparr>j_type := cJSON_Array, j_child := snd (cJSON_New_Item env s0)\<rparr>)"
        "jframe (jheap s0) item (jheap s')"
        "dchain (nxt (jheap s')) (prv (jheap s')) NULL (snd (cJSON_New_Item env s0)) ps"
        "set ps \<subseteq> dom (jheap s') - dom (jheap s0)"
        "list_all2 (\<lambda>p R. R (jheap s') (dom (jheap s') - dom (jheap s0)) p) ps (R # Rs')"
      using container_ok [OF parse_elems_loop [of env pv] env c w(1) spaces_simps(1) w(2), of t ts' R Rs' item s0
          "n\<lparr>j_type := cJSON_Array\<rparr>"] pv Cons Rs s
      by (auto simp: s0_def)
    obtain c0 t' where t: "t = c0 # t'" "32 < code c0" "c0 \<noteq> CHR '']''" using hd [of t] Cons by auto
    have "parse_array pv env s item (''['' @ compose_array fmt ts @ '']'' @ r) = Some (s', Some r)"
      using r(1-3) u t unfolding parse_array_def Cons compose_array_body w_def [symmetric]
      by (cases "cJSON_New_Item env s0") (simp add: elem_parser_bind)
    moreover have "jframe (jheap s) item (jheap s')" using r(5) unfolding jframe_def by (auto simp: s0_def)
    ultimately show ?thesis using r(4,6-8) unfolding Rs d by blast
  qed
qed

lemma parse_object_ok:
  fixes fmt d
  defines "w0 \<equiv> (if fmt then CHR 0x0A # tabs (d + 1) else [])" and "w1 \<equiv> (if fmt then CHR 0x0A # tabs d else [])"
  assumes pv: "list_all2 (elem_ok (parse_pair pv env)) (t # ts) (R # Rs)" "\<And>R'. R' \<in> set (R # Rs) \<Longrightarrow> stable R'"
    and env: "fresh_malloc env" and hd: "\<exists>t'. t = CHR 0x22 # t'"
    and s: "item \<noteq> NULL" "jheap s item = Some n" "finite (dom (jheap s))" "j_child n = NULL"
  shows "\<exists>s' ps q. parse_object pv env s item (''{'' @ w0 @ t @ body w0 ts @ w1 @ ''}'' @ r) = Some (s', Some r) \<and>
    jheap s' item = Some (n\<lparr>j_type := cJSON_Object, j_child := q\<rparr>) \<and> jframe (jheap s) item (jheap s') \<and>
    dchain (nxt (jheap s')) (prv (jheap s')) NULL q ps \<and> set ps \<subseteq> dom (jheap s') - dom (jheap s) \<and>
    list_all2 (\<lambda>p R. R (jheap s') (dom (jheap s') - dom (jheap s)) p) ps (R # Rs)"
proof -
  define s0 where "s0 = s\<lparr>jheap := (jheap s)(item \<mapsto> n\<lparr>j_type := cJSON_Object\<rparr>)\<rparr>"
  have u: "jupd s item (\<lambda>i. i\<lparr>j_type := cJSON_Object\<rparr>) = Some s0" using s by (simp add: jupd_def jat_def s0_def)
  have d: "dom (jheap s0) = dom (jheap s)" using s(2) by (auto simp: s0_def)
  have w: "spaces w0" "spaces w1" by (simp_all add: w0_def w1_def code_def)
  have "stop (CHR ''}'' # r)" by (simp add: stop_def is_digit_def code_def)
  note st = stop_spaces [OF w(2) this]
  have c: "CHR ''}'' \<noteq> CHR '',''" "32 < code CHR ''}''" by (simp_all add: code_def)
  obtain s2 s' ps where r: "snd (cJSON_New_Item env s0) \<noteq> NULL"
      "jupd (fst (cJSON_New_Item env s0)) item (\<lambda>i. i\<lparr>j_child := snd (cJSON_New_Item env s0)\<rparr>) = Some s2"
      "(do { (s, v) \<leftarrow> parse_pair pv env s2 (snd (cJSON_New_Item env s0)) (t @ body w0 ts @ w1 @ CHR ''}'' # r);
        case v of None \<Rightarrow> Some (s, None) | Some v \<Rightarrow> parse_members pv env s (snd (cJSON_New_Item env s0)) v }) = Some (s', Some r)"
      "jheap s' item = Some (n\<lparr>j_type := cJSON_Object, j_child := snd (cJSON_New_Item env s0)\<rparr>)"
      "jframe (jheap s0) item (jheap s')"
      "dchain (nxt (jheap s')) (prv (jheap s')) NULL (snd (cJSON_New_Item env s0)) ps"
      "set ps \<subseteq> dom (jheap s') - dom (jheap s0)"
      "list_all2 (\<lambda>p R. R (jheap s') (dom (jheap s') - dom (jheap s0)) p) ps (R # Rs)"
    using container_ok [OF parse_members_loop [of env pv] env c w st pv s(1), of s0 "n\<lparr>j_type := cJSON_Object\<rparr>"] s(2,3)
    by (auto simp: s0_def)
  obtain t' where t: "t = CHR 0x22 # t'" using hd by blast
  have sk: "skip (w0 @ t @ x) = t @ x" "skip (t @ x) = t @ x" for x using skip_spaces [OF w(1)] by (simp_all add: t code_def)
  have "parse_object pv env s item (''{'' @ w0 @ t @ body w0 ts @ w1 @ ''}'' @ r) = Some (s', Some r)"
  proof -
    obtain a b where N: "cJSON_New_Item env s0 = (a, b)" by (cases "cJSON_New_Item env s0")
    show ?thesis
      using r(1-3) [unfolded N fst_conv snd_conv] u sk N unfolding parse_object_def by (simp, simp add: t)
  qed
  moreover have "jframe (jheap s) item (jheap s')" using r(5) unfolding jframe_def by (auto simp: s0_def)
  ultimately show ?thesis using r(4,6-8) unfolding d by blast
qed

end
