(* ===== verification/CjsonRead.thy ===== *)
theory CjsonRead
  imports CjsonParse
begin

text \<open>
  The reader inverts the printer: \<open>parses_render\<close> says that \<open>parse_value\<close> rebuilds, in fresh nodes, the
  value whose reference text it is given, whatever follows the text.
\<close>

lemma parses_leaf:
  assumes "\<And>s item n r. item \<noteq> NULL \<Longrightarrow> jheap s item = Some n \<Longrightarrow> stop r \<Longrightarrow>
      pv s item (Some (t @ r)) = Some (s\<lparr>jheap := (jheap s)(item \<mapsto> g n)\<rparr>, Some r)"
    and "\<And>h A item n. item \<noteq> NULL \<Longrightarrow> h item = Some (g n) \<Longrightarrow> jval f h A item j" and "\<And>n. keeps n (g n)"
  shows "parses pv f t j"
  unfolding parses_def
proof (intro allI impI, elim conjE)
  fix s :: "'a jst" and item n r
  assume s: "item \<noteq> NULL" "jheap s item = Some n" "finite (dom (jheap s))" "stop r"
  let ?s = "s\<lparr>jheap := (jheap s)(item \<mapsto> g n)\<rparr>"
  show "\<exists>s' n'. pv s item (Some (t @ r)) = Some (s', Some r) \<and>
      jval f (jheap s') (dom (jheap s') - dom (jheap s)) item j \<and> jframe (jheap s) item (jheap s') \<and>
      jheap s' item = Some n' \<and> keeps n n'"
    using s assms(1) [OF s(1,2,4)] assms(2) [OF s(1), of "jheap ?s" n] assms(3) [of n]
    by (intro exI [of _ ?s] exI [of _ "g n"]) (simp add: jframe_def)
qed

lemma parse_value_array:
  "parse_value (Suc k) env s item (Some (''['' @ x)) = parse_array (parse_value k env) env s item (''['' @ x)"
  by (simp add: strncmp_eq_def is_digit_def code_def)

lemma parse_value_object:
  "parse_value (Suc k) env s item (Some (''{'' @ x)) = parse_object (parse_value k env) env s item (''{'' @ x)"
  by (simp add: strncmp_eq_def is_digit_def code_def)

lemma parse_value_string:
  "parse_value (Suc k) env s item (Some (CHR 0x22 # x)) = parse_string env s item (CHR 0x22 # x)"
  by (simp add: strncmp_eq_def)

lemma parse_value_number:
  "c = CHR ''-'' \<or> is_digit c \<Longrightarrow> parse_value (Suc k) env s item (Some (c # x)) = parse_number env s item (c # x)"
  by (auto simp: strncmp_eq_def is_digit_def code_def)

lemma render_no_close: "\<exists>c t. render j d fmt = c # t \<and> 32 < code c \<and> c \<noteq> CHR '']''"
proof (cases j)
  case (JNum i)
  obtain c t where "show_nat (nat i) = c # t" "is_digit c" using show_nat_hd by blast
  then show ?thesis using JNum by (auto simp: show_int_def is_digit_def code_def)
qed (auto simp: quoted_def code_def)

lemma parses_container:
  assumes "\<And>s item n r. item \<noteq> NULL \<Longrightarrow> jheap s item = Some n \<Longrightarrow> finite (dom (jheap s)) \<Longrightarrow> j_child n = NULL \<Longrightarrow>
      \<exists>s' ps q. pv s item (Some (t @ r)) = Some (s', Some r) \<and> jheap s' item = Some (n\<lparr>j_type := ty, j_child := q\<rparr>) \<and>
        jframe (jheap s) item (jheap s') \<and> dchain (nxt (jheap s')) (prv (jheap s')) NULL q ps \<and>
        set ps \<subseteq> dom (jheap s') - dom (jheap s) \<and> P (jheap s') (dom (jheap s') - dom (jheap s)) ps"
    and "\<And>h A item n q ps. item \<noteq> NULL \<Longrightarrow> h item = Some (n\<lparr>j_type := ty, j_child := q\<rparr>) \<Longrightarrow>
      dchain (nxt h) (prv h) NULL q ps \<Longrightarrow> set ps \<subseteq> A \<Longrightarrow> P h A ps \<Longrightarrow> jval f h A item j"
  shows "parses pv f t j"
  unfolding parses_def
proof (intro allI impI, elim conjE)
  fix s :: "'a jst" and item n r
  assume s: "item \<noteq> NULL" "jheap s item = Some n" "finite (dom (jheap s))" "j_child n = NULL"
  from assms(1) [OF s(1,2,3,4), of r] obtain s' ps q where r: "pv s item (Some (t @ r)) = Some (s', Some r)"
      "jheap s' item = Some (n\<lparr>j_type := ty, j_child := q\<rparr>)" "jframe (jheap s) item (jheap s')"
      "dchain (nxt (jheap s')) (prv (jheap s')) NULL q ps" "set ps \<subseteq> dom (jheap s') - dom (jheap s)"
      "P (jheap s') (dom (jheap s') - dom (jheap s)) ps" by blast
  show "\<exists>s' n'. pv s item (Some (t @ r)) = Some (s', Some r) \<and>
      jval f (jheap s') (dom (jheap s') - dom (jheap s)) item j \<and> jframe (jheap s) item (jheap s') \<and>
      jheap s' item = Some n' \<and> keeps n n'"
    using r assms(2) [OF s(1) r(2) r(4) r(5) r(6)]
    by (intro exI [of _ s'] exI [of _ "n\<lparr>j_type := ty, j_child := q\<rparr>"]) (simp add: keeps_def)
qed

lemma parses_render_array:
  assumes env: "fresh_malloc env" and js: "\<And>j. j \<in> set js \<Longrightarrow> parses (parse_value k env) f (render j (d + 1) fmt) j"
  shows "parses (parse_value (Suc k) env) f (render (JArr js) d fmt) (JArr js)"
proof (rule parses_container [where ty = cJSON_Array and P = "\<lambda>h A ps. list_all2 (jval f h A) ps js"])
  fix s :: "'a jst" and item n r
  assume s: "item \<noteq> NULL" "jheap s item = Some n" "finite (dom (jheap s))" "j_child n = NULL"
  let ?ts = "map (\<lambda>j. render j (d + 1) fmt) js" and ?Rs = "map (\<lambda>j h A p. jval f h A p j) js"
  have 1: "list_all2 (elem_ok (elem_parser (parse_value k env))) ?ts ?Rs"
    unfolding list_all2_map1 list_all2_map2
    by (rule list.rel_refl_strong) (rule elem_parser_ok [OF js render_hd])
  have 2: "\<exists>c t'. t = c # t' \<and> 32 < code c \<and> c \<noteq> CHR '']''" if "t \<in> set ?ts" for t
    using that render_no_close by auto
  have 3: "stable R" if "R \<in> set ?Rs" for R using that by (auto simp: stable_jval)
  have e: "render (JArr js) d fmt @ r = ''['' @ compose_array fmt ?ts @ '']'' @ r" by (simp add: o_def)
  show "\<exists>s' ps q. parse_value (Suc k) env s item (Some (render (JArr js) d fmt @ r)) = Some (s', Some r) \<and>
      jheap s' item = Some (n\<lparr>j_type := cJSON_Array, j_child := q\<rparr>) \<and> jframe (jheap s) item (jheap s') \<and>
      dchain (nxt (jheap s')) (prv (jheap s')) NULL q ps \<and> set ps \<subseteq> dom (jheap s') - dom (jheap s) \<and>
      list_all2 (jval f (jheap s') (dom (jheap s') - dom (jheap s))) ps js"
    unfolding e parse_value_array using parse_array_ok [OF 1 3 env 2 s, of fmt r] unfolding list_all2_map2 by fast
qed (rule jval_arr, auto)

definition member_text :: "int \<Rightarrow> bool \<Rightarrow> cstr \<times> json \<Rightarrow> cstr" where
  "member_text d fmt = (\<lambda>kv. quoted (fst kv) @ '':'' @ (if fmt then [CHR 0x09] else []) @ render (snd kv) d fmt)"

lemma render_object_body:
  "render (JObj (kv # kvs)) d fmt =
     ''{'' @ (if fmt then CHR 0x0A # tabs (d + 1) else []) @ member_text (d + 1) fmt kv @
     body (if fmt then CHR 0x0A # tabs (d + 1) else []) (map (member_text (d + 1) fmt) kvs) @
     (if fmt then CHR 0x0A # tabs d else []) @ ''}''"
proof -
  have "map (\<lambda>(k, r). (quoted k, r (d + 1) fmt)) (map (map_prod (\<lambda>x. x) render) (kv # kvs)) =
      (quoted (fst kv), render (snd kv) (d + 1) fmt) # map (\<lambda>kv. (quoted (fst kv), render (snd kv) (d + 1) fmt)) kvs"
    by (simp add: case_prod_unfold)
  then show ?thesis
    by (simp only: render.simps list.simps if_False compose_object_body) (simp add: member_text_def o_def)
qed

lemma parses_render_object:
  assumes env: "fresh_malloc env" and ok: "\<And>n. jstr_ok env n"
    and kvs: "\<And>kv. kv \<in> set kvs \<Longrightarrow> parses (parse_value k env) f (render (snd kv) (d + 1) fmt) (snd kv) \<and> CHR 0x00 \<notin> set (fst kv)"
  shows "parses (parse_value (Suc k) env) f (render (JObj kvs) d fmt) (JObj kvs)"
proof (rule parses_container [where ty = cJSON_Object and
      P = "\<lambda>h A ps. list_all2 (\<lambda>p kv. named h p (fst kv) \<and> jval f h A p (snd kv)) ps kvs"])
  fix s :: "'a jst" and item n r
  assume s: "item \<noteq> NULL" "jheap s item = Some n" "finite (dom (jheap s))" "j_child n = NULL"
  let ?Rs = "map (\<lambda>kv h A p. named h p (fst kv) \<and> jval f h A p (snd kv))"
  show "\<exists>s' ps q. parse_value (Suc k) env s item (Some (render (JObj kvs) d fmt @ r)) = Some (s', Some r) \<and>
      jheap s' item = Some (n\<lparr>j_type := cJSON_Object, j_child := q\<rparr>) \<and> jframe (jheap s) item (jheap s') \<and>
      dchain (nxt (jheap s')) (prv (jheap s')) NULL q ps \<and> set ps \<subseteq> dom (jheap s') - dom (jheap s) \<and>
      list_all2 (\<lambda>p kv. named (jheap s') p (fst kv) \<and> jval f (jheap s') (dom (jheap s') - dom (jheap s)) p (snd kv)) ps kvs"
  proof (cases kvs)
    case Nil
    define s0 where "s0 = s\<lparr>jheap := (jheap s)(item \<mapsto> n\<lparr>j_type := cJSON_Object\<rparr>)\<rparr>"
    have "skip ((if fmt then CHR 0x0A # tabs (d - 1) else []) @ ''}'' @ r) = ''}'' @ r"
      using skip_spaces [of "if fmt then CHR 0x0A # tabs (d - 1) else []" "''}'' @ r"] by (simp add: code_def)
    then have "parse_value (Suc k) env s item (Some (render (JObj kvs) d fmt @ r)) = Some (s0, Some r)"
      using Nil s parse_value_object [of k env s item "(if fmt then CHR 0x0A # tabs (d - 1) else []) @ ''}'' @ r"]
      by (simp add: parse_object_def jupd_def jat_def s0_def del: parse_value.simps)
    moreover have "n\<lparr>j_type := cJSON_Object, j_child := NULL\<rparr> = n\<lparr>j_type := cJSON_Object\<rparr>" using s(4) by simp
    ultimately show ?thesis using Nil s
      by (intro exI [of _ s0] exI [of _ "[]"] exI [of _ NULL]) (auto simp: s0_def jframe_def)
  next
    case (Cons kv kvs')
    have 1: "list_all2 (elem_ok (parse_pair (parse_value k env) env)) (map (member_text (d + 1) fmt) kvs) (?Rs kvs)"
      unfolding list_all2_map1 list_all2_map2 member_text_def
      by (rule list.rel_refl_strong) (intro parse_pair_ok render_hd ok; use kvs in \<open>auto simp: code_def\<close>)
    have 3: "stable R" if "R \<in> set (?Rs kvs)" for R using that by (auto simp: stable_named_jval)
    have hd: "\<exists>t'. member_text (d + 1) fmt kv = CHR 0x22 # t'" by (simp add: member_text_def quoted_def)
    define R where "R = (\<lambda>kv h A p. named h p (fst kv) \<and> jval f h A p (snd kv))"
    have e: "render (JObj kvs) d fmt @ r = ''{'' @ (if fmt then CHR 0x0A # tabs (d + 1) else []) @ member_text (d + 1) fmt kv @
        body (if fmt then CHR 0x0A # tabs (d + 1) else []) (map (member_text (d + 1) fmt) kvs') @
        (if fmt then CHR 0x0A # tabs d else []) @ ''}'' @ r"
      by (simp only: Cons render_object_body append_assoc)
    show ?thesis
      unfolding e parse_value_object
      using parse_object_ok [where r = r and fmt = fmt and d = d,
          OF 1 [folded R_def, unfolded Cons list.map] 3 [folded R_def, unfolded Cons list.map] env hd s]
      unfolding list.map(2) [of R kv kvs', symmetric] list_all2_map2 Cons [symmetric] unfolding R_def by blast
  qed
qed (rule jval_obj, auto)

lemma parses_render:
  assumes f: "jf env = f" "exact_ints f" and ok: "\<And>n. jstr_ok env n" and env: "fresh_malloc env"
  shows "jdepth j < k \<Longrightarrow> jclean j \<Longrightarrow> parses (parse_value k env) f (render j d fmt) j"
proof (induction j arbitrary: k d rule: json.induct)
  case (JArr js)
  obtain k' where k: "k = Suc k'" "jdepth (JArr js) \<le> k'" using JArr.prems(1) by (cases k) (simp_all del: jdepth.simps)
  show ?case unfolding k(1)
    by (rule parses_render_array [OF env JArr.IH]) (use jdepth_elem(1) [OF k(2)] JArr.prems(2) in \<open>auto simp: list_all_iff\<close>)
next
  case (JObj kvs)
  obtain k' where k: "k = Suc k'" "jdepth (JObj kvs) \<le> k'" using JObj.prems(1) by (cases k) (simp_all del: jdepth.simps)
  show ?case unfolding k(1)
  proof (rule parses_render_object [OF env ok], rule conjI)
    fix kv assume kv: "kv \<in> set kvs"
    show "parses (parse_value k' env) f (render (snd kv) (d + 1) fmt) (snd kv)"
      using JObj.IH [OF kv, of "snd kv"] jdepth_elem(2) [OF k(2), of "fst kv"] JObj.prems(2) kv
      by (cases kv) (auto simp: list_all_iff)
    show "CHR 0x00 \<notin> set (fst kv)" using JObj.prems(2) kv by (cases kv) (auto simp: list_all_iff)
  qed
next
  case (JNum i)
  then obtain k' where k: "k = Suc k'" "int32 i" by (cases k) auto
  show ?case
  proof (rule parses_leaf [where g = "\<lambda>n. n\<lparr>j_valuedouble := fp_of_int f i, j_valueint := i, j_type := cJSON_Number\<rparr>"])
    fix s :: "'a jst" and item n r
    assume s: "item \<noteq> NULL" "jheap s item = Some n" "stop r"
    obtain c t where c: "show_int i = c # t" "c = CHR ''-'' \<or> is_digit c"
      using show_nat_hd [of "nat i"] unfolding show_int_def by (cases "i < 0") (fastforce simp del: show_nat.simps)+
    have i: "fp_to_int f (fp_of_int f i) = i" using exact_intsD(4) [OF f(2)] k(2) by (auto simp: int32_def)
    show "parse_value k env s item (Some (render (JNum i) d fmt @ r)) =
        Some (s\<lparr>jheap := (jheap s)(item \<mapsto> n\<lparr>j_valuedouble := fp_of_int f i, j_valueint := i, j_type := cJSON_Number\<rparr>)\<rparr>, Some r)"
      using parse_value_number [OF c(2), of k' env s item "t @ r"] scan_number_show [OF f(2) k(2) s(3)] s k(1) f(1) c(1) i
      by (simp add: parse_number_def jupd_def jat_def del: parse_value.simps)
  qed (use k in \<open>auto intro!: jval_num simp: keeps_def\<close>)
next
  case (JStr t)
  then obtain k' where k: "k = Suc k'" by (cases k) auto
  show ?case
  proof (rule parses_leaf [where g = "\<lambda>n. n\<lparr>j_valuestring := Some t, j_type := cJSON_String\<rparr>"])
    fix s :: "'a jst" and item n r
    assume s: "item \<noteq> NULL" "jheap s item = Some n" "stop r"
    show "parse_value k env s item (Some (render (JStr t) d fmt @ r)) =
        Some (s\<lparr>jheap := (jheap s)(item \<mapsto> n\<lparr>j_valuestring := Some t, j_type := cJSON_String\<rparr>)\<rparr>, Some r)"
      using parse_value_string [of k' env s item] parse_string_quoted [OF ok, of t s item n r] s JStr.prems(2) k
      by (simp add: jat_def quoted_def del: parse_value.simps)
  qed (auto intro!: jval_str simp: keeps_def)
next
  case JNull
  then obtain k' where k: "k = Suc k'" by (cases k) auto
  show ?case
    by (rule parses_leaf [where g = "\<lambda>n. n\<lparr>j_type := cJSON_NULL\<rparr>"])
      (auto simp: k strncmp_eq_def jupd_def jat_def keeps_def intro!: jval_null)
next
  case JFalse
  then obtain k' where k: "k = Suc k'" by (cases k) auto
  show ?case
    by (rule parses_leaf [where g = "\<lambda>n. n\<lparr>j_type := cJSON_False\<rparr>"])
      (auto simp: k strncmp_eq_def jupd_def jat_def keeps_def intro!: jval_false)
next
  case JTrue
  then obtain k' where k: "k = Suc k'" by (cases k) auto
  show ?case
    by (rule parses_leaf [where g = "\<lambda>n. n\<lparr>j_type := cJSON_True, j_valueint := 1\<rparr>"])
      (auto simp: k strncmp_eq_def jupd_def jat_def keeps_def intro!: jval_true)
qed

end
