(* ===== verification/CjsonList.thy ===== *)
theory CjsonList
  imports CjsonRead
begin

text \<open>
  The children of an array or object as a list: adding appends, detaching removes, the size and the
  item at an index agree.  \<open>owned\<close> is the set of nodes that \<open>cJSON_Delete\<close> frees.
\<close>

section \<open>Arrays as lists\<close>

text \<open>The children of the node \<open>arr\<close> are \<open>ps\<close>.\<close>

definition items :: "(ptr \<Rightarrow> 'd cJSON option) \<Rightarrow> ptr \<Rightarrow> ptr list \<Rightarrow> bool" where
  "items h arr ps \<longleftrightarrow> arr \<noteq> NULL \<and> arr \<notin> set ps \<and>
     (\<exists>a. h arr = Some a \<and> dchain (nxt h) (prv h) NULL (j_child a) ps)"

text \<open>The heaps have the same nodes, and these differ at most in the links of the nodes \<open>L\<close> and in the child of \<open>arr\<close>.\<close>

definition payload :: "'d cJSON \<Rightarrow> 'd cJSON" where
  "payload n = n\<lparr>j_next := NULL, j_prev := NULL, j_child := NULL\<rparr>"

definition relinked :: "ptr set \<Rightarrow> ptr \<Rightarrow> (ptr \<Rightarrow> 'd cJSON option) \<Rightarrow> (ptr \<Rightarrow> 'd cJSON option) \<Rightarrow> bool" where
  "relinked L arr h h' \<longleftrightarrow> (\<forall>q. map_option payload (h' q) = map_option payload (h q) \<and>
     (q \<notin> L \<longrightarrow> nxt h' q = nxt h q \<and> prv h' q = prv h q) \<and>
     (q \<noteq> arr \<longrightarrow> map_option j_child (h' q) = map_option j_child (h q)))"

lemma relinked_refl: "relinked L arr h h"
  by (simp add: relinked_def)

lemma relinked_trans: "relinked L arr h1 h2 \<Longrightarrow> relinked L arr h2 h3 \<Longrightarrow> relinked L arr h1 h3"
  by (simp add: relinked_def)

lemma relinked_upd:
  assumes "h q = Some n" and "payload n' = payload n"
    and "q \<notin> L \<Longrightarrow> j_next n' = j_next n \<and> j_prev n' = j_prev n" and "q \<noteq> arr \<Longrightarrow> j_child n' = j_child n"
  shows "relinked L arr h (h(q \<mapsto> n'))"
  using assms by (simp add: relinked_def nxt_def prv_def)

lemma last_loop_chain: "chain (nxt (jheap s)) p (ps @ [q]) \<Longrightarrow> last_loop s p = Some q"
proof (induction ps arbitrary: p)
  case Nil
  then show ?case by (auto simp: nxt_eq_Some last_loop.simps [of s q] jat_def)
next
  case (Cons x ps)
  then obtain n where "p = x" "x \<noteq> NULL" "jheap s x = Some n" "chain (nxt (jheap s)) (j_next n) (ps @ [q])"
    by (auto simp: nxt_eq_Some)
  moreover from this have "j_next n \<noteq> NULL" by (cases ps) auto
  ultimately show ?case using Cons.IH by (simp add: last_loop.simps [of s x] jat_def)
qed

lemma item_loop_chain:
  "chain (nxt (jheap s)) p ps \<Longrightarrow> item_loop s p i = Some (if nat i < length ps then ps ! nat i else NULL)"
proof (induction ps arbitrary: p i)
  case (Cons x ps)
  then obtain n where n: "p = x" "x \<noteq> NULL" "jheap s x = Some n" "chain (nxt (jheap s)) (j_next n) ps"
    by (auto simp: nxt_eq_Some)
  show ?case
  proof (cases "i > 0")
    case True
    then have "nat i = Suc (nat (i - 1))" by simp
    then show ?thesis using n Cons.IH [OF n(4), of "i - 1"] True by (simp add: item_loop.simps [of s x] jat_def)
  qed (use n in \<open>simp add: item_loop.simps [of s x]\<close>)
qed (simp add: item_loop.simps)

lemma GetArraySize_items: "items (jheap s) arr ps \<Longrightarrow> cJSON_GetArraySize s arr = Some (length ps)"
  unfolding items_def cJSON_GetArraySize_def using count_loop_chain [of s _ ps 0] dchain_chain by (fastforce simp: jat_def)

lemma GetArrayItem_items:
  "items (jheap s) arr ps \<Longrightarrow> cJSON_GetArrayItem s arr i = Some (if nat i < length ps then ps ! nat i else NULL)"
  unfolding items_def cJSON_GetArrayItem_def using item_loop_chain [of s _ ps i] dchain_chain by (fastforce simp: jat_def)

lemma AddItemToArray_items:
  assumes arr: "items (jheap s) arr ps" and item: "item \<noteq> NULL" "item \<notin> set ps" "item \<noteq> arr"
    and m: "jheap s item = Some m" "j_next m = NULL" "j_prev m = NULL"
  shows "\<exists>s'. cJSON_AddItemToArray s arr item = Some s' \<and> items (jheap s') arr (ps @ [item]) \<and>
    relinked (insert item (set ps)) arr (jheap s) (jheap s')"
proof -
  obtain a where a: "arr \<noteq> NULL" "arr \<notin> set ps" "jheap s arr = Some a"
      "dchain (nxt (jheap s)) (prv (jheap s)) NULL (j_child a) ps"
    using arr by (auto simp: items_def)
  show ?thesis
  proof (cases ps rule: rev_cases)
    case Nil
    let ?h = "(jheap s)(arr \<mapsto> a\<lparr>j_child := item\<rparr>)"
    have "relinked (insert item (set ps)) arr (jheap s) ?h" by (rule relinked_upd [where q = arr and h = "jheap s", OF a(3)]) (auto simp: payload_def)
    then show ?thesis using Nil a item m
      by (intro exI [of _ "s\<lparr>jheap := ?h\<rparr>"])
        (auto simp: cJSON_AddItemToArray_def jat_def jupd_def items_def nxt_def prv_def)
  next
    case (snoc qs q)
    obtain n where n: "q \<noteq> NULL" "jheap s q = Some n" "j_next n = NULL"
      using a(4) snoc by (auto simp: dchain_append nxt_eq_Some)
    define h1 where "h1 = (jheap s)(q \<mapsto> n\<lparr>j_next := item\<rparr>)"
    define h2 where "h2 = h1(item \<mapsto> m\<lparr>j_prev := q\<rparr>)"
    have "q \<noteq> item" using snoc item by auto
    then have h1: "h1 item = Some m" using m by (simp add: h1_def)
    have "j_child a \<noteq> NULL" using a(4) snoc by (cases qs) auto
    then have r: "cJSON_AddItemToArray s arr item = Some (s\<lparr>jheap := h2\<rparr>)"
      using a n item h1 last_loop_chain [OF dchain_chain [OF a(4) [unfolded snoc]]]
      by (simp add: cJSON_AddItemToArray_def jat_def suffix_object_def jupd_def h2_def h1_def)
    have "dchain (nxt h2) (prv h2) NULL (j_child a) (qs @ q # [item])"
      by (rule dchain_insert_after [OF a(4) [unfolded snoc]])
        (use \<open>q \<noteq> item\<close> n m item snoc dchain_distinct [OF a(4)] in \<open>auto simp: h2_def h1_def nxt_def prv_def\<close>)
    moreover have "h2 arr = Some a" using a item snoc by (auto simp: h2_def h1_def)
    moreover have "relinked (insert item (set ps)) arr (jheap s) h1"
      unfolding h1_def by (rule relinked_upd [where q = q and h = "jheap s", OF n(2)]) (auto simp: snoc payload_def)
    moreover have "relinked (insert item (set ps)) arr h1 h2"
      unfolding h2_def by (rule relinked_upd [where q = item and h = h1, OF h1]) (auto simp: payload_def)
    ultimately show ?thesis
      using r a item by (intro exI [of _ "s\<lparr>jheap := h2\<rparr>"]) (auto simp: items_def snoc intro: relinked_trans)
  qed
qed

lemma DetachItemFromArray_none:
  "items (jheap s) arr ps \<Longrightarrow> length ps \<le> nat which \<Longrightarrow> cJSON_DetachItemFromArray s arr which = Some (s, NULL)"
  unfolding items_def cJSON_DetachItemFromArray_def using item_loop_chain [of s _ ps which] dchain_chain
  by (fastforce simp: jat_def)

lemma DetachItemFromArray_items:
  assumes arr: "items (jheap s) arr (xs @ c # ys)" and w: "nat which = length xs"
  shows "\<exists>s' m. cJSON_DetachItemFromArray s arr which = Some (s', c) \<and> items (jheap s') arr (xs @ ys) \<and>
    relinked (set (xs @ c # ys)) arr (jheap s) (jheap s') \<and> jheap s' c = Some m \<and> j_next m = NULL \<and> j_prev m = NULL"
proof -
  let ?L = "set (xs @ c # ys)"
  obtain a where a: "arr \<noteq> NULL" "arr \<notin> ?L" "jheap s arr = Some a"
      "dchain (nxt (jheap s)) (prv (jheap s)) NULL (j_child a) (xs @ c # ys)"
    using arr by (auto simp: items_def)
  have d: "distinct (xs @ c # ys)" using a(4) by (rule dchain_distinct)
  obtain n where n: "c \<noteq> NULL" "jheap s c = Some n" "j_prev n = last (NULL # xs)" "dchain (nxt (jheap s)) (prv (jheap s)) c (j_next n) ys"
    using a(4) by (auto simp: dchain_append nxt_eq_Some prv_eq_Some)
  have at: "\<exists>m. jheap s x = Some m" if "x \<in> ?L" for x
    using dchain_nodes [OF a(4) that] by (auto simp: nxt_def)
  have nx: "j_next n = NULL \<or> j_next n \<in> set ys" using n(4) by (cases ys) auto
  have loop: "item_loop s (j_child a) which = Some c"
    using item_loop_chain [OF dchain_chain [OF a(4)], of which] w by (simp add: nth_append)
  have pv: "j_prev n = NULL \<longleftrightarrow> xs = []" using n(3) dchain_nodes [OF a(4)] by (cases xs rule: rev_cases) auto
  have hd: "c = j_child a \<longleftrightarrow> xs = []" using a(4) d by (cases xs) auto
  define h1 where "h1 = (if xs \<noteq> [] then (jheap s)(last xs \<mapsto> (the (jheap s (last xs)))\<lparr>j_next := j_next n\<rparr>) else jheap s)"
  define h2 where "h2 = (if j_next n \<noteq> NULL then h1(j_next n \<mapsto> (the (h1 (j_next n)))\<lparr>j_prev := j_prev n\<rparr>) else h1)"
  define h3 where "h3 = (if xs = [] then h2(arr \<mapsto> a\<lparr>j_child := j_next n\<rparr>) else h2)"
  define h4 where "h4 = h3(c \<mapsto> n\<lparr>j_next := NULL, j_prev := NULL\<rparr>)"
  have xs: "x \<noteq> NULL \<and> x \<noteq> c \<and> x \<noteq> arr \<and> x \<notin> set ys" if "x \<in> set xs" for x
    using d a(2) dchain_nodes [OF a(4), of x] that by auto
  have lx: "xs \<noteq> [] \<Longrightarrow> last xs \<in> set xs \<and> last xs \<noteq> NULL \<and> last xs \<noteq> c \<and> last xs \<noteq> arr \<and> last xs \<notin> set ys"
    using xs [of "last xs"] by simp
  have ny: "j_next n \<noteq> NULL \<Longrightarrow> j_next n \<in> set ys \<and> j_next n \<noteq> c \<and> j_next n \<noteq> arr \<and> j_next n \<notin> set xs"
    using nx d a(2) by auto
  have h1: "h1 c = Some n" "h1 arr = Some a" "\<And>x. x \<in> set ys \<Longrightarrow> h1 x = jheap s x"
    using n a lx by (auto simp: h1_def)
  have h2: "h2 c = Some n" "h2 arr = Some a" using h1 ny by (auto simp: h2_def)
  have h3: "h3 c = Some n" using h2 a(2) by (auto simp: h3_def)
  have r: "cJSON_DetachItemFromArray s arr which = Some (s\<lparr>jheap := h4\<rparr>, c)"
  proof -
    have "(if j_prev n \<noteq> NULL then jupd s (j_prev n) (\<lambda>i. i\<lparr>j_next := j_next n\<rparr>) else Some s) = Some (s\<lparr>jheap := h1\<rparr>)"
      using at [of "last xs"] lx n(3) pv by (auto simp: jupd_def jat_def h1_def)
    moreover have "(if j_next n \<noteq> NULL then jupd (s\<lparr>jheap := h1\<rparr>) (j_next n) (\<lambda>i. i\<lparr>j_prev := j_prev n\<rparr>)
        else Some (s\<lparr>jheap := h1\<rparr>)) = Some (s\<lparr>jheap := h2\<rparr>)"
      using at [of "j_next n"] ny h1(3) by (auto simp: jupd_def jat_def h2_def)
    moreover have "(if c = j_child a then jupd (s\<lparr>jheap := h2\<rparr>) arr (\<lambda>i. i\<lparr>j_child := j_next n\<rparr>)
        else Some (s\<lparr>jheap := h2\<rparr>)) = Some (s\<lparr>jheap := h3\<rparr>)"
      using h2 a hd by (simp add: jupd_def jat_def h3_def)
    moreover have "jupd (s\<lparr>jheap := h3\<rparr>) c (\<lambda>i. i\<lparr>j_next := NULL, j_prev := NULL\<rparr>) = Some (s\<lparr>jheap := h4\<rparr>)"
      using h3 n by (simp add: jupd_def jat_def h4_def)
    ultimately show ?thesis using a n loop by (simp add: cJSON_DetachItemFromArray_def jat_def)
  qed
  have "relinked ?L arr (jheap s) h1"
    using relinked_upd [where h = "jheap s" and q = "last xs" and L = ?L and arr = arr] at [of "last xs"] lx relinked_refl
    by (auto simp: h1_def payload_def)
  moreover have "relinked ?L arr h1 h2"
    using relinked_upd [where h = h1 and q = "j_next n" and L = ?L and arr = arr] at [of "j_next n"] ny h1(3) relinked_refl
    by (auto simp: h2_def payload_def)
  moreover have "relinked ?L arr h2 h3"
    using relinked_upd [where h = h2 and q = arr and L = ?L and arr = arr, OF h2(2)] relinked_refl
    by (auto simp: h3_def payload_def)
  moreover have "relinked ?L arr h3 h4"
    using relinked_upd [where h = h3 and q = c and L = ?L and arr = arr, OF h3] by (auto simp: h4_def payload_def)
  ultimately have "relinked ?L arr (jheap s) h4" by (blast intro: relinked_trans)
  moreover have nl: "nxt h4 x = (if xs \<noteq> [] \<and> x = last xs then Some (j_next n) else nxt (jheap s) x)"
      "prv h4 x = (if j_next n \<noteq> NULL \<and> x = j_next n then Some (j_prev n) else prv (jheap s) x)" if "x \<in> set xs \<union> set ys" for x
  proof -
    have e: "h4 x = h2 x" using that a(2) d by (auto simp: h4_def h3_def)
    show "nxt h4 x = (if xs \<noteq> [] \<and> x = last xs then Some (j_next n) else nxt (jheap s) x)"
      using at [of x] that ny by (auto simp: nxt_def e h2_def h1_def)
    show "prv h4 x = (if j_next n \<noteq> NULL \<and> x = j_next n then Some (j_prev n) else prv (jheap s) x)"
      using at [of x] that ny by (auto simp: prv_def e h2_def h1_def)
  qed
  moreover have "dchain (nxt h4) (prv h4) NULL (if xs = [] then j_next n else j_child a) (xs @ ys)"
    by (rule dchain_unlink [OF a(4), where c = "j_next n"])
      (use nl lx ny n(2,3) in \<open>auto simp: nxt_eq_Some\<close>)
  moreover have "h4 arr = Some (if xs = [] then a\<lparr>j_child := j_next n\<rparr> else a)" using h2 a(2) by (auto simp: h4_def h3_def)
  ultimately show ?thesis using r a(1,2)
    by (intro exI [of _ "s\<lparr>jheap := h4\<rparr>"] exI [of _ "n\<lparr>j_next := NULL, j_prev := NULL\<rparr>"])
      (auto simp: items_def h4_def)
qed

section \<open>Deleting\<close>

text \<open>The nodes owned by the list that starts at \<open>p\<close>: its nodes and, unless they are references, all below them.\<close>

inductive owned :: "(ptr \<Rightarrow> 'd cJSON option) \<Rightarrow> ptr \<Rightarrow> ptr set \<Rightarrow> bool" for h where
  owned_null: "owned h NULL {}"
| owned_node: "p \<noteq> NULL \<Longrightarrow> h p = Some n \<Longrightarrow> owned h (if is_reference (j_type n) then NULL else j_child n) N1 \<Longrightarrow>
    owned h (j_next n) N2 \<Longrightarrow> p \<notin> N1 \<Longrightarrow> p \<notin> N2 \<Longrightarrow> N1 \<inter> N2 = {} \<Longrightarrow> owned h p (insert p (N1 \<union> N2))"

lemma cJSON_Delete_NULL [simp]: "cJSON_Delete s NULL = Some s"
  by (simp add: cJSON_Delete.simps)

lemma Delete_owned:
  assumes "owned h p N"
  shows "(\<forall>q\<in>N. jheap s q = h q) \<Longrightarrow> cJSON_Delete s p = Some (s\<lparr>jheap := jheap s |` (- N)\<rparr>)"
  using assms
proof (induction arbitrary: s)
  case owned_null
  then show ?case by (simp add: restrict_map_def)
next
  case (owned_node p n N1 N2)
  define s1 where "s1 = s\<lparr>jheap := jheap s |` (- N1)\<rparr>"
  define s2 where "s2 = s\<lparr>jheap := (jheap s1)(p := None)\<rparr>"
  have p: "jheap s p = Some n" using owned_node by simp
  have "cJSON_Delete s (if is_reference (j_type n) then NULL else j_child n) = Some s1"
    unfolding s1_def by (rule owned_node.IH(1)) (use owned_node.prems in simp)
  then have "(if \<not> is_reference (j_type n) \<and> j_child n \<noteq> NULL then cJSON_Delete s (j_child n) else Some s) = Some s1"
    by (auto split: if_splits)
  moreover have "jfree s1 p = Some s2" using p owned_node.hyps by (simp add: jfree_def jat_def s1_def s2_def)
  moreover have "cJSON_Delete s2 (j_next n) = Some (s2\<lparr>jheap := jheap s2 |` (- N2)\<rparr>)"
    by (rule owned_node.IH(2)) (use owned_node in \<open>auto simp: s2_def s1_def restrict_map_def\<close>)
  moreover have "jheap s2 |` (- N2) = jheap s |` (- insert p (N1 \<union> N2))"
    by (auto simp: s2_def s1_def restrict_map_def)
  ultimately show ?case
    using p owned_node.hyps by (simp add: cJSON_Delete.simps [of s p] jat_def s2_def)
qed
end
