(* ===== verification/CjsonLex.thy ===== *)
theory CjsonLex
  imports CjsonList
begin

text \<open>
  The lexical level of the JSON parser on arbitrary text.  \<open>safe_text\<close> says what the text must not contain: a
  backslash at its end, \<open>\u\<close> without four hexadecimal digits, an exponent of ten or more digits.  On every other text, valid JSON
  or not, numbers and strings are read without leaving the text and without overrunning the buffer of the copied string.
\<close>

section \<open>Safe texts\<close>

definition is_hex :: "char \<Rightarrow> bool" where
  "is_hex c \<longleftrightarrow> hex_digit c \<noteq> None"

definition esc_safe :: "cstr \<Rightarrow> bool" where
  "esc_safe r \<longleftrightarrow> r \<noteq> [] \<and> (hd r = CHR ''u'' \<longrightarrow> 5 \<le> length r \<and> list_all is_hex (take 4 (tl r)))"

definition exp_safe :: "cstr \<Rightarrow> bool" where
  "exp_safe r \<longleftrightarrow> length (takeWhile is_digit (if cur r = CHR ''+'' \<or> cur r = CHR ''-'' then tl r else r)) \<le> 9"

fun safe_text :: "cstr \<Rightarrow> bool" where
  "safe_text [] = True"
| "safe_text (c # r) = ((c = CHR 0x5C \<longrightarrow> esc_safe r) \<and> (c = CHR ''e'' \<or> c = CHR ''E'' \<longrightarrow> exp_safe r) \<and> safe_text r)"

lemma safe_drop: "safe_text v \<Longrightarrow> safe_text (drop n v)"
  by (induction v arbitrary: n) (auto simp: drop_Cons' split: if_splits)

lemma safe_tl: "safe_text v \<Longrightarrow> safe_text (tl v)"
  by (cases v) auto

text \<open>What every reader does: it stays in the text.\<close>

definition rest_of :: "cstr \<Rightarrow> cstr \<Rightarrow> bool" where
  "rest_of v w \<longleftrightarrow> (\<exists>n. w = drop n v)"

lemma rest_of_refl [simp]: "rest_of v v"
  unfolding rest_of_def by (rule exI [of _ 0]) simp

lemma rest_of_drop [simp]: "rest_of v (drop n v)"
  unfolding rest_of_def by blast

lemma rest_of_tl [simp]: "rest_of v (tl v)"
  unfolding rest_of_def by (rule exI [of _ 1]) (simp add: drop_Suc)

lemma rest_of_trans: "rest_of u v \<Longrightarrow> rest_of v w \<Longrightarrow> rest_of u w"
  unfolding rest_of_def by auto

lemma rest_of_Cons: "rest_of v w \<Longrightarrow> rest_of (c # v) w"
  using rest_of_trans [of "c # v" v w] rest_of_tl [of "c # v"] by simp

lemma rest_of_safe: "rest_of v w \<Longrightarrow> safe_text v \<Longrightarrow> safe_text w"
  unfolding rest_of_def using safe_drop by blast

lemma rest_of_length: "rest_of v w \<Longrightarrow> length w \<le> length v"
  unfolding rest_of_def by auto

lemma rest_of_skip: "rest_of v (skip v)"
  by (induction v) (auto intro: rest_of_Cons)

section \<open>Numbers\<close>

lemma digits_loop_rest: "digits_loop f n v = (m, w) \<Longrightarrow> rest_of v w"
  by (induction v arbitrary: n) (auto split: if_splits intro: rest_of_Cons)

lemma frac_loop_rest: "frac_loop f n sc v = (m, sc', w) \<Longrightarrow> rest_of v w"
  by (induction v arbitrary: n sc) (auto split: if_splits intro: rest_of_Cons)

lemma digit_value: "is_digit c \<Longrightarrow> 0 \<le> int (code c) - int (code CHR ''0'') \<and> int (code c) - int (code CHR ''0'') \<le> 9"
  by (auto simp: is_digit_def code_def)

lemma exp_loop_total:
  assumes "length (takeWhile is_digit v) \<le> k" and "0 \<le> a" and "a < 10 ^ (9 - k)" and "k \<le> 9"
  shows "\<exists>b w. exp_loop a v = Some (b, w) \<and> rest_of v w"
  using assms
proof (induction v arbitrary: a k)
  case (Cons c r)
  show ?case
  proof (cases "is_digit c")
    case True
    then obtain j where k: "k = Suc j" using Cons.prems(1) by (cases k) auto
    let ?b = "a * 10 + (int (code c) - int (code CHR ''0''))"
    have d: "0 \<le> int (code c) - int (code CHR ''0'')" "int (code c) - int (code CHR ''0'') \<le> 9" using digit_value [OF True] by auto
    have "(10 :: int) ^ (9 - j) = 10 * 10 ^ (9 - k)" using Cons.prems(4) k by (simp add: Suc_diff_le flip: power_Suc)
    then have b: "0 \<le> ?b" "?b < 10 ^ (9 - j)" using d Cons.prems(2,3) by linarith+
    have "(10 :: int) ^ (9 - j) \<le> 10 ^ 9" by (rule power_increasing) auto
    then have "?b < 2 ^ 31" using b by simp
    moreover obtain b' w where "exp_loop ?b r = Some (b', w)" "rest_of r w"
      using Cons.IH [of j ?b] Cons.prems b True k by auto
    ultimately show ?thesis using True by (auto intro: rest_of_Cons)
  qed simp
qed simp

lemma cur_tl: "cur v = c \<Longrightarrow> c \<noteq> CHR 0x00 \<Longrightarrow> v = c # tl v"
  by (cases v) auto

lemma scan_exp_total:
  assumes "safe_text v" and "cur v = CHR ''e'' \<or> cur v = CHR ''E''"
  shows "\<exists>b w. exp_loop 0 (if cur (tl v) = CHR ''+'' \<or> cur (tl v) = CHR ''-'' then tl (tl v) else tl v) = Some (b, w) \<and> rest_of v w"
proof -
  let ?w = "if cur (tl v) = CHR ''+'' \<or> cur (tl v) = CHR ''-'' then tl (tl v) else tl v"
  have "exp_safe (tl v)" using assms by (cases v) auto
  then obtain b w where w: "exp_loop 0 ?w = Some (b, w)" "rest_of ?w w"
    using exp_loop_total [of ?w 9 0] unfolding exp_safe_def by auto
  have "rest_of v ?w" using rest_of_trans [OF rest_of_tl rest_of_tl, of v] by auto
  then show ?thesis using w rest_of_trans by blast
qed

lemma scan_number_total:
  assumes "safe_text v"
  shows "\<exists>n w. scan_number f v = Some (n, w) \<and> rest_of v w"
proof -
  define v1 where "v1 = (if cur v = CHR ''-'' then tl v else v)"
  define v2 where "v2 = (if cur v1 = CHR ''0'' then tl v1 else v1)"
  obtain n v3 where v3: "(if is_digit (cur v2) \<and> cur v2 \<noteq> CHR ''0'' then digits_loop f (fp_of_int f 0) v2 else (fp_of_int f 0, v2)) = (n, v3)"
    by fastforce
  obtain m sc v4 where v4: "(if cur v3 = CHR ''.'' \<and> is_digit (cur (tl v3)) then frac_loop f n (fp_of_int f 0) (tl v3) else (n, fp_of_int f 0, v3)) = (m, sc, v4)"
    using prod_cases3 by blast
  have "rest_of v v1" "rest_of v1 v2" by (simp_all add: v1_def v2_def)
  moreover have "rest_of v2 v3"
  proof (cases "is_digit (cur v2) \<and> cur v2 \<noteq> CHR ''0''")
    case True
    then show ?thesis using v3 digits_loop_rest by (metis (no_types, lifting))
  next
    case False
    then show ?thesis using v3 by (simp only: if_not_P [OF False]) simp
  qed
  moreover have "rest_of v3 v4"
  proof (cases "cur v3 = CHR ''.'' \<and> is_digit (cur (tl v3))")
    case True
    then have "rest_of (tl v3) v4" using v4 frac_loop_rest by (metis (no_types, lifting))
    then show ?thesis using rest_of_trans [OF rest_of_tl] by blast
  next
    case False
    then show ?thesis using v4 by (simp only: if_not_P [OF False]) simp
  qed
  ultimately have v: "rest_of v v4" using rest_of_trans by metis
  have s: "safe_text v4" using rest_of_safe [OF v assms] .
  define e where "e = (if cur v4 = CHR ''e'' \<or> cur v4 = CHR ''E'' then do {
          let num = tl v4;
          let (signsubscale, num) = (if cur num = CHR ''+'' then (1 :: int, tl num)
                                     else if cur num = CHR ''-'' then (-1, tl num) else (1, num));
          (subscale, num) \<leftarrow> exp_loop 0 num;
          Some (subscale, signsubscale, num) }
        else Some (0, 1, v4))"
  have "\<exists>a b w. e = Some (a, b, w) \<and> rest_of v4 w"
  proof (cases "cur v4 = CHR ''e'' \<or> cur v4 = CHR ''E''")
    case True
    from scan_exp_total [OF s True] show ?thesis unfolding e_def if_P [OF True] by (auto simp: Let_def split: if_splits)
  next
    case False
    then show ?thesis by (simp add: e_def)
  qed
  then obtain a b w where e: "e = Some (a, b, w)" "rest_of v4 w" by blast
  obtain sgn where s1: "(if cur v = CHR ''-'' then (-1, tl v) else (1 :: int, v)) = (sgn, v1)" by (cases "cur v = CHR ''-''") (auto simp: v1_def)
  have e': "(if cur v4 = CHR ''e'' \<or> cur v4 = CHR ''E'' then
        case if cur (tl v4) = CHR ''+'' then (1 :: int, tl (tl v4)) else if cur (tl v4) = CHR ''-'' then (-1, tl (tl v4)) else (1, tl v4) of
          (ss, num) \<Rightarrow> do { (subscale, num) \<leftarrow> exp_loop 0 num; Some (subscale, ss, num) }
      else Some (0, 1, v4)) = Some (a, b, w)"
    using e(1) unfolding e_def Let_def .
  have "\<exists>x. scan_number f v = Some (x, w)"
    unfolding scan_number_def Let_def s1 prod.case v2_def [symmetric] v3 v4 e' by simp
  then show ?thesis using rest_of_trans [OF v e(2)] by blast
qed

section \<open>Strings\<close>

lemma utf8_length: "length (utf8_bytes uc) \<le> 4 \<and> (uc < 0x10000 \<longrightarrow> length (utf8_bytes uc) \<le> 3)"
  by (auto simp: utf8_bytes_def Let_def)

lemma hex_digit_less:
  assumes "hex_digit c = Some d"
  shows "unat d < 16"
proof -
  consider "is_digit c" "d = of_nat (code c - code CHR ''0'')"
    | "code CHR ''A'' \<le> code c" "code c \<le> code CHR ''F''" "d = of_nat (10 + code c - code CHR ''A'')"
    | "code CHR ''a'' \<le> code c" "code c \<le> code CHR ''f''" "d = of_nat (10 + code c - code CHR ''a'')"
    using assms unfolding hex_digit_def by (metis option.distinct(1) option.inject)
  then obtain k where "d = of_nat k" "k < 16"
  proof cases
    case 1
    then show ?thesis by (intro that [of "code c - code CHR ''0''"]) (auto simp: is_digit_def code_def)
  next
    case 2
    then show ?thesis by (intro that [of "10 + code c - code CHR ''A''"]) (auto simp: code_def)
  next
    case 3
    then show ?thesis by (intro that [of "10 + code c - code CHR ''a''"]) (auto simp: code_def)
  qed
  then show ?thesis by (simp add: unat_of_nat)
qed

lemma unat_shift4: "unat x < 2 ^ 20 \<Longrightarrow> unat (push_bit 4 x :: u32) = 16 * unat x"
  by (simp add: push_bit_eq_mult unat_word_ariths)

lemma parse_hex4_less: "parse_hex4 v < 0x10000"
proof -
  have "unat (parse_hex4 v) < 65536"
  proof (cases "hex_digit (cur v)")
    case (Some a)
    note a = Some
    show ?thesis
    proof (cases "hex_digit (cur (tl v))")
      case (Some b)
      note b = Some
      show ?thesis
      proof (cases "hex_digit (cur (tl (tl v)))")
        case (Some c)
        note c = Some
        show ?thesis
        proof (cases "hex_digit (cur (tl (tl (tl v))))")
          case (Some d)
          have A: "unat a < 16" "unat b < 16" "unat c < 16" "unat d < 16" using a b c Some hex_digit_less by blast+
          let ?x = "push_bit 4 a + b" let ?y = "push_bit 4 ?x + c" let ?z = "push_bit 4 ?y + d"
          have x: "unat ?x = 16 * unat a + unat b" using A by (simp add: unat_word_ariths unat_shift4)
          have y: "unat ?y = 16 * unat ?x + unat c" using A x by (simp add: unat_word_ariths unat_shift4)
          have z: "unat ?z = 16 * unat ?y + unat d" using A x y by (simp add: unat_word_ariths unat_shift4)
          have "parse_hex4 v = ?z" using a b c Some by (simp add: parse_hex4_def Let_def)
          then show ?thesis using A x y z by simp
        qed (use a b c in \<open>simp add: parse_hex4_def Let_def\<close>)
      qed (use a b in \<open>simp add: parse_hex4_def Let_def\<close>)
    qed (use a in \<open>simp add: parse_hex4_def Let_def\<close>)
  qed (simp add: parse_hex4_def)
  then show ?thesis by (simp add: word_less_nat_alt)
qed

lemma hex_plain: "is_hex c \<Longrightarrow> c \<noteq> CHR 0x22 \<and> c \<noteq> CHR 0x5C \<and> c \<noteq> CHR ''u''"
  by (auto simp: is_hex_def hex_digit_def is_digit_def code_def)

text \<open>Four hexadecimal digits count as four characters.\<close>

lemma scan_len_hex: "list_all is_hex t \<Longrightarrow> scan_len (t @ r) m = scan_len r (m + length t)"
  by (induction t arbitrary: m) (auto dest: hex_plain)

lemma scan_len_mono: "scan_len v m = Some n \<Longrightarrow> m \<le> n"
proof (induction v m arbitrary: n rule: scan_len.induct)
  case (2 c r m)
  show ?case
  proof (cases "c = CHR 0x5C")
    case True
    then obtain x r' where "r = x # r'" "scan_len r' (m + 1) = Some n" using 2(3) by (cases r) auto
    then show ?thesis using 2(1) [of x r' n] True by simp
  next
    case False
    then show ?thesis using 2(2,3) by (fastforce split: if_splits)
  qed
qed simp

lemma scan_len_total: "safe_text v \<Longrightarrow> \<exists>n. scan_len v m = Some n"
proof (induction v m rule: scan_len.induct)
  case (2 c r m)
  then show ?case by (cases r) (auto simp: esc_safe_def)
qed simp

text \<open>After \<open>\u\<close>.\<close>

lemma esc_hex:
  assumes "esc_safe (CHR ''u'' # r)"
  obtains t r' where "r = t @ r'" "length t = 4" "list_all is_hex t"
  using assms that [of "take 4 r" "drop 4 r"] by (auto simp: esc_safe_def)

lemma unescape_u_safe:
  assumes "safe_text (CHR 0x5C # CHR ''u'' # r)" and "scan_len (CHR ''u'' # r) m = Some len"
  shows "\<exists>o' c w m'. unescape_u out (CHR ''u'' # r) = Some (out @ o', c # w) \<and> rest_of r w \<and> scan_len w m' = Some len \<and>
    length o' + m \<le> m' \<and> length w < length r"
proof -
  have s: "esc_safe (CHR ''u'' # r)" "safe_text r" using assms(1) by simp_all
  obtain t w where t: "r = t @ w" "length t = 4" "list_all is_hex t" by (rule esc_hex [OF s(1)])
  obtain a b c d where t4: "t = [a, b, c, d]" using t(2) by (auto simp: numeral_eq_Suc length_Suc_conv)
  have len: "scan_len w (m + 5) = Some len" using assms(2) scan_len_hex [OF t(3), of w "m + 1"] t(1,2) by (simp add: ac_simps)
  let ?uc = "parse_hex4 r"
  have a4: "adv 4 (CHR ''u'' # r) = Some (d # w)" using t t4 by (simp add: adv_def numeral_eq_Suc)
  have lw: "rest_of r w" "length w < length r" using t unfolding rest_of_def by (auto intro: exI [of _ 4])
  show ?thesis
  proof (cases "(0xDC00 \<le> ?uc \<and> ?uc \<le> 0xDFFF) \<or> ?uc = 0")
    case True
    have "unescape_u out (CHR ''u'' # r) = Some (out @ [], d # w)" unfolding unescape_u_def Let_def list.sel a4 Option.bind.simps if_P [OF True] by simp
    then show ?thesis using len lw by (intro exI [of _ "[]"] exI [of _ d] exI [of _ w] exI [of _ "m + 5"]) simp
  next
    case no: False
    show ?thesis
    proof (cases "0xD800 \<le> ?uc \<and> ?uc \<le> 0xDBFF")
      case False
      have "unescape_u out (CHR ''u'' # r) = Some (out @ utf8_bytes ?uc, d # w)"
        unfolding unescape_u_def Let_def list.sel a4 Option.bind.simps if_not_P [OF no] if_not_P [OF False] ..
      moreover have "length (utf8_bytes ?uc) \<le> 3" using utf8_length parse_hex4_less by blast
      ultimately show ?thesis using len lw by (intro exI [of _ "utf8_bytes ?uc"] exI [of _ d] exI [of _ w] exI [of _ "m + 5"]) simp
    next
      case sur: True
      show ?thesis
      proof (cases "\<exists>w2. w = CHR 0x5C # CHR ''u'' # w2")
        case False
        have "unescape_u out (CHR ''u'' # r) = Some (out @ [], d # w)"
          unfolding unescape_u_def Let_def list.sel a4 Option.bind.simps if_not_P [OF no] if_P [OF sur]
          using False by (cases w; cases "tl w") (auto simp: peek_def adv_def)
        then show ?thesis using len lw by (intro exI [of _ "[]"] exI [of _ d] exI [of _ w] exI [of _ "m + 5"]) simp
      next
        case True
        then obtain w2 where w: "w = CHR 0x5C # CHR ''u'' # w2" by blast
        have "safe_text w" using rest_of_safe [OF lw(1) s(2)] .
        then have "esc_safe (CHR ''u'' # w2)" using w by simp
        then obtain t2 w3 where t2: "w2 = t2 @ w3" "length t2 = 4" "list_all is_hex t2" by (rule esc_hex)
        obtain a2 b2 c2 d2 where t24: "t2 = [a2, b2, c2, d2]" using t2(2) by (auto simp: numeral_eq_Suc length_Suc_conv)
        have len3: "scan_len w3 (m + 10) = Some len"
          using len w t2(1,2) scan_len_hex [OF t2(3), of w3 "m + 6"] by (simp add: ac_simps)
        have r3: "rest_of r w3" using lw(1) w t2(1) unfolding rest_of_def by (metis append_eq_conv_conj drop_drop drop_Suc_Cons)
        have l3: "length w3 < length r" using lw(2) w t2(1) by simp
        define o2 where "o2 = (let uc2 = parse_hex4 w2 in if uc2 < 0xDC00 \<or> uc2 > 0xDFFF then []
          else utf8_bytes (0x10000 + (push_bit 10 (?uc AND 0x3FF) OR (uc2 AND 0x3FF))))"
        have "unescape_u out (CHR ''u'' # r) = Some (out @ o2, d2 # w3)"
          unfolding unescape_u_def Let_def list.sel a4 Option.bind.simps if_not_P [OF no] if_P [OF sur]
          using w t2(1) t24 by (auto simp: peek_def adv_def o2_def Let_def numeral_eq_Suc)
        moreover have "length o2 \<le> 4" using utf8_length by (auto simp: o2_def Let_def)
        ultimately show ?thesis using len3 r3 l3 by (intro exI [of _ o2] exI [of _ d2] exI [of _ w3] exI [of _ "m + 10"]) simp
      qed
    qed
  qed
qed

text \<open>The copied string fits into its buffer: \<open>scan_len\<close> counts at least as many characters as \<open>unescape\<close> writes.\<close>

lemma unescape_total:
  assumes "safe_text v" and "scan_len v m = Some len"
  shows "\<exists>t w. unescape out v = Some (out @ t, w) \<and> m + length t \<le> len \<and> rest_of v w \<and> (w = [] \<or> cur w = CHR 0x22)"
  using assms
proof (induction "length v" arbitrary: v out m rule: less_induct)
  case less
  show ?case
  proof (cases v)
    case Nil
    then show ?thesis using less.prems by (simp add: unescape.simps)
  next
    case v: (Cons c r)
    consider "c = CHR 0x22" | "c \<noteq> CHR 0x22" "c \<noteq> CHR 0x5C" | "c = CHR 0x5C" by blast
    then show ?thesis
    proof cases
      case 1
      then show ?thesis using v less.prems by (simp add: unescape.simps)
    next
      case 2
      then have "safe_text r" "scan_len r (m + 1) = Some len" using less.prems v by simp_all
      then obtain t w where t: "unescape (out @ [c]) r = Some ((out @ [c]) @ t, w)" "m + 1 + length t \<le> len" "rest_of r w" "w = [] \<or> cur w = CHR 0x22"
        using less.hyps [of r "m + 1" "out @ [c]"] v by auto
      have "unescape out v = unescape (out @ [c]) r" using 2 v by (simp add: unescape.simps [of out "c # r"])
      then show ?thesis using t v by (intro exI [of _ "c # t"] exI [of _ w]) (auto intro: rest_of_Cons)
    next
      case 3
      then obtain d r' where r: "r = d # r'" "scan_len r' (m + 1) = Some len" using less.prems v by (cases r) auto
      have step: "\<exists>o' x w' m'. unescape_switch out r = Some (out @ o', x # w') \<and> rest_of r' w' \<and> scan_len w' m' = Some len \<and> length o' + m \<le> m'"
      proof (cases "d = CHR ''u''")
        case True
        have "scan_len (CHR ''u'' # r') m = Some len" using r(2) by simp
        from unescape_u_safe [OF _ this, of out] show ?thesis using less.prems(1) v 3 r(1) True
          by (fastforce simp: unescape_switch_def Let_def)
      next
        case False
        define x where "x = (if d = CHR ''b'' then CHR 0x08 else if d = CHR ''f'' then CHR 0x0C else if d = CHR ''n'' then CHR 0x0A
          else if d = CHR ''r'' then CHR 0x0D else if d = CHR ''t'' then CHR 0x09 else d)"
        have "unescape_switch out r = Some (out @ [x], d # r')" using r(1) False by (simp add: unescape_switch_def Let_def x_def)
        then show ?thesis using r(2) by (intro exI [of _ "[x]"] exI [of _ d] exI [of _ r'] exI [of _ "m + 1"]) simp
      qed
      then obtain o' x w' m' where s: "unescape_switch out r = Some (out @ o', x # w')" "rest_of r' w'" "scan_len w' m' = Some len" "length o' + m \<le> m'"
        by blast
      have rw: "rest_of v w'" using s(2) v r(1) by (auto intro: rest_of_Cons)
      have sw: "safe_text w'" by (rule rest_of_safe [OF rw less.prems(1)])
      have lw: "length w' < length v" using rest_of_length [OF s(2)] v r(1) by simp
      obtain t w where t: "unescape (out @ o') w' = Some ((out @ o') @ t, w)" "m' + length t \<le> len" "rest_of w' w" "w = [] \<or> cur w = CHR 0x22"
        using less.hyps [OF lw sw s(3), of "out @ o'"] by blast
      have "unescape out v = unescape (out @ o') w'" using v 3 s(1) by (simp add: unescape.simps [of out "CHR 0x5C # r"] adv_def)
      then show ?thesis using t s(4) rest_of_trans [OF rw t(3)] by (intro exI [of _ "o' @ t"] exI [of _ w]) simp
    qed
  qed
qed

lemma parse_string_safe:
  assumes "safe_text v" and "item \<noteq> NULL" and "jheap s item = Some n"
  shows "\<exists>s'. parse_string env s item v = Some (s', None) \<and> jheap s' = jheap s \<or>
    (\<exists>t w. parse_string env s item v = Some (s', Some w) \<and> rest_of v w \<and> length w < length v \<and>
      jheap s' = (jheap s)(item \<mapsto> n\<lparr>j_valuestring := Some t, j_type := cJSON_String\<rparr>))"
proof (cases "cur v = CHR 0x22")
  case False
  then show ?thesis by (intro exI [of _ "s\<lparr>jep := Some v\<rparr>"] disjI1) (simp add: parse_string_def)
next
  case True
  then obtain r where v: "v = CHR 0x22 # r" by (cases v) auto
  then have sr: "safe_text r" using assms(1) by simp
  obtain len where len: "scan_len r 0 = Some len" using scan_len_total [OF sr] by blast
  show ?thesis
  proof (cases "jstr_ok env (len + 1)")
    case False
    then show ?thesis using v len by (intro exI [of _ s] disjI1) (simp add: parse_string_def)
  next
    case ok: True
    obtain t w where t: "unescape [] r = Some (t, w)" "length t \<le> len" "rest_of r w"
      using unescape_total [OF sr len, of "[]"] by auto
    let ?w = "if cur w = CHR 0x22 then tl w else w"
    have "rest_of r ?w" using t(3) rest_of_trans [OF t(3) rest_of_tl] by simp
    moreover from this have "rest_of v ?w" "length ?w < length v" using v rest_of_Cons rest_of_length [of r ?w] by simp_all
    ultimately show ?thesis using v len ok t(1,2) assms(2,3)
      by (intro exI [of _ "s\<lparr>jheap := (jheap s)(item \<mapsto> n\<lparr>j_valuestring := Some t, j_type := cJSON_String\<rparr>)\<rparr>"] disjI2 exI [of _ t] exI [of _ ?w])
        (simp add: parse_string_def jupd_def jat_def Let_def)
  qed
qed

text \<open>Where the text is not safe: after \<open>\u\<close> without four digits the copy runs past the closing quotation mark, and past the end of
  a buffer that was measured up to that mark.\<close>

lemma scan_plain: "CHR 0x22 \<notin> set t \<Longrightarrow> CHR 0x5C \<notin> set t \<Longrightarrow> unescape out t = Some (out @ t, [])"
  by (induction t arbitrary: out) (auto simp: unescape.simps)

lemma unescape_overrun:
  assumes "jstr_ok env 4" and "CHR 0x22 \<notin> set t" and "CHR 0x5C \<notin> set t" and "4 < length t"
  shows "parse_string env s item ([CHR 0x22, CHR 0x5C, CHR ''u'', CHR ''1'', CHR ''2'', CHR 0x22] @ t) = None"
proof -
  obtain a t' where t: "t = a # t'" using assms(4) by (cases t) auto
  have 1: "scan_len ([CHR 0x5C, CHR ''u'', CHR ''1'', CHR ''2'', CHR 0x22] @ t) 0 = Some 3" by simp
  have "parse_hex4 ([CHR ''1'', CHR ''2'', CHR 0x22] @ t) = 0"
    by (simp add: parse_hex4_def hex_digit_def is_digit_def code_def Let_def)
  then have "unescape [] ([CHR 0x5C, CHR ''u'', CHR ''1'', CHR ''2'', CHR 0x22] @ t) = unescape [] t'"
    using t by (simp add: unescape.simps [of "[]" "CHR 0x5C # _"] unescape_switch_def unescape_u_def adv_def Let_def)
  then have "unescape [] ([CHR 0x5C, CHR ''u'', CHR ''1'', CHR ''2'', CHR 0x22] @ t) = Some (t', [])"
    using scan_plain [of t' "[]"] assms(2,3) t by simp
  then show ?thesis using 1 assms(1,4) t by (simp add: parse_string_def Let_def numeral_eq_Suc)
qed

end
