(* ===== verification/CjsonSafe.thy ===== *)
theory CjsonSafe
  imports CjsonLex
begin

text \<open>
  The parser on arbitrary safe text, valid JSON or not, whatever allocations fail: it returns, stays in the text, touches no
  node that existed before, and what it builds is a well-formed tree on success and can be deleted as a whole on failure.
\<close>

section \<open>Well-formed trees\<close>

text \<open>\<open>jnode h n N\<close>: the record \<open>n\<close> has a type and the fields that go with it, and \<open>N\<close> are the nodes below it; \<open>jlist h nm v p N\<close>:
  from \<open>p\<close> starts a doubly linked list of such nodes, \<open>v\<close> before the first, with names if \<open>nm\<close>.\<close>

inductive jnode :: "(ptr \<Rightarrow> 'd cJSON option) \<Rightarrow> 'd cJSON \<Rightarrow> ptr set \<Rightarrow> bool"
  and jlist :: "(ptr \<Rightarrow> 'd cJSON option) \<Rightarrow> bool \<Rightarrow> ptr \<Rightarrow> ptr \<Rightarrow> ptr set \<Rightarrow> bool" for h where
  jn_literal: "j_type n \<in> {cJSON_False, cJSON_True, cJSON_NULL, cJSON_Number} \<Longrightarrow> j_child n = NULL \<Longrightarrow> jnode h n {}"
| jn_string: "j_type n = cJSON_String \<Longrightarrow> j_valuestring n \<noteq> None \<Longrightarrow> j_child n = NULL \<Longrightarrow> jnode h n {}"
| jn_array: "j_type n = cJSON_Array \<Longrightarrow> jlist h False NULL (j_child n) N \<Longrightarrow> jnode h n N"
| jn_object: "j_type n = cJSON_Object \<Longrightarrow> jlist h True NULL (j_child n) N \<Longrightarrow> jnode h n N"
| jl_nil: "jlist h nm v NULL {}"
| jl_cons: "p \<noteq> NULL \<Longrightarrow> h p = Some n \<Longrightarrow> j_prev n = v \<Longrightarrow> (nm \<longrightarrow> j_string n \<noteq> None) \<Longrightarrow> jnode h n N1 \<Longrightarrow>
    jlist h nm p (j_next n) N2 \<Longrightarrow> p \<notin> N1 \<Longrightarrow> p \<notin> N2 \<Longrightarrow> N1 \<inter> N2 = {} \<Longrightarrow> jlist h nm v p (insert p (N1 \<union> N2))"

definition kids :: "(ptr \<Rightarrow> 'd cJSON option) \<Rightarrow> 'd cJSON \<Rightarrow> ptr set \<Rightarrow> bool" where
  "kids h n N \<longleftrightarrow> \<not> is_reference (j_type n) \<and> owned h (j_child n) N"

lemma plain_type [simp]:
  "\<not> is_reference 0" "\<not> is_reference 1" "\<not> is_reference 2" "\<not> is_reference 3" "\<not> is_reference 4" "\<not> is_reference 5" "\<not> is_reference 6"
  by (simp_all add: is_reference_def cJSON_IsReference_def)

lemma jnode_kids:
  shows "jnode h n N \<Longrightarrow> kids h n N" and "jlist h nm v p N \<Longrightarrow> owned h p N"
proof (induction rule: jnode_jlist.inducts)
  case (jl_cons p n v nm N1 N2)
  then show ?case by (intro owned.owned_node) (auto simp: kids_def)
qed (auto simp: kids_def cJSON_types intro: owned.owned_null)

lemma jnode_cong:
  shows "jnode h n N \<Longrightarrow> (\<forall>q\<in>N. h' q = h q) \<longrightarrow> jnode h' n N" and "jlist h nm v p N \<Longrightarrow> (\<forall>q\<in>N. h' q = h q) \<longrightarrow> jlist h' nm v p N"
proof (induction rule: jnode_jlist.inducts)
  case (jl_cons p n v nm N1 N2)
  then show ?case by (auto intro!: jnode_jlist.jl_cons)
qed (auto intro: jnode_jlist.intros)

lemma owned_cong: "owned h p N \<Longrightarrow> (\<forall>q\<in>N. h' q = h q) \<longrightarrow> owned h' p N"
proof (induction rule: owned.induct)
  case (owned_node p n N1 N2)
  then show ?case by (auto intro!: owned.owned_node)
qed (simp add: owned.owned_null)

lemma jnode_links:
  assumes "jnode h n N" and "j_type n' = j_type n" "j_child n' = j_child n" "j_valuestring n' = j_valuestring n"
  shows "jnode h n' N"
  using assms by (auto elim!: jnode.cases intro: jnode_jlist.intros)

lemma kids_cong: "kids h n N \<Longrightarrow> (\<And>q. q \<in> N \<Longrightarrow> h' q = h q) \<Longrightarrow> j_type n' = j_type n \<Longrightarrow> j_child n' = j_child n \<Longrightarrow> kids h' n' N"
  using owned_cong [of h "j_child n" N h'] by (simp add: kids_def)

section \<open>What a parser may do\<close>

definition grown :: "bool \<Rightarrow> (ptr \<Rightarrow> 'd cJSON option) \<Rightarrow> ptr \<Rightarrow> (ptr \<Rightarrow> 'd cJSON option) \<Rightarrow> bool \<Rightarrow> ptr set \<Rightarrow> bool" where
  "grown nm h p h' ok N \<longleftrightarrow>
     (\<exists>n n'. h p = Some n \<and> h' p = Some n' \<and> j_next n' = j_next n \<and> j_prev n' = j_prev n \<and>
        (nm \<longrightarrow> ok \<longrightarrow> j_string n' \<noteq> None) \<and> kids h' n' N \<and> (ok \<longrightarrow> jnode h' n' N)) \<and>
     N \<inter> dom h = {} \<and> dom h' = dom h \<union> N \<and> finite N \<and> (\<forall>q\<in>dom h. q \<noteq> p \<longrightarrow> h' q = h q)"

text \<open>The node a parser is given: allocated, with no children.\<close>

definition blank :: "'d jst \<Rightarrow> ptr \<Rightarrow> 'd cJSON \<Rightarrow> bool" where
  "blank s p n \<longleftrightarrow> p \<noteq> NULL \<and> jheap s p = Some n \<and> j_child n = NULL \<and> \<not> is_reference (j_type n) \<and> finite (dom (jheap s))"

definition elem_safe :: "bool \<Rightarrow> ('d jst \<Rightarrow> ptr \<Rightarrow> cstr \<Rightarrow> ('d jst \<times> cstr option) option) \<Rightarrow> nat \<Rightarrow> bool" where
  "elem_safe nm pe k \<longleftrightarrow> (\<forall>s p n v. blank s p n \<and> safe_text v \<and> length v < k \<longrightarrow>
     (\<exists>s' r N. pe s p v = Some (s', r) \<and> grown nm (jheap s) p (jheap s') (r \<noteq> None) N \<and> (\<forall>w. r = Some w \<longrightarrow> rest_of v w)))"

definition value_safe :: "'d parser \<Rightarrow> nat \<Rightarrow> bool" where
  "value_safe pv k \<longleftrightarrow> (\<forall>s p n v. blank s p n \<and> safe_text v \<and> length v < k \<longrightarrow>
     (\<exists>s' r N. pv s p (Some v) = Some (s', r) \<and> grown False (jheap s) p (jheap s') (r \<noteq> None) N \<and> (\<forall>w. r = Some w \<longrightarrow> rest_of v w) \<and>
        map_option j_string (jheap s' p) = map_option j_string (jheap s p)))"

definition alloc_fresh :: "'d jenv \<Rightarrow> bool" where
  "alloc_fresh env \<longleftrightarrow> (\<forall>h. finite (dom h) \<longrightarrow> jmalloc env h = NULL \<or> h (jmalloc env h) = None)"

lemma new_item_cases:
  assumes "alloc_fresh env" and "finite (dom (jheap s))"
  obtains "cJSON_New_Item env s = (s, NULL)"
  | q z where "cJSON_New_Item env s = (s\<lparr>jheap := (jheap s)(q \<mapsto> z)\<rparr>, q)" "q \<noteq> NULL" "jheap s q = None" "blank (s\<lparr>jheap := (jheap s)(q \<mapsto> z)\<rparr>) q z"
      "j_next z = NULL" "j_prev z = NULL" "j_type z = 0" "j_valuestring z = None"
proof (cases "jmalloc env (jheap s) = NULL")
  case True
  then show thesis using that(1) by (simp add: cJSON_New_Item_def Let_def)
next
  case False
  define q where "q = jmalloc env (jheap s)"
  define z where "z = \<lparr>j_next = NULL, j_prev = NULL, j_child = NULL, j_type = 0, j_valuestring = None, j_valueint = 0,
    j_valuedouble = fp_of_int (jf env) 0, j_string = None\<rparr>"
  have z: "j_next z = NULL" "j_prev z = NULL" "j_child z = NULL" "j_type z = 0" "j_valuestring z = None" by (simp_all add: z_def)
  have q: "q \<noteq> NULL" "jheap s q = None" using assms(1) [unfolded alloc_fresh_def, rule_format, OF assms(2)] False by (simp_all add: q_def)
  have r: "cJSON_New_Item env s = (s\<lparr>jheap := (jheap s)(q \<mapsto> z)\<rparr>, q)"
    using False unfolding cJSON_New_Item_def Let_def q_def z_def by simp
  have b: "blank (s\<lparr>jheap := (jheap s)(q \<mapsto> z)\<rparr>) q z" using q z assms(2) by (simp add: blank_def)
  show thesis by (rule that(2) [OF r q b z(1,2,4,5)])
qed

section \<open>The loop over the elements\<close>

text \<open>The nodes that the loop appends behind \<open>child\<close>.\<close>

definition appended :: "bool \<Rightarrow> (ptr \<Rightarrow> 'd cJSON option) \<Rightarrow> ptr \<Rightarrow> (ptr \<Rightarrow> 'd cJSON option) \<Rightarrow> bool \<Rightarrow> ptr set \<Rightarrow> bool" where
  "appended nm h child h' ok N \<longleftrightarrow>
     (\<exists>n x. h child = Some n \<and> h' child = Some (n\<lparr>j_next := x\<rparr>) \<and> owned h' x N \<and> (ok \<longrightarrow> jlist h' nm child x N)) \<and>
     N \<inter> dom h = {} \<and> dom h' = dom h \<union> N \<and> finite N \<and> (\<forall>q\<in>dom h. q \<noteq> child \<longrightarrow> h' q = h q)"

lemma appended_nothing: "h child = Some n \<Longrightarrow> j_next n = NULL \<Longrightarrow> appended nm h child h ok {}"
  unfolding appended_def using owned.owned_null jnode_jlist.jl_nil
  by (intro conjI exI [of _ n] exI [of _ NULL]) auto

text \<open>The first node of a list with the rest of the list behind it.\<close>

lemma list_front:
  assumes g: "grown nm h1 q h2 ok1 N1" and a: "ok1 \<Longrightarrow> appended nm h2 q h3 ok2 N2" and stop: "\<not> ok1 \<Longrightarrow> h3 = h2 \<and> N2 = {} \<and> \<not> ok2"
    and q: "h1 q = Some m" "j_next m = NULL" "j_prev m = v" "q \<noteq> NULL"
  shows "owned h3 q (insert q (N1 \<union> N2)) \<and> (ok2 \<longrightarrow> jlist h3 nm v q (insert q (N1 \<union> N2))) \<and>
    insert q (N1 \<union> N2) \<inter> (dom h1 - {q}) = {} \<and> dom h3 = dom h1 \<union> N1 \<union> N2 \<and> finite (N1 \<union> N2) \<and> (\<forall>x\<in>dom h1. x \<noteq> q \<longrightarrow> h3 x = h1 x)"
proof -
  obtain m2 where m2: "h2 q = Some m2" "j_next m2 = NULL" "j_prev m2 = v" "nm \<longrightarrow> ok1 \<longrightarrow> j_string m2 \<noteq> None" "kids h2 m2 N1" "ok1 \<longrightarrow> jnode h2 m2 N1"
    using g q unfolding grown_def by auto
  have G: "N1 \<inter> dom h1 = {}" "dom h2 = dom h1 \<union> N1" "finite N1" "\<And>x. x \<in> dom h1 \<Longrightarrow> x \<noteq> q \<Longrightarrow> h2 x = h1 x"
    using g unfolding grown_def by blast+
  have q1: "q \<in> dom h1" "q \<notin> N1" using q(1) G(1) by auto
  show ?thesis
  proof (cases ok1)
    case False
    then have "owned h3 q (insert q (N1 \<union> {}))" using stop m2 q q1
      by (intro owned.owned_node [where n = m2]) (auto simp: kids_def intro: owned.owned_null)
    then show ?thesis using stop [OF False] G q1 by auto
  next
    case True
    obtain x where x: "h3 q = Some (m2\<lparr>j_next := x\<rparr>)" "owned h3 x N2" "ok2 \<longrightarrow> jlist h3 nm q x N2"
      using a [OF True] m2(1) unfolding appended_def by auto
    have A: "N2 \<inter> dom h2 = {}" "dom h3 = dom h2 \<union> N2" "finite N2" "\<And>x. x \<in> dom h2 \<Longrightarrow> x \<noteq> q \<Longrightarrow> h3 x = h2 x"
      using a [OF True] unfolding appended_def by blast+
    have same: "h3 y = h2 y" if "y \<in> N1" for y using A(4) that G(2) q1(2) by auto
    have "q \<in> dom h2" using m2(1) by (rule domI)
    then have q2: "q \<notin> N2" "N1 \<inter> N2 = {}" using A(1) G(2) by auto
    have "kids h3 (m2\<lparr>j_next := x\<rparr>) N1" by (rule kids_cong [OF m2(5) same]) simp_all
    then have "owned h3 q (insert q (N1 \<union> N2))" using x q(4) q1(2) q2
      by (intro owned.owned_node [where n = "m2\<lparr>j_next := x\<rparr>"]) (simp_all add: kids_def)
    moreover have "jlist h3 nm v q (insert q (N1 \<union> N2))" if ok2
    proof (rule jnode_jlist.jl_cons [where h = h3 and n = "m2\<lparr>j_next := x\<rparr>", OF q(4) x(1)])
      have "jnode h2 m2 N1" using m2(6) True by blast
      then have "jnode h3 m2 N1" using jnode_cong(1) [of h2 m2 N1 h3] same by blast
      then show "jnode h3 (m2\<lparr>j_next := x\<rparr>) N1" by (rule jnode_links) simp_all
      show "jlist h3 nm q (j_next (m2\<lparr>j_next := x\<rparr>)) N2" using x(3) that by simp
    qed (use m2 True q1(2) q2 in auto)
    ultimately show ?thesis using G A q1 by auto
  qed
qed

lemma loop_step:
  assumes "elem_loop env pe close L"
  shows "cur v = CHR '','' \<Longrightarrow> L s child v = do {
        let (s, new_item) = cJSON_New_Item env s;
        if new_item = NULL then Some (s, None)
        else do {
          s \<leftarrow> jupd s child (\<lambda>i. i\<lparr>j_next := new_item\<rparr>);
          s \<leftarrow> jupd s new_item (\<lambda>i. i\<lparr>j_prev := child\<rparr>);
          (s, v) \<leftarrow> pe s new_item (skip (tl v));
          case v of None \<Rightarrow> Some (s, None) | Some v \<Rightarrow> L s new_item v } }"
    and "cur v \<noteq> CHR '','' \<Longrightarrow> L s child v = (if cur v = close then Some (s, Some (tl v)) else Some (s\<lparr>jep := Some v\<rparr>, None))"
  using assms unfolding elem_loop_def by simp_all

text \<open>What the loop does, on a text shorter than \<open>k\<close>.\<close>

definition loop_safe :: "bool \<Rightarrow> ('d jst \<Rightarrow> ptr \<Rightarrow> cstr \<Rightarrow> ('d jst \<times> cstr option) option) \<Rightarrow> nat \<Rightarrow> bool" where
  "loop_safe nm L k \<longleftrightarrow> (\<forall>s child n v. child \<noteq> NULL \<and> jheap s child = Some n \<and> j_next n = NULL \<and> finite (dom (jheap s)) \<and>
     safe_text v \<and> length v < k \<longrightarrow>
     (\<exists>s' r N. L s child v = Some (s', r) \<and> appended nm (jheap s) child (jheap s') (r \<noteq> None) N \<and> (\<forall>w. r = Some w \<longrightarrow> rest_of v w)))"

text \<open>A new node, its element and the loop behind it.\<close>

lemma linked_step:
  assumes pe: "elem_safe nm pe k" and L: "loop_safe nm L m" and q: "blank s q z" "j_next z = NULL" "j_prev z = u"
    and v: "safe_text v" "length v < k" "length v < m"
  shows "\<exists>s' r N. do { (s, v) \<leftarrow> pe s q v; case v of None \<Rightarrow> Some (s, None) | Some v \<Rightarrow> L s q v } = Some (s', r) \<and>
    owned (jheap s') q (insert q N) \<and> (r \<noteq> None \<longrightarrow> jlist (jheap s') nm u q (insert q N)) \<and> insert q N \<inter> (dom (jheap s) - {q}) = {} \<and>
    dom (jheap s') = dom (jheap s) \<union> N \<and> finite N \<and> (\<forall>x\<in>dom (jheap s). x \<noteq> q \<longrightarrow> jheap s' x = jheap s x) \<and> (\<forall>w. r = Some w \<longrightarrow> rest_of v w)"
proof -
  have z: "jheap s q = Some z" "q \<noteq> NULL" using q(1) by (simp_all add: blank_def)
  obtain s1 r1 N1 where p: "pe s q v = Some (s1, r1)" "grown nm (jheap s) q (jheap s1) (r1 \<noteq> None) N1" "\<forall>w. r1 = Some w \<longrightarrow> rest_of v w"
    using pe q(1) v(1,2) unfolding elem_safe_def by blast
  show ?thesis
  proof (cases r1)
    case None
    have "owned (jheap s1) q (insert q (N1 \<union> {})) \<and> (False \<longrightarrow> jlist (jheap s1) nm u q (insert q (N1 \<union> {}))) \<and>
      insert q (N1 \<union> {}) \<inter> (dom (jheap s) - {q}) = {} \<and> dom (jheap s1) = dom (jheap s) \<union> N1 \<union> {} \<and> finite (N1 \<union> {}) \<and>
      (\<forall>x\<in>dom (jheap s). x \<noteq> q \<longrightarrow> jheap s1 x = jheap s x)"
      by (rule list_front [OF p(2) _ _ z(1) q(2,3) z(2)]) (use None in auto)
    then show ?thesis using p(1) None by (intro exI [of _ s1] exI [of _ None] exI [of _ N1]) simp
  next
    case (Some w)
    obtain m1 where m1: "jheap s1 q = Some m1" "j_next m1 = NULL" using p(2) z(1) q(2) unfolding grown_def by auto
    have fin: "finite (dom (jheap s1))" using p(2) q(1) unfolding grown_def blank_def by auto
    have w: "safe_text w" "length w < m" using p(3) Some rest_of_safe [OF _ v(1)] rest_of_length [of v w] v(3) by auto
    obtain s2 r2 N2 where l: "L s1 q w = Some (s2, r2)" "appended nm (jheap s1) q (jheap s2) (r2 \<noteq> None) N2" "\<forall>x. r2 = Some x \<longrightarrow> rest_of w x"
      using L z(2) m1 fin w unfolding loop_safe_def by blast
    have "owned (jheap s2) q (insert q (N1 \<union> N2)) \<and> (r2 \<noteq> None \<longrightarrow> jlist (jheap s2) nm u q (insert q (N1 \<union> N2))) \<and>
      insert q (N1 \<union> N2) \<inter> (dom (jheap s) - {q}) = {} \<and> dom (jheap s2) = dom (jheap s) \<union> N1 \<union> N2 \<and> finite (N1 \<union> N2) \<and>
      (\<forall>x\<in>dom (jheap s). x \<noteq> q \<longrightarrow> jheap s2 x = jheap s x)"
      by (rule list_front [OF p(2) l(2) _ z(1) q(2,3) z(2)]) (use Some in auto)
    moreover have "\<forall>x. r2 = Some x \<longrightarrow> rest_of v x" using l(3) p(3) Some rest_of_trans by blast
    ultimately show ?thesis using p(1) Some l(1) by (intro exI [of _ s2] exI [of _ r2] exI [of _ "N1 \<union> N2"]) (simp add: Un_assoc)
  qed
qed

lemma loop_safe_all:
  assumes L: "elem_loop (env :: 'd jenv) pe close L" and env: "alloc_fresh env" and pe: "elem_safe nm pe k"
  shows "loop_safe nm L k"
proof -
  have "m \<le> k \<Longrightarrow> loop_safe nm L m" for m
  proof (induction m)
    case (Suc m)
    show ?case
      unfolding loop_safe_def
    proof (intro allI impI, elim conjE)
      fix s :: "'d jst" and child n v
      assume c: "child \<noteq> NULL" "jheap s child = Some n" "j_next n = NULL" and fin: "finite (dom (jheap s))"
        and v: "safe_text v" "length v < Suc m"
      note step = loop_step [OF L, of v s child]
      show "\<exists>s' r N. L s child v = Some (s', r) \<and> appended nm (jheap s) child (jheap s') (r \<noteq> None) N \<and> (\<forall>w. r = Some w \<longrightarrow> rest_of v w)"
      proof (cases "cur v = CHR '',''")
        case False
        then show ?thesis using step(2) appended_nothing [of "jheap s" child n nm] c(2,3)
          by (cases "cur v = close") (auto intro!: exI [of _ "{}"])
      next
        case comma: True
        then have tv: "length (tl v) < length v" "safe_text (tl v)" using v(1) by (cases v; auto)+
        have sv: "rest_of (tl v) (skip (tl v))" by (rule rest_of_skip)
        then have w: "safe_text (skip (tl v))" "length (skip (tl v)) < m" "rest_of v (skip (tl v))"
          using rest_of_safe tv rest_of_length [OF sv] v(2) rest_of_trans [OF rest_of_tl sv] by auto
        from new_item_cases [OF env fin] show ?thesis
        proof cases
          case 1
          then show ?thesis using step(1) [OF comma] appended_nothing [of "jheap s" child n nm] c(2,3)
            by (intro exI [of _ s] exI [of _ None] exI [of _ "{}"]) simp
        next
          case (2 q z)
          have qc: "q \<noteq> child" using 2(3) c(2) by auto
          define h where "h = (jheap s)(q \<mapsto> z\<lparr>j_prev := child\<rparr>, child \<mapsto> n\<lparr>j_next := q\<rparr>)"
          have u: "L s child v = do { (s, v) \<leftarrow> pe (s\<lparr>jheap := h\<rparr>) q (skip (tl v)); case v of None \<Rightarrow> Some (s, None) | Some v \<Rightarrow> L s q v }"
            using step(1) [OF comma] 2(1,2) c(1,2) qc by (simp add: jupd_def jat_def h_def fun_upd_twist [of q child])
          have b: "blank (s\<lparr>jheap := h\<rparr>) q (z\<lparr>j_prev := child\<rparr>)" using 2(2,4) qc fin by (simp add: blank_def h_def)
          have "m \<le> k" using Suc.prems by simp
          from linked_step [OF pe Suc.IH [OF this] b _ _ w(1) _ w(2), of child] w(2) 2(5) this
          obtain s' r N where l: "L s child v = Some (s', r)" "owned (jheap s') q (insert q N)" "r \<noteq> None \<longrightarrow> jlist (jheap s') nm child q (insert q N)"
            "insert q N \<inter> (dom h - {q}) = {}" "dom (jheap s') = dom h \<union> N" "finite N" "\<forall>x\<in>dom h. x \<noteq> q \<longrightarrow> jheap s' x = h x"
            "\<forall>w. r = Some w \<longrightarrow> rest_of (skip (tl v)) w"
            unfolding u by auto
          have dh: "dom h = insert q (dom (jheap s))" using c(2) by (auto simp: h_def)
          have "child \<in> dom h" "h child = Some (n\<lparr>j_next := q\<rparr>)" by (simp_all add: h_def)
          then have ch: "jheap s' child = Some (n\<lparr>j_next := q\<rparr>)" using l(7) qc by metis
          have "appended nm (jheap s) child (jheap s') (r \<noteq> None) (insert q N)"
            unfolding appended_def
          proof (intro conjI exI [of _ n] exI [of _ q])
            show "insert q N \<inter> dom (jheap s) = {}" using l(4) dh 2(3) by auto
            show "dom (jheap s') = dom (jheap s) \<union> insert q N" using l(5) dh by auto
            show "\<forall>x\<in>dom (jheap s). x \<noteq> child \<longrightarrow> jheap s' x = jheap s x"
            proof (intro ballI impI)
              fix x assume x: "x \<in> dom (jheap s)" "x \<noteq> child"
              then have "x \<noteq> q" using 2(3) by auto
              then show "jheap s' x = jheap s x" using l(7) dh x by (simp add: h_def)
            qed
          qed (use l(2,3,6) c(2) ch in auto)
          then show ?thesis using l(1,8) rest_of_trans [OF w(3)] by blast
        qed
      qed
    qed
  qed (simp add: loop_safe_def)
  then show ?thesis by simp
qed

section \<open>Arrays, objects and values\<close>

text \<open>What \<open>parse_array\<close> and \<open>parse_object\<close> have in common.\<close>

definition container :: "int \<Rightarrow> char \<Rightarrow> char \<Rightarrow> 'd jenv \<Rightarrow> ('d jst \<Rightarrow> ptr \<Rightarrow> cstr \<Rightarrow> ('d jst \<times> cstr option) option) \<Rightarrow>
    ('d jst \<Rightarrow> ptr \<Rightarrow> cstr \<Rightarrow> ('d jst \<times> cstr option) option) \<Rightarrow> 'd jst \<Rightarrow> ptr \<Rightarrow> cstr \<Rightarrow> ('d jst \<times> cstr option) option" where
  "container ty open close env pe L s item v =
     (if cur v \<noteq> open then Some (s\<lparr>jep := Some v\<rparr>, None)
      else do {
        s \<leftarrow> jupd s item (\<lambda>i. i\<lparr>j_type := ty\<rparr>);
        let v = skip (tl v);
        if cur v = close then Some (s, Some (tl v))
        else do {
          let (s, child) = cJSON_New_Item env s;
          s \<leftarrow> jupd s item (\<lambda>i. i\<lparr>j_child := child\<rparr>);
          if child = NULL then Some (s, None)
          else do {
            (s, v) \<leftarrow> pe s child (skip v);
            case v of None \<Rightarrow> Some (s, None) | Some v \<Rightarrow> L s child v } } })"

lemma parse_array_container: "parse_array pv env = container cJSON_Array CHR ''['' CHR '']'' env (elem_parser pv) (parse_elems pv env)"
  by (intro ext) (simp add: parse_array_def container_def elem_parser_bind Let_def cong: if_cong)

lemma parse_object_container: "parse_object pv env = container cJSON_Object CHR ''{'' CHR ''}'' env (parse_pair pv env) (parse_members pv env)"
  by (intro ext) (simp add: parse_object_def container_def)

lemma jupd_run: "p \<noteq> NULL \<Longrightarrow> jheap s p = Some n \<Longrightarrow> jupd s p f = Some (s\<lparr>jheap := (jheap s)(p \<mapsto> f n)\<rparr>)"
  by (simp add: jupd_def jat_def)

text \<open>Only the record of the node itself changes.\<close>

lemma grown_self:
  assumes "h p = Some n" and "h' = h(p \<mapsto> n')" and "j_next n' = j_next n" "j_prev n' = j_prev n" "nm \<longrightarrow> ok \<longrightarrow> j_string n' \<noteq> None"
    and "j_child n' = NULL" "\<not> is_reference (j_type n')" and "ok \<Longrightarrow> jnode h' n' {}"
  shows "grown nm h p h' ok {}"
  unfolding grown_def using assms owned.owned_null by (intro conjI exI [of _ n] exI [of _ n']) (auto simp: kids_def)

lemma container_safe:
  fixes s :: "'d jst"
  assumes L: "elem_loop env pe close L" and env: "alloc_fresh env" and pe: "elem_safe nm pe k"
    and ty: "ty = cJSON_Array \<and> \<not> nm \<or> ty = cJSON_Object \<and> nm"
    and b: "blank s p n" and v: "safe_text v" "length v \<le> k" "cur v = open" "v \<noteq> []"
  shows "\<exists>s' r N. container ty open close env pe L s p v = Some (s', r) \<and> grown False (jheap s) p (jheap s') (r \<noteq> None) N \<and>
    (\<forall>w. r = Some w \<longrightarrow> rest_of v w) \<and> map_option j_string (jheap s' p) = map_option j_string (jheap s p)"
proof -
  have p: "p \<noteq> NULL" "jheap s p = Some n" "j_child n = NULL" "finite (dom (jheap s))" using b by (simp_all add: blank_def)
  define s1 where "s1 = s\<lparr>jheap := (jheap s)(p \<mapsto> n\<lparr>j_type := ty\<rparr>)\<rparr>"
  have u1: "jupd s p (\<lambda>i. i\<lparr>j_type := ty\<rparr>) = Some s1" using jupd_run [OF p(1,2)] by (simp add: s1_def)
  have h1: "jheap s1 p = Some (n\<lparr>j_type := ty\<rparr>)" "finite (dom (jheap s1))" "dom (jheap s1) = dom (jheap s)" using p by (auto simp: s1_def)
  have tyr: "\<not> is_reference ty" using ty by (auto simp: cJSON_types)
  have node: "jnode h m N" if "j_type m = ty" "jlist h nm NULL (j_child m) N" for h :: "ptr \<Rightarrow> 'd cJSON option" and m N
    using that ty by (auto intro: jnode_jlist.intros)
  let ?w = "skip (tl v)"
  have w: "rest_of v ?w" using rest_of_trans [OF rest_of_tl rest_of_skip] .
  have lw: "length ?w < length v" using rest_of_length [OF rest_of_skip, of "tl v"] v(4) by (cases v) auto
  show ?thesis
  proof (cases "cur ?w = close")
    case True
    have nd: "jnode (jheap s1) (n\<lparr>j_type := ty\<rparr>) {}" by (rule node) (use p(3) in \<open>simp_all add: jnode_jlist.jl_nil\<close>)
    have "grown False (jheap s) p (jheap s1) True {}"
      by (rule grown_self [where h = "jheap s" and n' = "n\<lparr>j_type := ty\<rparr>", OF p(2)]) (use p(3) tyr nd in \<open>auto simp: s1_def\<close>)
    then show ?thesis using u1 True v(3) rest_of_trans [OF w rest_of_tl] h1(1) p(2)
      by (intro exI [of _ s1] exI [of _ "Some (tl ?w)"] exI [of _ "{}"]) (simp add: container_def Let_def)
  next
    case more: False
    from new_item_cases [OF env h1(2)] show ?thesis
    proof cases
      case 1
      define s2 where "s2 = s1\<lparr>jheap := (jheap s1)(p \<mapsto> n\<lparr>j_type := ty, j_child := NULL\<rparr>)\<rparr>"
      have "container ty open close env pe L s p v = Some (s2, None)"
        using u1 more v(3) 1 jupd_run [OF p(1) h1(1)] by (simp add: container_def Let_def s2_def)
      moreover have "grown False (jheap s) p (jheap s2) False {}"
        by (rule grown_self [where h = "jheap s" and n' = "n\<lparr>j_type := ty, j_child := NULL\<rparr>", OF p(2)]) (use tyr in \<open>auto simp: s2_def s1_def\<close>)
      ultimately show ?thesis using p(2) by (intro exI [of _ s2] exI [of _ None] exI [of _ "{}"]) (simp add: s2_def)
    next
      case (2 q z)
      have qp: "q \<noteq> p" using 2(3) h1(1) by auto
      define h where "h = (jheap s1)(q \<mapsto> z, p \<mapsto> n\<lparr>j_type := ty, j_child := q\<rparr>)"
      define s2 where "s2 = s1\<lparr>jheap := h\<rparr>"
      have u2: "jupd (s1\<lparr>jheap := (jheap s1)(q \<mapsto> z)\<rparr>) p (\<lambda>i. i\<lparr>j_child := q\<rparr>) = Some s2"
        using h1(1) p(1) qp by (simp add: jupd_def jat_def s2_def h_def)
      have run: "container ty open close env pe L s p v = do { (s, v) \<leftarrow> pe s2 q (skip ?w); case v of None \<Rightarrow> Some (s, None) | Some v \<Rightarrow> L s q v }"
        using u1 more v(3) 2(1,2) u2 by (simp add: container_def Let_def)
      have b2: "blank s2 q z" using 2(2,4) qp h1(2) by (simp add: blank_def s2_def h_def)
      have w2: "rest_of v (skip ?w)" "safe_text (skip ?w)" "length (skip ?w) < k"
        using rest_of_trans [OF w rest_of_skip] rest_of_safe [OF _ v(1)] rest_of_length [OF rest_of_skip, of ?w] lw v(2) by auto
      from linked_step [OF pe loop_safe_all [OF L env pe] b2 2(5,6) w2(2,3,3)]
      obtain s' r N where l: "container ty open close env pe L s p v = Some (s', r)" "owned (jheap s') q (insert q N)"
        "r \<noteq> None \<longrightarrow> jlist (jheap s') nm NULL q (insert q N)" "insert q N \<inter> (dom h - {q}) = {}" "dom (jheap s') = dom h \<union> N" "finite N"
        "\<forall>x\<in>dom h. x \<noteq> q \<longrightarrow> jheap s' x = h x" "\<forall>x. r = Some x \<longrightarrow> rest_of (skip ?w) x"
        unfolding run by (auto simp: s2_def)
      have dh: "dom h = insert q (dom (jheap s))" using p(2) h1(3) by (auto simp: h_def)
      have hp: "p \<in> dom h" "h p = Some (n\<lparr>j_type := ty, j_child := q\<rparr>)" by (simp_all add: h_def)
      then have np: "jheap s' p = Some (n\<lparr>j_type := ty, j_child := q\<rparr>)" using l(7) qp by metis
      have "grown False (jheap s) p (jheap s') (r \<noteq> None) (insert q N)"
        unfolding grown_def
      proof (intro conjI, rule exI [of _ n], rule exI [of _ "n\<lparr>j_type := ty, j_child := q\<rparr>"], intro conjI)
        have qs: "q \<notin> dom (jheap s)" using 2(3) h1(3) by auto
        show "insert q N \<inter> dom (jheap s) = {}" using l(4) dh qs by auto
        show "dom (jheap s') = dom (jheap s) \<union> insert q N" using l(5) dh by auto
        show "\<forall>x\<in>dom (jheap s). x \<noteq> p \<longrightarrow> jheap s' x = jheap s x"
        proof (intro ballI impI)
          fix x assume x: "x \<in> dom (jheap s)" "x \<noteq> p"
          then have "x \<noteq> q" using qs by auto
          then show "jheap s' x = jheap s x" using l(7) dh x by (simp add: h_def s1_def)
        qed
        show "kids (jheap s') (n\<lparr>j_type := ty, j_child := q\<rparr>) (insert q N)" using l(2) tyr by (simp add: kids_def)
        show "r \<noteq> None \<longrightarrow> jnode (jheap s') (n\<lparr>j_type := ty, j_child := q\<rparr>) (insert q N)" using l(3) node by simp
      qed (use l(6) p(2) np in auto)
      then show ?thesis using l(1,8) rest_of_trans [OF w2(1)] p(2) np by (intro exI [of _ s'] exI [of _ r] exI [of _ "insert q N"]) auto
    qed
  qed
qed

lemma elem_parser_safe:
  fixes pv :: "'d parser"
  assumes "value_safe pv k"
  shows "elem_safe False (elem_parser pv) k"
  unfolding elem_safe_def
proof (intro allI impI, elim conjE)
  fix s :: "'d jst" and p n v assume *: "blank s p n" "safe_text v" "length v < k"
  then obtain s' r N where "pv s p (Some v) = Some (s', r)" "grown False (jheap s) p (jheap s') (r \<noteq> None) N" "\<forall>w. r = Some w \<longrightarrow> rest_of v w"
    using assms unfolding value_safe_def by blast
  then show "\<exists>s' r N. elem_parser pv s p v = Some (s', r) \<and> grown False (jheap s) p (jheap s') (r \<noteq> None) N \<and> (\<forall>w. r = Some w \<longrightarrow> rest_of v w)"
    using rest_of_trans [OF _ rest_of_skip]
    by (intro exI [of _ s'] exI [of _ "skip_opt r"] exI [of _ N]) (auto simp: elem_parser_def skip_opt_def)
qed

text \<open>Two steps on the same node, the first of which adds no nodes.\<close>

lemma grown_after:
  assumes g: "grown False h1 p h2 ok N" and h1: "h1 = h(p \<mapsto> n1)" "h p = Some n" "j_next n1 = j_next n" "j_prev n1 = j_prev n"
    and nm: "map_option j_string (h2 p) = map_option j_string (h1 p)" "nm \<Longrightarrow> ok \<Longrightarrow> j_string n1 \<noteq> None"
  shows "grown nm h p h2 ok N"
proof -
  obtain n2 where n2: "h2 p = Some n2" "j_next n2 = j_next n1" "j_prev n2 = j_prev n1" "kids h2 n2 N" "ok \<longrightarrow> jnode h2 n2 N"
    using g h1(1) unfolding grown_def by auto
  have "j_string n2 = j_string n1" using nm(1) n2(1) h1(1) by simp
  then have "nm \<longrightarrow> ok \<longrightarrow> j_string n2 \<noteq> None" using nm(2) by auto
  moreover have "dom h1 = dom h" using h1(1,2) by auto
  ultimately show ?thesis using g h1 n2 unfolding grown_def by (intro conjI exI [of _ n] exI [of _ n2]) auto
qed

lemma parse_pair_safe:
  fixes pv :: "'d parser"
  assumes pv: "value_safe pv k"
  shows "elem_safe True (parse_pair pv env) k"
  unfolding elem_safe_def
proof (intro allI impI, elim conjE)
  fix s :: "'d jst" and p n v
  assume b: "blank s p n" and v: "safe_text v" "length v < k"
  have p: "p \<noteq> NULL" "jheap s p = Some n" "j_child n = NULL" "\<not> is_reference (j_type n)" "finite (dom (jheap s))" using b by (simp_all add: blank_def)
  let ?goal = "\<exists>s' r N. parse_pair pv env s p v = Some (s', r) \<and> grown True (jheap s) p (jheap s') (r \<noteq> None) N \<and> (\<forall>w. r = Some w \<longrightarrow> rest_of v w)"
  have idle: "grown True (jheap s) p (jheap s) False {}"
    by (rule grown_self [where h = "jheap s" and n' = n, OF p(2)]) (use p in auto)
  obtain s1 where "parse_string env s p v = Some (s1, None) \<and> jheap s1 = jheap s \<or>
    (\<exists>t w. parse_string env s p v = Some (s1, Some w) \<and> rest_of v w \<and> length w < length v \<and>
      jheap s1 = (jheap s)(p \<mapsto> n\<lparr>j_valuestring := Some t, j_type := cJSON_String\<rparr>))"
    using parse_string_safe [OF v(1) p(1,2), of env] by blast
  then consider "parse_string env s p v = Some (s1, None)" "jheap s1 = jheap s"
    | t w where "parse_string env s p v = Some (s1, Some w)" "rest_of v w" "length w < length v"
        "jheap s1 = (jheap s)(p \<mapsto> n\<lparr>j_valuestring := Some t, j_type := cJSON_String\<rparr>)" by blast
  then show ?goal
  proof cases
    case 1
    then show ?goal using idle by (intro exI [of _ s1] exI [of _ None] exI [of _ "{}"]) (simp add: parse_pair_def skip_opt_def)
  next
    case (2 t w)
    let ?n = "n\<lparr>j_type := cJSON_String, j_valuestring := None, j_string := Some t\<rparr>"
    define s2 where "s2 = s1\<lparr>jheap := (jheap s)(p \<mapsto> ?n)\<rparr>"
    have u: "jupd s1 p (\<lambda>i. i\<lparr>j_valuestring := None, j_string := j_valuestring i\<rparr>) = Some s2"
      using 2(4) p(1) by (simp add: jupd_def jat_def s2_def)
    have g0: "grown True (jheap s) p (jheap s2) False {}"
      by (rule grown_self [where h = "jheap s" and n' = ?n, OF p(2)]) (use p in \<open>auto simp: s2_def cJSON_types\<close>)
    have w: "rest_of v (skip w)" using rest_of_trans [OF 2(2) rest_of_skip] .
    show ?goal
    proof (cases "cur (skip w) = CHR '':''")
      case False
      then show ?goal using 2(1) u g0
        by (intro exI [of _ "s2\<lparr>jep := Some (skip w)\<rparr>"] exI [of _ None] exI [of _ "{}"]) (simp add: parse_pair_def skip_opt_def)
    next
      case True
      let ?x = "skip (tl (skip w))"
      have x: "rest_of v ?x" using rest_of_trans [OF w rest_of_trans [OF rest_of_tl rest_of_skip]] .
      have xs: "safe_text ?x" "length ?x < k" using rest_of_safe [OF x v(1)] rest_of_length [OF x] v(2) by simp_all
      have b2: "blank s2 p ?n" using p by (simp add: blank_def s2_def cJSON_types)
      obtain s3 r N where g: "pv s2 p (Some ?x) = Some (s3, r)" "grown False (jheap s2) p (jheap s3) (r \<noteq> None) N" "\<forall>w. r = Some w \<longrightarrow> rest_of ?x w"
        "map_option j_string (jheap s3 p) = map_option j_string (jheap s2 p)"
        using pv b2 xs unfolding value_safe_def by blast
      have h2: "jheap s2 = (jheap s)(p \<mapsto> ?n)" by (simp add: s2_def)
      have "grown True (jheap s) p (jheap s3) (r \<noteq> None) N"
        by (rule grown_after [OF g(2) h2 p(2) _ _ g(4)]) simp_all
      moreover have "parse_pair pv env s p v = Some (s3, skip_opt r)" using 2(1) u True g(1) by (simp add: parse_pair_def skip_opt_def)
      moreover have "\<forall>w. skip_opt r = Some w \<longrightarrow> rest_of v w"
        using g(3) rest_of_trans [OF x] rest_of_trans [OF _ rest_of_skip] by (auto simp: skip_opt_def)
      ultimately show ?goal by (intro exI [of _ s3] exI [of _ "skip_opt r"] exI [of _ N]) (simp add: skip_opt_def)
    qed
  qed
qed

text \<open>A value that needs no new node.\<close>

lemma leaf_safe:
  assumes b: "blank s p n" and run: "pv = Some (s\<lparr>jheap := (jheap s)(p \<mapsto> n')\<rparr>, Some w)" and w: "rest_of v w"
    and n': "j_next n' = j_next n" "j_prev n' = j_prev n" "j_string n' = j_string n"
      "\<And>h :: ptr \<Rightarrow> 'd cJSON option. jnode h n' {}"
  shows "\<exists>s' r N. pv = Some (s', r) \<and> grown False (jheap s) p (jheap s') (r \<noteq> None) N \<and> (\<forall>w. r = Some w \<longrightarrow> rest_of v w) \<and>
    map_option j_string (jheap s' p) = map_option j_string (jheap s p)"
proof -
  have p: "jheap s p = Some n" using b by (simp add: blank_def)
  have "kids (jheap s) n' {}" using jnode_kids(1) [OF n'(4)] .
  then have k: "\<not> is_reference (j_type n')" "j_child n' = NULL" by (auto simp: kids_def elim: owned.cases)
  let ?s = "s\<lparr>jheap := (jheap s)(p \<mapsto> n')\<rparr>"
  have "grown False (jheap s) p (jheap ?s) True {}"
    by (rule grown_self [where h = "jheap s" and n' = n', OF p]) (use n' k in simp_all)
  then show ?thesis using run w n'(3) p by (intro exI [of _ ?s] exI [of _ "Some w"] exI [of _ "{}"]) simp
qed

lemma fail_safe:
  assumes b: "blank s p n" and run: "pv = Some (s', None)" and s': "jheap s' = jheap s"
  shows "\<exists>s' r N. pv = Some (s', r) \<and> grown False (jheap s) p (jheap s') (r \<noteq> None) N \<and> (\<forall>w. r = Some w \<longrightarrow> rest_of v w) \<and>
    map_option j_string (jheap s' p) = map_option j_string (jheap s p)"
proof -
  have p: "jheap s p = Some n" "j_child n = NULL" "\<not> is_reference (j_type n)" using b by (simp_all add: blank_def)
  have "grown False (jheap s) p (jheap s') False {}"
    by (rule grown_self [where h = "jheap s" and n' = n, OF p(1)]) (use p s' in auto)
  then show ?thesis using run s' by (intro exI [of _ s'] exI [of _ None] exI [of _ "{}"]) simp
qed

lemma parse_value_safe:
  assumes env: "alloc_fresh (env :: 'd jenv)"
  shows "value_safe (parse_value k env) k"
proof (induction k)
  case (Suc k)
  show ?case
    unfolding value_safe_def
  proof (intro allI impI, elim conjE)
    fix s :: "'d jst" and p n v
    assume b: "blank s p n" and v: "safe_text v" "length v < Suc k"
    have p: "p \<noteq> NULL" "jheap s p = Some n" "j_child n = NULL" using b by (simp_all add: blank_def)
    note leaf = leaf_safe [OF b, where pv = "parse_value (Suc k) env s p (Some v)" and v = v]
    let ?goal = "\<exists>s' r N. parse_value (Suc k) env s p (Some v) = Some (s', r) \<and> grown False (jheap s) p (jheap s') (r \<noteq> None) N \<and>
      (\<forall>w. r = Some w \<longrightarrow> rest_of v w) \<and> map_option j_string (jheap s' p) = map_option j_string (jheap s p)"
    have lit: "jnode h m {}" if "j_type m \<in> {cJSON_False, cJSON_True, cJSON_NULL, cJSON_Number}" "j_child m = NULL" for m and h :: "ptr \<Rightarrow> 'd cJSON option"
      using that by (rule jnode_jlist.jn_literal)
    consider (null) "strncmp_eq v ''null''" | (false) "\<not> strncmp_eq v ''null''" "strncmp_eq v ''false''"
      | (true) "\<not> strncmp_eq v ''null''" "\<not> strncmp_eq v ''false''" "strncmp_eq v ''true''"
      | (other) "\<not> strncmp_eq v ''null''" "\<not> strncmp_eq v ''false''" "\<not> strncmp_eq v ''true''" by blast
    then show ?goal
    proof cases
      case null
      have "parse_value (Suc k) env s p (Some v) = Some (s\<lparr>jheap := (jheap s)(p \<mapsto> n\<lparr>j_type := cJSON_NULL\<rparr>)\<rparr>, Some (drop 4 v))"
        using null jupd_run [OF p(1,2)] by simp
      from leaf [OF this rest_of_drop] show ?goal using lit p(3) by simp
    next
      case false
      have "parse_value (Suc k) env s p (Some v) = Some (s\<lparr>jheap := (jheap s)(p \<mapsto> n\<lparr>j_type := cJSON_False\<rparr>)\<rparr>, Some (drop 5 v))"
        using false jupd_run [OF p(1,2)] by simp
      from leaf [OF this rest_of_drop] show ?goal using lit p(3) by simp
    next
      case true
      have "parse_value (Suc k) env s p (Some v) = Some (s\<lparr>jheap := (jheap s)(p \<mapsto> n\<lparr>j_type := cJSON_True, j_valueint := 1\<rparr>)\<rparr>, Some (drop 4 v))"
        using true jupd_run [OF p(1,2)] by simp
      from leaf [OF this rest_of_drop] show ?goal using lit p(3) by simp
    next
      case other
      consider (str) "cur v = CHR 0x22" | (num) "cur v \<noteq> CHR 0x22" "cur v = CHR ''-'' \<or> is_digit (cur v)"
        | (arr) "cur v = CHR ''[''" | (obj) "cur v = CHR ''{''"
        | (bad) "cur v \<noteq> CHR 0x22" "\<not> (cur v = CHR ''-'' \<or> is_digit (cur v))" "cur v \<noteq> CHR ''[''" "cur v \<noteq> CHR ''{''" by blast
      then show ?goal
      proof cases
        case str
        have run: "parse_value (Suc k) env s p (Some v) = parse_string env s p v" using other str by simp
        obtain s' where "parse_string env s p v = Some (s', None) \<and> jheap s' = jheap s \<or>
          (\<exists>t w. parse_string env s p v = Some (s', Some w) \<and> rest_of v w \<and> length w < length v \<and>
            jheap s' = (jheap s)(p \<mapsto> n\<lparr>j_valuestring := Some t, j_type := cJSON_String\<rparr>))"
          using parse_string_safe [OF v(1) p(1,2), of env] by blast
        then show ?goal
        proof (elim disjE exE conjE)
          assume "parse_string env s p v = Some (s', None)" "jheap s' = jheap s"
          then show ?goal using fail_safe [OF b, of "parse_value (Suc k) env s p (Some v)" s' v] run by simp
        next
          fix t w
          assume r: "parse_string env s p v = Some (s', Some w)" "rest_of v w"
            "jheap s' = (jheap s)(p \<mapsto> n\<lparr>j_valuestring := Some t, j_type := cJSON_String\<rparr>)"
          let ?n = "n\<lparr>j_valuestring := Some t, j_type := cJSON_String\<rparr>"
          have nd: "jnode h ?n {}" for h :: "ptr \<Rightarrow> 'd cJSON option" by (rule jnode_jlist.jn_string) (use p(3) in simp_all)
          have "grown False (jheap s) p (jheap s') True {}"
            by (rule grown_self [where h = "jheap s" and n' = ?n, OF p(2)]) (use r(3) p(3) nd in \<open>auto simp: cJSON_types\<close>)
          then show ?goal using run r p(2) by (intro exI [of _ s'] exI [of _ "Some w"] exI [of _ "{}"]) simp
        qed
      next
        case num
        obtain m w where m: "scan_number (jf env) v = Some (m, w)" "rest_of v w" using scan_number_total [OF v(1), of "jf env"] by (elim exE conjE) (rule that)
        have "parse_value (Suc k) env s p (Some v) = parse_number env s p v"
          unfolding parse_value.simps option.case if_not_P [OF other(1)] if_not_P [OF other(2)] if_not_P [OF other(3)] if_not_P [OF num(1)] if_P [OF num(2)] ..
        then have "parse_value (Suc k) env s p (Some v) = Some (s\<lparr>jheap := (jheap s)(p \<mapsto>
            n\<lparr>j_valuedouble := m, j_valueint := fp_to_int (jf env) m, j_type := cJSON_Number\<rparr>)\<rparr>, Some w)"
          using m(1) jupd_run [OF p(1,2)] by (simp add: parse_number_def)
        from leaf [OF this m(2)] show ?goal using lit p(3) by simp
      next
        case arr
        then have ne: "v \<noteq> []" by auto
        have "cur v \<noteq> CHR 0x22" "\<not> (cur v = CHR ''-'' \<or> is_digit (cur v))" using arr by (simp_all add: is_digit_def code_def)
        then have run: "parse_value (Suc k) env s p (Some v) = container cJSON_Array CHR ''['' CHR '']'' env (elem_parser (parse_value k env)) (parse_elems (parse_value k env) env) s p v"
          using other arr by (simp add: parse_array_container)
        show ?goal unfolding run
          by (rule container_safe [OF parse_elems_loop env elem_parser_safe [OF Suc.IH] _ b v(1) _ arr ne]) (use v(2) in simp_all)
      next
        case obj
        then have ne: "v \<noteq> []" by auto
        have "cur v \<noteq> CHR 0x22" "\<not> (cur v = CHR ''-'' \<or> is_digit (cur v))" "cur v \<noteq> CHR ''[''" using obj by (simp_all add: is_digit_def code_def)
        then have run: "parse_value (Suc k) env s p (Some v) = container cJSON_Object CHR ''{'' CHR ''}'' env (parse_pair (parse_value k env) env) (parse_members (parse_value k env) env) s p v"
          using other obj by (simp add: parse_object_container)
        show ?goal unfolding run
          by (rule container_safe [OF parse_members_loop env parse_pair_safe [OF Suc.IH] _ b v(1) _ obj ne]) (use v(2) in simp_all)
      next
        case bad
        then have "parse_value (Suc k) env s p (Some v) = Some (s\<lparr>jep := Some v\<rparr>, None)" using other by simp
        from fail_safe [OF b this] show ?goal by simp
      qed
    qed
  qed
qed (simp add: value_safe_def)

text \<open>The whole parse: a fresh well-formed tree, or \<open>NULL\<close> with nothing left behind.\<close>

lemma parse_with_opts_safe:
  fixes s :: "'d jst"
  assumes env: "alloc_fresh env" and fin: "finite (dom (jheap s))" and v: "safe_text v" "length v < k"
  shows "\<exists>s' c e. cJSON_ParseWithOpts k env s v rt = Some (s', c, e) \<and>
    (if c = NULL then jheap s' = jheap s
     else jheap s c = None \<and> (\<exists>n N. jheap s' c = Some n \<and> j_next n = NULL \<and> jnode (jheap s') n N \<and> c \<notin> N \<and> N \<inter> dom (jheap s) = {} \<and>
       dom (jheap s') = insert c (dom (jheap s) \<union> N) \<and> finite N) \<and> (\<forall>q\<in>dom (jheap s). jheap s' q = jheap s q))"
  using new_item_cases [OF env fin]
proof cases
  case 1
  then show ?thesis by (intro exI [of _ "s\<lparr>jep := None\<rparr>"] exI [of _ NULL] exI [of _ None]) (simp add: cJSON_ParseWithOpts_def)
next
  case (2 c z)
  define s1 where "s1 = s\<lparr>jheap := (jheap s)(c \<mapsto> z), jep := None\<rparr>"
  have b: "blank s1 c z" using 2(4) by (simp add: blank_def s1_def)
  have v': "safe_text (skip v)" "length (skip v) < k" using rest_of_safe [OF rest_of_skip v(1)] rest_of_length [OF rest_of_skip, of v] v(2) by simp_all
  obtain s2 r N where g: "parse_value k env s1 c (Some (skip v)) = Some (s2, r)" "grown False (jheap s1) c (jheap s2) (r \<noteq> None) N"
    using parse_value_safe [OF env, of k] b v' unfolding value_safe_def by blast
  have d1: "dom (jheap s1) = insert c (dom (jheap s))" "jheap s1 c = Some z" by (simp_all add: s1_def)
  obtain n where n: "jheap s2 c = Some n" "j_next n = NULL" "kids (jheap s2) n N" "r \<noteq> None \<longrightarrow> jnode (jheap s2) n N"
    using g(2) d1(2) 2(5) unfolding grown_def by auto
  have N: "N \<inter> insert c (dom (jheap s)) = {}" "dom (jheap s2) = insert c (dom (jheap s) \<union> N)" "finite N"
    using g(2) d1(1) unfolding grown_def by auto
  have same: "jheap s2 q = jheap s q" if "q \<in> dom (jheap s)" for q
  proof -
    have "q \<noteq> c" using that 2(3) by auto
    then have "jheap s2 q = jheap s1 q" using g(2) that d1(1) unfolding grown_def by auto
    then show ?thesis using \<open>q \<noteq> c\<close> by (simp add: s1_def)
  qed
  have "owned (jheap s2) c (insert c (N \<union> {}))"
    by (rule owned.owned_node [where h = "jheap s2" and n = n, OF 2(2) n(1)]) (use n N in \<open>auto simp: kids_def intro: owned.owned_null\<close>)
  then have "cJSON_Delete s2 c = Some (s2\<lparr>jheap := jheap s2 |` (- insert c N)\<rparr>)" using Delete_owned [of "jheap s2" c _ s2] by simp
  moreover have "jheap s2 |` (- insert c N) = jheap s"
  proof
    fix q show "(jheap s2 |` (- insert c N)) q = jheap s q"
    proof (cases "q \<in> dom (jheap s)")
      case True
      then have "q \<notin> insert c N" using N(1) 2(3) by auto
      then show ?thesis using same [OF True] by simp
    next
      case False
      then have "q \<in> insert c N \<or> jheap s2 q = None" using N(2) by auto
      then show ?thesis using False by (auto simp: restrict_map_def)
    qed
  qed
  ultimately have del: "cJSON_Delete s2 c = Some (s2\<lparr>jheap := jheap s\<rparr>)" by simp
  have run: "cJSON_ParseWithOpts k env s v rt = (case r of
         None \<Rightarrow> Some (s2\<lparr>jheap := jheap s\<rparr>, NULL, None)
       | Some e \<Rightarrow> if rt then let e = skip e in
             if e \<noteq> [] then Some (s2\<lparr>jheap := jheap s, jep := Some e\<rparr>, NULL, None) else Some (s2, c, Some e)
           else Some (s2, c, Some e))"
    using 2(1,2) g(1) del by (auto simp: cJSON_ParseWithOpts_def s1_def Let_def split: option.splits)
  have ok: "jheap s c = None \<and> (\<exists>n N. jheap s2 c = Some n \<and> j_next n = NULL \<and> jnode (jheap s2) n N \<and> c \<notin> N \<and> N \<inter> dom (jheap s) = {} \<and>
      dom (jheap s2) = insert c (dom (jheap s) \<union> N) \<and> finite N) \<and> (\<forall>q\<in>dom (jheap s). jheap s2 q = jheap s q)" if "r \<noteq> None"
    using 2(3) n that N same by (intro conjI exI [of _ n] exI [of _ N]) auto
  show ?thesis
  proof (cases r)
    case None
    then show ?thesis using run by simp
  next
    case (Some e)
    then show ?thesis using run ok 2(2) by (cases rt; cases "skip e = []") (auto simp: Let_def)
  qed
qed

end
