(* ===== verification/CjsonProps.thy ===== *)
theory CjsonProps
  imports CjsonRead CjsonSafe
begin

text \<open>
  The properties of the JSON library.  The witnesses use integers for the doubles (\<open>ints\<close>), an allocator that
  returns the address above all others, and the array \<open>[-7, {"k": "a\""}]\<close> in the nodes 1 to 4 of \<open>sample\<close>.
\<close>

section \<open>A concrete environment\<close>





definition leaf :: "int \<Rightarrow> int cJSON" where
  "leaf t = \<lparr>j_next = NULL, j_prev = NULL, j_child = NULL, j_type = t, j_valuestring = None, j_valueint = 0,
     j_valuedouble = 0, j_string = None\<rparr>"

definition sample :: "int jst" where
  "sample = \<lparr>jheap = [1 \<mapsto> (leaf cJSON_Array)\<lparr>j_child := 2\<rparr>,
       2 \<mapsto> (leaf cJSON_Number)\<lparr>j_next := 3, j_valueint := -7, j_valuedouble := -7\<rparr>,
       3 \<mapsto> (leaf cJSON_Object)\<lparr>j_prev := 2, j_child := 4\<rparr>,
       4 \<mapsto> (leaf cJSON_String)\<lparr>j_valuestring := Some [CHR ''a'', CHR 0x22], j_string := Some ''k''\<rparr>,
       5 \<mapsto> leaf cJSON_True], jep = None\<rparr>"


lemma sample_items: "items (jheap sample) 1 [2, 3]"
  by (auto simp: items_def sample_def leaf_def nxt_def prv_def)



lemma AddItemToArray_items':
  assumes "items (jheap s) arr ps"
    and "item \<noteq> NULL \<and> item \<noteq> arr \<and> item \<notin> set ps \<and> nxt (jheap s) item = Some NULL \<and> prv (jheap s) item = Some NULL"
  shows "\<exists>s'. cJSON_AddItemToArray s arr item = Some s' \<and> items (jheap s') arr (ps @ [item]) \<and>
    relinked (insert item (set ps)) arr (jheap s) (jheap s')"
  using AddItemToArray_items [OF assms(1)] assms(2) unfolding nxt_eq_Some prv_eq_Some by auto

lemma DetachItemFromArray_nth:
  assumes "items (jheap s) arr ps"
  shows "\<exists>s'. cJSON_DetachItemFromArray s arr i = Some (s', if nat i < length ps then ps ! nat i else NULL) \<and>
    items (jheap s') arr (take (nat i) ps @ drop (Suc (nat i)) ps) \<and> relinked (set ps) arr (jheap s) (jheap s') \<and>
    (nat i < length ps \<longrightarrow> nxt (jheap s') (ps ! nat i) = Some NULL \<and> prv (jheap s') (ps ! nat i) = Some NULL)"
proof (cases "nat i < length ps")
  case True
  note ps = id_take_nth_drop [OF True]
  have "nat i = length (take (nat i) ps)" using True by simp
  from DetachItemFromArray_items [OF assms [unfolded arg_cong [OF ps, of "items (jheap s) arr"]] this]
  show ?thesis using True unfolding ps [symmetric] by (auto simp: nxt_def prv_def)
next
  case False
  then show ?thesis using DetachItemFromArray_none [OF assms, of i] assms relinked_refl by auto
qed

lemma sample_owned: "owned (jheap sample) 1 {1, 2, 3, 4}"
proof -
  have 4: "owned (jheap sample) 4 (insert 4 ({} \<union> {}))"
    by (rule owned_node) (auto simp: sample_def leaf_def intro: owned_null)
  have 3: "owned (jheap sample) 3 (insert 3 ({4} \<union> {}))"
    by (rule owned_node) (use 4 in \<open>auto simp: sample_def leaf_def is_reference_def cJSON_types cJSON_IsReference_def intro: owned_null\<close>)
  have 2: "owned (jheap sample) 2 (insert 2 ({} \<union> {3, 4}))"
    by (rule owned_node) (use 3 in \<open>auto simp: sample_def leaf_def intro: owned_null\<close>)
  have "owned (jheap sample) 1 (insert 1 ({2, 3, 4} \<union> {}))"
    by (rule owned_node) (use 2 in \<open>auto simp: sample_def leaf_def is_reference_def cJSON_types cJSON_IsReference_def intro: owned_null\<close>)
  then show ?thesis by simp
qed

section \<open>Texts that are cut off\<close>






section \<open>Properties\<close>







text \<open>C27: The child operations refine a list: \<open>cJSON_GetArraySize\<close> is its length, \<open>cJSON_GetArrayItem\<close> indexes it (a negative index
  is 0, one beyond the end gives \<open>NULL\<close>), \<open>cJSON_AddItemToArray\<close> appends an unlinked item, \<open>cJSON_DetachItemFromArray\<close> removes the
  item and clears its links; both keep the double links intact and change no other field of any node.\<close>

theorem cJSON_array_refines_list:
  assumes "items (jheap s) arr ps"
  shows "cJSON_GetArraySize s arr = Some (length ps) \<and>
    cJSON_GetArrayItem s arr i = Some (if nat i < length ps then ps ! nat i else NULL) \<and>
    (item \<noteq> NULL \<and> item \<noteq> arr \<and> item \<notin> set ps \<and> nxt (jheap s) item = Some NULL \<and> prv (jheap s) item = Some NULL \<longrightarrow>
      (\<exists>s'. cJSON_AddItemToArray s arr item = Some s' \<and> items (jheap s') arr (ps @ [item]) \<and>
        relinked (insert item (set ps)) arr (jheap s) (jheap s'))) \<and>
    (\<exists>s'. cJSON_DetachItemFromArray s arr i = Some (s', if nat i < length ps then ps ! nat i else NULL) \<and>
      items (jheap s') arr (take (nat i) ps @ drop (Suc (nat i)) ps) \<and> relinked (set ps) arr (jheap s) (jheap s') \<and>
      (nat i < length ps \<longrightarrow> nxt (jheap s') (ps ! nat i) = Some NULL \<and> prv (jheap s') (ps ! nat i) = Some NULL))"
  using GetArraySize_items [OF assms] GetArrayItem_items [OF assms] AddItemToArray_items' [OF assms]
    DetachItemFromArray_nth [OF assms] by blast

theorem cJSON_array_refines_list_witness:
  "(\<exists>s'. cJSON_AddItemToArray sample 1 5 = Some s' \<and> items (jheap s') 1 [2, 3, 5]) \<and>
   (\<exists>s'. cJSON_DetachItemFromArray sample 1 0 = Some (s', 2) \<and> items (jheap s') 1 [3])"
proof
  show "\<exists>s'. cJSON_AddItemToArray sample 1 5 = Some s' \<and> items (jheap s') 1 [2, 3, 5]"
    using cJSON_array_refines_list [OF sample_items, of 0 5] by (auto simp: sample_def leaf_def nxt_def prv_def)
  show "\<exists>s'. cJSON_DetachItemFromArray sample 1 0 = Some (s', 2) \<and> items (jheap s') 1 [3]"
    using cJSON_array_refines_list [OF sample_items, of 0 5] by auto
qed

text \<open>C28: \<open>cJSON_Delete\<close> ends and frees exactly the nodes owned by the list that starts at its argument, each once: the siblings
  and all descendants, but not what lies below a reference node; every other node stays as it was.\<close>

theorem cJSON_Delete_frees_owned:
  assumes "owned (jheap s) c N"
  shows "cJSON_Delete s c = Some (s\<lparr>jheap := jheap s |` (- N)\<rparr>)"
  using Delete_owned [OF assms, of s] by simp

theorem cJSON_Delete_frees_owned_witness:
  "\<exists>s'. cJSON_Delete sample 1 = Some s' \<and> dom (jheap s') = {5}"
  using cJSON_Delete_frees_owned [OF sample_owned] by (auto simp: sample_def split: if_splits)



end
