(* ===== verification/TailQueue.thy ===== *)
theory TailQueue
  imports Chains
begin

text \<open>
  The tail queues of \<open>sys/queue.h\<close>, as \<open>thread_pool.h\<close> and \<open>tailq.c\<close> use them.  An element holds
  its link field: the next element and the address of the pointer that leads to it, which is the \<open>tqh_first\<close>
  field of the head or the \<open>tqe_next\<close> field of an element.  The locale states what a client of such a queue
  relies on.
\<close>

section \<open>The macros\<close>

datatype tq_ref = Tq_First | Tq_Next ptr

record tq_entry =
  tqe_next :: ptr
  tqe_prev :: tq_ref

record tailq =
  tqh_first :: ptr
  tqh_last :: tq_ref
  tq_links :: "ptr \<Rightarrow> tq_entry option"

definition link_at :: "tailq \<Rightarrow> ptr \<Rightarrow> tq_entry option" where
  "link_at q p = (if p = NULL then None else tq_links q p)"

definition upd_link :: "tailq \<Rightarrow> ptr \<Rightarrow> (tq_entry \<Rightarrow> tq_entry) \<Rightarrow> tailq option" where
  "upd_link q p f = do { e \<leftarrow> link_at q p; Some (q\<lparr>tq_links := (tq_links q)(p \<mapsto> f e)\<rparr>) }"

text \<open>\<open>*r = p\<close>.\<close>

definition tq_store :: "tailq \<Rightarrow> tq_ref \<Rightarrow> ptr \<Rightarrow> tailq option" where
  "tq_store q r p = (case r of Tq_First \<Rightarrow> Some (q\<lparr>tqh_first := p\<rparr>) | Tq_Next x \<Rightarrow> upd_link q x (\<lambda>e. e\<lparr>tqe_next := p\<rparr>))"

definition TAILQ_INIT :: "tailq \<Rightarrow> tailq" where
  "TAILQ_INIT q = q\<lparr>tqh_first := NULL, tqh_last := Tq_First\<rparr>"

definition TAILQ_FIRST :: "tailq \<Rightarrow> ptr" where
  "TAILQ_FIRST q = tqh_first q"

definition TAILQ_EMPTY :: "tailq \<Rightarrow> bool" where
  "TAILQ_EMPTY q \<longleftrightarrow> tqh_first q = NULL"

definition TAILQ_INSERT_TAIL :: "tailq \<Rightarrow> ptr \<Rightarrow> tailq option" where
  "TAILQ_INSERT_TAIL q elm = do {
     q \<leftarrow> upd_link q elm (\<lambda>e. e\<lparr>tqe_next := NULL, tqe_prev := tqh_last q\<rparr>);
     q \<leftarrow> tq_store q (tqh_last q) elm;
     Some (q\<lparr>tqh_last := Tq_Next elm\<rparr>) }"

definition TAILQ_INSERT_HEAD :: "tailq \<Rightarrow> ptr \<Rightarrow> tailq option" where
  "TAILQ_INSERT_HEAD q elm = do {
     q \<leftarrow> upd_link q elm (\<lambda>e. e\<lparr>tqe_next := tqh_first q\<rparr>);
     q \<leftarrow> (if tqh_first q \<noteq> NULL then upd_link q (tqh_first q) (\<lambda>e. e\<lparr>tqe_prev := Tq_Next elm\<rparr>)
           else Some (q\<lparr>tqh_last := Tq_Next elm\<rparr>));
     upd_link (q\<lparr>tqh_first := elm\<rparr>) elm (\<lambda>e. e\<lparr>tqe_prev := Tq_First\<rparr>) }"

definition TAILQ_REMOVE :: "tailq \<Rightarrow> ptr \<Rightarrow> tailq option" where
  "TAILQ_REMOVE q elm = do {
     e \<leftarrow> link_at q elm;
     q \<leftarrow> (if tqe_next e \<noteq> NULL then upd_link q (tqe_next e) (\<lambda>t. t\<lparr>tqe_prev := tqe_prev e\<rparr>)
           else Some (q\<lparr>tqh_last := tqe_prev e\<rparr>));
     tq_store q (tqe_prev e) (tqe_next e) }"

section \<open>The contract\<close>

locale intrusive_fifo =
  fixes qrep :: "'q \<Rightarrow> ptr list \<Rightarrow> bool" and qnodes :: "'q \<Rightarrow> ptr set" and qempty :: "'q \<Rightarrow> bool"
    and qfirst :: "'q \<Rightarrow> ptr" and qinsert :: "'q \<Rightarrow> ptr \<Rightarrow> 'q option" and qremove :: "'q \<Rightarrow> ptr \<Rightarrow> 'q option"
  assumes empty_law: "qrep q xs \<Longrightarrow> qempty q \<longleftrightarrow> xs = []"
    and first_law: "qrep q (x # xs) \<Longrightarrow> qfirst q = x"
    and nodes_law: "qrep q xs \<Longrightarrow> set xs \<subseteq> qnodes q \<and> NULL \<notin> set xs \<and> distinct xs"
    and insert_law: "qrep q xs \<Longrightarrow> e \<noteq> NULL \<Longrightarrow> e \<in> qnodes q \<Longrightarrow> e \<notin> set xs \<Longrightarrow>
      \<exists>q'. qinsert q e = Some q' \<and> qrep q' (xs @ [e]) \<and> qnodes q' = qnodes q"
    and remove_law: "qrep q (xs @ e # ys) \<Longrightarrow> \<exists>q'. qremove q e = Some q' \<and> qrep q' (xs @ ys) \<and> qnodes q' = qnodes q"
begin

text \<open>Taking the head, as a consumer does.\<close>

lemma take_head:
  assumes "qrep q xs" and "\<not> qempty q"
  shows "\<exists>ys q'. xs = qfirst q # ys \<and> qremove q (qfirst q) = Some q' \<and> qrep q' ys \<and> qnodes q' = qnodes q"
proof -
  obtain x ys where xs: "xs = x # ys" using empty_law [OF assms(1)] assms(2) by (cases xs) auto
  then have "qfirst q = x" using first_law assms(1) by blast
  then show ?thesis using remove_law [of q "[]" x ys] assms(1) xs by auto
qed

end

section \<open>Tail queues meet the contract\<close>

definition tq_next :: "tailq \<Rightarrow> ptr \<Rightarrow> ptr option" where
  "tq_next q p = map_option tqe_next (tq_links q p)"

definition of_ref :: "tq_ref \<Rightarrow> ptr" where
  "of_ref r = (case r of Tq_First \<Rightarrow> NULL | Tq_Next x \<Rightarrow> x)"

definition to_ref :: "ptr \<Rightarrow> tq_ref" where
  "to_ref p = (if p = NULL then Tq_First else Tq_Next p)"

definition tq_prev :: "tailq \<Rightarrow> ptr \<Rightarrow> ptr option" where
  "tq_prev q p = map_option (\<lambda>e. of_ref (tqe_prev e)) (tq_links q p)"

definition tq_rep :: "tailq \<Rightarrow> ptr list \<Rightarrow> bool" where
  "tq_rep q xs \<longleftrightarrow> dchain (tq_next q) (tq_prev q) NULL (tqh_first q) xs \<and> tqh_last q = to_ref (last (NULL # xs)) \<and>
     (\<forall>x\<in>set xs. \<forall>e. tq_links q x = Some e \<longrightarrow> tqe_prev e \<noteq> Tq_Next NULL)"

definition tq_nodes :: "tailq \<Rightarrow> ptr set" where
  "tq_nodes q = {p. p \<noteq> NULL \<and> tq_links q p \<noteq> None}"

lemma ref_id: "r \<noteq> Tq_Next NULL \<Longrightarrow> to_ref (of_ref r) = r"
  by (cases r) (auto simp: to_ref_def of_ref_def)

lemma of_to_ref [simp]: "of_ref (to_ref p) = p"
  by (simp add: to_ref_def of_ref_def)

lemma to_ref_nonnull [simp]: "to_ref p \<noteq> Tq_Next NULL"
  by (simp add: to_ref_def)

lemma tq_rep_Nil: "tq_rep q [] \<longleftrightarrow> tqh_first q = NULL \<and> tqh_last q = Tq_First"
  by (auto simp: tq_rep_def to_ref_def)

lemma tq_rep_init: "tq_rep (TAILQ_INIT q) []"
  by (simp add: tq_rep_def TAILQ_INIT_def to_ref_def)

lemma tq_insert_tail:
  assumes r: "tq_rep q xs" and e: "e \<noteq> NULL" "e \<in> tq_nodes q" "e \<notin> set xs"
  shows "\<exists>q'. TAILQ_INSERT_TAIL q e = Some q' \<and> tq_rep q' (xs @ [e]) \<and> tq_nodes q' = tq_nodes q"
proof -
  obtain l where l: "tq_links q e = Some l" using e by (auto simp: tq_nodes_def)
  have c: "dchain (tq_next q) (tq_prev q) NULL (tqh_first q) xs" and last: "tqh_last q = to_ref (last (NULL # xs))"
    and pr: "\<forall>x\<in>set xs. \<forall>e. tq_links q x = Some e \<longrightarrow> tqe_prev e \<noteq> Tq_Next NULL" using r by (simp_all add: tq_rep_def)
  note N = dchain_nodes [OF c] and D = dchain_distinct [OF c]
  show ?thesis
  proof (cases xs rule: rev_cases)
    case Nil
    let ?q = "q\<lparr>tqh_first := e, tqh_last := Tq_Next e, tq_links := (tq_links q)(e \<mapsto> l\<lparr>tqe_next := NULL, tqe_prev := Tq_First\<rparr>)\<rparr>"
    have "TAILQ_INSERT_TAIL q e = Some ?q"
      using Nil last e l by (simp add: TAILQ_INSERT_TAIL_def upd_link_def link_at_def tq_store_def to_ref_def)
    moreover have "tq_rep ?q [e]" using e by (simp add: tq_rep_def tq_next_def tq_prev_def of_ref_def to_ref_def)
    ultimately show ?thesis using Nil l by (intro exI [of _ ?q]) (auto simp: tq_nodes_def)
  next
    case (snoc ys z)
    obtain m where m: "tq_links q z = Some m" "z \<noteq> NULL" "z \<noteq> e" using N [of z] e(3) snoc by (auto simp: tq_next_def)
    let ?g = "(tq_links q)(e \<mapsto> l\<lparr>tqe_next := NULL, tqe_prev := Tq_Next z\<rparr>, z \<mapsto> m\<lparr>tqe_next := e\<rparr>)"
    let ?q = "q\<lparr>tqh_last := Tq_Next e, tq_links := ?g\<rparr>"
    have "TAILQ_INSERT_TAIL q e = Some ?q"
      using snoc last e l m by (simp add: TAILQ_INSERT_TAIL_def upd_link_def link_at_def tq_store_def to_ref_def)
    moreover have "tq_rep ?q (xs @ [e])"
    proof -
      have cz: "dseg (tq_next q) (tq_prev q) NULL (tqh_first q) ys z" "tq_prev q z = Some (last (NULL # ys))"
        using c snoc m(2) by (auto simp: dchain_append)
      have "dseg (tq_next ?q) (tq_prev ?q) NULL (tqh_first q) ys z"
        using cz(1) snoc D e(3) by (subst dseg_cong [of ys _ "tq_next q" _ "tq_prev q"]) (auto simp: tq_next_def tq_prev_def)
      moreover have "tq_next ?q z = Some e" "tq_prev ?q z = Some (last (NULL # ys))" "tq_next ?q e = Some NULL" "tq_prev ?q e = Some z"
        using cz(2) m e(1) by (simp_all add: tq_next_def tq_prev_def of_ref_def)
      ultimately have "dchain (tq_next ?q) (tq_prev ?q) NULL (tqh_first q) (ys @ z # [e])"
        unfolding dchain_append using m(2) e(1) by auto
      then show ?thesis using snoc pr e(1) m by (auto simp: tq_rep_def to_ref_def)
    qed
    ultimately show ?thesis using l m by (intro exI [of _ ?q]) (auto simp: tq_nodes_def)
  qed
qed

lemma tq_remove:
  assumes r: "tq_rep q (xs @ e # ys)"
  shows "\<exists>q'. TAILQ_REMOVE q e = Some q' \<and> tq_rep q' (xs @ ys) \<and> tq_nodes q' = tq_nodes q"
proof -
  have ch: "dchain (tq_next q) (tq_prev q) NULL (tqh_first q) (xs @ e # ys)" and last: "tqh_last q = to_ref (last (NULL # xs @ e # ys))"
    and pr: "\<forall>x\<in>set (xs @ e # ys). \<forall>e. tq_links q x = Some e \<longrightarrow> tqe_prev e \<noteq> Tq_Next NULL" using r by (simp_all add: tq_rep_def)
  note N = dchain_nodes [OF ch] and D = dchain_distinct [OF ch]
  obtain l where l: "tq_links q e = Some l" "e \<noteq> NULL" using N [of e] by (auto simp: tq_next_def)
  define a where "a = last (NULL # xs)"
  define c where "c = tqe_next l"
  have "tq_prev q e = Some a" "dchain (tq_next q) (tq_prev q) e c ys"
    using ch l by (auto simp: dchain_append a_def c_def tq_next_def)
  then have pv: "tqe_prev l = to_ref a" and c: "c = NULL \<longleftrightarrow> ys = []" "ys \<noteq> [] \<Longrightarrow> c = hd ys"
    using l pr ref_id [of "tqe_prev l"] by (auto simp: tq_prev_def neq_Nil_conv)
  have a: "a = NULL \<longleftrightarrow> xs = []" "a \<noteq> NULL \<Longrightarrow> a \<in> set xs" using N [of "last xs"] by (auto simp: a_def)
  have cs: "c \<noteq> NULL \<Longrightarrow> c \<in> set ys" using c by auto
  have ac: "a \<noteq> NULL \<Longrightarrow> a \<noteq> c \<and> a \<noteq> e" "c \<noteq> NULL \<Longrightarrow> c \<noteq> e" using a(2) cs D N [of a] by auto
  have at: "\<exists>m. tq_links q x = Some m" if "x \<in> set (xs @ e # ys)" for x using N [OF that] by (auto simp: tq_next_def)
  let ?g1 = "if c = NULL then tq_links q else (tq_links q)(c := map_option (\<lambda>t. t\<lparr>tqe_prev := to_ref a\<rparr>) (tq_links q c))"
  let ?g = "if a = NULL then ?g1 else ?g1(a := map_option (\<lambda>t. t\<lparr>tqe_next := c\<rparr>) (tq_links q a))"
  let ?q = "q\<lparr>tqh_first := (if xs = [] then c else tqh_first q), tqh_last := (if c = NULL then to_ref a else tqh_last q), tq_links := ?g\<rparr>"
  have run: "TAILQ_REMOVE q e = Some ?q"
  proof (cases "c = NULL")
    case True
    then show ?thesis using l pv a ac at [of a] c_def
      by (cases "a = NULL") (auto simp: TAILQ_REMOVE_def link_at_def upd_link_def tq_store_def to_ref_def)
  next
    case False
    then show ?thesis using l pv a ac at [of a] at [of c] cs c_def
      by (cases "a = NULL") (auto simp: TAILQ_REMOVE_def link_at_def upd_link_def tq_store_def to_ref_def)
  qed
  have n: "tq_next ?q x = (if a \<noteq> NULL \<and> x = a then Some c else tq_next q x)" for x
    using ac at [of a] a(2) by (auto simp: tq_next_def option.map_comp o_def)
  have p: "tq_prev ?q x = (if c \<noteq> NULL \<and> x = c then Some a else tq_prev q x)" for x
    using ac at [of c] cs by (auto simp: tq_prev_def option.map_comp o_def)
  have nc: "tq_next q e = Some c" using l by (simp add: tq_next_def c_def)
  have "dchain (tq_next ?q) (tq_prev ?q) NULL (if xs = [] then c else tqh_first q) (xs @ ys)"
    by (rule dchain_unlink [OF ch nc refl]) (use n p a ac in \<open>auto simp: a_def\<close>)
  moreover have "tqh_last ?q = to_ref (last (NULL # xs @ ys))" using last c(1) by (auto simp: a_def)
  moreover have "tqe_prev t \<noteq> Tq_Next NULL" if "x \<in> set (xs @ ys)" "tq_links ?q x = Some t" for x t
  proof -
    have "\<exists>m. tq_links q x = Some m \<and> (tqe_prev t = tqe_prev m \<or> tqe_prev t = to_ref a)"
      using that(2) ac(1) by (auto split: if_splits)
    then obtain m where m: "tq_links q x = Some m" "tqe_prev t = tqe_prev m \<or> tqe_prev t = to_ref a" by blast
    have "tqe_prev m \<noteq> Tq_Next NULL" using pr that(1) m(1) by simp
    then show ?thesis using m(2) by auto
  qed
  ultimately have "tq_rep ?q (xs @ ys)" unfolding tq_rep_def by simp
  moreover have "tq_nodes ?q = tq_nodes q" using at [of a] at [of c] a(2) cs by (auto simp: tq_nodes_def split: if_splits)
  ultimately show ?thesis using run by blast
qed

text \<open>The memory of other elements does not matter.\<close>

lemma tq_rep_other:
  assumes "tq_rep q xs" and "e \<notin> set xs"
  shows "tq_rep (q\<lparr>tq_links := (tq_links q)(e := l)\<rparr>) xs" (is "tq_rep ?q xs")
proof -
  have ne: "x \<in> set xs \<Longrightarrow> x \<noteq> e" for x using assms(2) by blast
  have l: "x \<in> set xs \<Longrightarrow> tq_links ?q x = tq_links q x" for x using ne by simp
  have "dchain (tq_next ?q) (tq_prev ?q) NULL (tqh_first q) xs = dchain (tq_next q) (tq_prev q) NULL (tqh_first q) xs"
    by (rule dchain_cong) (simp_all add: tq_next_def tq_prev_def ne)
  then show ?thesis using assms(1) l unfolding tq_rep_def by simp
qed

interpretation tq: intrusive_fifo tq_rep tq_nodes TAILQ_EMPTY TAILQ_FIRST TAILQ_INSERT_TAIL TAILQ_REMOVE
proof
  show "TAILQ_EMPTY q \<longleftrightarrow> xs = []" if "tq_rep q xs" for q xs
    using that by (cases xs) (auto simp: tq_rep_def TAILQ_EMPTY_def)
  show "TAILQ_FIRST q = x" if "tq_rep q (x # xs)" for q x xs using that by (simp add: tq_rep_def TAILQ_FIRST_def)
  show "set xs \<subseteq> tq_nodes q \<and> NULL \<notin> set xs \<and> distinct xs" if "tq_rep q xs" for q xs
    using that dchain_nodes [of "tq_next q" "tq_prev q"] dchain_distinct [of "tq_next q" "tq_prev q"]
    unfolding tq_rep_def tq_nodes_def by (fastforce simp: tq_next_def)
qed (fact tq_insert_tail tq_remove)+

end
