(* ===== verification/ThreadPool.thy ===== *)
theory ThreadPool
  imports TailQueue HashFuns "HOL-Library.Multiset"
begin

text \<open>
  The thread pool of \<open>demo_pthread/thread_pool/thread_pool.h\<close>.  Creating and shrinking the pool are
  functions; the outside world is a parameter: the thread that the \<open>i\<close>-th \<open>pthread_create\<close> starts (\<open>None\<close>
  when it fails and leaves the identifier unset), the clock, and the results of \<open>malloc\<close> and
  \<open>pthread_cancel\<close>.  The workers and the threads that submit jobs are a step relation: a step is one statement between
  two calls of the pthread library, \<open>pthread_mutex_lock\<close> is possible only while the lock is free,
  \<open>pthread_cond_signal\<close> wakes one sleeping thread if there is one, and \<open>pthread_cond_wait\<close> may also return by
  itself, as POSIX allows.
\<close>

section \<open>Data\<close>

record worker =
  t_id :: "nat option"
  create_time :: int

record job =
  job_data :: bytes
  job_length :: u64

record thread_pool =
  core_szie :: int
  max_size :: int
  current_size :: int
  max_idle :: int
  workers :: "worker option list"
  job_queue :: tailq
  jobs :: "ptr \<Rightarrow> job option"
  job_size :: u64
  shutdown :: bool

section \<open>Creation\<close>

text \<open>Result and new pool; \<open>workers\<close> is the allocated array, \<open>None\<close> an entry that was never written.\<close>

definition threadpool_incre_worker ::
  "(int \<Rightarrow> nat option) \<Rightarrow> (int \<Rightarrow> int) \<Rightarrow> thread_pool \<Rightarrow> (thread_pool \<times> int) option" where
  "threadpool_incre_worker create now p =
     (if current_size p \<ge> max_size p then Some (p, -1)
      else do {
        ensure (0 \<le> current_size p \<and> nat (current_size p) < length (workers p));
        let w = \<lparr>t_id = create (current_size p), create_time = now (current_size p)\<rparr>;
        Some (p\<lparr>workers := (workers p)[nat (current_size p) := Some w], current_size := current_size p + 1\<rparr>, 0) })"

partial_function (option) create_workers ::
  "(int \<Rightarrow> nat option) \<Rightarrow> (int \<Rightarrow> int) \<Rightarrow> thread_pool \<Rightarrow> thread_pool option" where
  "create_workers create now p =
     (if current_size p < core_szie p then do {
        (p, _) \<leftarrow> threadpool_incre_worker create now p;
        create_workers create now p }
      else Some p)"

text \<open>\<open>ok\<close> and \<open>wok\<close> say whether the two calls of \<open>malloc\<close> succeed; a negative size never does.\<close>

definition threadpool_create ::
  "bool \<Rightarrow> bool \<Rightarrow> (int \<Rightarrow> nat option) \<Rightarrow> (int \<Rightarrow> int) \<Rightarrow> int \<Rightarrow> int \<Rightarrow> int \<Rightarrow> thread_pool option" where
  "threadpool_create ok wok create now core msize idle = do {
     ensure ok;
     let p = \<lparr>core_szie = core, max_size = msize, current_size = 0, max_idle = idle,
              workers = (if wok then replicate (nat msize) None else []),
              job_queue = TAILQ_INIT \<lparr>tqh_first = NULL, tqh_last = Tq_First, tq_links = Map.empty\<rparr>,
              jobs = Map.empty, job_size = 0, shutdown = False\<rparr>;
     create_workers create now p }"

text \<open>The loop of \<open>threadpool_decre_worker\<close> from entry \<open>i\<close> on; \<open>now\<close> is the clock at each round.\<close>

partial_function (option) decre_workers ::
  "(nat option \<Rightarrow> int) \<Rightarrow> (nat \<Rightarrow> int) \<Rightarrow> thread_pool \<Rightarrow> nat \<Rightarrow> thread_pool option" where
  "decre_workers cancel now p i =
     (if current_size p > core_szie p then do {
        w \<leftarrow> get_at (workers p) i;
        w \<leftarrow> w;
        decre_workers cancel now
          (if now i - create_time w \<ge> max_idle p \<and> cancel (t_id w) = 0
           then p\<lparr>current_size := current_size p - 1\<rparr> else p) (Suc i) }
      else Some p)"

definition threadpool_decre_worker ::
  "(nat option \<Rightarrow> int) \<Rightarrow> (nat \<Rightarrow> int) \<Rightarrow> thread_pool \<Rightarrow> (thread_pool \<times> int) option" where
  "threadpool_decre_worker cancel now p =
     (if current_size p \<le> core_szie p then Some (p, -1)
      else do { p \<leftarrow> decre_workers cancel now p 0; Some (p, 0) })"

text \<open>The threads joined, in order.\<close>

partial_function (option) wait_workers :: "thread_pool \<Rightarrow> int \<Rightarrow> nat option list option" where
  "wait_workers p i =
     (if i < current_size p then do {
        w \<leftarrow> get_at (workers p) (nat i);
        w \<leftarrow> w;
        ts \<leftarrow> wait_workers p (i + 1);
        Some (t_id w # ts) }
      else Some [])"

definition threadpool_wait :: "thread_pool \<Rightarrow> nat option list option" where
  "threadpool_wait p = wait_workers p 0"

text \<open>\<open>threadpool_destroy\<close> frees the array and the pool; the jobs still in the queue stay allocated.\<close>

definition threadpool_destroy :: "thread_pool \<Rightarrow> (ptr \<Rightarrow> job option)" where
  "threadpool_destroy p = jobs p"

section \<open>The threads\<close>

datatype tp_pc =
    WTop | WLock | WTest | WWait | WWake | WTake | WUnlock ptr | WRun ptr | WFree ptr | WDone
  | SNew | SLock ptr | SInsert ptr | SSignal | SUnlock

record tp_state = thread_pool +
  tp_lock :: "nat option"
  tp_at :: "nat \<Rightarrow> tp_pc"
  tp_submitted :: "bytes list"
  tp_taken :: "bytes list"
  tp_handled :: "bytes list"

definition tp_goto :: "nat \<Rightarrow> tp_pc \<Rightarrow> tp_state \<Rightarrow> tp_state" where
  "tp_goto t c s = s\<lparr>tp_at := (tp_at s)(t := c)\<rparr>"

definition tp_data :: "tp_state \<Rightarrow> ptr \<Rightarrow> bytes" where
  "tp_data s j = (case jobs s j of Some b \<Rightarrow> job_data b | None \<Rightarrow> [])"

text \<open>\<open>threadpool_free_job\<close>, with the link field that lies in the job.\<close>

definition threadpool_free_job :: "ptr \<Rightarrow> tp_state \<Rightarrow> tp_state" where
  "threadpool_free_job j s = (if j = NULL then s else
     s\<lparr>jobs := (jobs s)(j := None), job_queue := (job_queue s)\<lparr>tq_links := (tq_links (job_queue s))(j := None)\<rparr>\<rparr>)"

text \<open>A step of \<open>threadpool_handler_wrapper\<close> by thread \<open>t\<close>.\<close>

inductive worker_step :: "nat \<Rightarrow> tp_state \<Rightarrow> tp_state \<Rightarrow> bool" where
  w_top: "tp_at s t = WTop \<Longrightarrow> \<not> shutdown s \<Longrightarrow> worker_step t s (tp_goto t WLock s)"
| w_exit: "tp_at s t = WTop \<Longrightarrow> shutdown s \<Longrightarrow> worker_step t s (tp_goto t WDone s)"
| w_lock: "tp_at s t = WLock \<Longrightarrow> tp_lock s = None \<Longrightarrow> worker_step t s (tp_goto t WTest (s\<lparr>tp_lock := Some t\<rparr>))"
| w_wait: "tp_at s t = WTest \<Longrightarrow> TAILQ_EMPTY (job_queue s) \<Longrightarrow> worker_step t s (tp_goto t WWait (s\<lparr>tp_lock := None\<rparr>))"
| w_spurious: "tp_at s t = WWait \<Longrightarrow> worker_step t s (tp_goto t WWake s)"
| w_relock: "tp_at s t = WWake \<Longrightarrow> tp_lock s = None \<Longrightarrow> worker_step t s (tp_goto t WTest (s\<lparr>tp_lock := Some t\<rparr>))"
| w_ready: "tp_at s t = WTest \<Longrightarrow> \<not> TAILQ_EMPTY (job_queue s) \<Longrightarrow> worker_step t s (tp_goto t WTake s)"
| w_take: "tp_at s t = WTake \<Longrightarrow> j = TAILQ_FIRST (job_queue s) \<Longrightarrow> TAILQ_REMOVE (job_queue s) j = Some q \<Longrightarrow>
    worker_step t s (tp_goto t (WUnlock j)
      (s\<lparr>job_queue := q, job_size := job_size s - 1, tp_taken := tp_taken s @ [tp_data s j]\<rparr>))"
| w_unlock: "tp_at s t = WUnlock j \<Longrightarrow> worker_step t s (tp_goto t (WRun j) (s\<lparr>tp_lock := None\<rparr>))"
| w_run: "tp_at s t = WRun j \<Longrightarrow> jobs s j = Some b \<Longrightarrow>
    worker_step t s (tp_goto t (WFree j) (s\<lparr>tp_handled := tp_handled s @ [job_data b]\<rparr>))"
| w_free: "tp_at s t = WFree j \<Longrightarrow> worker_step t s (tp_goto t WTop (threadpool_free_job j s))"

text \<open>A step of a thread that submits jobs: \<open>malloc\<close> returns memory that is not in use and the data is copied.\<close>

inductive submit_step :: "nat \<Rightarrow> tp_state \<Rightarrow> tp_state \<Rightarrow> bool" where
  s_new: "tp_at s t = SNew \<Longrightarrow> j \<noteq> NULL \<Longrightarrow> jobs s j = None \<Longrightarrow> length d < 2 ^ 64 \<Longrightarrow>
    submit_step t s (tp_goto t (SLock j) (s\<lparr>jobs := (jobs s)(j \<mapsto> \<lparr>job_data = d, job_length = of_nat (length d)\<rparr>),
      job_queue := (job_queue s)\<lparr>tq_links := (tq_links (job_queue s))(j \<mapsto> l)\<rparr>\<rparr>))"
| s_lock: "tp_at s t = SLock j \<Longrightarrow> tp_lock s = None \<Longrightarrow> submit_step t s (tp_goto t (SInsert j) (s\<lparr>tp_lock := Some t\<rparr>))"
| s_insert: "tp_at s t = SInsert j \<Longrightarrow> TAILQ_INSERT_TAIL (job_queue s) j = Some q \<Longrightarrow>
    submit_step t s (tp_goto t SSignal
      (s\<lparr>job_queue := q, job_size := job_size s + 1, tp_submitted := tp_submitted s @ [tp_data s j]\<rparr>))"
| s_signal: "tp_at s t = SSignal \<Longrightarrow> tp_at s u = WWait \<Longrightarrow> submit_step t s (tp_goto t SUnlock (tp_goto u WWake s))"
| s_nobody: "tp_at s t = SSignal \<Longrightarrow> (\<And>u. tp_at s u \<noteq> WWait) \<Longrightarrow> submit_step t s (tp_goto t SUnlock s)"
| s_unlock: "tp_at s t = SUnlock \<Longrightarrow> submit_step t s (tp_goto t SNew (s\<lparr>tp_lock := None\<rparr>))"

text \<open>The threads after \<open>threadpool_create\<close>: numbers below \<open>core\<close> are workers, the others submit jobs.\<close>

definition tp_start :: "nat \<Rightarrow> thread_pool \<Rightarrow> tp_state" where
  "tp_start core p = thread_pool.extend p
     \<lparr>tp_lock = None, tp_at = (\<lambda>t. if t < core then WTop else SNew), tp_submitted = [], tp_taken = [], tp_handled = []\<rparr>"

text \<open>Runs: a worker, a thread that submits, or the signal handler that sets \<open>shutdown\<close>.\<close>

inductive tp_reach :: "nat \<Rightarrow> nat \<Rightarrow> thread_pool \<Rightarrow> tp_state \<Rightarrow> bool" for core n p where
  start: "tp_reach core n p (tp_start core p)"
| work: "tp_reach core n p s \<Longrightarrow> t < core \<Longrightarrow> worker_step t s s' \<Longrightarrow> tp_reach core n p s'"
| submit: "tp_reach core n p s \<Longrightarrow> core \<le> t \<Longrightarrow> t < n \<Longrightarrow> submit_step t s s' \<Longrightarrow> tp_reach core n p s'"
| sig_handler: "tp_reach core n p s \<Longrightarrow> tp_reach core n p (s\<lparr>shutdown := True\<rparr>)"

end
