(* ===== verification/ThreadPoolInv.thy ===== *)
theory ThreadPoolInv
  imports ThreadPool
begin

text \<open>
  The invariant of the threads of \<open>thread_pool.h\<close> and that every step keeps it: the lock excludes, queue and
  job memory agree, jobs leave in the order they came, every taken job is accounted for, and a queued job finds a
  worker that is awake or about to be woken.
\<close>

section \<open>Invariant\<close>

fun tp_holds :: "tp_pc \<Rightarrow> bool" where
  "tp_holds WTest = True" | "tp_holds WTake = True" | "tp_holds (WUnlock j) = True"
| "tp_holds (SInsert j) = True" | "tp_holds SSignal = True" | "tp_holds SUnlock = True" | "tp_holds _ = False"

text \<open>The job a thread owns, outside the queue, and the data of a job taken but not yet handled.\<close>

fun tp_own :: "tp_pc \<Rightarrow> ptr option" where
  "tp_own (WUnlock j) = Some j" | "tp_own (WRun j) = Some j" | "tp_own (WFree j) = Some j"
| "tp_own (SLock j) = Some j" | "tp_own (SInsert j) = Some j" | "tp_own _ = None"

fun tp_todo :: "(ptr \<Rightarrow> bytes) \<Rightarrow> tp_pc \<Rightarrow> bytes multiset" where
  "tp_todo f (WUnlock j) = {#f j#}" | "tp_todo f (WRun j) = {#f j#}" | "tp_todo f _ = {#}"

definition tp_mutex :: "tp_state \<Rightarrow> bool" where
  "tp_mutex s \<longleftrightarrow> (\<forall>t. tp_holds (tp_at s t) \<longleftrightarrow> tp_lock s = Some t)"

definition tp_owned :: "(nat \<Rightarrow> tp_pc) \<Rightarrow> ptr set" where
  "tp_owned f = {j. \<exists>t. tp_own (f t) = Some j}"

definition tp_memory :: "tp_state \<Rightarrow> ptr list \<Rightarrow> bool" where
  "tp_memory s xs \<longleftrightarrow> tq_rep (job_queue s) xs \<and> tq_nodes (job_queue s) = dom (jobs s) \<and>
     dom (jobs s) = set xs \<union> tp_owned (tp_at s) \<and>
     (\<forall>t j. tp_own (tp_at s t) = Some j \<longrightarrow> j \<notin> set xs) \<and>
     (\<forall>t u j. tp_own (tp_at s t) = Some j \<longrightarrow> tp_own (tp_at s u) = Some j \<longrightarrow> t = u)"

definition tp_order :: "tp_state \<Rightarrow> ptr list \<Rightarrow> bool" where
  "tp_order s xs \<longleftrightarrow> job_size s = of_nat (length xs) \<and> tp_taken s @ map (tp_data s) xs = tp_submitted s"

definition tp_account :: "nat \<Rightarrow> tp_state \<Rightarrow> bool" where
  "tp_account n s \<longleftrightarrow> mset (tp_taken s) = mset (tp_handled s) + (\<Sum>t<n. tp_todo (tp_data s) (tp_at s t))"

definition tp_wake :: "nat \<Rightarrow> tp_state \<Rightarrow> ptr list \<Rightarrow> bool" where
  "tp_wake core s xs \<longleftrightarrow> (\<forall>t. tp_at s t = WWait \<longrightarrow> t < core) \<and> (\<forall>t. tp_at s t = WTake \<longrightarrow> xs \<noteq> []) \<and>
     (\<not> shutdown s \<longrightarrow> (\<forall>t. tp_at s t \<noteq> WDone) \<and>
       (xs \<noteq> [] \<longrightarrow> 0 < core \<longrightarrow> (\<exists>t. tp_at s t = SSignal) \<or> (\<exists>w<core. tp_at s w \<noteq> WWait)))"

definition tp_inv :: "nat \<Rightarrow> nat \<Rightarrow> tp_state \<Rightarrow> bool" where
  "tp_inv core n s \<longleftrightarrow> tp_mutex s \<and> (\<exists>xs. tp_memory s xs \<and> tp_order s xs \<and> tp_wake core s xs) \<and> tp_account n s"

lemma owned_gain:
  assumes "tp_own (f t) = None" and "tp_own c = Some j"
  shows "tp_owned (f(t := c)) = insert j (tp_owned f)"
proof -
  have "tp_own (f u) = Some k \<Longrightarrow> u \<noteq> t" for u k using assms(1) by auto
  then show ?thesis using assms(2) unfolding tp_owned_def by (auto split: if_splits)
qed

lemma todo_sum:
  assumes "(t :: nat) < n"
  shows "(\<Sum>u<n. tp_todo f ((g(t := c)) u)) + tp_todo f (g t) = (\<Sum>u<n. tp_todo f (g u)) + tp_todo f c"
proof -
  have "(\<Sum>u<n. tp_todo f ((g(t := c)) u)) = tp_todo f c + (\<Sum>u\<in>{..<n} - {t}. tp_todo f ((g(t := c)) u))"
    using assms by (subst sum.remove [of _ t]) auto
  also have "(\<Sum>u\<in>{..<n} - {t}. tp_todo f ((g(t := c)) u)) = (\<Sum>u\<in>{..<n} - {t}. tp_todo f (g u))"
    by (rule sum.cong) auto
  finally show ?thesis using assms by (subst (2) sum.remove [of _ t]) (auto simp: ac_simps)
qed

lemma todo_same: "(t :: nat) < n \<Longrightarrow> tp_todo f c = tp_todo f (g t) \<Longrightarrow> (\<Sum>u<n. tp_todo f ((g(t := c)) u)) = (\<Sum>u<n. tp_todo f (g u))"
  using todo_sum [of t n f g c] by simp

lemma tp_data_more [simp]:
  "tp_data (s\<lparr>tp_lock := l\<rparr>) = tp_data s" "tp_data (tp_goto t c s) = tp_data s" "tp_data (s\<lparr>job_queue := q\<rparr>) = tp_data s"
  "tp_data (s\<lparr>job_size := k\<rparr>) = tp_data s" "tp_data (s\<lparr>tp_taken := a\<rparr>) = tp_data s" "tp_data (s\<lparr>tp_handled := a\<rparr>) = tp_data s"
  "tp_data (s\<lparr>tp_submitted := a\<rparr>) = tp_data s" "tp_data (s\<lparr>shutdown := b\<rparr>) = tp_data s"
  by (auto simp: tp_data_def tp_goto_def fun_eq_iff)

lemma mutex_moves:
  assumes "tp_mutex s" and "tp_lock s' = (if tp_holds c then Some t else None)" and "tp_at s' = (tp_at s)(t := c)"
    and "tp_lock s = None \<or> tp_lock s = Some t"
  shows "tp_mutex s'"
  using assms unfolding tp_mutex_def by (auto split: if_splits)

lemma mutex_stays:
  assumes "tp_mutex s" and "tp_lock s' = tp_lock s" and "tp_at s' = (tp_at s)(t := c)" and "tp_holds c = tp_holds (tp_at s t)"
  shows "tp_mutex s'"
  using assms unfolding tp_mutex_def by auto

lemma tp_mutexD: "tp_mutex s \<Longrightarrow> tp_holds (tp_at s t) \<Longrightarrow> tp_lock s = Some t"
  by (simp add: tp_mutex_def)

text \<open>A step of thread \<open>t\<close> that only changes its place in the code and the lock.\<close>

lemma tp_quiet:
  assumes inv: "tp_inv core n s" and t: "t < n" and s': "s' = tp_goto t c (s\<lparr>tp_lock := l\<rparr>)"
    and mutex: "l = (if tp_holds c then Some t else None) \<and> (tp_lock s = None \<or> tp_lock s = Some t) \<or>
      l = tp_lock s \<and> tp_holds c = tp_holds (tp_at s t)"
    and own: "tp_own c = tp_own (tp_at s t)" "tp_todo (tp_data s) c = tp_todo (tp_data s) (tp_at s t)"
    and wait: "c = WWait \<Longrightarrow> t < core \<and> TAILQ_EMPTY (job_queue s)" and take: "c = WTake \<Longrightarrow> \<not> TAILQ_EMPTY (job_queue s)"
    and fin: "c = WDone \<Longrightarrow> shutdown s" and sig: "tp_at s t = SSignal \<Longrightarrow> 0 < core \<Longrightarrow> \<exists>w<core. ((tp_at s)(t := c)) w \<noteq> WWait"
  shows "tp_inv core n s'"
proof -
  obtain xs where I: "tp_mutex s" "tp_memory s xs" "tp_order s xs" "tp_wake core s xs" "tp_account n s"
    using inv unfolding tp_inv_def by blast
  have e: "TAILQ_EMPTY (job_queue s) \<longleftrightarrow> xs = []" using I(2) tq.empty_law unfolding tp_memory_def by blast
  have at: "tp_at s' = (tp_at s)(t := c)" by (simp add: s' tp_goto_def)
  have o: "tp_own (tp_at s' u) = tp_own (tp_at s u)" for u using own(1) by (simp add: at)
  have f: "job_queue s' = job_queue s" "jobs s' = jobs s" "job_size s' = job_size s" "tp_taken s' = tp_taken s"
    "tp_submitted s' = tp_submitted s" "tp_handled s' = tp_handled s" "shutdown s' = shutdown s" "tp_data s' = tp_data s"
    by (simp_all add: s' tp_goto_def tp_data_def fun_eq_iff)
  have "tp_mutex s'" using mutex mutex_moves [OF I(1), of s' c t] mutex_stays [OF I(1), of s' t c] at by (auto simp: s' tp_goto_def)
  moreover have "tp_memory s' xs" using I(2) by (simp add: tp_memory_def tp_owned_def o f)
  moreover have "tp_order s' xs" using I(3) by (simp add: tp_order_def f)
  moreover have "tp_account n s'" using I(5) todo_same [where f = "tp_data s" and g = "tp_at s", OF t own(2)] by (simp add: tp_account_def f at)
  moreover have "tp_wake core s' xs"
    unfolding tp_wake_def f
  proof (intro conjI impI allI)
    show "u < core" if "tp_at s' u = WWait" for u using that wait I(4) unfolding at tp_wake_def by (auto split: if_splits)
    show "xs \<noteq> []" if "tp_at s' u = WTake" for u using that take I(4) e unfolding at tp_wake_def by (auto split: if_splits)
    show "tp_at s' u \<noteq> WDone" if "\<not> shutdown s" for u using that fin I(4) unfolding at tp_wake_def by (auto split: if_splits)
    show "(\<exists>u. tp_at s' u = SSignal) \<or> (\<exists>w<core. tp_at s' w \<noteq> WWait)" if a: "\<not> shutdown s" "xs \<noteq> []" "0 < core"
    proof (cases "tp_at s t = SSignal")
      case True
      then show ?thesis using sig a(3) unfolding at by blast
    next
      case False
      have "(\<exists>u. tp_at s u = SSignal) \<or> (\<exists>w<core. tp_at s w \<noteq> WWait)" using I(4) a unfolding tp_wake_def by blast
      then show ?thesis
      proof
        assume "\<exists>u. tp_at s u = SSignal"
        then obtain u where "tp_at s u = SSignal" "u \<noteq> t" using False by auto
        then have "tp_at s' u = SSignal" unfolding at by simp
        then show ?thesis by blast
      next
        assume "\<exists>w<core. tp_at s w \<noteq> WWait"
        then obtain w where "w < core" "tp_at s w \<noteq> WWait" by blast
        then have "tp_at s' w \<noteq> WWait" using wait a(2) e unfolding at by auto
        then show ?thesis using \<open>w < core\<close> by blast
      qed
    qed
  qed
  ultimately show ?thesis unfolding tp_inv_def by blast
qed

lemma tp_invE:
  assumes "tp_inv core n s"
  obtains xs where "tp_mutex s" "tp_memory s xs" "tp_order s xs" "tp_wake core s xs" "tp_account n s"
  using assms unfolding tp_inv_def by blast

text \<open>Only the holder of the lock can be about to take, insert or signal.\<close>

lemma tp_only: "tp_mutex s \<Longrightarrow> tp_holds (tp_at s t) \<Longrightarrow> tp_holds (tp_at s u) \<Longrightarrow> u = t"
  using tp_mutexD [of s t] tp_mutexD [of s u] by simp

text \<open>Leaving a place other than \<open>SSignal\<close> for one other than \<open>WWait\<close> loses no wake-up.\<close>

lemma wake_keep:
  assumes w: "tp_wake core s xs" and at: "tp_at s' = (tp_at s)(t := c)" and sh: "shutdown s' = shutdown s"
    and old: "tp_at s t \<noteq> SSignal" and new: "c \<noteq> WWait" "c = WTake \<Longrightarrow> xs \<noteq> []" "c = WDone \<Longrightarrow> shutdown s"
  shows "tp_wake core s' xs"
  unfolding tp_wake_def sh
proof (intro conjI impI allI)
  show "u < core" if "tp_at s' u = WWait" for u using that w new(1) unfolding at tp_wake_def by (auto split: if_splits)
  show "xs \<noteq> []" if "tp_at s' u = WTake" for u using that w new(2) unfolding at tp_wake_def by (auto split: if_splits)
  show "tp_at s' u \<noteq> WDone" if "\<not> shutdown s" for u using that w new(3) unfolding at tp_wake_def by (auto split: if_splits)
  assume "\<not> shutdown s" "xs \<noteq> []" "0 < core"
  then consider u where "tp_at s u = SSignal" | v where "v < core" "tp_at s v \<noteq> WWait" using w unfolding tp_wake_def by blast
  then show "(\<exists>u. tp_at s' u = SSignal) \<or> (\<exists>v<core. tp_at s' v \<noteq> WWait)"
  proof cases
    case 1
    then have "tp_at s' u = SSignal" using old unfolding at by auto
    then show ?thesis by blast
  next
    case 2
    then have "tp_at s' v \<noteq> WWait" using new(1) unfolding at by auto
    then show ?thesis using 2 by blast
  qed
qed

lemma take_inv:
  assumes inv: "tp_inv core n s" and t: "t < n" and at: "tp_at s t = WTake" and j: "j = TAILQ_FIRST (job_queue s)"
    and q: "TAILQ_REMOVE (job_queue s) j = Some q"
  shows "tp_inv core n (tp_goto t (WUnlock j) (s\<lparr>job_queue := q, job_size := job_size s - 1, tp_taken := tp_taken s @ [tp_data s j]\<rparr>))"
    (is "tp_inv core n ?s")
proof -
  obtain xs where I: "tp_mutex s" "tp_memory s xs" "tp_order s xs" "tp_wake core s xs" "tp_account n s" by (rule tp_invE [OF inv])
  have r: "tq_rep (job_queue s) xs" using I(2) by (simp add: tp_memory_def)
  have "xs \<noteq> []" using I(4) at unfolding tp_wake_def by blast
  then have "\<not> TAILQ_EMPTY (job_queue s)" using tq.empty_law [OF r] by simp
  from tq.take_head [OF r this] obtain ys where xs: "xs = j # ys" "tq_rep q ys" "tq_nodes q = tq_nodes (job_queue s)"
    using j q by auto
  have D: "distinct xs" using tq.nodes_law [OF r] by simp
  have M: "tp_own (tp_at s u) = Some k \<Longrightarrow> k \<notin> set xs" "tp_own (tp_at s u) = Some k \<Longrightarrow> tp_own (tp_at s v) = Some k \<Longrightarrow> u = v"
    "dom (jobs s) = set xs \<union> tp_owned (tp_at s)" for u v k using I(2) unfolding tp_memory_def by blast+
  have at': "tp_at ?s = (tp_at s)(t := WUnlock j)" by (simp add: tp_goto_def)
  have o: "tp_own (tp_at ?s u) = (if u = t then Some j else tp_own (tp_at s u))" for u by (simp add: at')
  have ot: "tp_own (tp_at s t) = None" using at by simp
  have "tp_memory ?s ys"
    unfolding tp_memory_def
  proof (intro conjI)
    show "tq_rep (job_queue ?s) ys" "tq_nodes (job_queue ?s) = dom (jobs ?s)"
      using xs I(2) by (simp_all add: tp_goto_def tp_memory_def)
    show "dom (jobs ?s) = set ys \<union> tp_owned (tp_at ?s)"
      using M(3) xs(1) owned_gain [of "tp_at s" t "WUnlock j" j] ot by (simp add: tp_goto_def)
    show "\<forall>u k. tp_own (tp_at ?s u) = Some k \<longrightarrow> k \<notin> set ys" unfolding o using M(1) xs(1) D by (auto split: if_splits)
    show "\<forall>u v k. tp_own (tp_at ?s u) = Some k \<longrightarrow> tp_own (tp_at ?s v) = Some k \<longrightarrow> u = v"
      unfolding o using M(1,2) xs(1) by (auto split: if_splits)
  qed
  moreover have "tp_order ?s ys" using I(3) xs(1) by (simp add: tp_order_def tp_goto_def tp_data_def [abs_def])
  moreover have "tp_mutex ?s" by (rule mutex_stays [OF I(1) _ at']) (simp_all add: at tp_goto_def)
  moreover have "tp_account n ?s"
  proof -
    have "tp_todo (tp_data s) (tp_at s t) = {#}" using at by simp
    then have "(\<Sum>u<n. tp_todo (tp_data s) (tp_at ?s u)) = (\<Sum>u<n. tp_todo (tp_data s) (tp_at s u)) + {#tp_data s j#}"
      using todo_sum [OF t, of "tp_data s" "tp_at s" "WUnlock j"] by (simp add: at')
    then show ?thesis using I(5) by (simp add: tp_account_def tp_goto_def tp_data_def [abs_def])
  qed
  moreover have "tp_wake core ?s ys"
  proof -
    have "tp_at s u \<noteq> SSignal" "u \<noteq> t \<Longrightarrow> tp_at s u \<noteq> WTake" for u using tp_only [OF I(1), of t u] at by auto
    moreover have "xs \<noteq> []" using xs(1) by simp
    ultimately have "\<not> shutdown s \<Longrightarrow> 0 < core \<Longrightarrow> \<exists>w<core. tp_at s w \<noteq> WWait" using I(4) unfolding tp_wake_def by blast
    then have "\<not> shutdown s \<Longrightarrow> 0 < core \<Longrightarrow> \<exists>w<core. tp_at ?s w \<noteq> WWait" using at' by auto
    then show ?thesis using I(4) \<open>\<And>u. u \<noteq> t \<Longrightarrow> tp_at s u \<noteq> WTake\<close> unfolding tp_wake_def at' by (auto simp: tp_goto_def split: if_splits)
  qed
  ultimately show ?thesis unfolding tp_inv_def by blast
qed

lemma insert_inv:
  assumes inv: "tp_inv core n s" and t: "t < n" and at: "tp_at s t = SInsert j"
    and q: "TAILQ_INSERT_TAIL (job_queue s) j = Some q"
  shows "tp_inv core n (tp_goto t SSignal (s\<lparr>job_queue := q, job_size := job_size s + 1, tp_submitted := tp_submitted s @ [tp_data s j]\<rparr>))"
    (is "tp_inv core n ?s")
proof -
  obtain xs where I: "tp_mutex s" "tp_memory s xs" "tp_order s xs" "tp_wake core s xs" "tp_account n s" by (rule tp_invE [OF inv])
  have r: "tq_rep (job_queue s) xs" using I(2) by (simp add: tp_memory_def)
  have M: "tp_own (tp_at s u) = Some k \<Longrightarrow> k \<notin> set xs" "tp_own (tp_at s u) = Some k \<Longrightarrow> tp_own (tp_at s v) = Some k \<Longrightarrow> u = v"
    "dom (jobs s) = set xs \<union> tp_owned (tp_at s)" "tq_nodes (job_queue s) = dom (jobs s)" for u v k
    using I(2) unfolding tp_memory_def by blast+
  have oj: "tp_own (tp_at s t) = Some j" using at by simp
  then have j: "j \<in> tq_nodes (job_queue s)" "j \<notin> set xs" using M by (auto simp: tp_owned_def)
  then have jN: "j \<noteq> NULL" by (simp add: tq_nodes_def)
  have q': "tq_rep q (xs @ [j])" "tq_nodes q = tq_nodes (job_queue s)" using tq.insert_law [OF r jN j] q by auto
  have at': "tp_at ?s = (tp_at s)(t := SSignal)" by (simp add: tp_goto_def)
  have o: "tp_own (tp_at ?s u) = (if u = t then None else tp_own (tp_at s u))" for u by (simp add: at')
  have "tp_memory ?s (xs @ [j])"
    unfolding tp_memory_def
  proof (intro conjI)
    show "tq_rep (job_queue ?s) (xs @ [j])" "tq_nodes (job_queue ?s) = dom (jobs ?s)" using q' M(4) by (simp_all add: tp_goto_def)
    have "tp_owned (tp_at s) = insert j (tp_owned (tp_at ?s))"
      using owned_gain [of "tp_at ?s" t "SInsert j" j] at by (simp add: at' fun_upd_idem)
    then show "dom (jobs ?s) = set (xs @ [j]) \<union> tp_owned (tp_at ?s)" using M(3) by (simp add: tp_goto_def)
    show "\<forall>u k. tp_own (tp_at ?s u) = Some k \<longrightarrow> k \<notin> set (xs @ [j])" unfolding o using M(1,2) oj by (auto split: if_splits)
    show "\<forall>u v k. tp_own (tp_at ?s u) = Some k \<longrightarrow> tp_own (tp_at ?s v) = Some k \<longrightarrow> u = v"
      unfolding o using M(2) by (auto split: if_splits)
  qed
  moreover have "tp_order ?s (xs @ [j])" using I(3) by (simp add: tp_order_def tp_goto_def tp_data_def [abs_def] flip: append_assoc)
  moreover have "tp_mutex ?s" by (rule mutex_stays [OF I(1) _ at']) (simp_all add: at tp_goto_def)
  moreover have "tp_account n ?s"
  proof -
    have "tp_todo (tp_data s) SSignal = tp_todo (tp_data s) (tp_at s t)" using at by simp
    from todo_same [where g = "tp_at s" and f = "tp_data s", OF t this] show ?thesis using I(5) by (simp add: tp_account_def tp_goto_def tp_data_def [abs_def])
  qed
  moreover have "tp_wake core ?s (xs @ [j])"
    using I(4) unfolding tp_wake_def at' by (auto simp: tp_goto_def split: if_splits)
  ultimately show ?thesis unfolding tp_inv_def by blast
qed

lemma todo_cong: "(\<And>u k. tp_own (g u) = Some k \<Longrightarrow> f k = f' k) \<Longrightarrow> (\<Sum>u<n. tp_todo f (g u)) = (\<Sum>u<n. tp_todo f' (g u))"
proof (rule sum.cong [OF refl])
  fix u assume "\<And>u k. tp_own (g u) = Some k \<Longrightarrow> f k = f' k"
  then have "tp_own (g u) = Some k \<Longrightarrow> f k = f' k" for k by blast
  then show "tp_todo f (g u) = tp_todo f' (g u)" by (cases "g u") auto
qed

lemma run_inv:
  assumes inv: "tp_inv core n s" and t: "t < n" and at: "tp_at s t = WRun j" and b: "jobs s j = Some b"
  shows "tp_inv core n (tp_goto t (WFree j) (s\<lparr>tp_handled := tp_handled s @ [job_data b]\<rparr>))" (is "tp_inv core n ?s")
proof -
  obtain xs where I: "tp_mutex s" "tp_memory s xs" "tp_order s xs" "tp_wake core s xs" "tp_account n s" by (rule tp_invE [OF inv])
  have at': "tp_at ?s = (tp_at s)(t := WFree j)" by (simp add: tp_goto_def)
  have o: "tp_own (tp_at ?s u) = tp_own (tp_at s u)" for u using at by (simp add: at')
  have "tp_memory ?s xs" using I(2) unfolding tp_memory_def tp_owned_def o by (simp add: tp_goto_def)
  moreover have "tp_order ?s xs" using I(3) by (simp add: tp_order_def tp_goto_def tp_data_def [abs_def])
  moreover have "tp_mutex ?s" by (rule mutex_stays [OF I(1) _ at']) (simp_all add: at tp_goto_def)
  moreover have "tp_wake core ?s xs" by (rule wake_keep [OF I(4) at']) (simp_all add: at tp_goto_def)
  moreover have "tp_account n ?s"
  proof -
    have "tp_todo (tp_data s) (tp_at s t) = {#job_data b#}" using at b by (simp add: tp_data_def)
    then have "(\<Sum>u<n. tp_todo (tp_data s) (tp_at ?s u)) + {#job_data b#} = (\<Sum>u<n. tp_todo (tp_data s) (tp_at s u))"
      using todo_sum [OF t, of "tp_data s" "tp_at s" "WFree j"] by (simp add: at')
    then have "mset (tp_taken s) = mset (tp_handled s) + ((\<Sum>u<n. tp_todo (tp_data s) (tp_at ?s u)) + {#job_data b#})"
      using I(5) by (simp add: tp_account_def)
    moreover have "tp_data ?s = tp_data s" "tp_taken ?s = tp_taken s" "mset (tp_handled ?s) = mset (tp_handled s) + {#job_data b#}"
      by (simp_all add: tp_goto_def tp_data_def [abs_def])
    ultimately show ?thesis unfolding tp_account_def by (simp only: ac_simps)
  qed
  ultimately show ?thesis unfolding tp_inv_def by blast
qed

text \<open>A step that changes the memory of one job outside the queue.\<close>

lemma other_job:
  assumes m: "tp_memory s xs" and j: "j \<notin> set xs" and jN: "j \<noteq> NULL"
    and s': "job_queue s' = (job_queue s)\<lparr>tq_links := (tq_links (job_queue s))(j := l)\<rparr>" "jobs s' = (jobs s)(j := b)"
    and lb: "l = None \<longleftrightarrow> b = None"
  shows "tq_rep (job_queue s') xs" and "tq_nodes (job_queue s') = dom (jobs s')" and "k \<noteq> j \<Longrightarrow> tp_data s' k = tp_data s k"
proof -
  show "tq_rep (job_queue s') xs" using m tq_rep_other [OF _ j] unfolding s' tp_memory_def by blast
  have "tq_nodes (job_queue s) = dom (jobs s)" using m by (simp add: tp_memory_def)
  then have "\<forall>x. (x \<noteq> NULL \<and> tq_links (job_queue s) x \<noteq> None) = (jobs s x \<noteq> None)" unfolding tq_nodes_def by blast
  then show "tq_nodes (job_queue s') = dom (jobs s')" unfolding s' tq_nodes_def dom_def using jN lb by auto
  show "k \<noteq> j \<Longrightarrow> tp_data s' k = tp_data s k" by (simp add: tp_data_def s')
qed

lemma free_inv:
  assumes inv: "tp_inv core n s" and t: "t < n" and at: "tp_at s t = WFree j"
  shows "tp_inv core n (tp_goto t WTop (threadpool_free_job j s))" (is "tp_inv core n ?s")
proof -
  obtain xs where I: "tp_mutex s" "tp_memory s xs" "tp_order s xs" "tp_wake core s xs" "tp_account n s" by (rule tp_invE [OF inv])
  have M: "tp_own (tp_at s u) = Some k \<Longrightarrow> k \<notin> set xs" "tp_own (tp_at s u) = Some k \<Longrightarrow> tp_own (tp_at s v) = Some k \<Longrightarrow> u = v"
    "dom (jobs s) = set xs \<union> tp_owned (tp_at s)" "tq_nodes (job_queue s) = dom (jobs s)" for u v k
    using I(2) unfolding tp_memory_def by blast+
  have oj: "tp_own (tp_at s t) = Some j" using at by simp
  then have "j \<in> dom (jobs s)" unfolding M(3) tp_owned_def by blast
  then have jN: "j \<noteq> NULL" unfolding M(4) [symmetric] by (simp add: tq_nodes_def)
  have jx: "j \<notin> set xs" by (rule M(1) [OF oj])
  have e: "job_queue ?s = (job_queue s)\<lparr>tq_links := (tq_links (job_queue s))(j := None)\<rparr>" "jobs ?s = (jobs s)(j := None)"
    using jN by (simp_all add: tp_goto_def threadpool_free_job_def)
  have O: "tq_rep (job_queue ?s) xs" "tq_nodes (job_queue ?s) = dom (jobs ?s)" "k \<noteq> j \<Longrightarrow> tp_data ?s k = tp_data s k" for k
    using other_job [OF I(2) jx jN e] by blast+
  have at': "tp_at ?s = (tp_at s)(t := WTop)" using jN by (simp add: tp_goto_def threadpool_free_job_def)
  have f: "job_size ?s = job_size s" "tp_taken ?s = tp_taken s" "tp_submitted ?s = tp_submitted s" "tp_handled ?s = tp_handled s"
    "shutdown ?s = shutdown s" "tp_lock ?s = tp_lock s"
    using jN by (simp_all add: tp_goto_def threadpool_free_job_def)
  have o: "tp_own (tp_at ?s u) = (if u = t then None else tp_own (tp_at s u))" for u by (simp add: at')
  have ne: "u \<noteq> t \<Longrightarrow> tp_own (tp_at s u) = Some k \<Longrightarrow> k \<noteq> j" for u k using M(2) [of u k t] oj by auto
  have "tp_memory ?s xs"
    unfolding tp_memory_def
  proof (intro conjI)
    have "tp_owned (tp_at s) = insert j (tp_owned (tp_at ?s))"
      using owned_gain [of "tp_at ?s" t "WFree j" j] at by (simp add: at' fun_upd_idem)
    moreover have "j \<notin> tp_owned (tp_at ?s)" unfolding tp_owned_def o using ne by (auto split: if_splits)
    moreover have "dom (jobs ?s) = dom (jobs s) - {j}" unfolding e by auto
    ultimately show "dom (jobs ?s) = set xs \<union> tp_owned (tp_at ?s)" using M(3) jx by auto
    show "\<forall>u k. tp_own (tp_at ?s u) = Some k \<longrightarrow> k \<notin> set xs" unfolding o using M(1) by (auto split: if_splits)
    show "\<forall>u v k. tp_own (tp_at ?s u) = Some k \<longrightarrow> tp_own (tp_at ?s v) = Some k \<longrightarrow> u = v"
      unfolding o using M(2) by (auto split: if_splits)
  qed (fact O)+
  moreover have mp: "map (tp_data ?s) xs = map (tp_data s) xs"
  proof (rule map_cong [OF refl])
    fix x assume "x \<in> set xs"
    then have "x \<noteq> j" using jx by blast
    then show "tp_data ?s x = tp_data s x" by (rule O(3))
  qed
  have "tp_order ?s xs" using I(3) unfolding tp_order_def f mp .
  moreover have "tp_mutex ?s" by (rule mutex_stays [OF I(1) f(6) at']) (simp add: at)
  moreover have "tp_wake core ?s xs" by (rule wake_keep [OF I(4) at']) (simp_all add: at f)
  moreover have "tp_account n ?s"
  proof -
    have "tp_todo (tp_data s) WTop = tp_todo (tp_data s) (tp_at s t)" using at by simp
    then have "(\<Sum>u<n. tp_todo (tp_data s) (tp_at ?s u)) = (\<Sum>u<n. tp_todo (tp_data s) (tp_at s u))"
      using todo_same [where g = "tp_at s" and f = "tp_data s", OF t] by (simp add: at')
    moreover have "(\<Sum>u<n. tp_todo (tp_data ?s) (tp_at ?s u)) = (\<Sum>u<n. tp_todo (tp_data s) (tp_at ?s u))"
      by (rule todo_cong, rule O(3)) (use ne o in \<open>auto split: if_splits\<close>)
    ultimately show ?thesis using I(5) by (simp add: tp_account_def f)
  qed
  ultimately show ?thesis unfolding tp_inv_def by blast
qed

lemma new_inv:
  assumes inv: "tp_inv core n s" and t: "t < n" and at: "tp_at s t = SNew" and j: "j \<noteq> NULL" "jobs s j = None"
  shows "tp_inv core n (tp_goto t (SLock j) (s\<lparr>jobs := (jobs s)(j \<mapsto> b),
    job_queue := (job_queue s)\<lparr>tq_links := (tq_links (job_queue s))(j \<mapsto> l)\<rparr>\<rparr>))" (is "tp_inv core n ?s")
proof -
  obtain xs where I: "tp_mutex s" "tp_memory s xs" "tp_order s xs" "tp_wake core s xs" "tp_account n s" by (rule tp_invE [OF inv])
  have M: "tp_own (tp_at s u) = Some k \<Longrightarrow> k \<notin> set xs" "tp_own (tp_at s u) = Some k \<Longrightarrow> tp_own (tp_at s v) = Some k \<Longrightarrow> u = v"
    "dom (jobs s) = set xs \<union> tp_owned (tp_at s)" for u v k
    using I(2) unfolding tp_memory_def by blast+
  have jx: "j \<notin> set xs" and jo: "j \<notin> tp_owned (tp_at s)" using j(2) M(3) by blast+
  have e: "job_queue ?s = (job_queue s)\<lparr>tq_links := (tq_links (job_queue s))(j := Some l)\<rparr>" "jobs ?s = (jobs s)(j := Some b)"
    by (simp_all add: tp_goto_def)
  have O: "tq_rep (job_queue ?s) xs" "tq_nodes (job_queue ?s) = dom (jobs ?s)" "k \<noteq> j \<Longrightarrow> tp_data ?s k = tp_data s k" for k
    using other_job [OF I(2) jx j(1) e] by blast+
  have at': "tp_at ?s = (tp_at s)(t := SLock j)" by (simp add: tp_goto_def)
  have f: "job_size ?s = job_size s" "tp_taken ?s = tp_taken s" "tp_submitted ?s = tp_submitted s" "tp_handled ?s = tp_handled s"
    "shutdown ?s = shutdown s" "tp_lock ?s = tp_lock s"
    by (simp_all add: tp_goto_def)
  have o: "tp_own (tp_at ?s u) = (if u = t then Some j else tp_own (tp_at s u))" for u by (simp add: at')
  have nj: "tp_own (tp_at s u) \<noteq> Some j" for u using jo unfolding tp_owned_def by blast
  then have ne: "tp_own (tp_at s u) = Some k \<Longrightarrow> k \<noteq> j" for u k by blast
  have "tp_memory ?s xs"
    unfolding tp_memory_def
  proof (intro conjI)
    have "tp_owned (tp_at ?s) = insert j (tp_owned (tp_at s))" using owned_gain [of "tp_at s" t "SLock j" j] at by (simp add: at')
    moreover have "dom (jobs ?s) = insert j (dom (jobs s))" unfolding e by auto
    ultimately show "dom (jobs ?s) = set xs \<union> tp_owned (tp_at ?s)" using M(3) by auto
    show "\<forall>u k. tp_own (tp_at ?s u) = Some k \<longrightarrow> k \<notin> set xs" unfolding o using M(1) jx by (auto split: if_splits)
    show "\<forall>u v k. tp_own (tp_at ?s u) = Some k \<longrightarrow> tp_own (tp_at ?s v) = Some k \<longrightarrow> u = v"
      unfolding o using M(2) nj by (auto split: if_splits)
  qed (fact O)+
  moreover have mp: "map (tp_data ?s) xs = map (tp_data s) xs"
  proof (rule map_cong [OF refl])
    fix x assume "x \<in> set xs"
    then have "x \<noteq> j" using jx by blast
    then show "tp_data ?s x = tp_data s x" by (rule O(3))
  qed
  have "tp_order ?s xs" using I(3) unfolding tp_order_def f mp .
  moreover have "tp_mutex ?s" by (rule mutex_stays [OF I(1) f(6) at']) (simp add: at)
  moreover have "tp_wake core ?s xs" by (rule wake_keep [OF I(4) at']) (simp_all add: at f)
  moreover have "tp_account n ?s"
  proof -
    have "tp_todo (tp_data s) (SLock j) = tp_todo (tp_data s) (tp_at s t)" using at by simp
    then have "(\<Sum>u<n. tp_todo (tp_data s) (tp_at ?s u)) = (\<Sum>u<n. tp_todo (tp_data s) (tp_at s u))"
      using todo_same [where g = "tp_at s" and f = "tp_data s", OF t] by (simp add: at')
    moreover have "tp_todo (tp_data ?s) (tp_at ?s u) = tp_todo (tp_data s) (tp_at ?s u)" for u
    proof (cases "u = t")
      case False
      then have "tp_own (tp_at ?s u) = Some k \<Longrightarrow> tp_data ?s k = tp_data s k" for k using O(3) ne o by auto
      then show ?thesis by (cases "tp_at ?s u") auto
    qed (simp add: at')
    ultimately show ?thesis using I(5) by (simp add: tp_account_def f)
  qed
  ultimately show ?thesis unfolding tp_inv_def by blast
qed

lemma lock_id [simp]: "s\<lparr>tp_lock := tp_lock s\<rparr> = s"
  by simp

lemma wait_core: "tp_inv core n s \<Longrightarrow> tp_at s u = WWait \<Longrightarrow> u < core"
  unfolding tp_inv_def tp_wake_def by blast

lemma signal_inv:
  assumes inv: "tp_inv core n s" and t: "t < n" and at: "tp_at s t = SSignal" "tp_at s u = WWait" and n: "core \<le> n"
  shows "tp_inv core n (tp_goto t SUnlock (tp_goto u WWake s))"
proof -
  have u: "u < core" by (rule wait_core [OF inv at(2)])
  have ne: "u \<noteq> t" using at by auto
  have 1: "tp_inv core n (tp_goto u WWake s)"
    by (rule tp_quiet [OF inv, of u _ WWake "tp_lock s"]) (use u n at(2) in auto)
  have at1: "tp_at (tp_goto u WWake s) = (tp_at s)(u := WWake)" by (simp add: tp_goto_def)
  show ?thesis
    by (rule tp_quiet [OF 1 t, of _ SUnlock "tp_lock (tp_goto u WWake s)"]) (use u ne at in \<open>auto simp: at1\<close>)
qed

lemma nobody_inv:
  assumes inv: "tp_inv core n s" and t: "t < n" and at: "tp_at s t = SSignal" "\<And>u. tp_at s u \<noteq> WWait"
  shows "tp_inv core n (tp_goto t SUnlock s)"
  by (rule tp_quiet [OF inv t, of _ SUnlock "tp_lock s"]) (use at in \<open>auto intro: exI [of _ 0]\<close>)

lemma worker_step_inv:
  assumes "worker_step t s s'" and inv: "tp_inv core n s" and t: "t < core" and n: "core \<le> n"
  shows "tp_inv core n s'"
  using assms(1)
proof cases
  case w_top
  then show ?thesis by (intro tp_quiet [OF inv, of t _ WLock "tp_lock s"]) (use t n in auto)
next
  case w_exit
  then show ?thesis by (intro tp_quiet [OF inv, of t _ WDone "tp_lock s"]) (use t n in auto)
next
  case w_lock
  then show ?thesis by (intro tp_quiet [OF inv, of t _ WTest "Some t"]) (use t n in auto)
next
  case w_wait
  then show ?thesis using tp_invE [OF inv] tp_mutexD [of s t]
    by (intro tp_quiet [OF inv, of t _ WWait None]) (use t n in auto)
next
  case w_spurious
  then show ?thesis by (intro tp_quiet [OF inv, of t _ WWake "tp_lock s"]) (use t n in auto)
next
  case w_relock
  then show ?thesis by (intro tp_quiet [OF inv, of t _ WTest "Some t"]) (use t n in auto)
next
  case w_ready
  then show ?thesis by (intro tp_quiet [OF inv, of t _ WTake "tp_lock s"]) (use t n in auto)
next
  case (w_take j q)
  then show ?thesis using take_inv [OF inv, of t j q] t n by simp
next
  case (w_unlock j)
  then show ?thesis using tp_invE [OF inv] tp_mutexD [of s t]
    by (intro tp_quiet [OF inv, of t _ "WRun j" None]) (use t n in auto)
next
  case (w_run j b)
  then show ?thesis using run_inv [OF inv, of t j b] t n by simp
next
  case (w_free j)
  then show ?thesis using free_inv [OF inv, of t j] t n by simp
qed

lemma submit_step_inv:
  assumes "submit_step t s s'" and inv: "tp_inv core n s" and t: "t < n" and n: "core \<le> n"
  shows "tp_inv core n s'"
  using assms(1)
proof cases
  case (s_new j d l)
  then show ?thesis using new_inv [OF inv t, of j] by simp
next
  case (s_lock j)
  then show ?thesis by (intro tp_quiet [OF inv t, of _ "SInsert j" "Some t"]) auto
next
  case (s_insert j q)
  then show ?thesis using insert_inv [OF inv t, of j q] by simp
next
  case (s_signal u)
  then show ?thesis using signal_inv [OF inv t _ _ n] by simp
next
  case s_nobody
  then show ?thesis using nobody_inv [OF inv t] by simp
next
  case s_unlock
  then show ?thesis using tp_invE [OF inv] tp_mutexD [of s t]
    by (intro tp_quiet [OF inv t, of _ SNew None]) auto
qed

end
