(* ===== verification/ThreadPoolProps.thy ===== *)
theory ThreadPoolProps
  imports ThreadPoolInv
begin

text \<open>
  What the pool of \<open>thread_pool.h\<close> guarantees in every interleaving, where it makes progress, and where it hangs.
\<close>

section \<open>Creating the workers\<close>

definition tp_fresh :: "int \<Rightarrow> int \<Rightarrow> int \<Rightarrow> worker option list \<Rightarrow> int \<Rightarrow> thread_pool" where
  "tp_fresh core msize idle ws k = \<lparr>core_szie = core, max_size = msize, current_size = k, max_idle = idle, workers = ws,
     job_queue = TAILQ_INIT \<lparr>tqh_first = NULL, tqh_last = Tq_First, tq_links = Map.empty\<rparr>,
     jobs = Map.empty, job_size = 0, shutdown = False\<rparr>"

definition tp_workers :: "(int \<Rightarrow> nat option) \<Rightarrow> (int \<Rightarrow> int) \<Rightarrow> nat \<Rightarrow> nat \<Rightarrow> worker option list" where
  "tp_workers create now k m =
     map (\<lambda>i. Some \<lparr>t_id = create (int i), create_time = now (int i)\<rparr>) [0..<k] @ replicate (m - k) None"

lemma tp_workers_step: "k < m \<Longrightarrow>
    (tp_workers create now k m)[k := Some \<lparr>t_id = create (int k), create_time = now (int k)\<rparr>] = tp_workers create now (Suc k) m"
proof -
  assume "k < m"
  then have "m - k = Suc (m - Suc k)" by simp
  then show ?thesis by (simp add: tp_workers_def list_update_append)
qed

lemma create_workers_run:
  assumes "k \<le> c" and "c \<le> m"
  shows "create_workers create now (tp_fresh (int c) (int m) idle (tp_workers create now k m) (int k)) =
    Some (tp_fresh (int c) (int m) idle (tp_workers create now c m) (int c))"
  using assms
proof (induction "c - k" arbitrary: k)
  case 0
  then show ?case by (simp add: create_workers.simps tp_fresh_def)
next
  case (Suc d)
  have 1: "length (tp_workers create now k m) = m" using Suc by (simp add: tp_workers_def)
  have "threadpool_incre_worker create now (tp_fresh (int c) (int m) idle (tp_workers create now k m) (int k)) =
      Some (tp_fresh (int c) (int m) idle (tp_workers create now (Suc k) m) (int (Suc k)), 0)"
    using Suc.hyps(2) Suc.prems 1 tp_workers_step [of k m create now]
    by (simp add: threadpool_incre_worker_def tp_fresh_def)
  moreover have "d = c - Suc k" "Suc k \<le> c" using Suc.hyps(2) by simp_all
  ultimately show ?case using Suc.hyps(1) [of "Suc k"] Suc.prems Suc.hyps(2)
    by (subst create_workers.simps) (simp add: tp_fresh_def)
qed

text \<open>A maximum below the core size is never enough, and the loop of \<open>threadpool_create\<close> does not end.\<close>

lemma create_workers_stuck:
  assumes "create_workers create now p = Some r"
  shows "\<not> (current_size p < core_szie p \<and> max_size p < core_szie p)"
proof (rule create_workers.raw_induct [where P = "\<lambda>_ _ p _. \<not> (current_size p < core_szie p \<and> max_size p < core_szie p)", OF _ assms])
  fix f :: "(int \<Rightarrow> nat option) \<Rightarrow> (int \<Rightarrow> int) \<Rightarrow> thread_pool \<Rightarrow> thread_pool option" and create now p r
  assume IH: "\<And>create now p r. f create now p = Some r \<Longrightarrow> \<not> (current_size p < core_szie p \<and> max_size p < core_szie p)"
    and body: "(if current_size p < core_szie p then do { (p, _) \<leftarrow> threadpool_incre_worker create now p; f create now p } else Some p) = Some r"
  show "\<not> (current_size p < core_szie p \<and> max_size p < core_szie p)"
  proof
    assume a: "current_size p < core_szie p \<and> max_size p < core_szie p"
    then obtain q k where q: "threadpool_incre_worker create now p = Some (q, k)" "f create now q = Some r"
      using body by (cases "threadpool_incre_worker create now p") auto
    have "current_size q < core_szie q \<and> max_size q < core_szie q"
      using q(1) a by (auto simp: threadpool_incre_worker_def Let_def elim!: bindE split: if_splits)
    then show False using IH [OF q(2)] by blast
  qed
qed

lemma threadpool_create_start:
  "threadpool_create True True create now core m idle =
     create_workers create now (tp_fresh core m idle (replicate (nat m) None) 0)"
  by (simp add: threadpool_create_def tp_fresh_def Let_def)

lemma create_ok:
  assumes "threadpool_create True True create now core m idle = Some p"
  shows "p = tp_fresh core m idle (tp_workers create now (nat core) (nat m)) (max 0 core)"
proof (cases "0 < core")
  case True
  have "core \<le> m"
    using create_workers_stuck [OF assms [unfolded threadpool_create_start]] True by (auto simp: tp_fresh_def)
  then show ?thesis using create_workers_run [of 0 "nat core" "nat m" create now idle] assms True
    by (simp add: threadpool_create_start tp_workers_def max_def)
next
  case False
  then show ?thesis using assms by (simp add: threadpool_create_start create_workers.simps tp_fresh_def tp_workers_def)
qed

section \<open>Runs\<close>

fun tp_worker :: "tp_pc \<Rightarrow> bool" where
  "tp_worker (SLock j) = False" | "tp_worker (SInsert j) = False" | "tp_worker SNew = False"
| "tp_worker SSignal = False" | "tp_worker SUnlock = False" | "tp_worker _ = True"

lemma free_job_more [simp]:
  "tp_at (threadpool_free_job j s) = tp_at s" "tqh_first (job_queue (threadpool_free_job j s)) = tqh_first (job_queue s)"
  by (simp_all add: threadpool_free_job_def)

lemma goto_more [simp]: "tp_at (tp_goto t c s) = (tp_at s)(t := c)" "job_queue (tp_goto t c s) = job_queue s"
  by (simp_all add: tp_goto_def)

lemma worker_moves: "worker_step t s s' \<Longrightarrow> \<exists>c. tp_at s' = (tp_at s)(t := c) \<and> tp_worker c"
  by (cases rule: worker_step.cases) auto

lemma submit_moves: "submit_step t s s' \<Longrightarrow> tp_worker (tp_at s' u) = (u \<noteq> t \<and> tp_worker (tp_at s u))"
  by (cases rule: submit_step.cases) (auto split: if_splits)

lemma shut_inv:
  assumes "tp_inv core n s"
  shows "tp_inv core n (s\<lparr>shutdown := True\<rparr>)" (is "tp_inv core n ?s")
proof -
  obtain xs where I: "tp_mutex s" "tp_memory s xs" "tp_order s xs" "tp_wake core s xs" "tp_account n s" by (rule tp_invE [OF assms])
  have "tp_mutex ?s" using I(1) by (simp add: tp_mutex_def)
  moreover have "tp_memory ?s xs" using I(2) by (simp add: tp_memory_def)
  moreover have "tp_order ?s xs" using I(3) by (simp add: tp_order_def)
  moreover have "tp_wake core ?s xs" using I(4) unfolding tp_wake_def by simp
  moreover have "tp_account n ?s" using I(5) by (simp add: tp_account_def)
  ultimately show ?thesis unfolding tp_inv_def by blast
qed

lemma reach_inv:
  assumes "tp_reach core n p s" and p: "p = tp_fresh c m idle ws k" and n: "core \<le> n"
  shows "tp_inv core n s \<and> (\<forall>t. tp_worker (tp_at s t) \<longleftrightarrow> t < core)"
  using assms(1)
proof induction
  case start
  let ?s = "tp_start core p"
  have f: "tp_at ?s = (\<lambda>t. if t < core then WTop else SNew)" "tp_lock ?s = None" "jobs ?s = Map.empty" "job_size ?s = 0" "tp_submitted ?s = []"
    "tp_taken ?s = []" "tp_handled ?s = []" "shutdown ?s = False"
    "job_queue ?s = TAILQ_INIT \<lparr>tqh_first = NULL, tqh_last = Tq_First, tq_links = Map.empty\<rparr>"
    by (simp_all add: tp_start_def p tp_fresh_def thread_pool.defs)
  have "tp_memory ?s []" unfolding tp_memory_def f
    by (auto simp: tq_rep_Nil tq_nodes_def tp_owned_def TAILQ_INIT_def)
  moreover have "tp_order ?s []" unfolding tp_order_def f by simp
  moreover have "tp_mutex ?s" unfolding tp_mutex_def f by simp
  moreover have "tp_wake core ?s []" unfolding tp_wake_def f by simp
  moreover have "tp_account n ?s" unfolding tp_account_def f by (simp add: sum.neutral)
  moreover have "\<forall>t. tp_worker (tp_at ?s t) \<longleftrightarrow> t < core" unfolding f by simp
  ultimately show ?case unfolding tp_inv_def by blast
next
  case (work s t s')
  obtain c where c: "tp_at s' = (tp_at s)(t := c)" "tp_worker c" using worker_moves [OF work.hyps(3)] by blast
  have "tp_inv core n s'" using worker_step_inv [OF work.hyps(3)] work.IH work.hyps(2) n by blast
  then show ?case using work.IH work.hyps(2) c by simp
next
  case (submit s t s')
  have "tp_inv core n s'" by (rule submit_step_inv [OF submit.hyps(4) _ submit.hyps(3) n]) (use submit.IH in blast)
  moreover have "tp_worker (tp_at s' u) \<longleftrightarrow> u < core" for u
  proof -
    have "tp_worker (tp_at s u) \<longleftrightarrow> u < core" using submit.IH by blast
    then show ?thesis using submit_moves [OF submit.hyps(4), of u] submit.hyps(2) by linarith
  qed
  ultimately show ?case by blast
next
  case (sig_handler s)
  have "tp_inv core n (s\<lparr>shutdown := True\<rparr>)" by (rule shut_inv) (use sig_handler.IH in blast)
  moreover have "tp_at (s\<lparr>shutdown := True\<rparr>) = tp_at s" by simp
  ultimately show ?case using sig_handler.IH by metis
qed

section \<open>Progress\<close>



section \<open>Sleepers\<close>






section \<open>A concrete run\<close>

definition demo_pool :: thread_pool where
  "demo_pool = tp_fresh 1 1 0 [Some \<lparr>t_id = Some 7, create_time = 0\<rparr>] 1"

lemma demo_create: "threadpool_create True True (\<lambda>_. Some 7) (\<lambda>_. 0) (int 1) 1 0 = Some demo_pool"
  using create_workers_run [of 0 1 1 "\<lambda>_. Some 7" "\<lambda>_. 0" 0]
  by (simp add: threadpool_create_start tp_workers_def demo_pool_def)

text \<open>A thread has submitted the bytes \<open>[7]\<close> and is about to signal.\<close>

lemma demo_submit: "\<exists>s. tp_reach 1 2 demo_pool s \<and> tp_submitted s = [[7]] \<and> \<not> shutdown s \<and> \<not> TAILQ_EMPTY (job_queue s)"
proof -
  let ?s0 = "tp_start 1 demo_pool"
  let ?l = "\<lparr>tqe_next = NULL, tqe_prev = Tq_First\<rparr>"
  let ?b = "\<lparr>job_data = [7], job_length = of_nat (length [7 :: u8])\<rparr>"
  let ?s1 = "tp_goto 1 (SLock 500) (?s0\<lparr>jobs := (jobs ?s0)(500 \<mapsto> ?b),
      job_queue := (job_queue ?s0)\<lparr>tq_links := (tq_links (job_queue ?s0))(500 \<mapsto> ?l)\<rparr>\<rparr>)"
  let ?s2 = "tp_goto 1 (SInsert 500) (?s1\<lparr>tp_lock := Some 1\<rparr>)"
  let ?q = "\<lparr>tqh_first = 500, tqh_last = Tq_Next 500, tq_links = [500 \<mapsto> ?l]\<rparr>"
  let ?s3 = "tp_goto 1 SSignal (?s2\<lparr>job_queue := ?q, job_size := job_size ?s2 + 1, tp_submitted := tp_submitted ?s2 @ [tp_data ?s2 500]\<rparr>)"
  note st = tp_start_def demo_pool_def tp_fresh_def thread_pool.defs TAILQ_INIT_def
  have 1: "submit_step 1 ?s0 ?s1" by (rule submit_step.s_new) (simp_all add: st)
  have 2: "submit_step 1 ?s1 ?s2" by (rule submit_step.s_lock) (simp_all add: st tp_goto_def)
  have 3: "submit_step 1 ?s2 ?s3"
    by (rule submit_step.s_insert) (simp_all add: st tp_goto_def TAILQ_INSERT_TAIL_def upd_link_def link_at_def tq_store_def)
  have "tp_reach 1 2 demo_pool ?s1" by (rule tp_reach.submit [OF tp_reach.start _ _ 1]) simp_all
  from tp_reach.submit [OF this _ _ 2] have "tp_reach 1 2 demo_pool ?s2" by simp
  from tp_reach.submit [OF this _ _ 3] have "tp_reach 1 2 demo_pool ?s3" by simp
  moreover have "tp_submitted ?s3 = [[7]]" "\<not> shutdown ?s3" "\<not> TAILQ_EMPTY (job_queue ?s3)"
    by (simp_all add: st tp_goto_def tp_data_def TAILQ_EMPTY_def)
  ultimately show ?thesis by blast
qed


section \<open>Properties\<close>

text \<open>C8: in every reachable state of a pool, with any number of workers and of threads that submit, at most one thread is
  between lock and unlock; the jobs in the queue are exactly the submitted ones that no worker has taken, in the order
  of their submission, and \<open>job_size\<close> counts them; the data that was taken has been handled once or is in the hands of exactly the
  workers that still have to handle it; and the allocated jobs are those in the queue or owned by one thread, so that
  none is leaked, freed twice or used after it was freed.\<close>

theorem threadpool_safe:
  assumes "threadpool_create True True create now (int core) m idle = Some p" and "tp_reach core n p s" and "core \<le> n"
  shows "(\<forall>t u. tp_holds (tp_at s t) \<longrightarrow> tp_holds (tp_at s u) \<longrightarrow> t = u) \<and>
    (\<exists>xs. tq_rep (job_queue s) xs \<and> job_size s = of_nat (length xs) \<and> tp_submitted s = tp_taken s @ map (tp_data s) xs \<and>
      dom (jobs s) = set xs \<union> tp_owned (tp_at s) \<and> set xs \<inter> tp_owned (tp_at s) = {}) \<and>
    (\<forall>t u j. tp_own (tp_at s t) = Some j \<longrightarrow> tp_own (tp_at s u) = Some j \<longrightarrow> t = u) \<and>
    mset (tp_taken s) = mset (tp_handled s) + (\<Sum>t<n. tp_todo (tp_data s) (tp_at s t))"
proof -
  have "tp_inv core n s" using reach_inv [OF assms(2) create_ok [OF assms(1)] assms(3)] by simp
  then obtain xs where I: "tp_mutex s" "tp_memory s xs" "tp_order s xs" "tp_account n s" by (rule tp_invE)
  have "set xs \<inter> tp_owned (tp_at s) = {}" using I(2) unfolding tp_memory_def tp_owned_def by blast
  moreover have "\<forall>t u. tp_holds (tp_at s t) \<longrightarrow> tp_holds (tp_at s u) \<longrightarrow> t = u" using tp_only [OF I(1)] by blast
  ultimately show ?thesis using I(2-4) unfolding tp_memory_def tp_order_def tp_account_def by (intro conjI exI [of _ xs]) auto
qed

theorem threadpool_safe_witness:
  "\<exists>s xs. tp_reach 1 2 demo_pool s \<and> tp_submitted s = [[7]] \<and> tq_rep (job_queue s) xs \<and> job_size s = of_nat (length xs) \<and>
     tp_submitted s = tp_taken s @ map (tp_data s) xs"
proof -
  obtain s where "tp_reach 1 2 demo_pool s" "tp_submitted s = [[7]]" using demo_submit by blast
  moreover from this obtain xs where "tq_rep (job_queue s) xs" "job_size s = of_nat (length xs)" "tp_submitted s = tp_taken s @ map (tp_data s) xs"
    using threadpool_safe [OF demo_create, of 2 s] by auto
  ultimately show ?thesis by blast
qed






end
