(* ===== verification/AddTwoNumbers.thy ===== *)
theory AddTwoNumbers
  imports CText Chains "HOL-Library.Signed_Division"
begin

text \<open>
  \<open>addTwoNumbers\<close> of \<open>demo_leetcode/1_*/main.c\<close>: the sum of two numbers given as linked lists of decimal digits, the
  lowest first.  Nodes live in a heap; where \<open>malloc\<close> puts the next node and what the memory holds before it is
  assigned are parameters.
\<close>

section \<open>Definitions\<close>

record list_node =
  ln_val :: int
  ln_next :: ptr

type_synonym nodes = "ptr \<Rightarrow> list_node option"

definition ln_at :: "nodes \<Rightarrow> ptr \<Rightarrow> list_node option" where
  "ln_at h p = (if p = NULL then None else h p)"

definition digit_at :: "nodes \<Rightarrow> ptr \<Rightarrow> int option" where
  "digit_at h p = (if p \<noteq> NULL then map_option ln_val (ln_at h p) else Some 0)"

definition step_at :: "nodes \<Rightarrow> ptr \<Rightarrow> ptr option" where
  "step_at h p = (if p \<noteq> NULL then map_option ln_next (ln_at h p) else Some p)"

text \<open>\<open>p->next = malloc(sizeof(struct ListNode))\<close>.\<close>

definition new_next :: "list_node \<Rightarrow> (nodes \<Rightarrow> ptr) \<Rightarrow> nodes \<Rightarrow> ptr \<Rightarrow> (nodes \<times> ptr) option" where
  "new_next junk new h p = do {
     let n = new h;
     k \<leftarrow> ln_at h p;
     ensure (n \<noteq> NULL);
     Some (h(p \<mapsto> k\<lparr>ln_next := n\<rparr>, n \<mapsto> junk), n) }"

partial_function (option) add_loop ::
  "list_node \<Rightarrow> (nodes \<Rightarrow> ptr) \<Rightarrow> nodes \<Rightarrow> ptr \<Rightarrow> ptr \<Rightarrow> ptr \<Rightarrow> int \<Rightarrow> (nodes \<times> ptr \<times> int) option" where
  "add_loop junk new h p1 p2 pres carry =
     (if p1 \<noteq> NULL \<or> p2 \<noteq> NULL then do {
        x \<leftarrow> digit_at h p1;
        y \<leftarrow> digit_at h p2;
        (h, n) \<leftarrow> new_next junk new h pres;
        ensure (int32 (x + y) \<and> int32 (x + y + carry));
        let h = h(n \<mapsto> \<lparr>ln_val = (x + y + carry) smod 10, ln_next = NULL\<rparr>);
        p1 \<leftarrow> step_at h p1;
        p2 \<leftarrow> step_at h p2;
        add_loop junk new h p1 p2 n ((x + y + carry) sdiv 10) }
      else Some (h, pres, carry))"

definition add_finish :: "list_node \<Rightarrow> (nodes \<Rightarrow> ptr) \<Rightarrow> nodes \<times> ptr \<times> int \<Rightarrow> nodes option" where
  "add_finish junk new r = (case r of (h, pres, carry) \<Rightarrow>
     if carry \<noteq> 0 then do {
       (h, n) \<leftarrow> new_next junk new h pres;
       Some (h(n \<mapsto> junk\<lparr>ln_val := 1\<rparr>)) }
     else Some h)"

definition addTwoNumbers :: "list_node \<Rightarrow> (nodes \<Rightarrow> ptr) \<Rightarrow> nodes \<Rightarrow> ptr \<Rightarrow> ptr \<Rightarrow> (nodes \<times> ptr) option" where
  "addTwoNumbers junk new h l1 l2 = do {
     let res = new h;
     ensure (res \<noteq> NULL);
     r \<leftarrow> add_loop junk new (h(res \<mapsto> junk)) l1 l2 res 0;
     h \<leftarrow> add_finish junk new r;
     n \<leftarrow> ln_at h res;
     Some (h, ln_next n) }"

section \<open>Numbers as lists\<close>

fun num :: "int list \<Rightarrow> int" where
  "num [] = 0" | "num (d # ds) = d + 10 * num ds"

definition digits :: "int list \<Rightarrow> bool" where
  "digits ds \<longleftrightarrow> (\<forall>d\<in>set ds. 0 \<le> d \<and> d \<le> 9)"

text \<open>The list at \<open>p\<close>, with nodes in \<open>A\<close>; the digits behind \<open>p\<close>, and where the last node points.\<close>

fun lst :: "nodes \<Rightarrow> ptr set \<Rightarrow> ptr \<Rightarrow> int list \<Rightarrow> bool" where
  "lst h A p [] = (p = NULL)"
| "lst h A p (d # ds) = (p \<noteq> NULL \<and> p \<in> A \<and> (\<exists>n. h p = Some n \<and> ln_val n = d \<and> lst h A (ln_next n) ds))"

fun behind :: "nodes \<Rightarrow> ptr \<Rightarrow> int list \<Rightarrow> ptr \<Rightarrow> bool" where
  "behind h p [] e = (\<exists>k. h p = Some k \<and> ln_next k = e)"
| "behind h p (d # ds) e = (\<exists>k m. h p = Some k \<and> ln_next k \<noteq> NULL \<and> h (ln_next k) = Some m \<and> ln_val m = d \<and> behind h (ln_next k) ds e)"

definition new_ok :: "(nodes \<Rightarrow> ptr) \<Rightarrow> bool" where
  "new_ok new \<longleftrightarrow> (\<forall>h. finite (dom h) \<longrightarrow> new h \<noteq> NULL \<and> h (new h) = None)"

lemma lst_frame: "lst h A p ds \<Longrightarrow> (\<And>q. q \<in> A \<Longrightarrow> h' q = h q) \<Longrightarrow> lst h' A p ds"
  by (induction h A p ds rule: lst.induct) auto

lemma lst_digit: "lst h A p ds \<Longrightarrow> digit_at h p = Some (case ds of [] \<Rightarrow> 0 | d # _ \<Rightarrow> d)"
  by (cases ds) (auto simp: digit_at_def ln_at_def)

lemma lst_step: "lst h A p ds \<Longrightarrow> \<exists>q. step_at h p = Some q \<and> lst h A q (tl ds)"
  by (cases ds) (auto simp: step_at_def ln_at_def)

lemma num_tl: "num ds = (case ds of [] \<Rightarrow> 0 | d # _ \<Rightarrow> d) + 10 * num (tl ds)"
  by (cases ds) auto

lemma digits_hd: "digits ds \<Longrightarrow> 0 \<le> (case ds of [] \<Rightarrow> 0 | d # _ \<Rightarrow> d) \<and> (case ds of [] \<Rightarrow> 0 | d # _ \<Rightarrow> d) \<le> 9"
  by (cases ds) (auto simp: digits_def)

lemma digits_tl: "digits ds \<Longrightarrow> digits (tl ds)"
  by (cases ds) (auto simp: digits_def)

lemma c_division: "0 \<le> (z :: int) \<Longrightarrow> z smod 10 = z mod 10 \<and> z sdiv 10 = z div 10"
  by (simp add: signed_modulo_int_def signed_divide_int_def sgn_if)

section \<open>The sum\<close>

lemma add_rest:
  assumes new: "new_ok new" and fin: "finite (dom h)" and "lst h A p1 xs" "lst h A p2 ys" "digits xs" "digits ys"
    and "A \<subseteq> dom h" "pres \<notin> A" "pres \<noteq> NULL" "h pres = Some k" "carry \<in> {0, 1}"
  shows "\<exists>h' ds e. (do { r \<leftarrow> add_loop junk new h p1 p2 pres carry; add_finish junk new r }) = Some h' \<and> behind h' pres ds e \<and>
    digits ds \<and> num ds = num xs + num ys + carry \<and> max (length xs) (length ys) \<le> length ds \<and> length ds \<le> Suc (max (length xs) (length ys)) \<and>
    (length ds = max (length xs) (length ys) \<longrightarrow> e = (if ds = [] then ln_next k else NULL)) \<and>
    (max (length xs) (length ys) < length ds \<longrightarrow> e = ln_next junk) \<and>
    (\<forall>q\<in>dom h. q \<noteq> pres \<longrightarrow> h' q = h q) \<and> map_option ln_val (h' pres) = Some (ln_val k)"
  using assms(2-)
proof (induction "max (length xs) (length ys)" arbitrary: h p1 p2 pres carry k xs ys)
  case 0
  then have e: "xs = []" "ys = []" "p1 = NULL" "p2 = NULL" by auto
  show ?case
  proof (cases "carry = 0")
    case True
    then show ?thesis using 0 e
      by (intro exI [of _ h] exI [of _ "[]"] exI [of _ "ln_next k"]) (simp add: add_loop.simps add_finish_def digits_def)
  next
    case False
    have n: "new h \<noteq> NULL" "h (new h) = None" using new 0(2) unfolding new_ok_def by auto
    have np: "new h \<noteq> pres" using n(2) 0 by auto
    let ?h = "h(pres \<mapsto> k\<lparr>ln_next := new h\<rparr>, new h \<mapsto> junk\<lparr>ln_val := 1\<rparr>)"
    have "(do { r \<leftarrow> add_loop junk new h p1 p2 pres carry; add_finish junk new r }) = Some ?h"
      using False e n 0 by (simp add: add_loop.simps add_finish_def new_next_def ln_at_def Let_def)
    then show ?thesis using False e n np 0
      by (intro exI [of _ ?h] exI [of _ "[1]"] exI [of _ "ln_next junk"]) (auto simp: digits_def)
  qed
next
  case (Suc m)
  have n: "new h \<noteq> NULL" "h (new h) = None" using new Suc.prems(1) unfolding new_ok_def by auto
  define x where "x = (case xs of [] \<Rightarrow> 0 | d # _ \<Rightarrow> d)"
  define y where "y = (case ys of [] \<Rightarrow> 0 | d # _ \<Rightarrow> d)"
  have xy: "0 \<le> x" "x \<le> 9" "0 \<le> y" "y \<le> 9" using digits_hd Suc.prems(4,5) unfolding x_def y_def by auto
  define z where "z = x + y + carry"
  have z: "0 \<le> z" "z \<le> 19" using xy Suc.prems(10) by (auto simp: z_def)
  define h1 where "h1 = h(pres \<mapsto> k\<lparr>ln_next := new h\<rparr>, new h \<mapsto> \<lparr>ln_val = z mod 10, ln_next = NULL\<rparr>)"
  have nA: "new h \<notin> A" "new h \<noteq> pres" using n(2) Suc.prems(6,9) by auto
  have A1: "h1 q = h q" if "q \<in> A" for q using that nA(1) Suc.prems(7) by (auto simp: h1_def)
  have l1: "lst h1 A p1 xs" "lst h1 A p2 ys" using lst_frame [OF Suc.prems(2)] lst_frame [OF Suc.prems(3)] A1 by blast+
  obtain q1 q2 where q: "step_at h1 p1 = Some q1" "lst h1 A q1 (tl xs)" "step_at h1 p2 = Some q2" "lst h1 A q2 (tl ys)"
    using lst_step [OF l1(1)] lst_step [OF l1(2)] by blast
  have ne: "p1 \<noteq> NULL \<or> p2 \<noteq> NULL" using Suc.hyps(2) Suc.prems(2,3) by (cases xs; cases ys) auto
  have run: "add_loop junk new h p1 p2 pres carry = add_loop junk new h1 q1 q2 (new h) (z div 10)"
    using ne lst_digit [OF Suc.prems(2)] lst_digit [OF Suc.prems(3)] n Suc.prems(8,9) q(1,3) xy z c_division [OF z(1)]
    by (subst add_loop.simps) (simp add: new_next_def ln_at_def Let_def int32_def x_def [symmetric] y_def [symmetric] z_def [symmetric] h1_def)
  have m: "m = max (length (tl xs)) (length (tl ys))" using Suc.hyps(2) by simp
  have d1: "finite (dom h1)" "A \<subseteq> dom h1" using Suc.prems(1,6) by (auto simp: h1_def)
  have c1: "z div 10 \<in> {0, 1}" using z by auto
  have k1: "h1 (new h) = Some \<lparr>ln_val = z mod 10, ln_next = NULL\<rparr>" by (simp add: h1_def)
  from Suc.hyps(1) [OF m d1(1) q(2,4) digits_tl [OF Suc.prems(4)] digits_tl [OF Suc.prems(5)] d1(2) nA(1) n(1) k1 c1]
  obtain h' ds e where r: "(do { r \<leftarrow> add_loop junk new h1 q1 q2 (new h) (z div 10); add_finish junk new r }) = Some h'" "behind h' (new h) ds e"
    "digits ds" "num ds = num (tl xs) + num (tl ys) + z div 10" "m \<le> length ds" "length ds \<le> Suc m"
    "length ds = m \<longrightarrow> e = (if ds = [] then ln_next \<lparr>ln_val = z mod 10, ln_next = NULL\<rparr> else NULL)" "m < length ds \<longrightarrow> e = ln_next junk"
    "\<forall>q\<in>dom h1. q \<noteq> new h \<longrightarrow> h' q = h1 q" "map_option ln_val (h' (new h)) = Some (ln_val \<lparr>ln_val = z mod 10, ln_next = NULL\<rparr>)"
    unfolding m [symmetric] by (elim exE conjE) (rule that)
  note r = r(1-6) r(7) [simplified] r(8,9) r(10) [simplified]
  have hp: "h' pres = Some (k\<lparr>ln_next := new h\<rparr>)" using r(9) nA(2) by (auto simp: h1_def)
  have "behind h' pres (z mod 10 # ds) e" using hp r(2,10) n(1) by auto
  moreover have "digits (z mod 10 # ds)" using r(3) by (auto simp: digits_def)
  moreover have "num (z mod 10 # ds) = num xs + num ys + carry"
    using r(4) num_tl [of xs] num_tl [of ys] by (simp add: z_def x_def y_def algebra_simps)
  moreover have "\<forall>q\<in>dom h. q \<noteq> pres \<longrightarrow> h' q = h q"
  proof (intro ballI impI)
    fix q assume "q \<in> dom h" "q \<noteq> pres"
    then have "q \<noteq> new h" "q \<in> dom h1" using n(2) by (auto simp: h1_def)
    then show "h' q = h q" using r(9) \<open>q \<noteq> pres\<close> by (auto simp: h1_def)
  qed
  moreover have M: "max (length xs) (length ys) = Suc m" using Suc.hyps(2) by simp
  moreover have "(do { r \<leftarrow> add_loop junk new h p1 p2 pres carry; add_finish junk new r }) = Some h'" using run r(1) by simp
  moreover have "map_option ln_val (h' pres) = Some (ln_val k)" using hp by simp
  ultimately show ?case using r(5-8)
    by (intro exI [of _ h'] exI [of _ "z mod 10 # ds"] exI [of _ e] conjI) (simp_all only: M, simp_all)
qed

text \<open>The digits from \<open>p\<close> on, and where the last node points.\<close>

fun digits_to :: "nodes \<Rightarrow> ptr \<Rightarrow> int list \<Rightarrow> ptr \<Rightarrow> bool" where
  "digits_to h p [] e = (p = e)"
| "digits_to h p (d # ds) e = (p \<noteq> NULL \<and> (\<exists>n. h p = Some n \<and> ln_val n = d \<and> digits_to h (ln_next n) ds e))"

lemma behind_digits_to: "behind h p ds e \<Longrightarrow> h p = Some k \<Longrightarrow> digits_to h (ln_next k) ds e"
  by (induction h p ds e arbitrary: k rule: behind.induct) auto

text \<open>C22: on two lists of decimal digits addTwoNumbers runs safely, leaves both lists as they are and returns
  the digits of their sum, as many as the longer list has or one more.  The last node ends the list only when there is
  no extra digit: the next pointer of the node for the final carry, and the result of adding two empty lists, is whatever
  malloc left in the memory.
\<close>

theorem addTwoNumbers_adds:
  assumes "new_ok new" "finite (dom h)" "lst h A l1 xs" "lst h A l2 ys" "digits xs" "digits ys" "A \<subseteq> dom h"
  shows "\<exists>h' r ds e. addTwoNumbers junk new h l1 l2 = Some (h', r) \<and> digits_to h' r ds e \<and>
    digits ds \<and> num ds = num xs + num ys \<and> (\<forall>q\<in>dom h. h' q = h q) \<and>
    (length ds = max (length xs) (length ys) \<and> e = (if ds = [] then ln_next junk else NULL) \<or>
     length ds = Suc (max (length xs) (length ys)) \<and> e = ln_next junk)"
proof -
  let ?r = "new h"
  have n: "?r \<noteq> NULL" "h ?r = None" "?r \<notin> A" using assms(1,2,7) unfolding new_ok_def by auto
  let ?h = "h(?r \<mapsto> junk)"
  have l: "lst ?h A l1 xs" "lst ?h A l2 ys" using lst_frame [OF assms(3)] lst_frame [OF assms(4)] n(3) by fastforce+
  have d: "finite (dom ?h)" "A \<subseteq> dom ?h" "?h ?r = Some junk" "(0 :: int) \<in> {0, 1}" using assms(2,7) by auto
  from add_rest [where junk = junk, OF assms(1) d(1) l assms(5,6) d(2) n(3,1) d(3,4)]
  obtain h' ds e where r: "(do { r \<leftarrow> add_loop junk new ?h l1 l2 ?r 0; add_finish junk new r }) = Some h'" "behind h' ?r ds e"
    "digits ds" "num ds = num xs + num ys + 0" "max (length xs) (length ys) \<le> length ds" "length ds \<le> Suc (max (length xs) (length ys))"
    "length ds = max (length xs) (length ys) \<longrightarrow> e = (if ds = [] then ln_next junk else NULL)"
    "max (length xs) (length ys) < length ds \<longrightarrow> e = ln_next junk"
    "\<forall>q\<in>dom ?h. q \<noteq> ?r \<longrightarrow> h' q = ?h q" "map_option ln_val (h' ?r) = Some (ln_val junk)"
    by (elim exE conjE) (rule that)
  obtain k where k: "h' ?r = Some k" using r(10) by auto
  have "addTwoNumbers junk new h l1 l2 = Some (h', ln_next k)"
    using r(1) k n(1) unfolding addTwoNumbers_def by (auto simp: Let_def ln_at_def split: bind_splits)
  moreover have "\<forall>q\<in>dom h. h' q = h q"
  proof
    fix q assume "q \<in> dom h"
    then have "q \<noteq> ?r" "q \<in> dom ?h" using n(2) by auto
    then show "h' q = h q" using r(9) by simp
  qed
  moreover have "length ds = max (length xs) (length ys) \<or> length ds = Suc (max (length xs) (length ys))" using r(5,6) by linarith
  ultimately show ?thesis using r(3,4,7,8) behind_digits_to [OF r(2) k]
    by (intro exI [of _ h'] exI [of _ "ln_next k"] exI [of _ ds] exI [of _ e] conjI) auto
qed

definition add_example :: nodes where
  "add_example = [1 \<mapsto> \<lparr>ln_val = 1, ln_next = 0\<rparr>, 2 \<mapsto> \<lparr>ln_val = 9, ln_next = 3\<rparr>, 3 \<mapsto> \<lparr>ln_val = 9, ln_next = 0\<rparr>]"

definition bump :: "nodes \<Rightarrow> ptr" where
  "bump h = Suc (Max (insert 0 (dom h)))"

lemma bump_ok: "new_ok bump"
  unfolding new_ok_def bump_def
proof (intro allI impI conjI)
  fix h :: nodes assume f: "finite (dom h)"
  show "h (Suc (Max (insert 0 (dom h)))) = None"
  proof (rule ccontr)
    assume "h (Suc (Max (insert 0 (dom h)))) \<noteq> None"
    then have "Suc (Max (insert 0 (dom h))) \<le> Max (insert 0 (dom h))" using f by (intro Max_ge) auto
    then show False by simp
  qed
qed simp

text \<open>1 + 99, the numbers of the demo's main.\<close>

theorem addTwoNumbers_adds_witness:
  "\<exists>h' r ds e. addTwoNumbers \<lparr>ln_val = 7, ln_next = 5\<rparr> bump add_example 1 2 = Some (h', r) \<and> digits_to h' r ds e \<and> num ds = 100"
proof -
  have "finite (dom add_example)" "lst add_example {1, 2, 3} 1 [1]" "lst add_example {1, 2, 3} 2 [9, 9]"
    "digits [1]" "digits [9, 9]" "{1, 2, 3} \<subseteq> dom add_example"
    by (simp_all add: add_example_def digits_def)
  from addTwoNumbers_adds [OF bump_ok this, of "\<lparr>ln_val = 7, ln_next = 5\<rparr>"]
  obtain h' r ds e where "addTwoNumbers \<lparr>ln_val = 7, ln_next = 5\<rparr> bump add_example 1 2 = Some (h', r)"
    "digits_to h' r ds e" "num ds = num [1] + num [9, 9]"
    by (elim exE conjE) (rule that)
  then show ?thesis by (intro exI [of _ h'] exI [of _ r] exI [of _ ds] exI [of _ e]) simp
qed

end
