(* ===== verification/IpAddr.thy ===== *)
theory IpAddr
  imports CText
begin

text \<open>
  IPv4 addresses as dotted text and as 32-bit numbers, \<open>demo_ipaddr/demo_ip_int.c\<close>.  The buffer that holds a
  text is a list of characters with a zero byte as terminator; \<open>ip2int\<close> writes into it.  The shift of the
  \<open>int\<close> result of \<open>atoi\<close> into the sign bit is the shift of the 32-bit word, as the compilers the repository
  builds with define it.
\<close>

section \<open>Definitions\<close>

abbreviation (input) NUL :: char where
  "NUL \<equiv> CHR 0x00"

text \<open>\<open>atoi\<close>: white space, a sign, digits; a value outside of \<open>int\<close> is undefined.\<close>

definition is_space :: "char \<Rightarrow> bool" where
  "is_space c \<longleftrightarrow> code c = 32 \<or> 9 \<le> code c \<and> code c \<le> 13"

fun atoi_digits :: "int \<Rightarrow> cstr \<Rightarrow> int option" where
  "atoi_digits n [] = None"
| "atoi_digits n (c # r) = (if is_digit c then atoi_digits (10 * n + (int (code c) - 48)) r else Some n)"

definition atoi :: "cstr \<Rightarrow> int option" where
  "atoi s = do {
     let s = dropWhile is_space s;
     c \<leftarrow> get_at s 0;
     n \<leftarrow> (if c = CHR ''-'' then map_option uminus (atoi_digits 0 (tl s))
          else if c = CHR ''+'' then atoi_digits 0 (tl s)
          else atoi_digits 0 s);
     ensure (int32 n);
     Some n }"

text \<open>\<open>ip_32 |= atoi(offset) << shift\<close>.\<close>

definition or_octet :: "u32 \<Rightarrow> cstr \<Rightarrow> nat \<Rightarrow> int \<Rightarrow> u32 option" where
  "or_octet ip_32 buf offset shift = do {
     a \<leftarrow> atoi (drop offset buf);
     ensure (0 \<le> shift \<and> shift < 32);
     Some (ip_32 OR push_bit (nat shift) (word_of_int a)) }"

partial_function (option) ip2int_loop :: "cstr \<Rightarrow> nat \<Rightarrow> nat \<Rightarrow> int \<Rightarrow> u32 \<Rightarrow> (cstr \<times> nat \<times> u32) option" where
  "ip2int_loop buf p offset index ip_32 = do {
     c \<leftarrow> get_at buf p;
     if c = NUL then Some (buf, offset, ip_32)
     else if c = CHR ''.'' then do {
       buf \<leftarrow> put_at buf p NUL;
       ip_32 \<leftarrow> or_octet ip_32 buf offset (index * 8);
       ip2int_loop buf (p + 1) (p + 1) (index - 1) ip_32 }
     else ip2int_loop buf (p + 1) offset index ip_32 }"

definition ip2int :: "cstr \<Rightarrow> (cstr \<times> u32) option" where
  "ip2int ip = do {
     (buf, offset, ip_32) \<leftarrow> ip2int_loop ip 0 0 3 0;
     ip_32 \<leftarrow> or_octet ip_32 buf offset 0;
     Some (buf, ip_32) }"

text \<open>\<open>snprintf\<close> writes at most \<open>len\<close> bytes, the terminator among them, and returns the length of the whole text.\<close>

definition snprintf :: "cstr \<Rightarrow> nat \<Rightarrow> cstr \<Rightarrow> (cstr \<times> nat) option" where
  "snprintf buf len str =
     (if len = 0 then Some (buf, length str)
      else do {
        let out = take (len - 1) str @ [NUL];
        ensure (length out \<le> length buf);
        Some (out @ drop (length out) buf, length str) })"

definition show_octet :: "u32 \<Rightarrow> cstr" where
  "show_octet x = show_int (sint x)"

definition int2ip :: "u32 \<Rightarrow> cstr \<Rightarrow> nat \<Rightarrow> (cstr \<times> nat) option" where
  "int2ip ip_32 buf len = snprintf buf len
     (show_octet (drop_bit 24 ip_32 AND 255) @ ''.'' @
      show_octet (drop_bit 24 (push_bit 8 ip_32) AND 255) @ ''.'' @
      show_octet (drop_bit 24 (push_bit 16 ip_32) AND 255) @ ''.'' @
      show_octet (ip_32 AND 255))"

section \<open>Reading decimal text\<close>

lemma atoi_digits_show:
  "atoi_digits k (show_nat n @ r) = atoi_digits (k * 10 ^ length (show_nat n) + int n) r"
proof (induction n arbitrary: k r rule: show_nat.induct)
  case (1 n)
  have step: "atoi_digits k (char_of (48 + d) # r) = atoi_digits (10 * k + int d) r" if "d < 10" for d k r
    using is_digit_digit [OF that] that by simp
  show ?case
  proof (cases "n < 10")
    case True
    then show ?thesis using step [of n] by (simp add: show_nat.simps [of n] algebra_simps)
  next
    case False
    have "int n = 10 * int (n div 10) + int (n mod 10)" by (simp add: zdiv_int zmod_int)
    then show ?thesis using False step [of "n mod 10"] "1.IH" [OF False]
      by (simp add: show_nat.simps [of n] algebra_simps)
  qed
qed

lemma digit_not_space: "is_digit c \<Longrightarrow> \<not> is_space c \<and> c \<noteq> CHR ''-'' \<and> c \<noteq> CHR ''+'' \<and> c \<noteq> NUL \<and> c \<noteq> CHR ''.''"
  by (auto simp: is_digit_def is_space_def code_def)

lemma atoi_show:
  assumes "n < 2 ^ 31" "\<not> is_digit c"
  shows "atoi (show_nat n @ c # r) = Some (int n)"
proof -
  obtain d t where d: "show_nat n = d # t" "is_digit d" using show_nat_hd by blast
  have i: "int32 (int n)" using assms(1) by (simp add: int32_def)
  have a: "atoi_digits 0 (show_nat n @ c # r) = Some (int n)" using assms(2) by (simp add: atoi_digits_show)
  show ?thesis using a digit_not_space [OF d(2)] i unfolding atoi_def d(1) by (simp add: Let_def)
qed

lemma loop_dot:
  assumes "get_at buf p = Some CHR ''.''"
  shows "ip2int_loop buf p off idx ip = do {
    buf \<leftarrow> put_at buf p NUL;
    ip \<leftarrow> or_octet ip buf off (idx * 8);
    ip2int_loop buf (p + 1) (p + 1) (idx - 1) ip }"
  using assms by (subst ip2int_loop.simps) simp

lemma loop_nul: "get_at buf p = Some NUL \<Longrightarrow> ip2int_loop buf p off idx ip = Some (buf, off, ip)"
  by (subst ip2int_loop.simps) simp

lemma get_at_mid: "get_at (pre @ ds @ c # r) (length pre + length ds) = Some c"
  and put_at_mid: "put_at (pre @ ds @ c # r) (length pre + length ds) d = Some (pre @ ds @ d # r)"
  by (simp_all add: nth_append list_update_append)

lemma loop_skip:
  assumes "list_all is_digit ds"
  shows "ip2int_loop (pre @ ds @ r) (length pre) off idx ip = ip2int_loop (pre @ ds @ r) (length pre + length ds) off idx ip"
  using assms
proof (induction ds arbitrary: pre)
  case (Cons d ds)
  have "ip2int_loop (pre @ (d # ds) @ r) (length pre) off idx ip = ip2int_loop ((pre @ [d]) @ ds @ r) (length (pre @ [d])) off idx ip"
    using digit_not_space [of d] Cons.prems by (subst ip2int_loop.simps) (simp add: nth_append)
  then show ?case using Cons.IH [of "pre @ [d]"] Cons.prems by simp
qed simp

lemma loop_octet:
  assumes "n < 256" "0 \<le> idx" "idx \<le> 3" "off = length pre"
  shows "ip2int_loop (pre @ show_nat n @ CHR ''.'' # r) (length pre) off idx ip =
    ip2int_loop ((pre @ show_nat n @ [NUL]) @ r) (length (pre @ show_nat n @ [NUL])) (length (pre @ show_nat n @ [NUL])) (idx - 1)
      (ip OR push_bit (nat (idx * 8)) (of_nat n))"
proof -
  have a: "atoi (show_nat n @ NUL # r) = Some (int n)" using assms(1) by (intro atoi_show) (auto simp: is_digit_def code_def)
  show ?thesis
    using a assms(2-4) unfolding loop_skip [OF show_nat_digits] loop_dot [OF get_at_mid] put_at_mid
    by (simp add: or_octet_def)
qed

lemma loop_end:
  assumes "n < 256" "off = length pre"
  shows "ip2int_loop (pre @ show_nat n @ NUL # r) (length pre) off idx ip = Some (pre @ show_nat n @ NUL # r, off, ip)"
    "or_octet ip (pre @ show_nat n @ NUL # r) off 0 = Some (ip OR of_nat n)"
proof -
  have a: "atoi (show_nat n @ NUL # r) = Some (int n)" using assms(1) by (intro atoi_show) (auto simp: is_digit_def code_def)
  show "ip2int_loop (pre @ show_nat n @ NUL # r) (length pre) off idx ip = Some (pre @ show_nat n @ NUL # r, off, ip)"
    unfolding loop_skip [OF show_nat_digits] by (rule loop_nul [OF get_at_mid])
  show "or_octet ip (pre @ show_nat n @ NUL # r) off 0 = Some (ip OR of_nat n)"
    using a assms(2) by (simp add: or_octet_def)
qed

section \<open>Octets\<close>

lemma show_octet_byte: "show_octet (x AND 255) = show_nat (unat (x AND 255)) \<and> unat (x AND 255) < 256"
proof -
  have b: "unat (x AND 255) < 256" using unat_and_le2 [of x 255] by simp
  then have "sint (x AND 255) = int (unat (x AND 255))" by (intro sint_small) auto
  with b show ?thesis by (simp add: show_octet_def show_int_def)
qed

lemma join_octets:
  "(0 OR push_bit 24 (drop_bit 24 x AND 255) OR push_bit 16 (drop_bit 24 (push_bit 8 x) AND 255) OR
    push_bit 8 (drop_bit 24 (push_bit 16 x) AND 255) OR x AND 255) = (x :: u32)"
proof -
  have m: "(255 :: u32) = mask 8" by (simp add: mask_eq_exp_minus_1)
  show ?thesis unfolding m
  proof (rule bit_word_eqI)
    fix n assume "n < LENGTH(32)"
    then have "n < 32" by simp
    then have "n < 8 \<or> (\<exists>k. n = 8 + k \<and> k < 8) \<or> (\<exists>k. n = 16 + k \<and> k < 8) \<or> (\<exists>k. n = 24 + k \<and> k < 8)" by presburger
    then consider "n < 8" | k where "n = 8 + k" "k < 8" | k where "n = 16 + k" "k < 8" | k where "n = 24 + k" "k < 8"
      by blast
    then show "bit (0 OR push_bit 24 (drop_bit 24 x AND mask 8) OR push_bit 16 (drop_bit 24 (push_bit 8 x) AND mask 8) OR
      push_bit 8 (drop_bit 24 (push_bit 16 x) AND mask 8) OR x AND mask 8) n = bit x n"
      by cases (auto simp: bit_or_iff bit_and_iff bit_push_bit_iff bit_drop_bit_eq bit_mask_iff)
  qed
qed

text \<open>C24: int2ip with a buffer of at least sixteen bytes writes the whole address and its terminator inside the buffer and
  returns the length of the text, and ip2int reads the same number back.
\<close>

theorem ip_roundtrip:
  assumes "16 \<le> len" "len \<le> length buf"
  shows "\<exists>buf' n buf''. int2ip ip_32 buf len = Some (buf', n) \<and> n < 16 \<and> length buf' = length buf \<and> buf' ! n = NUL \<and>
    drop (Suc n) buf' = drop (Suc n) buf \<and> ip2int buf' = Some (buf'', ip_32)"
proof -
  define a where "a = unat (drop_bit 24 ip_32 AND 255)"
  define b where "b = unat (drop_bit 24 (push_bit 8 ip_32) AND 255)"
  define c where "c = unat (drop_bit 24 (push_bit 16 ip_32) AND 255)"
  define d where "d = unat (ip_32 AND 255)"
  have lt: "a < 256" "b < 256" "c < 256" "d < 256" unfolding a_def b_def c_def d_def using show_octet_byte by blast+
  define t where "t = show_nat a @ ''.'' @ show_nat b @ ''.'' @ show_nat c @ ''.'' @ show_nat d"
  have l: "length t < 16" using length_show_byte [OF lt(1)] length_show_byte [OF lt(2)] length_show_byte [OF lt(3)] length_show_byte [OF lt(4)]
    by (simp add: t_def)
  define r where "r = drop (Suc (length t)) buf"
  have i: "int2ip ip_32 buf len = Some (t @ NUL # r, length t)"
    using l assms show_octet_byte by (simp add: int2ip_def snprintf_def t_def a_def b_def c_def d_def r_def)
  have r: "length (t @ NUL # r) = length buf" using l assms by (simp add: r_def)
  let ?p1 = "show_nat a @ [NUL]" let ?p2 = "?p1 @ show_nat b @ [NUL]" let ?p3 = "?p2 @ show_nat c @ [NUL]"
  have "ip2int_loop (t @ NUL # r) 0 0 3 0 =
    Some (?p3 @ show_nat d @ NUL # r, length ?p3, 0 OR push_bit 24 (of_nat a) OR push_bit 16 (of_nat b) OR push_bit 8 (of_nat c))"
    using loop_octet [OF lt(1), of 3 0 "[]" "show_nat b @ ''.'' @ show_nat c @ ''.'' @ show_nat d @ NUL # r" 0]
      loop_octet [OF lt(2), of 2 "length ?p1" ?p1 "show_nat c @ ''.'' @ show_nat d @ NUL # r"]
      loop_octet [OF lt(3), of 1 "length ?p2" ?p2 "show_nat d @ NUL # r"]
      loop_end(1) [OF lt(4), of "length ?p3" ?p3 r] by (simp add: t_def or.assoc)
  then have "ip2int (t @ NUL # r) = Some (?p3 @ show_nat d @ NUL # r,
      0 OR push_bit 24 (of_nat a) OR push_bit 16 (of_nat b) OR push_bit 8 (of_nat c) OR of_nat d)"
    using loop_end(2) [OF lt(4), where off = "length ?p3" and pre = ?p3 and r = r] by (simp add: ip2int_def or.assoc)
  then have "ip2int (t @ NUL # r) = Some (?p3 @ show_nat d @ NUL # r, ip_32)"
    using join_octets [of ip_32] by (simp add: a_def b_def c_def d_def)
  moreover have "(t @ NUL # r) ! length t = NUL" "drop (Suc (length t)) (t @ NUL # r) = drop (Suc (length t)) buf" by (simp_all add: r_def)
  ultimately show ?thesis using i l r by blast
qed

theorem ip_roundtrip_witness:
  "\<exists>buf' n buf''. int2ip 0xC0A86401 (replicate 16 NUL) 16 = Some (buf', n) \<and> ip2int buf' = Some (buf'', 0xC0A86401)"
  using ip_roundtrip [of 16 "replicate 16 NUL" "0xC0A86401"] by auto

end
