(* ===== verification/QrText.thy ===== *)
theory QrText
  imports CPrelude
begin

text \<open>
  The QR code demo, \<open>demo_qrcode/demo_qrencode.c\<close>: a code is written as text, two rows of modules to a line, with the
  half-block characters of Unicode in UTF-8.  The library that encodes is a parameter; a file is the text written to it so
  far.  An access outside the array of modules is \<open>None\<close>; a code is at most 177 modules wide, so that index arithmetic stays far within \<open>int\<close>.
\<close>

section \<open>Definitions\<close>

record QRcode =
  qr_width :: int
  qr_data :: "u8 list"

record glyphs =
  g_white :: string
  g_reset :: string
  g_empty :: string
  g_lowhalf :: string
  g_uphalf :: string
  g_full :: string

definition margin :: int where
  "margin = 2"

definition fputs :: "string \<Rightarrow> string \<Rightarrow> string" where
  "fputs s fp = fp @ s"

partial_function (option) repeat_loop :: "string \<Rightarrow> int \<Rightarrow> int \<Rightarrow> string \<Rightarrow> string option" where
  "repeat_loop s x n fp = (if x < n then repeat_loop s (x + 1) n (fputs s fp) else Some fp)"

partial_function (option) margin_loop :: "glyphs \<Rightarrow> int \<Rightarrow> int \<Rightarrow> string \<Rightarrow> string option" where
  "margin_loop g realwidth y fp =
     (if y < margin div 2 then do {
        let fp = fputs (g_white g) fp;
        fp \<leftarrow> repeat_loop (g_full g) 0 realwidth fp;
        let fp = fputs [CHR 0x0A] (fputs (g_reset g) fp);
        margin_loop g realwidth (y + 1) fp }
      else Some fp)"

definition writeUTF8_margin :: "glyphs \<Rightarrow> int \<Rightarrow> string \<Rightarrow> string option" where
  "writeUTF8_margin g realwidth fp = margin_loop g realwidth 0 fp"

definition utf8_glyphs :: "int \<Rightarrow> int \<Rightarrow> glyphs" where
  "utf8_glyphs use_ansi invert = (
     let empty = '' '';
         lowhalf = [CHR 0xE2, CHR 0x96, CHR 0x84];
         uphalf = [CHR 0xE2, CHR 0x96, CHR 0x80];
         full = [CHR 0xE2, CHR 0x96, CHR 0x88];
         (empty, full) = (if invert \<noteq> 0 then (full, empty) else (empty, full));
         (lowhalf, uphalf) = (if invert \<noteq> 0 then (uphalf, lowhalf) else (lowhalf, uphalf));
         white = (if use_ansi \<noteq> 0
                  then if use_ansi = 2 then CHR 0x1B # ''[38;5;231m'' @ CHR 0x1B # ''[48;5;16m''
                       else CHR 0x1B # ''[40;37;1m''
                  else '''');
         reset = (if use_ansi \<noteq> 0 then CHR 0x1B # ''[0m'' else '''')
     in \<lparr>g_white = white, g_reset = reset, g_empty = empty, g_lowhalf = lowhalf, g_uphalf = uphalf, g_full = full\<rparr>)"

text \<open>\<open>row[x] & 1\<close> for the row that starts at index \<open>row\<close> of the data.\<close>

definition module_at :: "QRcode \<Rightarrow> int \<Rightarrow> int \<Rightarrow> bool option" where
  "module_at q row x = do {
     ensure (0 \<le> row + x);
     b \<leftarrow> get_at (qr_data q) (nat (row + x));
     Some (b AND 1 \<noteq> 0) }"

definition lower_at :: "QRcode \<Rightarrow> int \<Rightarrow> int \<Rightarrow> int \<Rightarrow> bool option" where
  "lower_at q y row2 x = (if y < qr_width q - 1 then module_at q row2 x else Some False)"

definition glyph_at :: "glyphs \<Rightarrow> QRcode \<Rightarrow> int \<Rightarrow> int \<Rightarrow> int \<Rightarrow> int \<Rightarrow> string option" where
  "glyph_at g q y row1 row2 x = do {
     up \<leftarrow> module_at q row1 x;
     if up then do {
       low \<leftarrow> lower_at q y row2 x;
       Some (if low then g_empty g else g_lowhalf g) }
     else do {
       low \<leftarrow> lower_at q y row2 x;
       Some (if low then g_uphalf g else g_full g) } }"

partial_function (option) row_loop :: "glyphs \<Rightarrow> QRcode \<Rightarrow> int \<Rightarrow> int \<Rightarrow> int \<Rightarrow> int \<Rightarrow> string \<Rightarrow> string option" where
  "row_loop g q y row1 row2 x fp =
     (if x < qr_width q then do {
        s \<leftarrow> glyph_at g q y row1 row2 x;
        row_loop g q y row1 row2 (x + 1) (fputs s fp) }
      else Some fp)"

partial_function (option) data_loop :: "glyphs \<Rightarrow> QRcode \<Rightarrow> int \<Rightarrow> string \<Rightarrow> string option" where
  "data_loop g q y fp =
     (if y < qr_width q then do {
        let row1 = y * qr_width q;
        let row2 = row1 + qr_width q;
        let fp = fputs (g_white g) fp;
        fp \<leftarrow> repeat_loop (g_full g) 0 margin fp;
        fp \<leftarrow> row_loop g q y row1 row2 0 fp;
        fp \<leftarrow> repeat_loop (g_full g) 0 margin fp;
        let fp = fputs [CHR 0x0A] (fputs (g_reset g) fp);
        data_loop g q (y + 2) fp }
      else Some fp)"

definition writeUTF8 :: "QRcode \<Rightarrow> string \<Rightarrow> int \<Rightarrow> int \<Rightarrow> (string \<times> int) option" where
  "writeUTF8 q fp use_ansi invert = do {
     let g = utf8_glyphs use_ansi invert;
     let realwidth = qr_width q + margin * 2;
     fp \<leftarrow> writeUTF8_margin g realwidth fp;
     fp \<leftarrow> data_loop g q 0 fp;
     fp \<leftarrow> writeUTF8_margin g realwidth fp;
     Some (fp, 0) }"

text \<open>The encoder: the functions of the library the program may call, and the two constants of its header it uses.\<close>

record qrlib =
  QR_ECLEVEL_L :: int
  QR_MODE_8 :: int
  QRcode_encodeDataMQR :: "int \<Rightarrow> string \<Rightarrow> int \<Rightarrow> int \<Rightarrow> QRcode option"
  QRcode_encodeStringMQR :: "string \<Rightarrow> int \<Rightarrow> int \<Rightarrow> int \<Rightarrow> int \<Rightarrow> QRcode option"
  QRcode_encodeData :: "int \<Rightarrow> string \<Rightarrow> int \<Rightarrow> int \<Rightarrow> QRcode option"
  QRcode_encodeString :: "string \<Rightarrow> int \<Rightarrow> int \<Rightarrow> int \<Rightarrow> int \<Rightarrow> QRcode option"

record qropts =
  o_casesensitive :: int
  o_eightbit :: int
  o_version :: int
  o_micro :: int
  o_level :: int
  o_hint :: int

definition qr_options :: "qrlib \<Rightarrow> qropts" where
  "qr_options lib = \<lparr>o_casesensitive = 1, o_eightbit = 0, o_version = 0, o_micro = 0,
     o_level = QR_ECLEVEL_L lib, o_hint = QR_MODE_8 lib\<rparr>"

definition encode :: "qrlib \<Rightarrow> qropts \<Rightarrow> string \<Rightarrow> int \<Rightarrow> QRcode option" where
  "encode lib opt intext len =
     (if o_micro opt \<noteq> 0 then
        if o_eightbit opt \<noteq> 0 then QRcode_encodeDataMQR lib len intext (o_version opt) (o_level opt)
        else QRcode_encodeStringMQR lib intext (o_version opt) (o_level opt) (o_hint opt) (o_casesensitive opt)
      else if o_eightbit opt \<noteq> 0 then QRcode_encodeData lib len intext (o_version opt) (o_level opt)
      else QRcode_encodeString lib intext (o_version opt) (o_level opt) (o_hint opt) (o_casesensitive opt))"

definition printQRcode :: "qrlib \<Rightarrow> qropts \<Rightarrow> string \<Rightarrow> string \<Rightarrow> int \<Rightarrow> (string \<times> int) option" where
  "printQRcode lib opt fp intext len = (case encode lib opt intext len of
      None \<Rightarrow> Some (fp, -1)
    | Some q \<Rightarrow> writeUTF8 q fp 0 0)"

section \<open>The text in closed form\<close>

definition qr_ok :: "QRcode \<Rightarrow> bool" where
  "qr_ok q \<longleftrightarrow> 0 \<le> qr_width q \<and> length (qr_data q) = nat (qr_width q) * nat (qr_width q)"

text \<open>The module in row \<open>y\<close> and column \<open>x\<close>: dark or light.\<close>

definition dark :: "QRcode \<Rightarrow> nat \<Rightarrow> nat \<Rightarrow> bool" where
  "dark q y x \<longleftrightarrow> qr_data q ! (y * nat (qr_width q) + x) AND 1 \<noteq> 0"

definition pick :: "glyphs \<Rightarrow> bool \<Rightarrow> bool \<Rightarrow> string" where
  "pick g up low = (if up then if low then g_empty g else g_lowhalf g else if low then g_uphalf g else g_full g)"

definition row_glyphs :: "glyphs \<Rightarrow> QRcode \<Rightarrow> nat \<Rightarrow> string list" where
  "row_glyphs g q y = map (\<lambda>x. pick g (dark q y x) (Suc y < nat (qr_width q) \<and> dark q (Suc y) x)) [0..<nat (qr_width q)]"

definition repeated :: "nat \<Rightarrow> string \<Rightarrow> string" where
  "repeated n s = concat (replicate n s)"

definition framed :: "glyphs \<Rightarrow> string \<Rightarrow> string" where
  "framed g s = g_white g @ s @ g_reset g"

definition data_lines :: "glyphs \<Rightarrow> QRcode \<Rightarrow> string list" where
  "data_lines g q = map (\<lambda>j. framed g (repeated 2 (g_full g) @ concat (row_glyphs g q (2 * j)) @ repeated 2 (g_full g)))
     [0..<(nat (qr_width q) + 1) div 2]"

definition margin_line :: "glyphs \<Rightarrow> QRcode \<Rightarrow> string" where
  "margin_line g q = framed g (repeated (nat (qr_width q) + 4) (g_full g))"

definition lines_text :: "string list \<Rightarrow> string" where
  "lines_text ls = concat (map (\<lambda>l. l @ [CHR 0x0A]) ls)"

lemma repeat_loop_eq: "repeat_loop s x (x + int n) fp = Some (fp @ repeated n s)"
proof (induction n arbitrary: x fp)
  case (Suc n)
  have "repeat_loop s x (x + int (Suc n)) fp = repeat_loop s (x + 1) ((x + 1) + int n) (fputs s fp)"
    by (subst repeat_loop.simps) (simp add: algebra_simps)
  also have "\<dots> = Some (fp @ repeated (Suc n) s)" unfolding Suc.IH by (simp add: fputs_def repeated_def)
  finally show ?case .
qed (simp add: repeat_loop.simps repeated_def)

lemma repeat_from_0: "0 \<le> n \<Longrightarrow> repeat_loop s 0 n fp = Some (fp @ repeated (nat n) s)"
  using repeat_loop_eq [of s 0 "nat n" fp] by simp

lemma writeUTF8_margin_eq:
  "0 \<le> w \<Longrightarrow> writeUTF8_margin g w fp = Some (fp @ framed g (repeated (nat w) (g_full g)) @ [CHR 0x0A])"
  unfolding writeUTF8_margin_def
  by (simp add: margin_loop.simps [of g w 0] margin_loop.simps [of g w 1] margin_def repeat_from_0 fputs_def framed_def Let_def)

lemma index_bound: "y < w \<Longrightarrow> x < w \<Longrightarrow> y * w + x < w * (w :: nat)"
proof -
  assume "y < w" "x < w"
  then have "y * w + x < Suc y * w" by simp
  also have "\<dots> \<le> w * w" using \<open>y < w\<close> by (intro mult_le_mono1) simp
  finally show ?thesis .
qed

lemma module_at_eq:
  assumes "qr_ok q" "y < nat (qr_width q)" "x < nat (qr_width q)"
  shows "module_at q (int y * qr_width q) (int x) = Some (dark q y x)"
proof -
  obtain w where w: "qr_width q = int w" using assms(1) unfolding qr_ok_def by (metis nonneg_int_cases)
  have e: "int y * qr_width q + int x = int (y * w + x)" unfolding w by simp
  have "y * w + x < length (qr_data q)" using index_bound assms w unfolding qr_ok_def by simp
  then show ?thesis unfolding module_at_def e nat_int by (simp add: dark_def w)
qed

lemma glyph_at_eq:
  assumes "qr_ok q" "y < nat (qr_width q)" "x < nat (qr_width q)"
  shows "glyph_at g q (int y) (int y * qr_width q) (int y * qr_width q + qr_width q) (int x) =
    Some (pick g (dark q y x) (Suc y < nat (qr_width q) \<and> dark q (Suc y) x))"
proof -
  have r: "int y * qr_width q + qr_width q = int (Suc y) * qr_width q" by (simp add: algebra_simps)
  have "lower_at q (int y) (int y * qr_width q + qr_width q) (int x) = Some (Suc y < nat (qr_width q) \<and> dark q (Suc y) x)"
    using module_at_eq [OF assms(1) _ assms(3), of "Suc y"] unfolding lower_at_def r by auto
  then show ?thesis by (simp add: glyph_at_def module_at_eq [OF assms] pick_def)
qed

lemma row_loop_eq:
  assumes "qr_ok q" "y < nat (qr_width q)" "x + n = nat (qr_width q)"
  shows "row_loop g q (int y) (int y * qr_width q) (int y * qr_width q + qr_width q) (int x) fp =
    Some (fp @ concat (map (\<lambda>x. pick g (dark q y x) (Suc y < nat (qr_width q) \<and> dark q (Suc y) x)) [x..<nat (qr_width q)]))"
  using assms(3)
proof (induction n arbitrary: x fp)
  case 0
  then show ?case by (simp add: row_loop.simps)
next
  case (Suc n)
  have x: "x < nat (qr_width q)" "int x < qr_width q" "Suc x + n = nat (qr_width q)" using Suc.prems by auto
  have i: "int x + 1 = int (Suc x)" by simp
  show ?case
    using x(2) by (subst row_loop.simps)
      (simp only: if_True glyph_at_eq [OF assms(1,2) x(1)] Option.bind.bind_lunit i Suc.IH [OF x(3)] upt_conv_Cons [OF x(1)] fputs_def list.map concat.simps append_assoc)
qed

lemma data_loop_eq:
  assumes "qr_ok q"
  shows "data_loop g q (int (2 * j)) fp = Some (fp @ lines_text (drop j (data_lines g q)))"
proof (induction "(nat (qr_width q) + 1) div 2 - j" arbitrary: j fp)
  case 0
  then have "\<not> int (2 * j) < qr_width q" by simp
  with 0 show ?case by (subst data_loop.simps) (simp add: data_lines_def lines_text_def)
next
  case (Suc n)
  have j: "2 * j < nat (qr_width q)" "int (2 * j) < qr_width q" "j < (nat (qr_width q) + 1) div 2"
    and n: "n = (nat (qr_width q) + 1) div 2 - Suc j" using Suc.hyps(2) by auto
  have i: "int (2 * j) + 2 = int (2 * Suc j)" by simp
  have row: "row_loop g q (int (2 * j)) (int (2 * j) * qr_width q) (int (2 * j) * qr_width q + qr_width q) 0 fp =
      Some (fp @ concat (row_glyphs g q (2 * j)))" for fp
    using row_loop_eq [OF assms j(1), of 0 "nat (qr_width q)" g fp] by (simp add: row_glyphs_def)
  have m: "repeat_loop (g_full g) 0 margin fp = Some (fp @ repeated 2 (g_full g))" for fp by (simp add: margin_def repeat_from_0)
  have d: "drop j (data_lines g q) =
      framed g (repeated 2 (g_full g) @ concat (row_glyphs g q (2 * j)) @ repeated 2 (g_full g)) # drop (Suc j) (data_lines g q)"
    using j(3) Cons_nth_drop_Suc [of j "data_lines g q"] by (simp add: data_lines_def del: upt_Suc)
  show ?case unfolding d using j(2)
    by (subst data_loop.simps) (simp only: if_True Let_def row m Option.bind.bind_lunit i Suc.hyps(1) [OF n] fputs_def, simp add: lines_text_def framed_def)
qed

lemma writeUTF8_eq:
  assumes "qr_ok q"
  shows "writeUTF8 q fp a i = Some (fp @ lines_text (margin_line (utf8_glyphs a i) q # data_lines (utf8_glyphs a i) q @ [margin_line (utf8_glyphs a i) q]), 0)"
proof -
  have w: "0 \<le> qr_width q + margin * 2" "nat (qr_width q + margin * 2) = nat (qr_width q) + 4"
    using assms by (auto simp: qr_ok_def margin_def)
  show ?thesis
    using data_loop_eq [OF assms, of "utf8_glyphs a i" 0]
    by (simp add: writeUTF8_def Let_def writeUTF8_margin_eq [OF w(1)] w(2) lines_text_def margin_line_def)
qed

section \<open>The text determines the code\<close>

text \<open>No character of a glyph or a colour is a line end, and no glyph begins another.\<close>

definition glyphs_ok :: "glyphs \<Rightarrow> bool" where
  "glyphs_ok g \<longleftrightarrow> CHR 0x0A \<notin> set (g_white g @ g_reset g @ g_empty g @ g_lowhalf g @ g_uphalf g @ g_full g) \<and> g_full g \<noteq> [] \<and>
     (\<forall>u l u' l' r r'. pick g u l @ r = pick g u' l' @ r' \<longrightarrow> u = u' \<and> l = l')"

lemma utf8_glyphs_ok: "glyphs_ok (utf8_glyphs a i)"
  unfolding glyphs_ok_def utf8_glyphs_def pick_def Let_def
  by (cases "i = 0"; cases "a = 0"; cases "a = 2") (simp_all split: if_splits)

lemma glyphs_okD:
  assumes "glyphs_ok g"
  shows "CHR 0x0A \<notin> set (g_white g)" "CHR 0x0A \<notin> set (g_reset g)" "CHR 0x0A \<notin> set (pick g u l)" "CHR 0x0A \<notin> set (g_full g)" "g_full g \<noteq> []"
    "pick g u l @ r = pick g u' l' @ r' \<Longrightarrow> u = u' \<and> l = l'"
proof -
  note g = assms [unfolded glyphs_ok_def]
  show "CHR 0x0A \<notin> set (g_white g)" "CHR 0x0A \<notin> set (g_reset g)" "CHR 0x0A \<notin> set (pick g u l)" "CHR 0x0A \<notin> set (g_full g)" "g_full g \<noteq> []"
    using conjunct1 [OF g] conjunct2 [OF g, THEN conjunct1] by (auto simp: pick_def)
  show "pick g u l @ r = pick g u' l' @ r' \<Longrightarrow> u = u' \<and> l = l'" using g by blast
qed

lemma lines_text_inj:
  "lines_text ls = lines_text ls' \<Longrightarrow> (\<forall>l\<in>set ls \<union> set ls'. CHR 0x0A \<notin> set l) \<Longrightarrow> ls = ls'"
proof (induction ls ls' rule: list_induct2')
  case (4 l ls l' ls')
  have n: "CHR 0x0A \<notin> set l" "CHR 0x0A \<notin> set l'" using 4(3) by auto
  have e: "l @ CHR 0x0A # lines_text ls = l' @ CHR 0x0A # lines_text ls'" using 4(2) by (simp add: lines_text_def)
  have t: "takeWhile (\<lambda>c. c \<noteq> CHR 0x0A) (m @ CHR 0x0A # r) = m" if "CHR 0x0A \<notin> set m" for m r
    using that by (induction m) auto
  have "l = l'" using t [OF n(1)] t [OF n(2)] e by metis
  with e 4 show ?case by auto
qed (auto simp: lines_text_def)

lemma pick_concat_inj:
  assumes "glyphs_ok g"
  shows "concat (map (\<lambda>x. pick g (u x) (l x)) xs) = concat (map (\<lambda>x. pick g (u' x) (l' x)) xs) \<Longrightarrow> x \<in> set xs \<Longrightarrow> u x = u' x \<and> l x = l' x"
proof (induction xs)
  case (Cons a xs)
  have "u a = u' a \<and> l a = l' a" using Cons.prems(1) glyphs_okD(6) [OF assms] by (simp only: list.map concat.simps)
  with Cons show ?case by auto
qed simp

lemma line_ends:
  assumes "glyphs_ok g"
  shows "\<forall>l\<in>set (margin_line g q # data_lines g q @ [margin_line g q]). CHR 0x0A \<notin> set l"
proof -
  have "CHR 0x0A \<notin> set (concat (row_glyphs g q y))" for y using glyphs_okD(3) [OF assms] by (auto simp: row_glyphs_def)
  then show ?thesis using glyphs_okD(1,2,4) [OF assms] by (auto simp: margin_line_def data_lines_def framed_def repeated_def)
qed

lemma margin_line_width:
  assumes "glyphs_ok g" "margin_line g q = margin_line g q'" "qr_ok q" "qr_ok q'"
  shows "qr_width q = qr_width q'"
proof -
  have l: "length (repeated n s) = n * length s" for n and s :: string by (simp add: repeated_def length_concat sum_list_replicate)
  from arg_cong [OF assms(2), of length] have "(nat (qr_width q) + 4) * length (g_full g) = (nat (qr_width q') + 4) * length (g_full g)"
    by (simp add: margin_line_def framed_def l)
  then have "nat (qr_width q) = nat (qr_width q')" using glyphs_okD(5) [OF assms(1)] by simp
  then show ?thesis using assms(3,4) unfolding qr_ok_def by linarith
qed

lemma data_lines_dark:
  assumes g: "glyphs_ok g" and e: "data_lines g q = data_lines g q'" "qr_width q = qr_width q'"
    and x: "x < nat (qr_width q)" and y: "y < nat (qr_width q)"
  shows "dark q y x = dark q' y x"
proof -
  let ?j = "y div 2"
  have j: "?j < (nat (qr_width q) + 1) div 2" using y by linarith
  have "data_lines g q ! ?j = data_lines g q' ! ?j" using e by simp
  then have "concat (row_glyphs g q (2 * ?j)) = concat (row_glyphs g q' (2 * ?j))"
    using j e(2) by (simp add: data_lines_def framed_def del: upt_Suc)
  then have "dark q (2 * ?j) x = dark q' (2 * ?j) x \<and>
      (Suc (2 * ?j) < nat (qr_width q) \<and> dark q (Suc (2 * ?j)) x) = (Suc (2 * ?j) < nat (qr_width q) \<and> dark q' (Suc (2 * ?j)) x)"
    unfolding row_glyphs_def e(2) [symmetric] by (rule pick_concat_inj [OF g]) (simp add: x)
  moreover have "y = 2 * ?j \<or> y = Suc (2 * ?j)" by presburger
  ultimately show ?thesis using y by metis
qed

lemma dark_data_lines:
  assumes "qr_width q = qr_width q'" "\<forall>y<nat (qr_width q). \<forall>x<nat (qr_width q). dark q y x = dark q' y x"
  shows "margin_line g q = margin_line g q' \<and> data_lines g q = data_lines g q'"
proof -
  have "row_glyphs g q (2 * j) = row_glyphs g q' (2 * j)" if "j < (nat (qr_width q) + 1) div 2" for j
  proof -
    have "2 * j < nat (qr_width q)" using that by linarith
    then show ?thesis using assms by (auto simp: row_glyphs_def cong: conj_cong)
  qed
  then show ?thesis using assms(1) by (simp add: margin_line_def data_lines_def)
qed

text \<open>C23: printing a code of any width reads only its modules and succeeds; and the text on the terminal says
  everything about it: two codes are printed alike, with any colours, plain or inverted, exactly when they have the same width
  and the same dark modules.
\<close>

theorem writeUTF8_faithful:
  assumes "qr_ok q" "qr_ok q'"
  shows "(\<exists>text. writeUTF8 q fp a i = Some (fp @ text, 0)) \<and>
    (writeUTF8 q fp a i = writeUTF8 q' fp a i \<longleftrightarrow>
      qr_width q = qr_width q' \<and> (\<forall>y<nat (qr_width q). \<forall>x<nat (qr_width q). dark q y x = dark q' y x))"
proof
  let ?g = "utf8_glyphs a i"
  show "\<exists>text. writeUTF8 q fp a i = Some (fp @ text, 0)" using writeUTF8_eq [OF assms(1)] by blast
  show "writeUTF8 q fp a i = writeUTF8 q' fp a i \<longleftrightarrow>
      qr_width q = qr_width q' \<and> (\<forall>y<nat (qr_width q). \<forall>x<nat (qr_width q). dark q y x = dark q' y x)"
  proof
    assume "writeUTF8 q fp a i = writeUTF8 q' fp a i"
    then have "lines_text (margin_line ?g q # data_lines ?g q @ [margin_line ?g q]) =
        lines_text (margin_line ?g q' # data_lines ?g q' @ [margin_line ?g q'])"
      unfolding writeUTF8_eq [OF assms(1)] writeUTF8_eq [OF assms(2)] by simp
    from lines_text_inj [OF this] have e: "margin_line ?g q = margin_line ?g q'" "data_lines ?g q = data_lines ?g q'"
      using line_ends [OF utf8_glyphs_ok, of a i] by auto
    have w: "qr_width q = qr_width q'" using margin_line_width [OF utf8_glyphs_ok e(1) assms] .
    with data_lines_dark [OF utf8_glyphs_ok e(2) w]
    show "qr_width q = qr_width q' \<and> (\<forall>y<nat (qr_width q). \<forall>x<nat (qr_width q). dark q y x = dark q' y x)" by blast
  next
    assume "qr_width q = qr_width q' \<and> (\<forall>y<nat (qr_width q). \<forall>x<nat (qr_width q). dark q y x = dark q' y x)"
    then show "writeUTF8 q fp a i = writeUTF8 q' fp a i"
      unfolding writeUTF8_eq [OF assms(1)] writeUTF8_eq [OF assms(2)] using dark_data_lines [of q q' ?g] by simp
  qed
qed

text \<open>Only the lowest bit of a module is printed: two data arrays that differ above it print alike.\<close>

theorem writeUTF8_faithful_witness:
  "writeUTF8 \<lparr>qr_width = 1, qr_data = [3]\<rparr> '''' 2 1 = writeUTF8 \<lparr>qr_width = 1, qr_data = [1]\<rparr> '''' 2 1"
  using writeUTF8_faithful [of "\<lparr>qr_width = 1, qr_data = [3]\<rparr>" "\<lparr>qr_width = 1, qr_data = [1]\<rparr>" "''''" 2 1]
  by (simp add: qr_ok_def dark_def)

end
