(* ===== verification/Spec2Isabelle.thy ===== *)
theory Spec2Isabelle
  imports DictMain MphashProps Base64Old EventLoop Md5Spec MempoolProps CjsonProps ThreadPoolProps
    AddTwoNumbers IpAddr QrText
begin

text \<open>
  Verification of the C demos of the repository: the libraries and programs under \<open>src/\<close> that have logic of
  their own.  They are independent of each other but for four groups: \<open>demo_dict/dict.c\<close> with its client,
  the memory pool with the hash table it keeps its blocks in, the event queue with the threads that use it, and the thread
  pool with the queue macros of \<open>sys/queue.h\<close>.

  \<^bold>\<open>How C is modelled.\<close>  Machine integers are words of their width; an \<open>int\<close> whose arithmetic
  cannot overflow, or whose overflow is tested for as undefined, is an integer.  Pointers are natural numbers with
  \<open>NULL = 0\<close>, and the objects of a type are a partial map from pointers to records.  A function whose code can
  read or write outside an object, divide by zero, overflow a signed integer or run for ever returns an option, with \<open>None\<close>
  for these; a theorem that says \<open>f s = Some t\<close> therefore says that the code returns, and without undefined
  behaviour.  Loops that need not end are \<open>partial_function (option)\<close>.  What \<open>malloc\<close> returns, what it leaves in memory,
  callbacks, threads, clocks and libraries are parameters.  \<open>CPrelude\<close>, \<open>CText\<close> and
  \<open>Chains\<close> hold this vocabulary: partiality, characters and decimal text, and singly and doubly linked chains of nodes with
  insertion, unlinking and replacement proved once for every list of the program.

  \<^bold>\<open>Hash functions.\<close>  \<open>HashFuns\<close>: every function of \<open>demo_hash/demo_hash.h\<close> and the copies in \<open>dict.c\<close>
  and \<open>mphash.c\<close>.  Shown: Wang's integer mix is a bijection.

  \<^bold>\<open>Hash table with chaining\<close>, \<open>demo_dict/dict.c\<close>, \<open>dict.h\<close>, \<open>demo_dict.c\<close>.  \<open>Dict\<close> has the table, its growth, insertion,
  replacement, deletion, lookup, iteration and clearing, one definition per function.  \<open>DictSpec\<close> and \<open>DictWalk\<close> give the invariant \<open>dict_inv\<close>
  and the abstraction \<open>dict_map\<close> to a finite map; the locale \<open>dict_callbacks\<close> is what the table relies on of its callbacks.
  \<open>DictDemo\<close> interprets it on the callbacks of the demo and states the refinement of every operation; \<open>DictMain\<close> composes them to
  the run of the demo's main.

  \<^bold>\<open>Memory pool\<close>, \<open>demo_mempool\<close>.  \<open>Mphash\<close> is the fixed-capacity table of \<open>mphash.c\<close> with sorted doubly linked
  buckets and a free list in one array; \<open>MphashSpec\<close>, \<open>MphashTable\<close> and \<open>MphashProps\<close> show that it refines a bounded set
  (locale \<open>mp_callbacks\<close>, interpreted on the callbacks the pool uses).  \<open>Mempool\<close> has the blocks of one pool of \<open>mempool.c\<close> at their
  addresses, with 16-bit offsets as links, \<open>MempoolOps\<close> the operations over the list of pools.  The proof goes
  bottom up: the blocks tile the memory (\<open>MempoolTiles\<close>), the lists of headers (\<open>MempoolLists\<close>), splitting
  (\<open>MempoolSplit\<close>), the invariant of a pool (\<open>MempoolInv\<close>), searching a list (\<open>MempoolScan\<close>), coalescing (\<open>MempoolMerge\<close>,
  \<open>MempoolFree\<close>), all pools side by side (\<open>MempoolHeap\<close>), allocation over them (\<open>MempoolAlloc\<close>), release (\<open>MempoolRelease\<close>),
  \<open>palloc\<close> and \<open>pfree\<close> (\<open>MempoolApi\<close>), the return of the search (\<open>MempoolReturns\<close>), the list of pools behind a base pool with
  its tail, the pools kept for later and the two hash tables (\<open>MempoolChain\<close>), and the operations of the manager on them
  (\<open>MempoolManaged\<close>).  \<open>MempoolProps\<close>: a new pool with a limit is a manager in order; a block that \<open>palloc\<close> hands out has the size
  asked for and overlaps no other; \<open>palloc\<close> and \<open>pfree\<close> return and keep the manager in order, \<open>palloc\<close> while no pool has failed
  often; \<open>mempool_destroy\<close> frees everything once; two pools that have failed often can keep the search from ending;
  bounded copies stay inside their block.

  \<^bold>\<open>Base64\<close>, \<open>demo_base64\<close>.  \<open>Base64\<close>, \<open>Base64Spec\<close>, \<open>Base64Old\<close>: encoder and both decoders with every access checked; the encoder
  writes the base64 text, decoding inverts it, the decoders agree on it, and malformed input is read out of bounds.

  \<^bold>\<open>MD5\<close>, \<open>demo_openssl/demo_md5\<close>.  \<open>Md5\<close> is the code with its 64 unrolled steps, \<open>Md5Spec\<close> the table-driven reference of RFC 1321
  and the proof that any cutting of a message into updates yields its digest.

  \<^bold>\<open>Events\<close>, \<open>demo_event\<close>.  \<open>EventQueue\<close>: the circular queue, which refines a list (locale \<open>fifo\<close>).  \<open>EventLoop\<close>: workers
  and producers as a step relation over the queue, the lock and the condition variable; mutual exclusion, order, no loss and
  no lost wake-up hold in every reachable state.

  \<^bold>\<open>Thread pool\<close>, \<open>demo_pthread/thread_pool\<close>.  \<open>TailQueue\<close>: the TAILQ macros over explicit link fields, which refine a list (a locale).
  \<open>ThreadPool\<close>: creation, growth, shrinking, waiting and destruction as functions, workers and submitters as a step
  relation.  \<open>ThreadPoolInv\<close> is the inductive invariant; \<open>ThreadPoolProps\<close> shows that jobs are handled once and in order and that the pool
  makes progress, and that shutting down an idle pool hangs.

  \<^bold>\<open>JSON\<close>, \<open>demo_json/cJSON.c\<close>.  \<open>Cjson\<close> has characters, numbers and strings, \<open>CjsonOps\<close> parsing, printing, minifying and the list
  operations over a heap of nodes.  \<open>CjsonTree\<close> relates nodes to values and proves the printer against a reference text, \<open>CjsonStr\<close>,
  \<open>CjsonParse\<close> and \<open>CjsonRead\<close> that parsing reads it back, \<open>CjsonList\<close> the children as a list and what deletion frees.  \<open>CjsonLex\<close>
  and \<open>CjsonSafe\<close> consider arbitrary text and failing allocations: outside three malformed patterns the parser stays in its text and
  leaves a well-formed tree or nothing.  \<open>CjsonProps\<close> states this, and that the three patterns are read out of bounds.  The recursive
  functions take the nesting depth as fuel, which stands for the stack: the properties name a sufficient depth, at most the
  length of the text.  Double arithmetic and \<open>printf\<close> of doubles are a parameter; the round trip covers trees whose numbers are 32-bit integers,
  with a hypothesis that says that small integers are exact in it.

  \<^bold>\<open>Small programs.\<close>  \<open>AddTwoNumbers\<close> (\<open>demo_leetcode/1_*/main.c\<close>): the sum of two digit lists.  \<open>IpAddr\<close> (\<open>demo_ipaddr/demo_ip_int.c\<close>):
  addresses to text and back.  \<open>QrText\<close> (\<open>demo_qrcode/demo_qrencode.c\<close>): the text of a code determines its modules.

  \<^bold>\<open>Not modelled.\<close>  The vendored libraries \<open>demo_libevent/libevent\<close> and \<open>demo_nids/nids/libnids-1.24\<close>; generated protobuf code; the demos that
  only call a library or the kernel and print (sockets, ZeroMQ, capture, OpenSSL, files, logging, dates, options, configuration, memory maps,
  daemons, atomics, libmagic, attributes, inline assembly), the runner \<open>main.c\<close> and the drivers with fixed inputs: they compute nothing that is not
  computed by the code they call.  Of the modelled files, debug printing, tests and thread creation are left out.
\<close>

end
